(* ===== verification/Prelude.thy ===== *)
theory Prelude
  imports Main "HOL-Library.Word" "HOL-Library.Sublist"
begin

unbundle bit_operations_syntax

text \<open>
  Shared vocabulary of the development.

  \<^item> The machine types of the code: \<open>u8\<close>, the arena index \<open>NodeId = u32\<close>, byte strings and
    nibble strings (both are \<open>[u8]\<close> in the code), 32-byte hashes.
  \<^item> The three ways a Rust call can end: \<open>Ok\<close>, \<open>Err\<close>, or a panic. Panics are values
    here, so that "does not panic" is a statement that can be proved. Running out of fuel is the
    panic \<open>StackOverflow\<close>: in the models fuel bounds the depth of the recursion.
  \<^item> \<open>and_then\<close>, the \<open>?\<close> operator over a threaded state: an \<open>Err\<close> or a panic keeps the
    state reached so far and skips the rest.
  \<^item> Generic facts on lists, words and nibbles.
\<close>

named_theorems outcome_simps \<open>evaluation of threaded outcomes\<close>
named_theorems nib_simps \<open>bit-level facts on bytes and nibbles\<close>

type_synonym byte = "8 word"
type_synonym bytes = "byte list"
type_synonym nibs = "byte list"
type_synonym node_id = "32 word"

section \<open>Outcomes of a call\<close>

datatype panic_kind =
    IndexOutOfBounds
  | UnwrapNone
  | UnreachableCode
  | AlreadyBorrowed
  | LengthMismatch
  | StackOverflow
  | Unimplemented
  | AssertionFailed

datatype ('e, 'a) outcome = Ok 'a | Err 'e | Panic panic_kind

definition and_then ::
  "('e, 'a) outcome \<times> 's \<Rightarrow> ('a \<Rightarrow> 's \<Rightarrow> ('e, 'b) outcome \<times> 's) \<Rightarrow> ('e, 'b) outcome \<times> 's" where
  "and_then r f = (case fst r of Ok a \<Rightarrow> f a (snd r) | Err e \<Rightarrow> (Err e, snd r)
     | Panic p \<Rightarrow> (Panic p, snd r))"

lemma and_then_simps [simp, outcome_simps]:
  "and_then (Ok a, s) f = f a s"
  "and_then (Err e, s) f = (Err e, s)"
  "and_then (Panic p, s) f = (Panic p, s)"
  by (simp_all add: and_then_def)

lemma and_then_Ok_iff:
  "and_then r f = (Ok b, s') \<longleftrightarrow> (\<exists>a s. r = (Ok a, s) \<and> f a s = (Ok b, s'))"
  by (cases r; cases "fst r") (auto simp: and_then_def)

lemma and_then_OkE:
  assumes "and_then r f = (Ok b, s')"
  obtains a s where "r = (Ok a, s)" and "f a s = (Ok b, s')"
  using assms by (auto simp: and_then_Ok_iff)

definition is_panic :: "('e, 'a) outcome \<Rightarrow> bool" where
  "is_panic r = (case r of Panic _ \<Rightarrow> True | _ \<Rightarrow> False)"

lemma is_panic_simps [simp]:
  "\<not> is_panic (Ok a)" "\<not> is_panic (Err e)" "is_panic (Panic p)"
  by (simp_all add: is_panic_def)

definition lift_outcome :: "('e \<Rightarrow> 'f) \<Rightarrow> ('e, 'a) outcome \<Rightarrow> ('f, 'a) outcome" where
  "lift_outcome h r = (case r of Ok a \<Rightarrow> Ok a | Err e \<Rightarrow> Err (h e) | Panic p \<Rightarrow> Panic p)"

lemma lift_outcome_simps [simp]:
  "lift_outcome h (Ok a) = Ok a" "lift_outcome h (Err e) = Err (h e)"
  "lift_outcome h (Panic p) = Panic p"
  by (simp_all add: lift_outcome_def)

section \<open>Checked indexing\<close>

definition nth_opt :: "'a list \<Rightarrow> nat \<Rightarrow> 'a option" where
  "nth_opt xs i = (if i < length xs then Some (xs ! i) else None)"

lemma nth_opt_Some_iff [simp]: "nth_opt xs i = Some x \<longleftrightarrow> i < length xs \<and> xs ! i = x"
  by (auto simp: nth_opt_def)

lemma nth_opt_None_iff [simp]: "nth_opt xs i = None \<longleftrightarrow> length xs \<le> i"
  by (auto simp: nth_opt_def)

lemma nth_opt_update:
  "nth_opt (xs[i := x]) j = (if j = i \<and> i < length xs then Some x else nth_opt xs j)"
  by (auto simp: nth_opt_def nth_list_update)

lemma nth_opt_append_old: "i < length xs \<Longrightarrow> nth_opt (xs @ ys) i = nth_opt xs i"
  by (auto simp: nth_opt_def nth_append)

lemma nth_opt_append_new: "nth_opt (xs @ [y]) (length xs) = Some y"
  by (simp add: nth_opt_def)

section \<open>Arena indices\<close>

lemma unat_node_id [simp]: "n < 2 ^ 32 \<Longrightarrow> unat (of_nat n :: node_id) = n"
  by (simp add: unat_of_nat)

lemma node_id_eq_iff: "(i :: node_id) = j \<longleftrightarrow> unat i = unat j"
  by (simp add: word_unat_eq_iff)

section \<open>Saturating arithmetic\<close>

text \<open>Saturating arithmetic on \<open>usize\<close>, of \<open>w\<close> bits.\<close>

definition saturating_add :: "nat \<Rightarrow> nat \<Rightarrow> nat \<Rightarrow> nat" where
  "saturating_add w a b = min (a + b) (2 ^ w - 1)"

definition saturating_mul :: "nat \<Rightarrow> nat \<Rightarrow> nat \<Rightarrow> nat" where
  "saturating_mul w a b = min (a * b) (2 ^ w - 1)"

section \<open>Nibbles\<close>

definition nibbles :: "nibs \<Rightarrow> bool" where
  "nibbles ns = list_all (\<lambda>n. unat n < 16) ns"

lemma nibbles_simps [simp, nib_simps]:
  "nibbles []" "nibbles (n # ns) \<longleftrightarrow> unat n < 16 \<and> nibbles ns"
  "nibbles (as @ bs) \<longleftrightarrow> nibbles as \<and> nibbles bs"
  by (simp_all add: nibbles_def)

lemma nibbles_take_drop [simp]:
  "nibbles ns \<Longrightarrow> nibbles (take k ns)" "nibbles ns \<Longrightarrow> nibbles (drop k ns)"
  unfolding nibbles_def list_all_iff by (auto dest: in_set_takeD in_set_dropD)

lemma nibbles_nth: "nibbles ns \<Longrightarrow> k < length ns \<Longrightarrow> unat (ns ! k) < 16"
  by (simp add: nibbles_def list_all_length)

end
