(* ===== verification/Hex_Prefix.thy ===== *)
theory Hex_Prefix
  imports Prelude
begin

text \<open>
  Model of \<^verbatim>\<open>crates/mpt/src/hp.rs\<close>: nibble strings and the hex-prefix (compact) encoding of
  the paths in leaf and extension nodes.

  The two comparison routines \<open>encoded_path_eq_nibs\<close> and \<open>encoded_path_strip_prefix\<close> walk the
  packed bytes with two indices and never build the nibble string; their models keep the indices,
  and \<open>None\<close> is the index panic of \<^verbatim>\<open>encoded_path[j]\<close> or \<^verbatim>\<open>nibs[i]\<close>. The lemmas show that the
  indices stay in range and that both agree with the reference on decoded nibbles.
\<close>

section \<open>The operations\<close>

definition HP_FLAG_ODD :: byte where
  "HP_FLAG_ODD = 0x10"

definition HP_FLAG_LEAF :: byte where
  "HP_FLAG_LEAF = 0x20"

fun lcp_from :: "nat \<Rightarrow> nibs \<Rightarrow> nibs \<Rightarrow> nat option" where
  "lcp_from i (a # as) (b # bs) = (if a \<noteq> b then Some i else lcp_from (i + 1) as bs)"
| "lcp_from i _ _ = None"

definition lcp :: "nibs \<Rightarrow> nibs \<Rightarrow> nat" where
  "lcp a b = (case lcp_from 0 a b of Some i \<Rightarrow> i | None \<Rightarrow> min (length a) (length b))"

fun to_nibs :: "bytes \<Rightarrow> nibs" where
  "to_nibs [] = []"
| "to_nibs (b # bs) = drop_bit 4 b # (b AND 0x0f) # to_nibs bs"

definition prefix_to_nibs :: "bytes \<Rightarrow> nibs" where
  "prefix_to_nibs encoded_path =
     (case encoded_path of
        [] \<Rightarrow> []
      | first_byte # rest \<Rightarrow>
          (let is_odd = (first_byte AND HP_FLAG_ODD) \<noteq> 0 in
           (if is_odd then [first_byte AND 0x0f] else []) @ to_nibs rest))"

definition encoded_path_nibble_count :: "bytes \<Rightarrow> nat" where
  "encoded_path_nibble_count encoded_path =
     (case encoded_path of
        [] \<Rightarrow> 0
      | first_byte # _ \<Rightarrow>
          (let is_odd = (first_byte AND HP_FLAG_ODD) \<noteq> 0 in
           2 * (length encoded_path - 1) + (if is_odd then 1 else 0)))"

text \<open>
  The body of the \<^verbatim>\<open>while i + 1 < n\<close> loop of both routines together with the test of a
  last high nibble after it: \<open>Some (Some i)\<close> when every nibble agreed (with the final \<open>i\<close>),
  \<open>Some None\<close> on a mismatch, \<open>None\<close> when an index is out of range.
\<close>

function match_packed :: "bytes \<Rightarrow> nibs \<Rightarrow> nat \<Rightarrow> nat \<Rightarrow> nat \<Rightarrow> nat option option" where
  "match_packed encoded_path ns n i j =
     (if i + 1 < n then
        (case (nth_opt encoded_path j, nth_opt ns i, nth_opt ns (i + 1)) of
           (Some b, Some hi, Some lo) \<Rightarrow>
             (if hi \<noteq> drop_bit 4 b then Some None
              else if lo \<noteq> (b AND 0x0f) then Some None
              else match_packed encoded_path ns n (i + 2) (j + 1))
         | _ \<Rightarrow> None)
      else if i < n then
        (case (nth_opt encoded_path j, nth_opt ns i) of
           (Some b, Some hi) \<Rightarrow> (if hi \<noteq> drop_bit 4 b then Some None else Some (Some (i + 1)))
         | _ \<Rightarrow> None)
      else Some (Some i))"
  by pat_completeness auto
termination
  by (relation "measure (\<lambda>(_, _, n, i, _). n - i)") auto

declare match_packed.simps [simp del]

definition encoded_path_eq_nibs :: "bytes \<Rightarrow> nibs \<Rightarrow> bool option" where
  "encoded_path_eq_nibs encoded_path ns =
     (let nib_count = encoded_path_nibble_count encoded_path in
      if nib_count \<noteq> length ns then Some False
      else if nib_count = 0 then Some True
      else
        (case nth_opt encoded_path 0 of
           None \<Rightarrow> None
         | Some first \<Rightarrow>
             (let is_odd = (first AND HP_FLAG_ODD) \<noteq> 0 in
              if is_odd then
                (case nth_opt ns 0 of
                   None \<Rightarrow> None
                 | Some n0 \<Rightarrow>
                     (if n0 \<noteq> (first AND 0x0f) then Some False
                      else map_option (\<lambda>r. r \<noteq> None) (match_packed encoded_path ns (length ns) 1 1)))
              else map_option (\<lambda>r. r \<noteq> None) (match_packed encoded_path ns (length ns) 0 1))))"

definition encoded_path_strip_prefix :: "bytes \<Rightarrow> nibs \<Rightarrow> nibs option option" where
  "encoded_path_strip_prefix encoded_path ns =
     (let nib_count = encoded_path_nibble_count encoded_path in
      if nib_count > length ns then Some None
      else if nib_count = 0 then Some (Some ns)
      else
        (case nth_opt encoded_path 0 of
           None \<Rightarrow> None
         | Some first \<Rightarrow>
             (let is_odd = (first AND HP_FLAG_ODD) \<noteq> 0 in
              if is_odd then
                (case nth_opt ns 0 of
                   None \<Rightarrow> None
                 | Some n0 \<Rightarrow>
                     (if n0 \<noteq> (first AND 0x0f) then Some None
                      else map_option (map_option (\<lambda>i. drop i ns))
                             (match_packed encoded_path ns nib_count 1 1)))
              else map_option (map_option (\<lambda>i. drop i ns))
                     (match_packed encoded_path ns nib_count 0 1))))"

text \<open>
  The packing loop \<^verbatim>\<open>for i in (start..nibs.len()).step_by(2)\<close>: the caller starts it so that an
  even number of nibbles remains, so the index \<^verbatim>\<open>i + 1\<close> is always in range.
\<close>

fun pack_pairs :: "nibs \<Rightarrow> bytes" where
  "pack_pairs (hi # lo # ns) = (push_bit 4 hi OR lo) # pack_pairs ns"
| "pack_pairs _ = []"

definition to_encoded_path :: "nibs \<Rightarrow> bool \<Rightarrow> bytes" where
  "to_encoded_path ns is_leaf =
     (let is_odd = odd (length ns);
          prefix = (if is_leaf then 0x20 else 0x00 :: byte) in
      if is_odd then ((prefix OR 0x10) OR ns ! 0) # pack_pairs (drop 1 ns)
      else prefix # pack_pairs ns)"

text \<open>
  \<^verbatim>\<open>to_encoded_path_with_bump\<close> is the same routine with its output in the bump arena, whose
  allocations the model does not track.
\<close>

definition to_encoded_path_with_bump :: "nibs \<Rightarrow> bool \<Rightarrow> bytes" where
  "to_encoded_path_with_bump ns is_leaf =
     (let is_odd = odd (length ns);
          prefix = (if is_leaf then 0x20 else 0x00 :: byte) in
      if is_odd then ((prefix OR 0x10) OR ns ! 0) # pack_pairs (drop 1 ns)
      else prefix # pack_pairs ns)"

section \<open>Bit-level facts\<close>


lemma and_0f [nib_simps]: "b AND 0x0f = take_bit 4 (b :: byte)"
  by (simp add: take_bit_eq_mask mask_eq_exp_minus_1)

lemma nibble_iff_take_bit: "unat (n :: byte) < 16 \<longleftrightarrow> take_bit 4 n = n"
proof -
  have "unat (take_bit 4 n) = unat n mod 16"
    by (simp only: unsigned_take_bit_eq) (simp add: take_bit_eq_mod)
  then show ?thesis
    by (metis mod_less mod_less_divisor word_unat_eq_iff zero_less_numeral)
qed

lemma bit_nibble: "unat (n :: byte) < 16 \<Longrightarrow> bit n k \<Longrightarrow> k < 4"
  by (metis bit_take_bit_iff nibble_iff_take_bit)

lemma bit_0x10: "bit (0x10 :: byte) k \<longleftrightarrow> k = 4"
proof -
  have "(0x10 :: byte) = push_bit 4 1" by simp
  then show ?thesis by (simp only: bit_push_bit_iff) (auto simp: bit_1_iff)
qed

lemma bit_0x20: "bit (0x20 :: byte) k \<longleftrightarrow> k = 5"
proof -
  have "(0x20 :: byte) = push_bit 5 1" by simp
  then show ?thesis by (simp only: bit_push_bit_iff) (auto simp: bit_1_iff)
qed

lemma and_0x10_eq: "(b :: byte) AND 0x10 \<noteq> 0 \<longleftrightarrow> bit b 4"
  using and_exp_eq_0_iff_not_bit [of b 4] by simp

lemma and_0x20_eq: "(b :: byte) AND 0x20 \<noteq> 0 \<longleftrightarrow> bit b 5"
  using and_exp_eq_0_iff_not_bit [of b 5] by simp

lemma high_nibble_bound [simp, nib_simps]: "unat (drop_bit 4 (b :: byte)) < 16"
  unfolding nibble_iff_take_bit
  by (rule bit_word_eqI) (auto simp: bit_simps dest: bit_imp_le_length)

lemma low_nibble_bound [simp, nib_simps]: "unat (b AND 0x0f :: byte) < 16"
  unfolding nibble_iff_take_bit and_0f by simp

lemma nib_split [simp, nib_simps]: "push_bit 4 (drop_bit 4 b) OR (b AND 0x0f) = (b :: byte)"
  unfolding and_0f by (rule bit_word_eqI) (auto simp: bit_simps)

lemma high_of_packed [simp, nib_simps]:
  assumes "unat (hi :: byte) < 16" "unat (lo :: byte) < 16"
  shows "drop_bit 4 (push_bit 4 hi OR lo) = hi"
  by (rule bit_word_eqI) (use assms in \<open>auto simp: bit_simps dest: bit_nibble\<close>)

lemma low_of_packed [simp, nib_simps]:
  assumes "unat (hi :: byte) < 16" "unat (lo :: byte) < 16"
  shows "(push_bit 4 hi OR lo) AND 0x0f = lo"
  unfolding and_0f by (rule bit_word_eqI) (use assms in \<open>auto simp: bit_simps dest: bit_nibble\<close>)

lemma high_of_packed_or [simp, nib_simps]:
  assumes "unat (hi :: byte) < 16" "unat (lo :: byte) < 16"
  shows "drop_bit 4 (push_bit 4 hi) OR drop_bit 4 lo = hi"
  using high_of_packed [OF assms] by simp


lemma bit_0x30: "bit (0x30 :: byte) k \<longleftrightarrow> k = 4 \<or> k = 5"
proof -
  have "(0x30 :: byte) = 0x20 OR 0x10" by simp
  then show ?thesis by (auto simp only: bit_or_iff bit_0x10 bit_0x20)
qed

text \<open>The first byte of an odd path: \<open>0x1n\<close> for an extension, \<open>0x3n\<close> for a leaf.\<close>

lemma odd_flag_set [simp, nib_simps]:
  "(0x10 OR n :: byte) AND 0x10 \<noteq> 0" "(0x30 OR n :: byte) AND 0x10 \<noteq> 0"
  unfolding and_0x10_eq by (simp_all only: bit_or_iff bit_0x10 bit_0x30) simp_all

lemma odd_low_nibble [simp, nib_simps]:
  assumes "unat (n :: byte) < 16"
  shows "(0x10 OR n) AND 0x0f = n" "(0x30 OR n) AND 0x0f = n"
  unfolding and_0f
  by (rule bit_word_eqI, use assms in
       \<open>auto simp only: bit_take_bit_iff bit_or_iff bit_0x10 bit_0x30 dest: bit_nibble\<close>)+

lemma leaf_flag_odd [simp, nib_simps]:
  assumes "unat (n :: byte) < 16"
  shows "(0x10 OR n) AND 0x20 = 0" "(0x30 OR n) AND 0x20 \<noteq> 0"
proof -
  have "\<not> bit (0x10 OR n) 5"
    using assms by (auto simp only: bit_or_iff bit_0x10 dest: bit_nibble)
  then show "(0x10 OR n) AND 0x20 = 0" using and_0x20_eq by blast
  show "(0x30 OR n) AND 0x20 \<noteq> 0"
    unfolding and_0x20_eq by (simp only: bit_or_iff bit_0x30) simp
qed

section \<open>Nibble strings and packing\<close>

lemma length_to_nibs [simp]: "length (to_nibs bs) = 2 * length bs"
  by (induction bs) auto

lemma nibbles_to_nibs [simp]: "nibbles (to_nibs bs)"
  by (induction bs) auto

lemma pack_pairs_to_nibs [simp]: "pack_pairs (to_nibs bs) = bs"
  by (induction bs) auto

lemma to_nibs_inject [simp]: "to_nibs a = to_nibs b \<longleftrightarrow> a = b"
  by (metis pack_pairs_to_nibs)

lemma to_nibs_pack_pairs: "even (length ns) \<Longrightarrow> nibbles ns \<Longrightarrow> to_nibs (pack_pairs ns) = ns"
  by (induction ns rule: pack_pairs.induct) auto

lemma length_pack_pairs [simp]: "length (pack_pairs ns) = length ns div 2"
  by (induction ns rule: pack_pairs.induct) auto

lemma to_encoded_path_with_bump_eq [simp]: "to_encoded_path_with_bump = to_encoded_path"
  by (intro ext) (simp add: to_encoded_path_with_bump_def to_encoded_path_def)

lemma to_encoded_path_nonempty [simp]: "to_encoded_path ns l \<noteq> []"
  by (simp add: to_encoded_path_def Let_def)

lemma length_to_encoded_path: "length (to_encoded_path ns l) = length ns div 2 + 1"
  by (auto simp: to_encoded_path_def Let_def elim!: oddE)

lemma prefix_to_nibs_encoded [simp]:
  assumes "nibbles ns"
  shows "prefix_to_nibs (to_encoded_path ns l) = ns"
proof (cases "odd (length ns)")
  case True
  then obtain n ms where ns: "ns = n # ms" and ms: "even (length ms)"
    by (cases ns) auto
  with assms show ?thesis
    by (simp add: to_encoded_path_def prefix_to_nibs_def to_nibs_pack_pairs HP_FLAG_ODD_def)
next
  case False
  with assms show ?thesis
    by (simp add: to_encoded_path_def prefix_to_nibs_def to_nibs_pack_pairs Let_def HP_FLAG_ODD_def)
qed

lemma nibbles_prefix_to_nibs [simp]: "nibbles (prefix_to_nibs p)"
  by (simp add: prefix_to_nibs_def Let_def split: list.split)

lemma length_prefix_to_nibs: "length (prefix_to_nibs p) = encoded_path_nibble_count p"
  by (auto simp: prefix_to_nibs_def encoded_path_nibble_count_def Let_def split: list.split)

lemma leaf_flag [simp]:
  assumes "nibbles ns"
  shows "hd (to_encoded_path ns l) AND 0x20 \<noteq> 0 \<longleftrightarrow> l"
proof (cases ns)
  case (Cons n ms)
  with assms show ?thesis by (simp add: to_encoded_path_def)
qed (simp add: to_encoded_path_def)

section \<open>The index-walking comparisons\<close>

lemma nth_drop_pair:
  "i + 1 < length ns \<Longrightarrow> drop i ns = ns ! i # ns ! (i + 1) # drop (i + 2) ns"
  by (metis Cons_nth_drop_Suc Suc_eq_plus1 Suc_lessD add_2_eq_Suc')

lemma match_packed_eq:
  assumes "n \<le> length ns" "i \<le> n" "j \<le> length p" "n - i = 2 * (length p - j)"
  shows "match_packed p ns n i j =
    Some (if take (n - i) (drop i ns) = to_nibs (drop j p) then Some n else None)"
  using assms(2-)
proof (induction "length p - j" arbitrary: i j)
  case 0
  then have "n = i" "j = length p" by simp_all
  then show ?case by (subst match_packed.simps) simp
next
  case (Suc k)
  then have j: "j < length p" and n: "i + 1 < n" and i: "i + 1 < length ns"
    using assms(1) by linarith+
  have p: "drop j p = p ! j # drop (j + 1) p" using j by (simp add: Cons_nth_drop_Suc)
  have d: "n - i = Suc (Suc (n - (i + 2)))" using n by simp
  have ih: "match_packed p ns n (i + 2) (j + 1) =
    Some (if take (n - (i + 2)) (drop (i + 2) ns) = to_nibs (drop (j + 1) p)
          then Some n else None)"
    using Suc.prems Suc.hyps(2) n j by (intro Suc.hyps(1)) linarith+
  show ?case
    unfolding p d nth_drop_pair [OF i] match_packed.simps [of p ns n i j]
    using n i j ih by (simp add: nth_opt_def)
qed

lemma match_packed_count:
  assumes "p = b # bs" "encoded_path_nibble_count p \<le> length ns"
    "i = (if b AND HP_FLAG_ODD \<noteq> 0 then 1 else 0)"
  shows "match_packed p ns (encoded_path_nibble_count p) i 1 =
    Some (if take (2 * length bs) (drop i ns) = to_nibs bs
          then Some (encoded_path_nibble_count p) else None)"
  using assms match_packed_eq [of "encoded_path_nibble_count p" ns i 1 p]
  by (auto simp: encoded_path_nibble_count_def)

lemma strip_prefix_eq [simp]:
  "encoded_path_strip_prefix p ns =
     Some (if prefix (prefix_to_nibs p) ns then Some (drop (length (prefix_to_nibs p)) ns) else None)"
proof (cases p)
  case Nil
  then show ?thesis
    by (simp add: encoded_path_strip_prefix_def encoded_path_nibble_count_def prefix_to_nibs_def)
next
  case (Cons b bs)
  let ?c = "encoded_path_nibble_count p" and ?odd = "b AND HP_FLAG_ODD \<noteq> 0"
  have len: "length (prefix_to_nibs p) = ?c" by (rule length_prefix_to_nibs)
  show ?thesis
  proof (cases "?c \<le> length ns")
    case False
    with len have "\<not> prefix (prefix_to_nibs p) ns" by (auto dest: prefix_length_le)
    with False show ?thesis by (simp add: encoded_path_strip_prefix_def)
  next
    case True
    have "prefix (prefix_to_nibs p) ns \<longleftrightarrow> take ?c ns = prefix_to_nibs p"
      using len by (metis append_take_drop_id prefix_def append_eq_conv_conj)
    moreover have "take ?c ns = prefix_to_nibs p \<longleftrightarrow>
      (if ?odd then ns ! 0 = b AND 0x0f \<and> take (2 * length bs) (drop 1 ns) = to_nibs bs
       else take (2 * length bs) ns = to_nibs bs)"
      using True Cons
      by (cases ns) (auto simp: prefix_to_nibs_def encoded_path_nibble_count_def split: if_splits)
    ultimately show ?thesis
      using True Cons match_packed_count [OF Cons True refl] len
      by (cases ns) (auto simp: encoded_path_strip_prefix_def nth_opt_def
          encoded_path_nibble_count_def Let_def split: if_splits)
  qed
qed

lemma eq_nibs_eq [simp]: "encoded_path_eq_nibs p ns = Some (prefix_to_nibs p = ns)"
proof (cases p)
  case Nil
  then show ?thesis
    by (auto simp: encoded_path_eq_nibs_def encoded_path_nibble_count_def prefix_to_nibs_def)
next
  case (Cons b bs)
  let ?c = "encoded_path_nibble_count p"
  have len: "length (prefix_to_nibs p) = ?c" by (rule length_prefix_to_nibs)
  show ?thesis
  proof (cases "?c = length ns")
    case False
    with len show ?thesis by (auto simp: encoded_path_eq_nibs_def)
  next
    case True
    then have le: "?c \<le> length ns" by simp
    show ?thesis
      using True Cons match_packed_count [OF Cons le refl] len
      by (cases ns) (auto simp: encoded_path_eq_nibs_def nth_opt_def prefix_to_nibs_def
          encoded_path_nibble_count_def Let_def split: if_splits)
  qed
qed

section \<open>The common prefix\<close>

lemma lcp_from_eq:
  "lcp_from i a b =
     (let k = length (longest_common_prefix a b) in
      if k < length a \<and> k < length b then Some (i + k) else None)"
  by (induction i a b rule: lcp_from.induct) (auto simp: Let_def)

lemma lcp_eq: "lcp a b = length (longest_common_prefix a b)"
proof -
  have "length (longest_common_prefix a b) \<le> length a" "length (longest_common_prefix a b) \<le> length b"
    by (simp_all add: longest_common_prefix_prefix1 longest_common_prefix_prefix2 prefix_length_le)
  then show ?thesis by (auto simp: lcp_def lcp_from_eq Let_def)
qed

lemma lcp_le [simp]: "lcp a b \<le> length a" "lcp a b \<le> length b"
  by (simp_all add: lcp_eq longest_common_prefix_prefix1 longest_common_prefix_prefix2 prefix_length_le)

lemma lcp_Cons [simp]: "lcp (x # a) (y # b) = (if x = y then Suc (lcp a b) else 0)"
  by (simp add: lcp_eq)

lemma lcp_Nil [simp]: "lcp [] b = 0" "lcp a [] = 0"
  by (cases a; simp add: lcp_eq)+

lemma take_lcp: "take (lcp a b) a = take (lcp a b) b"
  by (induction a b rule: longest_common_prefix.induct) auto

lemma lcp_differ: "lcp a b < length a \<Longrightarrow> lcp a b < length b \<Longrightarrow> a ! lcp a b \<noteq> b ! lcp a b"
  by (induction a b rule: longest_common_prefix.induct) (auto split: if_splits)

lemma lcp_full_iff: "lcp a b = length a \<longleftrightarrow> prefix a b"
  by (induction a b rule: longest_common_prefix.induct) auto

lemma lcp_append [simp]: "lcp (a @ b) (a @ c) = length a + lcp b c"
  by (induction a) auto

text \<open>
  How two nibble strings relate: one is a prefix of the other, or they share a stem and go on
  with different nibbles. Every case split of insertion and deletion is one of these.
\<close>

lemma lcp_cases:
  fixes a b :: nibs
  obtains (eq) "b = a"
  | (shorter) n r where "a = b @ n # r"
  | (longer) n r where "b = a @ n # r"
  | (fork) s x xs y ys where "a = s @ x # xs" "b = s @ y # ys" "x \<noteq> y"
proof -
  let ?k = "lcp a b"
  have a: "a = take ?k a @ drop ?k a" by simp
  have b: "b = take ?k a @ drop ?k b" by (metis take_lcp append_take_drop_id)
  show thesis
  proof (cases "drop ?k a"; cases "drop ?k b")
    assume "drop ?k a = []" "drop ?k b = []"
    then show thesis using a b eq by simp
  next
    fix y ys assume "drop ?k a = []" "drop ?k b = y # ys"
    then show thesis using a b longer by (metis append_Nil2)
  next
    fix x xs assume "drop ?k a = x # xs" "drop ?k b = []"
    then show thesis using a b shorter by (metis append_Nil2)
  next
    fix x xs y ys assume d: "drop ?k a = x # xs" "drop ?k b = y # ys"
    then have "?k < length a" "?k < length b" by (metis drop_all list.discI not_le)+
    moreover from this d have "a ! ?k = x" "b ! ?k = y" by (simp_all add: Cons_nth_drop_Suc [symmetric])
    ultimately have "x \<noteq> y" using lcp_differ [of a b] by simp
    then show thesis using a b d fork by metis
  qed
qed

section \<open>Properties\<close>

text \<open>
  C34: decoding a compact path gives back the nibbles it was built from, the compact form has the
  expected length, and the leaf flag of its first byte (the test of the trie decoder) is the
  \<open>is_leaf\<close> argument.
\<close>

theorem hex_prefix_roundtrip:
  assumes "nibbles ns"
  shows "prefix_to_nibs (to_encoded_path ns is_leaf) = ns
    \<and> encoded_path_nibble_count (to_encoded_path ns is_leaf) = length ns
    \<and> length (to_encoded_path ns is_leaf) = length ns div 2 + 1
    \<and> (hd (to_encoded_path ns is_leaf) AND HP_FLAG_LEAF \<noteq> 0 \<longleftrightarrow> is_leaf)"
  using assms leaf_flag [OF assms] length_to_encoded_path
    length_prefix_to_nibs [of "to_encoded_path ns is_leaf"]
  by (simp add: HP_FLAG_LEAF_def)

theorem hex_prefix_roundtrip_witness:
  "nibbles [0xa, 0xb, 0xc] \<and> to_encoded_path [0xa, 0xb, 0xc] True = [0x3a, 0xbc] \<and>
   prefix_to_nibs (to_encoded_path [0xa, 0xb, 0xc] True) = [0xa, 0xb, 0xc]"
proof -
  have n: "nibbles [0xa, 0xb, 0xc]" by simp
  have "to_encoded_path [0xa, 0xb, 0xc] True = [0x3a, 0xbc]" by code_simp
  with n hex_prefix_roundtrip [OF n, of True] show ?thesis by simp
qed

text \<open>
  C35: the two index-walking comparisons never index out of range, on any bytes, and agree with
  the reference on decoded nibbles: \<open>encoded_path_eq_nibs\<close> is equality with the decoded path and
  \<open>encoded_path_strip_prefix\<close> is the removal of the decoded path from the front of the key.
\<close>

theorem packed_comparisons_correct:
  "encoded_path_eq_nibs p ns = Some (prefix_to_nibs p = ns)
   \<and> encoded_path_strip_prefix p ns =
       Some (if prefix (prefix_to_nibs p) ns
             then Some (drop (length (prefix_to_nibs p)) ns) else None)"
  by simp

end
