(* ===== verification/Mpt_Types.thy ===== *)
theory Mpt_Types
  imports Hex_Prefix
begin

text \<open>
  The data of the trie crate: \<^verbatim>\<open>crates/mpt/src/node.rs\<close> (node payloads and node references) and
  the error type of \<^verbatim>\<open>crates/mpt/src/trie.rs\<close>.

  A fixed array \<^verbatim>\<open>[Option<NodeId>; 16]\<close> is a list; that its length is 16 is part of the
  invariants, and an index of 16 or more is the panic of the array access. The error type of the
  RLP library is only passed on by the code, which itself builds \<open>UnexpectedLength\<close> alone.
\<close>

datatype rlp_error = UnexpectedLength | OtherRlpError string

datatype mpt_error =
    NodeRefMismatch
  | NodeNotResolved bytes
  | RlpError rlp_error
  | ValueInBranch
  | InvalidFrontierPrefix
  | InlineFrontierChunk

datatype node_data =
    Null
  | Branch "node_id option list"
  | Leaf bytes bytes
  | Extension bytes node_id
  | Digest bytes

datatype node_ref = RefBytes bytes | RefDigest bytes

fun as_slice :: "node_ref \<Rightarrow> bytes" where
  "as_slice (RefBytes sl) = sl"
| "as_slice (RefDigest sl) = sl"

definition node_ref_eq :: "node_ref \<Rightarrow> node_ref \<Rightarrow> bool" where
  "node_ref_eq a b \<longleftrightarrow> as_slice a = as_slice b"

text \<open>The assertion of a debug build, that any other slice is shorter than 32 bytes, is not part of the model.\<close>

definition from_rlp_slice :: "bytes \<Rightarrow> node_ref" where
  "from_rlp_slice sl =
     (if length sl = 33 then RefDigest (drop 1 sl) else RefBytes sl)"

text \<open>
  \<^verbatim>\<open>B256::from_slice\<close> copies a slice into a 32-byte array and panics on any other length.
\<close>

definition b256_from_slice :: "bytes \<Rightarrow> bytes option" where
  "b256_from_slice s = (if length s = 32 then Some s else None)"

lemma b256_from_slice_32 [simp]: "length s = 32 \<Longrightarrow> b256_from_slice s = Some s"
  by (simp add: b256_from_slice_def)

text \<open>A branch array without children, \<^verbatim>\<open>Default::default()\<close>.\<close>

definition no_children :: "'a option list" where
  "no_children = replicate 16 None"

lemma length_no_children [simp]: "length no_children = 16"
  by (simp add: no_children_def)

lemma nth_no_children [simp]: "i < 16 \<Longrightarrow> no_children ! i = None"
  by (simp add: no_children_def)

lemma map_no_children [simp]: "map (map_option f) no_children = no_children"
  by (simp add: no_children_def)

text \<open>
  The occupied slots of a branch array in order, \<^verbatim>\<open>children.iter().enumerate().filter(is_some)\<close>.
\<close>

definition remaining :: "'a option list \<Rightarrow> nat list" where
  "remaining cs = filter (\<lambda>j. cs ! j \<noteq> None) [0..<length cs]"

end
