(* ===== verification/Mpt_Arena.thy ===== *)
theory Mpt_Arena
  imports Mpt_Types
begin

text \<open>
  Model of the arena trie of \<^verbatim>\<open>crates/mpt/src/trie.rs\<close>: the structure \<^verbatim>\<open>Mpt\<close>, its
  constructors, and the reading and updating operations \<^verbatim>\<open>get\<close>, \<^verbatim>\<open>insert\<close>, \<^verbatim>\<open>delete\<close> with
  their recursive workers.

  \<^item> Nodes live in a vector and refer to each other by \<open>u32\<close> indices; every read of
    \<^verbatim>\<open>self.nodes[id as usize]\<close> is checked, and an index out of range is a panic.
  \<^item> A \<^verbatim>\<open>RefCell\<close> is its content and its borrow flag: \<^verbatim>\<open>borrow_mut\<close> of a borrowed cell
    panics.
  \<^item> The mutating operations return the arena they leave behind also when they fail, so that
    "a failed update changes nothing" can be stated.
  \<^item> The recursion follows node indices, which nothing in the types keeps acyclic. Fuel bounds
    its depth and running out is the panic \<open>StackOverflow\<close>. \<open>walk_fuel\<close> is enough for every
    walk that ends: a walk that takes more steps than that revisits a node without having
    consumed a nibble and goes on forever.
  \<^item> The bump arena only owns the bytes that nodes point to and is not part of the state.
\<close>

section \<open>The structure\<close>

record ref_cell =
  cell_content :: "node_ref option"
  cell_borrowed :: bool

record mpt =
  root_id :: node_id
  nodes :: "node_data list"
  cached_references :: "ref_cell list"
  rlp_scratch :: bytes
  scratch_borrowed :: bool

definition NULL_NODE_ID :: node_id where
  "NULL_NODE_ID = 0"

definition new_cell :: "node_ref option \<Rightarrow> ref_cell" where
  "new_cell r = \<lparr>cell_content = r, cell_borrowed = False\<rparr>"

text \<open>\<^verbatim>\<open>with_capacity\<close> only reserves memory; the capacity has no effect on the values.\<close>

definition with_capacity :: "nat \<Rightarrow> mpt" where
  "with_capacity capacity =
     \<lparr>root_id = 0, nodes = [Null], cached_references = [new_cell None],
      rlp_scratch = [], scratch_borrowed = False\<rparr>"

definition new :: mpt where
  "new = with_capacity 1"

definition num_nodes :: "mpt \<Rightarrow> nat" where
  "num_nodes m = length (nodes m)"

definition reserve :: "nat \<Rightarrow> mpt \<Rightarrow> mpt" where
  "reserve additional m = m"

definition node_at :: "mpt \<Rightarrow> node_id \<Rightarrow> node_data option" where
  "node_at m i = nth_opt (nodes m) (unat i)"

definition cell_at :: "mpt \<Rightarrow> node_id \<Rightarrow> ref_cell option" where
  "cell_at m i = nth_opt (cached_references m) (unat i)"

definition set_node :: "node_id \<Rightarrow> node_data \<Rightarrow> mpt \<Rightarrow> mpt" where
  "set_node i nd m = m\<lparr>nodes := (nodes m)[unat i := nd]\<rparr>"

definition set_cell :: "node_id \<Rightarrow> ref_cell \<Rightarrow> mpt \<Rightarrow> mpt" where
  "set_cell i c m = m\<lparr>cached_references := (cached_references m)[unat i := c]\<rparr>"

definition is_empty :: "mpt \<Rightarrow> (mpt_error, bool) outcome" where
  "is_empty m =
     (case node_at m (root_id m) of
        None \<Rightarrow> Panic IndexOutOfBounds
      | Some nd \<Rightarrow> Ok (nd = Null))"

definition add_node :: "node_data \<Rightarrow> node_ref option \<Rightarrow> mpt \<Rightarrow> node_id \<times> mpt" where
  "add_node nd r m =
     (of_nat (length (nodes m)),
      m\<lparr>nodes := nodes m @ [nd], cached_references := cached_references m @ [new_cell r]\<rparr>)"

definition invalidate_ref_cache :: "node_id \<Rightarrow> mpt \<Rightarrow> (mpt_error, unit) outcome \<times> mpt" where
  "invalidate_ref_cache i m =
     (case cell_at m i of
        None \<Rightarrow> (Panic IndexOutOfBounds, m)
      | Some c \<Rightarrow>
          (if cell_borrowed c then (Panic AlreadyBorrowed, m)
           else (Ok (), set_cell i (c\<lparr>cell_content := None\<rparr>) m)))"

text \<open>The last lines of both updating workers: \<^verbatim>\<open>if updated { invalidate_ref_cache(node_id) }\<close>.\<close>

definition finish_update ::
  "node_id \<Rightarrow> (mpt_error, bool) outcome \<times> mpt \<Rightarrow> (mpt_error, bool) outcome \<times> mpt" where
  "finish_update i r =
     and_then r (\<lambda>updated m.
       if updated then and_then (invalidate_ref_cache i m) (\<lambda>_ m. (Ok True, m))
       else (Ok False, m))"

text \<open>Reading and writing the slot \<^verbatim>\<open>children[i as usize]\<close> of a branch array.\<close>

definition child_at :: "'a option list \<Rightarrow> byte \<Rightarrow> 'a option option" where
  "child_at cs i = nth_opt cs (unat i)"

definition walk_fuel :: "mpt \<Rightarrow> nibs \<Rightarrow> nat" where
  "walk_fuel m k = Suc (length k) * Suc (length (nodes m))"

section \<open>Reading\<close>

primrec get_internal :: "nat \<Rightarrow> mpt \<Rightarrow> node_id \<Rightarrow> nibs \<Rightarrow> (mpt_error, bytes option) outcome" where
  "get_internal 0 m i key_nibs = Panic StackOverflow"
| "get_internal (Suc fuel) m i key_nibs =
     (case node_at m i of
        None \<Rightarrow> Panic IndexOutOfBounds
      | Some nd \<Rightarrow>
          (case nd of
             Null \<Rightarrow> Ok None
           | Branch children \<Rightarrow>
               (case key_nibs of
                  [] \<Rightarrow> Ok None
                | n # tail \<Rightarrow>
                    (case child_at children n of
                       None \<Rightarrow> Panic IndexOutOfBounds
                     | Some None \<Rightarrow> Ok None
                     | Some (Some c) \<Rightarrow> get_internal fuel m c tail))
           | Leaf path_bytes val \<Rightarrow>
               (case encoded_path_eq_nibs path_bytes key_nibs of
                  None \<Rightarrow> Panic IndexOutOfBounds
                | Some eq \<Rightarrow> Ok (if eq then Some val else None))
           | Extension path_bytes c \<Rightarrow>
               (case encoded_path_strip_prefix path_bytes key_nibs of
                  None \<Rightarrow> Panic IndexOutOfBounds
                | Some None \<Rightarrow> Ok None
                | Some (Some tail) \<Rightarrow> get_internal fuel m c tail)
           | Digest digest \<Rightarrow>
               (case b256_from_slice digest of
                  None \<Rightarrow> Panic LengthMismatch
                | Some d \<Rightarrow> Err (NodeNotResolved d))))"

definition get_nibbles :: "mpt \<Rightarrow> nibs \<Rightarrow> (mpt_error, bytes option) outcome" where
  "get_nibbles m key_nibs = get_internal (walk_fuel m key_nibs) m (root_id m) key_nibs"

definition get :: "mpt \<Rightarrow> bytes \<Rightarrow> (mpt_error, bytes option) outcome" where
  "get m key = get_internal (walk_fuel m (to_nibs key)) m (root_id m) (to_nibs key)"

text \<open>
  \<^verbatim>\<open>get_rlp::<T>\<close> decodes the value it finds; the decoder of \<^verbatim>\<open>T\<close> is the argument \<open>decode\<close>.
\<close>

definition get_rlp ::
  "(bytes \<Rightarrow> rlp_error + 'v) \<Rightarrow> mpt \<Rightarrow> bytes \<Rightarrow> (mpt_error, 'v option) outcome" where
  "get_rlp decode m key =
     (case get m key of
        Ok (Some bs) \<Rightarrow> (case decode bs of Inl e \<Rightarrow> Err (RlpError e) | Inr v \<Rightarrow> Ok (Some v))
      | Ok None \<Rightarrow> Ok None
      | Err e \<Rightarrow> Err e
      | Panic p \<Rightarrow> Panic p)"

definition get_rlp_nibbles ::
  "(bytes \<Rightarrow> rlp_error + 'v) \<Rightarrow> mpt \<Rightarrow> nibs \<Rightarrow> (mpt_error, 'v option) outcome" where
  "get_rlp_nibbles decode m key_nibs =
     (case get_nibbles m key_nibs of
        Ok (Some bs) \<Rightarrow> (case decode bs of Inl e \<Rightarrow> Err (RlpError e) | Inr v \<Rightarrow> Ok (Some v))
      | Ok None \<Rightarrow> Ok None
      | Err e \<Rightarrow> Err e
      | Panic p \<Rightarrow> Panic p)"

section \<open>Insertion\<close>

text \<open>
  The two splits of \<^verbatim>\<open>insert_internal\<close> end alike: the two subtrees are entered into an empty
  branch array, the one of the old path first, and an extension is put in front when the paths
  share a stem.
\<close>

definition split_node ::
  "node_id \<Rightarrow> nibs \<Rightarrow> nibs \<Rightarrow> nat \<Rightarrow> node_id \<Rightarrow> node_id \<Rightarrow> mpt \<Rightarrow> (mpt_error, bool) outcome \<times> mpt" where
  "split_node i self_nibs key_nibs common_len old_id new_id m =
     (let x = unat (self_nibs ! common_len); y = unat (key_nibs ! common_len) in
      if x < 16 \<and> y < 16 then
        (let children = no_children[x := Some old_id, y := Some new_id] in
         if common_len > 0 then
           (case add_node (Branch children) None m of
              (branch_id, m) \<Rightarrow>
                (Ok True,
                 set_node i (Extension
                   (to_encoded_path_with_bump (take common_len self_nibs) False) branch_id) m))
         else (Ok True, set_node i (Branch children) m))
      else (Panic IndexOutOfBounds, m))"

primrec insert_internal ::
  "nat \<Rightarrow> node_id \<Rightarrow> nibs \<Rightarrow> bytes \<Rightarrow> mpt \<Rightarrow> (mpt_error, bool) outcome \<times> mpt" where
  "insert_internal 0 i key_nibs val m = (Panic StackOverflow, m)"
| "insert_internal (Suc fuel) i key_nibs val m =
     (case node_at m i of
        None \<Rightarrow> (Panic IndexOutOfBounds, m)
      | Some nd \<Rightarrow> finish_update i
          (case nd of
             Null \<Rightarrow>
               (Ok True, set_node i (Leaf (to_encoded_path_with_bump key_nibs True) val) m)
           | Branch children \<Rightarrow>
               (case key_nibs of
                  [] \<Rightarrow> (Err ValueInBranch, m)
                | n # tail \<Rightarrow>
                    (case child_at children n of
                       None \<Rightarrow> (Panic IndexOutOfBounds, m)
                     | Some (Some c) \<Rightarrow> insert_internal fuel c tail val m
                     | Some None \<Rightarrow>
                         (case add_node (Leaf (to_encoded_path_with_bump tail True) val) None m of
                            (new_leaf_id, m) \<Rightarrow>
                              (Ok True,
                               set_node i (Branch (children[unat n := Some new_leaf_id])) m))))
           | Leaf path old_value \<Rightarrow>
               (let self_nibs = prefix_to_nibs path; common_len = lcp self_nibs key_nibs in
                if common_len = length self_nibs \<and> common_len = length key_nibs then
                  (if old_value = val then (Ok False, m)
                   else (Ok True, set_node i (Leaf path val) m))
                else if common_len = length self_nibs \<or> common_len = length key_nibs then
                  (Err ValueInBranch, m)
                else
                  (case add_node (Leaf (to_encoded_path_with_bump
                              (drop (common_len + 1) self_nibs) True) old_value) None m of
                     (leaf1_id, m) \<Rightarrow>
                       (case add_node (Leaf (to_encoded_path_with_bump
                                   (drop (common_len + 1) key_nibs) True) val) None m of
                          (leaf2_id, m) \<Rightarrow>
                            split_node i self_nibs key_nibs common_len leaf1_id leaf2_id m)))
           | Extension path c \<Rightarrow>
               (let self_nibs = prefix_to_nibs path; common_len = lcp self_nibs key_nibs in
                if common_len = length self_nibs then
                  insert_internal fuel c (drop common_len key_nibs) val m
                else if common_len = length key_nibs then (Err ValueInBranch, m)
                else
                  (case (if common_len + 1 < length self_nibs
                         then add_node (Extension (to_encoded_path_with_bump
                                (drop (common_len + 1) self_nibs) False) c) None m
                         else (c, m)) of
                     (old_id, m) \<Rightarrow>
                       (case add_node (Leaf (to_encoded_path_with_bump
                                   (drop (common_len + 1) key_nibs) True) val) None m of
                          (leaf_id, m) \<Rightarrow>
                            split_node i self_nibs key_nibs common_len old_id leaf_id m)))
           | Digest digest \<Rightarrow>
               (case b256_from_slice digest of
                  None \<Rightarrow> (Panic LengthMismatch, m)
                | Some d \<Rightarrow> (Err (NodeNotResolved d), m))))"

definition insert_nibbles :: "nibs \<Rightarrow> bytes \<Rightarrow> mpt \<Rightarrow> (mpt_error, bool) outcome \<times> mpt" where
  "insert_nibbles key_nibs val m =
     insert_internal (walk_fuel m key_nibs) (root_id m) key_nibs val m"

definition insert_mpt :: "bytes \<Rightarrow> bytes \<Rightarrow> mpt \<Rightarrow> (mpt_error, bool) outcome \<times> mpt" where
  "insert_mpt key val m =
     insert_internal (walk_fuel m (to_nibs key)) (root_id m) (to_nibs key) val m"

text \<open>The encoder of the inserted value is the argument \<open>encode\<close>.\<close>

definition insert_rlp ::
  "('v \<Rightarrow> bytes) \<Rightarrow> bytes \<Rightarrow> 'v \<Rightarrow> mpt \<Rightarrow> (mpt_error, bool) outcome \<times> mpt" where
  "insert_rlp encode key val m = insert_mpt key (encode val) m"

definition insert_rlp_nibbles ::
  "('v \<Rightarrow> bytes) \<Rightarrow> nibs \<Rightarrow> 'v \<Rightarrow> mpt \<Rightarrow> (mpt_error, bool) outcome \<times> mpt" where
  "insert_rlp_nibbles encode key_nibs val m = insert_nibbles key_nibs (encode val) m"

section \<open>Deletion\<close>

text \<open>
  After a child of a branch lost its last key the branch may be left with one child, and is then
  replaced by that child with the branch nibble in front of its path.
\<close>

definition collapse_branch ::
  "node_id \<Rightarrow> node_id option list \<Rightarrow> mpt \<Rightarrow> (mpt_error, bool) outcome \<times> mpt" where
  "collapse_branch i children m =
     (case remaining children of
        [] \<Rightarrow> (Panic UnwrapNone, m)
      | index # others \<Rightarrow>
          (case children ! index of
             None \<Rightarrow> (Panic UnwrapNone, m)
           | Some child_id \<Rightarrow>
               (if others = [] then
                  (case node_at m child_id of
                     None \<Rightarrow> (Panic IndexOutOfBounds, m)
                   | Some child_node_data \<Rightarrow>
                       (case child_node_data of
                          Leaf path val \<Rightarrow>
                            (Ok True, set_node i (Leaf (to_encoded_path_with_bump
                               (of_nat index # prefix_to_nibs path) True) val) m)
                        | Extension path c \<Rightarrow>
                            (Ok True, set_node i (Extension (to_encoded_path_with_bump
                               (of_nat index # prefix_to_nibs path) False) c) m)
                        | Branch _ \<Rightarrow>
                            (Ok True, set_node i (Extension (to_encoded_path_with_bump
                               [of_nat index] False) child_id) m)
                        | Digest _ \<Rightarrow>
                            (Ok True, set_node i (Extension (to_encoded_path_with_bump
                               [of_nat index] False) child_id) m)
                        | Null \<Rightarrow> (Panic UnreachableCode, m)))
                else (Ok True, set_node i (Branch children) m))))"

text \<open>
  The child of an extension changed: an extension points to a branch or a digest only, so
  anything else is merged into it.
\<close>

definition rejoin_extension ::
  "node_id \<Rightarrow> bytes \<Rightarrow> node_id \<Rightarrow> mpt \<Rightarrow> (mpt_error, bool) outcome \<times> mpt" where
  "rejoin_extension i path c m =
     (case node_at m c of
        None \<Rightarrow> (Panic IndexOutOfBounds, m)
      | Some child_node_data \<Rightarrow>
          (let self_nibs = prefix_to_nibs path in
           (Ok True, set_node i
              (case child_node_data of
                 Null \<Rightarrow> Null
               | Leaf child_path val \<Rightarrow>
                   Leaf (to_encoded_path_with_bump (self_nibs @ prefix_to_nibs child_path) True) val
               | Extension child_path grandchild_id \<Rightarrow>
                   Extension (to_encoded_path_with_bump
                     (self_nibs @ prefix_to_nibs child_path) False) grandchild_id
               | Branch _ \<Rightarrow> Extension path c
               | Digest _ \<Rightarrow> Extension path c) m)))"

text \<open>The slice method \<^verbatim>\<open>strip_prefix\<close>.\<close>

definition slice_strip_prefix :: "nibs \<Rightarrow> nibs \<Rightarrow> nibs option" where
  "slice_strip_prefix p k = (if take (length p) k = p then Some (drop (length p) k) else None)"

primrec delete_internal ::
  "nat \<Rightarrow> node_id \<Rightarrow> nibs \<Rightarrow> mpt \<Rightarrow> (mpt_error, bool) outcome \<times> mpt" where
  "delete_internal 0 i key_nibs m = (Panic StackOverflow, m)"
| "delete_internal (Suc fuel) i key_nibs m =
     (case node_at m i of
        None \<Rightarrow> (Panic IndexOutOfBounds, m)
      | Some nd \<Rightarrow> finish_update i
          (case nd of
             Null \<Rightarrow> (Ok False, m)
           | Branch children \<Rightarrow>
               (case key_nibs of
                  [] \<Rightarrow> (Err ValueInBranch, m)
                | n # tail \<Rightarrow>
                    (case child_at children n of
                       None \<Rightarrow> (Panic IndexOutOfBounds, m)
                     | Some None \<Rightarrow> (Ok False, m)
                     | Some (Some c) \<Rightarrow>
                         and_then (delete_internal fuel c tail m) (\<lambda>deleted m.
                           if \<not> deleted then (Ok False, m)
                           else
                             (case node_at m c of
                                None \<Rightarrow> (Panic IndexOutOfBounds, m)
                              | Some child_node_data \<Rightarrow>
                                  collapse_branch i
                                    (if child_node_data = Null
                                     then children[unat n := None] else children) m))))
           | Leaf path _ \<Rightarrow>
               (if prefix_to_nibs path \<noteq> key_nibs then (Ok False, m)
                else (Ok True, set_node i Null m))
           | Extension path c \<Rightarrow>
               (case slice_strip_prefix (prefix_to_nibs path) key_nibs of
                  None \<Rightarrow> (Ok False, m)
                | Some tail \<Rightarrow>
                    and_then (delete_internal fuel c tail m) (\<lambda>deleted m.
                      if \<not> deleted then (Ok False, m) else rejoin_extension i path c m))
           | Digest digest \<Rightarrow>
               (case b256_from_slice digest of
                  None \<Rightarrow> (Panic LengthMismatch, m)
                | Some d \<Rightarrow> (Err (NodeNotResolved d), m))))"

definition delete_nibbles :: "nibs \<Rightarrow> mpt \<Rightarrow> (mpt_error, bool) outcome \<times> mpt" where
  "delete_nibbles key_nibs m =
     delete_internal (walk_fuel m key_nibs) (root_id m) key_nibs m"

definition delete :: "bytes \<Rightarrow> mpt \<Rightarrow> (mpt_error, bool) outcome \<times> mpt" where
  "delete key m = delete_internal (walk_fuel m (to_nibs key)) (root_id m) (to_nibs key) m"

end
