(* ===== verification/Rlp_Interface.thy ===== *)
theory Rlp_Interface
  imports Mpt_Types
begin

text \<open>
  The third-party functions the trie code calls: \<^verbatim>\<open>alloy_rlp\<close> (headers and byte strings),
  \<^verbatim>\<open>keccak256\<close> and the constant \<^verbatim>\<open>EMPTY_ROOT_HASH\<close> of \<^verbatim>\<open>alloy_trie\<close>. They are not part of
  the repository, so they are the fields of a record \<open>ext\<close> that every definition using them takes
  as an argument. The locale \<open>rlp_laws\<close> states the documented behaviour the trie relies on. The
  end of the theory gives one concrete implementation, the RLP rules of the Ethereum yellow
  paper with a checksum in place of Keccak, and shows that it obeys the laws: it serves to
  evaluate the model on concrete inputs.

  A decoder takes the buffer and returns the list flag, the payload length and the buffer behind
  the header; for a single byte below \<open>0x80\<close> nothing is consumed.
\<close>

record ext =
  keccak256 :: "bytes \<Rightarrow> bytes"
  EMPTY_ROOT_HASH :: bytes
  EMPTY_STRING_CODE :: byte
  length_of_length :: "nat \<Rightarrow> nat"
  header_encode :: "bool \<Rightarrow> nat \<Rightarrow> bytes"
  bytes_encode :: "bytes \<Rightarrow> bytes"
  bytes_length :: "bytes \<Rightarrow> nat"
  header_decode :: "bytes \<Rightarrow> rlp_error + ((bool \<times> nat) \<times> bytes)"

locale rlp_laws =
  fixes E :: ext
  assumes empty_string_code: "EMPTY_STRING_CODE E = 0x80"
    and keccak_length: "length (keccak256 E bs) = 32"
    and empty_root: "EMPTY_ROOT_HASH E = keccak256 E [EMPTY_STRING_CODE E]"
    and header_length: "length (header_encode E l n) = length_of_length E n"
    and short_header: "n < 56 \<Longrightarrow> length_of_length E n = 1"
    and bytes_length_eq: "bytes_length E bs = length (bytes_encode E bs)"
    and bytes_encode_32: "length bs = 32 \<Longrightarrow> bytes_encode E bs = (EMPTY_STRING_CODE E + 32) # bs"
    and bytes_encode_empty: "bytes_encode E [] = [EMPTY_STRING_CODE E]"
    and bytes_encode_length: "length bs \<le> length (bytes_encode E bs)"
    and decode_list_header:
      "n < 2 ^ 64 \<Longrightarrow> n \<le> length rest \<Longrightarrow>
         header_decode E (header_encode E True n @ rest) = Inr ((True, n), rest)"
    and decode_bytes:
      "length bs < 2 ^ 64 \<Longrightarrow>
         header_decode E (bytes_encode E bs @ rest) = Inr ((False, length bs), bs @ rest)"
    and decode_sound:
      "header_decode E bs = Inr ((l, n), rest) \<Longrightarrow>
         n \<le> length rest \<and> (\<exists>h. bs = h @ rest) \<and> (length rest < length bs \<or> 0 < n)"
begin

lemma digest_code: "EMPTY_STRING_CODE E + 32 = 0xa0"
  by (simp add: empty_string_code)

lemma empty_root_length: "length (EMPTY_ROOT_HASH E) = 32"
  by (simp add: empty_root keccak_length)

lemma decode_empty: "header_decode E [] = Inr ((l, n), rest) \<Longrightarrow> False"
  using decode_sound [of "[]" l n rest] by auto

lemma bytes_encode_nonempty: "length bs < 2 ^ 64 \<Longrightarrow> bytes_encode E bs \<noteq> []"
  using decode_bytes [of bs "[]"] decode_empty by (cases "bytes_encode E bs"; cases bs) auto

lemma bytes_encode_prefix_free:
  assumes "bytes_encode E a @ r = bytes_encode E b @ s" "length a < 2 ^ 64" "length b < 2 ^ 64"
  shows "a = b \<and> r = s"
proof -
  have "(length a, a @ r) = (length b, b @ s)"
    using assms decode_bytes [of a r] decode_bytes [of b s] by simp
  then show ?thesis by (auto simp: append_eq_append_conv)
qed

end

section \<open>A concrete implementation\<close>

fun be_bytes :: "nat \<Rightarrow> bytes" where
  "be_bytes n = (if n = 0 then [] else be_bytes (n div 256) @ [of_nat (n mod 256)])"

declare be_bytes.simps [simp del]

definition of_be_bytes :: "bytes \<Rightarrow> nat" where
  "of_be_bytes = foldl (\<lambda>n b. 256 * n + unat b) 0"

definition std_length_of_length :: "nat \<Rightarrow> nat" where
  "std_length_of_length n = (if n < 56 then 1 else 1 + length (be_bytes n))"

definition std_header_encode :: "bool \<Rightarrow> nat \<Rightarrow> bytes" where
  "std_header_encode l n =
     (if n < 56 then [(if l then 0xc0 else 0x80) + of_nat n]
      else ((if l then 0xf7 else 0xb7) + of_nat (length (be_bytes n))) # be_bytes n)"

definition std_bytes_encode :: "bytes \<Rightarrow> bytes" where
  "std_bytes_encode bs =
     (if length bs = 1 \<and> unat (hd bs) < 0x80 then bs
      else std_header_encode False (length bs) @ bs)"

definition std_long :: "bool \<Rightarrow> nat \<Rightarrow> bytes \<Rightarrow> rlp_error + ((bool \<times> nat) \<times> bytes)" where
  "std_long l k bs =
     (if length bs < k then Inl (OtherRlpError ''InputTooShort'')
      else
        (let n = of_be_bytes (take k bs) in
         if hd bs = 0 then Inl (OtherRlpError ''LeadingZero'')
         else if n < 56 then Inl (OtherRlpError ''NonCanonicalSize'')
         else Inr ((l, n), drop k bs)))"

definition std_header_decode :: "bytes \<Rightarrow> rlp_error + ((bool \<times> nat) \<times> bytes)" where
  "std_header_decode bs =
     (case bs of
        [] \<Rightarrow> Inl (OtherRlpError ''InputTooShort'')
      | b # rest \<Rightarrow>
          (case (if unat b < 0x80 then Inr ((False, 1), bs)
                 else if unat b < 0xb8 then
                   (if b = 0x81 \<and> rest \<noteq> [] \<and> unat (hd rest) < 0x80
                    then Inl (OtherRlpError ''NonCanonicalSingleByte'')
                    else Inr ((False, unat b - 0x80), rest))
                 else if unat b < 0xc0 then std_long False (unat b - 0xb7) rest
                 else if unat b < 0xf8 then Inr ((True, unat b - 0xc0), rest)
                 else std_long True (unat b - 0xf7) rest) of
             Inl e \<Rightarrow> Inl e
           | Inr ((l, n), rest') \<Rightarrow>
               (if length rest' < n then Inl (OtherRlpError ''InputTooShort'')
                else Inr ((l, n), rest'))))"

text \<open>A checksum of 32 bytes in place of Keccak-256: a running mix of all input bytes.\<close>

definition mix :: "bytes \<Rightarrow> nat" where
  "mix bs = foldl (\<lambda>n b. (31 * n + unat b + 7) mod 65521) 1 bs"

definition std_keccak256 :: "bytes \<Rightarrow> bytes" where
  "std_keccak256 bs = map (\<lambda>i. of_nat (mix bs div (i + 1) + i)) [0..<32]"

definition std_ext :: ext where
  "std_ext =
     \<lparr>keccak256 = std_keccak256, EMPTY_ROOT_HASH = std_keccak256 [0x80],
      EMPTY_STRING_CODE = 0x80, length_of_length = std_length_of_length,
      header_encode = std_header_encode, bytes_encode = std_bytes_encode,
      bytes_length = (\<lambda>bs. length (std_bytes_encode bs)), header_decode = std_header_decode\<rparr>"

lemma foldl_be_bytes: "foldl (\<lambda>n b. 256 * n + unat (b :: byte)) 0 (be_bytes n) = n"
proof (induction n rule: be_bytes.induct)
  case (1 n)
  then show ?case
    by (cases "n = 0") (simp_all add: be_bytes.simps [of n] be_bytes.simps [of 0] unat_of_nat)
qed

lemma of_be_bytes_inverse: "of_be_bytes (be_bytes n) = n"
  by (simp add: of_be_bytes_def foldl_be_bytes)

lemma be_bytes_nonempty: "n \<noteq> 0 \<Longrightarrow> be_bytes n \<noteq> []"
  by (subst be_bytes.simps) simp

lemma hd_be_bytes: "n \<noteq> 0 \<Longrightarrow> hd (be_bytes n) \<noteq> 0"
proof (induction n rule: be_bytes.induct)
  case (1 n)
  show ?case
  proof (cases "n div 256 = 0")
    case True
    then have "n mod 256 = n" "n < 256" by simp_all
    with True 1 show ?thesis
      by (simp add: be_bytes.simps [of n] be_bytes.simps [of 0] of_nat_eq_0_iff word_of_nat_eq_0_iff nat_dvd_not_less)
  next
    case False
    with 1 show ?thesis
      by (simp add: be_bytes.simps [of n] be_bytes_nonempty hd_append)
  qed
qed

lemma length_be_bytes_le: "n < 256 ^ k \<Longrightarrow> length (be_bytes n) \<le> k"
proof (induction k arbitrary: n)
  case 0
  then show ?case by (simp add: be_bytes.simps)
next
  case (Suc k)
  then have "n div 256 < 256 ^ k" by (simp add: less_mult_imp_div_less mult.commute)
  with Suc.IH [of "n div 256"] show ?case by (subst be_bytes.simps) simp
qed

lemma length_be_bytes_64: "n < 2 ^ 64 \<Longrightarrow> length (be_bytes n) \<le> 8"
  using length_be_bytes_le [of n 8] by simp

lemma std_long_be_bytes:
  "56 \<le> n \<Longrightarrow> std_long l (length (be_bytes n)) (be_bytes n @ rest) = Inr ((l, n), rest)"
  by (simp add: std_long_def of_be_bytes_inverse hd_be_bytes be_bytes_nonempty)

lemma unat_code: "k < 256 \<Longrightarrow> unat (of_nat k :: byte) = k"
  by (simp add: unat_of_nat)

lemma unat_code_add:
  "unat (c :: byte) + k < 256 \<Longrightarrow> unat (c + of_nat k) = unat c + k"
  by (subst unat_plus_simple [THEN iffD1]) (auto simp: unat_code word_le_nat_alt unat_of_nat unat_word_ariths)

lemma std_decode_list:
  assumes "n < 2 ^ 64" "n \<le> length rest"
  shows "std_header_decode (std_header_encode True n @ rest) = Inr ((True, n), rest)"
proof (cases "n < 56")
  case True
  then have "unat (0xc0 + of_nat n :: byte) = 0xc0 + n" using unat_code_add [of "0xc0" n] by simp
  with True assms show ?thesis
    by (simp add: std_header_decode_def std_header_encode_def)
next
  case False
  let ?k = "length (be_bytes n)"
  have k: "?k \<le> 8" "0 < ?k" using assms length_be_bytes_64 False be_bytes_nonempty [of n] by auto
  then have "unat (0xf7 + of_nat ?k :: byte) = 0xf7 + ?k" using unat_code_add [of "0xf7" ?k] by simp
  with False assms k show ?thesis
    by (simp add: std_header_decode_def std_header_encode_def std_long_be_bytes)
qed

lemma std_decode_bytes:
  assumes "length bs < 2 ^ 64"
  shows "std_header_decode (std_bytes_encode bs @ rest) = Inr ((False, length bs), bs @ rest)"
proof (cases "length bs = 1 \<and> unat (hd bs) < 0x80")
  case True
  then obtain b where "bs = [b]" by (cases bs) auto
  with True show ?thesis by (simp add: std_header_decode_def std_bytes_encode_def)
next
  case ne: False
  show ?thesis
  proof (cases "length bs < 56")
    case True
    then have u: "unat (0x80 + of_nat (length bs) :: byte) = 0x80 + length bs"
      using unat_code_add [of "0x80" "length bs"] by simp
    have "\<not> (0x80 + of_nat (length bs) = (0x81 :: byte) \<and> unat (hd (bs @ rest)) < 0x80)"
    proof
      assume *: "0x80 + of_nat (length bs) = (0x81 :: byte) \<and> unat (hd (bs @ rest)) < 0x80"
      then have "0x80 + length bs = unat (0x81 :: byte)" using u by simp
      then have "length bs = 1" by simp
      with ne * show False by (cases bs) auto
    qed
    with u True ne show ?thesis
      by (auto simp: std_header_decode_def std_header_encode_def std_bytes_encode_def)
  next
    case False
    let ?k = "length (be_bytes (length bs))"
    have k: "?k \<le> 8" "0 < ?k"
      using assms length_be_bytes_64 False be_bytes_nonempty [of "length bs"] by fastforce+
    then have "unat (0xb7 + of_nat ?k :: byte) = 0xb7 + ?k" using unat_code_add [of "0xb7" ?k] by simp
    with False ne k show ?thesis
      by (simp add: std_header_decode_def std_header_encode_def std_bytes_encode_def std_long_be_bytes)
  qed
qed

lemma std_decode_sound:
  assumes "std_header_decode bs = Inr ((l, n), rest)"
  shows "n \<le> length rest \<and> (\<exists>h. bs = h @ rest) \<and> (length rest < length bs \<or> 0 < n)"
proof (cases bs)
  case Nil
  with assms show ?thesis by (simp add: std_header_decode_def)
next
  case (Cons b r)
  have long: "(\<exists>h. r = h @ rest')" if "std_long l' k r = Inr ((l'', n'), rest')" for l' k l'' n' rest'
    using that by (auto simp: std_long_def Let_def split: if_splits intro!: exI [of _ "take k r"])
  show ?thesis
    using assms Cons long by (fastforce simp: std_header_decode_def split: if_splits sum.splits)
qed

interpretation std: rlp_laws std_ext
proof
  show "header_decode std_ext (header_encode std_ext True n @ rest) = Inr ((True, n), rest)"
    if "n < 2 ^ 64" "n \<le> length rest" for n rest
    using that by (simp add: std_ext_def std_decode_list)
  show "header_decode std_ext (bytes_encode std_ext bs @ rest) = Inr ((False, length bs), bs @ rest)"
    if "length bs < 2 ^ 64" for bs rest
    using that by (simp add: std_ext_def std_decode_bytes)
  show "n \<le> length rest \<and> (\<exists>h. bs = h @ rest) \<and> (length rest < length bs \<or> 0 < n)"
    if "header_decode std_ext bs = Inr ((l, n), rest)" for bs l n rest
    using that by (simp add: std_ext_def std_decode_sound)
qed (simp_all add: std_ext_def std_keccak256_def std_length_of_length_def std_header_encode_def
      std_bytes_encode_def)

end
