(* ===== verification/Mpt_Hash.thy ===== *)
theory Mpt_Hash
  imports Mpt_Arena Rlp_Interface
begin

text \<open>
  Model of the hashing half of \<^verbatim>\<open>crates/mpt/src/trie.rs\<close>: \<^verbatim>\<open>calc_reference\<close> with the length and
  encoding routines it shares with the serialiser, \<^verbatim>\<open>hash\<close>, \<^verbatim>\<open>subtree_hash\<close> and
  \<^verbatim>\<open>root_is_hash_addressed\<close>.

  The routines call each other through the reference caches. In the model \<open>calc_reference\<close> is
  recursive over fuel, the depth of the call stack, and the other routines take the function that
  computes a missing reference as the argument \<open>calc\<close>. Every cache is a \<^verbatim>\<open>RefCell\<close> that stays
  mutably borrowed while its content is computed, and so does the shared scratch buffer while a
  long node is encoded into it: a second borrow is the panic \<open>AlreadyBorrowed\<close>. The output buffer
  is returned extended.
\<close>

type_synonym ref_calc = "node_id \<Rightarrow> mpt \<Rightarrow> (mpt_error, node_ref) outcome \<times> mpt"

definition NULL_NODE_REF_SLICE :: "ext \<Rightarrow> bytes" where
  "NULL_NODE_REF_SLICE E = [EMPTY_STRING_CODE E]"

text \<open>\<^verbatim>\<open>borrow_mut().get_or_insert_with(|| self.calc_reference(node_id))\<close>.\<close>

definition get_or_insert_ref :: "ref_calc \<Rightarrow> ref_calc" where
  "get_or_insert_ref calc i m =
     (case cell_at m i of
        None \<Rightarrow> (Panic IndexOutOfBounds, m)
      | Some c \<Rightarrow>
          (if cell_borrowed c then (Panic AlreadyBorrowed, m)
           else
             (case cell_content c of
                Some r \<Rightarrow> (Ok r, m)
              | None \<Rightarrow>
                  and_then (calc i (set_cell i (c\<lparr>cell_borrowed := True\<rparr>) m)) (\<lambda>r m.
                    (Ok r, set_cell i (new_cell (Some r)) m)))))"

definition reference_length ::
  "ref_calc \<Rightarrow> node_id \<Rightarrow> mpt \<Rightarrow> (mpt_error, nat) outcome \<times> mpt" where
  "reference_length calc i m =
     and_then (get_or_insert_ref calc i m) (\<lambda>r m.
       (Ok (case r of RefBytes bs \<Rightarrow> length bs | RefDigest _ \<Rightarrow> 1 + 32), m))"

primrec children_length ::
  "ref_calc \<Rightarrow> node_id option list \<Rightarrow> mpt \<Rightarrow> (mpt_error, nat) outcome \<times> mpt" where
  "children_length calc [] m = (Ok 0, m)"
| "children_length calc (child # cs) m =
     and_then (case child of None \<Rightarrow> (Ok 1, m) | Some i \<Rightarrow> reference_length calc i m) (\<lambda>a m.
       and_then (children_length calc cs m) (\<lambda>b m. (Ok (a + b), m)))"

definition payload_length ::
  "ext \<Rightarrow> ref_calc \<Rightarrow> node_id \<Rightarrow> mpt \<Rightarrow> (mpt_error, nat) outcome \<times> mpt" where
  "payload_length E calc i m =
     (case node_at m i of
        None \<Rightarrow> (Panic IndexOutOfBounds, m)
      | Some nd \<Rightarrow>
          (case nd of
             Null \<Rightarrow> (Ok 0, m)
           | Branch cs \<Rightarrow> and_then (children_length calc cs m) (\<lambda>s m. (Ok (1 + s), m))
           | Leaf encoded_path val \<Rightarrow>
               (Ok (bytes_length E encoded_path + bytes_length E val), m)
           | Extension encoded_path c \<Rightarrow>
               and_then (reference_length calc c m) (\<lambda>s m.
                 (Ok (bytes_length E encoded_path + s), m))
           | Digest _ \<Rightarrow> (Ok 32, m)))"

definition reference_encode ::
  "ext \<Rightarrow> ref_calc \<Rightarrow> node_id \<Rightarrow> bytes \<Rightarrow> mpt \<Rightarrow> (mpt_error, bytes) outcome \<times> mpt" where
  "reference_encode E calc i out m =
     and_then (get_or_insert_ref calc i m) (\<lambda>r m.
       (Ok (case r of
              RefBytes bs \<Rightarrow> out @ bs
            | RefDigest digest \<Rightarrow> (out @ [EMPTY_STRING_CODE E + 32]) @ digest), m))"

primrec children_encode ::
  "ext \<Rightarrow> ref_calc \<Rightarrow> node_id option list \<Rightarrow> bytes \<Rightarrow> mpt \<Rightarrow> (mpt_error, bytes) outcome \<times> mpt" where
  "children_encode E calc [] out m = (Ok out, m)"
| "children_encode E calc (child # cs) out m =
     and_then (case child of
                 Some i \<Rightarrow> reference_encode E calc i out m
               | None \<Rightarrow> (Ok (out @ [EMPTY_STRING_CODE E]), m)) (\<lambda>out m.
       children_encode E calc cs out m)"

definition encode_with_payload_len ::
  "ext \<Rightarrow> ref_calc \<Rightarrow> node_id \<Rightarrow> nat \<Rightarrow> bytes \<Rightarrow> mpt \<Rightarrow> (mpt_error, bytes) outcome \<times> mpt" where
  "encode_with_payload_len E calc i payload_len out m =
     (case node_at m i of
        None \<Rightarrow> (Panic IndexOutOfBounds, m)
      | Some nd \<Rightarrow>
          (case nd of
             Null \<Rightarrow> (Ok (out @ [EMPTY_STRING_CODE E]), m)
           | Branch cs \<Rightarrow>
               and_then (children_encode E calc cs (out @ header_encode E True payload_len) m)
                 (\<lambda>out m. (Ok (out @ [EMPTY_STRING_CODE E]), m))
           | Leaf encoded_path val \<Rightarrow>
               (Ok (((out @ header_encode E True payload_len) @ bytes_encode E encoded_path)
                    @ bytes_encode E val), m)
           | Extension encoded_path c \<Rightarrow>
               reference_encode E calc c
                 ((out @ header_encode E True payload_len) @ bytes_encode E encoded_path) m
           | Digest digest \<Rightarrow> (Ok (out @ bytes_encode E digest), m)))"

primrec calc_reference :: "nat \<Rightarrow> ext \<Rightarrow> ref_calc" where
  "calc_reference 0 E i m = (Panic StackOverflow, m)"
| "calc_reference (Suc fuel) E i m =
     (case node_at m i of
        None \<Rightarrow> (Panic IndexOutOfBounds, m)
      | Some nd \<Rightarrow>
          (case nd of
             Null \<Rightarrow> (Ok (RefBytes (NULL_NODE_REF_SLICE E)), m)
           | Digest digest \<Rightarrow> (Ok (RefDigest digest), m)
           | _ \<Rightarrow>
               and_then (payload_length E (calc_reference fuel E) i m) (\<lambda>payload_len m.
                 if payload_len + length_of_length E payload_len < 32 then
                   and_then (encode_with_payload_len E (calc_reference fuel E) i payload_len [] m)
                     (\<lambda>encoded m. (Ok (RefBytes encoded), m))
                 else if scratch_borrowed m then (Panic AlreadyBorrowed, m)
                 else
                   and_then (encode_with_payload_len E (calc_reference fuel E) i payload_len []
                               (m\<lparr>rlp_scratch := [], scratch_borrowed := True\<rparr>))
                     (\<lambda>scratch m.
                       (Ok (RefDigest (keccak256 E scratch)),
                        m\<lparr>rlp_scratch := scratch, scratch_borrowed := False\<rparr>)))))"

text \<open>
  A chain of references longer than the number of nodes meets a borrowed cell, so this fuel is
  enough for every arena.
\<close>

definition hash_fuel :: "mpt \<Rightarrow> nat" where
  "hash_fuel m = Suc (length (nodes m))"

definition digest_of_ref :: "ext \<Rightarrow> node_ref \<Rightarrow> mpt \<Rightarrow> (mpt_error, bytes) outcome \<times> mpt" where
  "digest_of_ref E r m =
     (case r of
        RefDigest digest \<Rightarrow>
          (case b256_from_slice digest of
             None \<Rightarrow> (Panic LengthMismatch, m)
           | Some d \<Rightarrow> (Ok d, m))
      | RefBytes bs \<Rightarrow> (Ok (keccak256 E bs), m))"

definition hash :: "ext \<Rightarrow> mpt \<Rightarrow> (mpt_error, bytes) outcome \<times> mpt" where
  "hash E m =
     (case node_at m (root_id m) of
        None \<Rightarrow> (Panic IndexOutOfBounds, m)
      | Some Null \<Rightarrow> (Ok (EMPTY_ROOT_HASH E), m)
      | Some _ \<Rightarrow>
          and_then (get_or_insert_ref (calc_reference (hash_fuel m) E) (root_id m) m)
            (digest_of_ref E))"

definition subtree_hash :: "ext \<Rightarrow> node_id \<Rightarrow> mpt \<Rightarrow> (mpt_error, bytes) outcome \<times> mpt" where
  "subtree_hash E i m =
     (case node_at m i of
        None \<Rightarrow> (Panic IndexOutOfBounds, m)
      | Some Null \<Rightarrow> (Ok (EMPTY_ROOT_HASH E), m)
      | Some _ \<Rightarrow> and_then (calc_reference (hash_fuel m) E i m) (digest_of_ref E))"

definition root_is_hash_addressed :: "ext \<Rightarrow> mpt \<Rightarrow> (mpt_error, bool) outcome \<times> mpt" where
  "root_is_hash_addressed E m =
     and_then (calc_reference (hash_fuel m) E (root_id m) m) (\<lambda>r m.
       (Ok (case r of RefDigest _ \<Rightarrow> True | RefBytes _ \<Rightarrow> False), m))"

end
