(* ===== verification/Patricia_Spec.thy ===== *)
theory Patricia_Spec
  imports Mpt_Types
begin

text \<open>
  The abstract Patricia trie the arena of \<^verbatim>\<open>trie.rs\<close> implements: plain trees with decoded
  nibble paths, no node indices, no caches, no packed bytes. \<open>pt_get\<close>, \<open>pt_insert\<close> and
  \<open>pt_delete\<close> are its operations, \<open>canon\<close> the shape a trie keeps. The theory shows that the
  operations are those of a finite map, that they keep the shape, and that the shape is
  unique: a resolved trie is determined by the map it stores.
\<close>

named_theorems pt_simps \<open>evaluation of the abstract trie operations\<close>

datatype ptree =
    PNull
  | PBranch "ptree option list"
  | PLeaf nibs bytes
  | PExt nibs ptree
  | PDigest bytes

lemma size_child [termination_simp]:
  "i < length cs \<Longrightarrow> cs ! i = Some c \<Longrightarrow> size c < Suc (size_list (size_option size) cs)"
proof -
  assume "i < length cs" "cs ! i = Some c"
  then have "Some c \<in> set cs" by (metis nth_mem)
  then have "size_option size (Some c) \<le> size_list (size_option size) cs"
    by (rule size_list_estimation') simp
  then show ?thesis by simp
qed

section \<open>Operations\<close>

function pt_get :: "ptree \<Rightarrow> nibs \<Rightarrow> (mpt_error, bytes option) outcome" where
  "pt_get PNull k = Ok None"
| "pt_get (PBranch cs) k =
     (case k of
        [] \<Rightarrow> Ok None
      | i # tail \<Rightarrow>
          (if unat i < length cs then
             (case cs ! unat i of None \<Rightarrow> Ok None | Some c \<Rightarrow> pt_get c tail)
           else Panic IndexOutOfBounds))"
| "pt_get (PLeaf p v) k = Ok (if p = k then Some v else None)"
| "pt_get (PExt p c) k =
     (if prefix p k then pt_get c (drop (length p) k) else Ok None)"
| "pt_get (PDigest d) k = Err (NodeNotResolved d)"
  by pat_completeness auto
termination
  by (relation "measure (\<lambda>(t, _). size t)") (auto simp: termination_simp)

definition pt_fork :: "nibs \<Rightarrow> byte \<Rightarrow> ptree \<Rightarrow> byte \<Rightarrow> ptree \<Rightarrow> ptree" where
  "pt_fork stem x tx y ty =
     (let branch = PBranch (no_children[unat x := Some tx, unat y := Some ty]) in
      if stem = [] then branch else PExt stem branch)"

definition pt_tail :: "nibs \<Rightarrow> ptree \<Rightarrow> ptree" where
  "pt_tail p c = (if p = [] then c else PExt p c)"

function pt_insert :: "ptree \<Rightarrow> nibs \<Rightarrow> bytes \<Rightarrow> (mpt_error, bool \<times> ptree) outcome" where
  "pt_insert PNull k v = Ok (True, PLeaf k v)"
| "pt_insert (PBranch cs) k v =
     (case k of
        [] \<Rightarrow> Err ValueInBranch
      | i # tail \<Rightarrow>
          (if unat i < length cs then
             (case cs ! unat i of
                None \<Rightarrow> Ok (True, PBranch (cs[unat i := Some (PLeaf tail v)]))
              | Some c \<Rightarrow>
                  (case pt_insert c tail v of
                     Ok (b, c') \<Rightarrow> Ok (b, PBranch (cs[unat i := Some c']))
                   | Err e \<Rightarrow> Err e
                   | Panic q \<Rightarrow> Panic q))
           else Panic IndexOutOfBounds))"
| "pt_insert (PLeaf p w) k v =
     (let n = lcp p k in
      if n = length p \<and> n = length k then (if w = v then Ok (False, PLeaf p w) else Ok (True, PLeaf p v))
      else if n = length p \<or> n = length k then Err ValueInBranch
      else Ok (True, pt_fork (take n p) (p ! n) (PLeaf (drop (n + 1) p) w)
                                        (k ! n) (PLeaf (drop (n + 1) k) v)))"
| "pt_insert (PExt p c) k v =
     (let n = lcp p k in
      if n = length p then
        (case pt_insert c (drop n k) v of
           Ok (b, c') \<Rightarrow> Ok (b, PExt p c')
         | Err e \<Rightarrow> Err e
         | Panic q \<Rightarrow> Panic q)
      else if n = length k then Err ValueInBranch
      else Ok (True, pt_fork (take n p) (p ! n) (pt_tail (drop (n + 1) p) c)
                                        (k ! n) (PLeaf (drop (n + 1) k) v)))"
| "pt_insert (PDigest d) k v = Err (NodeNotResolved d)"
  by pat_completeness auto
termination
  by (relation "measure (\<lambda>(t, _, _). size t)") (auto simp: termination_simp)

fun pt_join :: "nibs \<Rightarrow> ptree \<Rightarrow> ptree" where
  "pt_join p PNull = PNull"
| "pt_join p (PLeaf q v) = PLeaf (p @ q) v"
| "pt_join p (PExt q c) = PExt (p @ q) c"
| "pt_join p (PBranch cs) = PExt p (PBranch cs)"
| "pt_join p (PDigest d) = PExt p (PDigest d)"

definition pt_collapse :: "ptree option list \<Rightarrow> ptree" where
  "pt_collapse cs =
     (case remaining cs of
        [j] \<Rightarrow> pt_join [of_nat j] (the (cs ! j))
      | _ \<Rightarrow> PBranch cs)"

function pt_delete :: "ptree \<Rightarrow> nibs \<Rightarrow> (mpt_error, bool \<times> ptree) outcome" where
  "pt_delete PNull k = Ok (False, PNull)"
| "pt_delete (PBranch cs) k =
     (case k of
        [] \<Rightarrow> Err ValueInBranch
      | i # tail \<Rightarrow>
          (if unat i < length cs then
             (case cs ! unat i of
                None \<Rightarrow> Ok (False, PBranch cs)
              | Some c \<Rightarrow>
                  (case pt_delete c tail of
                     Ok (b, c') \<Rightarrow>
                       (if \<not> b then Ok (False, PBranch cs)
                        else Ok (True, pt_collapse
                               (cs[unat i := (if c' = PNull then None else Some c')])))
                   | Err e \<Rightarrow> Err e
                   | Panic q \<Rightarrow> Panic q))
           else Panic IndexOutOfBounds))"
| "pt_delete (PLeaf p w) k = (if p = k then Ok (True, PNull) else Ok (False, PLeaf p w))"
| "pt_delete (PExt p c) k =
     (if prefix p k then
        (case pt_delete c (drop (length p) k) of
           Ok (b, c') \<Rightarrow> (if \<not> b then Ok (False, PExt p c) else Ok (True, pt_join p c'))
         | Err e \<Rightarrow> Err e
         | Panic q \<Rightarrow> Panic q)
      else Ok (False, PExt p c))"
| "pt_delete (PDigest d) k = Err (NodeNotResolved d)"
  by pat_completeness auto
termination
  by (relation "measure (\<lambda>(t, _). size t)") (auto simp: termination_simp)

section \<open>The canonical shape\<close>

fun pt_anchor :: "ptree \<Rightarrow> bool" where
  "pt_anchor (PBranch _) = True"
| "pt_anchor (PDigest _) = True"
| "pt_anchor _ = False"

function canon :: "ptree \<Rightarrow> bool" where
  "canon PNull = False"
| "canon (PBranch cs) \<longleftrightarrow>
     length cs = 16 \<and> 2 \<le> length (remaining cs) \<and>
     (\<forall>i < length cs. case cs ! i of None \<Rightarrow> True | Some c \<Rightarrow> canon c)"
| "canon (PLeaf p v) \<longleftrightarrow> nibbles p"
| "canon (PExt p c) \<longleftrightarrow> p \<noteq> [] \<and> nibbles p \<and> pt_anchor c \<and> canon c"
| "canon (PDigest d) \<longleftrightarrow> length d = 32"
  by pat_completeness auto
termination
  by (relation "measure size") (auto simp: termination_simp)

definition canon_top :: "ptree \<Rightarrow> bool" where
  "canon_top t \<longleftrightarrow> t = PNull \<or> canon t"

lemma canon_child: "canon (PBranch cs) \<Longrightarrow> i < 16 \<Longrightarrow> cs ! i = Some c \<Longrightarrow> canon c"
  by (auto split: option.splits)

lemma ptree_induct [case_names Null Branch Leaf Ext Digest]:
  assumes "P PNull"
    and "\<And>cs. (\<And>i c. i < length cs \<Longrightarrow> cs ! i = Some c \<Longrightarrow> P c) \<Longrightarrow> P (PBranch cs)"
    and "\<And>p v. P (PLeaf p v)"
    and "\<And>p c. P c \<Longrightarrow> P (PExt p c)"
    and "\<And>d. P (PDigest d)"
  shows "P t"
proof (induction t)
  case (PBranch cs)
  then show ?case by (intro assms(2)) (metis nth_mem option.set_intros)
qed (use assms in auto)

section \<open>The occupied slots of a branch\<close>

lemma set_remaining [simp]: "set (remaining cs) = {j. j < length cs \<and> cs ! j \<noteq> None}"
  by (auto simp: remaining_def)

lemma distinct_remaining [simp]: "distinct (remaining cs)"
  by (simp add: remaining_def)

lemma length_remaining: "length (remaining cs) = card {j. j < length cs \<and> cs ! j \<noteq> None}"
  by (metis distinct_card distinct_remaining set_remaining)

lemma finite_occupied [simp]: "finite {j. j < length cs \<and> P j}"
  by (rule finite_subset [of _ "{..<length cs}"]) auto

lemma remaining_replace:
  "i < length cs \<Longrightarrow> cs ! i \<noteq> None \<Longrightarrow> remaining (cs[i := Some c]) = remaining cs"
  by (auto simp: remaining_def nth_list_update intro!: filter_cong)

lemma length_remaining_set:
  "i < length cs \<Longrightarrow> cs ! i = None \<Longrightarrow> length (remaining (cs[i := Some c])) = Suc (length (remaining cs))"
proof -
  assume i: "i < length cs" "cs ! i = None"
  then have "{j. j < length (cs[i := Some c]) \<and> cs[i := Some c] ! j \<noteq> None} =
    insert i {j. j < length cs \<and> cs ! j \<noteq> None}"
    by (auto simp: nth_list_update)
  with i show ?thesis by (simp add: length_remaining)
qed

lemma remaining_clear:
  assumes i: "i < length cs" "cs ! i \<noteq> None"
  shows "Suc (length (remaining (cs[i := None]))) = length (remaining cs)"
proof -
  let ?A = "{j. j < length (cs[i := None]) \<and> cs[i := None] ! j \<noteq> None}"
  have A: "insert i ?A = {j. j < length cs \<and> cs ! j \<noteq> None}"
    using i by (auto simp: nth_list_update)
  have "i \<notin> ?A" "finite ?A" using i by simp_all
  then have "card (insert i ?A) = Suc (card ?A)" by simp
  then show ?thesis unfolding length_remaining A by simp
qed

lemma remaining_singleD:
  assumes "remaining cs = [j]"
  shows "j < length cs" "cs ! j \<noteq> None" "\<And>i. i < length cs \<Longrightarrow> i \<noteq> j \<Longrightarrow> cs ! i = None"
proof -
  have "{i. i < length cs \<and> cs ! i \<noteq> None} = {j}" by (metis assms set_remaining list.set(1,2))
  then show "j < length cs" "cs ! j \<noteq> None" "\<And>i. i < length cs \<Longrightarrow> i \<noteq> j \<Longrightarrow> cs ! i = None"
    by blast+
qed

lemma remaining_map [simp]: "remaining (map (map_option f) cs) = remaining cs"
  by (auto simp: remaining_def intro!: filter_cong)

section \<open>Insertion\<close>

lemma canon_fork:
  assumes "nibbles stem" "unat x < 16" "unat y < 16" "x \<noteq> y" "canon tx" "canon ty"
  shows "canon (pt_fork stem x tx y ty)"
proof -
  let ?b = "no_children[unat x := Some tx, unat y := Some ty]"
  have ne: "unat x \<noteq> unat y" using assms(4) by (simp add: word_unat_eq_iff)
  have "length (remaining (no_children[unat x := Some tx])) = Suc (length (remaining (no_children :: ptree option list)))"
    using assms by (intro length_remaining_set) auto
  moreover have "length (remaining ?b) = Suc (length (remaining (no_children[unat x := Some tx])))"
    using assms ne by (intro length_remaining_set) (auto simp: nth_list_update)
  ultimately have "2 \<le> length (remaining ?b)" by simp
  moreover have "\<forall>i < 16. case ?b ! i of None \<Rightarrow> True | Some c \<Rightarrow> canon c"
    using assms by (auto simp: nth_list_update)
  ultimately show ?thesis using assms by (simp add: pt_fork_def Let_def)
qed

lemma pt_get_fork:
  assumes "unat x < 16" "unat y < 16" "x \<noteq> y" "nibbles k"
  shows "pt_get (pt_fork stem x tx y ty) k =
    (if prefix (stem @ [x]) k then pt_get tx (drop (Suc (length stem)) k)
     else if prefix (stem @ [y]) k then pt_get ty (drop (Suc (length stem)) k)
     else Ok None)"
proof -
  have ne: "unat x \<noteq> unat y" using assms(3) by (simp add: word_unat_eq_iff)
  show ?thesis
  proof (cases "prefix stem k")
    case True
    then obtain r where k: "k = stem @ r" by (auto simp: prefix_def)
    with assms have "nibbles r" by simp
    with k assms show ?thesis by (cases r) (auto simp: pt_fork_def Let_def nth_list_update word_unat_eq_iff)
  next
    case False
    then have "\<not> prefix (stem @ [z]) k" for z by (auto simp: prefix_def)
    moreover have "stem \<noteq> []" using False by auto
    ultimately show ?thesis using False by (simp add: pt_fork_def Let_def)
  qed
qed

lemma pt_get_tail [simp]: "pt_get (pt_tail p c) k =
  (if prefix p k then pt_get c (drop (length p) k) else Ok None)"
  by (simp add: pt_tail_def)

lemma canon_tail: "canon c \<Longrightarrow> pt_anchor c \<Longrightarrow> nibbles p \<Longrightarrow> canon (pt_tail p c)"
  by (simp add: pt_tail_def)

lemma pt_insert_branchD:
  "pt_insert (PBranch cs) k v = Ok (b, t) \<Longrightarrow> \<exists>cs'. t = PBranch cs'"
  by (auto split: list.splits option.splits outcome.splits if_splits)

text \<open>The operations on a leaf and on an extension, by how the path and the key relate.\<close>

lemma lcp_same [simp]: "lcp a a = length a" "lcp (a @ b) a = length a" "lcp a (a @ b) = length a"
  using lcp_append [of a "[]" "[]"] lcp_append [of a b "[]"] lcp_append [of a "[]" b] by simp_all

lemma pt_insert_Leaf_rel [pt_simps]:
  "pt_insert (PLeaf p w) p v = (if w = v then Ok (False, PLeaf p w) else Ok (True, PLeaf p v))"
  "pt_insert (PLeaf (k @ n # r) w) k v = Err ValueInBranch"
  "pt_insert (PLeaf p w) (p @ n # r) v = Err ValueInBranch"
  "x \<noteq> y \<Longrightarrow> pt_insert (PLeaf (s @ x # xs) w) (s @ y # ys) v =
     Ok (True, pt_fork s x (PLeaf xs w) y (PLeaf ys v))"
  by (simp_all add: Let_def)

lemma pt_insert_Ext_rel [pt_simps]:
  "pt_insert (PExt p c) (p @ r) v =
     (case pt_insert c r v of
        Ok (b, c') \<Rightarrow> Ok (b, PExt p c') | Err e \<Rightarrow> Err e | Panic q \<Rightarrow> Panic q)"
  "pt_insert (PExt (k @ n # r) c) k v = Err ValueInBranch"
  "x \<noteq> y \<Longrightarrow> pt_insert (PExt (s @ x # xs) c) (s @ y # ys) v =
     Ok (True, pt_fork s x (pt_tail xs c) y (PLeaf ys v))"
  by (simp_all add: Let_def)

declare pt_insert.simps(3,4) [simp del]

lemma prefix_or_fork:
  fixes p k :: nibs
  obtains (below) r where "k = p @ r"
  | (above) n r where "p = k @ n # r"
  | (fork) s x xs y ys where "p = s @ x # xs" "k = s @ y # ys" "x \<noteq> y"
  by (rule lcp_cases [of k p]) (metis append_Nil2, metis+)

lemma pt_insert_canon:
  assumes "canon_top t" "nibbles k" "pt_insert t k v = Ok (b, t')"
  shows "canon t'"
  using assms(2-) assms(1) unfolding canon_top_def
proof (induction t arbitrary: k b t' rule: ptree_induct)
  case (Branch cs)
  from Branch.prems obtain i r where k: "k = i # r" "unat i < 16"
    by (cases k) auto
  with Branch.prems have cs: "length cs = 16" "2 \<le> length (remaining cs)"
    "\<forall>j < 16. case cs ! j of None \<Rightarrow> True | Some c \<Rightarrow> canon c" by auto
  show ?case
  proof (cases "cs ! unat i")
    case None
    with Branch.prems k cs show ?thesis by (auto simp: length_remaining_set nth_list_update)
  next
    case (Some c)
    with Branch.prems k obtain c' where c': "pt_insert c r v = Ok (b, c')"
      "t' = PBranch (cs[unat i := Some c'])"
      by (auto split: outcome.splits if_splits)
    have "canon c'"
      using Branch.IH [of "unat i" c] k Some c' cs Branch.prems by (force split: option.splits)
    with k cs c' Some show ?thesis by (auto simp: remaining_replace nth_list_update)
  qed
next
  case (Leaf p w)
  then show ?case
    by (cases rule: lcp_cases [of k p]) (auto simp: pt_simps canon_fork split: if_splits)
next
  case (Ext p c)
  show ?case
  proof (cases rule: prefix_or_fork [of k p])
    case (below r)
    with Ext.prems obtain c' where c': "pt_insert c r v = Ok (b, c')" "t' = PExt p c'"
      by (auto simp: pt_simps split: outcome.splits)
    with Ext.prems below have "canon c'" by (intro Ext.IH [of r b c']) auto
    moreover have "pt_anchor c'"
      using c' Ext.prems by (cases c) (auto dest: pt_insert_branchD simp del: pt_insert.simps(2))
    ultimately show ?thesis using c' Ext.prems by simp
  qed (use Ext.prems in \<open>auto simp: pt_simps canon_fork canon_tail\<close>)
qed auto

lemma pt_insert_get:
  assumes "canon_top t" "nibbles k" "nibbles k'" "pt_insert t k v = Ok (b, t')"
  shows "pt_get t' k' = (if k' = k then Ok (Some v) else pt_get t k')"
  using assms(2-) assms(1) unfolding canon_top_def
proof (induction t arbitrary: k k' b t' rule: ptree_induct)
  case (Branch cs)
  from Branch.prems obtain i r where k: "k = i # r" "unat i < 16"
    by (cases k) auto
  with Branch.prems have cs: "length cs = 16"
    "\<forall>j < 16. case cs ! j of None \<Rightarrow> True | Some c \<Rightarrow> canon c" by auto
  show ?case
  proof (cases "cs ! unat i")
    case None
    with Branch.prems k cs show ?thesis
      by (auto simp: nth_list_update word_unat_eq_iff split: list.split)
  next
    case (Some c)
    with Branch.prems k obtain c' where c': "pt_insert c r v = Ok (b, c')"
      "t' = PBranch (cs[unat i := Some c'])"
      by (auto split: outcome.splits if_splits)
    have "pt_get c' r' = (if r' = r then Ok (Some v) else pt_get c r')" if "nibbles r'" for r'
      using Branch.IH [of "unat i" c r r'] k Some c' cs Branch.prems that by (force split: option.splits)
    with k cs c' Some Branch.prems(2) show ?thesis
      by (auto simp: nth_list_update word_unat_eq_iff split: list.split)
  qed
next
  case (Leaf p w)
  show ?case
  proof (cases rule: lcp_cases [of k p])
    case (fork s x xs y ys)
    with Leaf.prems have "t' = pt_fork s x (PLeaf xs w) y (PLeaf ys v)" "x \<noteq> y" by (auto simp: pt_simps)
    with fork Leaf.prems show ?thesis by (auto simp: pt_get_fork prefix_def) metis+
  qed (use Leaf.prems in \<open>auto simp: pt_simps split: if_splits\<close>)
next
  case (Ext p c)
  show ?case
  proof (cases rule: prefix_or_fork [of k p])
    case (below r)
    with Ext.prems obtain c' where c': "pt_insert c r v = Ok (b, c')" "t' = PExt p c'"
      by (auto simp: pt_simps split: outcome.splits)
    have "pt_get c' r' = (if r' = r then Ok (Some v) else pt_get c r')" if "nibbles r'" for r'
      using Ext.IH [of r r'] c' Ext.prems below that by auto
    with c' below Ext.prems show ?thesis by (auto simp: prefix_def)
  next
    case (fork s x xs y ys)
    with Ext.prems have "t' = pt_fork s x (pt_tail xs c) y (PLeaf ys v)" by (auto simp: pt_simps)
    with fork Ext.prems show ?thesis by (auto simp: pt_get_fork prefix_def)
  qed (use Ext.prems in \<open>auto simp: pt_simps\<close>)
qed auto

lemma pt_insert_updated:
  assumes "pt_insert t k v = Ok (b, t')"
  shows "b \<longleftrightarrow> pt_get t k \<noteq> Ok (Some v)" "\<not> b \<Longrightarrow> t' = t"
proof -
  have "(b \<longleftrightarrow> pt_get t k \<noteq> Ok (Some v)) \<and> (\<not> b \<longrightarrow> t' = t)"
    using assms
  proof (induction t arbitrary: k b t' rule: ptree_induct)
    case (Branch cs)
    then obtain i r where k: "k = i # r" "unat i < length cs"
      by (auto split: list.splits if_splits)
    show ?case
    proof (cases "cs ! unat i")
      case (Some c)
      with Branch.prems k obtain c' where c': "pt_insert c r v = Ok (b, c')"
        "t' = PBranch (cs[unat i := Some c'])"
        by (auto split: outcome.splits)
      have "(b \<longleftrightarrow> pt_get c r \<noteq> Ok (Some v)) \<and> (\<not> b \<longrightarrow> c' = c)"
        by (rule Branch.IH [OF k(2) Some c'(1)])
      moreover have "cs[unat i := Some c] = cs" using Some by (metis list_update_id)
      ultimately show ?thesis using k Some c'(2) by auto
    qed (use Branch.prems k in auto)
  next
    case (Leaf p w)
    then show ?case
      by (cases rule: lcp_cases [of k p]) (auto simp: pt_simps split: if_splits)
  next
    case (Ext p c)
    then show ?case
      by (cases rule: prefix_or_fork [of k p])
         (fastforce simp: pt_simps prefix_def split: outcome.splits)+
  qed auto
  then show "b \<longleftrightarrow> pt_get t k \<noteq> Ok (Some v)" "\<not> b \<Longrightarrow> t' = t" by blast+
qed

section \<open>Deletion\<close>

lemma canon_join: "canon c \<Longrightarrow> nibbles p \<Longrightarrow> p \<noteq> [] \<Longrightarrow> canon (pt_join p c)"
  by (cases c) auto

lemma pt_get_join:
  "c \<noteq> PNull \<Longrightarrow> pt_get (pt_join p c) k =
     (if prefix p k then pt_get c (drop (length p) k) else Ok None)"
  by (cases c) (auto simp: prefix_def, metis)

lemma pt_join_eq_Null [simp]: "pt_join p c = PNull \<longleftrightarrow> c = PNull"
  by (cases c) auto

lemma collapse_cases:
  assumes "1 \<le> length (remaining cs)"
  obtains (single) j c where "remaining cs = [j]" "j < length cs" "cs ! j = Some c"
      "pt_collapse cs = pt_join [of_nat j] c"
  | (many) "2 \<le> length (remaining cs)" "pt_collapse cs = PBranch cs"
proof (cases "remaining cs")
  case Nil
  with assms show thesis by simp
next
  case (Cons j js)
  show thesis
  proof (cases js)
    case Nil
    with Cons have "remaining cs = [j]" by simp
    with remaining_singleD [OF this] show thesis
      by (intro single) (auto simp: pt_collapse_def)
  next
    case (Cons a as)
    with \<open>remaining cs = j # js\<close> show thesis by (intro many) (auto simp: pt_collapse_def)
  qed
qed

lemma unat_of_nat_nibble [simp]: "j < 16 \<Longrightarrow> unat (of_nat j :: byte) = j"
  by (simp add: unat_of_nat)

lemma canon_collapse:
  assumes "length cs = 16" "1 \<le> length (remaining cs)"
    "\<forall>j < 16. case cs ! j of None \<Rightarrow> True | Some c \<Rightarrow> canon c"
  shows "canon (pt_collapse cs)"
  using assms(2)
proof (cases rule: collapse_cases)
  case (single j c)
  with assms have "canon c" "j < 16" by (force split: option.splits)+
  then have "canon (pt_join [of_nat j] c)" by (intro canon_join) auto
  with single show ?thesis by simp
qed (use assms in auto)

lemma pt_get_collapse:
  assumes "length cs = 16" "1 \<le> length (remaining cs)" "nibbles k"
    "\<forall>j < 16. case cs ! j of None \<Rightarrow> True | Some c \<Rightarrow> canon c"
  shows "pt_get (pt_collapse cs) k = pt_get (PBranch cs) k"
  using assms(2)
proof (cases rule: collapse_cases)
  case (single j c)
  with assms have "canon c" "j < 16" by (force split: option.splits)+
  then have "c \<noteq> PNull" by auto
  note others = remaining_singleD(3) [OF single(1)]
  have "of_nat j = (i :: byte) \<longleftrightarrow> unat i = j" for i
    using \<open>j < 16\<close> by (metis unat_of_nat_nibble word_unat_eq_iff)
  with single assms others show ?thesis
    by (auto simp: pt_get_join [OF \<open>c \<noteq> PNull\<close>] split: list.split option.split)
qed simp

lemma remaining_update_ge:
  assumes "i < length cs" "cs ! i \<noteq> None" "2 \<le> length (remaining cs)"
  shows "1 \<le> length (remaining (cs[i := (if c = PNull then None else Some c)]))"
  using assms remaining_clear [OF assms(1,2)] by (auto simp: remaining_replace)

lemma pt_delete_canon:
  assumes "canon_top t" "nibbles k" "pt_delete t k = Ok (b, t')"
  shows "canon_top t'"
  using assms(2-) assms(1)
proof (induction t arbitrary: k b t' rule: ptree_induct)
  case (Branch cs)
  from Branch.prems obtain i r where k: "k = i # r" "unat i < 16"
    by (cases k) auto
  with Branch.prems have cs: "length cs = 16" "2 \<le> length (remaining cs)"
    "\<forall>j < 16. case cs ! j of None \<Rightarrow> True | Some c \<Rightarrow> canon c" by (auto simp: canon_top_def)
  show ?case
  proof (cases "cs ! unat i")
    case None
    with Branch.prems k cs show ?thesis by auto
  next
    case (Some c)
    with Branch.prems k obtain d c' where c': "pt_delete c r = Ok (d, c')"
      by (auto split: outcome.splits if_splits)
    have "canon_top c'"
      using Branch.IH [of "unat i" c r d c'] k Some c' cs Branch.prems
      by (force simp: canon_top_def split: option.splits)
    then have "canon (pt_collapse (cs[unat i := (if c' = PNull then None else Some c')]))"
      using k cs Some remaining_update_ge [of "unat i" cs c']
      by (intro canon_collapse) (auto simp: nth_list_update canon_top_def)
    with Branch.prems k Some c' show ?thesis
      by (cases d) (auto simp: canon_top_def split: if_splits)
  qed
next
  case (Ext p c)
  show ?case
  proof (cases "prefix p k")
    case True
    with Ext.prems obtain d c' where c': "pt_delete c (drop (length p) k) = Ok (d, c')"
      by (auto split: outcome.splits)
    have "canon_top c'" using Ext.IH [OF _ c'] Ext.prems by (auto simp: canon_top_def)
    then have "canon_top (pt_join p c')" using Ext.prems by (auto simp: canon_top_def canon_join)
    with Ext.prems True c' show ?thesis by (auto split: if_splits)
  qed (use Ext.prems in auto)
qed (auto simp: canon_top_def split: if_splits)

lemma pt_delete_updated:
  assumes "pt_delete t k = Ok (b, t')"
  shows "b \<longleftrightarrow> pt_get t k \<noteq> Ok None" "\<not> b \<Longrightarrow> t' = t"
proof -
  have "(b \<longleftrightarrow> pt_get t k \<noteq> Ok None) \<and> (\<not> b \<longrightarrow> t' = t)"
    using assms
  proof (induction t arbitrary: k b t' rule: ptree_induct)
    case (Branch cs)
    then obtain i r where k: "k = i # r" "unat i < length cs"
      by (auto split: list.splits if_splits)
    show ?case
    proof (cases "cs ! unat i")
      case (Some c)
      with Branch.prems k obtain d c' where c': "pt_delete c r = Ok (d, c')"
        by (auto split: outcome.splits)
      from Branch.IH [OF k(2) Some c'] have "d \<longleftrightarrow> pt_get c r \<noteq> Ok None" by blast
      with Branch.prems k Some c' show ?thesis by (auto split: if_splits)
    qed (use Branch.prems k in auto)
  next
    case (Ext p c)
    then show ?case by (fastforce split: outcome.splits if_splits)
  qed (auto split: if_splits)
  then show "b \<longleftrightarrow> pt_get t k \<noteq> Ok None" "\<not> b \<Longrightarrow> t' = t" by blast+
qed

lemma pt_delete_get:
  assumes "canon_top t" "nibbles k" "nibbles k'" "pt_delete t k = Ok (b, t')"
  shows "pt_get t' k' = (if k' = k then Ok None else pt_get t k')"
proof (cases b)
  case False
  then show ?thesis using pt_delete_updated [OF assms(4)] by auto
next
  case True
  with assms(4) have "pt_delete t k = Ok (True, t')" by simp
  from assms(2,3) this assms(1) show ?thesis
  proof (induction t arbitrary: k k' t' rule: ptree_induct)
    case (Branch cs)
    from Branch.prems obtain i r where k: "k = i # r" "unat i < 16"
      by (cases k) auto
    with Branch.prems have cs: "length cs = 16" "2 \<le> length (remaining cs)"
      "\<forall>j < 16. case cs ! j of None \<Rightarrow> True | Some c \<Rightarrow> canon c" by (auto simp: canon_top_def)
    with Branch.prems k obtain c c' where c: "cs ! unat i = Some c" "pt_delete c r = Ok (True, c')"
      and t': "t' = pt_collapse (cs[unat i := (if c' = PNull then None else Some c')])"
      by (auto split: outcome.splits option.splits if_splits)
    have ctc: "canon_top c" using k c cs by (force simp: canon_top_def split: option.splits)
    with c k Branch.prems have ct: "canon_top c'" by (intro pt_delete_canon [OF _ _ c(2)]) auto
    have get: "pt_get c' r' = (if r' = r then Ok None else pt_get c r')" if "nibbles r'" for r'
      using Branch.IH [of "unat i" c r r' c'] k c cs Branch.prems that ctc by auto
    let ?cs = "cs[unat i := (if c' = PNull then None else Some c')]"
    have "pt_get (pt_collapse ?cs) k' = pt_get (PBranch ?cs) k'"
      using k cs c remaining_update_ge [of "unat i" cs c'] ct Branch.prems
      by (intro pt_get_collapse) (auto simp: nth_list_update canon_top_def)
    also have "\<dots> = (if k' = k then Ok None else pt_get (PBranch cs) k')"
      using k cs c get Branch.prems(2)
      by (auto simp: nth_list_update word_unat_eq_iff split: list.split) metis+
    finally show ?case using t' by simp
  next
    case (Ext p c)
    from Ext.prems obtain r c' where c: "k = p @ r" "pt_delete c r = Ok (True, c')" "t' = pt_join p c'"
      by (auto simp: prefix_def split: outcome.splits if_splits)
    have get: "pt_get c' r' = (if r' = r then Ok None else pt_get c r')" if "nibbles r'" for r'
      using Ext.IH [of r r' c'] Ext.prems c that by (auto simp: canon_top_def)
    show ?case
    proof (cases "c' = PNull")
      case True
      with get have "pt_get c r' = Ok None" if "nibbles r'" "r' \<noteq> r" for r'
        using that by (metis pt_get.simps(1))
      with True c Ext.prems show ?thesis by (auto simp: prefix_def) metis
    next
      case False
      with get c Ext.prems show ?thesis by (auto simp: pt_get_join prefix_def)
    qed
  qed (auto simp: canon_top_def split: if_splits)
qed

section \<open>Uniqueness of the canonical shape\<close>

function resolved :: "ptree \<Rightarrow> bool" where
  "resolved PNull = True"
| "resolved (PBranch cs) = (\<forall>i < length cs. case cs ! i of None \<Rightarrow> True | Some c \<Rightarrow> resolved c)"
| "resolved (PLeaf p v) = True"
| "resolved (PExt p c) = resolved c"
| "resolved (PDigest d) = False"
  by pat_completeness auto
termination
  by (relation "measure size") (auto simp: termination_simp)

lemma canon_has_key:
  "canon t \<Longrightarrow> \<exists>k. nibbles k \<and> pt_get t k \<noteq> Ok None"
proof (induction t rule: ptree_induct)
  case (Branch cs)
  then obtain j where "j \<in> set (remaining cs)" by (cases "remaining cs") auto
  then obtain c where j: "j < length cs" "cs ! j = Some c" by auto
  with Branch.prems have "canon c" by (auto split: option.splits)
  with Branch.IH [OF j] obtain k where "nibbles k" "pt_get c k \<noteq> Ok None" by blast
  with j Branch.prems show ?case by (intro exI [of _ "of_nat j # k"]) auto
next
  case (Ext p c)
  then obtain k where "nibbles k" "pt_get c k \<noteq> Ok None" by auto
  with Ext.prems show ?case by (intro exI [of _ "p @ k"]) auto
qed (auto intro: exI [of _ "[]"])

text \<open>
  A key is a hit when the lookup finds a value or meets an unresolved digest. A branch, and a
  digest, have two hits that already differ in their first nibble.
\<close>

lemma anchor_forks:
  assumes "canon t" "pt_anchor t"
  obtains x a y b where "x \<noteq> y" "nibbles (x # a)" "nibbles (y # b)"
    "pt_get t (x # a) \<noteq> Ok None" "pt_get t (y # b) \<noteq> Ok None"
proof (cases t)
  case (PBranch cs)
  have key: "\<exists>a. nibbles (of_nat j # a) \<and> pt_get t (of_nat j # a) \<noteq> Ok None"
    if "j \<in> set (remaining cs)" for j
  proof -
    from that obtain c where j: "j < length cs" "cs ! j = Some c" by auto
    with assms PBranch have "canon c" by (auto split: option.splits)
    with canon_has_key obtain k where "nibbles k" "pt_get c k \<noteq> Ok None" by blast
    with j assms PBranch show ?thesis by (intro exI [of _ k]) auto
  qed
  obtain i j js where r: "remaining cs = i # j # js"
    using assms(1) PBranch by (cases "remaining cs"; cases "tl (remaining cs)") auto
  with distinct_remaining [of cs] have "i \<noteq> j" by auto
  moreover have "i \<in> set (remaining cs)" "j \<in> set (remaining cs)" using r by simp_all
  moreover from this have "i < 16" "j < 16" using assms(1) PBranch by auto
  ultimately have "(of_nat i :: byte) \<noteq> of_nat j" by (metis unat_of_nat_nibble)
  with key [OF \<open>i \<in> _\<close>] key [OF \<open>j \<in> _\<close>] that show thesis by metis
next
  case (PDigest d)
  with that [of 0 1 "[]" "[]"] show thesis by simp
qed (use assms in auto)

definition pt_same :: "ptree \<Rightarrow> ptree \<Rightarrow> bool" where
  "pt_same s t \<longleftrightarrow> (\<forall>k. nibbles k \<longrightarrow> pt_get s k = pt_get t k)"

lemma pt_same_sym: "pt_same s t \<longleftrightarrow> pt_same t s"
  by (auto simp: pt_same_def)

lemma leaf_key: "pt_get (PLeaf p v) k \<noteq> Ok None \<longleftrightarrow> k = p"
  by auto

lemma ext_keys: "pt_get (PExt p c) k \<noteq> Ok None \<Longrightarrow> prefix p k"
  by (auto split: if_splits)

lemma ext_forks:
  assumes "canon (PExt p c)"
  obtains x a y b where "x \<noteq> y" "nibbles (p @ x # a)" "nibbles (p @ y # b)"
    "pt_get (PExt p c) (p @ x # a) \<noteq> Ok None" "pt_get (PExt p c) (p @ y # b) \<noteq> Ok None"
proof -
  have c: "canon c" "pt_anchor c" and "nibbles p" using assms by simp_all
  obtain x a y b where "x \<noteq> y" "nibbles (x # a)" "nibbles (y # b)"
    "pt_get c (x # a) \<noteq> Ok None" "pt_get c (y # b) \<noteq> Ok None" by (rule anchor_forks [OF c])
  with that [of x y a b] \<open>nibbles p\<close> show thesis by simp
qed

lemma leaf_not_branching:
  assumes "pt_same (PLeaf p v) t" "canon t"
  shows "t = PLeaf p v"
proof -
  have hit: "k = p" if "nibbles k" "pt_get t k \<noteq> Ok None" for k
    using assms(1) that leaf_key [of p v k] unfolding pt_same_def by simp
  show ?thesis
  proof (cases t)
    case (PBranch cs)
    then have "pt_anchor t" by simp
    obtain x a y b where "x \<noteq> y" "nibbles (x # a)" "nibbles (y # b)"
      "pt_get t (x # a) \<noteq> Ok None" "pt_get t (y # b) \<noteq> Ok None"
      by (rule anchor_forks [OF assms(2) \<open>pt_anchor t\<close>])
    then have "x # a = p" "y # b = p" using hit by blast+
    with \<open>x \<noteq> y\<close> show ?thesis by auto
  next
    case (PExt q c)
    then have "canon (PExt q c)" using assms(2) by simp
    obtain x a y b where "x \<noteq> y" "nibbles (q @ x # a)" "nibbles (q @ y # b)"
      "pt_get (PExt q c) (q @ x # a) \<noteq> Ok None" "pt_get (PExt q c) (q @ y # b) \<noteq> Ok None"
      by (rule ext_forks [OF \<open>canon (PExt q c)\<close>])
    then have "q @ x # a = p" "q @ y # b = p" using hit PExt by blast+
    with \<open>x \<noteq> y\<close> show ?thesis by auto
  next
    case (PLeaf q w)
    with assms have "pt_get (PLeaf p v) q = Ok (Some w)" by (simp add: pt_same_def)
    with PLeaf show ?thesis by (auto split: if_splits)
  next
    case (PDigest d)
    have "pt_get (PLeaf p v) [] = pt_get t []" using assms(1) by (simp add: pt_same_def)
    with PDigest show ?thesis by simp
  qed (use assms in auto)
qed

lemma prefix_of_fork:
  "prefix q (p @ x # a) \<Longrightarrow> prefix q (p @ y # b) \<Longrightarrow> x \<noteq> y \<Longrightarrow> prefix q p"
proof (induction p arbitrary: q)
  case Nil
  then show ?case by (cases q) auto
next
  case (Cons z p)
  then show ?case by (cases q) auto
qed

lemma branch_ext_differ:
  assumes "pt_same (PBranch cs) (PExt p c)" "canon (PBranch cs)" "canon (PExt p c)"
  shows False
proof -
  obtain x a y b where xy: "x \<noteq> y" "nibbles (x # a)" "nibbles (y # b)"
    "pt_get (PBranch cs) (x # a) \<noteq> Ok None" "pt_get (PBranch cs) (y # b) \<noteq> Ok None"
    by (rule anchor_forks [OF assms(2)]) auto
  with assms(1) have "prefix p (x # a)" "prefix p (y # b)" unfolding pt_same_def by (metis ext_keys)+
  with xy(1) assms(3) show False by (cases p) auto
qed

text \<open>At the empty key a digest differs from every other tree.\<close>

lemma digest_differs:
  assumes "pt_same (PDigest d) t" "canon t"
  shows "t = PDigest d"
proof -
  have "pt_get (PDigest d) [] = pt_get t []" using assms(1) unfolding pt_same_def by simp
  then have "pt_get t [] = Err (NodeNotResolved d)" by simp
  with assms(2) show ?thesis by (cases t) (auto split: if_splits)
qed

lemma ext_prefix_le:
  assumes "pt_same (PExt p c) (PExt q d)" "canon (PExt p c)"
  shows "prefix q p"
proof -
  obtain x a y b where xy: "x \<noteq> y" "nibbles (p @ x # a)" "nibbles (p @ y # b)"
    "pt_get (PExt p c) (p @ x # a) \<noteq> Ok None" "pt_get (PExt p c) (p @ y # b) \<noteq> Ok None"
    by (rule ext_forks [OF assms(2)])
  then have "prefix q (p @ x # a)" "prefix q (p @ y # b)"
    using assms(1) unfolding pt_same_def by (metis ext_keys)+
  with xy(1) show ?thesis by (blast intro: prefix_of_fork)
qed

lemma pt_same_child:
  assumes "pt_same (PBranch cs) (PBranch ds)" "length cs = 16" "length ds = 16" "i < 16"
    "cs ! i = Some c"
  shows "ds ! i = Some d \<Longrightarrow> pt_same c d" "ds ! i = None \<Longrightarrow> nibbles k \<Longrightarrow> pt_get c k = Ok None"
proof -
  have eq: "pt_get (PBranch cs) (of_nat i # k) = pt_get (PBranch ds) (of_nat i # k)" if "nibbles k" for k
  proof -
    have "nibbles (of_nat i # k)" using that assms(4) by simp
    then show ?thesis using assms(1) unfolding pt_same_def by blast
  qed
  show "ds ! i = Some d \<Longrightarrow> pt_same c d" "ds ! i = None \<Longrightarrow> nibbles k \<Longrightarrow> pt_get c k = Ok None"
    using eq assms by (auto simp: pt_same_def)
qed

lemma canon_unique_nonempty:
  assumes "canon s" "canon t" "pt_same s t"
  shows "s = t"
  using assms
proof (induction s arbitrary: t rule: ptree_induct)
  case (Branch cs)
  show ?case
  proof (cases t)
    case (PBranch ds)
    have len: "length cs = 16" "length ds = 16" using Branch.prems PBranch by simp_all
    have "cs ! i = ds ! i" if i: "i < 16" for i
    proof (cases "cs ! i"; cases "ds ! i")
      fix d assume "cs ! i = None" and d: "ds ! i = Some d"
      have "pt_same (PBranch ds) (PBranch cs)" using Branch.prems(3) PBranch pt_same_sym by blast
      from pt_same_child(2) [OF this len(2,1) i d \<open>cs ! i = None\<close>]
      show ?thesis using canon_has_key [of d] Branch.prems PBranch i d len by (force split: option.splits)
    next
      fix c assume c: "cs ! i = Some c" and "ds ! i = None"
      from pt_same_child(2) [OF _ len i c \<open>ds ! i = None\<close>]
      show ?thesis using canon_has_key [of c] Branch.prems PBranch i c len by (force split: option.splits)
    next
      fix c d assume cd: "cs ! i = Some c" "ds ! i = Some d"
      with pt_same_child(1) [OF _ len i] Branch.prems PBranch have "pt_same c d" by blast
      moreover have "canon c" "canon d" using Branch.prems PBranch i cd len by (force split: option.splits)+
      ultimately show ?thesis using Branch.IH [of i c d] cd i len by simp
    qed simp
    then have "cs = ds" using len by (simp add: list_eq_iff_nth_eq)
    with PBranch show ?thesis by simp
  next
    case (PLeaf p v)
    with Branch.prems leaf_not_branching pt_same_sym show ?thesis by metis
  next
    case (PExt p c)
    with Branch.prems branch_ext_differ show ?thesis by blast
  next
    case (PDigest d)
    with Branch.prems digest_differs pt_same_sym show ?thesis by metis
  qed (use Branch.prems in auto)
next
  case (Leaf p v)
  then show ?case using leaf_not_branching by metis
next
  case (Ext p c)
  show ?case
  proof (cases t)
    case (PBranch ds)
    with Ext.prems branch_ext_differ pt_same_sym show ?thesis by metis
  next
    case (PLeaf q v)
    with Ext.prems leaf_not_branching pt_same_sym show ?thesis by metis
  next
    case (PDigest d)
    with Ext.prems digest_differs pt_same_sym show ?thesis by metis
  next
    case (PExt q d)
    then have "prefix q p" "prefix p q"
      using ext_prefix_le Ext.prems pt_same_sym by metis+
    then have pq: "q = p" by (simp add: prefix_order.eq_iff)
    have "pt_get c k = pt_get d k" if "nibbles k" for k
    proof -
      have "nibbles (p @ k)" using that Ext.prems by simp
      then have "pt_get (PExt p c) (p @ k) = pt_get (PExt p d) (p @ k)"
        using Ext.prems(3) PExt pq unfolding pt_same_def by blast
      then show ?thesis by simp
    qed
    then have "pt_same c d" by (simp add: pt_same_def)
    with Ext.IH [of d] Ext.prems PExt pq show ?thesis by simp
  qed (use Ext.prems in auto)
next
  case (Digest d)
  then show ?case using digest_differs by metis
qed auto

text \<open>A canonical trie, resolved or not, is determined by its lookups.\<close>

lemma canon_unique:
  assumes "canon_top s" "canon_top t" "pt_same s t"
  shows "s = t"
proof (cases "s = PNull \<or> t = PNull")
  case True
  have "u = PNull" if "canon_top u" "pt_same u PNull" for u
    using that canon_has_key [of u] by (auto simp: canon_top_def pt_same_def)
  with True assms pt_same_sym show ?thesis by metis
next
  case False
  with assms canon_unique_nonempty show ?thesis by (auto simp: canon_top_def)
qed

section \<open>Keys of one length\<close>

text \<open>
  State and storage tries are keyed by 32-byte hashes: all keys have 64 nibbles. In such a trie
  no key is a prefix of another, so an update cannot meet a branch value.
\<close>

function keylen :: "nat \<Rightarrow> ptree \<Rightarrow> bool" where
  "keylen n PNull = True"
| "keylen n (PBranch cs) \<longleftrightarrow>
     0 < n \<and> (\<forall>i < length cs. case cs ! i of None \<Rightarrow> True | Some c \<Rightarrow> keylen (n - 1) c)"
| "keylen n (PLeaf p v) \<longleftrightarrow> length p = n"
| "keylen n (PExt p c) \<longleftrightarrow> length p \<le> n \<and> keylen (n - length p) c"
| "keylen n (PDigest d) = True"
  by pat_completeness auto
termination
  by (relation "measure (\<lambda>(_, t). size t)") (auto simp: termination_simp)

lemma keylen_fork:
  assumes "keylen m tx" "keylen m ty" "n = length s + Suc m"
    "unat x < 16" "unat y < 16" "x \<noteq> y"
  shows "keylen n (pt_fork s x tx y ty)"
  using assms by (auto simp: pt_fork_def Let_def nth_list_update)

lemma pt_insert_keylen:
  assumes "canon_top t" "nibbles k" "keylen n t" "length k = n"
  shows "pt_insert t k v \<noteq> Err ValueInBranch"
    "pt_insert t k v = Ok (b, t') \<Longrightarrow> keylen n t'"
proof -
  have "pt_insert t k v \<noteq> Err ValueInBranch \<and> (pt_insert t k v = Ok (b, t') \<longrightarrow> keylen n t')"
    using assms(2-) assms(1)
  proof (induction t arbitrary: k n b t' rule: ptree_induct)
    case (Branch cs)
    then obtain i r where k: "k = i # r" "unat i < 16" by (cases k) auto
    with Branch.prems have cs: "length cs = 16" by (simp add: canon_top_def)
    show ?case
    proof (cases "cs ! unat i")
      case None
      with Branch.prems k cs show ?thesis by (auto simp: nth_list_update)
    next
      case (Some c)
      have "canon_top c" "keylen (n - 1) c"
        using Branch.prems cs k Some by (force simp: canon_top_def split: option.splits)+
      with Branch.IH [of "unat i" c r "n - 1"] k Some cs Branch.prems
      have "pt_insert c r v \<noteq> Err ValueInBranch \<and> (\<forall>b c'. pt_insert c r v = Ok (b, c') \<longrightarrow> keylen (n - 1) c')"
        by auto
      with Some k cs Branch.prems show ?thesis
        by (auto simp: nth_list_update split: outcome.splits)
    qed
  next
    case (Leaf p w)
    then show ?case
      by (cases rule: lcp_cases [of k p])
         (auto simp: pt_simps canon_top_def intro!: keylen_fork split: if_splits)
  next
    case (Ext p c)
    show ?case
    proof (cases rule: prefix_or_fork [of k p])
      case (below r)
      with Ext.IH [of r "n - length p"] Ext.prems
      have "pt_insert c r v \<noteq> Err ValueInBranch \<and>
        (\<forall>b c'. pt_insert c r v = Ok (b, c') \<longrightarrow> keylen (n - length p) c')"
        by (auto simp: canon_top_def)
      with below Ext.prems show ?thesis by (auto simp: pt_simps split: outcome.splits)
    next
      case (fork s x xs y ys)
      then have "keylen (length ys) (pt_tail xs c)" using Ext.prems by (auto simp: pt_tail_def)
      with fork Ext.prems show ?thesis by (auto simp: pt_simps canon_top_def intro!: keylen_fork)
    qed (use Ext.prems in auto)
  qed auto
  then show "pt_insert t k v \<noteq> Err ValueInBranch" "pt_insert t k v = Ok (b, t') \<Longrightarrow> keylen n t'"
    by blast+
qed

lemma keylen_join: "length p \<le> n \<Longrightarrow> keylen (n - length p) c \<Longrightarrow> keylen n (pt_join p c)"
  by (cases c) auto

lemma keylen_collapse:
  assumes "keylen n (PBranch cs)" "1 \<le> length (remaining cs)"
  shows "keylen n (pt_collapse cs)"
  using assms(2)
proof (cases rule: collapse_cases)
  case (single j c)
  with assms have "keylen (n - 1) c" "0 < n" by (force split: option.splits)+
  with single show ?thesis by (auto intro!: keylen_join)
qed (use assms in auto)

lemma pt_delete_keylen:
  assumes "canon_top t" "nibbles k" "keylen n t" "length k = n"
  shows "pt_delete t k \<noteq> Err ValueInBranch"
    "pt_delete t k = Ok (b, t') \<Longrightarrow> keylen n t'"
proof -
  have "pt_delete t k \<noteq> Err ValueInBranch \<and> (pt_delete t k = Ok (b, t') \<longrightarrow> keylen n t')"
    using assms(2-) assms(1)
  proof (induction t arbitrary: k n b t' rule: ptree_induct)
    case (Branch cs)
    then obtain i r where k: "k = i # r" "unat i < 16" by (cases k) auto
    with Branch.prems have cs: "length cs = 16" "2 \<le> length (remaining cs)"
      "\<forall>j < 16. case cs ! j of None \<Rightarrow> True | Some c \<Rightarrow> canon c" by (auto simp: canon_top_def)
    show ?case
    proof (cases "cs ! unat i")
      case None
      with Branch.prems k cs show ?thesis by auto
    next
      case (Some c)
      have c: "canon_top c" "keylen (n - 1) c"
        using Branch.prems cs k Some by (force simp: canon_top_def split: option.splits)+
      with Branch.IH [of "unat i" c r "n - 1"] k Some cs Branch.prems
      have ih: "pt_delete c r \<noteq> Err ValueInBranch \<and> (\<forall>b c'. pt_delete c r = Ok (b, c') \<longrightarrow> keylen (n - 1) c')"
        by auto
      have "keylen n (pt_collapse (cs[unat i := (if c' = PNull then None else Some c')]))"
        if "pt_delete c r = Ok (True, c')" for c'
      proof (rule keylen_collapse)
        show "keylen n (PBranch (cs[unat i := (if c' = PNull then None else Some c')]))"
          using Branch.prems ih that cs k by (auto simp: nth_list_update)
      qed (use cs k Some remaining_update_ge [of "unat i" cs c'] in simp)
      with ih Some k cs Branch.prems show ?thesis
        by (auto split: outcome.splits)
    qed
  next
    case (Ext p c)
    show ?case
    proof (cases "prefix p k")
      case True
      then obtain r where k: "k = p @ r" by (auto simp: prefix_def)
      have c: "canon_top c" using Ext.prems by (auto simp: canon_top_def)
      with Ext.IH [of r "n - length p"] Ext.prems k
      have ih: "pt_delete c r \<noteq> Err ValueInBranch \<and>
        (\<forall>b c'. pt_delete c r = Ok (b, c') \<longrightarrow> keylen (n - length p) c')"
        by auto
      with k Ext.prems show ?thesis
        by (auto simp: canon_top_def intro!: keylen_join split: outcome.splits)
    qed (use Ext.prems in auto)
  qed auto
  then show "pt_delete t k \<noteq> Err ValueInBranch" "pt_delete t k = Ok (b, t') \<Longrightarrow> keylen n t'"
    by blast+
qed

section \<open>Absence of panics, and what a failure means\<close>

text \<open>
  On canonical tries and real nibble keys no operation panics, and the only failures are a branch
  value and an unresolved digest; a resolved trie stays resolved and never reports the latter.
\<close>

lemma pt_get_total:
  "canon_top t \<Longrightarrow> nibbles k \<Longrightarrow> (\<exists>r. pt_get t k = Ok r) \<or> (\<exists>d. pt_get t k = Err (NodeNotResolved d))"
proof (induction t arbitrary: k rule: ptree_induct)
  case (Branch cs)
  show ?case
  proof (cases k)
    case (Cons i r)
    with Branch.prems Branch.IH [of "unat i" _ r] canon_child [of cs "unat i"] show ?thesis
      by (cases "cs ! unat i") (auto simp: canon_top_def)
  qed simp
next
  case (Ext p c)
  then show ?case by (auto simp: canon_top_def)
qed auto

lemma pt_insert_total:
  "canon_top t \<Longrightarrow> nibbles k \<Longrightarrow> (\<exists>r. pt_insert t k v = Ok r) \<or> pt_insert t k v = Err ValueInBranch \<or>
     (\<exists>d. pt_insert t k v = Err (NodeNotResolved d))"
proof (induction t arbitrary: k rule: ptree_induct)
  case (Branch cs)
  show ?case
  proof (cases k)
    case (Cons i r)
    with Branch.prems Branch.IH [of "unat i" _ r] canon_child [of cs "unat i"] show ?thesis
      by (cases "cs ! unat i") (auto simp: canon_top_def split: outcome.splits)
  qed simp
next
  case (Leaf p w)
  then show ?case by (auto simp: pt_insert.simps(3) Let_def)
next
  case (Ext p c)
  show ?case
    using Ext.IH [of "drop (length p) k"] Ext.prems
    by (auto simp: canon_top_def pt_insert.simps(4) Let_def split: outcome.splits)
qed auto

lemma pt_delete_total:
  "canon_top t \<Longrightarrow> nibbles k \<Longrightarrow> (\<exists>r. pt_delete t k = Ok r) \<or> pt_delete t k = Err ValueInBranch \<or>
     (\<exists>d. pt_delete t k = Err (NodeNotResolved d))"
proof (induction t arbitrary: k rule: ptree_induct)
  case (Branch cs)
  show ?case
  proof (cases k)
    case (Cons i r)
    with Branch.prems Branch.IH [of "unat i" _ r] canon_child [of cs "unat i"] show ?thesis
      by (cases "cs ! unat i") (auto simp: canon_top_def split: outcome.splits)
  qed simp
next
  case (Ext p c)
  show ?case
    using Ext.IH [of "drop (length p) k"] Ext.prems
    by (auto simp: canon_top_def split: outcome.splits)
qed auto

lemma pt_get_resolved:
  "canon_top t \<Longrightarrow> resolved t \<Longrightarrow> nibbles k \<Longrightarrow> \<exists>r. pt_get t k = Ok r"
proof (induction t arbitrary: k rule: ptree_induct)
  case (Branch cs)
  show ?case
  proof (cases k)
    case (Cons i r)
    with Branch.prems Branch.IH [of "unat i" _ r] canon_child [of cs "unat i"] show ?thesis
      by (cases "cs ! unat i") (auto simp: canon_top_def split: option.splits)
  qed simp
next
  case (Ext p c)
  then show ?case by (auto simp: canon_top_def)
qed auto

lemma pt_get_keylen:
  "canon_top t \<Longrightarrow> resolved t \<Longrightarrow> keylen n t \<Longrightarrow> nibbles k \<Longrightarrow> length k \<noteq> n \<Longrightarrow> pt_get t k = Ok None"
proof (induction t arbitrary: k n rule: ptree_induct)
  case (Branch cs)
  show ?case
  proof (cases k)
    case (Cons i r)
    have i: "unat i < 16" "length cs = 16" using Branch.prems Cons by (auto simp: canon_top_def)
    show ?thesis
    proof (cases "cs ! unat i")
      case (Some c)
      then have "canon_top c" "resolved c" "keylen (n - 1) c"
        using Branch.prems i by (force simp: canon_top_def split: option.splits)+
      with Branch.IH [of "unat i" c "n - 1" r] Branch.prems i Cons Some show ?thesis by auto
    qed (use Cons i in simp)
  qed simp
next
  case (Ext p c)
  show ?case
  proof (cases "prefix p k")
    case True
    then obtain r where "k = p @ r" by (auto simp: prefix_def)
    with Ext.IH [of "n - length p" r] Ext.prems show ?thesis by (auto simp: canon_top_def)
  qed simp
qed auto

lemma resolved_fork:
  "resolved tx \<Longrightarrow> resolved ty \<Longrightarrow> unat x < 16 \<Longrightarrow> unat y < 16 \<Longrightarrow> resolved (pt_fork s x tx y ty)"
  by (auto simp: pt_fork_def Let_def nth_list_update)

lemma resolved_join: "resolved c \<Longrightarrow> resolved (pt_join p c)"
  by (cases c) auto

lemma resolved_collapse:
  assumes "resolved (PBranch cs)" "1 \<le> length (remaining cs)"
  shows "resolved (pt_collapse cs)"
  using assms(2)
proof (cases rule: collapse_cases)
  case (single j c)
  with assms(1) have "resolved c" by (force split: option.splits)
  with single show ?thesis by (simp add: resolved_join)
qed (use assms in simp)

lemma pt_insert_resolved:
  assumes "canon_top t" "resolved t" "nibbles k"
  shows "pt_insert t k v \<noteq> Err (NodeNotResolved d)" "pt_insert t k v = Ok (b, t') \<Longrightarrow> resolved t'"
proof -
  have "pt_insert t k v \<noteq> Err (NodeNotResolved d) \<and> (pt_insert t k v = Ok (b, t') \<longrightarrow> resolved t')"
    using assms
  proof (induction t arbitrary: k b t' rule: ptree_induct)
    case (Branch cs)
    show ?case
    proof (cases k)
      case (Cons i r)
      have i: "unat i < 16" "length cs = 16" "nibbles r" using Branch.prems Cons by (auto simp: canon_top_def)
      show ?thesis
      proof (cases "cs ! unat i")
        case None
        with Branch.prems Cons i show ?thesis by (auto simp: nth_list_update)
      next
        case (Some c)
        then have c: "canon_top c" "resolved c"
          using Branch.prems i by (force simp: canon_top_def split: option.splits)+
        have "pt_insert c r v \<noteq> Err (NodeNotResolved d)"
          "\<And>b c'. pt_insert c r v = Ok (b, c') \<Longrightarrow> resolved c'"
          using Branch.IH [of "unat i" c r] i Some c by auto
        with Branch.prems Cons i Some show ?thesis
          by (auto simp: nth_list_update split: outcome.splits)
      qed
    qed simp
  next
    case (Leaf p w)
    then show ?case
      by (cases rule: lcp_cases [of k p])
         (auto simp: pt_simps canon_top_def intro!: resolved_fork split: if_splits)
  next
    case (Ext p c)
    show ?case
    proof (cases rule: prefix_or_fork [of k p])
      case (below r)
      with Ext.IH [of r] Ext.prems
      have "pt_insert c r v \<noteq> Err (NodeNotResolved d)"
        "\<And>b c'. pt_insert c r v = Ok (b, c') \<Longrightarrow> resolved c'" by (auto simp: canon_top_def)
      with below show ?thesis by (auto simp: pt_simps split: outcome.splits)
    next
      case (above n r)
      then show ?thesis by (simp add: pt_simps)
    next
      case (fork s x xs y ys)
      have "resolved (pt_tail xs c)" using Ext.prems by (simp add: pt_tail_def)
      with fork Ext.prems show ?thesis by (auto simp: pt_simps canon_top_def intro!: resolved_fork)
    qed
  qed auto
  then show "pt_insert t k v \<noteq> Err (NodeNotResolved d)" "pt_insert t k v = Ok (b, t') \<Longrightarrow> resolved t'"
    by blast+
qed

lemma pt_delete_resolved:
  assumes "canon_top t" "resolved t" "nibbles k"
  shows "pt_delete t k \<noteq> Err (NodeNotResolved d)" "pt_delete t k = Ok (b, t') \<Longrightarrow> resolved t'"
proof -
  have "pt_delete t k \<noteq> Err (NodeNotResolved d) \<and> (pt_delete t k = Ok (b, t') \<longrightarrow> resolved t')"
    using assms
  proof (induction t arbitrary: k b t' rule: ptree_induct)
    case (Branch cs)
    show ?case
    proof (cases k)
      case (Cons i r)
      have i: "unat i < 16" "length cs = 16" "nibbles r" "2 \<le> length (remaining cs)"
        using Branch.prems Cons by (auto simp: canon_top_def)
      show ?thesis
      proof (cases "cs ! unat i")
        case None
        with Branch.prems Cons i show ?thesis by auto
      next
        case (Some c)
        then have c: "canon_top c" "resolved c"
          using Branch.prems i by (force simp: canon_top_def split: option.splits)+
        have ih: "pt_delete c r \<noteq> Err (NodeNotResolved d)"
          "\<And>b c'. pt_delete c r = Ok (b, c') \<Longrightarrow> resolved c'"
          using Branch.IH [of "unat i" c r] i Some c by auto
        have col: "resolved (pt_collapse (cs[unat i := (if c' = PNull then None else Some c')]))"
          if "resolved c'" for c'
        proof (rule resolved_collapse)
          show "resolved (PBranch (cs[unat i := (if c' = PNull then None else Some c')]))"
            using Branch.prems that i by (auto simp: nth_list_update)
        qed (use i Some remaining_update_ge [of "unat i" cs c'] in simp)
        show ?thesis
        proof (cases "pt_delete c r")
          case (Ok q)
          obtain b0 c' where q: "q = (b0, c')" by (cases q)
          from col [of c'] ih(2) [of b0 c'] Ok q have "resolved (pt_collapse
            (cs[unat i := (if c' = PNull then None else Some c')]))" by simp
          with Ok q Branch.prems Cons i Some show ?thesis by (auto simp only: pt_delete.simps list.case option.case
              outcome.case prod.case if_True outcome.inject prod.inject simp_thms split: if_splits)
        qed (use ih(1) Cons i Some in auto)
      qed
    qed simp
  next
    case (Ext p c)
    show ?case
    proof (cases "prefix p k")
      case True
      then obtain r where "k = p @ r" by (auto simp: prefix_def)
      with Ext.IH [of r] Ext.prems
      have "pt_delete c r \<noteq> Err (NodeNotResolved d)"
        "\<And>b c'. pt_delete c r = Ok (b, c') \<Longrightarrow> resolved c'" by (auto simp: canon_top_def)
      with \<open>k = p @ r\<close> Ext.prems show ?thesis by (auto intro!: resolved_join split: outcome.splits)
    qed (use Ext.prems in auto)
  qed auto
  then show "pt_delete t k \<noteq> Err (NodeNotResolved d)" "pt_delete t k = Ok (b, t') \<Longrightarrow> resolved t'"
    by blast+
qed

end
