(* ===== verification/Merkle_Spec.thy ===== *)
theory Merkle_Spec
  imports Patricia_Spec Rlp_Interface
begin

text \<open>
  What the root hash of a trie is, on the abstract trees of \<open>Patricia_Spec\<close>: the Merkle
  construction of the Ethereum yellow paper without caches, buffers or borrow flags. A node whose
  encoding is shorter than 32 bytes is referenced by that encoding, any other node by the digest
  of its encoding, and an unresolved digest stands for itself.
\<close>

definition list_rlp :: "ext \<Rightarrow> bytes \<Rightarrow> bytes" where
  "list_rlp E payload = header_encode E True (length payload) @ payload"

definition ref_of_rlp :: "ext \<Rightarrow> bytes \<Rightarrow> node_ref" where
  "ref_of_rlp E rlp = (if length rlp < 32 then RefBytes rlp else RefDigest (keccak256 E rlp))"

fun ref_code :: "ext \<Rightarrow> node_ref \<Rightarrow> bytes" where
  "ref_code E (RefBytes bs) = bs"
| "ref_code E (RefDigest d) = (EMPTY_STRING_CODE E + 32) # d"

function tree_ref :: "ext \<Rightarrow> ptree \<Rightarrow> node_ref" where
  "tree_ref E PNull = RefBytes [EMPTY_STRING_CODE E]"
| "tree_ref E (PBranch cs) =
     ref_of_rlp E (list_rlp E (concat (map (\<lambda>c. case c of
        None \<Rightarrow> [EMPTY_STRING_CODE E] | Some t \<Rightarrow> ref_code E (tree_ref E t)) cs)
        @ [EMPTY_STRING_CODE E]))"
| "tree_ref E (PLeaf p v) =
     ref_of_rlp E (list_rlp E (bytes_encode E (to_encoded_path p True) @ bytes_encode E v))"
| "tree_ref E (PExt p c) =
     ref_of_rlp E (list_rlp E
       (bytes_encode E (to_encoded_path p False) @ ref_code E (tree_ref E c)))"
| "tree_ref E (PDigest d) = RefDigest d"
  by pat_completeness auto
termination
  by (relation "measure (\<lambda>(_, t). size t)")
     (auto simp: termination_simp in_set_conv_nth dest!: size_child)

declare tree_ref.simps(2-4) [simp del]

definition child_code :: "ext \<Rightarrow> ptree option \<Rightarrow> bytes" where
  "child_code E c =
     (case c of None \<Rightarrow> [EMPTY_STRING_CODE E] | Some t \<Rightarrow> ref_code E (tree_ref E t))"

fun tree_payload :: "ext \<Rightarrow> ptree \<Rightarrow> bytes" where
  "tree_payload E PNull = []"
| "tree_payload E (PBranch cs) = concat (map (child_code E) cs) @ [EMPTY_STRING_CODE E]"
| "tree_payload E (PLeaf p v) = bytes_encode E (to_encoded_path p True) @ bytes_encode E v"
| "tree_payload E (PExt p c) =
     bytes_encode E (to_encoded_path p False) @ ref_code E (tree_ref E c)"
| "tree_payload E (PDigest d) = d"

fun tree_rlp :: "ext \<Rightarrow> ptree \<Rightarrow> bytes" where
  "tree_rlp E PNull = [EMPTY_STRING_CODE E]"
| "tree_rlp E (PDigest d) = bytes_encode E d"
| "tree_rlp E t = list_rlp E (tree_payload E t)"

fun is_list_node :: "ptree \<Rightarrow> bool" where
  "is_list_node PNull = False"
| "is_list_node (PDigest d) = False"
| "is_list_node _ = True"

lemma tree_rlp_list: "is_list_node t \<Longrightarrow> tree_rlp E t = list_rlp E (tree_payload E t)"
  by (cases t) auto

lemma tree_ref_list: "is_list_node t \<Longrightarrow> tree_ref E t = ref_of_rlp E (tree_rlp E t)"
  by (cases t) (auto simp: tree_ref.simps child_code_def [abs_def])

definition root_hash :: "ext \<Rightarrow> ptree \<Rightarrow> bytes" where
  "root_hash E t =
     (if t = PNull then EMPTY_ROOT_HASH E
      else (case tree_ref E t of RefDigest d \<Rightarrow> d | RefBytes bs \<Rightarrow> keccak256 E bs))"

text \<open>Every unresolved digest of the tree is 32 bytes long.\<close>

function digests_ok :: "ptree \<Rightarrow> bool" where
  "digests_ok PNull = True"
| "digests_ok (PBranch cs) \<longleftrightarrow>
     (\<forall>i < length cs. case cs ! i of None \<Rightarrow> True | Some c \<Rightarrow> digests_ok c)"
| "digests_ok (PLeaf p v) = True"
| "digests_ok (PExt p c) = digests_ok c"
| "digests_ok (PDigest d) \<longleftrightarrow> length d = 32"
  by pat_completeness auto
termination
  by (relation "measure size") (auto simp: termination_simp)

lemma canon_digests_ok: "canon t \<Longrightarrow> digests_ok t"
  by (induction t rule: ptree_induct) (auto split: option.splits)

lemma canon_top_digests_ok: "canon_top t \<Longrightarrow> digests_ok t"
  by (auto simp: canon_top_def canon_digests_ok)

context rlp_laws
begin

lemma length_list_rlp: "length (list_rlp E p) = length p + length_of_length E (length p)"
  by (simp add: list_rlp_def header_length)

lemma tree_ref_digest_length: "digests_ok t \<Longrightarrow> tree_ref E t = RefDigest d \<Longrightarrow> length d = 32"
  by (cases t) (auto simp: tree_ref_list ref_of_rlp_def keccak_length split: if_splits)

lemma tree_ref_bytes_length: "tree_ref E t = RefBytes bs \<Longrightarrow> length bs < 32"
  by (cases t) (auto simp: tree_ref_list ref_of_rlp_def split: if_splits)

lemma length_ref_code:
  "digests_ok t \<Longrightarrow> length (ref_code E (tree_ref E t)) =
     (case tree_ref E t of RefBytes bs \<Rightarrow> length bs | RefDigest _ \<Rightarrow> 33)"
  using tree_ref_digest_length by (auto split: node_ref.split)

text \<open>The root hash of a trie is the digest of the encoding of its root node.\<close>

lemma root_hash_keccak:
  assumes "\<nexists>d. t = PDigest d"
  shows "root_hash E t = keccak256 E (tree_rlp E t)"
proof (cases "is_list_node t")
  case True
  then show ?thesis by (auto simp: root_hash_def tree_ref_list ref_of_rlp_def)
next
  case False
  with assms show ?thesis by (cases t) (simp_all add: root_hash_def empty_root)
qed

lemma root_hash_length: "digests_ok t \<Longrightarrow> length (root_hash E t) = 32"
  by (auto simp: root_hash_def keccak_length empty_root_length dest: tree_ref_digest_length
      split: node_ref.split)

end

end
