(* ===== verification/Arena_Rep.thy ===== *)
theory Arena_Rep
  imports Mpt_Hash Merkle_Spec
begin

text \<open>
  The relation between an arena and the abstract tree it stores. \<open>atree\<close> is a tree that carries
  the arena index of every node; \<open>erase\<close> forgets the indices. \<open>holds E m t\<close> says that the arena
  has, at every index of \<open>t\<close>, the node data of that place (with its path in compact form) and a
  free cache cell that is empty or holds the right reference. Distinct indices make the arena a
  tree: an update below one child leaves the others alone.
\<close>

datatype atree =
    ANull (aid: node_id)
  | ABranch (aid: node_id) "atree option list"
  | ALeaf (aid: node_id) nibs bytes
  | AExt (aid: node_id) nibs atree
  | ADigest (aid: node_id) bytes

definition somes :: "'a option list \<Rightarrow> 'a list" where
  "somes cs = concat (map (\<lambda>c. case c of None \<Rightarrow> [] | Some t \<Rightarrow> [t]) cs)"

lemma somes_simps [simp]:
  "somes [] = []" "somes (None # cs) = somes cs" "somes (Some t # cs) = t # somes cs"
  "somes (as @ bs) = somes as @ somes bs"
  by (simp_all add: somes_def)

lemma set_somes [simp]: "set (somes cs) = {t. Some t \<in> set cs}"
  by (auto simp: somes_def split: option.splits)

lemma somes_map [simp]: "somes (map (map_option f) cs) = map f (somes cs)"
  by (induction cs) (auto simp: somes_def split: option.splits)

lemma somes_no_children [simp]: "somes no_children = []"
  by (simp add: no_children_def somes_def)

fun akids :: "atree \<Rightarrow> atree list" where
  "akids (ABranch i cs) = somes cs"
| "akids (AExt i p c) = [c]"
| "akids _ = []"

lemma size_akids [termination_simp]: "c \<in> set (akids t) \<Longrightarrow> size c < size t"
proof (cases t)
  case (ABranch i cs)
  assume "c \<in> set (akids t)"
  with ABranch have "size_option size (Some c) \<le> size_list (size_option size) cs"
    by (intro size_list_estimation' [of "Some c"]) auto
  with ABranch show ?thesis by simp
qed auto

lemma atree_induct [case_names node]:
  assumes "\<And>t. (\<And>c. c \<in> set (akids t) \<Longrightarrow> P c) \<Longrightarrow> P t"
  shows "P t"
  by (induction t rule: measure_induct_rule [where f = size]) (auto intro: assms size_akids)

function asubs :: "atree \<Rightarrow> atree list" where
  "asubs t = t # concat (map asubs (akids t))"
  by pat_completeness auto
termination
  by (relation "measure size") (auto simp: size_akids)

declare asubs.simps [simp del]

definition aids :: "atree \<Rightarrow> node_id list" where
  "aids t = map aid (asubs t)"

lemma aids_rec: "aids t = aid t # concat (map aids (akids t))"
proof -
  have "map aid (concat (map asubs cs)) = concat (map aids cs)" for cs
    by (induction cs) (auto simp: aids_def)
  then show ?thesis by (simp add: aids_def [of t] asubs.simps [of t])
qed

lemma aid_in_aids [simp]: "aid t \<in> set (aids t)"
  by (subst aids_rec) simp

lemma aids_nonempty [simp]: "aids t \<noteq> []"
  by (subst aids_rec) simp

lemma kid_aids: "c \<in> set (akids t) \<Longrightarrow> set (aids c) \<subseteq> set (aids t)"
  by (subst (2) aids_rec) auto

lemma length_kid_aids: "c \<in> set (akids t) \<Longrightarrow> length (aids c) < length (aids t)"
proof -
  assume "c \<in> set (akids t)"
  then obtain xs ys where "akids t = xs @ c # ys" by (meson split_list)
  then show ?thesis by (subst (2) aids_rec) simp
qed

lemma distinct_kid: "distinct (aids t) \<Longrightarrow> c \<in> set (akids t) \<Longrightarrow> distinct (aids c)"
  by (subst (asm) aids_rec) (auto simp: distinct_concat_iff)

lemma aid_notin_kid: "distinct (aids t) \<Longrightarrow> c \<in> set (akids t) \<Longrightarrow> aid t \<notin> set (aids c)"
  by (subst (asm) aids_rec) auto

fun erase :: "atree \<Rightarrow> ptree" where
  "erase (ANull i) = PNull"
| "erase (ABranch i cs) = PBranch (map (map_option erase) cs)"
| "erase (ALeaf i p v) = PLeaf p v"
| "erase (AExt i p c) = PExt p (erase c)"
| "erase (ADigest i d) = PDigest d"

fun node_of :: "atree \<Rightarrow> node_data" where
  "node_of (ANull i) = Null"
| "node_of (ABranch i cs) = Branch (map (map_option aid) cs)"
| "node_of (ALeaf i p v) = Leaf (to_encoded_path p True) v"
| "node_of (AExt i p c) = Extension (to_encoded_path p False) (aid c)"
| "node_of (ADigest i d) = Digest d"

lemma node_of_Null_iff [simp]: "node_of t = Null \<longleftrightarrow> erase t = PNull"
  by (cases t) auto

fun shape_ok :: "atree \<Rightarrow> bool" where
  "shape_ok (ANull i) = True"
| "shape_ok (ABranch i cs) \<longleftrightarrow> length cs = 16"
| "shape_ok (ALeaf i p v) \<longleftrightarrow> nibbles p"
| "shape_ok (AExt i p c) \<longleftrightarrow> nibbles p"
| "shape_ok (ADigest i d) \<longleftrightarrow> length d = 32"

definition cell_ok :: "ext \<Rightarrow> mpt \<Rightarrow> atree \<Rightarrow> bool" where
  "cell_ok E m t \<longleftrightarrow> (\<exists>c. cell_at m (aid t) = Some c \<and> \<not> cell_borrowed c
     \<and> (cell_content c = None \<or> cell_content c = Some (tree_ref E (erase t))))"

definition holds :: "ext \<Rightarrow> mpt \<Rightarrow> atree \<Rightarrow> bool" where
  "holds E m t \<longleftrightarrow>
     (\<forall>s \<in> set (asubs t). node_at m (aid s) = Some (node_of s) \<and> cell_ok E m s \<and> shape_ok s)"

lemma holds_rec:
  "holds E m t \<longleftrightarrow> node_at m (aid t) = Some (node_of t) \<and> cell_ok E m t \<and> shape_ok t
     \<and> (\<forall>c \<in> set (akids t). holds E m c)"
  unfolding holds_def by (subst asubs.simps) auto

lemma holds_node: "holds E m t \<Longrightarrow> node_at m (aid t) = Some (node_of t)"
  using holds_rec by blast

lemma holds_kid: "holds E m t \<Longrightarrow> c \<in> set (akids t) \<Longrightarrow> holds E m c"
  using holds_rec by blast

text \<open>The frame rule: only the nodes and cells of the tree matter.\<close>

lemma holds_frame:
  assumes "holds E m t"
    and "\<And>i. i \<in> set (aids t) \<Longrightarrow> node_at m' i = node_at m i \<and> cell_at m' i = cell_at m i"
  shows "holds E m' t"
  using assms unfolding holds_def cell_ok_def aids_def by auto

lemma holds_bound: "holds E m t \<Longrightarrow> i \<in> set (aids t) \<Longrightarrow> unat i < length (nodes m)"
  by (auto simp: holds_def aids_def node_at_def)

lemma length_aids_le:
  assumes "holds E m t" "distinct (aids t)"
  shows "length (aids t) \<le> length (nodes m)"
proof -
  have inj: "inj_on unat (set (aids t))" by (auto simp: inj_on_def word_unat_eq_iff)
  have "unat ` set (aids t) \<subseteq> {..<length (nodes m)}" using assms holds_bound by auto
  then have "card (unat ` set (aids t)) \<le> card {..<length (nodes m)}" by (rule card_mono [rotated]) simp
  with assms inj show ?thesis by (simp add: card_image distinct_card)
qed

lemma holds_digests_ok: "holds E m t \<Longrightarrow> digests_ok (erase t)"
proof (induction t rule: atree_induct)
  case (node t)
  then have kids: "digests_ok (erase c)" if "c \<in> set (akids t)" for c
    using that holds_kid by blast
  have "shape_ok t" using node.prems holds_rec by blast
  with kids show ?case by (cases t) (auto split: option.splits, metis nth_mem)
qed

section \<open>Well-formed tries\<close>

definition rep :: "ext \<Rightarrow> mpt \<Rightarrow> atree \<Rightarrow> bool" where
  "rep E m t \<longleftrightarrow> holds E m t \<and> distinct (aids t) \<and> aid t = root_id m \<and> canon_top (erase t)
     \<and> length (cached_references m) = length (nodes m) \<and> \<not> scratch_borrowed m"

definition repr_tree :: "ext \<Rightarrow> mpt \<Rightarrow> ptree \<Rightarrow> bool" where
  "repr_tree E m t \<longleftrightarrow> (\<exists>a. rep E m a \<and> erase a = t)"

end
