(* ===== verification/Arena_Update.thy ===== *)
theory Arena_Update
  imports Arena_Rep
begin

text \<open>
  How one step of an update changes an arena: new nodes are appended, nodes outside the updated
  subtree keep their data and their caches, the root of the subtree gets its new data and an empty
  cache. \<open>post\<close> collects what holds after an update of the subtree \<open>t\<close>, and \<open>commit_post\<close>
  establishes it for every way in which \<open>insert_internal\<close> and \<open>delete_internal\<close> rebuild a node.
\<close>

section \<open>Reading and writing single places\<close>

lemma node_at_set_node:
  "node_at (set_node i nd m) j =
     (if j = i \<and> unat i < length (nodes m) then Some nd else node_at m j)"
  by (simp add: node_at_def set_node_def nth_opt_update word_unat_eq_iff)

lemma cell_at_set_node [simp]: "cell_at (set_node i nd m) j = cell_at m j"
  by (simp add: cell_at_def set_node_def)

lemma set_node_fields [simp]:
  "length (nodes (set_node i nd m)) = length (nodes m)" "root_id (set_node i nd m) = root_id m"
  "cached_references (set_node i nd m) = cached_references m"
  "scratch_borrowed (set_node i nd m) = scratch_borrowed m"
  by (simp_all add: set_node_def)

lemma set_node_same: "node_at m i = Some nd \<Longrightarrow> set_node i nd m = m"
  by (auto simp: node_at_def set_node_def)

lemma finish_update_simps [simp, outcome_simps]:
  "finish_update i (Err e, m) = (Err e, m)"
  "finish_update i (Panic p, m) = (Panic p, m)"
  "finish_update i (Ok False, m) = (Ok False, m)"
  by (simp_all add: finish_update_def)

section \<open>Growth of the arena\<close>

definition grown :: "node_id set \<Rightarrow> mpt \<Rightarrow> mpt \<Rightarrow> bool" where
  "grown S m m' \<longleftrightarrow> root_id m' = root_id m \<and> scratch_borrowed m' = scratch_borrowed m
     \<and> length (nodes m) \<le> length (nodes m')
     \<and> length (cached_references m') = length (nodes m')
     \<and> (\<forall>i. unat i < length (nodes m) \<and> i \<notin> S \<longrightarrow>
          node_at m' i = node_at m i \<and> cell_at m' i = cell_at m i)"

definition fresh :: "mpt \<Rightarrow> mpt \<Rightarrow> node_id set" where
  "fresh m m' = {i. length (nodes m) \<le> unat i \<and> unat i < length (nodes m')}"

lemma grown_refl: "length (cached_references m) = length (nodes m) \<Longrightarrow> grown S m m"
  by (simp add: grown_def)

lemma grown_trans: "grown S m m' \<Longrightarrow> grown S m' m'' \<Longrightarrow> grown S m m''"
  by (auto simp: grown_def)

lemma grown_mono: "grown S m m' \<Longrightarrow> S \<subseteq> T \<Longrightarrow> grown T m m'"
  by (auto simp: grown_def)

lemma grown_node: "grown S m m' \<Longrightarrow> i \<notin> S \<Longrightarrow> node_at m i = Some nd \<Longrightarrow> node_at m' i = Some nd"
  by (auto simp: grown_def node_at_def)

lemma grown_cell: "grown S m m' \<Longrightarrow> i \<notin> S \<Longrightarrow> unat i < length (nodes m) \<Longrightarrow> cell_at m' i = cell_at m i"
  by (simp add: grown_def)

lemma holds_grown:
  assumes "holds E m t" "grown S m m'" "S \<inter> set (aids t) = {}"
  shows "holds E m' t"
  using assms(1)
proof (rule holds_frame)
  fix i assume "i \<in> set (aids t)"
  with assms holds_bound [OF assms(1)] show "node_at m' i = node_at m i \<and> cell_at m' i = cell_at m i"
    unfolding grown_def by blast
qed

lemma fresh_trans:
  "grown S m m' \<Longrightarrow> grown T m' m'' \<Longrightarrow> fresh m m' \<subseteq> fresh m m'' \<and> fresh m' m'' \<subseteq> fresh m m''"
  by (auto simp: fresh_def grown_def)

lemma fresh_old: "holds E m t \<Longrightarrow> set (aids t) \<inter> fresh m m' = {}"
  using holds_bound by (fastforce simp: fresh_def)

lemma add_node_spec:
  assumes "length (cached_references m) = length (nodes m)" "length (nodes m) < 2 ^ 32"
    and "add_node nd r m = (j, m')"
  shows "node_at m' j = Some nd" "cell_at m' j = Some (new_cell r)" "grown {} m m'"
    "fresh m m' = {j}" "length (nodes m') = Suc (length (nodes m))"
    "length (cached_references m') = length (nodes m')" "unat j = length (nodes m)"
proof -
  have j: "j = of_nat (length (nodes m))" and m': "m' = m\<lparr>nodes := nodes m @ [nd],
      cached_references := cached_references m @ [new_cell r]\<rparr>"
    using assms(3) by (auto simp: add_node_def)
  show u: "unat j = length (nodes m)" using assms(2) j by simp
  show "node_at m' j = Some nd" "cell_at m' j = Some (new_cell r)"
    using assms(1) u by (simp_all add: node_at_def cell_at_def m' nth_opt_append_new)
      (metis nth_opt_Some_iff nth_opt_append_new)
  show "length (nodes m') = Suc (length (nodes m))"
    "length (cached_references m') = length (nodes m')" using assms(1) by (simp_all add: m')
  show "grown {} m m'"
    using assms(1) by (auto simp: grown_def m' node_at_def cell_at_def nth_opt_append_old)
  show "fresh m m' = {j}"
    using u by (auto simp: fresh_def m' word_unat_eq_iff)
qed

lemma holds_new:
  assumes "node_at m (aid t) = Some (node_of t)" "cell_at m (aid t) = Some (new_cell r)"
    "r = None \<or> r = Some (tree_ref E (erase t))" "shape_ok t" "\<forall>c \<in> set (akids t). holds E m c"
  shows "holds E m t"
  using assms by (subst holds_rec) (auto simp: cell_ok_def new_cell_def)

section \<open>After an update of a subtree\<close>

definition post :: "ext \<Rightarrow> mpt \<Rightarrow> atree \<Rightarrow> mpt \<Rightarrow> atree \<Rightarrow> bool" where
  "post E m t m' t' \<longleftrightarrow> holds E m' t' \<and> distinct (aids t') \<and> aid t' = aid t
     \<and> set (aids t') \<subseteq> set (aids t) \<union> fresh m m' \<and> grown (set (aids t)) m m'"

lemma post_refl:
  "holds E m t \<Longrightarrow> distinct (aids t) \<Longrightarrow> length (cached_references m) = length (nodes m) \<Longrightarrow>
   post E m t m t"
  by (simp add: post_def grown_refl)

lemma commit_post:
  assumes g: "grown (set (aids t)) m m1" and t: "holds E m t"
    and t2: "aid t2 = aid t" "shape_ok t2" "\<forall>k \<in> set (akids t2). holds E m1 k"
      "distinct (concat (map aids (akids t2)))"
      "\<forall>k \<in> set (akids t2). aid t \<notin> set (aids k) \<and> set (aids k) \<subseteq> set (aids t) \<union> fresh m m1"
    and c: "cell_at m1 (aid t) = cell_at m (aid t)"
  shows "\<exists>m'. finish_update (aid t) (Ok True, set_node (aid t) (node_of t2) m1) = (Ok True, m')
    \<and> post E m t m' t2 \<and> length (nodes m') = length (nodes m1)"
proof -
  let ?i = "aid t"
  obtain cl where cl: "cell_at m ?i = Some cl" "\<not> cell_borrowed cl"
    using t holds_rec [of E m t] by (auto simp: cell_ok_def)
  have b: "unat ?i < length (nodes m)" using holds_bound [OF t] by simp
  then have b1: "unat ?i < length (nodes m1)" "unat ?i < length (cached_references m1)"
    using g by (simp_all add: grown_def)
  define m' where "m' = set_cell ?i (cl\<lparr>cell_content := None\<rparr>) (set_node ?i (node_of t2) m1)"
  have fin: "finish_update ?i (Ok True, set_node ?i (node_of t2) m1) = (Ok True, m')"
    using c cl by (simp add: finish_update_def invalidate_ref_cache_def m'_def)
  have node': "node_at m' j = (if j = ?i then Some (node_of t2) else node_at m1 j)" for j
    using b1 by (auto simp: m'_def node_at_def set_cell_def set_node_def nth_opt_update word_unat_eq_iff)
  have cell': "cell_at m' j = (if j = ?i then Some (cl\<lparr>cell_content := None\<rparr>) else cell_at m1 j)" for j
    using b1 by (auto simp: m'_def cell_at_def set_cell_def set_node_def nth_opt_update word_unat_eq_iff)
  have len: "length (nodes m') = length (nodes m1)" "length (cached_references m') = length (cached_references m1)"
    by (simp_all add: m'_def set_cell_def set_node_def)
  have kids: "holds E m' k" if "k \<in> set (akids t2)" for k
  proof (rule holds_frame)
    show "holds E m1 k" using t2(3) that by blast
  qed (use t2(5) that node' cell' in auto)
  have "holds E m' t2"
    using kids t2(1,2) node' cell' cl(2) by (subst holds_rec) (simp add: cell_ok_def)
  moreover have "distinct (aids t2)" using t2 by (subst aids_rec) auto
  moreover have "set (aids t2) \<subseteq> set (aids t) \<union> fresh m m'"
    using t2(1,5) len by (subst aids_rec) (auto simp: fresh_def)
  moreover have "grown (set (aids t)) m m'"
    using g len node' cell' by (auto simp: grown_def m'_def set_cell_def)
  ultimately show ?thesis using fin len t2(1) unfolding post_def by blast
qed

section \<open>Independent children\<close>

text \<open>The children of a branch have distinct indices, slot by slot.\<close>

definition indep :: "atree option list \<Rightarrow> bool" where
  "indep cs \<longleftrightarrow> (\<forall>j < length cs. \<forall>c. cs ! j = Some c \<longrightarrow> distinct (aids c))
     \<and> (\<forall>j < length cs. \<forall>k < length cs. \<forall>c d. j \<noteq> k \<and> cs ! j = Some c \<and> cs ! k = Some d \<longrightarrow>
          set (aids c) \<inter> set (aids d) = {})"

lemma indepI [case_names distinct disjoint]:
  assumes "\<And>j c. j < length cs \<Longrightarrow> cs ! j = Some c \<Longrightarrow> distinct (aids c)"
    and "\<And>j k c d. j < length cs \<Longrightarrow> k < length cs \<Longrightarrow> j \<noteq> k \<Longrightarrow> cs ! j = Some c \<Longrightarrow>
      cs ! k = Some d \<Longrightarrow> set (aids c) \<inter> set (aids d) = {}"
  shows "indep cs"
  using assms unfolding indep_def by blast

lemma indepD:
  assumes "indep cs"
  shows "j < length cs \<Longrightarrow> cs ! j = Some c \<Longrightarrow> distinct (aids c)"
    "j < length cs \<Longrightarrow> k < length cs \<Longrightarrow> j \<noteq> k \<Longrightarrow> cs ! j = Some c \<Longrightarrow> cs ! k = Some d \<Longrightarrow>
      set (aids c) \<inter> set (aids d) = {}"
  using assms unfolding indep_def by blast+

lemma indep_Cons_iff:
  "indep (x # cs) \<longleftrightarrow> indep cs \<and> (\<forall>c. x = Some c \<longrightarrow> distinct (aids c))
     \<and> (\<forall>c. x = Some c \<longrightarrow> (\<forall>k < length cs. \<forall>d. cs ! k = Some d \<longrightarrow> set (aids c) \<inter> set (aids d) = {}))"
  (is "?l \<longleftrightarrow> ?r")
proof
  assume l: ?l
  then have d: "\<And>j c. j < Suc (length cs) \<Longrightarrow> (x # cs) ! j = Some c \<Longrightarrow> distinct (aids c)"
    and i: "\<And>j k c d. j < Suc (length cs) \<Longrightarrow> k < Suc (length cs) \<Longrightarrow> j \<noteq> k \<Longrightarrow>
      (x # cs) ! j = Some c \<Longrightarrow> (x # cs) ! k = Some d \<Longrightarrow> set (aids c) \<inter> set (aids d) = {}"
    unfolding indep_def length_Cons by blast+
  show ?r
    unfolding indep_def using d [of 0] d [of "Suc _"] i [of "Suc _" "Suc _"] i [of 0 "Suc _"] by simp
next
  assume r: ?r
  show ?l
    unfolding indep_def
  proof (intro conjI allI impI; (elim conjE)?)
    fix j c assume "j < length (x # cs)" "(x # cs) ! j = Some c"
    with r show "distinct (aids c)" by (cases j) (auto simp: indep_def)
  next
    fix j k c d assume "j < length (x # cs)" "k < length (x # cs)" "j \<noteq> k"
      "(x # cs) ! j = Some c" "(x # cs) ! k = Some d"
    with r show "set (aids c) \<inter> set (aids d) = {}"
      by (cases j; cases k) (auto simp: indep_def, blast+)
  qed
qed

lemma indep_Cons:
  "indep (x # cs) \<longleftrightarrow> indep cs \<and> (\<forall>c. x = Some c \<longrightarrow> distinct (aids c))
     \<and> (\<forall>c. x = Some c \<longrightarrow> (\<forall>d. Some d \<in> set cs \<longrightarrow> set (aids c) \<inter> set (aids d) = {}))"
  unfolding indep_Cons_iff in_set_conv_nth [of "Some _"] by blast

lemma distinct_somes: "distinct (concat (map aids (somes cs))) \<longleftrightarrow> indep cs"
proof (induction cs)
  case Nil
  show ?case by (simp add: indep_def)
next
  case (Cons x cs)
  then show ?case by (cases x) (auto simp: indep_Cons)
qed

end
