(* ===== verification/Hash_Refine.thy ===== *)
theory Hash_Refine
  imports Arena_Rep
begin

text \<open>
  The cached, buffer-sharing hash computation of \<open>Mpt_Hash\<close> computes the root hash of
  \<open>Merkle_Spec\<close>. The proof shows what the borrow flags need: \<open>payload_length\<close> fills the caches of
  all children while the scratch buffer is free, so the encoding that runs with the buffer
  borrowed finds every reference cached and borrows nothing twice.
\<close>

definition cells_changed :: "node_id set \<Rightarrow> mpt \<Rightarrow> mpt \<Rightarrow> bool" where
  "cells_changed S m m' \<longleftrightarrow> nodes m' = nodes m \<and> root_id m' = root_id m
     \<and> length (cached_references m') = length (cached_references m)
     \<and> scratch_borrowed m' = scratch_borrowed m
     \<and> (\<forall>i. i \<notin> S \<longrightarrow> cell_at m' i = cell_at m i)"

definition cached :: "ext \<Rightarrow> mpt \<Rightarrow> atree \<Rightarrow> bool" where
  "cached E m t \<longleftrightarrow> (\<exists>c. cell_at m (aid t) = Some c \<and> \<not> cell_borrowed c
     \<and> cell_content c = Some (tree_ref E (erase t)))"

lemma cells_changed_refl [simp]: "cells_changed S m m"
  by (simp add: cells_changed_def)

lemma cells_changed_trans:
  "cells_changed S m m' \<Longrightarrow> cells_changed T m' m'' \<Longrightarrow> S \<union> T \<subseteq> U \<Longrightarrow> cells_changed U m m''"
  unfolding cells_changed_def by (metis Un_iff subset_iff)

lemma cells_changed_mono: "cells_changed S m m' \<Longrightarrow> S \<subseteq> T \<Longrightarrow> cells_changed T m m'"
  by (auto simp: cells_changed_def)

lemma cells_changed_node: "cells_changed S m m' \<Longrightarrow> node_at m' i = node_at m i"
  by (simp add: cells_changed_def node_at_def)

lemma cells_changed_cell: "cells_changed S m m' \<Longrightarrow> i \<notin> S \<Longrightarrow> cell_at m' i = cell_at m i"
  by (simp add: cells_changed_def)

lemma cells_changed_scratch: "cells_changed S m m' \<Longrightarrow> scratch_borrowed m' = scratch_borrowed m"
  by (simp add: cells_changed_def)

lemma holds_cells_changed:
  "holds E m t \<Longrightarrow> cells_changed S m m' \<Longrightarrow> S \<inter> set (aids t) = {} \<Longrightarrow> holds E m' t"
  by (rule holds_frame) (auto simp: cells_changed_node intro!: cells_changed_cell)

lemma cached_cells_changed:
  "cached E m t \<Longrightarrow> cells_changed S m m' \<Longrightarrow> aid t \<notin> S \<Longrightarrow> cached E m' t"
  by (simp add: cached_def cells_changed_cell)

lemma cell_at_set_cell:
  "cell_at (set_cell i c m) j =
     (if j = i \<and> unat i < length (cached_references m) then Some c else cell_at m j)"
  by (simp add: cell_at_def set_cell_def nth_opt_update word_unat_eq_iff)

lemma node_at_set_cell [simp]: "node_at (set_cell i c m) j = node_at m j"
  by (simp add: node_at_def set_cell_def)

lemma set_cell_fields [simp]:
  "nodes (set_cell i c m) = nodes m" "root_id (set_cell i c m) = root_id m"
  "scratch_borrowed (set_cell i c m) = scratch_borrowed m"
  "length (cached_references (set_cell i c m)) = length (cached_references m)"
  by (simp_all add: set_cell_def)

lemma cells_changed_set_cell: "i \<in> S \<Longrightarrow> cells_changed S m (set_cell i c m)"
  by (auto simp: cells_changed_def cell_at_set_cell)

lemma cell_at_bound: "cell_at m i = Some c \<Longrightarrow> unat i < length (cached_references m)"
  by (simp add: cell_at_def)

section \<open>One reference\<close>

text \<open>
  What a function computing missing references has to do for a tree: return the reference of the
  tree, filling caches strictly below its root, when the scratch buffer is free.
\<close>

definition calc_spec :: "ext \<Rightarrow> ref_calc \<Rightarrow> atree \<Rightarrow> bool" where
  "calc_spec E calc t \<longleftrightarrow> (\<forall>m.
     node_at m (aid t) = Some (node_of t) \<and> shape_ok t \<and> (\<forall>c \<in> set (akids t). holds E m c)
       \<and> \<not> scratch_borrowed m \<longrightarrow>
     (\<exists>m'. calc (aid t) m = (Ok (tree_ref E (erase t)), m')
        \<and> (\<forall>c \<in> set (akids t). holds E m' c)
        \<and> cells_changed (set (aids t) - {aid t}) m m'))"

lemma get_or_insert_cached:
  "cached E m t \<Longrightarrow> get_or_insert_ref calc (aid t) m = (Ok (tree_ref E (erase t)), m)"
  by (auto simp: cached_def get_or_insert_ref_def)

lemma get_or_insert_spec:
  assumes calc: "calc_spec E calc t" and h: "holds E m t" and d: "distinct (aids t)"
    and s: "\<not> scratch_borrowed m"
  shows "\<exists>m'. get_or_insert_ref calc (aid t) m = (Ok (tree_ref E (erase t)), m')
    \<and> holds E m' t \<and> cached E m' t \<and> cells_changed (set (aids t)) m m'"
proof (cases "cached E m t")
  case True
  with h show ?thesis by (auto simp: get_or_insert_cached)
next
  case False
  have parts: "node_at m (aid t) = Some (node_of t)" "cell_ok E m t" "shape_ok t"
    "\<And>c. c \<in> set (akids t) \<Longrightarrow> holds E m c" using h holds_rec by blast+
  from parts(2) False obtain c where c: "cell_at m (aid t) = Some c" "\<not> cell_borrowed c"
    "cell_content c = None" by (auto simp: cell_ok_def cached_def)
  define m1 where "m1 = set_cell (aid t) (c\<lparr>cell_borrowed := True\<rparr>) m"
  have ch1: "cells_changed {aid t} m m1" by (simp add: m1_def cells_changed_set_cell)
  have "holds E m1 k" if "k \<in> set (akids t)" for k
    using holds_cells_changed [OF parts(4) [OF that] ch1] aid_notin_kid [OF d that] by simp
  moreover have "\<not> scratch_borrowed m1" "node_at m1 (aid t) = Some (node_of t)"
    using s parts by (simp_all add: m1_def)
  ultimately obtain m2 where m2: "calc (aid t) m1 = (Ok (tree_ref E (erase t)), m2)"
    "\<forall>k \<in> set (akids t). holds E m2 k" "cells_changed (set (aids t) - {aid t}) m1 m2"
    using calc parts(3) unfolding calc_spec_def by blast
  define m3 where "m3 = set_cell (aid t) (new_cell (Some (tree_ref E (erase t)))) m2"
  have ch3: "cells_changed {aid t} m2 m3" by (simp add: m3_def cells_changed_set_cell)
  have ch2: "cells_changed (set (aids t)) m m2"
    by (rule cells_changed_trans [OF ch1 m2(3)]) simp
  have ch: "cells_changed (set (aids t)) m m3"
    by (rule cells_changed_trans [OF ch2 ch3]) simp
  have b: "unat (aid t) < length (cached_references m2)"
    using cell_at_bound [OF c(1)] ch2 by (simp add: cells_changed_def)
  have cell: "cell_at m3 (aid t) = Some (new_cell (Some (tree_ref E (erase t))))"
    using b by (simp add: m3_def cell_at_set_cell)
  have kids: "holds E m3 k" if "k \<in> set (akids t)" for k
    using holds_cells_changed [OF m2(2) [rule_format, OF that] ch3] aid_notin_kid [OF d that] by simp
  have "cached E m3 t" using cell by (simp add: cached_def new_cell_def)
  moreover have "holds E m3 t"
    using holds_rec [of E m3 t] kids parts cells_changed_node [OF ch] cell
    by (auto simp: cell_ok_def new_cell_def)
  moreover have "get_or_insert_ref calc (aid t) m = (Ok (tree_ref E (erase t)), m3)"
    using c m2(1) by (simp add: get_or_insert_ref_def m1_def m3_def)
  ultimately show ?thesis using ch by blast
qed

section \<open>Lengths\<close>

context rlp_laws
begin

lemma child_code_simps [simp]:
  "child_code E None = [EMPTY_STRING_CODE E]"
  "child_code E (Some t) = ref_code E (tree_ref E t)"
  by (simp_all add: child_code_def)

lemma reference_length_spec:
  assumes "calc_spec E calc t" "holds E m t" "distinct (aids t)" "\<not> scratch_borrowed m"
  shows "\<exists>m'. reference_length calc (aid t) m = (Ok (length (ref_code E (tree_ref E (erase t)))), m')
    \<and> holds E m' t \<and> cached E m' t \<and> cells_changed (set (aids t)) m m'"
  using get_or_insert_spec [OF assms] length_ref_code [OF holds_digests_ok [OF assms(2)]]
  by (auto simp: reference_length_def split: node_ref.split)

lemma children_length_spec:
  assumes "\<forall>c \<in> set (somes cs). calc_spec E calc c \<and> holds E m c"
    and "distinct (concat (map aids (somes cs)))" and "\<not> scratch_borrowed m"
  shows "\<exists>m'. children_length calc (map (map_option aid) cs) m =
      (Ok (length (concat (map (child_code E) (map (map_option erase) cs)))), m')
    \<and> (\<forall>c \<in> set (somes cs). holds E m' c \<and> cached E m' c)
    \<and> cells_changed (\<Union>c \<in> set (somes cs). set (aids c)) m m'"
  using assms
proof (induction cs arbitrary: m)
  case (Cons c cs)
  show ?case
  proof (cases c)
    case None
    with Cons.prems have "\<forall>c \<in> set (somes cs). calc_spec E calc c \<and> holds E m c"
      "distinct (concat (map aids (somes cs)))" by simp_all
    from Cons.IH [OF this Cons.prems(3)] None show ?thesis by auto
  next
    case (Some t)
    have t: "calc_spec E calc t" "holds E m t" "distinct (aids t)"
      using Cons.prems Some by simp_all
    obtain m1 where m1: "reference_length calc (aid t) m =
        (Ok (length (ref_code E (tree_ref E (erase t)))), m1)"
      "holds E m1 t" "cached E m1 t" "cells_changed (set (aids t)) m m1"
      using reference_length_spec [OF t Cons.prems(3)] by blast
    have disj: "set (aids t) \<inter> (\<Union>c \<in> set (somes cs). set (aids c)) = {}"
      using Cons.prems(2) Some by auto
    have rest: "\<forall>c \<in> set (somes cs). calc_spec E calc c \<and> holds E m1 c"
    proof
      fix k assume k: "k \<in> set (somes cs)"
      then have "set (aids t) \<inter> set (aids k) = {}" using disj by blast
      then show "calc_spec E calc k \<and> holds E m1 k"
        using holds_cells_changed [OF _ m1(4)] Cons.prems(1) Some k by simp
    qed
    have "distinct (concat (map aids (somes cs)))" "\<not> scratch_borrowed m1"
      using Cons.prems(2,3) Some cells_changed_scratch [OF m1(4)] by simp_all
    from Cons.IH [OF rest this] obtain m2 where m2:
      "children_length calc (map (map_option aid) cs) m1 =
        (Ok (length (concat (map (child_code E) (map (map_option erase) cs)))), m2)"
      "\<forall>c \<in> set (somes cs). holds E m2 c \<and> cached E m2 c"
      "cells_changed (\<Union>c \<in> set (somes cs). set (aids c)) m1 m2" by blast
    have "holds E m2 t" "cached E m2 t"
      using holds_cells_changed [OF m1(2) m2(3)] cached_cells_changed [OF m1(3) m2(3)] disj
        aid_in_aids [of t] by blast+
    with m1 m2 Some cells_changed_trans [OF m1(4) m2(3)] show ?thesis
      by auto
  qed
qed simp

lemma distinct_kids: "distinct (aids t) \<Longrightarrow> distinct (concat (map aids (akids t)))"
  by (subst (asm) aids_rec) simp

lemma aids_kids: "distinct (aids t) \<Longrightarrow>
  set (aids t) - {aid t} = (\<Union>c \<in> set (akids t). set (aids c))"
  by (subst (asm) aids_rec, subst aids_rec) auto

lemma payload_length_spec:
  assumes n: "node_at m (aid t) = Some (node_of t)" and kids: "\<forall>c \<in> set (akids t). calc_spec E calc c \<and> holds E m c"
    and d: "distinct (aids t)" and s: "\<not> scratch_borrowed m" and sh: "shape_ok t"
  shows "\<exists>m'. payload_length E calc (aid t) m = (Ok (length (tree_payload E (erase t))), m')
    \<and> (\<forall>c \<in> set (akids t). holds E m' c \<and> cached E m' c)
    \<and> cells_changed (set (aids t) - {aid t}) m m'"
proof (cases t)
  case (ABranch i cs)
  have "\<forall>c \<in> set (somes cs). calc_spec E calc c \<and> holds E m c"
    "distinct (concat (map aids (somes cs)))"
    using kids distinct_kids [OF d] ABranch by auto
  from children_length_spec [OF this s] n ABranch show ?thesis
    unfolding aids_kids [OF d] by (auto simp: payload_length_def)
next
  case (AExt i p c)
  have "calc_spec E calc c" "holds E m c" "distinct (aids c)"
    using kids distinct_kids [OF d] AExt by auto
  from reference_length_spec [OF this s] n AExt show ?thesis
    unfolding aids_kids [OF d] by (auto simp: payload_length_def bytes_length_eq)
qed (use n sh in \<open>simp_all add: payload_length_def bytes_length_eq\<close>)

section \<open>Encoding\<close>

lemma reference_encode_cached:
  "cached E m t \<Longrightarrow> reference_encode E calc (aid t) out m =
     (Ok (out @ ref_code E (tree_ref E (erase t))), m)"
  by (simp add: reference_encode_def get_or_insert_cached split: node_ref.split)

lemma children_encode_cached:
  "\<forall>c \<in> set (somes cs). cached E m c \<Longrightarrow>
   children_encode E calc (map (map_option aid) cs) out m =
     (Ok (out @ concat (map (child_code E) (map (map_option erase) cs))), m)"
proof (induction cs arbitrary: out)
  case (Cons c cs)
  then show ?case by (cases c) (auto simp: reference_encode_cached)
qed simp

lemma encode_with_payload_len_spec:
  assumes "node_at m (aid t) = Some (node_of t)" "\<forall>c \<in> set (akids t). cached E m c"
  shows "encode_with_payload_len E calc (aid t) (length (tree_payload E (erase t))) out m =
    (Ok (out @ tree_rlp E (erase t)), m)"
  using assms
  by (cases t) (auto simp: encode_with_payload_len_def children_encode_cached reference_encode_cached
      list_rlp_def)

lemma calc_reference_spec:
  "distinct (aids t) \<Longrightarrow> length (aids t) \<le> fuel \<Longrightarrow> calc_spec E (calc_reference fuel E) t"
proof (induction t arbitrary: fuel rule: atree_induct)
  case (node t)
  obtain f where f: "fuel = Suc f" using node.prems by (cases fuel) auto
  have calc: "\<forall>c \<in> set (akids t). calc_spec E (calc_reference f E) c"
  proof
    fix c assume c: "c \<in> set (akids t)"
    then have "distinct (aids c)" "length (aids c) \<le> f"
      using distinct_kid [OF node.prems(1)] length_kid_aids [of c t] node.prems(2) f by auto
    with node.IH c show "calc_spec E (calc_reference f E) c" by blast
  qed
  show ?case
    unfolding calc_spec_def
  proof (intro allI impI; elim conjE)
    fix m assume n: "node_at m (aid t) = Some (node_of t)" and sh: "shape_ok t"
      and h: "\<forall>c \<in> set (akids t). holds E m c" and s: "\<not> scratch_borrowed m"
    show "\<exists>m'. calc_reference fuel E (aid t) m = (Ok (tree_ref E (erase t)), m')
        \<and> (\<forall>c \<in> set (akids t). holds E m' c) \<and> cells_changed (set (aids t) - {aid t}) m m'"
    proof (cases "is_list_node (erase t)")
      case False
      with n h f show ?thesis
        by (cases t) (auto simp: NULL_NODE_REF_SLICE_def)
    next
      case True
      let ?pl = "length (tree_payload E (erase t))" and ?rlp = "tree_rlp E (erase t)"
      have len: "?pl + length_of_length E ?pl = length ?rlp"
        using True by (simp add: tree_rlp_list length_list_rlp)
      obtain m1 where m1: "payload_length E (calc_reference f E) (aid t) m = (Ok ?pl, m1)"
        "\<forall>c \<in> set (akids t). holds E m1 c \<and> cached E m1 c"
        "cells_changed (set (aids t) - {aid t}) m m1"
        using payload_length_spec [OF n _ node.prems(1) s sh] calc h by blast
      have step: "calc_reference fuel E (aid t) m =
        (if length ?rlp < 32 then
           and_then (encode_with_payload_len E (calc_reference f E) (aid t) ?pl [] m1)
             (\<lambda>encoded m. (Ok (RefBytes encoded), m))
         else
           and_then (encode_with_payload_len E (calc_reference f E) (aid t) ?pl []
                       (m1\<lparr>rlp_scratch := [], scratch_borrowed := True\<rparr>))
             (\<lambda>scratch m. (Ok (RefDigest (keccak256 E scratch)),
                m\<lparr>rlp_scratch := scratch, scratch_borrowed := False\<rparr>)))"
        using True n m1(1) s cells_changed_scratch [OF m1(3)] unfolding f len [symmetric]
        by (cases t) simp_all
      have enc: "encode_with_payload_len E (calc_reference f E) (aid t) ?pl [] m2 = (Ok ?rlp, m2)"
        if "nodes m2 = nodes m1" "cached_references m2 = cached_references m1" for m2
      proof -
        have "node_at m2 (aid t) = Some (node_of t)" "\<forall>c \<in> set (akids t). cached E m2 c"
          using that n m1(2) cells_changed_node [OF m1(3)] by (auto simp: node_at_def cached_def cell_at_def)
        from encode_with_payload_len_spec [OF this] show ?thesis by simp
      qed
      have ref: "tree_ref E (erase t) = ref_of_rlp E ?rlp" using True by (rule tree_ref_list)
      show ?thesis
      proof (cases "length ?rlp < 32")
        case True
        with step ref enc [of m1] m1(2,3) show ?thesis by (auto simp: ref_of_rlp_def)
      next
        case False
        define m2 where "m2 = m1\<lparr>rlp_scratch := ?rlp, scratch_borrowed := False\<rparr>"
        have ch: "cells_changed {} m1 m2"
          using s cells_changed_scratch [OF m1(3)] by (simp add: m2_def cells_changed_def cell_at_def)
        have "\<forall>c \<in> set (akids t). holds E m2 c"
          using holds_cells_changed [OF _ ch] m1(2) by simp
        moreover have "cells_changed (set (aids t) - {aid t}) m m2"
          by (rule cells_changed_trans [OF m1(3) ch]) simp
        ultimately show ?thesis using False step ref enc by (simp add: ref_of_rlp_def m2_def)
      qed
    qed
  qed
qed

section \<open>The public operations\<close>

lemma hash_case:
  "node_at m (root_id m) = Some nd \<Longrightarrow> nd \<noteq> Null \<Longrightarrow>
     hash E m = and_then (get_or_insert_ref (calc_reference (hash_fuel m) E) (root_id m) m)
       (digest_of_ref E)"
  by (cases nd) (auto simp: hash_def)

lemma subtree_hash_case:
  "node_at m i = Some nd \<Longrightarrow> nd \<noteq> Null \<Longrightarrow>
     subtree_hash E i m = and_then (calc_reference (hash_fuel m) E i m) (digest_of_ref E)"
  by (cases nd) (auto simp: subtree_hash_def)

lemma digest_of_ref_spec:
  "digests_ok t \<Longrightarrow> t \<noteq> PNull \<Longrightarrow> digest_of_ref E (tree_ref E t) m = (Ok (root_hash E t), m)"
  using tree_ref_digest_length [of t]
  by (auto simp: digest_of_ref_def root_hash_def split: node_ref.split)

lemma rep_cells_changed:
  "rep E m t \<Longrightarrow> holds E m' t \<Longrightarrow> cells_changed S m m' \<Longrightarrow> rep E m' t"
  by (auto simp: rep_def cells_changed_def)

lemma rep_fuel: "rep E m t \<Longrightarrow> length (aids t) \<le> hash_fuel m"
  using length_aids_le [of E m t] by (auto simp: rep_def hash_fuel_def)

lemma rep_calc: "rep E m t \<Longrightarrow> calc_spec E (calc_reference (hash_fuel m) E) t"
  using calc_reference_spec rep_fuel by (auto simp: rep_def)

lemma hash_holds:
  assumes t: "holds E m t" "distinct (aids t)" "\<not> scratch_borrowed m" and root: "root_id m = aid t"
  shows "\<exists>m'. hash E m = (Ok (root_hash E (erase t)), m') \<and> holds E m' t \<and> cells_changed (set (aids t)) m m'"
proof (cases "erase t = PNull")
  case True
  then have "node_at m (root_id m) = Some Null"
    using t(1) root holds_node [of E m t] by (cases t) auto
  with True t(1) show ?thesis by (auto simp: hash_def root_hash_def)
next
  case False
  have nd: "node_at m (root_id m) = Some (node_of t)" using holds_node [OF t(1)] root by simp
  have "calc_spec E (calc_reference (hash_fuel m) E) t"
    using calc_reference_spec [OF t(2)] length_aids_le [OF t(1,2)] by (simp add: hash_fuel_def)
  then obtain m' where m': "get_or_insert_ref (calc_reference (hash_fuel m) E) (aid t) m =
      (Ok (tree_ref E (erase t)), m')" "holds E m' t" "cells_changed (set (aids t)) m m'"
    using get_or_insert_spec [OF _ t] by blast
  have "hash E m = (Ok (root_hash E (erase t)), m')"
    using hash_case [OF nd] False root m'(1) digest_of_ref_spec holds_digests_ok [OF t(1)] by simp
  with m' show ?thesis by blast
qed

lemma hash_rep:
  assumes "rep E m t"
  shows "\<exists>m'. hash E m = (Ok (root_hash E (erase t)), m') \<and> rep E m' t \<and> nodes m' = nodes m"
proof -
  have "holds E m t" "distinct (aids t)" "\<not> scratch_borrowed m" "root_id m = aid t"
    using assms by (auto simp: rep_def)
  then obtain m' where m': "hash E m = (Ok (root_hash E (erase t)), m')" "holds E m' t"
    "cells_changed (set (aids t)) m m'" using hash_holds by blast
  with rep_cells_changed [OF assms m'(2,3)] show ?thesis by (auto simp: cells_changed_def)
qed

lemma calc_root_rep:
  assumes "rep E m t"
  shows "\<exists>m'. calc_reference (hash_fuel m) E (root_id m) m = (Ok (tree_ref E (erase t)), m')
    \<and> rep E m' t \<and> nodes m' = nodes m"
proof -
  have r: "holds E m t" "distinct (aids t)" "\<not> scratch_borrowed m" "root_id m = aid t"
    using assms by (auto simp: rep_def)
  have parts: "node_at m (aid t) = Some (node_of t)" "shape_ok t"
    "\<forall>c \<in> set (akids t). holds E m c" "cell_ok E m t" using r(1) holds_rec by blast+
  then obtain m' where m': "calc_reference (hash_fuel m) E (aid t) m = (Ok (tree_ref E (erase t)), m')"
    "\<forall>c \<in> set (akids t). holds E m' c" "cells_changed (set (aids t) - {aid t}) m m'"
    using rep_calc [OF assms] r(3) unfolding calc_spec_def by blast
  have "holds E m' t"
    using m' parts cells_changed_node [OF m'(3)] cells_changed_cell [OF m'(3), of "aid t"] holds_rec [of E m' t]
    by (simp add: cell_ok_def)
  with m' r rep_cells_changed [OF assms _ m'(3)] show ?thesis by (auto simp: cells_changed_def)
qed

lemma root_is_hash_addressed_rep:
  assumes "rep E m t"
  shows "\<exists>m'. root_is_hash_addressed E m = (Ok (\<exists>d. tree_ref E (erase t) = RefDigest d), m')
    \<and> rep E m' t \<and> nodes m' = nodes m"
  using calc_root_rep [OF assms] by (auto simp: root_is_hash_addressed_def split: node_ref.split)

end

end
