(* ===== verification/Update_Refine.thy ===== *)
theory Update_Refine
  imports Arena_Update Hash_Refine
begin

text \<open>
  The arena operations \<open>get_internal\<close>, \<open>insert_internal\<close> and \<open>delete_internal\<close> implement the
  operations of the abstract trie: on an arena that holds a tree they return what the abstract
  operation returns on the erased tree and leave an arena that holds the abstract result. A failed
  update leaves the arena as it was.
\<close>

section \<open>Reading\<close>

lemma Some_nth_kid: "n < length cs \<Longrightarrow> cs ! n = Some c \<Longrightarrow> c \<in> set (akids (ABranch i cs))"
  by (auto simp: in_set_conv_nth)

lemma get_internal_spec:
  "holds E m t \<Longrightarrow> nibbles k \<Longrightarrow> length (aids t) \<le> fuel \<Longrightarrow>
   get_internal fuel m (aid t) k = pt_get (erase t) k"
proof (induction t arbitrary: k fuel rule: atree_induct)
  case (node t)
  obtain f where f: "fuel = Suc f" using node.prems(3) by (cases fuel) auto
  have n: "node_at m (aid t) = Some (node_of t)" and sh: "shape_ok t"
    using node.prems(1) holds_rec by blast+
  have ih: "get_internal f m (aid c) k' = pt_get (erase c) k'"
    if "c \<in> set (akids t)" "nibbles k'" for c k'
    using node.IH [OF that(1)] holds_kid [OF node.prems(1) that(1)] that(2)
      length_kid_aids [OF that(1)] node.prems(3) f by simp
  show ?case
  proof (cases t)
    case (ABranch i cs)
    show ?thesis
    proof (cases k)
      case Nil
      with ABranch n f show ?thesis by simp
    next
      case (Cons x r)
      with node.prems(2) ABranch sh have x: "unat x < length cs" "nibbles r" by simp_all
      show ?thesis
      proof (cases "cs ! unat x")
        case None
        with ABranch Cons n f x show ?thesis by (simp add: child_at_def nth_opt_def)
      next
        case (Some c)
        with ih [of c r] Some_nth_kid [OF x(1) Some, of i] ABranch Cons n f x show ?thesis
          by (simp add: child_at_def nth_opt_def)
      qed
    qed
  next
    case (AExt i p c)
    with ih [of c "drop (length p) k"] n f sh node.prems(2) show ?thesis by simp
  qed (use n f sh in simp_all)
qed

section \<open>Insertion\<close>

text \<open>What an update of one child means for its parent.\<close>

lemma kid_post:
  assumes t: "holds E m t" "distinct (aids t)" and c: "c \<in> set (akids t)"
    and p: "post E m c m1 c'"
  shows "grown (set (aids t)) m m1" "node_at m1 (aid t) = Some (node_of t)"
    "cell_at m1 (aid t) = cell_at m (aid t)" "holds E m1 c'" "aid c' = aid c"
    "distinct (aids c')" "aid t \<notin> set (aids c')" "set (aids c') \<subseteq> set (aids t) \<union> fresh m m1"
    "\<And>d. holds E m d \<Longrightarrow> set (aids d) \<inter> set (aids c) = {} \<Longrightarrow>
       holds E m1 d \<and> set (aids d) \<inter> set (aids c') = {}"
proof -
  have g: "grown (set (aids c)) m m1" and h: "holds E m1 c'" "distinct (aids c')" "aid c' = aid c"
    and s: "set (aids c') \<subseteq> set (aids c) \<union> fresh m m1" using p by (auto simp: post_def)
  have sub: "set (aids c) \<subseteq> set (aids t)" using kid_aids [OF c] .
  have i: "aid t \<notin> set (aids c)" using aid_notin_kid [OF t(2) c] .
  show "grown (set (aids t)) m m1" using grown_mono [OF g sub] .
  show "node_at m1 (aid t) = Some (node_of t)" using grown_node [OF g i holds_node [OF t(1)]] .
  show "cell_at m1 (aid t) = cell_at m (aid t)"
    using grown_cell [OF g i] holds_bound [OF t(1)] by simp
  show "holds E m1 c'" "aid c' = aid c" "distinct (aids c')" by (fact h)+
  show "aid t \<notin> set (aids c')" using s i fresh_old [OF t(1), of m1] aid_in_aids [of t] by blast
  show "set (aids c') \<subseteq> set (aids t) \<union> fresh m m1" using s sub by blast
  show "holds E m1 d \<and> set (aids d) \<inter> set (aids c') = {}"
    if "holds E m d" "set (aids d) \<inter> set (aids c) = {}" for d
    using holds_grown [OF that(1) g] that(2) s fresh_old [OF that(1), of m1] by blast
qed

lemma indep_update:
  assumes "indep cs" "n < length cs" "distinct (aids c')"
    and "\<And>j d. j < length cs \<Longrightarrow> j \<noteq> n \<Longrightarrow> cs ! j = Some d \<Longrightarrow> set (aids d) \<inter> set (aids c') = {}"
  shows "indep (cs[n := Some c'])"
proof (rule indepI)
  fix j k c d assume jk: "j < length (cs[n := Some c'])" "k < length (cs[n := Some c'])" "j \<noteq> k"
    "cs[n := Some c'] ! j = Some c" "cs[n := Some c'] ! k = Some d"
  show "set (aids c) \<inter> set (aids d) = {}"
  proof (cases "j = n \<or> k = n")
    case True
    with jk assms(2) assms(4) [of j c] assms(4) [of k d] show ?thesis by auto
  next
    case False
    with jk indepD(2) [OF assms(1), of j k] show ?thesis by simp
  qed
qed (use assms(2,3) indepD(1) [OF assms(1)] in \<open>auto simp: nth_list_update split: if_splits\<close>)

lemma indep_clear: "indep cs \<Longrightarrow> indep (cs[n := None])"
  by (cases "n < length cs")
     (auto intro!: indepI simp: nth_list_update dest: indepD split: if_splits)

lemma branch_kid_post:
  assumes t: "t = ABranch i cs" "holds E m t" "distinct (aids t)"
    and c: "n < length cs" "cs ! n = Some c" and p: "post E m c m1 c'"
    and x: "x = None \<or> x = Some c'"
  shows "indep (cs[n := x])" "\<forall>k \<in> set (somes (cs[n := x])). holds E m1 k \<and> aid t \<notin> set (aids k)
      \<and> set (aids k) \<subseteq> set (aids t) \<union> fresh m m1"
proof -
  have kid: "c \<in> set (akids t)" using c t(1) Some_nth_kid by blast
  note kp = kid_post [OF t(2,3) kid p]
  have ind: "indep cs" using t(1,3) distinct_somes [of cs] by (subst (asm) aids_rec) simp
  have other: "holds E m1 d \<and> set (aids d) \<inter> set (aids c') = {} \<and> d \<in> set (akids t)"
    if j: "j < length cs" "j \<noteq> n" "cs ! j = Some d" for j d
  proof -
    have d: "d \<in> set (akids t)" using Some_nth_kid [OF j(1,3)] t(1) by blast
    have "set (aids d) \<inter> set (aids c) = {}" using ind j c unfolding indep_def by blast
    with kp(9) [of d] holds_kid [OF t(2) d] d show ?thesis by blast
  qed
  show "indep (cs[n := x])"
    using x indep_clear [OF ind] indep_update [OF ind c(1) kp(6)] other by blast
  show "\<forall>k \<in> set (somes (cs[n := x])). holds E m1 k \<and> aid t \<notin> set (aids k)
      \<and> set (aids k) \<subseteq> set (aids t) \<union> fresh m m1"
  proof
    fix k assume "k \<in> set (somes (cs[n := x]))"
    then obtain j where j: "j < length cs" "cs[n := x] ! j = Some k" by (auto simp: in_set_conv_nth)
    show "holds E m1 k \<and> aid t \<notin> set (aids k) \<and> set (aids k) \<subseteq> set (aids t) \<union> fresh m m1"
    proof (cases "j = n")
      case True
      with j x have "k = c'" by auto
      with kp show ?thesis by blast
    next
      case False
      with j other [of j k] have "holds E m1 k" "k \<in> set (akids t)" by simp_all
      with aid_notin_kid [OF t(3)] kid_aids [of k t] show ?thesis by blast
    qed
  qed
qed

text \<open>Both splits end in a fork of the old and the new subtree.\<close>

fun afork :: "node_id \<Rightarrow> node_id \<Rightarrow> nibs \<Rightarrow> byte \<Rightarrow> atree \<Rightarrow> byte \<Rightarrow> atree \<Rightarrow> atree" where
  "afork i b [] x tx y ty = ABranch i (no_children[unat x := Some tx, unat y := Some ty])"
| "afork i b (n # ns) x tx y ty =
     AExt i (n # ns) (ABranch b (no_children[unat x := Some tx, unat y := Some ty]))"

lemma erase_afork [simp]: "erase (afork i b s x tx y ty) = pt_fork s x (erase tx) y (erase ty)"
  by (cases s) (simp_all add: pt_fork_def Let_def map_update)

lemma indep_pair:
  assumes "x < 16" "y < 16" "x \<noteq> y" "distinct (aids tx)" "distinct (aids ty)"
    "set (aids tx) \<inter> set (aids ty) = {}"
  shows "indep (no_children[x := Some tx, y := Some ty])"
  using assms unfolding indep_def by (auto simp: nth_list_update split: if_splits)

lemma somes_pair:
  "x < 16 \<Longrightarrow> y < 16 \<Longrightarrow> x \<noteq> y \<Longrightarrow>
   set (somes (no_children[x := Some tx, y := Some ty])) = {tx, ty}"
  by (auto simp: in_set_conv_nth nth_list_update split: if_splits)

lemma split_node_spec:
  assumes t: "holds E m t" and g: "grown (set (aids t)) m m1"
    and c: "cell_at m1 (aid t) = cell_at m (aid t)"
    and sub: "\<forall>k \<in> {tx, ty}. holds E m1 k \<and> distinct (aids k) \<and> aid t \<notin> set (aids k)
      \<and> set (aids k) \<subseteq> set (aids t) \<union> fresh m m1"
    and disj: "set (aids tx) \<inter> set (aids ty) = {}"
    and nib: "nibbles (s @ x # xs)" "nibbles (s @ y # ys)" "x \<noteq> y"
    and cap: "length (nodes m1) < 2 ^ 32"
  shows "\<exists>m' t'. finish_update (aid t)
        (split_node (aid t) (s @ x # xs) (s @ y # ys) (length s) (aid tx) (aid ty) m1) = (Ok True, m')
    \<and> erase t' = pt_fork s x (erase tx) y (erase ty) \<and> post E m t m' t'
    \<and> length (nodes m') \<le> Suc (length (nodes m1))"
proof -
  let ?cs = "no_children[unat x := Some tx, unat y := Some ty]"
  have xy: "unat x < 16" "unat y < 16" "unat x \<noteq> unat y" using nib by (auto simp: word_unat_eq_iff)
  have ind: "indep ?cs" using indep_pair [OF xy] sub disj by blast
  have kids: "set (somes ?cs) = {tx, ty}" using somes_pair [OF xy] .
  have ids: "no_children[unat x := Some (aid tx), unat y := Some (aid ty)] = map (map_option aid) ?cs"
    by (simp add: map_update)
  have len: "length ?cs = 16" by simp
  show ?thesis
  proof (cases s)
    case Nil
    have "\<exists>m'. finish_update (aid t) (Ok True, set_node (aid t) (node_of (ABranch (aid t) ?cs)) m1) = (Ok True, m')
      \<and> post E m t m' (ABranch (aid t) ?cs) \<and> length (nodes m') = length (nodes m1)"
      by (rule commit_post [OF g t])
         (use sub kids ind c len in \<open>auto simp: distinct_somes simp del: set_somes\<close>)
    then show ?thesis
      using Nil xy ids erase_afork [of "aid t" "aid t" "[]" x tx y ty]
      by (fastforce simp: split_node_def)
  next
    case (Cons a as)
    obtain b m2 where b: "add_node (Branch (map (map_option aid) ?cs)) None m1 = (b, m2)"
      by (meson surj_pair)
    have lenc: "length (cached_references m1) = length (nodes m1)" using g by (simp add: grown_def)
    note an = add_node_spec [OF lenc cap b]
    have hold2: "holds E m2 k" if "k \<in> {tx, ty}" for k
      using holds_grown [OF _ an(3)] sub that by auto
    have bfresh: "b \<notin> set (aids k)" if "k \<in> {tx, ty}" for k
    proof -
      have "holds E m1 k" using sub that by blast
      from fresh_old [OF this, of m2] an(4) show ?thesis by auto
    qed
    have ft: "fresh m m1 \<subseteq> fresh m m2 \<and> fresh m1 m2 \<subseteq> fresh m m2" using fresh_trans [OF g an(3)] .
    let ?b = "ABranch b ?cs"
    have hb: "holds E m2 ?b"
      by (rule holds_new [where r = None]) (use an hold2 kids len in \<open>auto simp del: set_somes\<close>)
    have sb: "set (aids ?b) = {b} \<union> set (aids tx) \<union> set (aids ty)"
      using kids by (subst aids_rec) (simp del: set_somes)
    have db: "distinct (aids ?b)"
      using kids ind bfresh by (subst aids_rec) (auto simp: distinct_somes simp del: set_somes)
    have bi: "b \<noteq> aid t" using fresh_old [OF t, of m2] an(4) ft aid_in_aids [of t] by blast
    have g2: "grown (set (aids t)) m m2" using grown_trans [OF g grown_mono [OF an(3)]] by simp
    have c2: "cell_at m2 (aid t) = cell_at m (aid t)"
      using grown_cell [OF an(3), of "aid t"] c holds_bound [OF t aid_in_aids] g by (simp add: grown_def)
    have "\<exists>m'. finish_update (aid t) (Ok True, set_node (aid t) (node_of (AExt (aid t) s ?b)) m2) = (Ok True, m')
      \<and> post E m t m' (AExt (aid t) s ?b) \<and> length (nodes m') = length (nodes m2)"
      by (rule commit_post [OF g2 t])
         (use nib hb db sb sub bi c2 an(4) ft in \<open>auto simp: subset_iff\<close>)
    then show ?thesis
      using Cons xy ids b an(5) erase_afork [of "aid t" b s x tx y ty]
      by (fastforce simp: split_node_def)
  qed
qed

lemma post_keep:
  assumes "holds E m t" "distinct (aids t)" "c \<in> set (akids t)" "post E m c m c"
  shows "post E m t m t"
  using assms post_refl [of E m t] by (simp add: post_def grown_def)

text \<open>An updated child of a branch or an extension.\<close>

lemma insert_kid_commit:
  assumes t: "holds E m t" "distinct (aids t)" and c: "c \<in> set (akids t)"
    and p: "post E m c m1 c'"
    and t2: "aid t2 = aid t" "node_of t2 = node_of t" "shape_ok t2"
      "distinct (concat (map aids (akids t2)))"
      "\<forall>k \<in> set (akids t2). holds E m1 k \<and> aid t \<notin> set (aids k)
         \<and> set (aids k) \<subseteq> set (aids t) \<union> fresh m m1"
  shows "\<exists>m'. finish_update (aid t) (Ok True, m1) = (Ok True, m') \<and> post E m t m' t2
    \<and> length (nodes m') = length (nodes m1)"
proof -
  note kp = kid_post [OF t c p]
  have "set_node (aid t) (node_of t2) m1 = m1" using set_node_same kp(2) t2(2) by simp
  with commit_post [OF kp(1) t(1) t2(1,3) _ t2(4) _ kp(3)] t2(5) show ?thesis by simp
qed

definition insert_ok :: "ext \<Rightarrow> mpt \<Rightarrow> atree \<Rightarrow> nibs \<Rightarrow> bytes \<Rightarrow> (mpt_error, bool) outcome \<times> mpt \<Rightarrow> bool" where
  "insert_ok E m t k v r \<longleftrightarrow>
     (\<exists>b m' t'. r = (Ok b, m') \<and> pt_insert (erase t) k v = Ok (b, erase t') \<and> post E m t m' t'
        \<and> (\<not> b \<longrightarrow> m' = m \<and> t' = t) \<and> length (nodes m') \<le> length (nodes m) + 3)
     \<or> (\<exists>e. r = (Err e, m) \<and> pt_insert (erase t) k v = Err e)"

lemma insert_okI:
  "r = (Ok b, m') \<Longrightarrow> pt_insert (erase t) k v = Ok (b, erase t') \<Longrightarrow> post E m t m' t' \<Longrightarrow>
   (\<not> b \<Longrightarrow> m' = m \<and> t' = t) \<Longrightarrow> length (nodes m') \<le> length (nodes m) + 3 \<Longrightarrow> insert_ok E m t k v r"
  unfolding insert_ok_def by blast

lemma insert_ok_cases:
  assumes "insert_ok E m t k v r"
  obtains (updated) m' t' where "r = (Ok True, m')" "pt_insert (erase t) k v = Ok (True, erase t')"
      "post E m t m' t'" "length (nodes m') \<le> length (nodes m) + 3"
  | (same) "r = (Ok False, m)" "pt_insert (erase t) k v = Ok (False, erase t)"
  | (error) e where "r = (Err e, m)" "pt_insert (erase t) k v = Err e"
  using assms unfolding insert_ok_def by (metis (full_types))

lemma insert_branch_ok:
  assumes t: "t = ABranch i cs" "holds E m t" "distinct (aids t)" "length cs = 16"
    and len: "length (cached_references m) = length (nodes m)"
    and n: "unat n < 16" "cs ! unat n = Some c" and r: "insert_ok E m c k v r"
  shows "insert_ok E m t (n # k) v (finish_update i r)"
  using r
proof (cases rule: insert_ok_cases)
  case (updated m1 c')
  let ?t2 = "ABranch i (cs[unat n := Some c'])"
  have kid: "c \<in> set (akids t)" using Some_nth_kid n t by simp
  have "map_option aid (Some c') = map_option aid (cs ! unat n)" using updated(3) n by (simp add: post_def)
  then have nd: "node_of ?t2 = node_of t" using t(1,4) n by (simp add: map_update list_update_same_conv)
  note bk = branch_kid_post [OF t(1-3) _ n(2) updated(3), of "Some c'"]
  have ex: "\<exists>m'. finish_update (aid t) (Ok True, m1) = (Ok True, m') \<and> post E m t m' ?t2
    \<and> length (nodes m') = length (nodes m1)"
    by (rule insert_kid_commit [OF t(2,3) kid updated(3)]) (use t n nd bk in \<open>auto simp: distinct_somes\<close>)
  then obtain m' where m': "finish_update (aid t) (Ok True, m1) = (Ok True, m')" "post E m t m' ?t2"
    "length (nodes m') = length (nodes m1)" by blast
  have i: "aid t = i" using t(1) by simp
  show ?thesis
    by (rule insert_okI [of _ True m' _ _ _ ?t2])
       (use m' updated n t i in \<open>auto simp: map_update\<close>)
next
  case same
  have "cs[unat n := Some c] = cs" using n by (metis list_update_id)
  then have "(map (map_option erase) cs)[unat n := Some (erase c)] = map (map_option erase) cs"
    by (metis map_update option.map(2))
  with same n t post_refl [OF t(2,3) len] show ?thesis
    by (intro insert_okI [of _ False m _ _ _ t]) simp_all
next
  case (error e)
  with n t show ?thesis by (simp add: insert_ok_def)
qed

lemma insert_ext_ok:
  assumes t: "t = AExt i p c" "holds E m t" "distinct (aids t)" "nibbles p"
    and len: "length (cached_references m) = length (nodes m)" and r: "insert_ok E m c k v r"
  shows "insert_ok E m t (p @ k) v (finish_update i r)"
  using r
proof (cases rule: insert_ok_cases)
  case (updated m1 c')
  let ?t2 = "AExt i p c'"
  have kid: "c \<in> set (akids t)" using t by simp
  note kp = kid_post [OF t(2,3) kid updated(3)]
  have "\<exists>m'. finish_update (aid t) (Ok True, m1) = (Ok True, m') \<and> post E m t m' ?t2
    \<and> length (nodes m') = length (nodes m1)"
    by (rule insert_kid_commit [OF t(2,3) kid updated(3)]) (use t kp in auto)
  then obtain m' where m': "finish_update (aid t) (Ok True, m1) = (Ok True, m')" "post E m t m' ?t2"
    "length (nodes m') = length (nodes m1)" by blast
  have i: "aid t = i" using t(1) by simp
  show ?thesis
    by (rule insert_okI [of _ True m' _ _ _ ?t2]) (use m' updated t i in \<open>auto simp: pt_simps\<close>)
next
  case same
  with t post_refl [OF t(2,3) len] show ?thesis
    by (intro insert_okI [of _ False m _ _ _ t]) (simp_all add: pt_simps)
next
  case (error e)
  with t show ?thesis by (simp add: insert_ok_def pt_simps)
qed

lemma aids_simps [simp]:
  "aids (ANull i) = [i]" "aids (ALeaf i p v) = [i]" "aids (ADigest i d) = [i]"
  "aids (AExt i p c) = i # aids c"
  by (subst aids_rec, simp)+

lemma add_node_ref:
  assumes "length (cached_references m1) = length (nodes m1)" "length (nodes m1) < 2 ^ 32"
    and "add_node (node_of t) r m1 = (aid t, m2)" "shape_ok t" "\<forall>c \<in> set (akids t). holds E m1 c"
    and "r = None \<or> r = Some (tree_ref E (erase t))"
  shows "holds E m2 t"
proof (rule holds_new)
  note an = add_node_spec [OF assms(1-3)]
  show "node_at m2 (aid t) = Some (node_of t)" "cell_at m2 (aid t) = Some (new_cell r)"
    using an by simp_all
  show "\<forall>c \<in> set (akids t). holds E m2 c" using holds_grown [OF _ an(3)] assms(5) by simp
qed (use assms(4,6) in simp_all)

lemma add_node_new:
  assumes "length (cached_references m1) = length (nodes m1)" "length (nodes m1) < 2 ^ 32"
    and "add_node (node_of t) None m1 = (aid t, m2)" "shape_ok t" "\<forall>c \<in> set (akids t). holds E m1 c"
  shows "holds E m2 t"
  using add_node_ref [OF assms] by simp

lemma new_kid_commit:
  assumes t: "t = ABranch i cs" "holds E m t" "distinct (aids t)" "length cs = 16"
    and len: "length (cached_references m) = length (nodes m)" "length (nodes m) < 2 ^ 32"
    and n: "unat n < 16" and l: "aid l = j" "akids l = []" "shape_ok l"
    and a: "add_node (node_of l) None m = (j, m1)"
  shows "\<exists>m'. finish_update i (Ok True, set_node i (Branch ((map (map_option aid) cs)[unat n := Some j])) m1) = (Ok True, m')
    \<and> post E m t m' (ABranch i (cs[unat n := Some l])) \<and> length (nodes m') = Suc (length (nodes m))"
proof -
  let ?t2 = "ABranch i (cs[unat n := Some l])"
  note an = add_node_spec [OF len a]
  have hl: "holds E m1 l" using add_node_new [OF len, of l m1] a l by simp
  have al: "aids l = [j]" using l by (subst aids_rec) simp
  have old: "holds E m1 d \<and> j \<notin> set (aids d)" if "holds E m d" for d
    using holds_grown [OF that an(3)] fresh_old [OF that, of m1] an(4) by simp
  have kids: "\<forall>d \<in> set (somes cs). holds E m1 d \<and> j \<notin> set (aids d) \<and> i \<notin> set (aids d) \<and> set (aids d) \<subseteq> set (aids t)"
  proof
    fix d assume "d \<in> set (somes cs)"
    then have d: "d \<in> set (akids t)" using t by simp
    from old [OF holds_kid [OF t(2) d]] kid_aids [OF d] aid_notin_kid [OF t(3) d] t(1)
    show "holds E m1 d \<and> j \<notin> set (aids d) \<and> i \<notin> set (aids d) \<and> set (aids d) \<subseteq> set (aids t)" by simp
  qed
  have k2: "set (somes (cs[unat n := Some l])) \<subseteq> insert l (set (somes cs))"
    using set_update_subset_insert [of cs "unat n" "Some l"] by auto
  have "indep cs" using t(1,3) distinct_somes [of cs] by (subst (asm) aids_rec) simp
  then have ind: "indep (cs[unat n := Some l])"
    using n t(4) kids al by (intro indep_update) (auto simp: in_set_conv_nth)
  have ij: "i \<noteq> j" using old [OF t(2)] t(1) aid_in_aids [of t] by auto
  have c: "cell_at m1 (aid t) = cell_at m (aid t)"
    using grown_cell [OF an(3)] holds_bound [OF t(2) aid_in_aids] by simp
  have "\<exists>m'. finish_update (aid t) (Ok True, set_node (aid t) (node_of ?t2) m1) = (Ok True, m')
    \<and> post E m t m' ?t2 \<and> length (nodes m') = length (nodes m1)"
  proof (rule commit_post)
    show "grown (set (aids t)) m m1" by (rule grown_mono [OF an(3)]) simp
    show "\<forall>k \<in> set (akids ?t2). aid t \<notin> set (aids k) \<and> set (aids k) \<subseteq> set (aids t) \<union> fresh m m1"
      using k2 kids ij an(4) t(1) al by (auto simp: subset_iff)
    show "\<forall>k \<in> set (akids ?t2). holds E m1 k" using k2 kids hl by auto
  qed (use t ind c in \<open>simp_all add: distinct_somes\<close>)
  with t(1) l(1) an(5) show ?thesis by (simp add: map_update)
qed

lemma insert_empty_slot_ok:
  assumes t: "t = ABranch i cs" "holds E m t" "distinct (aids t)" "length cs = 16"
    and len: "length (cached_references m) = length (nodes m)" "length (nodes m) < 2 ^ 32"
    and n: "unat n < 16" "cs ! unat n = None" "nibbles k"
    and a: "add_node (Leaf (to_encoded_path k True) v) None m = (j, m1)"
  shows "insert_ok E m t (n # k) v
    (finish_update i (Ok True, set_node i (Branch ((map (map_option aid) cs)[unat n := Some j])) m1))"
proof -
  obtain m' where m': "finish_update i (Ok True, set_node i (Branch ((map (map_option aid) cs)[unat n := Some j])) m1) =
      (Ok True, m')" "post E m t m' (ABranch i (cs[unat n := Some (ALeaf j k v)]))"
    "length (nodes m') = Suc (length (nodes m))"
    using new_kid_commit [OF t len n(1), of "ALeaf j k v" j m1] a n(3) by auto
  show ?thesis
    by (rule insert_okI [OF m'(1) _ m'(2)]) (use m'(3) t n in \<open>simp_all add: map_update\<close>)
qed

lemma insert_split_ok:
  assumes t: "holds E m t" "aid t = i" "distinct (aids t)"
    and g: "grown {} m m1" "length (nodes m1) \<le> length (nodes m) + 1" "length (nodes m) + 3 \<le> 2 ^ 32"
    and tx: "holds E m1 tx" "distinct (aids tx)" "i \<notin> set (aids tx)"
      "set (aids tx) \<subseteq> set (aids t) \<union> fresh m m1"
    and nib: "nibbles (s @ x # xs)" "nibbles (s @ y # ys)" "x \<noteq> y"
    and a: "add_node (Leaf (to_encoded_path ys True) v) None m1 = (j, m2)"
    and pt: "pt_insert (erase t) (s @ y # ys) v = Ok (True, pt_fork s x (erase tx) y (PLeaf ys v))"
  shows "insert_ok E m t (s @ y # ys) v
    (finish_update i (split_node i (s @ x # xs) (s @ y # ys) (length s) (aid tx) j m2))"
proof -
  let ?l = "ALeaf j ys v"
  have len: "length (cached_references m1) = length (nodes m1)" "length (nodes m1) < 2 ^ 32"
    using g by (simp_all add: grown_def)
  note an = add_node_spec [OF len a]
  have l: "holds E m2 ?l" using add_node_new [OF len, of ?l m2] a nib by simp
  have ft: "fresh m m1 \<subseteq> fresh m m2 \<and> fresh m1 m2 \<subseteq> fresh m m2" using fresh_trans [OF g(1) an(3)] .
  have tx2: "holds E m2 tx" "j \<notin> set (aids tx)"
    using holds_grown [OF tx(1) an(3)] fresh_old [OF tx(1), of m2] an(4) by simp_all
  have tm1: "holds E m1 t" using holds_grown [OF t(1) g(1)] by simp
  have ij: "i \<noteq> j" using fresh_old [OF tm1, of m2] an(4) t(2) aid_in_aids [of t] by auto
  have g2: "grown {} m m2" using grown_trans [OF g(1) an(3)] .
  have c: "cell_at m2 (aid t) = cell_at m (aid t)"
    using grown_cell [OF g2] holds_bound [OF t(1) aid_in_aids] by simp
  have sub: "\<forall>k \<in> {tx, ?l}. holds E m2 k \<and> distinct (aids k) \<and> aid t \<notin> set (aids k)
      \<and> set (aids k) \<subseteq> set (aids t) \<union> fresh m m2"
    using tx2 tx l ij t(2) an(4) ft by auto
  have "\<exists>m' t'. finish_update (aid t)
        (split_node (aid t) (s @ x # xs) (s @ y # ys) (length s) (aid tx) (aid ?l) m2) = (Ok True, m')
    \<and> erase t' = pt_fork s x (erase tx) y (erase ?l) \<and> post E m t m' t'
    \<and> length (nodes m') \<le> Suc (length (nodes m2))"
    by (rule split_node_spec [OF t(1) grown_mono [OF g2] c sub _ nib]) (use tx2 an(5) g in simp_all)
  then obtain m' t' where m': "finish_update i
        (split_node i (s @ x # xs) (s @ y # ys) (length s) (aid tx) j m2) = (Ok True, m')"
    "erase t' = pt_fork s x (erase tx) y (PLeaf ys v)" "post E m t m' t'"
    "length (nodes m') \<le> Suc (length (nodes m2))" using t(2) by auto
  show ?thesis
    by (rule insert_okI [of _ True m' _ _ _ t']) (use m' pt an(5) g(2) in simp_all)
qed

lemma commit_leaf:
  assumes t: "holds E m t" "akids t = []" "aid t = i"
    and len: "length (cached_references m) = length (nodes m)"
    and t2: "aid t2 = i" "akids t2 = []" "shape_ok t2"
  shows "\<exists>m'. finish_update i (Ok True, set_node i (node_of t2) m) = (Ok True, m')
    \<and> post E m t m' t2 \<and> length (nodes m') = length (nodes m)"
  using commit_post [OF grown_refl [OF len] t(1), of t2] t t2 by simp

lemma insert_leaf_ok:
  assumes t: "t = ALeaf i p w" "holds E m t" "nibbles p" "nibbles k"
    and len: "length (cached_references m) = length (nodes m)" "length (nodes m) + 3 \<le> 2 ^ 32"
  shows "insert_ok E m t k v (insert_internal (Suc fuel) i k v m)"
proof -
  have n: "node_at m i = Some (Leaf (to_encoded_path p True) w)" using holds_node [OF t(2)] t(1) by simp
  have d: "distinct (aids t)" using t(1) by simp
  show ?thesis
  proof (cases rule: lcp_cases [of k p])
    case eq
    have "\<exists>m'. finish_update i (Ok True, set_node i (node_of (ALeaf i p v)) m) = (Ok True, m')
      \<and> post E m t m' (ALeaf i p v) \<and> length (nodes m') = length (nodes m)"
      by (rule commit_leaf [OF t(2)]) (use t len in simp_all)
    then obtain m' where m': "finish_update i (Ok True, set_node i (node_of (ALeaf i p v)) m) = (Ok True, m')"
      "post E m t m' (ALeaf i p v)" "length (nodes m') = length (nodes m)" by blast
    show ?thesis
    proof (cases "w = v")
      case True
      with eq n t post_refl [OF t(2) d len(1)] show ?thesis
        by (intro insert_okI [of _ False m _ _ _ t]) (simp_all add: pt_simps)
    next
      case False
      with eq n t m' show ?thesis
        by (intro insert_okI [of _ True m' _ _ _ "ALeaf i p v"]) (simp_all add: pt_simps)
    qed
  next
    case (shorter c r)
    with n t show ?thesis by (simp add: insert_ok_def pt_simps)
  next
    case (longer c r)
    with n t show ?thesis by (simp add: insert_ok_def pt_simps)
  next
    case (fork s x xs y ys)
    obtain j1 m1 where a1: "add_node (Leaf (to_encoded_path xs True) w) None m = (j1, m1)" by (meson surj_pair)
    obtain j2 m2 where a2: "add_node (Leaf (to_encoded_path ys True) v) None m1 = (j2, m2)" by (meson surj_pair)
    have l: "length (nodes m) < 2 ^ 32" using len by simp
    note an = add_node_spec [OF len(1) l a1]
    have tx: "holds E m1 (ALeaf j1 xs w)" using add_node_new [OF len(1) l, of "ALeaf j1 xs w" m1] a1 fork t by simp
    have "j1 \<noteq> i" using fresh_old [OF t(2), of m1] an(4) t(1) by auto
    then have "insert_ok E m t (s @ y # ys) v
      (finish_update i (split_node i (s @ x # xs) (s @ y # ys) (length s) (aid (ALeaf j1 xs w)) j2 m2))"
      by (intro insert_split_ok [OF t(2) _ d an(3) _ len(2) tx _ _ _ _ _ _ a2])
         (use t fork an in \<open>simp_all add: pt_simps\<close>)
    moreover have "insert_internal (Suc fuel) i k v m =
      finish_update i (split_node i (s @ x # xs) (s @ y # ys) (length s) j1 j2 m2)"
      using n t fork a1 a2 by simp
    ultimately show ?thesis using fork by simp
  qed
qed

lemma insert_ext_split_ok:
  assumes t: "t = AExt i (s @ x # xs) c" "holds E m t" "distinct (aids t)"
    and nib: "nibbles (s @ x # xs)" "nibbles (s @ y # ys)" "x \<noteq> y"
    and len: "length (cached_references m) = length (nodes m)" "length (nodes m) + 3 \<le> 2 ^ 32"
  shows "insert_ok E m t (s @ y # ys) v (insert_internal (Suc fuel) i (s @ y # ys) v m)"
proof -
  have n: "node_at m i = Some (Extension (to_encoded_path (s @ x # xs) False) (aid c))"
    using holds_node [OF t(2)] t(1) by simp
  have c: "holds E m c" "distinct (aids c)" "i \<notin> set (aids c)" "set (aids c) \<subseteq> set (aids t)"
    using holds_kid [OF t(2)] t by auto
  have l: "length (nodes m) < 2 ^ 32" using len by simp
  have "\<exists>m1 tx. (if length s + 1 < length (s @ x # xs)
        then add_node (Extension (to_encoded_path xs False) (aid c)) None m else (aid c, m)) = (aid tx, m1)
      \<and> grown {} m m1 \<and> length (nodes m1) \<le> length (nodes m) + 1
      \<and> holds E m1 tx \<and> distinct (aids tx) \<and> i \<notin> set (aids tx)
      \<and> set (aids tx) \<subseteq> set (aids t) \<union> fresh m m1 \<and> erase tx = pt_tail xs (erase c)"
  proof (cases xs)
    case Nil
    with c grown_refl [OF len(1)] show ?thesis by (intro exI [of _ m] exI [of _ c]) (auto simp: pt_tail_def)
  next
    case (Cons z zs)
    obtain j m1 where a: "add_node (Extension (to_encoded_path xs False) (aid c)) None m = (j, m1)" by (meson surj_pair)
    note an = add_node_spec [OF len(1) l a]
    have "holds E m1 (AExt j xs c)" using add_node_new [OF len(1) l, of "AExt j xs c" m1] a c nib by simp
    moreover have "j \<notin> set (aids t)" using fresh_old [OF t(2), of m1] an(4) by auto
    ultimately show ?thesis using a an c t(1) Cons
      by (intro exI [of _ m1] exI [of _ "AExt j xs c"]) (auto simp: pt_tail_def)
  qed
  then obtain m1 tx where tx: "(if length s + 1 < length (s @ x # xs)
        then add_node (Extension (to_encoded_path xs False) (aid c)) None m else (aid c, m)) = (aid tx, m1)"
    "grown {} m m1" "length (nodes m1) \<le> length (nodes m) + 1"
    "holds E m1 tx" "distinct (aids tx)" "i \<notin> set (aids tx)"
    "set (aids tx) \<subseteq> set (aids t) \<union> fresh m m1" "erase tx = pt_tail xs (erase c)" by blast
  obtain j2 m2 where a2: "add_node (Leaf (to_encoded_path ys True) v) None m1 = (j2, m2)" by (meson surj_pair)
  have "insert_ok E m t (s @ y # ys) v
      (finish_update i (split_node i (s @ x # xs) (s @ y # ys) (length s) (aid tx) j2 m2))"
    by (rule insert_split_ok [OF t(2) _ t(3) tx(2,3) len(2) tx(4-7) nib a2])
       (use t tx(8) nib in \<open>simp_all add: pt_simps\<close>)
  moreover have "insert_internal (Suc fuel) i (s @ y # ys) v m =
      finish_update i (split_node i (s @ x # xs) (s @ y # ys) (length s) (aid tx) j2 m2)"
    using n nib tx(1) a2 by (cases xs) simp_all
  ultimately show ?thesis by simp
qed

lemma insert_internal_spec:
  "holds E m t \<Longrightarrow> distinct (aids t) \<Longrightarrow> nibbles k \<Longrightarrow> length (aids t) \<le> fuel \<Longrightarrow>
   length (cached_references m) = length (nodes m) \<Longrightarrow> length (nodes m) + 3 \<le> 2 ^ 32 \<Longrightarrow>
   insert_ok E m t k v (insert_internal fuel (aid t) k v m)"
proof (induction t arbitrary: k fuel rule: atree_induct)
  case (node t)
  obtain f where f: "fuel = Suc f" using node.prems(4) by (cases fuel) auto
  have n: "node_at m (aid t) = Some (node_of t)" and sh: "shape_ok t"
    using node.prems(1) holds_rec by blast+
  have ih: "insert_ok E m c k' v (insert_internal f (aid c) k' v m)"
    if "c \<in> set (akids t)" "nibbles k'" for c k'
    using node.IH [OF that(1)] holds_kid [OF node.prems(1) that(1)] distinct_kid [OF node.prems(2) that(1)]
      that(2) length_kid_aids [OF that(1)] node.prems(4-6) f by simp
  have len: "length (nodes m) < 2 ^ 32" using node.prems(6) by simp
  show ?case
  proof (cases t)
    case (ANull i)
    have "\<exists>m'. finish_update i (Ok True, set_node i (node_of (ALeaf i k v)) m) = (Ok True, m')
      \<and> post E m t m' (ALeaf i k v) \<and> length (nodes m') = length (nodes m)"
      by (rule commit_leaf [OF node.prems(1)]) (use ANull node.prems in simp_all)
    then obtain m' where "finish_update i (Ok True, set_node i (node_of (ALeaf i k v)) m) = (Ok True, m')"
      "post E m t m' (ALeaf i k v)" "length (nodes m') = length (nodes m)" by blast
    with ANull n f show ?thesis
      by (intro insert_okI [of _ True m' _ _ _ "ALeaf i k v"]) simp_all
  next
    case (ABranch i cs)
    show ?thesis
    proof (cases k)
      case Nil
      with ABranch n f show ?thesis by (simp add: insert_ok_def)
    next
      case (Cons x r)
      then have x: "unat x < 16" "nibbles r" "length cs = 16" using node.prems(3) sh ABranch by simp_all
      show ?thesis
      proof (cases "cs ! unat x")
        case None
        obtain j m1 where a: "add_node (Leaf (to_encoded_path r True) v) None m = (j, m1)" by (meson surj_pair)
        from insert_empty_slot_ok [OF ABranch node.prems(1,2) x(3) node.prems(5) len x(1) None x(2) a]
        show ?thesis using ABranch Cons n f x None a by (simp add: child_at_def nth_opt_def)
      next
        case (Some c)
        have "c \<in> set (akids t)" using Some_nth_kid [of "unat x" cs c i] Some x ABranch by simp
        from insert_branch_ok [OF ABranch node.prems(1,2) x(3) node.prems(5) x(1) Some ih [OF this x(2)]]
        show ?thesis using ABranch Cons n f x Some by (simp add: child_at_def nth_opt_def)
      qed
    qed
  next
    case (ALeaf i p w)
    with insert_leaf_ok [OF ALeaf node.prems(1) _ node.prems(3,5,6)] sh f show ?thesis by simp
  next
    case (AExt i p c)
    then have p: "nibbles p" using sh by simp
    show ?thesis
    proof (cases rule: prefix_or_fork [of k p])
      case (below r)
      then have "nibbles r" using node.prems(3) by simp
      from insert_ext_ok [OF AExt node.prems(1,2) p node.prems(5) ih [OF _ this, of c]]
      show ?thesis using AExt n f below p by simp
    next
      case (above a r)
      then show ?thesis using AExt n f p by (simp add: insert_ok_def pt_simps)
    next
      case (fork s x xs y ys)
      with insert_ext_split_ok [of t i s x xs c E m y ys v f] AExt node.prems p f show ?thesis by simp
    qed
  next
    case (ADigest i d)
    with n f sh show ?thesis by (simp add: insert_ok_def)
  qed
qed

section \<open>Deletion\<close>

fun ajoin :: "node_id \<Rightarrow> nibs \<Rightarrow> atree \<Rightarrow> atree" where
  "ajoin i p (ANull j) = ANull i"
| "ajoin i p (ALeaf j q v) = ALeaf i (p @ q) v"
| "ajoin i p (AExt j q c) = AExt i (p @ q) c"
| "ajoin i p (ABranch j cs) = AExt i p (ABranch j cs)"
| "ajoin i p (ADigest j d) = AExt i p (ADigest j d)"

lemma erase_ajoin [simp]: "erase (ajoin i p d) = pt_join p (erase d)"
  by (cases d) simp_all

lemma aid_ajoin [simp]: "aid (ajoin i p d) = i"
  by (cases d) simp_all

lemma ajoin_parts:
  assumes "holds E m d" "distinct (aids d)" "nibbles p"
  shows "shape_ok (ajoin i p d)" "distinct (concat (map aids (akids (ajoin i p d))))"
    "\<forall>k \<in> set (akids (ajoin i p d)). holds E m k \<and> set (aids k) \<subseteq> set (aids d)"
proof -
  have "shape_ok d" "\<forall>k \<in> set (akids d). holds E m k" using assms(1) holds_rec by blast+
  then show "shape_ok (ajoin i p d)" "distinct (concat (map aids (akids (ajoin i p d))))"
    "\<forall>k \<in> set (akids (ajoin i p d)). holds E m k \<and> set (aids k) \<subseteq> set (aids d)"
    using assms by (cases d; auto)+
qed

definition delete_ok :: "ext \<Rightarrow> mpt \<Rightarrow> atree \<Rightarrow> nibs \<Rightarrow> (mpt_error, bool) outcome \<times> mpt \<Rightarrow> bool" where
  "delete_ok E m t k r \<longleftrightarrow>
     (\<exists>b m' t'. r = (Ok b, m') \<and> pt_delete (erase t) k = Ok (b, erase t') \<and> post E m t m' t'
        \<and> (\<not> b \<longrightarrow> m' = m \<and> t' = t) \<and> length (nodes m') = length (nodes m))
     \<or> (\<exists>e. r = (Err e, m) \<and> pt_delete (erase t) k = Err e)"

lemma delete_okI:
  "r = (Ok b, m') \<Longrightarrow> pt_delete (erase t) k = Ok (b, erase t') \<Longrightarrow> post E m t m' t' \<Longrightarrow>
   (\<not> b \<Longrightarrow> m' = m \<and> t' = t) \<Longrightarrow> length (nodes m') = length (nodes m) \<Longrightarrow> delete_ok E m t k r"
  unfolding delete_ok_def by blast

lemma delete_ok_cases:
  assumes "delete_ok E m t k r"
  obtains (updated) m' t' where "r = (Ok True, m')" "pt_delete (erase t) k = Ok (True, erase t')"
      "post E m t m' t'" "length (nodes m') = length (nodes m)"
  | (same) "r = (Ok False, m)" "pt_delete (erase t) k = Ok (False, erase t)"
  | (error) e where "r = (Err e, m)" "pt_delete (erase t) k = Err e"
  using assms unfolding delete_ok_def by (metis (full_types))

lemma commit_join:
  assumes t: "holds E m t" and g: "grown (set (aids t)) m m1"
    and c: "cell_at m1 (aid t) = cell_at m (aid t)"
    and d: "holds E m1 d" "distinct (aids d)" "aid t \<notin> set (aids d)"
      "set (aids d) \<subseteq> set (aids t) \<union> fresh m m1" and p: "nibbles p"
  shows "\<exists>m'. finish_update (aid t) (Ok True, set_node (aid t) (node_of (ajoin (aid t) p d)) m1) = (Ok True, m')
    \<and> post E m t m' (ajoin (aid t) p d) \<and> length (nodes m') = length (nodes m1)"
proof -
  note parts = ajoin_parts [OF d(1,2) p, of "aid t"]
  show ?thesis
    by (rule commit_post [OF g t]) (use parts d(3,4) c in \<open>simp_all, blast+\<close>)
qed

lemma collapse_single:
  assumes "remaining cs = [j]" "j < length cs" "cs ! j = Some d" "holds E m1 d" "erase d \<noteq> PNull"
  shows "collapse_branch i (map (map_option aid) cs) m1 =
    (Ok True, set_node i (node_of (ajoin i [of_nat j] d)) m1)"
proof -
  have "node_at m1 (aid d) = Some (node_of d)" "shape_ok d" using assms(4) holds_rec by blast+
  with assms show ?thesis by (cases d) (simp_all add: collapse_branch_def)
qed

lemma collapse_many:
  assumes "2 \<le> length (remaining cs)"
  shows "collapse_branch i (map (map_option aid) cs) m1 =
    (Ok True, set_node i (Branch (map (map_option aid) cs)) m1)"
proof -
  obtain j k js where r: "remaining cs = j # k # js"
    using assms by (cases "remaining cs"; cases "tl (remaining cs)") auto
  then have "j \<in> set (remaining cs)" by simp
  then have "j < length cs" "cs ! j \<noteq> None" by simp_all
  with r show ?thesis by (auto simp: collapse_branch_def)
qed

lemma delete_branch_updated:
  assumes t: "t = ABranch i cs" "holds E m t" "distinct (aids t)" "canon (erase t)"
    and n: "unat n < 16" "cs ! unat n = Some c"
    and c: "pt_delete (erase c) k = Ok (True, erase c')" "post E m c m1 c'" "canon_top (erase c')"
      "length (nodes m1) = length (nodes m)"
  shows "delete_ok E m t (n # k) (finish_update i (collapse_branch i
    (if node_of c' = Null then (map (map_option aid) cs)[unat n := None] else map (map_option aid) cs) m1))"
proof -
  let ?x = "if erase c' = PNull then None else Some c'"
  define cs2 where "cs2 = cs[unat n := ?x]"
  let ?P = "map (map_option erase) cs2"
  have cs: "length cs = 16" "2 \<le> length (remaining cs)"
    "\<And>j d. j < 16 \<Longrightarrow> cs ! j = Some d \<Longrightarrow> canon (erase d)"
    using t(1,4) canon_child [of "map (map_option erase) cs"] by auto
  have kid: "c \<in> set (akids t)" using Some_nth_kid [of "unat n" cs c i] n cs t(1) by simp
  note kp = kid_post [OF t(2,3) kid c(2)]
  have nlen: "unat n < length cs" and x: "?x = None \<or> ?x = Some c'" using n cs by simp_all
  note bk = branch_kid_post [OF t(1-3) nlen n(2) c(2) x, folded cs2_def]
  have ids: "(if node_of c' = Null then (map (map_option aid) cs)[unat n := None] else map (map_option aid) cs)
      = map (map_option aid) cs2"
  proof (cases "erase c' = PNull")
    case False
    have "Some (aid c') = map (map_option aid) cs ! unat n" using kp(5) n cs by simp
    then have "(map (map_option aid) cs)[unat n := Some (aid c')] = map (map_option aid) cs"
      by (metis list_update_id)
    with False show ?thesis by (simp add: cs2_def map_update node_of_Null_iff)
  qed (simp add: cs2_def map_update node_of_Null_iff)
  have len2: "length cs2 = 16" by (simp add: cs2_def cs)
  have can2: "canon (erase d)" if "j < 16" "cs2 ! j = Some d" for j d
    using that cs c(3)
    by (cases "j = unat n") (auto simp: cs2_def canon_top_def split: if_splits)
  have ge: "1 \<le> length (remaining cs2)"
  proof -
    have "?P = (map (map_option erase) cs)[unat n := (if erase c' = PNull then None else Some (erase c'))]"
      by (simp add: cs2_def map_update)
    with remaining_update_ge [of "unat n" "map (map_option erase) cs" "erase c'"] n cs remaining_map [of erase cs2]
    show ?thesis by simp
  qed
  have pt: "pt_delete (erase t) (n # k) = Ok (True, pt_collapse ?P)"
    using t(1) n cs c(1) by (simp add: cs2_def map_update)
  have "1 \<le> length (remaining ?P)" using ge by simp
  then show ?thesis
  proof (cases rule: collapse_cases)
    case (single j d')
    then obtain d where d: "cs2 ! j = Some d" "d' = erase d" "j < 16" using len2 by auto
    then have "d \<in> set (somes cs2)" using len2 by (auto simp: in_set_conv_nth)
    with bk n cs have hd: "holds E m1 d" "aid t \<notin> set (aids d)" "set (aids d) \<subseteq> set (aids t) \<union> fresh m m1"
      by auto
    have dd: "distinct (aids d)" using indepD(1) [OF bk(1)] d len2 by simp
    have ne: "erase d \<noteq> PNull" using can2 [OF d(3,1)] by auto
    have nb: "nibbles [of_nat j :: byte]" using d(3) by (simp add: unat_of_nat)
    have col: "collapse_branch i (map (map_option aid) cs2) m1 =
      (Ok True, set_node i (node_of (ajoin i [of_nat j] d)) m1)"
      by (rule collapse_single) (use single d len2 hd ne in simp_all)
    obtain m' where m': "finish_update i (Ok True, set_node i (node_of (ajoin i [of_nat j] d)) m1) = (Ok True, m')"
      "post E m t m' (ajoin i [of_nat j] d)" "length (nodes m') = length (nodes m1)"
      using commit_join [OF t(2) kp(1,3) hd(1) dd hd(2,3) nb] t(1) by auto
    show ?thesis
      unfolding ids col
      by (rule delete_okI [of _ True m' _ _ "ajoin i [of_nat j] d"])
         (use m' pt single d c(4) in simp_all)
  next
    case many
    have "\<exists>m'. finish_update (aid t) (Ok True, set_node (aid t) (node_of (ABranch i cs2)) m1) = (Ok True, m')
      \<and> post E m t m' (ABranch i cs2) \<and> length (nodes m') = length (nodes m1)"
      by (rule commit_post [OF kp(1) t(2)]) (use t(1) len2 bk n cs kp(3) in \<open>auto simp: distinct_somes\<close>)
    then obtain m' where m': "finish_update i (Ok True, set_node i (node_of (ABranch i cs2)) m1) = (Ok True, m')"
      "post E m t m' (ABranch i cs2)" "length (nodes m') = length (nodes m1)" using t(1) by auto
    have col: "collapse_branch i (map (map_option aid) cs2) m1 =
      (Ok True, set_node i (Branch (map (map_option aid) cs2)) m1)"
      by (rule collapse_many) (use many in simp)
    show ?thesis
      unfolding ids col
      by (rule delete_okI [of _ True m' _ _ "ABranch i cs2"]) (use m' pt many c(4) in simp_all)
  qed
qed

lemma delete_branch_ok:
  assumes t: "t = ABranch i cs" "holds E m t" "distinct (aids t)" "canon (erase t)"
    and len: "length (cached_references m) = length (nodes m)"
    and n: "unat n < 16" "cs ! unat n = Some c" "nibbles k"
    and r: "delete_ok E m c k (delete_internal f (aid c) k m)"
  shows "delete_ok E m t (n # k) (delete_internal (Suc f) i (n # k) m)"
proof -
  have cs: "length cs = 16" using t by simp
  have nd: "node_at m i = Some (Branch (map (map_option aid) cs))" using holds_node [OF t(2)] t(1) by simp
  have "canon (erase c)" using canon_child [of "map (map_option erase) cs" "unat n" "erase c"] t n cs by simp
  then have can: "canon_top (erase c)" by (simp add: canon_top_def)
  show ?thesis
    using r
  proof (cases rule: delete_ok_cases)
    case (updated m1 c')
    have "canon_top (erase c')" using pt_delete_canon [OF can n(3) updated(2)] .
    from delete_branch_updated [OF t n(1,2) updated(2,3) this updated(4)]
    have "delete_ok E m t (n # k) (finish_update i (collapse_branch i
      (if node_of c' = Null then (map (map_option aid) cs)[unat n := None] else map (map_option aid) cs) m1))" .
    moreover have "node_at m1 (aid c) = Some (node_of c')"
      using updated(3) holds_node [of E m1 c'] by (simp add: post_def)
    ultimately show ?thesis using nd n cs updated(1) by (simp add: child_at_def nth_opt_def)
  next
    case same
    with nd n cs t post_refl [OF t(2,3) len] show ?thesis
      by (intro delete_okI [of _ False m _ _ t]) (simp_all add: child_at_def nth_opt_def)
  next
    case (error e)
    with nd n cs t show ?thesis by (simp add: delete_ok_def child_at_def nth_opt_def)
  qed
qed

lemma rejoin_extension_spec:
  assumes "holds E m1 c'" "nibbles p"
  shows "rejoin_extension i (to_encoded_path p False) (aid c') m1 =
    (Ok True, set_node i (node_of (ajoin i p c')) m1)"
proof -
  have "node_at m1 (aid c') = Some (node_of c')" "shape_ok c'" using assms(1) holds_rec by blast+
  with assms show ?thesis by (cases c') (simp_all add: rejoin_extension_def)
qed

lemma delete_ext_ok:
  assumes t: "t = AExt i p c" "holds E m t" "distinct (aids t)" "nibbles p"
    and len: "length (cached_references m) = length (nodes m)"
    and r: "delete_ok E m c k (delete_internal f (aid c) k m)"
  shows "delete_ok E m t (p @ k) (delete_internal (Suc f) i (p @ k) m)"
proof -
  have nd: "node_at m i = Some (Extension (to_encoded_path p False) (aid c))"
    using holds_node [OF t(2)] t(1) by simp
  have kid: "c \<in> set (akids t)" using t(1) by simp
  show ?thesis
    using r
  proof (cases rule: delete_ok_cases)
    case (updated m1 c')
    note kp = kid_post [OF t(2,3) kid updated(3)]
    obtain m' where m': "finish_update i (Ok True, set_node i (node_of (ajoin i p c')) m1) = (Ok True, m')"
      "post E m t m' (ajoin i p c')" "length (nodes m') = length (nodes m1)"
      using commit_join [OF t(2) kp(1,3,4,6,7,8) t(4)] t(1) by auto
    have "delete_internal (Suc f) i (p @ k) m = (Ok True, m')"
      using nd t(4) updated(1) rejoin_extension_spec [OF kp(4) t(4), of i] kp(5) m'(1)
      by (simp add: slice_strip_prefix_def)
    then show ?thesis
      by (rule delete_okI [of _ True m' _ _ "ajoin i p c'"]) (use m' updated t(1) in simp_all)
  next
    case same
    with nd t post_refl [OF t(2,3) len] show ?thesis
      by (intro delete_okI [of _ False m _ _ t]) (simp_all add: slice_strip_prefix_def)
  next
    case (error e)
    with nd t show ?thesis by (simp add: delete_ok_def slice_strip_prefix_def)
  qed
qed

lemma delete_internal_spec:
  "holds E m t \<Longrightarrow> distinct (aids t) \<Longrightarrow> canon_top (erase t) \<Longrightarrow> nibbles k \<Longrightarrow> length (aids t) \<le> fuel \<Longrightarrow>
   length (cached_references m) = length (nodes m) \<Longrightarrow>
   delete_ok E m t k (delete_internal fuel (aid t) k m)"
proof (induction t arbitrary: k fuel rule: atree_induct)
  case (node t)
  obtain f where f: "fuel = Suc f" using node.prems(5) by (cases fuel) auto
  have n: "node_at m (aid t) = Some (node_of t)" and sh: "shape_ok t"
    using node.prems(1) holds_rec by blast+
  have ih: "delete_ok E m c k' (delete_internal f (aid c) k' m)"
    if "c \<in> set (akids t)" "canon_top (erase c)" "nibbles k'" for c k'
    using node.IH [OF that(1)] holds_kid [OF node.prems(1) that(1)] distinct_kid [OF node.prems(2) that(1)]
      that(2,3) length_kid_aids [OF that(1)] node.prems(5,6) f by simp
  have refl: "post E m t m t" using post_refl [OF node.prems(1,2,6)] .
  show ?case
  proof (cases t)
    case (ANull i)
    with n f refl show ?thesis by (intro delete_okI [of _ False m _ _ t]) simp_all
  next
    case (ABranch i cs)
    show ?thesis
    proof (cases k)
      case Nil
      with ABranch n f show ?thesis by (simp add: delete_ok_def)
    next
      case (Cons x r)
      then have x: "unat x < 16" "nibbles r" "length cs = 16" using node.prems(4) sh ABranch by simp_all
      have can: "canon (erase t)" using node.prems(3) ABranch by (simp add: canon_top_def)
      show ?thesis
      proof (cases "cs ! unat x")
        case None
        with ABranch Cons n f x refl show ?thesis
          by (intro delete_okI [of _ False m _ _ t]) (simp_all add: child_at_def nth_opt_def)
      next
        case (Some c)
        have "c \<in> set (akids t)" using Some_nth_kid [of "unat x" cs c i] Some x ABranch by simp
        moreover have "canon_top (erase c)"
          using canon_child [of "map (map_option erase) cs" "unat x" "erase c"] can ABranch Some x
          by (simp add: canon_top_def)
        ultimately have "delete_ok E m c r (delete_internal f (aid c) r m)" using ih x(2) by blast
        from delete_branch_ok [OF ABranch node.prems(1,2) can node.prems(6) x(1) Some x(2) this]
        show ?thesis using ABranch Cons f by simp
      qed
    qed
  next
    case (ALeaf i p v)
    have "\<exists>m'. finish_update i (Ok True, set_node i (node_of (ANull i)) m) = (Ok True, m')
      \<and> post E m t m' (ANull i) \<and> length (nodes m') = length (nodes m)"
      by (rule commit_leaf [OF node.prems(1)]) (use ALeaf node.prems in simp_all)
    then obtain m' where m': "finish_update i (Ok True, set_node i (node_of (ANull i)) m) = (Ok True, m')"
      "post E m t m' (ANull i)" "length (nodes m') = length (nodes m)" by blast
    show ?thesis
    proof (cases "p = k")
      case True
      with ALeaf n f sh m' show ?thesis by (intro delete_okI [of _ True m' _ _ "ANull i"]) simp_all
    next
      case False
      with ALeaf n f sh refl show ?thesis by (intro delete_okI [of _ False m _ _ t]) simp_all
    qed
  next
    case (AExt i p c)
    then have p: "nibbles p" using sh by simp
    show ?thesis
    proof (cases "prefix p k")
      case True
      then obtain r where k: "k = p @ r" by (auto simp: prefix_def)
      then have "nibbles r" "canon_top (erase c)" using node.prems(3,4) AExt by (auto simp: canon_top_def)
      with ih [of c r] AExt have "delete_ok E m c r (delete_internal f (aid c) r m)" by simp
      from delete_ext_ok [OF AExt node.prems(1,2) p node.prems(6) this] k f AExt show ?thesis by simp
    next
      case False
      then have "take (length p) k \<noteq> p" by (metis take_is_prefix)
      with False AExt n f p refl show ?thesis
        by (intro delete_okI [of _ False m _ _ t]) (simp_all add: slice_strip_prefix_def)
    qed
  next
    case (ADigest i d)
    with n f sh show ?thesis by (simp add: delete_ok_def)
  qed
qed

end
