(* ===== verification/Auth_Map.thy ===== *)
theory Auth_Map
  imports Prelude
begin

text \<open>
  The contract of an authenticated map, the interface through which the state update code uses a
  trie: entries can be written and removed, and the root digest depends on the stored map only.
  \<open>room n s\<close> says that \<open>n\<close> further insertions fit. The clients apply lists of updates in an order
  they do not control (the iteration order of a hash map), so the lemmas of the locale show that
  a list of updates with distinct keys has one outcome whatever its order.
\<close>

text \<open>A list of updates: \<open>Some v\<close> writes, \<open>None\<close> removes; the first failure ends it.\<close>

fun apply_updates ::
  "('k \<Rightarrow> 'v \<Rightarrow> 's \<Rightarrow> ('e, bool) outcome \<times> 's) \<Rightarrow> ('k \<Rightarrow> 's \<Rightarrow> ('e, bool) outcome \<times> 's) \<Rightarrow>
   ('k \<times> 'v option) list \<Rightarrow> 's \<Rightarrow> ('e, unit) outcome \<times> 's" where
  "apply_updates put del [] s = (Ok (), s)"
| "apply_updates put del ((k, None) # us) s =
     and_then (del k s) (\<lambda>_ s. apply_updates put del us s)"
| "apply_updates put del ((k, Some v) # us) s =
     and_then (put k v s) (\<lambda>_ s. apply_updates put del us s)"

definition updated_map :: "('k \<times> 'v option) list \<Rightarrow> ('k \<Rightarrow> 'v option) \<Rightarrow> 'k \<Rightarrow> 'v option" where
  "updated_map us f = foldl (\<lambda>g (k, v). g(k := v)) f us"

lemma updated_map_simps [simp]:
  "updated_map [] f = f" "updated_map ((k, v) # us) f = updated_map us (f(k := v))"
  by (simp_all add: updated_map_def)

lemma updated_map_lookup:
  "distinct (map fst us) \<Longrightarrow>
   updated_map us f k = (case map_of us k of None \<Rightarrow> f k | Some v \<Rightarrow> v)"
proof (induction us arbitrary: f)
  case (Cons u us)
  obtain a v where u: "u = (a, v)" by (cases u)
  with Cons have "map_of us a = None" by (simp add: map_of_eq_None_iff)
  with Cons u show ?case by (auto split: option.split)
qed simp

lemma updated_map_perm:
  "distinct (map fst us) \<Longrightarrow> set vs = set us \<Longrightarrow> distinct (map fst vs) \<Longrightarrow>
   updated_map vs f = updated_map us f"
proof -
  assume "distinct (map fst us)" "set vs = set us" "distinct (map fst vs)"
  moreover from this have "map_of vs = map_of us" by (metis map_of_inject_set)
  ultimately show ?thesis by (intro ext) (simp add: updated_map_lookup)
qed

locale auth_map =
  fixes valid :: "'s \<Rightarrow> bool"
    and room :: "nat \<Rightarrow> 's \<Rightarrow> bool"
    and key_ok :: "'k \<Rightarrow> bool"
    and lookup :: "'s \<Rightarrow> 'k \<Rightarrow> 'v option"
    and put :: "'k \<Rightarrow> 'v \<Rightarrow> 's \<Rightarrow> ('e, bool) outcome \<times> 's"
    and del :: "'k \<Rightarrow> 's \<Rightarrow> ('e, bool) outcome \<times> 's"
    and root :: "'s \<Rightarrow> ('e, 'h) outcome \<times> 's"
  assumes put_ok: "valid s \<Longrightarrow> room (Suc n) s \<Longrightarrow> key_ok k \<Longrightarrow>
      \<exists>b s'. put k v s = (Ok b, s') \<and> valid s' \<and> room n s'
        \<and> (\<forall>k'. key_ok k' \<longrightarrow> lookup s' k' = ((lookup s)(k := Some v)) k')"
    and del_ok: "valid s \<Longrightarrow> room (Suc n) s \<Longrightarrow> key_ok k \<Longrightarrow>
      \<exists>b s'. del k s = (Ok b, s') \<and> valid s' \<and> room n s'
        \<and> (\<forall>k'. key_ok k' \<longrightarrow> lookup s' k' = ((lookup s)(k := None)) k')"
    and root_ok: "valid s \<Longrightarrow> \<exists>h s'. root s = (Ok h, s') \<and> valid s'
        \<and> (\<forall>n. room n s \<longrightarrow> room n s') \<and> (\<forall>k. key_ok k \<longrightarrow> lookup s' k = lookup s k)"
    and root_determined: "valid s \<Longrightarrow> valid s' \<Longrightarrow> (\<forall>k. key_ok k \<longrightarrow> lookup s k = lookup s' k) \<Longrightarrow>
      fst (root s) = fst (root s')"
begin

lemma updated_map_cong:
  "(\<forall>k. key_ok k \<longrightarrow> f k = g k) \<Longrightarrow> key_ok k \<Longrightarrow> updated_map us f k = updated_map us g k"
proof (induction us arbitrary: f g)
  case (Cons u us)
  then show ?case by (cases u) (auto intro!: Cons.IH)
qed simp

lemma apply_updates_ok:
  assumes "valid s" "room (length us) s" "list_all (\<lambda>u. key_ok (fst u)) us"
  shows "\<exists>s'. apply_updates put del us s = (Ok (), s') \<and> valid s'
    \<and> (\<forall>k. key_ok k \<longrightarrow> lookup s' k = updated_map us (lookup s) k)"
  using assms
proof (induction us arbitrary: s)
  case (Cons u us)
  obtain k v where u: "u = (k, v)" by (cases u)
  with Cons.prems have k: "key_ok k" and r: "room (Suc (length us)) s" by simp_all
  have "\<exists>s1. apply_updates put del (u # us) s = apply_updates put del us s1 \<and> valid s1
    \<and> room (length us) s1 \<and> (\<forall>k'. key_ok k' \<longrightarrow> lookup s1 k' = ((lookup s)(k := v)) k')"
  proof (cases v)
    case None
    with del_ok [OF Cons.prems(1) r k] u show ?thesis by fastforce
  next
    case (Some w)
    with put_ok [OF Cons.prems(1) r k, of w] u show ?thesis by fastforce
  qed
  then obtain s1 where s1: "apply_updates put del (u # us) s = apply_updates put del us s1" "valid s1"
    "room (length us) s1" "\<forall>k'. key_ok k' \<longrightarrow> lookup s1 k' = ((lookup s)(k := v)) k'" by blast
  from Cons.IH [OF s1(2,3)] Cons.prems(3) obtain s2 where
    "apply_updates put del us s1 = (Ok (), s2)" "valid s2"
    "\<forall>k. key_ok k \<longrightarrow> lookup s2 k = updated_map us (lookup s1) k" by auto
  with s1 u updated_map_cong [OF s1(4)] show ?case by (auto simp: fun_upd_def)
qed simp

text \<open>
  The root after a list of updates is the root of any valid state that stores the updated map;
  in particular it does not depend on the order of the updates.
\<close>

lemma root_after_updates:
  assumes "valid s" "room (length us) s" "list_all (\<lambda>u. key_ok (fst u)) us"
    and "valid t" "\<forall>k. key_ok k \<longrightarrow> lookup t k = updated_map us (lookup s) k"
  shows "fst (root (snd (apply_updates put del us s))) = fst (root t)"
proof -
  obtain s' where s': "apply_updates put del us s = (Ok (), s')" "valid s'"
    "\<forall>k. key_ok k \<longrightarrow> lookup s' k = updated_map us (lookup s) k"
    using apply_updates_ok [OF assms(1-3)] by blast
  with assms(5) root_determined [OF s'(2) assms(4)] show ?thesis by simp
qed

lemma updates_order_irrelevant:
  assumes "valid s" "room (length us) s" "list_all (\<lambda>u. key_ok (fst u)) us"
    and "distinct (map fst us)" "distinct (map fst vs)" "set vs = set us"
  shows "fst (root (snd (apply_updates put del us s))) = fst (root (snd (apply_updates put del vs s)))"
proof -
  have "length vs = length us" using assms(4-6) by (metis distinct_card distinct_map)
  moreover have "list_all (\<lambda>u. key_ok (fst u)) vs" using assms(3,6) by (simp add: list_all_iff)
  ultimately obtain s' where s': "apply_updates put del vs s = (Ok (), s')" "valid s'"
    "\<forall>k. key_ok k \<longrightarrow> lookup s' k = updated_map vs (lookup s) k"
    using apply_updates_ok [of s vs] assms(1,2) by auto
  from s'(3) updated_map_perm [OF assms(4,6,5)]
  have "\<forall>k. key_ok k \<longrightarrow> lookup s' k = updated_map us (lookup s) k" by simp
  with root_after_updates [OF assms(1-3) s'(2)] s'(1) show ?thesis by simp
qed

end

end
