(* ===== verification/Trie_Laws.thy ===== *)
theory Trie_Laws
  imports Update_Refine Auth_Map
begin

text \<open>
  The public operations of \<^verbatim>\<open>Mpt\<close> on well-formed arenas, in terms of the abstract tree the arena
  represents. \<open>repr_tree E m t\<close> relates an arena to its tree; \<open>capacity_left m\<close> leaves room for the
  three nodes an insertion may add before the \<open>u32\<close> index space is exhausted.
\<close>

definition capacity_left :: "mpt \<Rightarrow> bool" where
  "capacity_left m \<longleftrightarrow> length (nodes m) + 3 \<le> 2 ^ 32"

definition mpt_inv :: "ext \<Rightarrow> mpt \<Rightarrow> bool" where
  "mpt_inv E m \<longleftrightarrow> (\<exists>t. repr_tree E m t)"

lemma repD:
  assumes "rep E m a"
  shows "holds E m a" "distinct (aids a)" "root_id m = aid a" "canon_top (erase a)"
    "length (cached_references m) = length (nodes m)" "\<not> scratch_borrowed m"
  using assms by (auto simp: rep_def)

lemma rep_walk_fuel: "rep E m a \<Longrightarrow> length (aids a) \<le> walk_fuel m k"
  using length_aids_le [of E m a] by (auto simp: rep_def walk_fuel_def)

lemma repr_canon: "repr_tree E m t \<Longrightarrow> canon_top t"
  by (auto simp: repr_tree_def rep_def)

lemma repr_with_capacity [simp]: "repr_tree E (with_capacity n) PNull"
proof -
  have "rep E (with_capacity n) (ANull 0)"
    by (auto simp: rep_def holds_rec [of _ _ "ANull 0"] with_capacity_def node_at_def cell_ok_def
        cell_at_def new_cell_def canon_top_def nth_opt_def)
  then show ?thesis unfolding repr_tree_def by force
qed

lemma repr_new [simp]: "repr_tree E new PNull"
  by (simp add: new_def)

lemma repr_reserve: "repr_tree E m t \<Longrightarrow> repr_tree E (reserve n m) t"
  by (simp add: reserve_def)

lemma repr_is_empty: "repr_tree E m t \<Longrightarrow> is_empty m = Ok (t = PNull)"
proof -
  assume "repr_tree E m t"
  then obtain a where "rep E m a" "erase a = t" by (auto simp: repr_tree_def)
  then have "node_at m (root_id m) = Some (node_of a)" using holds_node by (metis rep_def)
  with \<open>erase a = t\<close> show ?thesis by (simp add: is_empty_def)
qed

section \<open>Refinement of the abstract operations\<close>

lemma get_nibbles_repr:
  "repr_tree E m t \<Longrightarrow> nibbles k \<Longrightarrow> get_nibbles m k = pt_get t k"
  unfolding repr_tree_def get_nibbles_def
  using get_internal_spec rep_walk_fuel repD by metis

lemma get_repr: "repr_tree E m t \<Longrightarrow> get m key = pt_get t (to_nibs key)"
  using get_nibbles_repr [of E m t "to_nibs key"] by (simp add: get_def get_nibbles_def)

lemma post_rep:
  assumes "rep E m a" "post E m a m' a'" "canon_top (erase a')"
  shows "rep E m' a'"
  using assms by (auto simp: rep_def post_def grown_def)

lemma insert_nibbles_repr:
  assumes "repr_tree E m t" "nibbles k" "capacity_left m"
  shows "(\<exists>b m' t'. insert_nibbles k v m = (Ok b, m') \<and> pt_insert t k v = Ok (b, t') \<and> repr_tree E m' t'
      \<and> (\<not> b \<longrightarrow> m' = m) \<and> length (nodes m) \<le> length (nodes m') \<and> length (nodes m') \<le> length (nodes m) + 3)
    \<or> (\<exists>e. insert_nibbles k v m = (Err e, m) \<and> pt_insert t k v = Err e)"
proof -
  obtain a where a: "rep E m a" "erase a = t" using assms(1) by (auto simp: repr_tree_def)
  have "insert_ok E m a k v (insert_internal (walk_fuel m k) (aid a) k v m)"
    using insert_internal_spec [OF repD(1,2) [OF a(1)] assms(2) rep_walk_fuel [OF a(1)] repD(5) [OF a(1)]]
      assms(3) by (simp add: capacity_left_def)
  then have "insert_ok E m a k v (insert_nibbles k v m)" using repD(3) [OF a(1)] by (simp add: insert_nibbles_def)
  then show ?thesis
  proof (cases rule: insert_ok_cases)
    case (updated m' a')
    have "canon (erase a')" using pt_insert_canon [OF repr_canon [OF assms(1)] assms(2)] updated(2) a(2) by simp
    then have "rep E m' a'" using post_rep [OF a(1) updated(3)] by (simp add: canon_top_def)
    with updated a(2) show ?thesis by (auto simp: repr_tree_def post_def grown_def)
  next
    case same
    with a assms(1) show ?thesis by auto
  next
    case (error e)
    with a show ?thesis by auto
  qed
qed

lemma delete_nibbles_repr:
  assumes "repr_tree E m t" "nibbles k"
  shows "(\<exists>b m' t'. delete_nibbles k m = (Ok b, m') \<and> pt_delete t k = Ok (b, t') \<and> repr_tree E m' t'
      \<and> (\<not> b \<longrightarrow> m' = m) \<and> length (nodes m') = length (nodes m))
    \<or> (\<exists>e. delete_nibbles k m = (Err e, m) \<and> pt_delete t k = Err e)"
proof -
  obtain a where a: "rep E m a" "erase a = t" using assms(1) by (auto simp: repr_tree_def)
  have "delete_ok E m a k (delete_internal (walk_fuel m k) (aid a) k m)"
    using delete_internal_spec [OF repD(1,2,4) [OF a(1)] assms(2) rep_walk_fuel [OF a(1)] repD(5) [OF a(1)]] .
  then have "delete_ok E m a k (delete_nibbles k m)" using repD(3) [OF a(1)] by (simp add: delete_nibbles_def)
  then show ?thesis
  proof (cases rule: delete_ok_cases)
    case (updated m' a')
    have "canon_top (erase a')" using pt_delete_canon [OF repr_canon [OF assms(1)] assms(2)] updated(2) a(2) by simp
    then have "rep E m' a'" using post_rep [OF a(1) updated(3)] by simp
    with updated a(2) show ?thesis by (auto simp: repr_tree_def)
  next
    case same
    with a assms(1) show ?thesis by auto
  next
    case (error e)
    with a show ?thesis by auto
  qed
qed

lemma insert_mpt_nibbles: "insert_mpt key v m = insert_nibbles (to_nibs key) v m"
  by (simp add: insert_mpt_def insert_nibbles_def)

lemma delete_as_nibbles: "delete key m = delete_nibbles (to_nibs key) m"
  by (simp add: delete_def delete_nibbles_def)

lemma get_as_nibbles: "get m key = get_nibbles m (to_nibs key)"
  by (simp add: get_def get_nibbles_def)

context rlp_laws
begin

lemma hash_repr:
  assumes "repr_tree E m t"
  shows "\<exists>m'. hash E m = (Ok (root_hash E t), m') \<and> repr_tree E m' t \<and> nodes m' = nodes m"
  using assms hash_rep unfolding repr_tree_def by blast

lemma root_is_hash_addressed_repr:
  assumes "repr_tree E m t"
  shows "\<exists>m'. root_is_hash_addressed E m = (Ok (\<exists>d. tree_ref E t = RefDigest d), m')
    \<and> repr_tree E m' t \<and> nodes m' = nodes m"
  using assms root_is_hash_addressed_rep unfolding repr_tree_def by blast

end

section \<open>Tries keyed by 32-byte hashes\<close>

text \<open>
  The state trie and the storage tries are keyed by Keccak hashes. \<open>hashed_trie E m t\<close>: the arena
  represents \<open>t\<close>, all keys of \<open>t\<close> have 64 nibbles and nothing is left unresolved.
\<close>

definition hashed_trie :: "ext \<Rightarrow> mpt \<Rightarrow> ptree \<Rightarrow> bool" where
  "hashed_trie E m t \<longleftrightarrow> repr_tree E m t \<and> keylen 64 t \<and> resolved t"

lemma hashed_new [simp]: "hashed_trie E new PNull"
  by (simp add: hashed_trie_def)

lemma hashed_get:
  assumes "hashed_trie E m t"
  shows "\<exists>r. get m key = Ok r"
  using assms pt_get_resolved [of t "to_nibs key"] get_repr [of E m t key] repr_canon [of E m t]
  by (auto simp: hashed_trie_def)

lemma hashed_insert:
  assumes "hashed_trie E m t" "length key = 32" "capacity_left m"
  shows "\<exists>b m' t'. insert_mpt key v m = (Ok b, m') \<and> pt_insert t (to_nibs key) v = Ok (b, t')
    \<and> hashed_trie E m' t' \<and> (\<not> b \<longrightarrow> m' = m) \<and> length (nodes m') \<le> length (nodes m) + 3"
proof -
  have t: "repr_tree E m t" "keylen 64 t" "resolved t" "canon_top t" "length (to_nibs key) = 64"
    using assms repr_canon by (auto simp: hashed_trie_def)
  note kl = pt_insert_keylen [OF t(4) nibbles_to_nibs t(2) t(5), of v]
  note rs = pt_insert_resolved [OF t(4,3) nibbles_to_nibs, of key v]
  have "\<not> (\<exists>e. pt_insert t (to_nibs key) v = Err e)"
    using pt_insert_total [OF t(4) nibbles_to_nibs, of key v] kl(1) rs(1) by auto
  with insert_nibbles_repr [OF t(1) nibbles_to_nibs assms(3), of key v] kl(2) rs(2) show ?thesis
    by (fastforce simp: insert_mpt_nibbles hashed_trie_def)
qed

lemma hashed_delete:
  assumes "hashed_trie E m t" "length key = 32"
  shows "\<exists>b m' t'. delete key m = (Ok b, m') \<and> pt_delete t (to_nibs key) = Ok (b, t')
    \<and> hashed_trie E m' t' \<and> (\<not> b \<longrightarrow> m' = m) \<and> length (nodes m') = length (nodes m)"
proof -
  have t: "repr_tree E m t" "keylen 64 t" "resolved t" "canon_top t" "length (to_nibs key) = 64"
    using assms repr_canon by (auto simp: hashed_trie_def)
  note kl = pt_delete_keylen [OF t(4) nibbles_to_nibs t(2) t(5)]
  note rs = pt_delete_resolved [OF t(4,3) nibbles_to_nibs, of key]
  have "\<not> (\<exists>e. pt_delete t (to_nibs key) = Err e)"
    using pt_delete_total [OF t(4) nibbles_to_nibs, of key] kl(1) rs(1) by auto
  with delete_nibbles_repr [OF t(1) nibbles_to_nibs, of key] kl(2) rs(2) show ?thesis
    by (fastforce simp: delete_as_nibbles hashed_trie_def)
qed

text \<open>Two such tries with the same 32-byte entries are the same tree.\<close>

lemma hashed_unique:
  assumes "hashed_trie E m t" "hashed_trie E' m' t'" "\<forall>key. length key = 32 \<longrightarrow> get m key = get m' key"
  shows "t = t'"
proof (rule canon_unique)
  show "canon_top t" "canon_top t'"
    using assms repr_canon by (auto simp: hashed_trie_def)
  show "pt_same t t'"
    unfolding pt_same_def
  proof (intro allI impI)
    fix k assume k: "nibbles k"
    show "pt_get t k = pt_get t' k"
    proof (cases "length k = 64")
      case True
      then have "to_nibs (pack_pairs k) = k" "length (pack_pairs k) = 32" using k by (simp_all add: to_nibs_pack_pairs)
      with assms get_repr show ?thesis by (metis hashed_trie_def)
    next
      case False
      with k assms pt_get_keylen [of t 64 k] pt_get_keylen [of t' 64 k] repr_canon show ?thesis
        by (auto simp: hashed_trie_def)
    qed
  qed
qed

section \<open>The trie as an authenticated map\<close>

definition valid_trie :: "ext \<Rightarrow> mpt \<Rightarrow> bool" where
  "valid_trie E m \<longleftrightarrow> (\<exists>t. hashed_trie E m t)"

definition trie_room :: "nat \<Rightarrow> mpt \<Rightarrow> bool" where
  "trie_room n m \<longleftrightarrow> length (nodes m) + 3 * n \<le> 2 ^ 32"

definition trie_lookup :: "mpt \<Rightarrow> bytes \<Rightarrow> bytes option" where
  "trie_lookup m key = (case get m key of Ok r \<Rightarrow> r | _ \<Rightarrow> None)"

definition key32 :: "bytes \<Rightarrow> bool" where
  "key32 key \<longleftrightarrow> length key = 32"

lemma trie_room_capacity: "trie_room (Suc n) m \<Longrightarrow> capacity_left m"
  by (simp add: trie_room_def capacity_left_def)

lemma lookup_hashed:
  "hashed_trie E m t \<Longrightarrow> get m key = Ok (trie_lookup m key) \<and> pt_get t (to_nibs key) = Ok (trie_lookup m key)"
  using hashed_get [of E m t key] get_repr [of E m t key] by (auto simp: trie_lookup_def hashed_trie_def)

lemma insert_lookup:
  assumes "valid_trie E m" "trie_room (Suc n) m" "key32 key"
  shows "\<exists>b m'. insert_mpt key v m = (Ok b, m') \<and> valid_trie E m' \<and> trie_room n m'
    \<and> (\<forall>k. trie_lookup m' k = ((trie_lookup m)(key := Some v)) k)"
proof -
  obtain t where t: "hashed_trie E m t" using assms(1) by (auto simp: valid_trie_def)
  then have can: "canon_top t" using repr_canon by (auto simp: hashed_trie_def)
  obtain b m' t' where r: "insert_mpt key v m = (Ok b, m')" "pt_insert t (to_nibs key) v = Ok (b, t')"
    "hashed_trie E m' t'" "length (nodes m') \<le> length (nodes m) + 3"
    using hashed_insert [OF t _ trie_room_capacity [OF assms(2)]] assms(3) unfolding key32_def by blast
  have "trie_lookup m' k = ((trie_lookup m)(key := Some v)) k" for k
    using pt_insert_get [OF can nibbles_to_nibs nibbles_to_nibs r(2), of k]
      lookup_hashed [OF r(3), of k] lookup_hashed [OF t, of k] by (auto split: if_splits)
  with r assms(2) show ?thesis by (auto simp: valid_trie_def trie_room_def)
qed

lemma delete_lookup:
  assumes "valid_trie E m" "key32 key"
  shows "\<exists>b m'. delete key m = (Ok b, m') \<and> valid_trie E m' \<and> length (nodes m') = length (nodes m)
    \<and> (\<forall>k. trie_lookup m' k = ((trie_lookup m)(key := None)) k)"
proof -
  obtain t where t: "hashed_trie E m t" using assms(1) by (auto simp: valid_trie_def)
  then have can: "canon_top t" using repr_canon by (auto simp: hashed_trie_def)
  obtain b m' t' where r: "delete key m = (Ok b, m')" "pt_delete t (to_nibs key) = Ok (b, t')"
    "hashed_trie E m' t'" "length (nodes m') = length (nodes m)"
    using hashed_delete [OF t] assms(2) unfolding key32_def by blast
  have "trie_lookup m' k = ((trie_lookup m)(key := None)) k" for k
    using pt_delete_get [OF can nibbles_to_nibs nibbles_to_nibs r(2), of k]
      lookup_hashed [OF r(3), of k] lookup_hashed [OF t, of k] by (auto split: if_splits)
  with r show ?thesis by (auto simp: valid_trie_def)
qed

context rlp_laws
begin

lemma hash_lookup:
  assumes "valid_trie E m"
  shows "\<exists>h m'. hash E m = (Ok h, m') \<and> valid_trie E m' \<and> nodes m' = nodes m
    \<and> (\<forall>k. trie_lookup m' k = trie_lookup m k)"
proof -
  obtain t where t: "hashed_trie E m t" using assms by (auto simp: valid_trie_def)
  then obtain m' where m': "hash E m = (Ok (root_hash E t), m')" "repr_tree E m' t" "nodes m' = nodes m"
    using hash_repr by (auto simp: hashed_trie_def)
  then have t': "hashed_trie E m' t" using t by (simp add: hashed_trie_def)
  have "trie_lookup m' k = trie_lookup m k" for k
    using lookup_hashed [OF t, of k] lookup_hashed [OF t', of k] by simp
  with m' t' show ?thesis by (auto simp: valid_trie_def)
qed

lemma hash_determined:
  assumes "valid_trie E m" "valid_trie E m'" "\<forall>k. key32 k \<longrightarrow> trie_lookup m k = trie_lookup m' k"
  shows "fst (hash E m) = fst (hash E m')"
proof -
  obtain t t' where t: "hashed_trie E m t" "hashed_trie E m' t'" using assms by (auto simp: valid_trie_def)
  have "get m key = get m' key" if "length key = 32" for key
    using lookup_hashed [OF t(1), of key] lookup_hashed [OF t(2), of key] assms(3) that by (simp add: key32_def)
  then have "t = t'" using hashed_unique [OF t] by blast
  with t hash_repr [of m t] hash_repr [of m' t'] show ?thesis by (auto simp: hashed_trie_def)
qed

sublocale trie: auth_map "valid_trie E" trie_room key32 trie_lookup insert_mpt delete "hash E"
proof
  show "\<exists>b s'. insert_mpt k v s = (Ok b, s') \<and> valid_trie E s' \<and> trie_room n s'
      \<and> (\<forall>k'. key32 k' \<longrightarrow> trie_lookup s' k' = ((trie_lookup s)(k := Some v)) k')"
    if "valid_trie E s" "trie_room (Suc n) s" "key32 k" for s n k v
    using insert_lookup [OF that, of v] by blast
  show "\<exists>b s'. delete k s = (Ok b, s') \<and> valid_trie E s' \<and> trie_room n s'
      \<and> (\<forall>k'. key32 k' \<longrightarrow> trie_lookup s' k' = ((trie_lookup s)(k := None)) k')"
    if "valid_trie E s" "trie_room (Suc n) s" "key32 k" for s n k
    using delete_lookup [OF that(1,3)] that(2) by (fastforce simp: trie_room_def)
  show "\<exists>h s'. hash E s = (Ok h, s') \<and> valid_trie E s' \<and> (\<forall>n. trie_room n s \<longrightarrow> trie_room n s')
      \<and> (\<forall>k. key32 k \<longrightarrow> trie_lookup s' k = trie_lookup s k)"
    if "valid_trie E s" for s
    using hash_lookup [OF that] by (fastforce simp: trie_room_def)
qed (rule hash_determined)

end

end
