(* ===== verification/Trie_Properties.thy ===== *)
theory Trie_Properties
  imports Trie_Laws
begin

text \<open>
  The correctness statements of the arena trie: refinement of the abstract Patricia trie, the laws
  of a finite map, the root hash, and the invariant along every sequence of calls.
\<close>

section \<open>Sequences of calls\<close>

text \<open>
  One call of the public interface, whatever its result; a caller can also clone the trie or drop
  it, which changes nothing here. \<open>mpt_reach E\<close> are the arenas a program can produce from a new
  trie.
\<close>

inductive mpt_call :: "ext \<Rightarrow> mpt \<Rightarrow> mpt \<Rightarrow> bool" for E :: ext where
  call_insert: "capacity_left m \<Longrightarrow> mpt_call E m (snd (insert_mpt key val m))"
| call_delete: "mpt_call E m (snd (delete key m))"
| call_hash: "mpt_call E m (snd (hash E m))"
| call_addressed: "mpt_call E m (snd (root_is_hash_addressed E m))"
| call_reserve: "mpt_call E m (reserve additional m)"

inductive mpt_reach :: "ext \<Rightarrow> mpt \<Rightarrow> bool" for E :: ext where
  reach_new: "mpt_reach E (with_capacity n)"
| reach_call: "mpt_reach E m \<Longrightarrow> mpt_call E m m' \<Longrightarrow> mpt_reach E m'"

context rlp_laws
begin

lemma call_inv:
  assumes "mpt_inv E m" "mpt_call E m m'"
  shows "mpt_inv E m'"
proof -
  obtain t where t: "repr_tree E m t" using assms(1) by (auto simp: mpt_inv_def)
  show ?thesis
    using assms(2)
  proof (cases rule: mpt_call.cases)
    case (call_insert key val)
    with insert_nibbles_repr [OF t nibbles_to_nibs, of key val] t show ?thesis
      by (auto simp: mpt_inv_def insert_mpt_nibbles)
  next
    case (call_delete key)
    with delete_nibbles_repr [OF t nibbles_to_nibs, of key] t show ?thesis
      by (auto simp: mpt_inv_def delete_as_nibbles)
  next
    case call_hash
    with hash_repr [OF t] show ?thesis by (auto simp: mpt_inv_def)
  next
    case call_addressed
    with root_is_hash_addressed_repr [OF t] show ?thesis by (auto simp: mpt_inv_def)
  next
    case (call_reserve additional)
    with t show ?thesis by (auto simp: mpt_inv_def reserve_def)
  qed
qed

lemma reach_inv: "mpt_reach E m \<Longrightarrow> mpt_inv E m"
proof (induction rule: mpt_reach.induct)
  case (reach_new n)
  show ?case unfolding mpt_inv_def using repr_with_capacity by blast
qed (rule call_inv)

lemma trie_updates_order:
  assumes "valid_trie E s" "trie_room (length us) s" "list_all (\<lambda>u. key32 (fst u)) us"
    and "distinct (map fst us)" "distinct (map fst vs)" "set vs = set us"
  shows "fst (hash E (snd (apply_updates insert_mpt delete us s))) =
    fst (hash E (snd (apply_updates insert_mpt delete vs s)))"
  using assms by (rule trie.updates_order_irrelevant)

lemma insert_delete_root:
  assumes v: "valid_trie E m" and r: "trie_room 2 m" and k: "key32 key" and g: "get m key = Ok None"
    and i: "insert_mpt key val m = (Ok b, m1)" and d: "delete key m1 = (Ok b', m2)"
  shows "fst (hash E m2) = fst (hash E m)"
proof (rule hash_determined)
  have r': "trie_room (Suc 1) m" using r by (simp add: numeral_2_eq_2)
  obtain b0 m' where m': "insert_mpt key val m = (Ok b0, m')" "valid_trie E m'"
    "\<forall>k. trie_lookup m' k = ((trie_lookup m)(key := Some val)) k"
    using insert_lookup [OF v r' k] by blast
  then have "m' = m1" using i by simp
  with delete_lookup [OF m'(2) k] d show m2: "valid_trie E m2" by auto
  show "valid_trie E m" by (fact v)
  have "trie_lookup m key = None" using g by (simp add: trie_lookup_def)
  with delete_lookup [OF m'(2) k] d m' \<open>m' = m1\<close>
  show "\<forall>k. key32 k \<longrightarrow> trie_lookup m2 k = trie_lookup m k" by auto
qed

end

section \<open>Example tries\<close>

text \<open>Two small tries on which the properties are instantiated.\<close>

definition ex_leaf :: mpt where
  "ex_leaf = snd (insert_nibbles [1, 2, 3, 4] [9] new)"

definition ex_key :: "byte \<Rightarrow> bytes" where
  "ex_key b = replicate 32 b"

definition ex_state :: mpt where
  "ex_state = snd (insert_mpt (ex_key 0x12) [8] (snd (insert_mpt (ex_key 0x11) [7] new)))"

lemma capacity_new [simp]: "capacity_left new"
  by (simp add: capacity_left_def new_def with_capacity_def)

lemma room_new: "n \<le> 1000 \<Longrightarrow> trie_room n new"
  by (simp add: trie_room_def new_def with_capacity_def)

lemma valid_new [simp]: "valid_trie E new"
  unfolding valid_trie_def using hashed_new by blast

lemma repr_ex_leaf: "repr_tree E ex_leaf (PLeaf [1, 2, 3, 4] [9])" "capacity_left ex_leaf"
proof -
  have n: "nibbles [1, 2, 3, 4]" by simp
  from insert_nibbles_repr [OF repr_new [of E] n capacity_new, of "[9]"]
  show "repr_tree E ex_leaf (PLeaf [1, 2, 3, 4] [9])" "capacity_left ex_leaf"
    by (auto simp: ex_leaf_def capacity_left_def new_def with_capacity_def)
qed

lemma valid_insert:
  assumes "valid_trie E m" "trie_room (Suc n) m" "key32 k"
  shows "valid_trie E (snd (insert_mpt k v m))" "trie_room n (snd (insert_mpt k v m))"
  using insert_lookup [OF assms, of v] by auto

lemma key32_ex_key [simp]: "key32 (ex_key b)"
  by (simp add: key32_def ex_key_def)

lemma ex_key_eq [simp]: "ex_key a = ex_key b \<longleftrightarrow> a = b"
  by (simp add: ex_key_def)

lemma valid_ex_state: "valid_trie E ex_state" "trie_room 5 ex_state"
proof -
  have r: "trie_room (Suc (Suc 5)) new" by (rule room_new) simp
  note a = valid_insert [OF valid_new [of E] r key32_ex_key [of "0x11"], of "[7]"]
  from valid_insert [OF a(1) a(2) key32_ex_key [of "0x12"], of "[8]"]
  show "valid_trie E ex_state" "trie_room 5 ex_state" by (simp_all add: ex_state_def)
qed

lemma valid_inv: "valid_trie E m \<Longrightarrow> mpt_inv E m"
  by (auto simp: valid_trie_def mpt_inv_def hashed_trie_def)

lemma room_capacity: "trie_room 1 m \<Longrightarrow> capacity_left m"
  using trie_room_capacity [of 0 m] by simp

lemma room_mono: "trie_room n m \<Longrightarrow> k \<le> n \<Longrightarrow> trie_room k m"
  by (simp add: trie_room_def)

lemma get_ex_state: "get ex_state (ex_key 0x11) = Ok (Some [7])" "get ex_state (ex_key 0x33) = Ok None"
  by code_simp+

section \<open>Properties\<close>

text \<open>
  C10: reading refines the abstract trie. On every well-formed arena and nibble key, \<open>get_nibbles\<close>
  and \<open>get\<close> return what the abstract lookup returns, errors for unresolved nodes included, and
  never run out of the recursion bound.
\<close>

theorem get_refines:
  assumes "repr_tree E m t" "nibbles k"
  shows "get_nibbles m k = pt_get t k \<and> get m key = pt_get t (to_nibs key) \<and> \<not> is_panic (get m key)"
  using assms get_nibbles_repr get_repr pt_get_total [OF repr_canon nibbles_to_nibs, of E m t key]
  by fastforce

theorem get_refines_witness:
  "get_nibbles ex_leaf [1, 2, 3, 4] = Ok (Some [9]) \<and> get ex_leaf [0x12, 0x35] = Ok None"
proof -
  have n: "nibbles [1, 2, 3, 4]" by simp
  from get_refines [OF repr_ex_leaf(1) n, of "[0x12, 0x35]"] show ?thesis by simp
qed

text \<open>
  C8: insertion refines the abstract insertion. It returns the abstract result and flag, the new
  arena represents the abstract result (canonical shape, distinct indices, coherent caches), a
  call that reports no update or fails leaves the arena exactly as it was, and no call panics.
\<close>

theorem insert_refines:
  assumes "repr_tree E m t" "nibbles k" "capacity_left m"
  shows "case pt_insert t k v of
      Ok (b, t') \<Rightarrow> (\<exists>m'. insert_nibbles k v m = (Ok b, m') \<and> repr_tree E m' t' \<and> (\<not> b \<longrightarrow> m' = m))
    | Err e \<Rightarrow> insert_nibbles k v m = (Err e, m)
    | Panic p \<Rightarrow> False"
  using insert_nibbles_repr [OF assms, of v] by (auto split: outcome.split)

theorem insert_refines_witness:
  "\<exists>m'. insert_nibbles [1, 2, 5, 6] [7] ex_leaf = (Ok True, m')
     \<and> repr_tree std_ext m' (PExt [1, 2] (PBranch
          (no_children[3 := Some (PLeaf [4] [9]), 5 := Some (PLeaf [6] [7])])))"
proof -
  have n: "nibbles [1, 2, 5, 6]" by simp
  have "pt_insert (PLeaf [1, 2, 3, 4] [9]) [1, 2, 5, 6] [7] =
    Ok (True, PExt [1, 2] (PBranch (no_children[3 := Some (PLeaf [4] [9]), 5 := Some (PLeaf [6] [7])])))"
    by code_simp
  with insert_refines [OF repr_ex_leaf(1) [of std_ext] n repr_ex_leaf(2), of "[7]"] show ?thesis by simp
qed

text \<open>
  C9: deletion refines the abstract deletion, including the collapse of a branch left with one
  child and the merge of an extension with its changed child; failed and ineffective calls change
  nothing and no call panics.
\<close>

theorem delete_refines:
  assumes "repr_tree E m t" "nibbles k"
  shows "case pt_delete t k of
      Ok (b, t') \<Rightarrow> (\<exists>m'. delete_nibbles k m = (Ok b, m') \<and> repr_tree E m' t' \<and> (\<not> b \<longrightarrow> m' = m))
    | Err e \<Rightarrow> delete_nibbles k m = (Err e, m)
    | Panic p \<Rightarrow> False"
  using delete_nibbles_repr [OF assms] by (auto split: outcome.split)

theorem delete_refines_witness:
  "\<exists>m'. delete_nibbles [1, 2, 3, 4] ex_leaf = (Ok True, m') \<and> repr_tree std_ext m' PNull"
proof -
  have n: "nibbles [1, 2, 3, 4]" by simp
  from delete_refines [OF repr_ex_leaf(1) n, of std_ext] show ?thesis by simp
qed

text \<open>
  C11: after a successful insertion the key reads back as the inserted value, every other key reads
  as before, the arena is still well formed, and the returned flag says whether the stored map
  changed.
\<close>

theorem get_after_insert:
  assumes "mpt_inv E m" "capacity_left m" "insert_mpt key val m = (Ok b, m')"
  shows "mpt_inv E m' \<and> get m' key' = (if key' = key then Ok (Some val) else get m key')
    \<and> (b \<longleftrightarrow> get m key \<noteq> Ok (Some val))"
proof -
  obtain t where t: "repr_tree E m t" using assms(1) by (auto simp: mpt_inv_def)
  from insert_nibbles_repr [OF t nibbles_to_nibs assms(2), of key val] assms(3) obtain t' where
    t': "pt_insert t (to_nibs key) val = Ok (b, t')" "repr_tree E m' t'"
    by (auto simp: insert_mpt_nibbles)
  show ?thesis
    using pt_insert_get [OF repr_canon [OF t] nibbles_to_nibs nibbles_to_nibs t'(1), of key']
      pt_insert_updated(1) [OF t'(1)] get_repr [OF t] get_repr [OF t'(2)] t'(2)
    by (auto simp: mpt_inv_def)
qed

theorem get_after_insert_witness:
  "\<exists>b m'. insert_mpt (ex_key 0x33) [1] ex_state = (Ok b, m') \<and> get m' (ex_key 0x33) = Ok (Some [1])
     \<and> get m' (ex_key 0x11) = Ok (Some [7]) \<and> b"
proof -
  have r: "trie_room (Suc 4) ex_state" using valid_ex_state(2) by simp
  then have c: "capacity_left ex_state" using trie_room_capacity by blast
  obtain b m' where i: "insert_mpt (ex_key 0x33) [1] ex_state = (Ok b, m')"
    using insert_lookup [OF valid_ex_state(1) r key32_ex_key] by blast
  note p = get_after_insert [OF valid_inv [OF valid_ex_state(1) [of std_ext]] c i]
  from p [of "ex_key 0x33"] p [of "ex_key 0x11"] i get_ex_state show ?thesis by auto
qed

text \<open>
  C12: after a successful deletion the key is absent, every other key reads as before, the arena is
  still well formed, and the flag says whether the key was present.
\<close>

theorem get_after_delete:
  assumes "mpt_inv E m" "delete key m = (Ok b, m')"
  shows "mpt_inv E m' \<and> get m' key' = (if key' = key then Ok None else get m key')
    \<and> (b \<longleftrightarrow> get m key \<noteq> Ok None)"
proof -
  obtain t where t: "repr_tree E m t" using assms(1) by (auto simp: mpt_inv_def)
  from delete_nibbles_repr [OF t nibbles_to_nibs, of key] assms(2) obtain t' where
    t': "pt_delete t (to_nibs key) = Ok (b, t')" "repr_tree E m' t'"
    by (auto simp: delete_as_nibbles)
  show ?thesis
    using pt_delete_get [OF repr_canon [OF t] nibbles_to_nibs nibbles_to_nibs t'(1), of key']
      pt_delete_updated(1) [OF t'(1)] get_repr [OF t] get_repr [OF t'(2)] t'(2)
    by (auto simp: mpt_inv_def)
qed

theorem get_after_delete_witness:
  "\<exists>b m'. delete (ex_key 0x12) ex_state = (Ok b, m') \<and> get m' (ex_key 0x12) = Ok None
     \<and> get m' (ex_key 0x11) = Ok (Some [7])"
proof -
  obtain b m' where i: "delete (ex_key 0x12) ex_state = (Ok b, m')"
    using delete_lookup [OF valid_ex_state(1) key32_ex_key] by blast
  note p = get_after_delete [OF valid_inv [OF valid_ex_state(1) [of std_ext]] i]
  from p [of "ex_key 0x12"] p [of "ex_key 0x11"] i get_ex_state show ?thesis by auto
qed

text \<open>
  C4: the root hash. On every well-formed arena \<open>hash\<close> returns, through its caches and the shared
  scratch buffer, the Merkle root of the abstract tree recomputed from scratch; it never borrows a
  cell or the buffer twice, keeps the arena well formed, and the digest is the Keccak hash of the
  encoding of the root node.
\<close>

theorem hash_is_merkle_root:
  assumes "rlp_laws E" "repr_tree E m t"
  shows "(\<exists>m'. hash E m = (Ok (root_hash E t), m') \<and> repr_tree E m' t \<and> nodes m' = nodes m)
    \<and> ((\<nexists>d. t = PDigest d) \<longrightarrow> root_hash E t = keccak256 E (tree_rlp E t))"
  using rlp_laws.hash_repr [OF assms] rlp_laws.root_hash_keccak [OF assms(1)] by blast

theorem hash_is_merkle_root_witness:
  "\<exists>m'. hash std_ext ex_leaf = (Ok (keccak256 std_ext (tree_rlp std_ext (PLeaf [1, 2, 3, 4] [9]))), m')"
  using hash_is_merkle_root [OF std.rlp_laws_axioms repr_ex_leaf(1)] by auto

text \<open>
  C15: with 32-byte keys on a resolved trie no operation can fail. Reads, insertions, deletions and
  hashing all return \<open>Ok\<close> and the trie stays in that class: neither a branch value, nor an
  unresolved node, nor a panic can occur in the state and storage tries.
\<close>

theorem hashed_trie_total:
  assumes "rlp_laws E" "valid_trie E m" "trie_room 1 m" "key32 key"
  shows "(\<exists>r. get m key = Ok r)
    \<and> (\<exists>b m'. insert_mpt key val m = (Ok b, m') \<and> valid_trie E m')
    \<and> (\<exists>b m'. delete key m = (Ok b, m') \<and> valid_trie E m')
    \<and> (\<exists>h m'. hash E m = (Ok h, m') \<and> valid_trie E m')"
proof -
  have "trie_room (Suc 0) m" using assms(3) by simp
  with insert_lookup [OF assms(2) _ assms(4)] delete_lookup [OF assms(2,4)]
    rlp_laws.hash_lookup [OF assms(1,2)] hashed_get assms(2) show ?thesis
    unfolding valid_trie_def by meson
qed

theorem hashed_trie_total_witness:
  "(\<exists>b m'. insert_mpt (ex_key 0x33) [1] ex_state = (Ok b, m') \<and> valid_trie std_ext m')
   \<and> (\<exists>b m'. delete (ex_key 0x33) ex_state = (Ok b, m') \<and> valid_trie std_ext m')"
proof -
  have "trie_room 1 ex_state" using room_mono [OF valid_ex_state(2)] by simp
  from hashed_trie_total [OF std.rlp_laws_axioms valid_ex_state(1) this key32_ex_key] show ?thesis by blast
qed

text \<open>
  C13: the root hash is history independent. Two tries with the same 32-byte entries have the same
  root hash, whatever calls built them, in whatever order and with whatever intermediate hashing.
\<close>

theorem root_history_independent:
  assumes "rlp_laws E" "valid_trie E m" "valid_trie E m'"
    and "\<And>key. length key = 32 \<Longrightarrow> get m key = get m' key"
  shows "fst (hash E m) = fst (hash E m')"
  using rlp_laws.hash_determined [OF assms(1-3)] assms(4) by (simp add: trie_lookup_def key32_def)

theorem root_history_independent_witness:
  "fst (hash std_ext (snd (insert_mpt (ex_key 0x11) [7] new))) =
   fst (hash std_ext (snd (insert_mpt (ex_key 0x11) [7] (snd (insert_mpt (ex_key 0x11) [5] new)))))"
proof -
  have r: "trie_room (Suc (Suc 0)) new" by (rule room_new) simp
  then have r1: "trie_room (Suc 0) new" using room_mono by blast
  note a = valid_insert [OF valid_new [of std_ext] r key32_ex_key [of "0x11"], of "[5]"]
  note b = valid_insert [OF a(1,2) key32_ex_key [of "0x11"], of "[7]"]
  note c = valid_insert [OF valid_new [of std_ext] r1 key32_ex_key [of "0x11"], of "[7]"]
  have "snd (insert_mpt (ex_key 0x11) [7] (snd (insert_mpt (ex_key 0x11) [5] new)))
      = snd (insert_mpt (ex_key 0x11) [7] new)" by code_simp
  then show ?thesis by (intro root_history_independent [OF std.rlp_laws_axioms c(1) b(1)]) simp
qed

text \<open>
  C16: deleting a key that was just inserted restores the root hash, although the arena keeps the
  nodes the insertion created.
\<close>

theorem delete_undoes_insert:
  assumes "rlp_laws E" "valid_trie E m" "trie_room 2 m" "key32 key" "get m key = Ok None"
    and "insert_mpt key val m = (Ok b, m1)" "delete key m1 = (Ok b', m2)"
  shows "fst (hash E m2) = fst (hash E m)"
  using rlp_laws.insert_delete_root [OF assms] .

theorem delete_undoes_insert_witness:
  "\<exists>b m1 b' m2. insert_mpt (ex_key 0x33) [1] ex_state = (Ok b, m1) \<and> delete (ex_key 0x33) m1 = (Ok b', m2)
     \<and> fst (hash std_ext m2) = fst (hash std_ext ex_state)"
proof -
  have r: "trie_room 2 ex_state" "trie_room (Suc 0) ex_state" using room_mono [OF valid_ex_state(2)] by simp_all
  obtain b m1 where i: "insert_mpt (ex_key 0x33) [1] ex_state = (Ok b, m1)" "valid_trie std_ext m1"
    using insert_lookup [OF valid_ex_state(1) r(2) key32_ex_key] by blast
  obtain b' m2 where d: "delete (ex_key 0x33) m1 = (Ok b', m2)"
    using delete_lookup [OF i(2) key32_ex_key] by blast
  from delete_undoes_insert [OF std.rlp_laws_axioms valid_ex_state(1) r(1) key32_ex_key get_ex_state(2) i(1) d] i d
  show ?thesis by blast
qed

text \<open>
  C14: a batch of insertions and deletions with distinct keys gives one root hash in every order,
  so the iteration order of the hash maps that drive the updates does not matter.
\<close>

theorem update_order_irrelevant:
  assumes "rlp_laws E" "valid_trie E m" "trie_room (length us) m"
    and "list_all (\<lambda>u. key32 (fst u)) us" "distinct (map fst us)" "distinct (map fst vs)" "set vs = set us"
  shows "fst (hash E (snd (apply_updates insert_mpt delete us m))) =
    fst (hash E (snd (apply_updates insert_mpt delete vs m)))"
  using rlp_laws.trie_updates_order [OF assms] .

theorem update_order_irrelevant_witness:
  "fst (hash std_ext (snd (apply_updates insert_mpt delete
      [(ex_key 0x33, Some [1]), (ex_key 0x11, None)] ex_state))) =
   fst (hash std_ext (snd (apply_updates insert_mpt delete
      [(ex_key 0x11, None), (ex_key 0x33, Some [1])] ex_state)))"
proof -
  have "trie_room (length [(ex_key 0x33, Some [1 :: byte]), (ex_key 0x11, None)]) ex_state"
    using room_mono [OF valid_ex_state(2)] by simp
  from update_order_irrelevant [OF std.rlp_laws_axioms valid_ex_state(1) this _ _ _,
      of "[(ex_key 0x11, None), (ex_key 0x33, Some [1])]"]
  show ?thesis by (simp add: insert_commute del: apply_updates.simps)
qed

text \<open>
  C17: the invariant along all runs. Every arena reachable from a new trie by any sequence of
  insertions, deletions and hash computations, failing calls included, is well formed.
\<close>

theorem reachable_well_formed:
  assumes "rlp_laws E" "mpt_reach E m"
  shows "mpt_inv E m"
  using rlp_laws.reach_inv [OF assms] .

theorem reachable_well_formed_witness:
  "mpt_inv std_ext (snd (hash std_ext (snd (insert_mpt [1, 2] [3] (with_capacity 1)))))"
proof -
  have "capacity_left (with_capacity 1)" by (simp add: capacity_left_def with_capacity_def)
  then have "mpt_reach std_ext (snd (hash std_ext (snd (insert_mpt [1, 2] [3] (with_capacity 1)))))"
    by (intro reach_call [OF reach_call [OF reach_new call_insert] call_hash])
  from reachable_well_formed [OF std.rlp_laws_axioms this] show ?thesis .
qed

end
