(* ===== verification/Mpt_Codec.thy ===== *)
theory Mpt_Codec
  imports Mpt_Hash
begin

text \<open>
  Model of the witness format of \<^verbatim>\<open>crates/mpt/src/trie.rs\<close>: \<^verbatim>\<open>encode_trie\<close> writes the nodes of a
  trie in preorder, each RLP encoding padded to a multiple of four bytes, and \<^verbatim>\<open>decode_trie\<close> reads
  them back, checking every node against the reference its parent holds.

  The decoder threads the rest of the input. \<^verbatim>\<open>advance_unchecked\<close> slices the buffer, which panics
  when it is too short. The recursion of the decoder is bounded by fuel; a level consumes at least
  one byte, so the length of the input is enough. The hash computation inside the encoder gets the
  fuel \<open>hash_fuel\<close> of its arena.
\<close>

definition MIN_ALIGN :: nat where
  "MIN_ALIGN = 4"

definition padding_len :: "nat \<Rightarrow> nat" where
  "padding_len rlp_length = (MIN_ALIGN - rlp_length mod MIN_ALIGN) mod MIN_ALIGN"

section \<open>Encoding\<close>

primrec encode_children ::
  "(node_id \<Rightarrow> bytes \<Rightarrow> mpt \<Rightarrow> (mpt_error, bytes) outcome \<times> mpt) \<Rightarrow>
   node_id option list \<Rightarrow> bytes \<Rightarrow> mpt \<Rightarrow> (mpt_error, bytes) outcome \<times> mpt" where
  "encode_children enc [] out m = (Ok out, m)"
| "encode_children enc (c # cs) out m =
     and_then (case c of Some child_id \<Rightarrow> enc child_id out m | None \<Rightarrow> (Ok out, m)) (\<lambda>out m.
       encode_children enc cs out m)"

primrec encode_trie_internal ::
  "nat \<Rightarrow> ext \<Rightarrow> node_id \<Rightarrow> bytes \<Rightarrow> mpt \<Rightarrow> (mpt_error, bytes) outcome \<times> mpt" where
  "encode_trie_internal 0 E i out m = (Panic StackOverflow, m)"
| "encode_trie_internal (Suc fuel) E i out m =
     and_then (payload_length E (calc_reference (hash_fuel m) E) i m) (\<lambda>payload_len m.
     and_then (encode_with_payload_len E (calc_reference (hash_fuel m) E) i payload_len out m) (\<lambda>out m.
       let rlp_length = payload_len + length_of_length E payload_len;
           out = out @ replicate (padding_len rlp_length) 0
       in case node_at m i of
            None \<Rightarrow> (Panic IndexOutOfBounds, m)
          | Some (Branch childs) \<Rightarrow> encode_children (encode_trie_internal fuel E) childs out m
          | Some (Extension _ ext_id) \<Rightarrow> encode_trie_internal fuel E ext_id out m
          | Some _ \<Rightarrow> (Ok out, m)))"

definition encode_trie :: "ext \<Rightarrow> mpt \<Rightarrow> (mpt_error, bytes) outcome \<times> mpt" where
  "encode_trie E m = encode_trie_internal (hash_fuel m) E (root_id m) [] m"

definition encoded_subtrie :: "ext \<Rightarrow> node_id \<Rightarrow> mpt \<Rightarrow> (mpt_error, bytes) outcome \<times> mpt" where
  "encoded_subtrie E i m = encode_trie_internal (hash_fuel m) E i [] m"

primrec sum_children ::
  "(node_id \<Rightarrow> mpt \<Rightarrow> (mpt_error, nat) outcome) \<Rightarrow> node_id option list \<Rightarrow> mpt \<Rightarrow> (mpt_error, nat) outcome" where
  "sum_children f [] m = Ok 0"
| "sum_children f (c # cs) m =
     (case c of
        None \<Rightarrow> sum_children f cs m
      | Some i \<Rightarrow>
          (case f i m of
             Ok a \<Rightarrow> (case sum_children f cs m of Ok b \<Rightarrow> Ok (a + b) | Err e \<Rightarrow> Err e | Panic p \<Rightarrow> Panic p)
           | Err e \<Rightarrow> Err e
           | Panic p \<Rightarrow> Panic p))"

primrec subtree_num_nodes_internal :: "nat \<Rightarrow> node_id \<Rightarrow> mpt \<Rightarrow> (mpt_error, nat) outcome" where
  "subtree_num_nodes_internal 0 i m = Panic StackOverflow"
| "subtree_num_nodes_internal (Suc fuel) i m =
     (case node_at m i of
        None \<Rightarrow> Panic IndexOutOfBounds
      | Some (Branch cs) \<Rightarrow>
          (case sum_children (subtree_num_nodes_internal fuel) cs m of
             Ok n \<Rightarrow> Ok (1 + n) | Err e \<Rightarrow> Err e | Panic p \<Rightarrow> Panic p)
      | Some (Extension _ c) \<Rightarrow>
          (case subtree_num_nodes_internal fuel c m of
             Ok n \<Rightarrow> Ok (1 + n) | Err e \<Rightarrow> Err e | Panic p \<Rightarrow> Panic p)
      | Some _ \<Rightarrow> Ok 1)"

definition subtree_num_nodes :: "node_id \<Rightarrow> mpt \<Rightarrow> (mpt_error, nat) outcome" where
  "subtree_num_nodes i m = subtree_num_nodes_internal (hash_fuel m) i m"

section \<open>Decoding\<close>

definition advance_unchecked :: "bytes \<Rightarrow> nat \<Rightarrow> (mpt_error, bytes \<times> bytes) outcome" where
  "advance_unchecked buf cnt =
     (if cnt \<le> length buf then Ok (take cnt buf, drop cnt buf) else Panic IndexOutOfBounds)"

text \<open>
  \<^verbatim>\<open>Header::decode\<close> and the \<^verbatim>\<open>advance_unchecked\<close> over the payload that always follows it: the
  list flag, the payload, the whole item (header included) and the rest of the buffer.
\<close>

definition decode_item ::
  "ext \<Rightarrow> bytes \<Rightarrow> (mpt_error, bool \<times> bytes \<times> bytes \<times> bytes) outcome" where
  "decode_item E buf =
     (case header_decode E buf of
        Inl e \<Rightarrow> Err (RlpError e)
      | Inr ((list, n), rest) \<Rightarrow>
          (case advance_unchecked rest n of
             Ok (payload, rest) \<Rightarrow> Ok (list, payload, take (length buf - length rest) buf, rest)
           | Err e \<Rightarrow> Err e
           | Panic p \<Rightarrow> Panic p))"

text \<open>The reference of the node just read, checked against the parent's.\<close>

definition check_node_ref ::
  "ext \<Rightarrow> bool \<Rightarrow> bytes \<Rightarrow> bytes \<Rightarrow> node_ref \<Rightarrow> (mpt_error, node_ref) outcome" where
  "check_node_ref E list payload rlp_node expected =
     (if length rlp_node < 32 then
        (if rlp_node \<noteq> as_slice expected then Err NodeRefMismatch else Ok (RefBytes rlp_node))
      else if length payload = 32 \<and> \<not> list then
        (if payload \<noteq> as_slice expected then Err NodeRefMismatch else Ok expected)
      else
        (if keccak256 E rlp_node \<noteq> as_slice expected then Err NodeRefMismatch else Ok expected))"

type_synonym node_decoder =
  "bytes \<Rightarrow> node_ref \<Rightarrow> mpt \<Rightarrow> (mpt_error, node_id \<times> bytes) outcome \<times> mpt"

definition decode_child ::
  "ext \<Rightarrow> node_decoder \<Rightarrow> bytes \<Rightarrow> bytes \<Rightarrow> mpt \<Rightarrow> (mpt_error, node_id option \<times> bytes) outcome \<times> mpt" where
  "decode_child E dec item bs m =
     (let expected = from_rlp_slice item in
      if as_slice expected = NULL_NODE_REF_SLICE E then (Ok (None, bs), m)
      else and_then (dec bs expected m) (\<lambda>(i, bs) m. (Ok (Some i, bs), m)))"

primrec decode_children ::
  "nat \<Rightarrow> ext \<Rightarrow> node_decoder \<Rightarrow> bytes \<Rightarrow> bytes \<Rightarrow> mpt \<Rightarrow>
   (mpt_error, node_id option list \<times> bytes \<times> bytes) outcome \<times> mpt" where
  "decode_children 0 E dec payload bs m = (Ok ([], payload, bs), m)"
| "decode_children (Suc n) E dec payload bs m =
     and_then (decode_item E payload, m) (\<lambda>(_, _, item, payload) m.
     and_then (decode_child E dec item bs m) (\<lambda>(child, bs) m.
     and_then (decode_children n E dec payload bs m) (\<lambda>(childs, payload, bs) m.
       (Ok (child # childs, payload, bs), m))))"

definition decode_branch ::
  "ext \<Rightarrow> node_decoder \<Rightarrow> bytes \<Rightarrow> bytes \<Rightarrow> bytes \<Rightarrow> bytes \<Rightarrow> node_ref \<Rightarrow> mpt \<Rightarrow>
   (mpt_error, node_id \<times> bytes) outcome \<times> mpt" where
  "decode_branch E dec item0 item1 payload bs node_ref m =
     and_then (decode_child E dec item0 bs m) (\<lambda>(child0, bs) m.
     and_then (decode_child E dec item1 bs m) (\<lambda>(child1, bs) m.
     and_then (decode_children 14 E dec payload bs m) (\<lambda>(childs, payload, bs) m.
       if payload \<noteq> NULL_NODE_REF_SLICE E then (Err ValueInBranch, m)
       else
         (case add_node (Branch (child0 # child1 # childs)) (Some node_ref) m of
            (i, m) \<Rightarrow> (Ok (i, bs), m)))))"

primrec decode_trie_internal :: "nat \<Rightarrow> ext \<Rightarrow> node_decoder" where
  "decode_trie_internal 0 E bs expected m = (Panic StackOverflow, m)"
| "decode_trie_internal (Suc fuel) E bs expected m =
     and_then (decode_item E bs, m) (\<lambda>(list, payload, rlp_node, bs) m.
     and_then (advance_unchecked bs (padding_len (length rlp_node)), m) (\<lambda>(_, bs) m.
     and_then (check_node_ref E list payload rlp_node expected, m) (\<lambda>node_ref m.
       if \<not> list then
         (if length payload = 0 then (Ok (NULL_NODE_ID, bs), m)
          else if length payload = 32 then
            (case add_node (Digest payload) (Some (RefDigest payload)) m of (i, m) \<Rightarrow> (Ok (i, bs), m))
          else (Err (RlpError UnexpectedLength), m))
       else
         and_then (decode_item E payload, m) (\<lambda>(_, item0_payload, item0, payload) m.
         and_then (decode_item E payload, m) (\<lambda>(_, item1_payload, item1, payload) m.
           if payload = [] then
             (case item0_payload of
                [] \<Rightarrow> (Panic IndexOutOfBounds, m)
              | flag # _ \<Rightarrow>
                  (if flag AND 0x20 = 0 then
                     and_then (decode_trie_internal fuel E bs (from_rlp_slice item1) m) (\<lambda>(c, bs) m.
                       case add_node (Extension item0_payload c) (Some node_ref) m of
                         (i, m) \<Rightarrow> (Ok (i, bs), m))
                   else
                     (case add_node (Leaf item0_payload item1_payload) (Some node_ref) m of
                        (i, m) \<Rightarrow> (Ok (i, bs), m))))
           else decode_branch E (decode_trie_internal fuel E) item0 item1 payload bs node_ref m)))))"

text \<open>The root is checked against the reference computed from its own bytes.\<close>

definition root_ref :: "ext \<Rightarrow> bytes \<Rightarrow> (mpt_error, node_ref) outcome" where
  "root_ref E bs =
     (case decode_item E bs of
        Ok (list, payload, rlp_node, _) \<Rightarrow>
          Ok (if length rlp_node < 32 then RefBytes rlp_node
              else if \<not> list then RefDigest payload
              else RefDigest (keccak256 E rlp_node))
      | Err e \<Rightarrow> Err e
      | Panic p \<Rightarrow> Panic p)"

definition decode_trie ::
  "ext \<Rightarrow> bytes \<Rightarrow> nat \<Rightarrow> (mpt_error, mpt \<times> bytes) outcome" where
  "decode_trie E bs n_nodes =
     (if bs = [EMPTY_STRING_CODE E, 0, 0, 0] then Ok (new, bs)
      else
        (let capacity = n_nodes + n_nodes div 2; trie = with_capacity capacity in
         case root_ref E bs of
           Ok r \<Rightarrow>
             (case decode_trie_internal (Suc (length bs)) E bs r trie of
                (Ok (i, bs), trie) \<Rightarrow> Ok (trie\<lparr>root_id := i\<rparr>, bs)
              | (Err e, _) \<Rightarrow> Err e
              | (Panic p, _) \<Rightarrow> Panic p)
         | Err e \<Rightarrow> Err e
         | Panic p \<Rightarrow> Panic p))"

end
