(* ===== verification/Codec_Correct.thy ===== *)
theory Codec_Correct
  imports Mpt_Codec Trie_Laws
begin

text \<open>
  The witness format. \<open>tree_stream E t\<close> is the preorder of padded node encodings that a trie
  serialises to; \<open>encode_trie\<close> writes exactly that, and \<open>decode_trie\<close> reads it back into an arena
  that represents the same tree, with every reference cached.
\<close>

section \<open>The stream of a tree\<close>

fun pkids :: "ptree \<Rightarrow> ptree list" where
  "pkids (PBranch cs) = somes cs"
| "pkids (PExt p c) = [c]"
| "pkids _ = []"

lemma size_pkids: "c \<in> set (pkids t) \<Longrightarrow> size c < size t"
proof (cases t)
  case (PBranch cs)
  assume "c \<in> set (pkids t)"
  with PBranch have "size_option size (Some c) \<le> size_list (size_option size) cs"
    by (intro size_list_estimation' [of "Some c"]) auto
  with PBranch show ?thesis by simp
qed auto

lemma pkids_erase: "pkids (erase t) = map erase (akids t)"
  by (cases t) auto

definition pad4 :: "bytes \<Rightarrow> bytes" where
  "pad4 rlp = rlp @ replicate (padding_len (length rlp)) 0"

function tree_stream :: "ext \<Rightarrow> ptree \<Rightarrow> bytes" where
  "tree_stream E t = pad4 (tree_rlp E t) @ concat (map (tree_stream E) (pkids t))"
  by pat_completeness auto
termination
  by (relation "measure (\<lambda>(_, t). size t)") (auto dest: size_pkids)

declare tree_stream.simps [simp del]

lemma tree_stream_code [code]:
  "tree_stream E PNull = pad4 (tree_rlp E PNull)"
  "tree_stream E (PBranch cs) =
     pad4 (tree_rlp E (PBranch cs)) @ concat (map (tree_stream E) (somes cs))"
  "tree_stream E (PLeaf p v) = pad4 (tree_rlp E (PLeaf p v))"
  "tree_stream E (PExt p c) = pad4 (tree_rlp E (PExt p c)) @ tree_stream E c"
  "tree_stream E (PDigest d) = pad4 (tree_rlp E (PDigest d))"
  by (subst tree_stream.simps, simp)+

lemma padding_dvd:
  fixes r :: nat
  assumes "r < 4"
  shows "4 dvd (4 * q + r) + (4 - r) mod 4"
proof (cases "r = 0")
  case False
  then have "(4 - r) mod 4 = 4 - r" by simp
  with assms have "4 * q + r + (4 - r) mod 4 = 4 * (q + 1)" by simp
  then show ?thesis by (metis dvd_triv_left)
qed simp

lemma length_pad4: "4 dvd length (pad4 rlp)"
  using padding_dvd [of "length rlp mod 4" "length rlp div 4"]
  by (simp add: pad4_def padding_len_def MIN_ALIGN_def)

lemma length_tree_stream: "4 dvd length (tree_stream E t)"
proof (induction "size t" arbitrary: t rule: less_induct)
  case less
  have "4 dvd length (concat (map (tree_stream E) cs))" if "set cs \<subseteq> set (pkids t)" for cs
    using that less size_pkids by (induction cs) auto
  then show ?case using length_pad4 by (subst tree_stream.simps) simp
qed

section \<open>Encoding\<close>

context rlp_laws
begin

lemma tree_rlp_length:
  "digests_ok t \<Longrightarrow> length (tree_payload E t) + length_of_length E (length (tree_payload E t)) = length (tree_rlp E t)"
  by (cases t) (simp_all add: length_list_rlp short_header bytes_encode_32)

definition enc_spec :: "(node_id \<Rightarrow> bytes \<Rightarrow> mpt \<Rightarrow> (mpt_error, bytes) outcome \<times> mpt) \<Rightarrow> atree \<Rightarrow> bool" where
  "enc_spec enc t \<longleftrightarrow> (\<forall>m out. holds E m t \<and> \<not> scratch_borrowed m \<longrightarrow>
     (\<exists>m'. enc (aid t) out m = (Ok (out @ tree_stream E (erase t)), m') \<and> holds E m' t
        \<and> cells_changed (set (aids t)) m m'))"

lemma encode_children_spec:
  assumes "\<forall>c \<in> set (somes cs). enc_spec enc c \<and> holds E m c"
    and "distinct (concat (map aids (somes cs)))" and "\<not> scratch_borrowed m"
  shows "\<exists>m'. encode_children enc (map (map_option aid) cs) out m =
      (Ok (out @ concat (map (tree_stream E) (map erase (somes cs)))), m')
    \<and> (\<forall>c \<in> set (somes cs). holds E m' c)
    \<and> cells_changed (\<Union>c \<in> set (somes cs). set (aids c)) m m'"
  using assms
proof (induction cs arbitrary: m out)
  case (Cons c cs)
  show ?case
  proof (cases c)
    case None
    with Cons.prems have "\<forall>c \<in> set (somes cs). enc_spec enc c \<and> holds E m c"
      "distinct (concat (map aids (somes cs)))" by simp_all
    from Cons.IH [OF this Cons.prems(3)] None show ?thesis by auto
  next
    case (Some t)
    have t: "enc_spec enc t" "holds E m t" using Cons.prems Some by simp_all
    then obtain m1 where m1: "enc (aid t) out m = (Ok (out @ tree_stream E (erase t)), m1)"
      "holds E m1 t" "cells_changed (set (aids t)) m m1"
      using Cons.prems(3) unfolding enc_spec_def by blast
    have disj: "set (aids t) \<inter> (\<Union>c \<in> set (somes cs). set (aids c)) = {}"
      using Cons.prems(2) Some by auto
    have rest: "\<forall>c \<in> set (somes cs). enc_spec enc c \<and> holds E m1 c"
    proof
      fix k assume k: "k \<in> set (somes cs)"
      then have "set (aids t) \<inter> set (aids k) = {}" using disj by blast
      then show "enc_spec enc k \<and> holds E m1 k"
        using holds_cells_changed [OF _ m1(3)] Cons.prems(1) Some k by simp
    qed
    have "distinct (concat (map aids (somes cs)))" "\<not> scratch_borrowed m1"
      using Cons.prems(2,3) Some cells_changed_scratch [OF m1(3)] by simp_all
    from Cons.IH [OF rest this, of "out @ tree_stream E (erase t)"] obtain m2 where m2:
      "encode_children enc (map (map_option aid) cs) (out @ tree_stream E (erase t)) m1 =
        (Ok ((out @ tree_stream E (erase t)) @ concat (map (tree_stream E) (map erase (somes cs)))), m2)"
      "\<forall>c \<in> set (somes cs). holds E m2 c"
      "cells_changed (\<Union>c \<in> set (somes cs). set (aids c)) m1 m2" by blast
    have "holds E m2 t" using holds_cells_changed [OF m1(2) m2(3)] disj by blast
    with m1 m2 Some cells_changed_trans [OF m1(3) m2(3)] show ?thesis by auto
  qed
qed simp

lemma encode_trie_internal_spec:
  "distinct (aids t) \<Longrightarrow> length (aids t) \<le> fuel \<Longrightarrow> enc_spec (encode_trie_internal fuel E) t"
proof (induction t arbitrary: fuel rule: atree_induct)
  case (node t)
  obtain f where f: "fuel = Suc f" using node.prems by (cases fuel) auto
  have ih: "enc_spec (encode_trie_internal f E) c" if "c \<in> set (akids t)" for c
    using node.IH [OF that] distinct_kid [OF node.prems(1) that] length_kid_aids [OF that] node.prems(2) f by simp
  show ?case
    unfolding enc_spec_def
  proof (intro allI impI; elim conjE)
    fix m out assume h: "holds E m t" and s: "\<not> scratch_borrowed m"
    have parts: "node_at m (aid t) = Some (node_of t)" "shape_ok t" "cell_ok E m t"
      "\<forall>c \<in> set (akids t). holds E m c" using h holds_rec by blast+
    have "length (aids t) \<le> hash_fuel m"
      using length_aids_le [OF h node.prems(1)] by (simp add: hash_fuel_def)
    then have calc: "\<forall>c \<in> set (akids t). calc_spec E (calc_reference (hash_fuel m) E) c \<and> holds E m c"
      using calc_reference_spec distinct_kid [OF node.prems(1)] length_kid_aids parts(4)
      by (meson le_trans less_imp_le)
    let ?pl = "length (tree_payload E (erase t))"
    obtain m1 where m1: "payload_length E (calc_reference (hash_fuel m) E) (aid t) m = (Ok ?pl, m1)"
      "\<forall>c \<in> set (akids t). holds E m1 c \<and> cached E m1 c"
      "cells_changed (set (aids t) - {aid t}) m m1"
      using payload_length_spec [OF parts(1) calc node.prems(1) s parts(2)] by blast
    have n1: "node_at m1 (aid t) = Some (node_of t)" using parts(1) cells_changed_node [OF m1(3)] by simp
    have h1: "holds E m1 t"
      using m1(2) n1 parts cells_changed_cell [OF m1(3), of "aid t"] holds_rec [of E m1 t]
      by (simp add: cell_ok_def)
    have enc: "encode_with_payload_len E (calc_reference (hash_fuel m1) E) (aid t) ?pl out m1 =
      (Ok (out @ tree_rlp E (erase t)), m1)"
      using encode_with_payload_len_spec [OF n1] m1(2) by blast
    let ?out = "out @ pad4 (tree_rlp E (erase t))"
    have step: "encode_trie_internal fuel E (aid t) out m =
      (case node_of t of
         Branch childs \<Rightarrow> encode_children (encode_trie_internal f E) childs ?out m1
       | Extension _ ext_id \<Rightarrow> encode_trie_internal f E ext_id ?out m1
       | _ \<Rightarrow> (Ok ?out, m1))"
      using m1(1) enc n1 tree_rlp_length [OF holds_digests_ok [OF h]]
      by (simp add: f pad4_def Let_def cong: node_data.case_cong)
    have s1: "\<not> scratch_borrowed m1" using s cells_changed_scratch [OF m1(3)] by simp
    have "\<exists>m'. encode_trie_internal fuel E (aid t) out m =
        (Ok (?out @ concat (map (tree_stream E) (map erase (akids t)))), m')
      \<and> (\<forall>c \<in> set (akids t). holds E m' c) \<and> cells_changed (set (aids t) - {aid t}) m1 m'"
    proof (cases t)
      case (ABranch i cs)
      have "\<forall>c \<in> set (somes cs). enc_spec (encode_trie_internal f E) c \<and> holds E m1 c"
        using ih m1(2) ABranch by simp
      from encode_children_spec [OF this _ s1, of ?out] distinct_kids [OF node.prems(1)] ABranch step
      show ?thesis unfolding aids_kids [OF node.prems(1)] by simp
    next
      case (AExt i p c)
      have "enc_spec (encode_trie_internal f E) c" "holds E m1 c" using ih m1(2) AExt by simp_all
      then obtain m' where "encode_trie_internal f E (aid c) ?out m1 = (Ok (?out @ tree_stream E (erase c)), m')"
        "holds E m' c" "cells_changed (set (aids c)) m1 m'" using s1 unfolding enc_spec_def by blast
      with step AExt show ?thesis
        unfolding aids_kids [OF node.prems(1)] by simp
    qed (use step s1 in simp_all)
    then obtain m' where m': "encode_trie_internal fuel E (aid t) out m =
        (Ok (out @ tree_stream E (erase t)), m')"
      "\<forall>c \<in> set (akids t). holds E m' c" "cells_changed (set (aids t) - {aid t}) m1 m'"
      by (subst (asm) append_assoc) (auto simp: tree_stream.simps [of E "erase t"] pkids_erase)
    have "holds E m' t"
      using m'(2) h1 holds_rec [of E m1 t] holds_rec [of E m' t] cells_changed_node [OF m'(3)]
        cells_changed_cell [OF m'(3), of "aid t"] by (simp add: cell_ok_def)
    moreover have "cells_changed (set (aids t)) m m'" by (rule cells_changed_trans [OF m1(3) m'(3)]) blast
    ultimately show "\<exists>m'. encode_trie_internal fuel E (aid t) out m = (Ok (out @ tree_stream E (erase t)), m')
        \<and> holds E m' t \<and> cells_changed (set (aids t)) m m'" using m'(1) by blast
  qed
qed

lemma encode_trie_repr:
  assumes "repr_tree E m t"
  shows "\<exists>m'. encode_trie E m = (Ok (tree_stream E t), m') \<and> repr_tree E m' t \<and> nodes m' = nodes m"
proof -
  obtain a where a: "rep E m a" "erase a = t" using assms by (auto simp: repr_tree_def)
  note r = repD [OF a(1)]
  have "enc_spec (encode_trie_internal (hash_fuel m) E) a"
    using encode_trie_internal_spec [OF r(2)] rep_fuel [OF a(1)] by blast
  then obtain m' where m': "encode_trie_internal (hash_fuel m) E (aid a) [] m = (Ok ([] @ tree_stream E (erase a)), m')"
    "holds E m' a" "cells_changed (set (aids a)) m m'"
    using r(1,6) unfolding enc_spec_def by blast
  with a r(3) rep_cells_changed [OF a(1) m'(2,3)] show ?thesis
    by (auto simp: encode_trie_def repr_tree_def cells_changed_def)
qed

end

end
