(* ===== verification/Codec_Decode.thy ===== *)
theory Codec_Decode
  imports Codec_Correct
begin

text \<open>
  Decoding a serialised trie. On the stream of a canonical tree the decoder succeeds, consumes
  exactly the stream and builds an arena for the same tree in which the reference of every node is
  cached.
\<close>

declare decode_trie_internal.simps [simp del]

text \<open>What the decoder does with a list node whose reference is checked.\<close>

definition list_node_step ::
  "nat \<Rightarrow> ext \<Rightarrow> bytes \<Rightarrow> node_ref \<Rightarrow> bytes \<Rightarrow> mpt \<Rightarrow> (mpt_error, node_id \<times> bytes) outcome \<times> mpt" where
  "list_node_step fuel E payload node_ref rest m =
     and_then (decode_item E payload, m) (\<lambda>(_, item0_payload, item0, payload) m.
     and_then (decode_item E payload, m) (\<lambda>(_, item1_payload, item1, payload) m.
       if payload = [] then
         (case item0_payload of
            [] \<Rightarrow> (Panic IndexOutOfBounds, m)
          | flag # _ \<Rightarrow>
              (if flag AND 0x20 = 0 then
                 and_then (decode_trie_internal fuel E rest (from_rlp_slice item1) m) (\<lambda>(c, bs) m.
                   case add_node (Extension item0_payload c) (Some node_ref) m of
                     (i, m) \<Rightarrow> (Ok (i, bs), m))
               else
                 (case add_node (Leaf item0_payload item1_payload) (Some node_ref) m of
                    (i, m) \<Rightarrow> (Ok (i, rest), m))))
       else decode_branch E (decode_trie_internal fuel E) item0 item1 payload rest node_ref m))"

lemma decode_step:
  "decode_trie_internal (Suc fuel) E bs expected m =
     and_then (decode_item E bs, m) (\<lambda>(list, payload, rlp_node, bs) m.
     and_then (advance_unchecked bs (padding_len (length rlp_node)), m) (\<lambda>(_, bs) m.
     and_then (check_node_ref E list payload rlp_node expected, m) (\<lambda>node_ref m.
       if \<not> list then
         (if length payload = 0 then (Ok (NULL_NODE_ID, bs), m)
          else if length payload = 32 then
            (case add_node (Digest payload) (Some (RefDigest payload)) m of (i, m) \<Rightarrow> (Ok (i, bs), m))
          else (Err (RlpError UnexpectedLength), m))
       else list_node_step fuel E payload node_ref bs m)))"
  by (simp only: decode_trie_internal.simps(2) list_node_step_def)

section \<open>Single items\<close>

context rlp_laws
begin

lemma decode_item_list:
  "length p < 2 ^ 64 \<Longrightarrow> decode_item E (list_rlp E p @ rest) = Ok (True, p, list_rlp E p, rest)"
  using decode_list_header [of "length p" "p @ rest"]
  by (simp add: decode_item_def list_rlp_def advance_unchecked_def)

lemma decode_item_bytes:
  "length b < 2 ^ 64 \<Longrightarrow> decode_item E (bytes_encode E b @ rest) = Ok (False, b, bytes_encode E b, rest)"
  using decode_bytes [of b rest] by (simp add: decode_item_def advance_unchecked_def)

lemma tree_ref_cases:
  assumes "canon t"
  obtains (digest) d where "tree_ref E t = RefDigest d" "length d = 32"
    "ref_code E (tree_ref E t) = bytes_encode E d"
  | (inline) "is_list_node t" "tree_ref E t = RefBytes (list_rlp E (tree_payload E t))"
    "length (list_rlp E (tree_payload E t)) < 32"
proof (cases "tree_ref E t")
  case (RefDigest d)
  with tree_ref_digest_length [OF canon_digests_ok [OF assms]] show thesis
    by (intro digest [of d]) (simp_all add: bytes_encode_32)
next
  case (RefBytes bs)
  with assms have "is_list_node t" by (cases t) auto
  moreover from this RefBytes have "bs = list_rlp E (tree_payload E t)" "length bs < 32"
    by (auto simp: tree_ref_list tree_rlp_list ref_of_rlp_def split: if_splits)
  ultimately show thesis using RefBytes inline by simp
qed

lemma decode_item_ref:
  assumes "canon t"
  shows "\<exists>l p. decode_item E (ref_code E (tree_ref E t) @ rest) = Ok (l, p, ref_code E (tree_ref E t), rest)"
  using assms
proof (cases rule: tree_ref_cases)
  case (digest d)
  with decode_item_bytes [of d rest] show ?thesis by (intro exI [of _ False] exI [of _ d]) simp
next
  case inline
  then have "length (tree_payload E t) < 2 ^ 64" by (simp add: length_list_rlp)
  with inline decode_item_list show ?thesis
    by (intro exI [of _ True] exI [of _ "tree_payload E t"]) simp
qed

lemma from_rlp_slice_ref:
  assumes "canon t"
  shows "from_rlp_slice (ref_code E (tree_ref E t)) = tree_ref E t"
  using assms
proof (cases rule: tree_ref_cases)
  case (digest d)
  from digest(1,2) show ?thesis by (simp add: from_rlp_slice_def)
qed (auto simp: from_rlp_slice_def)

lemma ref_not_null:
  assumes "canon t"
  shows "as_slice (tree_ref E t) \<noteq> [EMPTY_STRING_CODE E]"
  using assms
proof (cases rule: tree_ref_cases)
  case (digest d)
  then show ?thesis by auto
next
  case inline
  then have "length (tree_payload E t) < 2 ^ 64" by (simp add: length_list_rlp)
  from decode_item_list [OF this, of "[]"] decode_item_bytes [of "[]" "[]"] inline show ?thesis
    by (auto simp: bytes_encode_empty)
qed

section \<open>Decoded children\<close>

definition dec_post :: "mpt \<Rightarrow> mpt \<Rightarrow> atree list \<Rightarrow> bool" where
  "dec_post m m' ts \<longleftrightarrow> (\<forall>a \<in> set ts. holds E m' a \<and> set (aids a) \<subseteq> fresh m m')
     \<and> distinct (concat (map aids ts)) \<and> grown {} m m'"

lemma dec_post_append:
  assumes "dec_post m m1 as" "dec_post m1 m2 bs"
  shows "dec_post m m2 (as @ bs)"
proof -
  have g: "grown {} m m1" "grown {} m1 m2" using assms by (auto simp: dec_post_def)
  have f: "fresh m m1 \<subseteq> fresh m m2" "fresh m1 m2 \<subseteq> fresh m m2" "fresh m m1 \<inter> fresh m1 m2 = {}"
    using fresh_trans [OF g] by (auto simp: fresh_def)
  have "holds E m2 a" if "a \<in> set as" for a
    using holds_grown [OF _ g(2)] assms(1) that by (auto simp: dec_post_def)
  moreover have "set (concat (map aids as)) \<inter> set (concat (map aids bs)) = {}"
    using assms f(3) by (auto simp: dec_post_def) blast
  ultimately show ?thesis
    using assms f(1,2) grown_trans [OF g] unfolding dec_post_def by (auto dest: subset_trans) (meson subsetD)+
qed

lemma dec_post_nil: "length (cached_references m) = length (nodes m) \<Longrightarrow> dec_post m m []"
  by (simp add: dec_post_def grown_refl)

end

function pt_nodes :: "ptree \<Rightarrow> nat" where
  "pt_nodes t = Suc (sum_list (map pt_nodes (pkids t)))"
  by pat_completeness auto
termination
  by (relation "measure size") (auto dest: size_pkids)

declare pt_nodes.simps [simp del]

lemma pt_nodes_code [code]:
  "pt_nodes PNull = 1" "pt_nodes (PBranch cs) = Suc (sum_list (map pt_nodes (somes cs)))"
  "pt_nodes (PLeaf p v) = 1" "pt_nodes (PExt p c) = Suc (pt_nodes c)" "pt_nodes (PDigest d) = 1"
  by (subst pt_nodes.simps, simp)+

definition arena_ok :: "mpt \<Rightarrow> nat \<Rightarrow> bool" where
  "arena_ok m n \<longleftrightarrow> length (cached_references m) = length (nodes m) \<and> length (nodes m) + n \<le> 2 ^ 32"

context rlp_laws
begin

definition dec_spec :: "node_decoder \<Rightarrow> ptree \<Rightarrow> bool" where
  "dec_spec dec t \<longleftrightarrow> (\<forall>m rest. arena_ok m (pt_nodes t) \<longrightarrow>
     (\<exists>m' a. dec (tree_stream E t @ rest) (tree_ref E t) m = (Ok (aid a, rest), m') \<and> erase a = t
        \<and> dec_post m m' [a] \<and> length (nodes m') = length (nodes m) + pt_nodes t))"

definition opt_stream :: "ptree option \<Rightarrow> bytes" where
  "opt_stream c = (case c of None \<Rightarrow> [] | Some t \<Rightarrow> tree_stream E t)"

definition opt_nodes :: "ptree option \<Rightarrow> nat" where
  "opt_nodes c = (case c of None \<Rightarrow> 0 | Some t \<Rightarrow> pt_nodes t)"

lemma dec_post_lengths: "dec_post m m' as \<Longrightarrow> length (cached_references m') = length (nodes m')"
  by (simp add: dec_post_def grown_def)

lemma decode_child_spec:
  assumes "arena_ok m (opt_nodes c)" "\<And>t. c = Some t \<Longrightarrow> dec_spec dec t \<and> canon t"
  shows "\<exists>m' a. decode_child E dec (child_code E c) (opt_stream c @ rest) m =
      (Ok (map_option aid a, rest), m') \<and> map_option erase a = c \<and> dec_post m m' (somes [a])
    \<and> length (nodes m') = length (nodes m) + opt_nodes c"
proof (cases c)
  case None
  with assms(1) dec_post_nil [of m] show ?thesis
    by (intro exI [of _ m] exI [of _ None])
       (simp add: decode_child_def from_rlp_slice_def NULL_NODE_REF_SLICE_def opt_stream_def opt_nodes_def arena_ok_def)
next
  case (Some t)
  with assms have t: "dec_spec dec t" "canon t" "arena_ok m (pt_nodes t)" by (simp_all add: opt_nodes_def)
  then obtain m' a where m': "dec (tree_stream E t @ rest) (tree_ref E t) m = (Ok (aid a, rest), m')"
    "erase a = t" "dec_post m m' [a]" "length (nodes m') = length (nodes m) + pt_nodes t"
    unfolding dec_spec_def by blast
  with Some from_rlp_slice_ref [OF t(2)] ref_not_null [OF t(2)] show ?thesis
    by (intro exI [of _ m'] exI [of _ "Some a"])
       (simp add: decode_child_def NULL_NODE_REF_SLICE_def opt_stream_def opt_nodes_def)
qed

lemma decode_item_child:
  assumes "\<And>t. c = Some t \<Longrightarrow> canon t"
  shows "\<exists>l p. decode_item E (child_code E c @ rest) = Ok (l, p, child_code E c, rest)"
proof (cases c)
  case None
  with decode_item_bytes [of "[]" rest] show ?thesis
    by (intro exI [of _ False] exI [of _ "[]"]) (simp add: bytes_encode_empty)
next
  case (Some t)
  with assms decode_item_ref [of t rest] show ?thesis by simp
qed

lemma decode_children_spec:
  assumes "arena_ok m (sum_list (map opt_nodes cs))"
    and "\<forall>t \<in> set (somes cs). dec_spec dec t \<and> canon t"
  shows "\<exists>m' as. decode_children (length cs) E dec (concat (map (child_code E) cs) @ q)
      (concat (map opt_stream cs) @ rest) m = (Ok (map (map_option aid) as, q, rest), m')
    \<and> map (map_option erase) as = cs \<and> dec_post m m' (somes as)
    \<and> length (nodes m') = length (nodes m) + sum_list (map opt_nodes cs)"
  using assms
proof (induction cs arbitrary: m)
  case Nil
  then show ?case using dec_post_nil [of m] by (auto simp: arena_ok_def)
next
  case (Cons c cs)
  have c: "dec_spec dec t \<and> canon t" if "c = Some t" for t using Cons.prems(2) that by simp
  obtain l p where item: "decode_item E (child_code E c @ concat (map (child_code E) cs) @ q) =
    Ok (l, p, child_code E c, concat (map (child_code E) cs) @ q)"
    using decode_item_child [of c] c by blast
  have "arena_ok m (opt_nodes c)" using Cons.prems(1) by (simp add: arena_ok_def)
  from decode_child_spec [OF this c, of "concat (map opt_stream cs) @ rest"] obtain m1 a where m1:
    "decode_child E dec (child_code E c) (opt_stream c @ concat (map opt_stream cs) @ rest) m =
      (Ok (map_option aid a, concat (map opt_stream cs) @ rest), m1)"
    "map_option erase a = c" "dec_post m m1 (somes [a])" "length (nodes m1) = length (nodes m) + opt_nodes c"
    by blast
  have "arena_ok m1 (sum_list (map opt_nodes cs))"
    using Cons.prems(1) m1(4) dec_post_lengths [OF m1(3)] by (simp add: arena_ok_def)
  from Cons.IH [OF this] Cons.prems(2) obtain m2 as where m2:
    "decode_children (length cs) E dec (concat (map (child_code E) cs) @ q)
      (concat (map opt_stream cs) @ rest) m1 = (Ok (map (map_option aid) as, q, rest), m2)"
    "map (map_option erase) as = cs" "dec_post m1 m2 (somes as)"
    "length (nodes m2) = length (nodes m1) + sum_list (map opt_nodes cs)" by (auto split: option.splits)
  have "dec_post m m2 (somes (a # as))"
    using dec_post_append [OF m1(3) m2(3)] by (cases a) simp_all
  with item m1 m2 show ?case
    by (intro exI [of _ m2] exI [of _ "a # as"]) simp
qed

lemma opt_stream_concat: "concat (map opt_stream cs) = concat (map (tree_stream E) (somes cs))"
proof (induction cs)
  case (Cons c cs)
  then show ?case by (cases c) (simp_all add: opt_stream_def)
qed simp

lemma opt_nodes_sum: "sum_list (map opt_nodes cs) = sum_list (map pt_nodes (somes cs))"
proof (induction cs)
  case (Cons c cs)
  then show ?case by (cases c) (simp_all add: opt_nodes_def)
qed simp

section \<open>One node\<close>

text \<open>The checks every list node passes before its items are read.\<close>

lemma decode_list_node:
  assumes t: "is_list_node t" and small: "length (tree_payload E t) < 2 ^ 64"
  shows "decode_trie_internal (Suc fuel) E (pad4 (tree_rlp E t) @ rest) (tree_ref E t) m =
     list_node_step fuel E (tree_payload E t) (tree_ref E t) rest m"
proof -
  let ?rlp = "list_rlp E (tree_payload E t)"
  have rlp: "tree_rlp E t = ?rlp" using tree_rlp_list [OF t] .
  have ref: "tree_ref E t = ref_of_rlp E ?rlp" using tree_ref_list [OF t] rlp by simp
  have item: "decode_item E (pad4 ?rlp @ rest) =
    Ok (True, tree_payload E t, ?rlp, replicate (padding_len (length ?rlp)) 0 @ rest)"
    unfolding pad4_def append_assoc using decode_item_list [OF small] by simp
  have adv: "advance_unchecked (replicate (padding_len (length ?rlp)) 0 @ rest) (padding_len (length ?rlp)) =
    Ok (replicate (padding_len (length ?rlp)) 0, rest)"
    by (simp add: advance_unchecked_def)
  have chk: "check_node_ref E True (tree_payload E t) ?rlp (tree_ref E t) = Ok (tree_ref E t)"
    unfolding ref by (simp add: check_node_ref_def ref_of_rlp_def)
  show ?thesis by (simp add: rlp item adv chk decode_step)
qed

lemmas decode_list_node_items = decode_list_node [unfolded list_node_step_def]

lemma add_node_dec_post:
  assumes "dec_post m m1 (akids a)" "arena_ok m1 1" "add_node (node_of a) (Some (tree_ref E (erase a))) m1 = (aid a, m2)"
    "shape_ok a"
  shows "dec_post m m2 [a]" "length (nodes m2) = Suc (length (nodes m1))"
proof -
  have l: "length (cached_references m1) = length (nodes m1)" "length (nodes m1) < 2 ^ 32"
    using assms(2) by (simp_all add: arena_ok_def)
  note an = add_node_spec [OF l assms(3)]
  have kids: "\<forall>c \<in> set (akids a). holds E m1 c" using assms(1) by (simp add: dec_post_def)
  have h: "holds E m2 a" using add_node_ref [OF l assms(3,4) kids] by simp
  have g: "grown {} m m1" using assms(1) by (simp add: dec_post_def)
  have f: "fresh m m1 \<subseteq> fresh m m2" "fresh m1 m2 \<subseteq> fresh m m2" using fresh_trans [OF g an(3)] by simp_all
  have new: "aid a \<notin> set (aids c)" if "c \<in> set (akids a)" for c
  proof -
    have "holds E m1 c" using kids that by blast
    from fresh_old [OF this, of m2] an(4) show ?thesis by simp
  qed
  have "set (aids a) \<subseteq> fresh m m2"
    using assms(1) f an(4) by (subst aids_rec) (auto simp: dec_post_def subset_iff)
  moreover have "distinct (aids a)"
    using assms(1) new by (subst aids_rec) (auto simp: dec_post_def)
  ultimately show "dec_post m m2 [a]" using h grown_trans [OF g an(3)] by (simp add: dec_post_def)
  show "length (nodes m2) = Suc (length (nodes m1))" by (rule an(5))
qed

lemma decode_leaf_ok:
  assumes "canon (PLeaf p v)" "length (tree_stream E (PLeaf p v)) < 2 ^ 64"
  shows "dec_spec (decode_trie_internal (Suc fuel) E) (PLeaf p v)"
  unfolding dec_spec_def
proof (intro allI impI)
  let ?t = "PLeaf p v" and ?path = "to_encoded_path p True"
  fix m rest assume ok: "arena_ok m (pt_nodes ?t)"
  have st: "tree_stream E ?t = pad4 (tree_rlp E ?t)" by (subst tree_stream.simps) simp
  have small: "length (tree_payload E ?t) < 2 ^ 64" "length ?path < 2 ^ 64" "length v < 2 ^ 64"
    using assms(2) bytes_encode_length [of ?path] bytes_encode_length [of v]
    by (simp_all add: st pad4_def list_rlp_def)
  obtain j m' where a: "add_node (Leaf ?path v) (Some (tree_ref E ?t)) m = (j, m')" by (meson surj_pair)
  have flag: "\<exists>b bs. ?path = b # bs \<and> b AND 0x20 \<noteq> 0"
    using leaf_flag [of p True] assms(1) to_encoded_path_nonempty [of p True] by (cases ?path) auto
  have "decode_trie_internal (Suc fuel) E (tree_stream E ?t @ rest) (tree_ref E ?t) m = (Ok (j, rest), m')"
    unfolding st using decode_list_node_items [of ?t fuel rest m] small flag a
      decode_item_bytes [of ?path "bytes_encode E v"] decode_item_bytes [of v "[]"] by auto
  moreover have "arena_ok m 1" "dec_post m m (akids (ALeaf j p v))"
    using ok dec_post_nil [of m] by (simp_all add: arena_ok_def pt_nodes.simps [of ?t])
  with add_node_dec_post [of m m "ALeaf j p v" m'] a assms(1)
  have "dec_post m m' [ALeaf j p v]" "length (nodes m') = Suc (length (nodes m))" by simp_all
  ultimately show "\<exists>m' a. decode_trie_internal (Suc fuel) E (tree_stream E ?t @ rest) (tree_ref E ?t) m =
      (Ok (aid a, rest), m') \<and> erase a = ?t \<and> dec_post m m' [a]
      \<and> length (nodes m') = length (nodes m) + pt_nodes ?t"
    by (intro exI [of _ m'] exI [of _ "ALeaf j p v"]) (simp add: pt_nodes.simps [of ?t])
qed

lemma decode_digest_ok:
  assumes "length d = 32"
  shows "dec_spec (decode_trie_internal (Suc fuel) E) (PDigest d)"
  unfolding dec_spec_def
proof (intro allI impI)
  let ?t = "PDigest d"
  fix m rest assume ok: "arena_ok m (pt_nodes ?t)"
  have st: "tree_stream E ?t = pad4 (bytes_encode E d)" by (subst tree_stream.simps) simp
  have len: "length (bytes_encode E d) = 33" using assms by (simp add: bytes_encode_32)
  obtain j m' where a: "add_node (Digest d) (Some (RefDigest d)) m = (j, m')" by (meson surj_pair)
  have "decode_trie_internal (Suc fuel) E (tree_stream E ?t @ rest) (tree_ref E ?t) m = (Ok (j, rest), m')"
    unfolding st using decode_item_bytes [of d "replicate (padding_len 33) 0 @ rest"] assms len a
    by (cases d) (simp_all add: pad4_def check_node_ref_def advance_unchecked_def decode_trie_internal.simps(2))
  moreover have "arena_ok m 1" "dec_post m m (akids (ADigest j d))"
    using ok dec_post_nil [of m] by (simp_all add: arena_ok_def pt_nodes.simps [of ?t])
  with add_node_dec_post [of m m "ADigest j d" m'] a assms(1)
  have "dec_post m m' [ADigest j d]" "length (nodes m') = Suc (length (nodes m))" by simp_all
  ultimately show "\<exists>m' a. decode_trie_internal (Suc fuel) E (tree_stream E ?t @ rest) (tree_ref E ?t) m =
      (Ok (aid a, rest), m') \<and> erase a = ?t \<and> dec_post m m' [a]
      \<and> length (nodes m') = length (nodes m) + pt_nodes ?t"
    by (intro exI [of _ m'] exI [of _ "ADigest j d"]) (simp add: pt_nodes.simps [of ?t])
qed

lemma decode_ext_ok:
  assumes "canon (PExt p c)" "length (tree_stream E (PExt p c)) < 2 ^ 64"
    and c: "dec_spec (decode_trie_internal fuel E) c"
  shows "dec_spec (decode_trie_internal (Suc fuel) E) (PExt p c)"
  unfolding dec_spec_def
proof (intro allI impI)
  let ?t = "PExt p c" and ?path = "to_encoded_path p False"
  fix m rest assume ok: "arena_ok m (pt_nodes ?t)"
  have st: "tree_stream E ?t = pad4 (tree_rlp E ?t) @ tree_stream E c" by (subst tree_stream.simps) simp
  have nn: "pt_nodes ?t = Suc (pt_nodes c)" by (subst pt_nodes.simps) simp
  have can: "canon c" using assms(1) by simp
  have small: "length (tree_payload E ?t) < 2 ^ 64" "length ?path < 2 ^ 64"
    using assms(2) bytes_encode_length [of ?path] by (simp_all add: st pad4_def list_rlp_def)
  have "arena_ok m (pt_nodes c)" using ok nn by (simp add: arena_ok_def)
  then obtain m1 a where m1: "decode_trie_internal fuel E (tree_stream E c @ rest) (tree_ref E c) m = (Ok (aid a, rest), m1)"
    "erase a = c" "dec_post m m1 [a]" "length (nodes m1) = length (nodes m) + pt_nodes c"
    using c unfolding dec_spec_def by blast
  obtain j m' where a: "add_node (Extension ?path (aid a)) (Some (tree_ref E ?t)) m1 = (j, m')" by (meson surj_pair)
  have flag: "\<exists>b bs. ?path = b # bs \<and> b AND 0x20 = 0"
    using leaf_flag [of p False] assms(1) to_encoded_path_nonempty [of p False] by (cases ?path) auto
  obtain l pl where item1: "decode_item E (ref_code E (tree_ref E c)) = Ok (l, pl, ref_code E (tree_ref E c), [])"
    using decode_item_ref [OF can, of "[]"] by auto
  have "decode_trie_internal (Suc fuel) E (tree_stream E ?t @ rest) (tree_ref E ?t) m = (Ok (j, rest), m')"
    unfolding st append_assoc
    using decode_list_node_items [of ?t fuel "tree_stream E c @ rest" m] small flag a m1(1) item1
      decode_item_bytes [of ?path "ref_code E (tree_ref E c)"] from_rlp_slice_ref [OF can] by auto
  moreover have "arena_ok m1 1" "dec_post m m1 (akids (AExt j p a))"
    using ok m1(3,4) nn dec_post_lengths [OF m1(3)] by (simp_all add: arena_ok_def)
  with add_node_dec_post [of m m1 "AExt j p a" m'] a assms(1) m1(2)
  have "dec_post m m' [AExt j p a]" "length (nodes m') = Suc (length (nodes m1))" by simp_all
  ultimately show "\<exists>m' a. decode_trie_internal (Suc fuel) E (tree_stream E ?t @ rest) (tree_ref E ?t) m =
      (Ok (aid a, rest), m') \<and> erase a = ?t \<and> dec_post m m' [a]
      \<and> length (nodes m') = length (nodes m) + pt_nodes ?t"
    using m1(2,4) nn by (intro exI [of _ m'] exI [of _ "AExt j p a"]) simp
qed

lemma decode_branch_ok:
  assumes can: "canon (PBranch cs)" and len: "length (tree_stream E (PBranch cs)) < 2 ^ 64"
    and kids: "\<forall>t \<in> set (somes cs). dec_spec (decode_trie_internal fuel E) t \<and> canon t"
  shows "dec_spec (decode_trie_internal (Suc fuel) E) (PBranch cs)"
  unfolding dec_spec_def
proof (intro allI impI)
  let ?t = "PBranch cs" and ?dec = "decode_trie_internal fuel E"
  fix m rest assume ok: "arena_ok m (pt_nodes ?t)"
  obtain c0 c1 cs' where cs: "cs = c0 # c1 # cs'" "length cs' = 14"
    using can by (cases cs; cases "tl cs") (auto simp: length_Suc_conv)
  have st: "tree_stream E ?t @ rest = pad4 (tree_rlp E ?t) @ opt_stream c0 @ opt_stream c1 @
    concat (map opt_stream cs') @ rest"
    using opt_stream_concat [of cs] cs by (subst tree_stream.simps) simp
  have nn: "pt_nodes ?t = Suc (opt_nodes c0 + (opt_nodes c1 + sum_list (map opt_nodes cs')))"
    using opt_nodes_sum [of cs] cs by (subst pt_nodes.simps) simp
  have small: "length (tree_payload E ?t) < 2 ^ 64"
    using len by (simp add: tree_stream.simps [of E ?t] pad4_def list_rlp_def)
  have sp: "dec_spec ?dec t \<and> canon t" if "c = Some t" "c \<in> set cs" for c t using kids that by auto
  have s0: "\<And>t. c0 = Some t \<Longrightarrow> dec_spec ?dec t \<and> canon t" and s1: "\<And>t. c1 = Some t \<Longrightarrow> dec_spec ?dec t \<and> canon t"
    and s2: "\<forall>t \<in> set (somes cs'). dec_spec ?dec t \<and> canon t"
    using sp cs by auto
  let ?q = "concat (map (child_code E) cs') @ [EMPTY_STRING_CODE E]"
  have pay: "tree_payload E ?t = child_code E c0 @ child_code E c1 @ ?q" using cs by simp
  obtain l0 p0 where i0: "decode_item E (tree_payload E ?t) = Ok (l0, p0, child_code E c0, child_code E c1 @ ?q)"
    using decode_item_child [of c0 "child_code E c1 @ ?q"] s0 unfolding pay by blast
  obtain l1 p1 where i1: "decode_item E (child_code E c1 @ ?q) = Ok (l1, p1, child_code E c1, ?q)"
    using decode_item_child [of c1 ?q] s1 by blast
  have "arena_ok m (opt_nodes c0)" using ok nn by (simp add: arena_ok_def)
  from decode_child_spec [OF this s0] obtain m0 a0 where m0:
    "decode_child E ?dec (child_code E c0) (opt_stream c0 @ opt_stream c1 @ concat (map opt_stream cs') @ rest) m =
      (Ok (map_option aid a0, opt_stream c1 @ concat (map opt_stream cs') @ rest), m0)"
    "map_option erase a0 = c0" "dec_post m m0 (somes [a0])" "length (nodes m0) = length (nodes m) + opt_nodes c0" by blast
  have "arena_ok m0 (opt_nodes c1)" using ok nn m0(4) dec_post_lengths [OF m0(3)] by (simp add: arena_ok_def)
  from decode_child_spec [OF this s1] obtain m1 a1 where m1:
    "decode_child E ?dec (child_code E c1) (opt_stream c1 @ concat (map opt_stream cs') @ rest) m0 =
      (Ok (map_option aid a1, concat (map opt_stream cs') @ rest), m1)"
    "map_option erase a1 = c1" "dec_post m0 m1 (somes [a1])" "length (nodes m1) = length (nodes m0) + opt_nodes c1" by blast
  have "arena_ok m1 (sum_list (map opt_nodes cs'))"
    using ok nn m0(4) m1(4) dec_post_lengths [OF m1(3)] by (simp add: arena_ok_def)
  from decode_children_spec [OF this s2, of "[EMPTY_STRING_CODE E]" rest] cs(2) obtain m2 as where m2:
    "decode_children 14 E ?dec ?q (concat (map opt_stream cs') @ rest) m1 =
      (Ok (map (map_option aid) as, [EMPTY_STRING_CODE E], rest), m2)"
    "map (map_option erase) as = cs'" "dec_post m1 m2 (somes as)"
    "length (nodes m2) = length (nodes m1) + sum_list (map opt_nodes cs')" by auto
  let ?as = "a0 # a1 # as"
  have er: "map (map_option erase) ?as = cs" using m0(2) m1(2) m2(2) cs by simp
  have post: "dec_post m m2 (somes ?as)"
    using dec_post_append [OF dec_post_append [OF m0(3) m1(3)] m2(3)] by (cases a0; cases a1) simp_all
  obtain j m' where a: "add_node (Branch (map (map_option aid) ?as)) (Some (tree_ref E ?t)) m2 = (j, m')"
    by (meson surj_pair)
  have "decode_trie_internal (Suc fuel) E (tree_stream E ?t @ rest) (tree_ref E ?t) m = (Ok (j, rest), m')"
    unfolding st
    using decode_list_node_items [of ?t fuel "opt_stream c0 @ opt_stream c1 @ concat (map opt_stream cs') @ rest" m]
      small i0 i1 m0(1) m1(1) m2(1) a
    by (simp add: decode_branch_def NULL_NODE_REF_SLICE_def)
  moreover have "arena_ok m2 1" "length as = 14"
    using ok nn m0(4) m1(4) m2(4) dec_post_lengths [OF post] m2(2) cs(2) by (auto simp: arena_ok_def)
  with add_node_dec_post [of m m2 "ABranch j ?as" m'] a post er
  have "dec_post m m' [ABranch j ?as]" "length (nodes m') = Suc (length (nodes m2))" by simp_all
  ultimately show "\<exists>m' a. decode_trie_internal (Suc fuel) E (tree_stream E ?t @ rest) (tree_ref E ?t) m =
      (Ok (aid a, rest), m') \<and> erase a = ?t \<and> dec_post m m' [a]
      \<and> length (nodes m') = length (nodes m) + pt_nodes ?t"
    using m0(4) m1(4) m2(4) nn er by (intro exI [of _ m'] exI [of _ "ABranch j ?as"]) simp
qed

lemma canon_pkids: "canon t \<Longrightarrow> c \<in> set (pkids t) \<Longrightarrow> canon c"
  by (cases t) (auto simp: in_set_conv_nth split: option.splits)

lemma length_pkid_stream:
  assumes "c \<in> set (pkids t)"
  shows "length (tree_stream E c) + length (tree_rlp E t) \<le> length (tree_stream E t)"
proof -
  from assms obtain xs ys where "pkids t = xs @ c # ys" by (meson split_list)
  then show ?thesis by (subst (2) tree_stream.simps) (simp add: pad4_def)
qed

lemma decode_internal_ok:
  "canon t \<Longrightarrow> length (tree_stream E t) < 2 ^ 64 \<Longrightarrow> length (tree_stream E t) < fuel \<Longrightarrow>
   dec_spec (decode_trie_internal fuel E) t"
proof (induction "size t" arbitrary: t fuel rule: less_induct)
  case less
  obtain f where f: "fuel = Suc f" using less.prems(3) by (cases fuel) auto
  have kid: "dec_spec (decode_trie_internal f E) c \<and> canon c" if "c \<in> set (pkids t)" for c
  proof -
    have "is_list_node t" using that by (cases t) auto
    then have "decode_item E (tree_rlp E t) = Ok (True, tree_payload E t, tree_rlp E t, [])"
      using decode_item_list [of "tree_payload E t" "[]"] less.prems(2)
      by (simp add: tree_rlp_list tree_stream.simps [of E t] pad4_def list_rlp_def)
    then have "0 < length (tree_rlp E t)"
      using decode_empty by (auto simp: decode_item_def split: sum.splits prod.splits)
    with length_pkid_stream [OF that] less.prems f
    have "length (tree_stream E c) < f" "length (tree_stream E c) < 2 ^ 64" by linarith+
    then show ?thesis
      using less.hyps [OF size_pkids [OF that] canon_pkids [OF less.prems(1) that]]
        canon_pkids [OF less.prems(1) that] by blast
  qed
  show ?case
  proof (cases t)
    case (PBranch cs)
    with kid decode_branch_ok [of cs f] less.prems f show ?thesis by simp
  next
    case (PExt p c)
    with kid [of c] decode_ext_ok [of p c f] less.prems f show ?thesis by simp
  qed (use less.prems f decode_leaf_ok decode_digest_ok in auto)
qed

lemma root_ref_stream:
  assumes "canon t" "length (tree_stream E t) < 2 ^ 64"
  shows "root_ref E (tree_stream E t @ rest) = Ok (tree_ref E t)"
proof -
  let ?tail = "replicate (padding_len (length (tree_rlp E t))) 0 @ concat (map (tree_stream E) (pkids t)) @ rest"
  have st: "tree_stream E t @ rest = tree_rlp E t @ ?tail"
    by (subst tree_stream.simps) (simp add: pad4_def)
  show ?thesis
  proof (cases "is_list_node t")
    case True
    have "length (tree_payload E t) < 2 ^ 64"
      using assms(2) True by (simp add: tree_stream.simps [of E t] pad4_def list_rlp_def tree_rlp_list)
    with True decode_item_list [of "tree_payload E t" ?tail] show ?thesis
      unfolding st by (simp add: root_ref_def tree_rlp_list tree_ref_list ref_of_rlp_def)
  next
    case False
    with assms(1) obtain d where t: "t = PDigest d" "length d = 32" by (cases t) auto
    then have "length (bytes_encode E d) = 33" by (simp add: bytes_encode_32)
    with t decode_item_bytes [of d ?tail] show ?thesis
      unfolding st by (simp add: root_ref_def)
  qed
qed

lemma dec_post_rep:
  assumes "dec_post m0 m [a]" "canon_top (erase a)" "\<not> scratch_borrowed m0"
  shows "rep E (m\<lparr>root_id := aid a\<rparr>) a"
proof -
  have d: "holds E m a" "distinct (aids a)" "grown {} m0 m" using assms(1) by (simp_all add: dec_post_def)
  have "holds E (m\<lparr>root_id := aid a\<rparr>) a"
    by (rule holds_frame [OF d(1)]) (simp add: node_at_def cell_at_def)
  with assms(2,3) d show ?thesis by (simp add: rep_def grown_def)
qed

lemma null_stream: "tree_stream E PNull = [EMPTY_STRING_CODE E, 0, 0, 0]"
proof -
  have "padding_len (length [EMPTY_STRING_CODE E]) = 3" by (simp add: padding_len_def MIN_ALIGN_def)
  moreover have "replicate 3 0 = [0, 0, 0 :: byte]" by (simp add: numeral_3_eq_3)
  ultimately show ?thesis unfolding tree_stream.simps [of E PNull] pad4_def tree_rlp.simps by simp
qed

lemma decode_null_item:
  "decode_item E (EMPTY_STRING_CODE E # rest) = Ok (False, [], [EMPTY_STRING_CODE E], rest)"
  using decode_item_bytes [of "[]" rest] by (simp add: bytes_encode_empty)

lemma decode_null_internal:
  "decode_trie_internal (Suc fuel) E (EMPTY_STRING_CODE E # 0 # 0 # 0 # rest)
     (RefBytes [EMPTY_STRING_CODE E]) m = (Ok (NULL_NODE_ID, rest), m)"
  by (subst decode_trie_internal.simps(2))
     (simp add: decode_null_item check_node_ref_def advance_unchecked_def padding_len_def MIN_ALIGN_def)

lemma root_ref_null: "root_ref E (EMPTY_STRING_CODE E # rest) = Ok (RefBytes [EMPTY_STRING_CODE E])"
  by (simp add: root_ref_def decode_null_item)

lemma decode_null:
  "decode_trie E (tree_stream E PNull @ rest) n =
     (if rest = [] then Ok (new, tree_stream E PNull) else Ok (with_capacity (n + n div 2), rest))"
proof (cases "rest = []")
  case True
  then show ?thesis by (simp add: null_stream decode_trie_def)
next
  case False
  have root: "(with_capacity k)\<lparr>root_id := NULL_NODE_ID\<rparr> = with_capacity k" for k
    by (simp add: with_capacity_def NULL_NODE_ID_def)
  let ?bs = "EMPTY_STRING_CODE E # 0 # 0 # 0 # rest"
  have "?bs \<noteq> [EMPTY_STRING_CODE E, 0, 0, 0]" using False by simp
  then have "decode_trie E ?bs n = Ok (with_capacity (n + n div 2), rest)"
    unfolding decode_trie_def Let_def root_ref_null decode_null_internal by (simp add: root decode_null_internal)
  with False show ?thesis by (simp add: null_stream)
qed

text \<open>The round trip of the witness format.\<close>

lemma decode_encode:
  assumes t: "canon_top t" and len: "length (tree_stream E t) < 2 ^ 64" "pt_nodes t < 2 ^ 32"
  shows "\<exists>m rest'. decode_trie E (tree_stream E t @ rest) n = Ok (m, rest') \<and> repr_tree E m t
    \<and> (t \<noteq> PNull \<or> rest \<noteq> [] \<longrightarrow> rest' = rest)"
proof (cases "t = PNull")
  case True
  then show ?thesis using decode_null [of rest n] repr_new repr_with_capacity by (cases "rest = []") auto
next
  case False
  then have can: "canon t" using t by (simp add: canon_top_def)
  let ?bs = "tree_stream E t @ rest" and ?m = "with_capacity (n + n div 2)"
  have ne: "?bs \<noteq> [EMPTY_STRING_CODE E, 0, 0, 0]"
  proof
    assume "?bs = [EMPTY_STRING_CODE E, 0, 0, 0]"
    with root_ref_stream [OF can len(1), of rest] have "root_ref E [EMPTY_STRING_CODE E, 0, 0, 0] = Ok (tree_ref E t)"
      by simp
    then have "tree_ref E t = RefBytes [EMPTY_STRING_CODE E]" by (simp add: root_ref_null)
    with ref_not_null [OF can] show False by simp
  qed
  have "dec_spec (decode_trie_internal (Suc (length ?bs)) E) t"
    using decode_internal_ok [OF can len(1)] by simp
  moreover have "arena_ok ?m (pt_nodes t)" using len(2) by (simp add: arena_ok_def with_capacity_def)
  ultimately obtain m' a where m': "decode_trie_internal (Suc (length ?bs)) E ?bs (tree_ref E t) ?m = (Ok (aid a, rest), m')"
    "erase a = t" "dec_post ?m m' [a]" unfolding dec_spec_def by blast
  have "rep E (m'\<lparr>root_id := aid a\<rparr>) a"
    by (rule dec_post_rep [OF m'(3)]) (use m'(2) t in \<open>simp_all add: with_capacity_def\<close>)
  then have "repr_tree E (m'\<lparr>root_id := aid a\<rparr>) t" using m'(2) unfolding repr_tree_def by blast
  moreover have "decode_trie E ?bs n = Ok (m'\<lparr>root_id := aid a\<rparr>, rest)"
    using m'(1) ne root_ref_stream [OF can len(1), of rest] by (simp add: decode_trie_def Let_def)
  ultimately show ?thesis by blast
qed

end

end
