(* ===== verification/Codec_Properties.thy ===== *)
theory Codec_Properties
  imports Codec_Decode Trie_Properties
begin

text \<open>
  The correctness statements of the witness format: round trip, alignment, and the node count that
  travels with an encoded trie.
\<close>

lemma pt_nodes_erase: "pt_nodes (erase a) = length (aids a)"
proof (induction a rule: atree_induct)
  case (node a)
  have "sum_list (map pt_nodes (map erase cs)) = length (concat (map aids cs))" if "set cs \<subseteq> set (akids a)" for cs
    using that node by (induction cs) auto
  then show ?case by (subst pt_nodes.simps, subst aids_rec) (simp add: pkids_erase)
qed

lemma repr_nodes_le:
  assumes "repr_tree E m t"
  shows "pt_nodes t \<le> length (nodes m)"
proof -
  obtain a where a: "rep E m a" "erase a = t" using assms by (auto simp: repr_tree_def)
  with length_aids_le [OF repD(1,2) [OF a(1)]] pt_nodes_erase [of a] show ?thesis by simp
qed

lemma sum_children_spec:
  assumes "\<forall>c \<in> set (somes cs). f (aid c) m = Ok (length (aids c))"
  shows "sum_children f (map (map_option aid) cs) m = Ok (length (concat (map aids (somes cs))))"
  using assms
proof (induction cs)
  case (Cons c cs)
  then show ?case by (cases c) auto
qed simp

lemma subtree_num_nodes_spec:
  "holds E m t \<Longrightarrow> length (aids t) \<le> fuel \<Longrightarrow>
   subtree_num_nodes_internal fuel (aid t) m = Ok (length (aids t))"
proof (induction t arbitrary: fuel rule: atree_induct)
  case (node t)
  obtain f where f: "fuel = Suc f" using node.prems(2) by (cases fuel) auto
  have n: "node_at m (aid t) = Some (node_of t)" using holds_node [OF node.prems(1)] .
  have ih: "subtree_num_nodes_internal f (aid c) m = Ok (length (aids c))" if "c \<in> set (akids t)" for c
    using node.IH [OF that] holds_kid [OF node.prems(1) that] length_kid_aids [OF that] node.prems(2) f by simp
  have len: "length (aids t) = Suc (length (concat (map aids (akids t))))" by (subst aids_rec) simp
  show ?case
  proof (cases t)
    case (ABranch i cs)
    with sum_children_spec [of cs "subtree_num_nodes_internal f" m] ih n f len show ?thesis by simp
  next
    case (AExt i p c)
    with ih [of c] n f len show ?thesis by simp
  qed (use n f len in simp_all)
qed

context rlp_laws
begin

lemma roundtrip_repr:
  assumes r: "repr_tree E m t" and e: "encode_trie E m = (Ok bs, m1)"
    and len: "length bs < 2 ^ 64" "length (nodes m) < 2 ^ 32"
  shows "\<exists>m2 rest'. decode_trie E (bs @ rest) n = Ok (m2, rest') \<and> repr_tree E m2 t
    \<and> (rest \<noteq> [] \<longrightarrow> rest' = rest) \<and> repr_tree E m1 t \<and> 4 dvd length bs"
proof -
  obtain m' where m': "encode_trie E m = (Ok (tree_stream E t), m')" "repr_tree E m' t"
    using encode_trie_repr [OF r] by blast
  with e have bs: "bs = tree_stream E t" "m1 = m'" by simp_all
  have "pt_nodes t < 2 ^ 32" using repr_nodes_le [OF r] len(2) by simp
  with decode_encode [OF repr_canon [OF r], of rest n] len(1) bs m'(2) length_tree_stream [of E t]
  show ?thesis by auto
qed

lemma hash_same_tree:
  assumes "repr_tree E m t" "repr_tree E m' t"
  shows "fst (hash E m) = fst (hash E m')" "get m key = get m' key"
  using hash_repr [OF assms(1)] hash_repr [OF assms(2)] get_repr [OF assms(1)] get_repr [OF assms(2)] by auto

end

lemma ex_leaf_stream: "length (tree_stream std_ext (PLeaf [1, 2, 3, 4] [9])) = 8"
  by (simp add: tree_stream_code pad4_def list_rlp_def std_ext_def std_header_encode_def
      std_bytes_encode_def to_encoded_path_def padding_len_def MIN_ALIGN_def)

section \<open>Properties\<close>

text \<open>
  C25: the witness round trip. Encoding a well-formed trie always succeeds without a panic, the
  encoding is a multiple of four bytes, and decoding it (with anything behind it) succeeds and
  gives a trie with the same root hash and the same lookups; the bytes behind it are left over.
\<close>

theorem encode_decode_roundtrip:
  assumes "rlp_laws E" "repr_tree E m t" "length (tree_stream E t) < 2 ^ 64" "length (nodes m) < 2 ^ 32"
  shows "\<exists>bs m1 m2 rest'. encode_trie E m = (Ok bs, m1) \<and> 4 dvd length bs
    \<and> decode_trie E (bs @ rest) n = Ok (m2, rest') \<and> (rest \<noteq> [] \<longrightarrow> rest' = rest)
    \<and> mpt_inv E m1 \<and> mpt_inv E m2
    \<and> fst (hash E m2) = fst (hash E m) \<and> (\<forall>key. get m2 key = get m key)"
proof -
  obtain m1 where e: "encode_trie E m = (Ok (tree_stream E t), m1)"
    using rlp_laws.encode_trie_repr [OF assms(1,2)] by blast
  from rlp_laws.roundtrip_repr [OF assms(1,2) e assms(3,4), of rest n] obtain m2 rest' where
    "decode_trie E (tree_stream E t @ rest) n = Ok (m2, rest')" "repr_tree E m2 t"
    "rest \<noteq> [] \<longrightarrow> rest' = rest" "repr_tree E m1 t" "4 dvd length (tree_stream E t)" by blast
  with e rlp_laws.hash_same_tree [OF assms(1) _ assms(2), of m2] show ?thesis
    unfolding mpt_inv_def by blast
qed

theorem encode_decode_roundtrip_witness:
  "\<exists>bs m1 m2 rest'. encode_trie std_ext ex_leaf = (Ok bs, m1)
     \<and> decode_trie std_ext (bs @ [1, 2, 3, 4]) 2 = Ok (m2, rest') \<and> rest' = [1, 2, 3, 4]
     \<and> fst (hash std_ext m2) = fst (hash std_ext ex_leaf)
     \<and> get m2 [0x12, 0x34] = Ok (Some [9])"
proof -
  have l: "length (tree_stream std_ext (PLeaf [1, 2, 3, 4] [9])) < 2 ^ 64"
    using ex_leaf_stream by simp
  have n: "length (nodes ex_leaf) < 2 ^ 32" using repr_ex_leaf(2) by (simp add: capacity_left_def)
  have g: "get ex_leaf [0x12, 0x34] = Ok (Some [9])" by code_simp
  obtain bs m1 m2 rest' where r: "encode_trie std_ext ex_leaf = (Ok bs, m1)"
    "decode_trie std_ext (bs @ [1, 2, 3, 4]) 2 = Ok (m2, rest')" "[1, 2, 3, 4 :: byte] \<noteq> [] \<longrightarrow> rest' = [1, 2, 3, 4]"
    "fst (hash std_ext m2) = fst (hash std_ext ex_leaf)" "\<forall>key. get m2 key = get ex_leaf key"
    using encode_decode_roundtrip [OF std.rlp_laws_axioms repr_ex_leaf(1) l n, of "[1, 2, 3, 4]" 2] by blast
  then have "rest' = [1, 2, 3, 4]" "get m2 [0x12, 0x34] = Ok (Some [9])" using g by auto
  with r(1,2,4) show ?thesis by blast
qed

text \<open>
  The node count sent along with an encoded subtree is the number of nodes reachable from it,
  which is the number of nodes the decoder will add to the arena.
\<close>

lemma subtree_num_nodes_correct:
  assumes "rlp_laws E" "repr_tree E m t"
  shows "subtree_num_nodes (root_id m) m = Ok (pt_nodes t)"
proof -
  obtain a where a: "rep E m a" "erase a = t" using assms(2) by (auto simp: repr_tree_def)
  have "length (aids a) \<le> hash_fuel m" using rlp_laws.rep_fuel [OF assms(1) a(1)] .
  from subtree_num_nodes_spec [OF repD(1) [OF a(1)] this] repD(3) [OF a(1)] a(2) pt_nodes_erase [of a]
  show ?thesis by (simp add: subtree_num_nodes_def)
qed

end
