(* ===== verification/Decode_Bounds.thy ===== *)
theory Decode_Bounds
  imports Codec_Decode
begin

text \<open>
  Resources of the decoder on arbitrary input: every level of the recursion consumes input, so the
  recursion ends within the length of the input, and no more nodes are allocated than the input has
  bytes.
\<close>

section \<open>Recursion depth\<close>

definition in_fuel :: "('e, 'a) outcome \<times> 's \<Rightarrow> bool" where
  "in_fuel r \<longleftrightarrow> fst r \<noteq> Panic StackOverflow"

lemma in_fuel_simps [simp]:
  "in_fuel (Ok a, s)" "in_fuel (Err e, s)" "in_fuel (Panic p, s) \<longleftrightarrow> p \<noteq> StackOverflow"
  by (simp_all add: in_fuel_def)

lemma in_fuel_and_then:
  "in_fuel r \<Longrightarrow> (\<And>a s. r = (Ok a, s) \<Longrightarrow> in_fuel (f a s)) \<Longrightarrow> in_fuel (and_then r f)"
  by (cases r; cases "fst r") auto

text \<open>What a decoder of a node may do with inputs shorter than \<open>N\<close>.\<close>

definition arena_step :: "mpt \<Rightarrow> bytes \<Rightarrow> mpt \<Rightarrow> bytes \<Rightarrow> bool" where
  "arena_step m bs m' bs' \<longleftrightarrow> length bs' \<le> length bs
     \<and> length (nodes m') + length bs' \<le> length (nodes m) + length bs
     \<and> (length (cached_references m) = length (nodes m) \<longrightarrow> length (cached_references m') = length (nodes m'))"

lemma arena_step_refl [simp]: "arena_step m bs m bs"
  by (simp add: arena_step_def)

lemma arena_step_trans: "arena_step m bs m1 bs1 \<Longrightarrow> arena_step m1 bs1 m2 bs2 \<Longrightarrow> arena_step m bs m2 bs2"
  by (auto simp: arena_step_def)

lemma arena_step_add:
  "arena_step m rest m1 bs' \<Longrightarrow> length rest < length bs \<Longrightarrow> add_node nd r m1 = (i, m') \<Longrightarrow> arena_step m bs m' bs'"
  by (auto simp: arena_step_def add_node_def)

definition dec_bounded :: "nat \<Rightarrow> node_decoder \<Rightarrow> bool" where
  "dec_bounded N dec \<longleftrightarrow> (\<forall>bs r m. length bs < N \<longrightarrow> in_fuel (dec bs r m))
     \<and> (\<forall>bs r m i bs' m'. dec bs r m = (Ok (i, bs'), m') \<longrightarrow> arena_step m bs m' bs')"

lemma dec_boundedD:
  assumes "dec_bounded N dec"
  shows "length bs < N \<Longrightarrow> in_fuel (dec bs r m)" "dec bs r m = (Ok (i, bs'), m') \<Longrightarrow> arena_step m bs m' bs'"
  using assms unfolding dec_bounded_def by blast+

lemma decode_child_bounded:
  assumes "dec_bounded N dec"
  shows "length bs < N \<Longrightarrow> in_fuel (decode_child E dec item bs m)"
    "decode_child E dec item bs m = (Ok (x, bs'), m') \<Longrightarrow> arena_step m bs m' bs'"
  by (auto simp: decode_child_def Let_def intro!: in_fuel_and_then dec_boundedD(1) [OF assms]
      dest: dec_boundedD(2) [OF assms] elim!: and_then_OkE split: if_splits)

lemma decode_item_in_fuel [simp]: "in_fuel (decode_item E bs, m)"
  by (auto simp: in_fuel_def decode_item_def advance_unchecked_def split: sum.split prod.split)

lemma advance_in_fuel [simp]: "in_fuel (advance_unchecked bs n, m)"
  by (auto simp: in_fuel_def advance_unchecked_def)

lemma check_in_fuel [simp]: "in_fuel (check_node_ref E l p rlp r, m)"
  by (auto simp: in_fuel_def check_node_ref_def)

lemma decode_children_arena:
  assumes "dec_bounded N dec"
  shows "decode_children n E dec payload bs m = (Ok (xs, q, bs'), m') \<Longrightarrow> arena_step m bs m' bs'"
proof (induction n arbitrary: payload bs m xs)
  case (Suc n)
  then show ?case
    by (auto elim!: and_then_OkE intro: arena_step_trans decode_child_bounded(2) [OF assms])
qed simp

lemma decode_children_in_fuel:
  assumes "dec_bounded N dec" "length bs < N"
  shows "in_fuel (decode_children n E dec payload bs m)"
  using assms(2)
proof (induction n arbitrary: payload bs m)
  case (Suc n)
  have "in_fuel (decode_children n E dec payload' bs' m')" if "arena_step m bs m' bs'" for payload' bs' m'
    using Suc that by (simp add: arena_step_def)
  with Suc.prems show ?case
    by (auto intro!: in_fuel_and_then decode_child_bounded(1) [OF assms(1)]
        dest!: decode_child_bounded(2) [OF assms(1)])
qed simp

lemma decode_branch_arena:
  assumes "dec_bounded N dec" "length rest < length bs"
    and "decode_branch E dec item0 item1 payload rest r m = (Ok (i, bs'), m')"
  shows "arena_step m bs m' bs'"
proof -
  from assms(3) obtain x0 bs0 m0 x1 bs1 m1 xs q m2 where
    "decode_child E dec item0 rest m = (Ok (x0, bs0), m0)" "decode_child E dec item1 bs0 m0 = (Ok (x1, bs1), m1)"
    "decode_children 14 E dec payload bs1 m1 = (Ok (xs, q, bs'), m2)"
    "add_node (Branch (x0 # x1 # xs)) (Some r) m2 = (i, m')"
    by (auto simp: decode_branch_def elim!: and_then_OkE split: prod.splits if_splits)
  with arena_step_add [OF _ assms(2)] show ?thesis
    by (meson arena_step_trans decode_child_bounded(2) [OF assms(1)] decode_children_arena [OF assms(1)])
qed

lemma decode_branch_in_fuel:
  assumes "dec_bounded N dec" "length bs < N"
  shows "in_fuel (decode_branch E dec item0 item1 payload bs r m)"
proof -
  have "in_fuel (decode_child E dec item bs' m')" "in_fuel (decode_children n E dec payload bs' m')"
    if "length bs' \<le> length bs" for item n payload bs' m'
    using decode_child_bounded(1) [OF assms(1)] decode_children_in_fuel [OF assms(1)] assms(2) that by simp_all
  then show ?thesis
    unfolding decode_branch_def
    by (auto intro!: in_fuel_and_then dest!: decode_child_bounded(2) [OF assms(1)]
        simp: arena_step_def split: prod.splits)
qed

context rlp_laws
begin

lemma decode_item_split:
  assumes "decode_item E bs = Ok (l, p, rlp, rest)"
  shows "bs = rlp @ rest" "rlp \<noteq> []" "length p \<le> length rlp"
proof -
  from assms obtain n r where h: "header_decode E bs = Inr ((l, n), r)" "n \<le> length r" "rest = drop n r"
    "rlp = take (length bs - length rest) bs" "p = take n r"
    by (auto simp: decode_item_def advance_unchecked_def split: sum.splits if_splits prod.splits)
  from decode_sound [OF h(1)] obtain h' where bs: "bs = h' @ r" "length r < length bs \<or> 0 < n" by blast
  have "bs = (h' @ take n r) @ rest" using bs(1) h(3) by simp
  moreover from this h(4) have "rlp = h' @ take n r" by (simp add: min.absorb2 [OF h(2)])
  ultimately show "bs = rlp @ rest" by simp
  show "length p \<le> length rlp" using \<open>rlp = h' @ take n r\<close> h(5) by simp
  show "rlp \<noteq> []" using \<open>rlp = h' @ take n r\<close> bs h(2) by auto
qed

lemma step_bounded:
  assumes dec: "dec_bounded N (decode_trie_internal f E)"
  shows "length bs < N \<Longrightarrow> in_fuel (list_node_step f E payload r bs m)"
    "list_node_step f E payload r rest m = (Ok (i, bs'), m') \<Longrightarrow> length rest < length bs \<Longrightarrow> arena_step m bs m' bs'"
proof -
  show "in_fuel (list_node_step f E payload r bs m)" if "length bs < N"
    unfolding list_node_step_def
    using dec_boundedD(1) [OF dec that] decode_branch_in_fuel [OF dec that]
    by (auto intro!: in_fuel_and_then split: list.splits prod.splits)
  show "arena_step m bs m' bs'" if run: "list_node_step f E payload r rest m = (Ok (i, bs'), m')"
    and len: "length rest < length bs"
  proof -
    from run consider
        (ext) c j m1 d where "decode_trie_internal f E rest c m = (Ok (j, bs'), m1)" "add_node d (Some r) m1 = (i, m')"
      | (leaf) d where "add_node d (Some r) m = (i, m')" "bs' = rest"
      | (branch) i0 i1 q where "decode_branch E (decode_trie_internal f E) i0 i1 q rest r m = (Ok (i, bs'), m')"
      by (auto simp: list_node_step_def elim!: and_then_OkE split: list.splits if_splits prod.splits)
    then show ?thesis
    proof cases
      case ext
      then have "arena_step m rest m1 bs'" using dec_boundedD(2) [OF dec] by blast
      with ext arena_step_add [OF _ len] show ?thesis by blast
    next
      case leaf
      with arena_step_add [OF arena_step_refl len] show ?thesis by blast
    next
      case branch
      with decode_branch_arena [OF dec len] show ?thesis by blast
    qed
  qed
qed

text \<open>The checks of a node, and that it consumes at least one byte.\<close>

lemma decode_step_Ok:
  assumes "decode_trie_internal (Suc f) E bs expected m = (Ok (i, bs'), m')"
  obtains l p rlp rest r bs2 where "decode_item E bs = Ok (l, p, rlp, rest)" "suffix bs2 bs" "length bs2 < length bs"
    "check_node_ref E l p rlp expected = Ok r"
    "(if \<not> l then
        (if length p = 0 then (Ok (NULL_NODE_ID, bs2), m)
         else if length p = 32 then
           (case add_node (Digest p) (Some (RefDigest p)) m of (i, m) \<Rightarrow> (Ok (i, bs2), m))
         else (Err (RlpError UnexpectedLength), m))
      else list_node_step f E p r bs2 m) = (Ok (i, bs'), m')"
proof -
  from assms obtain l p rlp rest pad bs2 r where
    item: "decode_item E bs = Ok (l, p, rlp, rest)" and
    pad: "advance_unchecked rest (padding_len (length rlp)) = Ok (pad, bs2)" and
    chk: "check_node_ref E l p rlp expected = Ok r" and
    cont: "(if \<not> l then
         (if length p = 0 then (Ok (NULL_NODE_ID, bs2), m)
          else if length p = 32 then
            (case add_node (Digest p) (Some (RefDigest p)) m of (i, m) \<Rightarrow> (Ok (i, bs2), m))
          else (Err (RlpError UnexpectedLength), m))
       else list_node_step f E p r bs2 m) = (Ok (i, bs'), m')"
    by (auto simp: decode_step elim!: and_then_OkE simp del: if_not_P)
  have "rest = pad @ bs2" using pad by (auto simp: advance_unchecked_def split: if_splits)
  with decode_item_split [OF item] have "suffix bs2 bs" "length bs2 < length bs" by (auto simp: suffix_def)
  with that [OF item _ _ chk cont] show thesis by blast
qed

lemma decode_step_in_fuel:
  assumes "\<And>p r bs' m. length bs' < length bs \<Longrightarrow> in_fuel (list_node_step f E p r bs' m)"
  shows "in_fuel (decode_trie_internal (Suc f) E bs expected m)"
proof (cases "decode_item E bs")
  case (Ok x)
  obtain l p rlp rest where x: "x = (l, p, rlp, rest)" by (cases x)
  have len: "length rest < length bs" using Ok x decode_item_split [of bs l p rlp rest] by simp
  have "in_fuel (list_node_step f E p r bs2 m2)"
    if "advance_unchecked rest n = Ok (pad, bs2)" for r n pad bs2 m2
    using that len by (intro assms) (auto simp: advance_unchecked_def split: if_splits)
  with Ok x show ?thesis by (auto simp: decode_step intro!: in_fuel_and_then split: prod.splits)
next
  case (Panic p)
  with decode_item_in_fuel [of E bs m] show ?thesis by (simp add: decode_step)
qed (simp add: decode_step)

lemma decode_bounded: "dec_bounded fuel (decode_trie_internal fuel E)"
proof (induction fuel)
  case 0
  show ?case by (simp add: dec_bounded_def decode_trie_internal.simps)
next
  case (Suc f)
  have "arena_step m bs m' bs'" if run: "decode_trie_internal (Suc f) E bs r m = (Ok (i, bs'), m')" for bs r m i bs' m'
  proof -
    from run obtain l p rlp rest r' bs2 where s: "length bs2 < length bs" "(if \<not> l then
        (if length p = 0 then (Ok (NULL_NODE_ID, bs2), m)
         else if length p = 32 then
           (case add_node (Digest p) (Some (RefDigest p)) m of (i, m) \<Rightarrow> (Ok (i, bs2), m))
         else (Err (RlpError UnexpectedLength), m))
      else list_node_step f E p r' bs2 m) = (Ok (i, bs'), m')" by (rule decode_step_Ok)
    show ?thesis
    proof (cases l)
      case True
      with s step_bounded(2) [OF Suc _ s(1)] show ?thesis by auto
    next
      case False
      with s arena_step_add [OF arena_step_refl s(1)] show ?thesis
        by (auto simp: arena_step_def split: if_splits prod.splits)
    qed
  qed
  moreover have "in_fuel (decode_trie_internal (Suc f) E bs r m)" if "length bs < Suc f" for bs r m
    using step_bounded(1) [OF Suc] that by (intro decode_step_in_fuel) simp
  ultimately show ?case unfolding dec_bounded_def by blast
qed

lemma decode_trie_bounds:
  "decode_trie E bs n \<noteq> Panic StackOverflow
   \<and> (decode_trie E bs n = Ok (m, bs') \<longrightarrow> length (nodes m) + length bs' \<le> length bs + 1)"
proof (cases "bs = [EMPTY_STRING_CODE E, 0, 0, 0]")
  case True
  then show ?thesis by (auto simp: decode_trie_def new_def with_capacity_def)
next
  case False
  let ?m = "with_capacity (n + n div 2)"
  have ref: "root_ref E bs \<noteq> Panic StackOverflow"
    using decode_item_in_fuel [of E bs] by (auto simp: root_ref_def in_fuel_def split: outcome.splits)
  show ?thesis
  proof (cases "root_ref E bs")
    case (Ok r)
    let ?r = "decode_trie_internal (Suc (length bs)) E bs r ?m"
    have "in_fuel ?r" using dec_boundedD(1) [OF decode_bounded] by simp
    moreover have "length (nodes m) + length bs' \<le> length bs + 1" if "?r = (Ok (i, bs'), m)" for i m
      using dec_boundedD(2) [OF decode_bounded that] by (simp add: arena_step_def with_capacity_def)
    ultimately show ?thesis
      using False Ok by (auto simp: decode_trie_def Let_def in_fuel_def split: outcome.splits prod.splits)
  qed (use False ref in \<open>auto simp: decode_trie_def Let_def\<close>)
qed

end

end
