(* ===== verification/Blinded.thy ===== *)
theory Blinded
  imports Trie_Laws
begin

text \<open>
  Pruned tries. A witness does not hold the full state trie but a tree in which some
  hash-addressed subtrees are replaced by their digests: it \<open>blinds\<close> the full trie. Blinding keeps
  every reference and so the root hash. What can be read from the blinded tree is what the full
  trie stores, and updates commute with blinding, so that a client that never sees the full trie
  computes its new root.
\<close>

section \<open>Blinded trees\<close>

inductive blinds :: "ext \<Rightarrow> ptree \<Rightarrow> ptree \<Rightarrow> bool" for E where
  same: "blinds E t t"
| digest: "tree_ref E F = RefDigest d \<Longrightarrow> blinds E (PDigest d) F"
| branch: "length cs = length ds \<Longrightarrow>
    (\<And>i. i < length cs \<Longrightarrow>
       cs ! i = None \<and> ds ! i = None \<or> (\<exists>c d. cs ! i = Some c \<and> ds ! i = Some d \<and> blinds E c d)) \<Longrightarrow>
    blinds E (PBranch cs) (PBranch ds)"
| ext: "blinds E c d \<Longrightarrow> blinds E (PExt p c) (PExt p d)"

inductive_cases blinds_cases [consumes 1, case_names same digest branch ext]: "blinds E t F"

definition blinds_opt :: "ext \<Rightarrow> ptree option \<Rightarrow> ptree option \<Rightarrow> bool" where
  "blinds_opt E x y \<longleftrightarrow> x = None \<and> y = None \<or> (\<exists>c d. x = Some c \<and> y = Some d \<and> blinds E c d)"

definition blinds_kids :: "ext \<Rightarrow> ptree option list \<Rightarrow> ptree option list \<Rightarrow> bool" where
  "blinds_kids E cs ds \<longleftrightarrow> length cs = length ds \<and> (\<forall>i < length cs. blinds_opt E (cs ! i) (ds ! i))"

lemma blinds_opt_simps [simp]:
  "blinds_opt E None y \<longleftrightarrow> y = None" "blinds_opt E x None \<longleftrightarrow> x = None"
  "blinds_opt E (Some c) (Some d) \<longleftrightarrow> blinds E c d"
  "blinds_opt E (Some c) y \<longleftrightarrow> (\<exists>d. y = Some d \<and> blinds E c d)"
  by (auto simp: blinds_opt_def)

lemma blinds_opt_refl [simp]: "blinds_opt E x x"
  by (cases x) (auto intro: blinds.same)

lemma blinds_kids_refl [simp]: "blinds_kids E cs cs"
  by (simp add: blinds_kids_def)

lemma blinds_branch: "blinds_kids E cs ds \<Longrightarrow> blinds E (PBranch cs) (PBranch ds)"
  by (rule blinds.branch) (auto simp: blinds_kids_def blinds_opt_def)

lemma blinds_branchD:
  assumes "blinds E (PBranch cs) F"
  obtains ds where "F = PBranch ds" "blinds_kids E cs ds"
  using assms by (cases rule: blinds_cases) (auto simp: blinds_kids_def blinds_opt_def intro: that)

lemma blinds_kids_nth: "blinds_kids E cs ds \<Longrightarrow> i < length cs \<Longrightarrow> blinds_opt E (cs ! i) (ds ! i)"
  by (simp add: blinds_kids_def)

lemma blinds_kids_length: "blinds_kids E cs ds \<Longrightarrow> length cs = length ds"
  by (simp add: blinds_kids_def)

lemma blinds_kids_update:
  "blinds_kids E cs ds \<Longrightarrow> blinds_opt E x y \<Longrightarrow> blinds_kids E (cs[h := x]) (ds[h := y])"
  unfolding blinds_kids_def by (metis length_list_update nth_list_update nth_list_update_neq)

lemma blinds_kids_remaining: "blinds_kids E cs ds \<Longrightarrow> remaining cs = remaining ds"
  unfolding remaining_def blinds_kids_def by (auto simp: blinds_opt_def intro!: filter_cong)

lemma blinds_extD:
  assumes "blinds E (PExt p c) F"
  obtains d where "F = PExt p d" "blinds E c d"
  using assms by (cases rule: blinds_cases) (auto intro: blinds.same that)

lemma blinds_Leaf: "blinds E (PLeaf p v) F \<Longrightarrow> F = PLeaf p v"
  by (cases rule: blinds_cases) auto

lemma blinds_ref: "blinds E t F \<Longrightarrow> tree_ref E t = tree_ref E F"
proof (induction rule: blinds.induct)
  case (branch cs ds)
  have "map (child_code E) cs = map (child_code E) ds"
  proof (rule nth_equalityI)
    fix i assume "i < length (map (child_code E) cs)"
    with branch(1) branch(2) [of i] show "map (child_code E) cs ! i = map (child_code E) ds ! i"
      by (auto simp: child_code_def)
  qed (use branch in simp)
  then show ?case by (simp add: tree_ref.simps child_code_def [abs_def])
qed (auto simp: tree_ref.simps)

lemma blinds_Null: "blinds E t F \<Longrightarrow> t = PNull \<longleftrightarrow> F = PNull"
  by (cases rule: blinds.cases, assumption) auto

lemma blinds_root_hash: "blinds E t F \<Longrightarrow> root_hash E t = root_hash E F"
  using blinds_ref blinds_Null by (simp add: root_hash_def)

section \<open>Reading\<close>

lemma blinds_get: "blinds E t F \<Longrightarrow> pt_get t k = Ok v \<Longrightarrow> pt_get F k = Ok v"
proof (induction arbitrary: k rule: blinds.induct)
  case (branch cs ds)
  show ?case
  proof (cases k)
    case (Cons i r)
    with branch(1,3) branch(2) [of "unat i"] show ?thesis by (auto split: if_splits)
  qed (use branch in simp)
qed (auto split: if_splits)

lemma blinds_canon:
  assumes "blinds E t F" "canon F" "digests_ok t"
  shows "canon t \<and> (pt_anchor F \<longrightarrow> pt_anchor t)"
  using assms
proof (induction rule: blinds.induct)
  case (branch cs ds)
  have "blinds_kids E cs ds" using branch(1,2) by (auto simp: blinds_kids_def blinds_opt_def)
  then have "remaining cs = remaining ds" by (rule blinds_kids_remaining)
  moreover have "case cs ! i of None \<Rightarrow> True | Some c \<Rightarrow> canon c" if "i < length cs" for i
    using branch(1) branch(2) [OF that] branch(3,4) that by (auto split: option.splits)
  ultimately show ?case using branch(1,3) by simp
qed auto

section \<open>Insertion\<close>

lemma blinds_fork:
  assumes "blinds E tx fx" "blinds E ty fy"
  shows "blinds E (pt_fork s x tx y ty) (pt_fork s x fx y fy)"
proof -
  have "blinds_kids E (no_children[unat x := Some tx, unat y := Some ty]) (no_children[unat x := Some fx, unat y := Some fy])"
    using assms by (intro blinds_kids_update) simp_all
  then show ?thesis by (simp add: pt_fork_def Let_def blinds.ext blinds_branch)
qed

lemma blinds_tail: "blinds E c d \<Longrightarrow> blinds E (pt_tail p c) (pt_tail p d)"
  by (simp add: pt_tail_def blinds.ext)

lemma blinds_insert:
  "blinds E t F \<Longrightarrow> pt_insert t k v = Ok (b, t') \<Longrightarrow> \<exists>F'. pt_insert F k v = Ok (b, F') \<and> blinds E t' F'"
proof (induction t arbitrary: k F t' b rule: ptree_induct)
  case Null
  then have "F = PNull" using blinds_Null by blast
  with Null show ?case by (auto intro: blinds.same)
next
  case (Branch cs)
  from Branch.prems(1) obtain ds where ds: "F = PBranch ds" "blinds_kids E cs ds" by (rule blinds_branchD)
  from Branch.prems(2) obtain i r where k: "k = i # r" "unat i < length cs" by (auto split: list.splits if_splits)
  note kid = blinds_kids_nth [OF ds(2) k(2)] and len = blinds_kids_length [OF ds(2)]
  show ?case
  proof (cases "cs ! unat i")
    case None
    with kid Branch.prems(2) k ds len show ?thesis by (auto intro!: blinds_branch blinds_kids_update)
  next
    case (Some c)
    with kid obtain d where d: "ds ! unat i = Some d" "blinds E c d" by auto
    from Branch.prems(2) Some k obtain c' where c': "pt_insert c r v = Ok (b, c')" "t' = PBranch (cs[unat i := Some c'])"
      by (auto split: outcome.splits)
    from Branch.IH [OF k(2) Some d(2) c'(1)] obtain d' where "pt_insert d r v = Ok (b, d')" "blinds E c' d'" by blast
    with c' d k ds len show ?thesis by (auto intro!: blinds_branch blinds_kids_update)
  qed
next
  case (Leaf p w)
  then have "F = PLeaf p w" using blinds_Leaf by blast
  with Leaf show ?case by (auto intro: blinds.same)
next
  case (Ext p c)
  from Ext.prems(1) obtain d where d: "F = PExt p d" "blinds E c d" by (rule blinds_extD)
  show ?case
  proof (cases "lcp p k = length p")
    case True
    with Ext.prems(2) obtain c' where c': "pt_insert c (drop (lcp p k) k) v = Ok (b, c')" "t' = PExt p c'"
      by (auto simp: pt_insert.simps(4) Let_def split: outcome.splits)
    from Ext.IH [OF d(2) c'(1)] obtain d' where "pt_insert d (drop (lcp p k) k) v = Ok (b, d')" "blinds E c' d'" by blast
    with True c' d show ?thesis by (auto simp: pt_insert.simps(4) Let_def intro: blinds.ext)
  next
    case False
    with Ext.prems(2) d show ?thesis
      by (auto simp: pt_insert.simps(4) Let_def intro!: blinds_fork blinds_tail blinds.same split: if_splits)
  qed
qed simp

section \<open>Deletion\<close>

text \<open>
  A branch that loses its second-last child is merged with the last one. When that child is an
  unresolved digest, the code assumes that it stands for a branch. \<open>merge_known t k\<close>: deleting \<open>k\<close>
  merges no such child.
\<close>

definition known :: "ptree \<Rightarrow> bool" where
  "known c \<longleftrightarrow> (case c of PDigest d \<Rightarrow> False | _ \<Rightarrow> True)"

function merge_known :: "ptree \<Rightarrow> nibs \<Rightarrow> bool" where
  "merge_known (PBranch cs) k \<longleftrightarrow>
     (case k of
        [] \<Rightarrow> True
      | i # r \<Rightarrow>
          (if unat i < length cs then
             (case cs ! unat i of
                None \<Rightarrow> True
              | Some c \<Rightarrow> merge_known c r
                  \<and> (case remaining (cs[unat i := None]) of
                       [j] \<Rightarrow> known (the (cs ! j))
                     | _ \<Rightarrow> True))
           else True))"
| "merge_known (PExt p c) k \<longleftrightarrow> (prefix p k \<longrightarrow> merge_known c (drop (length p) k))"
| "merge_known PNull k = True"
| "merge_known (PLeaf p v) k = True"
| "merge_known (PDigest d) k = True"
  by pat_completeness auto
termination
  by (relation "measure (\<lambda>(t, _). size t)") (auto simp: termination_simp)

lemma known_simps [simp]:
  "known PNull" "known (PBranch cs)" "known (PLeaf p v)" "known (PExt p c)" "\<not> known (PDigest d)"
  by (simp_all add: known_def)

lemma known_join: "known (pt_join p c)"
  by (cases c) auto

lemma known_collapse: "known (pt_collapse cs)"
  by (simp add: pt_collapse_def known_join split: list.split)

lemma known_delete: "pt_delete t k = Ok (True, t') \<Longrightarrow> known t'"
  by (cases t) (auto simp: known_join known_collapse split: list.splits if_splits option.splits outcome.splits)

lemma blinds_join:
  assumes "blinds E c d" "known c"
  shows "blinds E (pt_join p c) (pt_join p d)"
  using assms(1)
proof (cases rule: blinds_cases)
  case (branch cs ds)
  with assms(1) show ?thesis by (simp add: blinds.ext)
qed (use assms in \<open>auto intro: blinds.intros\<close>)

lemma blinds_collapse:
  assumes k: "blinds_kids E cs ds" and "\<And>j. remaining cs = [j] \<Longrightarrow> known (the (cs ! j))"
  shows "blinds E (pt_collapse cs) (pt_collapse ds)"
proof (cases "\<exists>j. remaining cs = [j]")
  case True
  then obtain j where j: "remaining cs = [j]" by blast
  then have "j < length cs" "cs ! j \<noteq> None" using set_remaining [of cs] by auto
  with blinds_kids_nth [OF k] obtain c d where c: "cs ! j = Some c" "ds ! j = Some d" "blinds E c d" by fastforce
  with blinds_join [OF c(3)] assms(2) [OF j] j blinds_kids_remaining [OF k] show ?thesis
    by (simp add: pt_collapse_def)
next
  case False
  with blinds_kids_remaining [OF k] blinds_branch [OF k] show ?thesis
    by (auto simp: pt_collapse_def split: list.split)
qed

lemma blinds_delete:
  "blinds E t F \<Longrightarrow> merge_known t k \<Longrightarrow> canon_top t \<Longrightarrow> pt_delete t k = Ok (b, t') \<Longrightarrow>
   \<exists>F'. pt_delete F k = Ok (b, F') \<and> blinds E t' F'"
proof (induction t arbitrary: k F t' b rule: ptree_induct)
  case Null
  then have "F = PNull" using blinds_Null by blast
  with Null show ?case by (auto intro: blinds.same)
next
  case (Branch cs)
  from Branch.prems(1) obtain ds where ds: "F = PBranch ds" "blinds_kids E cs ds" by (rule blinds_branchD)
  from Branch.prems(4) obtain i r where k: "k = i # r" "unat i < length cs" by (auto split: list.splits if_splits)
  note kid = blinds_kids_nth [OF ds(2) k(2)] and len = blinds_kids_length [OF ds(2)]
  show ?case
  proof (cases "cs ! unat i")
    case None
    with kid Branch.prems k ds len show ?thesis by auto
  next
    case (Some c)
    with kid obtain d where d: "ds ! unat i = Some d" "blinds E c d" by auto
    have known: "merge_known c r" and last: "remaining (cs[unat i := None]) = [j] \<Longrightarrow> known (the (cs ! j))" for j
      using Branch.prems(2) Some k by (auto split: list.splits)
    have "canon c" "2 \<le> length (remaining cs)"
      using Branch.prems(3) Some k canon_child [of cs "unat i" c] by (auto simp: canon_top_def)
    from Branch.prems(4) Some k obtain b' c' where c': "pt_delete c r = Ok (b', c')" by (auto split: outcome.splits)
    from Branch.IH [OF k(2) Some d(2) known _ c'] \<open>canon c\<close> obtain d' where
      d': "pt_delete d r = Ok (b', d')" "blinds E c' d'" by (auto simp: canon_top_def)
    show ?thesis
    proof (cases b')
      case True
      let ?x = "\<lambda>c. if c = PNull then None else Some c"
      have "blinds_kids E (cs[unat i := ?x c']) (ds[unat i := ?x d'])"
        using d'(2) blinds_Null [OF d'(2)] by (intro blinds_kids_update [OF ds(2)]) auto
      moreover have "known (the (cs[unat i := ?x c'] ! j))" if "remaining (cs[unat i := ?x c']) = [j]" for j
      proof (cases "c' = PNull")
        case True
        then have r: "remaining (cs[unat i := None]) = [j]" using that by simp
        then have "j \<in> set (remaining (cs[unat i := None]))" by (simp del: set_remaining)
        then have "j \<noteq> unat i" using k(2) by auto
        with last [OF r] True show ?thesis by simp
      next
        case False
        then have "remaining cs = [j]" using that remaining_replace [OF k(2), of c'] Some by simp
        with \<open>2 \<le> length (remaining cs)\<close> show ?thesis by simp
      qed
      ultimately have "blinds E (pt_collapse (cs[unat i := ?x c'])) (pt_collapse (ds[unat i := ?x d']))"
        by (rule blinds_collapse)
      moreover have "b" "t' = pt_collapse (cs[unat i := ?x c'])" using Branch.prems(4) True Some k c' by simp_all
      ultimately show ?thesis
        using True k d d' ds len by (intro exI [of _ "pt_collapse (ds[unat i := ?x d'])"]) simp
    next
      case False
      moreover from this have "\<not> b" "t' = PBranch cs" using Branch.prems(4) Some k c' by simp_all
      ultimately show ?thesis
        using Branch.prems(1) k d d' ds len by (intro exI [of _ F]) simp
    qed
  qed
next
  case (Leaf p w)
  then have "F = PLeaf p w" using blinds_Leaf by blast
  with Leaf show ?case by (auto intro: blinds.same)
next
  case (Ext p c)
  from Ext.prems(1) obtain d where d: "F = PExt p d" "blinds E c d" by (rule blinds_extD)
  show ?case
  proof (cases "prefix p k")
    case True
    with Ext.prems(4) obtain b' c' where c': "pt_delete c (drop (length p) k) = Ok (b', c')"
      by (auto split: outcome.splits)
    have "merge_known c (drop (length p) k)" "canon_top c" using Ext.prems(2,3) True by (auto simp: canon_top_def)
    from Ext.IH [OF d(2) this c'] obtain d' where
      d': "pt_delete d (drop (length p) k) = Ok (b', d')" "blinds E c' d'" by blast
    with True c' d Ext.prems(1,4) blinds_join [OF d'(2)] known_delete show ?thesis by (auto split: if_splits)
  next
    case False
    with Ext.prems d show ?thesis by auto
  qed
qed simp

end
