(* ===== verification/Codec_Authentic.thy ===== *)
theory Codec_Authentic
  imports Decode_Bounds Blinded
begin

text \<open>
  The decoder on arbitrary input. The bytes of a witness come from an untrusted host; the decoder
  checks every node against the reference its parent holds. The theory shows that, when the decoded
  trie has the root of a full trie, it blinds this trie, whatever the bytes are: everything that can
  be read from it is authentic. The only way out is a Keccak collision between a part of the input
  and the encoding of a node of the full trie, which the hypothesis \<open>collision_free\<close> excludes.
\<close>

section \<open>Full tries\<close>

function pt_subs :: "ptree \<Rightarrow> ptree list" where
  "pt_subs t = t # concat (map pt_subs (pkids t))"
  by pat_completeness auto
termination
  by (relation "measure size") (auto dest: size_pkids)

declare pt_subs.simps [simp del]

lemma pt_subs_self: "t \<in> set (pt_subs t)"
  by (subst pt_subs.simps) simp

lemma pt_subs_kid: "c \<in> set (pkids t) \<Longrightarrow> set (pt_subs c) \<subseteq> set (pt_subs t)"
  by (subst (2) pt_subs.simps) auto

definition collision_free :: "ext \<Rightarrow> bytes \<Rightarrow> ptree \<Rightarrow> bool" where
  "collision_free E bs F \<longleftrightarrow> (\<forall>x s. sublist x bs \<longrightarrow> s \<in> set (pt_subs F) \<longrightarrow>
     keccak256 E x = keccak256 E (tree_rlp E s) \<longrightarrow> x = tree_rlp E s)"

definition full_trie :: "ext \<Rightarrow> ptree \<Rightarrow> bool" where
  "full_trie E F \<longleftrightarrow> canon F \<and> resolved F \<and> (\<forall>s \<in> set (pt_subs F). length (tree_rlp E s) < 2 ^ 64)"

lemma resolved_pkids: "resolved t \<Longrightarrow> c \<in> set (pkids t) \<Longrightarrow> resolved c"
  by (cases t) (force simp: in_set_conv_nth split: option.splits)+

lemma collision_free_kid:
  "collision_free E bs F \<Longrightarrow> c \<in> set (pkids F) \<Longrightarrow> suffix bs' bs \<Longrightarrow> collision_free E bs' c"
  unfolding collision_free_def using pt_subs_kid suffix_imp_sublist sublist_order.order.trans by blast

lemma collision_free_suffix: "collision_free E bs F \<Longrightarrow> suffix bs' bs \<Longrightarrow> collision_free E bs' F"
  unfolding collision_free_def using suffix_imp_sublist sublist_order.order.trans by blast

lemma collision_freeD:
  "collision_free E bs F \<Longrightarrow> sublist x bs \<Longrightarrow> keccak256 E x = keccak256 E (tree_rlp E F) \<Longrightarrow> x = tree_rlp E F"
  unfolding collision_free_def using pt_subs_self by blast

context rlp_laws
begin

lemma full_kid: "full_trie E F \<Longrightarrow> c \<in> set (pkids F) \<Longrightarrow> full_trie E c"
  unfolding full_trie_def using canon_pkids resolved_pkids pt_subs_kid by blast

lemma full_list_node: "full_trie E F \<Longrightarrow> is_list_node F"
  by (cases F) (auto simp: full_trie_def)

lemma full_payload:
  assumes "full_trie E F"
  shows "length (tree_payload E F) < 2 ^ 64"
proof -
  have "length (tree_rlp E F) < 2 ^ 64" using assms pt_subs_self by (auto simp: full_trie_def)
  then show ?thesis using tree_rlp_list [OF full_list_node [OF assms]] by (simp add: list_rlp_def)
qed

section \<open>One node\<close>

lemma checked_node:
  assumes F: "full_trie E F" and free: "collision_free E bs F"
    and item: "decode_item E bs = Ok (l, p, rlp, rest)"
    and chk: "check_node_ref E l p rlp (tree_ref E F) = Ok r"
  shows "r = tree_ref E F \<and> (l \<and> p = tree_payload E F \<or> \<not> l \<and> length p = 32 \<and> tree_ref E F = RefDigest p)"
proof -
  note bs = decode_item_split [OF item]
  have can: "canon F" using F by (simp add: full_trie_def)
  have sub: "sublist rlp bs" using bs(1) by (simp add: sublist_appendI [of rlp "[]", simplified])
  have rlpF: "tree_rlp E F = list_rlp E (tree_payload E F)" using tree_rlp_list [OF full_list_node [OF F]] .
  have listI: "l \<and> p = tree_payload E F" if "rlp = tree_rlp E F"
    using decode_item_list [OF full_payload [OF F], of rest] item bs(1) that rlpF by simp
  show ?thesis
  proof (cases "length rlp < 32")
    case True
    then have r: "rlp = as_slice (tree_ref E F)" "r = RefBytes rlp"
      using chk by (auto simp: check_node_ref_def split: if_splits)
    have ref: "tree_ref E F = RefBytes rlp \<and> rlp = tree_rlp E F"
      using can by (cases rule: tree_ref_cases) (use r True rlpF in auto)
    then have "l \<and> p = tree_payload E F" by (intro listI) blast
    with ref r(2) show ?thesis by metis
  next
    case False
    then have r: "r = tree_ref E F" using chk by (auto simp: check_node_ref_def split: if_splits)
    show ?thesis
    proof (cases "length p = 32 \<and> \<not> l")
      case True
      then have p: "p = as_slice (tree_ref E F)" using False chk by (auto simp: check_node_ref_def split: if_splits)
      have "tree_ref E F = RefDigest p" using can by (cases rule: tree_ref_cases) (use p True in auto)
      with r True show ?thesis by simp
    next
      case notdig: False
      then have k: "keccak256 E rlp = as_slice (tree_ref E F)"
        using False chk by (auto simp: check_node_ref_def split: if_splits)
      have "keccak256 E rlp = keccak256 E (tree_rlp E F)"
        using can
      proof (cases rule: tree_ref_cases)
        case (digest d)
        with k tree_ref_list [OF full_list_node [OF F], of E] show ?thesis
          by (auto simp: ref_of_rlp_def split: if_splits)
      next
        case inline
        with k keccak_length [of rlp] show ?thesis by auto
      qed
      then have "l \<and> p = tree_payload E F" by (intro listI collision_freeD [OF free sub])
      with r show ?thesis by blast
    qed
  qed
qed

lemma decode_node:
  assumes F: "full_trie E F" "collision_free E bs F"
    and run: "decode_trie_internal (Suc f) E bs (tree_ref E F) m = (Ok (i, bs'), m')"
  obtains
    (digest) d where "tree_ref E F = RefDigest d" "length d = 32" "add_node (Digest d) (Some (RefDigest d)) m = (i, m')"
      "suffix bs' bs" "length bs' < length bs"
  | (node) bs2 where "suffix bs2 bs" "length bs2 < length bs"
      "list_node_step f E (tree_payload E F) (tree_ref E F) bs2 m = (Ok (i, bs'), m')"
proof -
  from run obtain l p rlp rest r bs2 where
    item: "decode_item E bs = Ok (l, p, rlp, rest)" and suf: "suffix bs2 bs" "length bs2 < length bs" and
    chk: "check_node_ref E l p rlp (tree_ref E F) = Ok r" and
    cont: "(if \<not> l then
         (if length p = 0 then (Ok (NULL_NODE_ID, bs2), m)
          else if length p = 32 then
            (case add_node (Digest p) (Some (RefDigest p)) m of (i, m) \<Rightarrow> (Ok (i, bs2), m))
          else (Err (RlpError UnexpectedLength), m))
       else list_node_step f E p r bs2 m) = (Ok (i, bs'), m')"
    by (rule decode_step_Ok)
  note c = checked_node [OF F item chk]
  show thesis
  proof (cases l)
    case True
    with c cont show ?thesis by (intro node [OF suf]) auto
  next
    case False
    with c cont suf show ?thesis by (intro digest [of p]) (auto split: prod.splits)
  qed
qed

section \<open>Subtrees\<close>

definition auth_post :: "ptree \<Rightarrow> mpt \<Rightarrow> bytes \<Rightarrow> node_id \<Rightarrow> bytes \<Rightarrow> mpt \<Rightarrow> bool" where
  "auth_post F m bs i bs' m' \<longleftrightarrow>
     (\<exists>a. aid a = i \<and> blinds E (erase a) F \<and> dec_post m m' [a] \<and> suffix bs' bs
        \<and> length (nodes m') + length bs' \<le> length (nodes m) + length bs)"

definition dec_auth :: "node_decoder \<Rightarrow> ptree \<Rightarrow> bool" where
  "dec_auth dec F \<longleftrightarrow> (\<forall>m bs i bs' m'. arena_ok m (length bs) \<longrightarrow> collision_free E bs F \<longrightarrow>
     dec bs (tree_ref E F) m = (Ok (i, bs'), m') \<longrightarrow> auth_post F m bs i bs' m')"

definition kid_auth :: "node_decoder \<Rightarrow> bytes \<Rightarrow> ptree option \<Rightarrow> bool" where
  "kid_auth dec bs c \<longleftrightarrow> (\<forall>t. c = Some t \<longrightarrow> dec_auth dec t \<and> full_trie E t \<and> collision_free E bs t)"

lemma kid_auth_suffix: "kid_auth dec bs c \<Longrightarrow> suffix bs' bs \<Longrightarrow> kid_auth dec bs' c"
  using collision_free_suffix by (auto simp: kid_auth_def)

lemma arena_ok_step:
  "arena_ok m (length bs) \<Longrightarrow> dec_post m m' as \<Longrightarrow> length (nodes m') + length bs' \<le> length (nodes m) + length bs \<Longrightarrow>
   arena_ok m' (length bs')"
  using dec_post_lengths [of m m' as] by (simp add: arena_ok_def)

lemma decode_child_auth:
  assumes ok: "arena_ok m (length bs)" and c: "kid_auth dec bs c"
    and run: "decode_child E dec (child_code E c) bs m = (Ok (x, bs'), m')"
  shows "\<exists>a. x = map_option aid a \<and> blinds_opt E (map_option erase a) c \<and> dec_post m m' (somes [a])
    \<and> suffix bs' bs \<and> length (nodes m') + length bs' \<le> length (nodes m) + length bs"
proof (cases c)
  case None
  with run ok dec_post_nil [of m] show ?thesis
    by (intro exI [of _ None])
       (simp add: decode_child_def from_rlp_slice_def NULL_NODE_REF_SLICE_def arena_ok_def)
next
  case (Some t)
  with c have t: "dec_auth dec t" "canon t" "collision_free E bs t" by (auto simp: kid_auth_def full_trie_def)
  have "\<exists>i. x = Some i \<and> dec bs (tree_ref E t) m = (Ok (i, bs'), m')"
    using run Some from_rlp_slice_ref [OF t(2)] ref_not_null [OF t(2)]
    by (auto simp: decode_child_def NULL_NODE_REF_SLICE_def and_then_Ok_iff)
  then obtain i where i: "x = Some i" "dec bs (tree_ref E t) m = (Ok (i, bs'), m')" by blast
  then obtain a where "aid a = i" "blinds E (erase a) t" "dec_post m m' [a]" "suffix bs' bs"
    "length (nodes m') + length bs' \<le> length (nodes m) + length bs"
    using t(1,3) ok unfolding dec_auth_def auth_post_def by blast
  with i Some show ?thesis by (intro exI [of _ "Some a"]) simp
qed

lemma decode_children_auth:
  assumes "arena_ok m (length bs)" "\<forall>c \<in> set cs. kid_auth dec bs c"
    and "decode_children (length cs) E dec (concat (map (child_code E) cs) @ q) bs m = (Ok (xs, q', bs'), m')"
  shows "\<exists>as. xs = map (map_option aid) as \<and> q' = q \<and> list_all2 (blinds_opt E) (map (map_option erase) as) cs
    \<and> dec_post m m' (somes as) \<and> suffix bs' bs \<and> length (nodes m') + length bs' \<le> length (nodes m) + length bs"
  using assms
proof (induction cs arbitrary: m bs xs)
  case Nil
  then show ?case using dec_post_nil [of m] by (auto simp: arena_ok_def)
next
  case (Cons c cs)
  have c: "kid_auth dec bs c" using Cons.prems(2) by simp
  then have "\<And>t. c = Some t \<Longrightarrow> canon t" by (simp add: kid_auth_def full_trie_def)
  then obtain l p where item: "decode_item E (child_code E c @ concat (map (child_code E) cs) @ q) =
    Ok (l, p, child_code E c, concat (map (child_code E) cs) @ q)" using decode_item_child by blast
  from Cons.prems(3) item obtain x bs1 m1 ys where
    x: "decode_child E dec (child_code E c) bs m = (Ok (x, bs1), m1)" and
    ys: "decode_children (length cs) E dec (concat (map (child_code E) cs) @ q) bs1 m1 = (Ok (ys, q', bs'), m')"
      "xs = x # ys"
    by (auto simp: and_then_Ok_iff)
  from decode_child_auth [OF Cons.prems(1) c x] obtain a where
    a: "x = map_option aid a" "blinds_opt E (map_option erase a) c" "dec_post m m1 (somes [a])" "suffix bs1 bs"
      "length (nodes m1) + length bs1 \<le> length (nodes m) + length bs" by blast
  have "\<forall>c \<in> set cs. kid_auth dec bs1 c" using Cons.prems(2) kid_auth_suffix [OF _ a(4)] by simp
  from Cons.IH [OF arena_ok_step [OF Cons.prems(1) a(3,5)] this ys(1)] obtain as where
    as: "ys = map (map_option aid) as" "q' = q" "list_all2 (blinds_opt E) (map (map_option erase) as) cs"
      "dec_post m1 m' (somes as)" "suffix bs' bs1" "length (nodes m') + length bs' \<le> length (nodes m1) + length bs1"
    by blast
  have "dec_post m m' (somes (a # as))" using dec_post_append [OF a(3) as(4)] by (cases a) simp_all
  with a as ys(2) show ?case
    by (intro exI [of _ "a # as"]) (auto intro: suffix_order.trans)
qed

text \<open>The node itself is added last, on top of its decoded children.\<close>

lemma auth_postI:
  assumes ok: "arena_ok m (length bs)" and rest: "length rest < length bs" "suffix rest bs"
    and kids: "dec_post m m1 (akids a)" "suffix bs' rest" "length (nodes m1) + length bs' \<le> length (nodes m) + length rest"
    and a: "blinds E (erase a) F" "shape_ok a" "add_node (node_of a) (Some (tree_ref E F)) m1 = (aid a, m')"
  shows "auth_post F m bs (aid a) bs' m'"
proof -
  have "arena_ok m1 1" using ok rest(1) kids(3) dec_post_lengths [OF kids(1)] by (simp add: arena_ok_def)
  moreover have "tree_ref E (erase a) = tree_ref E F" using blinds_ref [OF a(1)] .
  ultimately have "dec_post m m' [a]" "length (nodes m') = Suc (length (nodes m1))"
    using add_node_dec_post [OF kids(1) _ _ a(2), of m'] a(3) by simp_all
  with a(1) rest kids(2,3) show ?thesis
    unfolding auth_post_def by (intro exI [of _ a]) (auto intro: suffix_order.trans)
qed

lemma path_item:
  assumes "full_trie E F" "tree_payload E F = bytes_encode E path @ r"
  shows "decode_item E (tree_payload E F) = Ok (False, path, bytes_encode E path, r)"
proof -
  from arg_cong [OF assms(2), of length] bytes_encode_length [of path] full_payload [OF assms(1)]
  have "length path < 2 ^ 64" by simp
  with decode_item_bytes assms(2) show ?thesis by simp
qed

lemma leaf_auth:
  assumes F: "full_trie E (PLeaf p v)" and ok: "arena_ok m (length bs)" and rest: "suffix rest bs" "length rest < length bs"
    and run: "list_node_step f E (tree_payload E (PLeaf p v)) (tree_ref E (PLeaf p v)) rest m = (Ok (i, bs'), m')"
  shows "auth_post (PLeaf p v) m bs i bs' m'"
proof -
  let ?path = "to_encoded_path p True"
  have nib: "nibbles p" using F by (simp add: full_trie_def)
  have flag: "\<exists>b bs. ?path = b # bs \<and> b AND 0x20 \<noteq> 0"
    using leaf_flag [of p True] nib to_encoded_path_nonempty [of p True] by (cases ?path) auto
  have "length v < 2 ^ 64" using full_payload [OF F] bytes_encode_length [of v] by simp
  then have "decode_item E (bytes_encode E v) = Ok (False, v, bytes_encode E v, [])"
    using decode_item_bytes [of v "[]"] by simp
  with path_item [OF F, of ?path "bytes_encode E v"] run flag
  have "add_node (Leaf ?path v) (Some (tree_ref E (PLeaf p v))) m = (i, m')" "bs' = rest"
    by (auto simp: list_node_step_def split: prod.splits)
  then show ?thesis
    using auth_postI [OF ok rest(2,1), of m "ALeaf i p v" rest "PLeaf p v" m'] dec_post_nil [of m] ok nib
    by (simp add: blinds.same arena_ok_def)
qed

lemma ext_auth:
  assumes F: "full_trie E (PExt p c)" and ok: "arena_ok m (length bs)" and free: "collision_free E bs (PExt p c)"
    and rest: "suffix rest bs" "length rest < length bs" and c: "dec_auth (decode_trie_internal f E) c"
    and run: "list_node_step f E (tree_payload E (PExt p c)) (tree_ref E (PExt p c)) rest m = (Ok (i, bs'), m')"
  shows "auth_post (PExt p c) m bs i bs' m'"
proof -
  let ?path = "to_encoded_path p False"
  have nib: "nibbles p" "canon c" using F by (auto simp: full_trie_def)
  have flag: "\<exists>b bs. ?path = b # bs \<and> b AND 0x20 = 0"
    using leaf_flag [of p False] nib to_encoded_path_nonempty [of p False] by (cases ?path) auto
  obtain l pl where item1: "decode_item E (ref_code E (tree_ref E c)) = Ok (l, pl, ref_code E (tree_ref E c), [])"
    using decode_item_ref [OF nib(2), of "[]"] by auto
  from path_item [OF F, of ?path "ref_code E (tree_ref E c)"] item1 run flag from_rlp_slice_ref [OF nib(2)]
  obtain j m1 where j: "decode_trie_internal f E rest (tree_ref E c) m = (Ok (j, bs'), m1)"
    "add_node (Extension ?path j) (Some (tree_ref E (PExt p c))) m1 = (i, m')"
    by (auto simp: list_node_step_def elim!: and_then_OkE split: prod.splits)
  have "arena_ok m (length rest)" using ok rest(2) by (simp add: arena_ok_def)
  moreover have "collision_free E rest c" using collision_free_kid [OF free _ rest(1)] by simp
  ultimately obtain a where a: "aid a = j" "blinds E (erase a) c" "dec_post m m1 [a]" "suffix bs' rest"
    "length (nodes m1) + length bs' \<le> length (nodes m) + length rest"
    using c j(1) unfolding dec_auth_def auth_post_def by blast
  then show ?thesis
    using auth_postI [OF ok rest(2,1), of m1 "AExt i p a" bs' "PExt p c" m'] j(2) nib(1) by (simp add: blinds.ext)
qed

lemma branch_items:
  assumes "\<And>t. c0 = Some t \<Longrightarrow> canon t" "\<And>t. c1 = Some t \<Longrightarrow> canon t" "q \<noteq> []"
  shows "list_node_step f E (child_code E c0 @ child_code E c1 @ q) r rest m =
    decode_branch E (decode_trie_internal f E) (child_code E c0) (child_code E c1) q rest r m"
proof -
  obtain l0 p0 where "decode_item E (child_code E c0 @ child_code E c1 @ q) = Ok (l0, p0, child_code E c0, child_code E c1 @ q)"
    using decode_item_child [OF assms(1)] by blast
  moreover obtain l1 p1 where "decode_item E (child_code E c1 @ q) = Ok (l1, p1, child_code E c1, q)"
    using decode_item_child [OF assms(2)] by blast
  ultimately show ?thesis using assms(3) by (simp add: list_node_step_def)
qed

text \<open>The first two children are read before the node is known to be a branch; together with the
  other fourteen they are the children in order.\<close>

lemma decode_children_two:
  assumes "decode_child E dec (child_code E c0) bs m = (Ok (x0, bs0), m0)"
    and "decode_child E dec (child_code E c1) bs0 m0 = (Ok (x1, bs1), m1)"
    and "decode_children n E dec (concat (map (child_code E) cs) @ q) bs1 m1 = (Ok (xs, q', bs'), m')"
    and "\<And>t. c0 = Some t \<Longrightarrow> canon t" "\<And>t. c1 = Some t \<Longrightarrow> canon t"
  shows "decode_children (Suc (Suc n)) E dec (concat (map (child_code E) (c0 # c1 # cs)) @ q) bs m =
    (Ok (x0 # x1 # xs, q', bs'), m')"
proof -
  obtain l0 p0 where "decode_item E (child_code E c0 @ child_code E c1 @ concat (map (child_code E) cs) @ q) =
    Ok (l0, p0, child_code E c0, child_code E c1 @ concat (map (child_code E) cs) @ q)"
    using decode_item_child [OF assms(4)] by blast
  moreover obtain l1 p1 where "decode_item E (child_code E c1 @ concat (map (child_code E) cs) @ q) =
    Ok (l1, p1, child_code E c1, concat (map (child_code E) cs) @ q)"
    using decode_item_child [OF assms(5)] by blast
  ultimately show ?thesis using assms(1-3) by simp
qed

lemma branch_auth:
  assumes F: "full_trie E (PBranch cs)" and ok: "arena_ok m (length bs)" and free: "collision_free E bs (PBranch cs)"
    and rest: "suffix rest bs" "length rest < length bs"
    and kids: "\<And>c. c \<in> set (somes cs) \<Longrightarrow> dec_auth (decode_trie_internal f E) c \<and> full_trie E c"
    and run: "list_node_step f E (tree_payload E (PBranch cs)) (tree_ref E (PBranch cs)) rest m = (Ok (i, bs'), m')"
  shows "auth_post (PBranch cs) m bs i bs' m'"
proof -
  let ?dec = "decode_trie_internal f E" and ?nil = "[EMPTY_STRING_CODE E]"
  have len: "length cs = 16" using F by (simp add: full_trie_def)
  then obtain c0 c1 cs' where cs: "cs = c0 # c1 # cs'" "length cs' = 14"
    by (cases cs; cases "tl cs") (auto simp: length_Suc_conv)
  have kid: "kid_auth ?dec rest c" if "c \<in> set cs" for c
    using kids that collision_free_kid [OF free _ rest(1)] by (auto simp: kid_auth_def)
  then have can: "\<And>t. c0 = Some t \<Longrightarrow> canon t" "\<And>t. c1 = Some t \<Longrightarrow> canon t"
    using cs by (auto simp: kid_auth_def full_trie_def)
  have "tree_payload E (PBranch cs) = child_code E c0 @ child_code E c1 @ concat (map (child_code E) cs') @ ?nil"
    using cs by simp
  with run branch_items [OF can, where q = "concat (map (child_code E) cs') @ ?nil"] obtain x0 bs0 m0 x1 bs1 m1 xs q m2 where
    d0: "decode_child E ?dec (child_code E c0) rest m = (Ok (x0, bs0), m0)" and
    d1: "decode_child E ?dec (child_code E c1) bs0 m0 = (Ok (x1, bs1), m1)" and
    d2: "decode_children 14 E ?dec (concat (map (child_code E) cs') @ ?nil) bs1 m1 = (Ok (xs, q, bs'), m2)" and
    add: "add_node (Branch (x0 # x1 # xs)) (Some (tree_ref E (PBranch cs))) m2 = (i, m')"
    by (auto simp: decode_branch_def elim!: and_then_OkE split: prod.splits if_splits)
  have "Suc (Suc 14) = length cs" using len by simp
  with decode_children_two [OF d0 d1 d2 can] cs
  have all: "decode_children (length cs) E ?dec (concat (map (child_code E) cs) @ ?nil) rest m = (Ok (x0 # x1 # xs, q, bs'), m2)"
    by simp
  have "arena_ok m (length rest)" "\<forall>c \<in> set cs. kid_auth ?dec rest c"
    using ok rest(2) kid by (simp_all add: arena_ok_def)
  from decode_children_auth [OF this all] obtain as where as: "x0 # x1 # xs = map (map_option aid) as"
    "list_all2 (blinds_opt E) (map (map_option erase) as) cs" "dec_post m m2 (somes as)" "suffix bs' rest"
    "length (nodes m2) + length bs' \<le> length (nodes m) + length rest"
    by (elim exE conjE)
  have "blinds_kids E (map (map_option erase) as) cs" "length as = 16"
    using as(2) len by (auto simp: blinds_kids_def list_all2_conv_all_nth)
  with as add show ?thesis
    using auth_postI [OF ok rest(2,1), of m2 "ABranch i as" bs' "PBranch cs" m'] blinds_branch by simp
qed

lemma decode_auth:
  "full_trie E F \<Longrightarrow> dec_auth (decode_trie_internal fuel E) F"
proof (induction "size F" arbitrary: F fuel rule: less_induct)
  case less
  have kid: "dec_auth (decode_trie_internal f E) c \<and> full_trie E c" if "c \<in> set (pkids F)" for c f
    using less.hyps [OF size_pkids [OF that]] full_kid [OF less.prems that] by blast
  show ?case
    unfolding dec_auth_def
  proof (intro allI impI)
    fix m bs i bs' m'
    assume ok: "arena_ok m (length bs)" and free: "collision_free E bs F"
      and run: "decode_trie_internal fuel E bs (tree_ref E F) m = (Ok (i, bs'), m')"
    obtain f where f: "fuel = Suc f" using run by (cases fuel) (auto simp: decode_trie_internal.simps)
    show "auth_post F m bs i bs' m'"
      using less.prems free run [unfolded f]
    proof (cases rule: decode_node)
      case (digest d)
      then show ?thesis
        using auth_postI [OF ok digest(5,4), of m "ADigest i d" bs' F m'] dec_post_nil [of m] ok
        by (simp add: blinds.digest arena_ok_def)
    next
      case (node bs2)
      show ?thesis
      proof (cases F)
        case (PBranch cs)
        with branch_auth [OF _ ok _ node(1,2)] kid less.prems free node(3) show ?thesis by simp
      next
        case (PLeaf p v)
        with leaf_auth [OF _ ok node(1,2)] less.prems node(3) show ?thesis by blast
      next
        case (PExt p c)
        with ext_auth [OF _ ok _ node(1,2)] kid [of c] less.prems free node(3) show ?thesis by simp
      qed (use full_list_node [OF less.prems] in auto)
    qed
  qed
qed

section \<open>The root\<close>

text \<open>The node added last carries the checked reference in its cache, and \<open>hash\<close> returns it.\<close>

lemma list_node_step_last:
  assumes "list_node_step f E p r bs m = (Ok (i, bs'), m')"
  shows "\<exists>nd m1. nd \<noteq> Null \<and> add_node nd (Some r) m1 = (i, m')"
  using assms
  by (fastforce simp: list_node_step_def decode_branch_def elim!: and_then_OkE split: list.splits if_splits prod.splits)

lemma hash_added:
  assumes "add_node nd (Some r) m1 = (i, m')" "nd \<noteq> Null" "length (nodes m') \<le> 2 ^ 32"
    "length (cached_references m') = length (nodes m')"
  shows "fst (hash E (m'\<lparr>root_id := i\<rparr>)) = fst (digest_of_ref E r m')"
proof -
  have "length (cached_references m1) = length (nodes m1)" "length (nodes m1) < 2 ^ 32"
    using assms by (auto simp: add_node_def)
  note an = add_node_spec [OF this assms(1)]
  have nd: "node_at (m'\<lparr>root_id := i\<rparr>) (root_id (m'\<lparr>root_id := i\<rparr>)) = Some nd"
    using an(1) by (simp add: node_at_def)
  have "cell_at (m'\<lparr>root_id := i\<rparr>) i = Some (new_cell (Some r))" using an(2) by (simp add: cell_at_def)
  with hash_case [OF nd assms(2)] show ?thesis
    by (simp add: get_or_insert_ref_def new_cell_def digest_of_ref_def split: node_ref.split option.split)
qed

lemma decode_root_ref:
  assumes root: "root_ref E bs = Ok r" and run: "decode_trie_internal (Suc f) E bs r m = (Ok (i, bs'), m')"
  obtains (null) "i = NULL_NODE_ID" "m' = m"
  | (node) nd m1 where "nd \<noteq> Null" "add_node nd (Some r) m1 = (i, m')" "\<And>x. r = RefBytes x \<Longrightarrow> sublist x bs \<and> length x < 32"
proof -
  from run obtain l p rlp rest r' bs2 where
    item: "decode_item E bs = Ok (l, p, rlp, rest)" and chk: "check_node_ref E l p rlp r = Ok r'" and
    cont: "(if \<not> l then
         (if length p = 0 then (Ok (NULL_NODE_ID, bs2), m)
          else if length p = 32 then
            (case add_node (Digest p) (Some (RefDigest p)) m of (i, m) \<Rightarrow> (Ok (i, bs2), m))
          else (Err (RlpError UnexpectedLength), m))
       else list_node_step f E p r' bs2 m) = (Ok (i, bs'), m')"
    by (rule decode_step_Ok)
  note split = decode_item_split [OF item]
  have sub: "sublist rlp bs" using split(1) by (simp add: sublist_appendI [of rlp "[]", simplified])
  have r: "r = (if length rlp < 32 then RefBytes rlp else if \<not> l then RefDigest p else RefDigest (keccak256 E rlp))"
    using root item by (simp add: root_ref_def)
  have small: "sublist x bs \<and> length x < 32" if "r = RefBytes x" for x using r sub that by (auto split: if_splits)
  have r': "r' = r" using chk r by (auto simp: check_node_ref_def split: if_splits)
  show thesis
  proof (cases l)
    case True
    with cont r' have "list_node_step f E p r bs2 m = (Ok (i, bs'), m')" by simp
    from list_node_step_last [OF this] node [OF _ _ small] show ?thesis by blast
  next
    case False
    consider "length p = 0" | "length p = 32" "add_node (Digest p) (Some (RefDigest p)) m = (i, m')"
      using cont False by (auto split: if_splits prod.splits)
    then show ?thesis
    proof cases
      case 1
      with cont False show ?thesis by (intro null) auto
    next
      case 2
      with r split(3) False have "r = RefDigest p" by auto
      with 2 node [OF _ _ small] show ?thesis by blast
    qed
  qed
qed

lemma decode_trie_auth:
  assumes F: "full_trie E F" "tree_ref E F = RefDigest d" "d \<noteq> EMPTY_ROOT_HASH E" and free: "collision_free E bs F"
    and len: "length bs < 2 ^ 32" and run: "decode_trie E bs n = Ok (m, rest)" and h: "fst (hash E m) = Ok d"
  shows "\<exists>t. repr_tree E m t \<and> blinds E t F"
proof -
  let ?m = "with_capacity (n + n div 2)"
  have empty: "fst (hash E m) = Ok (EMPTY_ROOT_HASH E)" if "repr_tree E m PNull" for m
    using hash_repr [OF that] by (auto simp: root_hash_def)
  then have "m \<noteq> new" "m \<noteq> ?m" using h F(3) repr_new repr_with_capacity by fastforce+
  then obtain r i m1 where r: "root_ref E bs = Ok r"
    and dec: "decode_trie_internal (Suc (length bs)) E bs r ?m = (Ok (i, rest), m1)" and m: "m = m1\<lparr>root_id := i\<rparr>"
    using run by (auto simp: decode_trie_def Let_def split: if_splits outcome.splits prod.splits)
  have bound: "length (nodes m1) \<le> 2 ^ 32" "length (cached_references m1) = length (nodes m1)"
    using dec_boundedD(2) [OF decode_bounded dec] len by (auto simp: arena_step_def with_capacity_def)
  have "r = RefDigest d"
    using r dec
  proof (cases rule: decode_root_ref)
    case null
    with m \<open>m \<noteq> ?m\<close> show ?thesis by (simp add: with_capacity_def NULL_NODE_ID_def)
  next
    case (node nd m2)
    have dig: "fst (digest_of_ref E r m1) = Ok d" using hash_added [OF node(2,1) bound] h m by simp
    show ?thesis
    proof (cases r)
      case (RefBytes x)
      with node(3) have x: "sublist x bs" "length x < 32" by auto
      have "length (tree_rlp E F) \<ge> 32" "d = keccak256 E (tree_rlp E F)"
        using F(2) tree_ref_list [OF full_list_node [OF F(1)], of E] by (auto simp: ref_of_rlp_def split: if_splits)
      with dig RefBytes collision_freeD [OF free x(1)] x(2) show ?thesis by (auto simp: digest_of_ref_def)
    next
      case (RefDigest d')
      with dig show ?thesis by (auto simp: digest_of_ref_def b256_from_slice_def split: if_splits)
    qed
  qed
  moreover have "arena_ok ?m (length bs)" using len by (simp add: arena_ok_def with_capacity_def)
  ultimately obtain a where a: "aid a = i" "blinds E (erase a) F" "dec_post ?m m1 [a]"
    using decode_auth [OF F(1)] free dec F(2) unfolding dec_auth_def auth_post_def by metis
  have "canon F" "holds E m1 a" using F(1) a(3) by (simp_all add: full_trie_def dec_post_def)
  with blinds_canon [OF a(2)] holds_digests_ok have "canon_top (erase a)" by (auto simp: canon_top_def)
  with dec_post_rep [OF a(3)] a m have "rep E m a" by (simp add: with_capacity_def)
  with a(2) show ?thesis unfolding repr_tree_def by blast
qed

end

end
