(* ===== verification/Updatable_Map.thy ===== *)
theory Updatable_Map
  imports Auth_Map Trie_Laws
begin

text \<open>
  The contract of a map that may be partly unknown. A pruned trie answers some reads with an error,
  and an update can fail on it; the laws below say what a successful update does to everything that
  can be read, errors included, and that the root is determined by what can be read. Keys are
  written through \<open>pos\<close>, the position of a key among the readable positions.

  The laws hold for byte keys (\<open>insert\<close>, \<open>delete\<close>) and for nibble keys below a chunk prefix
  (\<open>insert_nibbles\<close>, \<open>delete_nibbles\<close>).
\<close>

definition viewed :: "('k \<Rightarrow> 'p) \<Rightarrow> ('k \<times> 'v option) list \<Rightarrow> ('p \<Rightarrow> ('e, 'v option) outcome) \<Rightarrow> 'p \<Rightarrow>
    ('e, 'v option) outcome" where
  "viewed pos us f = foldl (\<lambda>g (k, v). g(pos k := Ok v)) f us"

lemma viewed_simps [simp]:
  "viewed pos [] f = f" "viewed pos ((k, v) # us) f = viewed pos us (f(pos k := Ok v))"
  by (simp_all add: viewed_def)

lemma viewed_lookup:
  "distinct (map (\<lambda>u. pos (fst u)) us) \<Longrightarrow>
   viewed pos us f p = (case map_of (map (\<lambda>u. (pos (fst u), snd u)) us) p of None \<Rightarrow> f p | Some v \<Rightarrow> Ok v)"
proof (induction us arbitrary: f)
  case (Cons u us)
  obtain k v where u: "u = (k, v)" by (cases u)
  with Cons.prems have "map_of (map (\<lambda>u. (pos (fst u), snd u)) us) (pos k) = None"
    by (force simp: map_of_eq_None_iff)
  with Cons u show ?case by (auto split: option.split)
qed simp

lemma viewed_perm:
  assumes "distinct (map (\<lambda>u. pos (fst u)) us)" "distinct (map (\<lambda>u. pos (fst u)) vs)" "set vs = set us"
  shows "viewed pos vs f = viewed pos us f"
proof -
  let ?g = "\<lambda>u. (pos (fst u), snd u)"
  have "distinct (map fst (map ?g us))" "distinct (map fst (map ?g vs))" using assms(1,2) by (simp_all add: comp_def)
  moreover have "set (map ?g vs) = set (map ?g us)" using assms(3) by simp
  ultimately have "map_of (map ?g vs) = map_of (map ?g us)" by (metis map_of_inject_set)
  with assms(1,2) show ?thesis by (intro ext) (simp add: viewed_lookup)
qed

locale updatable_map =
  fixes valid :: "'s \<Rightarrow> bool"
    and room :: "nat \<Rightarrow> 's \<Rightarrow> bool"
    and pos_ok :: "'p \<Rightarrow> bool"
    and pos :: "'k \<Rightarrow> 'p"
    and view :: "'s \<Rightarrow> 'p \<Rightarrow> ('e, 'v option) outcome"
    and put :: "'k \<Rightarrow> 'v \<Rightarrow> 's \<Rightarrow> ('e, bool) outcome \<times> 's"
    and del :: "'k \<Rightarrow> 's \<Rightarrow> ('e, bool) outcome \<times> 's"
    and root :: "'s \<Rightarrow> ('e, 'h) outcome \<times> 's"
  assumes put_view: "valid s \<Longrightarrow> room (Suc n) s \<Longrightarrow> pos_ok (pos k) \<Longrightarrow> put k v s = (Ok b, s') \<Longrightarrow>
      valid s' \<and> room n s' \<and> (\<forall>p. pos_ok p \<longrightarrow> view s' p = ((view s)(pos k := Ok (Some v))) p)"
    and del_view: "valid s \<Longrightarrow> room (Suc n) s \<Longrightarrow> pos_ok (pos k) \<Longrightarrow> del k s = (Ok b, s') \<Longrightarrow>
      valid s' \<and> room n s' \<and> (\<forall>p. pos_ok p \<longrightarrow> view s' p = ((view s)(pos k := Ok None)) p)"
    and root_view: "valid s \<Longrightarrow> \<exists>h s'. root s = (Ok h, s') \<and> valid s' \<and> (\<forall>n. room n s \<longrightarrow> room n s')
      \<and> (\<forall>p. pos_ok p \<longrightarrow> view s' p = view s p)"
    and root_viewed: "valid s \<Longrightarrow> valid s' \<Longrightarrow> (\<forall>p. pos_ok p \<longrightarrow> view s p = view s' p) \<Longrightarrow>
      fst (root s) = fst (root s')"
begin

lemma viewed_cong:
  "(\<forall>p. pos_ok p \<longrightarrow> f p = g p) \<Longrightarrow> pos_ok p \<Longrightarrow> viewed pos us f p = viewed pos us g p"
proof (induction us arbitrary: f g)
  case (Cons u us)
  then show ?case by (cases u) (auto intro!: Cons.IH)
qed simp

lemma updates_view:
  assumes "valid s" "room (n + length us) s" "list_all (\<lambda>u. pos_ok (pos (fst u))) us"
    and "apply_updates put del us s = (Ok (), s')"
  shows "valid s' \<and> room n s' \<and> (\<forall>p. pos_ok p \<longrightarrow> view s' p = viewed pos us (view s) p)"
  using assms
proof (induction us arbitrary: s)
  case (Cons u us)
  obtain k v where u: "u = (k, v)" by (cases u)
  have r: "room (Suc (n + length us)) s" and k: "pos_ok (pos k)" using Cons.prems u by simp_all
  have "\<exists>s1. apply_updates put del us s1 = (Ok (), s') \<and> valid s1 \<and> room (n + length us) s1
    \<and> (\<forall>p. pos_ok p \<longrightarrow> view s1 p = ((view s)(pos k := Ok v)) p)"
  proof (cases v)
    case None
    with Cons.prems(4) u obtain b s1 where "del k s = (Ok b, s1)" "apply_updates put del us s1 = (Ok (), s')"
      by (auto simp: and_then_Ok_iff)
    with del_view [OF Cons.prems(1) r k] None show ?thesis by blast
  next
    case (Some w)
    with Cons.prems(4) u obtain b s1 where "put k w s = (Ok b, s1)" "apply_updates put del us s1 = (Ok (), s')"
      by (auto simp: and_then_Ok_iff)
    with put_view [OF Cons.prems(1) r k] Some show ?thesis by blast
  qed
  then obtain s1 where s1: "apply_updates put del us s1 = (Ok (), s')" "valid s1" "room (n + length us) s1"
    "\<forall>p. pos_ok p \<longrightarrow> view s1 p = ((view s)(pos k := Ok v)) p" by blast
  from Cons.IH [OF s1(2,3) _ s1(1)] Cons.prems(3) viewed_cong [OF s1(4)] u show ?case
    by (simp add: fun_upd_def)
qed simp

lemma updates_root_order:
  assumes "valid s" "room (length us) s" "list_all (\<lambda>u. pos_ok (pos (fst u))) us"
    and "distinct (map (\<lambda>u. pos (fst u)) us)" "distinct (map (\<lambda>u. pos (fst u)) vs)" "set vs = set us"
    and "apply_updates put del us s = (Ok (), s1)" "apply_updates put del vs s = (Ok (), s2)"
  shows "fst (root s1) = fst (root s2)"
proof -
  have "length vs = length us" using assms(4-6) by (metis distinct_card distinct_map length_map)
  then have "room (0 + length vs) s" using assms(2) by simp
  moreover have "list_all (\<lambda>u. pos_ok (pos (fst u))) vs" using assms(3,6) by (simp add: list_all_iff)
  ultimately have "valid s2" "\<forall>p. pos_ok p \<longrightarrow> view s2 p = viewed pos vs (view s) p"
    using updates_view [of s 0 vs s2] assms(1,8) by simp_all
  moreover have "valid s1" "\<forall>p. pos_ok p \<longrightarrow> view s1 p = viewed pos us (view s) p"
    using updates_view [of s 0 us s1] assms(1-3,7) by simp_all
  ultimately show ?thesis using root_viewed viewed_perm [OF assms(4-6)] by metis
qed

end

section \<open>The arena tries\<close>

lemma put_nibbles_view:
  assumes "mpt_inv E m" "trie_room (Suc n) m" "nibbles k" "insert_nibbles k v m = (Ok b, m')"
  shows "mpt_inv E m' \<and> trie_room n m'
    \<and> (\<forall>p. nibbles p \<longrightarrow> get_nibbles m' p = ((get_nibbles m)(k := Ok (Some v))) p)"
proof -
  obtain t where t: "repr_tree E m t" using assms(1) by (auto simp: mpt_inv_def)
  from insert_nibbles_repr [OF t assms(3) trie_room_capacity [OF assms(2)], of v] assms(4) obtain t' where
    t': "pt_insert t k v = Ok (b, t')" "repr_tree E m' t'" "length (nodes m') \<le> length (nodes m) + 3" by auto
  show ?thesis
    using pt_insert_get [OF repr_canon [OF t] assms(3) _ t'(1)] get_nibbles_repr [OF t] get_nibbles_repr [OF t'(2)]
      t'(2,3) assms(2)
    by (auto simp: mpt_inv_def trie_room_def)
qed

lemma del_nibbles_view:
  assumes "mpt_inv E m" "trie_room (Suc n) m" "nibbles k" "delete_nibbles k m = (Ok b, m')"
  shows "mpt_inv E m' \<and> trie_room n m'
    \<and> (\<forall>p. nibbles p \<longrightarrow> get_nibbles m' p = ((get_nibbles m)(k := Ok None)) p)"
proof -
  obtain t where t: "repr_tree E m t" using assms(1) by (auto simp: mpt_inv_def)
  from delete_nibbles_repr [OF t assms(3)] assms(4) obtain t' where
    t': "pt_delete t k = Ok (b, t')" "repr_tree E m' t'" "length (nodes m') = length (nodes m)" by auto
  show ?thesis
    using pt_delete_get [OF repr_canon [OF t] assms(3) _ t'(1)] get_nibbles_repr [OF t] get_nibbles_repr [OF t'(2)]
      t'(2,3) assms(2)
    by (auto simp: mpt_inv_def trie_room_def)
qed

lemma view_unique:
  assumes "repr_tree E m t" "repr_tree E m' t'" "\<forall>p. nibbles p \<longrightarrow> get_nibbles m p = get_nibbles m' p"
  shows "t = t'"
  by (rule canon_unique [OF repr_canon [OF assms(1)] repr_canon [OF assms(2)]])
    (use assms get_nibbles_repr in \<open>auto simp: pt_same_def\<close>)

context rlp_laws
begin

lemma hash_view:
  assumes "mpt_inv E m"
  shows "\<exists>h m'. hash E m = (Ok h, m') \<and> mpt_inv E m' \<and> (\<forall>n. trie_room n m \<longrightarrow> trie_room n m')
    \<and> (\<forall>p. nibbles p \<longrightarrow> get_nibbles m' p = get_nibbles m p)"
proof -
  obtain t where t: "repr_tree E m t" using assms by (auto simp: mpt_inv_def)
  from hash_repr [OF t] obtain m' where m': "hash E m = (Ok (root_hash E t), m')" "repr_tree E m' t"
    "nodes m' = nodes m" by blast
  with get_nibbles_repr [OF t] get_nibbles_repr [OF m'(2)] show ?thesis
    by (auto simp: mpt_inv_def trie_room_def)
qed

lemma hash_viewed:
  assumes "mpt_inv E m" "mpt_inv E m'" "\<forall>p. nibbles p \<longrightarrow> get_nibbles m p = get_nibbles m' p"
  shows "fst (hash E m) = fst (hash E m')"
proof -
  obtain t t' where t: "repr_tree E m t" "repr_tree E m' t'" using assms by (auto simp: mpt_inv_def)
  with view_unique [OF t assms(3)] hash_repr [OF t(1)] hash_repr [OF t(2)] show ?thesis by auto
qed

sublocale chunk_map: updatable_map "mpt_inv E" trie_room nibbles "\<lambda>k. k" get_nibbles insert_nibbles
    delete_nibbles "hash E"
  by unfold_locales (fact put_nibbles_view del_nibbles_view hash_view hash_viewed)+

sublocale byte_map: updatable_map "mpt_inv E" trie_room nibbles to_nibs get_nibbles insert_mpt delete "hash E"
proof
  show "mpt_inv E s' \<and> trie_room n s'
      \<and> (\<forall>p. nibbles p \<longrightarrow> get_nibbles s' p = ((get_nibbles s)(to_nibs k := Ok (Some v))) p)"
    if "mpt_inv E s" "trie_room (Suc n) s" "nibbles (to_nibs k)" "insert_mpt k v s = (Ok b, s')" for s n k v b s'
    by (rule put_nibbles_view [OF that(1-3)]) (use that(4) in \<open>simp add: insert_mpt_nibbles\<close>)
  show "mpt_inv E s' \<and> trie_room n s'
      \<and> (\<forall>p. nibbles p \<longrightarrow> get_nibbles s' p = ((get_nibbles s)(to_nibs k := Ok None)) p)"
    if "mpt_inv E s" "trie_room (Suc n) s" "nibbles (to_nibs k)" "delete k s = (Ok b, s')" for s n k b s'
    by (rule del_nibbles_view [OF that(1-3)]) (use that(4) in \<open>simp add: delete_as_nibbles\<close>)
qed (fact hash_view hash_viewed)+

end

end
