(* ===== verification/Pruned_Updates.thy ===== *)
theory Pruned_Updates
  imports Codec_Authentic Trie_Properties Updatable_Map
begin

text \<open>
  Updates of a pruned trie follow the updates of the full trie: a list of updates that succeeds on
  the pruned arena succeeds on the full one with the same root. With the authenticity of the decoder
  this gives the soundness of a stateless client: from untrusted bytes with the right root it reads
  the values of the full state and computes the root of the updated full state.
\<close>

section \<open>Lists of updates\<close>

text \<open>No deletion along the list merges an unresolved child.\<close>

fun merges_known :: "(nibs \<times> bytes option) list \<Rightarrow> ptree \<Rightarrow> bool" where
  "merges_known [] t = True"
| "merges_known ((k, None) # us) t \<longleftrightarrow> merge_known t k
     \<and> (case pt_delete t k of Ok (b, t') \<Rightarrow> merges_known us t' | _ \<Rightarrow> True)"
| "merges_known ((k, Some v) # us) t \<longleftrightarrow>
     (case pt_insert t k v of Ok (b, t') \<Rightarrow> merges_known us t' | _ \<Rightarrow> True)"

definition as_nibs :: "(bytes \<times> bytes option) list \<Rightarrow> (nibs \<times> bytes option) list" where
  "as_nibs us = map (\<lambda>(k, v). (to_nibs k, v)) us"

text \<open>A pruned arena and a full arena for the tries it blinds.\<close>

definition follows :: "ext \<Rightarrow> mpt \<Rightarrow> ptree \<Rightarrow> mpt \<Rightarrow> ptree \<Rightarrow> bool" where
  "follows E m t M F \<longleftrightarrow> repr_tree E m t \<and> repr_tree E M F \<and> blinds E t F"

lemma follows_insert:
  assumes f: "follows E m t M F" and room: "trie_room (Suc n) m" "trie_room (Suc n) M"
    and i: "insert_mpt key v m = (Ok b, m')"
  shows "\<exists>t' M' F'. pt_insert t (to_nibs key) v = Ok (b, t') \<and> insert_mpt key v M = (Ok b, M')
    \<and> follows E m' t' M' F' \<and> trie_room n m' \<and> trie_room n M'"
proof -
  have r: "repr_tree E m t" "repr_tree E M F" "blinds E t F" using f by (simp_all add: follows_def)
  note c = trie_room_capacity [OF room(1)] trie_room_capacity [OF room(2)]
  from insert_nibbles_repr [OF r(1) nibbles_to_nibs c(1), of key v] i obtain t' where
    t': "pt_insert t (to_nibs key) v = Ok (b, t')" "repr_tree E m' t'" "length (nodes m') \<le> length (nodes m) + 3"
    by (auto simp: insert_mpt_nibbles)
  from blinds_insert [OF r(3) t'(1)] obtain F' where F': "pt_insert F (to_nibs key) v = Ok (b, F')" "blinds E t' F'" by blast
  from insert_nibbles_repr [OF r(2) nibbles_to_nibs c(2), of key v] F'(1) obtain M' where
    "insert_mpt key v M = (Ok b, M')" "repr_tree E M' F'" "length (nodes M') \<le> length (nodes M) + 3"
    by (auto simp: insert_mpt_nibbles)
  with t' F' room show ?thesis by (auto simp: follows_def trie_room_def)
qed

lemma follows_delete:
  assumes f: "follows E m t M F" and room: "trie_room (Suc n) m" "trie_room (Suc n) M"
    and known: "merge_known t (to_nibs key)" and d: "delete key m = (Ok b, m')"
  shows "\<exists>t' M' F'. pt_delete t (to_nibs key) = Ok (b, t') \<and> delete key M = (Ok b, M')
    \<and> follows E m' t' M' F' \<and> trie_room n m' \<and> trie_room n M'"
proof -
  have r: "repr_tree E m t" "repr_tree E M F" "blinds E t F" using f by (simp_all add: follows_def)
  from delete_nibbles_repr [OF r(1) nibbles_to_nibs, of key] d obtain t' where
    t': "pt_delete t (to_nibs key) = Ok (b, t')" "repr_tree E m' t'" "length (nodes m') = length (nodes m)"
    by (auto simp: delete_as_nibbles)
  from blinds_delete [OF r(3) known repr_canon [OF r(1)] t'(1)] obtain F' where
    F': "pt_delete F (to_nibs key) = Ok (b, F')" "blinds E t' F'" by blast
  from delete_nibbles_repr [OF r(2) nibbles_to_nibs, of key] F'(1) obtain M' where
    "delete key M = (Ok b, M')" "repr_tree E M' F'" "length (nodes M') = length (nodes M)"
    by (auto simp: delete_as_nibbles)
  with t' F' room show ?thesis by (auto simp: follows_def trie_room_def)
qed

lemma follows_updates:
  assumes "follows E m t M F" "trie_room (length us) m" "trie_room (length us) M"
    and "merges_known (as_nibs us) t" "apply_updates insert_mpt delete us m = (Ok (), m')"
  shows "\<exists>t' M' F'. apply_updates insert_mpt delete us M = (Ok (), M') \<and> follows E m' t' M' F'"
  using assms
proof (induction us arbitrary: m t M F)
  case (Cons u us)
  obtain k v where u: "u = (k, v)" by (cases u)
  have room: "trie_room (Suc (length us)) m" "trie_room (Suc (length us)) M" using Cons.prems by simp_all
  have "\<exists>m1 t1 M1 F1. apply_updates insert_mpt delete us m1 = (Ok (), m') \<and> follows E m1 t1 M1 F1
    \<and> trie_room (length us) m1 \<and> trie_room (length us) M1 \<and> merges_known (as_nibs us) t1
    \<and> apply_updates insert_mpt delete (u # us) M = apply_updates insert_mpt delete us M1"
  proof (cases v)
    case None
    with Cons.prems(5) u obtain b m1 where m1: "delete k m = (Ok b, m1)" "apply_updates insert_mpt delete us m1 = (Ok (), m')"
      by (auto simp: and_then_Ok_iff)
    have "merge_known t (to_nibs k)" using Cons.prems(4) None u by (simp add: as_nibs_def)
    from follows_delete [OF Cons.prems(1) room this m1(1)] m1(2) Cons.prems(4) None u show ?thesis
      by (fastforce simp: as_nibs_def)
  next
    case (Some w)
    with Cons.prems(5) u obtain b m1 where m1: "insert_mpt k w m = (Ok b, m1)" "apply_updates insert_mpt delete us m1 = (Ok (), m')"
      by (auto simp: and_then_Ok_iff)
    from follows_insert [OF Cons.prems(1) room m1(1)] m1(2) Cons.prems(4) Some u show ?thesis
      by (fastforce simp: as_nibs_def)
  qed
  then show ?case using Cons.IH by (metis (no_types, lifting))
qed auto

context rlp_laws
begin

lemma follows_root: "follows E m t M F \<Longrightarrow> fst (hash E m) = fst (hash E M)"
  using hash_repr [of m t] hash_repr [of M F] blinds_root_hash [of E t F] by (auto simp: follows_def)

lemma decoded_follows:
  assumes "full_trie E F" "tree_ref E F = RefDigest d" "d \<noteq> EMPTY_ROOT_HASH E" "collision_free E bs F"
    and "length bs < 2 ^ 32" "decode_trie E bs n = Ok (m, rest)" "fst (hash E m) = Ok d" "repr_tree E M F"
  shows "\<exists>t. follows E m t M F"
  using decode_trie_auth [OF assms(1-7)] assms(8) unfolding follows_def by blast

lemma decoded_reads:
  assumes "full_trie E F" "tree_ref E F = RefDigest d" "d \<noteq> EMPTY_ROOT_HASH E" "collision_free E bs F"
    and "length bs < 2 ^ 32" "decode_trie E bs n = Ok (m, rest)" "fst (hash E m) = Ok d" "get m key = Ok v"
  shows "pt_get F (to_nibs key) = Ok v"
  using decode_trie_auth [OF assms(1-7)] assms(8) get_repr blinds_get by metis

lemma decoded_updates:
  assumes F: "full_trie E F" "tree_ref E F = RefDigest d" "d \<noteq> EMPTY_ROOT_HASH E" "collision_free E bs F"
    and dec: "length bs < 2 ^ 32" "decode_trie E bs n = Ok (m, rest)" "fst (hash E m) = Ok d"
    and M: "repr_tree E M F" and room: "trie_room (length us) m" "trie_room (length us) M"
    and known: "\<And>t. repr_tree E m t \<Longrightarrow> merges_known (as_nibs us) t"
    and run: "apply_updates insert_mpt delete us m = (Ok (), m')"
  shows "\<exists>M'. apply_updates insert_mpt delete us M = (Ok (), M') \<and> fst (hash E m') = fst (hash E M')"
proof -
  obtain t where t: "follows E m t M F" using decoded_follows [OF F dec M] by blast
  then have "merges_known (as_nibs us) t" using known by (simp add: follows_def)
  from follows_updates [OF t room this run] follows_root show ?thesis by blast
qed

end

end
