(* ===== verification/Witness_Properties.thy ===== *)
theory Witness_Properties
  imports Pruned_Updates
begin

text \<open>The correctness statements of untrusted witnesses, on a one-leaf state as example.\<close>

section \<open>An example\<close>

text \<open>A hash function without second preimages of one given encoding.\<close>

definition marked_keccak :: "bytes \<Rightarrow> bytes \<Rightarrow> bytes" where
  "marked_keccak r bs = (if bs = r then replicate 32 1 else replicate 32 2)"

definition marked_ext :: "bytes \<Rightarrow> ext" where
  "marked_ext r = std_ext\<lparr>keccak256 := marked_keccak r, EMPTY_ROOT_HASH := marked_keccak r [0x80]\<rparr>"

definition leaf_tree :: ptree where
  "leaf_tree = PLeaf [1, 2] (replicate 40 7)"

definition leaf_ext :: ext where
  "leaf_ext = marked_ext (tree_rlp std_ext leaf_tree)"

definition leaf_arena :: mpt where
  "leaf_arena = snd (insert_nibbles [1, 2] (replicate 40 7) new)"

lemma std_fields [simp]: "EMPTY_STRING_CODE std_ext = 0x80"
  by (simp add: std_ext_def)

lemma rehashed_laws:
  assumes "\<And>bs. length (k bs) = 32"
  shows "rlp_laws (std_ext\<lparr>keccak256 := k, EMPTY_ROOT_HASH := k [0x80]\<rparr>)"
proof
  let ?E = "std_ext\<lparr>keccak256 := k, EMPTY_ROOT_HASH := k [0x80]\<rparr>"
  show "length (keccak256 ?E bs) = 32" for bs using assms by simp
  show "EMPTY_ROOT_HASH ?E = keccak256 ?E [EMPTY_STRING_CODE ?E]" by simp
  show "n \<le> length rest \<and> (\<exists>h. bs = h @ rest) \<and> (length rest < length bs \<or> 0 < n)"
    if "header_decode ?E bs = Inr ((l, n), rest)" for bs l n rest
    using std.decode_sound that by simp
qed (simp_all add: std.header_length std.short_header std.bytes_length_eq std.bytes_encode_32 [simplified]
    std.bytes_encode_empty [simplified] std.bytes_encode_length std.decode_list_header std.decode_bytes)

lemma marked_laws: "rlp_laws (marked_ext r)"
  unfolding marked_ext_def by (rule rehashed_laws) (simp add: marked_keccak_def)

interpretation leaf: rlp_laws leaf_ext
  unfolding leaf_ext_def by (rule marked_laws)

lemma leaf_rlp: "tree_rlp leaf_ext leaf_tree = tree_rlp std_ext leaf_tree"
  by (simp add: leaf_ext_def marked_ext_def leaf_tree_def list_rlp_def)

lemma leaf_rlp_long: "42 \<le> length (tree_rlp std_ext leaf_tree)" "length (tree_rlp std_ext leaf_tree) < 60"
  by (simp_all add: leaf_tree_def list_rlp_def std_ext_def std_header_encode_def std_bytes_encode_def to_encoded_path_def)

lemma leaf_subs: "pt_subs leaf_tree = [leaf_tree]"
  by (subst pt_subs.simps) (simp add: leaf_tree_def)

lemma leaf_full: "full_trie leaf_ext leaf_tree"
  using leaf_rlp leaf_rlp_long(2) by (simp add: full_trie_def leaf_subs) (simp add: leaf_tree_def)

lemma leaf_free: "collision_free leaf_ext bs leaf_tree"
  using leaf_rlp by (auto simp: collision_free_def leaf_subs leaf_ext_def marked_ext_def marked_keccak_def
      dest!: arg_cong [of _ _ hd])

lemma leaf_ref: "tree_ref leaf_ext leaf_tree = RefDigest (replicate 32 1)"
  using leaf_rlp leaf_rlp_long(1)
  by (simp add: tree_ref_list leaf_tree_def ref_of_rlp_def)
     (simp add: leaf_ext_def marked_ext_def marked_keccak_def leaf_tree_def)

lemma leaf_root: "replicate 32 1 \<noteq> EMPTY_ROOT_HASH leaf_ext"
proof -
  have "length (tree_rlp std_ext leaf_tree) \<noteq> length [0x80 :: byte]" using leaf_rlp_long(1) by simp
  then have "[0x80] \<noteq> tree_rlp std_ext leaf_tree" by metis
  then show ?thesis by (simp add: leaf_ext_def marked_ext_def marked_keccak_def)
qed

lemma repr_leaf_arena: "repr_tree E leaf_arena leaf_tree" "trie_room 1 leaf_arena"
proof -
  have n: "nibbles [1, 2]" by simp
  from insert_nibbles_repr [OF repr_new [of E] n capacity_new, of "replicate 40 7"]
  show "repr_tree E leaf_arena leaf_tree" "trie_room 1 leaf_arena"
    by (auto simp: leaf_arena_def leaf_tree_def trie_room_def new_def with_capacity_def)
qed

definition leaf_bytes :: bytes where
  "leaf_bytes = tree_stream leaf_ext leaf_tree"

lemma leaf_bytes_length: "length leaf_bytes < 64"
proof -
  have "length (tree_stream leaf_ext leaf_tree) = length (pad4 (tree_rlp leaf_ext leaf_tree))"
    by (subst tree_stream.simps) (simp add: leaf_tree_def)
  then show ?thesis
    using leaf_rlp leaf_rlp_long(2) by (simp add: leaf_bytes_def pad4_def padding_len_def MIN_ALIGN_def)
qed

lemma leaf_decoded:
  "\<exists>m rest. decode_trie leaf_ext leaf_bytes 1 = Ok (m, rest) \<and> repr_tree leaf_ext m leaf_tree
     \<and> fst (hash leaf_ext m) = Ok (replicate 32 1) \<and> trie_room 1 m"
proof -
  have "canon_top leaf_tree" "pt_nodes leaf_tree < 2 ^ 32" by (simp_all add: leaf_tree_def canon_top_def pt_nodes_code)
  with leaf.decode_encode [of leaf_tree "[]" 1] leaf_bytes_length obtain m rest where
    m: "decode_trie leaf_ext leaf_bytes 1 = Ok (m, rest)" "repr_tree leaf_ext m leaf_tree"
    by (auto simp: leaf_bytes_def)
  have "length (nodes m) \<le> 64" using leaf.decode_trie_bounds [of leaf_bytes 1 m rest] m(1) leaf_bytes_length by simp
  then have "trie_room 1 m" by (simp add: trie_room_def)
  moreover have "root_hash leaf_ext leaf_tree = replicate 32 1" using leaf_ref by (simp add: root_hash_def leaf_tree_def)
  ultimately show ?thesis using m leaf.hash_repr [OF m(2)] by auto
qed

section \<open>Properties\<close>

text \<open>
  C7: reads from an untrusted witness are authentic. Let \<open>F\<close> be the full trie with root \<open>d\<close>, and
  let any bytes decode to a trie whose root hash is \<open>d\<close>. Every read from the decoded trie that
  succeeds returns what \<open>F\<close> stores, present or absent, unless a part of the bytes collides under
  Keccak with the encoding of a node of \<open>F\<close>.
\<close>

theorem decoded_reads_authentic:
  assumes "rlp_laws E" "full_trie E F" "tree_ref E F = RefDigest d" "d \<noteq> EMPTY_ROOT_HASH E"
    and "collision_free E bs F" "length bs < 2 ^ 32" "decode_trie E bs n = Ok (m, rest)" "fst (hash E m) = Ok d"
    and "get m key = Ok v"
  shows "pt_get F (to_nibs key) = Ok v"
  using rlp_laws.decoded_reads [OF assms] .

theorem decoded_reads_authentic_witness:
  "\<exists>m rest v. decode_trie leaf_ext leaf_bytes 1 = Ok (m, rest) \<and> get m [0x12] = Ok v
     \<and> pt_get leaf_tree (to_nibs [0x12]) = Ok v"
proof -
  obtain m rest where m: "decode_trie leaf_ext leaf_bytes 1 = Ok (m, rest)" "repr_tree leaf_ext m leaf_tree"
    "fst (hash leaf_ext m) = Ok (replicate 32 1)" using leaf_decoded by blast
  have len: "length leaf_bytes < 2 ^ 32" using leaf_bytes_length by simp
  obtain v where v: "get m [0x12] = Ok v" using get_repr [OF m(2), of "[0x12]"] by (simp add: leaf_tree_def)
  from decoded_reads_authentic [OF leaf.rlp_laws_axioms leaf_full leaf_ref leaf_root leaf_free len m(1,3) v] m v
  show ?thesis by blast
qed

text \<open>
  C5: the state root of a stateless client is sound. A list of updates that succeeds on a trie decoded
  from untrusted bytes with the right root succeeds on the full trie, and gives the same root hash,
  as long as no deletion merges a branch with an unresolved child.
\<close>

theorem stateless_update_sound:
  assumes "rlp_laws E" "full_trie E F" "tree_ref E F = RefDigest d" "d \<noteq> EMPTY_ROOT_HASH E"
    and "collision_free E bs F" "length bs < 2 ^ 32" "decode_trie E bs n = Ok (m, rest)" "fst (hash E m) = Ok d"
    and "repr_tree E M F" "trie_room (length us) m" "trie_room (length us) M"
    and "\<And>t. repr_tree E m t \<Longrightarrow> merges_known (as_nibs us) t"
    and "apply_updates insert_mpt delete us m = (Ok (), m')"
  shows "\<exists>M'. apply_updates insert_mpt delete us M = (Ok (), M') \<and> fst (hash E m') = fst (hash E M')"
  using rlp_laws.decoded_updates [OF assms] .

theorem stateless_update_sound_witness:
  "\<exists>m rest m' M'. decode_trie leaf_ext leaf_bytes 1 = Ok (m, rest)
     \<and> apply_updates insert_mpt delete [([0x34], Some [9])] m = (Ok (), m')
     \<and> apply_updates insert_mpt delete [([0x34], Some [9])] leaf_arena = (Ok (), M')
     \<and> fst (hash leaf_ext m') = fst (hash leaf_ext M')"
proof -
  let ?us = "[([0x34 :: byte], Some [9 :: byte])]"
  obtain m rest where m: "decode_trie leaf_ext leaf_bytes 1 = Ok (m, rest)" "repr_tree leaf_ext m leaf_tree"
    "fst (hash leaf_ext m) = Ok (replicate 32 1)" "trie_room 1 m" using leaf_decoded by blast
  have len: "length leaf_bytes < 2 ^ 32" using leaf_bytes_length by simp
  have "case pt_insert leaf_tree (to_nibs [0x34]) [9] of Ok (b, t) \<Rightarrow> b | _ \<Rightarrow> False"
    unfolding leaf_tree_def by code_simp
  then obtain m' where i: "insert_mpt [0x34] [9] m = (Ok True, m')"
    using insert_nibbles_repr [OF m(2) nibbles_to_nibs room_capacity [OF m(4)], of "[0x34]" "[9]"]
    by (auto simp: insert_mpt_nibbles split: outcome.splits)
  then have run: "apply_updates insert_mpt delete ?us m = (Ok (), m')" by simp
  have room: "trie_room (length ?us) m" "trie_room (length ?us) leaf_arena" using m(4) repr_leaf_arena(2) by simp_all
  have known: "merges_known (as_nibs ?us) t" if "repr_tree leaf_ext m t" for t
    by (simp add: as_nibs_def split: outcome.split)
  from stateless_update_sound [OF leaf.rlp_laws_axioms leaf_full leaf_ref leaf_root leaf_free len m(1,3)
      repr_leaf_arena(1) room known run] m(1) run
  show ?thesis by blast
qed



end
