(* ===== verification/Eth_State.thy ===== *)
theory Eth_State
  imports Mpt_Codec "HOL-Library.List_Lexorder"
begin

text \<open>
  Model of \<^verbatim>\<open>crates/mpt/src/state.rs\<close>: the Ethereum state as a state trie and one storage trie per
  account, and the application of a block's changes to it.

  The bundle of changes comes from the EVM library; what the code reads of it is the record
  \<open>bundle_account\<close>. Its maps are hash maps whose iteration order is unspecified: they are lists of
  pairs here, in the order in which the loop meets them, and the properties hold for every order.
  The RLP codecs of accounts and storage values are third-party code, the fields of \<open>eth_codec\<close>.
\<close>

type_synonym u64 = "64 word"
type_synonym u256 = "256 word"

record account_info =
  info_nonce :: u64
  info_balance :: u256
  info_code_hash :: bytes

record trie_account =
  acc_nonce :: u64
  acc_balance :: u256
  acc_storage_root :: bytes
  acc_code_hash :: bytes

record bundle_account =
  acct_info :: "account_info option"
  acct_storage :: "(u256 \<times> u256) list"
  acct_was_destroyed :: bool

type_synonym bundle_state = "(bytes \<times> bundle_account) list"

record eth_codec =
  account_encode :: "trie_account \<Rightarrow> bytes"
  account_decode :: "bytes \<Rightarrow> rlp_error + trie_account"
  u256_encode :: "u256 \<Rightarrow> bytes"
  u256_decode :: "bytes \<Rightarrow> rlp_error + u256"

record ethereum_state =
  state_trie :: mpt
  storage_tries :: "bytes \<Rightarrow> mpt option"

text \<open>The serialised form: node counts and encoded tries, the storage tries sorted by address.\<close>

record ethereum_state_bytes =
  state_trie_bytes :: "nat \<times> bytes"
  storage_tries_bytes :: "(bytes \<times> nat \<times> bytes) list"

definition eth_new :: ethereum_state where
  "eth_new = \<lparr>state_trie = new, storage_tries = (\<lambda>_. None)\<rparr>"

text \<open>Collecting pairs into a hash map: a later pair for the same key wins.\<close>

definition from_tries :: "mpt \<Rightarrow> (bytes \<times> mpt) list \<Rightarrow> ethereum_state" where
  "from_tries st tries =
     \<lparr>state_trie = st,
      storage_tries = foldl (\<lambda>f (addr, trie). f(addr \<mapsto> trie)) (\<lambda>_. None) tries\<rparr>"

text \<open>\<^verbatim>\<open>U256::to_be_bytes::<32>()\<close>.\<close>

definition to_be_bytes_32 :: "u256 \<Rightarrow> bytes" where
  "to_be_bytes_32 w = map (\<lambda>i. ucast (drop_bit (8 * (31 - i)) w)) [0..<32]"

lemma length_to_be_bytes_32 [simp]: "length (to_be_bytes_32 w) = 32"
  by (simp add: to_be_bytes_32_def)

section \<open>Applying a bundle\<close>

text \<open>The loop over the changed slots of one account.\<close>

primrec apply_slots ::
  "ext \<Rightarrow> eth_codec \<Rightarrow> (u256 \<times> u256) list \<Rightarrow> mpt \<Rightarrow> (mpt_error, unit) outcome \<times> mpt" where
  "apply_slots E C [] storage_trie = (Ok (), storage_trie)"
| "apply_slots E C (sv # slots) storage_trie =
     (let hashed_slot = keccak256 E (to_be_bytes_32 (fst sv)) in
      and_then
        (if snd sv = 0 then delete hashed_slot storage_trie
         else insert_rlp (u256_encode C) hashed_slot (snd sv) storage_trie)
        (\<lambda>_ storage_trie. apply_slots E C slots storage_trie))"

text \<open>
  One account of the bundle. The storage trie is taken out of the map, or created, before the
  loop, and what it became is in the map also when the loop fails.
\<close>

definition apply_account ::
  "ext \<Rightarrow> eth_codec \<Rightarrow> bytes \<Rightarrow> bundle_account \<Rightarrow> ethereum_state \<Rightarrow>
   (mpt_error, unit) outcome \<times> ethereum_state" where
  "apply_account E C address account s =
     (let hashed_address = keccak256 E address in
      case acct_info account of
        Some acc \<Rightarrow>
          (let storage_trie =
                 (if acct_was_destroyed account then new
                  else (case storage_tries s hashed_address of None \<Rightarrow> new | Some t \<Rightarrow> t));
               store = (\<lambda>t. s\<lparr>storage_tries := (storage_tries s)(hashed_address \<mapsto> t)\<rparr>) in
           case apply_slots E C (acct_storage account) storage_trie of
             (Ok _, storage_trie) \<Rightarrow>
               (case hash E storage_trie of
                  (Ok storage_root, storage_trie) \<Rightarrow>
                    (let s = store storage_trie;
                         state_account = \<lparr>acc_nonce = info_nonce acc, acc_balance = info_balance acc,
                                          acc_storage_root = storage_root,
                                          acc_code_hash = info_code_hash acc\<rparr> in
                     case insert_rlp (account_encode C) hashed_address state_account (state_trie s) of
                       (Ok _, t) \<Rightarrow> (Ok (), s\<lparr>state_trie := t\<rparr>)
                     | (Err e, t) \<Rightarrow> (Err e, s\<lparr>state_trie := t\<rparr>)
                     | (Panic p, t) \<Rightarrow> (Panic p, s\<lparr>state_trie := t\<rparr>))
                | (Err e, storage_trie) \<Rightarrow> (Err e, store storage_trie)
                | (Panic p, storage_trie) \<Rightarrow> (Panic p, store storage_trie))
           | (Err e, storage_trie) \<Rightarrow> (Err e, store storage_trie)
           | (Panic p, storage_trie) \<Rightarrow> (Panic p, store storage_trie))
      | None \<Rightarrow>
          (case delete hashed_address (state_trie s) of
             (Ok _, t) \<Rightarrow>
               (Ok (), s\<lparr>state_trie := t, storage_tries := (storage_tries s)(hashed_address := None)\<rparr>)
           | (Err e, t) \<Rightarrow> (Panic UnwrapNone, s\<lparr>state_trie := t\<rparr>)
           | (Panic p, t) \<Rightarrow> (Panic p, s\<lparr>state_trie := t\<rparr>)))"

primrec update_from_bundle_state ::
  "ext \<Rightarrow> eth_codec \<Rightarrow> bundle_state \<Rightarrow> ethereum_state \<Rightarrow> (mpt_error, unit) outcome \<times> ethereum_state" where
  "update_from_bundle_state E C [] s = (Ok (), s)"
| "update_from_bundle_state E C (a # bundle) s =
     and_then (apply_account E C (fst a) (snd a) s) (\<lambda>_ s. update_from_bundle_state E C bundle s)"

section \<open>Serialisation\<close>

text \<open>
  \<open>addrs\<close> are the keys of the storage map in its iteration order. Encoding fills caches only; the
  tries after it are dropped, the code returns the bytes alone.
\<close>

primrec encode_storage ::
  "ext \<Rightarrow> bytes list \<Rightarrow> (bytes \<Rightarrow> mpt option) \<Rightarrow> (mpt_error, (bytes \<times> nat \<times> bytes) list) outcome" where
  "encode_storage E [] tries = Ok []"
| "encode_storage E (addr # addrs) tries =
     (case tries addr of
        None \<Rightarrow> encode_storage E addrs tries
      | Some trie \<Rightarrow>
          (case fst (encode_trie E trie) of
             Ok bs \<Rightarrow>
               (case encode_storage E addrs tries of
                  Ok rest \<Rightarrow> Ok ((addr, num_nodes trie, bs) # rest)
                | Err e \<Rightarrow> Err e
                | Panic p \<Rightarrow> Panic p)
           | Err e \<Rightarrow> Err e
           | Panic p \<Rightarrow> Panic p))"

definition encode_to_state_bytes ::
  "ext \<Rightarrow> bytes list \<Rightarrow> ethereum_state \<Rightarrow> (mpt_error, ethereum_state_bytes) outcome" where
  "encode_to_state_bytes E addrs s =
     (case fst (encode_trie E (state_trie s)) of
        Ok state_bytes \<Rightarrow>
          (case encode_storage E addrs (storage_tries s) of
             Ok storage_bytes \<Rightarrow>
               Ok \<lparr>state_trie_bytes = (num_nodes (state_trie s), state_bytes),
                   storage_tries_bytes = sort_key fst storage_bytes\<rparr>
           | Err e \<Rightarrow> Err e
           | Panic p \<Rightarrow> Panic p)
      | Err e \<Rightarrow> Err e
      | Panic p \<Rightarrow> Panic p)"

end
