(* ===== verification/State_Correct.thy ===== *)
theory State_Correct
  imports Updatable_Map Eth_State
begin

text \<open>
  What \<^verbatim>\<open>EthereumState::update_from_bundle_state\<close> does to a state. A changed account ends up with its
  new data and the root of its storage trie, in which exactly the changed slots are written; a
  removed account is gone with its storage; nothing else changes. The statements cover pruned tries,
  where reads of unknown parts keep failing in the same way.
\<close>

section \<open>Updates as lists\<close>

definition slot_update :: "ext \<Rightarrow> eth_codec \<Rightarrow> u256 \<times> u256 \<Rightarrow> bytes \<times> bytes option" where
  "slot_update E C sv = (keccak256 E (to_be_bytes_32 (fst sv)), if snd sv = 0 then None else Some (u256_encode C (snd sv)))"

lemma apply_slots_updates:
  "apply_slots E C slots t = apply_updates insert_mpt delete (map (slot_update E C) slots) t"
proof (induction slots arbitrary: t)
  case (Cons sv slots)
  show ?case
    by (cases "snd sv = 0") (simp_all add: slot_update_def insert_rlp_def Let_def Cons.IH)
qed simp

definition old_storage :: "ext \<Rightarrow> ethereum_state \<Rightarrow> bytes \<Rightarrow> bundle_account \<Rightarrow> mpt" where
  "old_storage E s address account =
     (if acct_was_destroyed account then new
      else case storage_tries s (keccak256 E address) of None \<Rightarrow> new | Some t \<Rightarrow> t)"

definition state_inv :: "ext \<Rightarrow> ethereum_state \<Rightarrow> bool" where
  "state_inv E s \<longleftrightarrow> mpt_inv E (state_trie s) \<and> (\<forall>h t. storage_tries s h = Some t \<longrightarrow> mpt_inv E t)"

text \<open>Room for the changes of one account.\<close>

definition account_room :: "ext \<Rightarrow> ethereum_state \<Rightarrow> bytes \<times> bundle_account \<Rightarrow> bool" where
  "account_room E s a \<longleftrightarrow> trie_room (length (acct_storage (snd a))) (old_storage E s (fst a) (snd a))"

text \<open>The account record written to the state trie.\<close>

definition written_account :: "account_info \<Rightarrow> bytes \<Rightarrow> trie_account" where
  "written_account info root =
     \<lparr>acc_nonce = info_nonce info, acc_balance = info_balance info, acc_storage_root = root,
      acc_code_hash = info_code_hash info\<rparr>"

text \<open>The effect of one account of the bundle, read off the states before and after.\<close>

definition account_effect :: "ext \<Rightarrow> eth_codec \<Rightarrow> ethereum_state \<Rightarrow> ethereum_state \<Rightarrow> bytes \<times> bundle_account \<Rightarrow> bool" where
  "account_effect E C s s' a \<longleftrightarrow>
     (case acct_info (snd a) of
        None \<Rightarrow> storage_tries s' (keccak256 E (fst a)) = None
          \<and> get (state_trie s') (keccak256 E (fst a)) = Ok None
      | Some info \<Rightarrow>
          (\<exists>st root. storage_tries s' (keccak256 E (fst a)) = Some st \<and> fst (hash E st) = Ok root
             \<and> get (state_trie s') (keccak256 E (fst a)) = Ok (Some (account_encode C (written_account info root)))
             \<and> (\<forall>p. nibbles p \<longrightarrow> get_nibbles st p =
                  viewed to_nibs (map (slot_update E C) (acct_storage (snd a)))
                    (get_nibbles (old_storage E s (fst a) (snd a))) p)))"

text \<open>What is not about the account with the given hash is unchanged.\<close>

definition same_except :: "bytes set \<Rightarrow> ethereum_state \<Rightarrow> ethereum_state \<Rightarrow> bool" where
  "same_except H s s' \<longleftrightarrow>
     (\<forall>h. h \<notin> H \<longrightarrow> storage_tries s' h = storage_tries s h)
     \<and> (\<forall>p. nibbles p \<and> p \<notin> to_nibs ` H \<longrightarrow> get_nibbles (state_trie s') p = get_nibbles (state_trie s) p)"

lemma same_except_refl [simp]: "same_except H s s"
  by (simp add: same_except_def)

lemma same_except_trans:
  "same_except H s s1 \<Longrightarrow> same_except K s1 s2 \<Longrightarrow> same_except (H \<union> K) s s2"
  unfolding same_except_def by (simp add: image_Un)

lemma same_except_get: "same_except H s s' \<Longrightarrow> h \<notin> H \<Longrightarrow> get (state_trie s') h = get (state_trie s) h"
  unfolding same_except_def get_as_nibbles by (metis imageE nibbles_to_nibs to_nibs_inject)

lemma old_storage_same:
  "same_except H s s' \<Longrightarrow> keccak256 E (fst a) \<notin> H \<Longrightarrow> old_storage E s' (fst a) (snd a) = old_storage E s (fst a) (snd a)"
  by (simp add: same_except_def old_storage_def)

lemma account_effect_before:
  "same_except H s0 s \<Longrightarrow> keccak256 E (fst a) \<notin> H \<Longrightarrow> account_effect E C s s' a \<Longrightarrow> account_effect E C s0 s' a"
  using old_storage_same [of H s0 s E a] by (cases "acct_info (snd a)") (simp_all add: account_effect_def)

lemma account_effect_after:
  "same_except H s1 s' \<Longrightarrow> keccak256 E (fst a) \<notin> H \<Longrightarrow> account_effect E C s s1 a \<Longrightarrow> account_effect E C s s' a"
  using same_except_get [of H s1 s' "keccak256 E (fst a)"]
  by (auto simp: account_effect_def same_except_def split: option.splits)

lemma mpt_inv_new [simp]: "mpt_inv E new"
  unfolding mpt_inv_def using repr_new by blast

lemma mpt_inv_old_storage: "state_inv E s \<Longrightarrow> mpt_inv E (old_storage E s address account)"
  by (auto simp: state_inv_def old_storage_def split: option.split)

context rlp_laws
begin

lemma apply_account_effect:
  assumes inv: "state_inv E s" and room: "trie_room (Suc n) (state_trie s)" "account_room E s a"
    and ok: "apply_account E C (fst a) (snd a) s = (Ok (), s')"
  shows "state_inv E s' \<and> trie_room n (state_trie s') \<and> same_except {keccak256 E (fst a)} s s'
    \<and> account_effect E C s s' a"
proof (cases "acct_info (snd a)")
  case None
  let ?h = "keccak256 E (fst a)"
  from ok None obtain b t where d: "delete ?h (state_trie s) = (Ok b, t)"
    "s' = s\<lparr>state_trie := t, storage_tries := (storage_tries s)(?h := None)\<rparr>"
    by (auto simp: apply_account_def Let_def split: prod.splits outcome.splits)
  have "mpt_inv E (state_trie s)" using inv by (simp add: state_inv_def)
  from byte_map.del_view [OF this room(1) nibbles_to_nibs d(1)] inv d(2) None show ?thesis
    by (auto simp: state_inv_def same_except_def account_effect_def get_as_nibbles)
next
  case (Some info)
  let ?h = "keccak256 E (fst a)" and ?old = "old_storage E s (fst a) (snd a)"
  let ?us = "map (slot_update E C) (acct_storage (snd a))"
  from ok Some obtain st0 root st b t where
    slots: "apply_updates insert_mpt delete ?us ?old = (Ok (), st0)" and
    root: "hash E st0 = (Ok root, st)" and
    ins: "insert_mpt ?h (account_encode C (written_account info root)) (state_trie s) = (Ok b, t)" and
    s': "s' = s\<lparr>state_trie := t, storage_tries := (storage_tries s)(?h \<mapsto> st)\<rparr>"
    by (auto simp: apply_account_def Let_def apply_slots_updates old_storage_def written_account_def insert_rlp_def
        split: prod.splits outcome.splits option.splits if_splits)
  have old: "mpt_inv E ?old" "trie_room (0 + length ?us) ?old"
    using mpt_inv_old_storage [OF inv] room(2) by (simp_all add: account_room_def)
  have st0: "mpt_inv E st0" "\<forall>p. nibbles p \<longrightarrow> get_nibbles st0 p = viewed to_nibs ?us (get_nibbles ?old) p"
    using byte_map.updates_view [OF old _ slots] by (simp_all add: list_all_iff)
  have st: "mpt_inv E st" "\<forall>p. nibbles p \<longrightarrow> get_nibbles st p = get_nibbles st0 p"
    using hash_view [OF st0(1)] root by auto
  have "fst (hash E st) = fst (hash E st0)" using hash_viewed [OF st(1) st0(1) st(2)] .
  moreover have "mpt_inv E (state_trie s)" using inv by (simp add: state_inv_def)
  note byte_map.put_view [OF this room(1) nibbles_to_nibs ins]
  ultimately show ?thesis using st st0 s' Some inv root
    by (auto simp: state_inv_def same_except_def account_effect_def get_as_nibbles)
qed

lemma update_effect:
  assumes "state_inv E s" "trie_room (length accs) (state_trie s)" "list_all (account_room E s) accs"
    and "distinct (map (\<lambda>a. keccak256 E (fst a)) accs)" "update_from_bundle_state E C accs s = (Ok (), s')"
  shows "state_inv E s' \<and> same_except ((\<lambda>a. keccak256 E (fst a)) ` set accs) s s'
    \<and> list_all (account_effect E C s s') accs"
  using assms
proof (induction accs arbitrary: s)
  case (Cons a accs)
  let ?h = "\<lambda>a. keccak256 E (fst a)"
  obtain s1 where s1: "apply_account E C (fst a) (snd a) s = (Ok (), s1)"
    "update_from_bundle_state E C accs s1 = (Ok (), s')" using Cons.prems(5) by (auto simp: and_then_Ok_iff)
  have "account_room E s a" "trie_room (Suc (length accs)) (state_trie s)" using Cons.prems by simp_all
  note e = apply_account_effect [OF Cons.prems(1) this(2,1) s1(1)]
  have new: "?h b \<notin> {?h a}" if "b \<in> set accs" for b using Cons.prems(4) that by (simp add: image_iff) metis
  have "account_room E s1 b" if "b \<in> set accs" for b
    using old_storage_same [of "{?h a}" s s1 E b] e new [OF that] Cons.prems(3) that
    by (simp add: account_room_def list_all_iff)
  with Cons.IH [of s1] e s1(2) Cons.prems(4) have r: "state_inv E s'" "same_except (?h ` set accs) s1 s'"
    "list_all (account_effect E C s1 s') accs" by (simp_all add: list_all_iff)
  have "account_effect E C s s' b" if "b \<in> set accs" for b
    using account_effect_before [of "{?h a}" s s1 E b C s'] e new [OF that] r(3) that by (simp add: list_all_iff)
  moreover have "account_effect E C s s' a"
    using account_effect_after [OF r(2), of E a C s] e Cons.prems(4) by simp
  moreover have "same_except (?h ` set (a # accs)) s s'"
    using same_except_trans [of "{?h a}" s s1 "?h ` set accs" s'] e r(2) by simp
  ultimately show ?case using r(1) by (simp add: list_all_iff)
qed simp

text \<open>The effect determines what is read afterwards.\<close>

lemma effect_determined:
  assumes inv: "state_inv E s1" "state_inv E s2"
    and e: "account_effect E C s s1 a" "account_effect E C s s2 a"
  shows "get (state_trie s1) (keccak256 E (fst a)) = get (state_trie s2) (keccak256 E (fst a))
    \<and> map_option (\<lambda>t. fst (hash E t)) (storage_tries s1 (keccak256 E (fst a))) =
        map_option (\<lambda>t. fst (hash E t)) (storage_tries s2 (keccak256 E (fst a)))"
proof (cases "acct_info (snd a)")
  case None
  with e show ?thesis by (simp add: account_effect_def)
next
  case (Some info)
  let ?h = "keccak256 E (fst a)"
  let ?v = "viewed to_nibs (map (slot_update E C) (acct_storage (snd a))) (get_nibbles (old_storage E s (fst a) (snd a)))"
  from e(1) Some obtain t1 r1 where t1: "storage_tries s1 ?h = Some t1" "fst (hash E t1) = Ok r1"
    "get (state_trie s1) ?h = Ok (Some (account_encode C (written_account info r1)))"
    "\<forall>p. nibbles p \<longrightarrow> get_nibbles t1 p = ?v p" by (auto simp: account_effect_def)
  from e(2) Some obtain t2 r2 where t2: "storage_tries s2 ?h = Some t2" "fst (hash E t2) = Ok r2"
    "get (state_trie s2) ?h = Ok (Some (account_encode C (written_account info r2)))"
    "\<forall>p. nibbles p \<longrightarrow> get_nibbles t2 p = ?v p" by (auto simp: account_effect_def)
  have "mpt_inv E t1" "mpt_inv E t2" using inv t1(1) t2(1) by (auto simp: state_inv_def)
  with hash_viewed [of t1 t2] t1(4) t2(4) have "fst (hash E t1) = fst (hash E t2)" by simp
  with t1 t2 show ?thesis by simp
qed

lemma update_order:
  assumes s: "state_inv E s" "trie_room (length accs) (state_trie s)" "list_all (account_room E s) accs"
    and d: "distinct (map (\<lambda>a. keccak256 E (fst a)) accs)" "distinct (map (\<lambda>a. keccak256 E (fst a)) accs')"
      "set accs' = set accs"
    and r: "update_from_bundle_state E C accs s = (Ok (), s1)" "update_from_bundle_state E C accs' s = (Ok (), s2)"
  shows "fst (hash E (state_trie s1)) = fst (hash E (state_trie s2))"
proof (rule hash_viewed)
  let ?h = "\<lambda>a. keccak256 E (fst a)"
  have "length accs' = length accs" using d by (metis distinct_card distinct_map)
  with s d(3) have s': "trie_room (length accs') (state_trie s)" "list_all (account_room E s) accs'"
    by (simp_all add: list_all_iff)
  note u1 = update_effect [OF s d(1) r(1)] and u2 = update_effect [OF s(1) s' d(2) r(2)]
  show "mpt_inv E (state_trie s1)" "mpt_inv E (state_trie s2)" using u1 u2 by (auto simp: state_inv_def)
  show "\<forall>p. nibbles p \<longrightarrow> get_nibbles (state_trie s1) p = get_nibbles (state_trie s2) p"
  proof (intro allI impI)
    fix p assume p: "nibbles p"
    show "get_nibbles (state_trie s1) p = get_nibbles (state_trie s2) p"
    proof (cases "p \<in> to_nibs ` ?h ` set accs")
      case True
      then obtain a where "a \<in> set accs" "p = to_nibs (?h a)" by blast
      with effect_determined [of s1 s2 C s a] u1 u2 d(3) show ?thesis by (simp add: list_all_iff get_as_nibbles)
    next
      case False
      with u1 u2 d(3) p show ?thesis by (simp add: same_except_def)
    qed
  qed
qed

end

section \<open>Resolved states\<close>

text \<open>On a state without unresolved nodes the update cannot fail.\<close>

definition state_valid :: "ext \<Rightarrow> ethereum_state \<Rightarrow> bool" where
  "state_valid E s \<longleftrightarrow> valid_trie E (state_trie s) \<and> (\<forall>h t. storage_tries s h = Some t \<longrightarrow> valid_trie E t)"

lemma valid_new_trie [simp]: "valid_trie E new"
  unfolding valid_trie_def using hashed_new by blast

lemma state_valid_inv: "state_valid E s \<Longrightarrow> state_inv E s"
  by (auto simp: state_valid_def state_inv_def valid_trie_def mpt_inv_def hashed_trie_def)

lemma valid_old_storage: "state_valid E s \<Longrightarrow> valid_trie E (old_storage E s address account)"
  by (auto simp: state_valid_def old_storage_def split: option.split)

context rlp_laws
begin

lemma apply_account_total:
  assumes v: "state_valid E s" and room: "trie_room (Suc n) (state_trie s)" "account_room E s a"
  shows "\<exists>s'. apply_account E C (fst a) (snd a) s = (Ok (), s') \<and> state_valid E s'"
proof (cases "acct_info (snd a)")
  case None
  have "valid_trie E (state_trie s)" "key32 (keccak256 E (fst a))"
    using v by (simp_all add: state_valid_def key32_def keccak_length)
  from delete_lookup [OF this] v None show ?thesis
    by (auto simp: apply_account_def Let_def state_valid_def)
next
  case (Some info)
  let ?h = "keccak256 E (fst a)" and ?us = "map (slot_update E C) (acct_storage (snd a))"
  have k: "key32 ?h" "list_all (\<lambda>u. key32 (fst u)) ?us" and st: "valid_trie E (state_trie s)"
    using v by (simp_all add: key32_def keccak_length list_all_iff slot_update_def state_valid_def)
  have "trie_room (length ?us) (old_storage E s (fst a) (snd a))" using room(2) by (simp add: account_room_def)
  then obtain t1 where t1: "apply_slots E C (acct_storage (snd a)) (old_storage E s (fst a) (snd a)) = (Ok (), t1)"
    "valid_trie E t1"
    using trie.apply_updates_ok [OF valid_old_storage [OF v, of "fst a" "snd a"] _ k(2)] by (auto simp: apply_slots_updates)
  obtain root t2 where t2: "hash E t1 = (Ok root, t2)" "valid_trie E t2" using hash_lookup [OF t1(2)] by blast
  obtain b t where t: "insert_mpt ?h (account_encode C (written_account info root)) (state_trie s) = (Ok b, t)"
    "valid_trie E t" using insert_lookup [OF st room(1) k(1)] by blast
  have "apply_account E C (fst a) (snd a) s =
      (Ok (), s\<lparr>storage_tries := (storage_tries s)(?h \<mapsto> t2), state_trie := t\<rparr>)"
    using Some t1 t2 t by (simp add: apply_account_def Let_def old_storage_def written_account_def insert_rlp_def)
  with v t t2 show ?thesis by (auto simp: state_valid_def)
qed

lemma update_total:
  assumes "state_valid E s" "trie_room (length accs) (state_trie s)" "list_all (account_room E s) accs"
    and "distinct (map (\<lambda>a. keccak256 E (fst a)) accs)"
  shows "\<exists>s'. update_from_bundle_state E C accs s = (Ok (), s') \<and> state_valid E s'"
  using assms
proof (induction accs arbitrary: s)
  case (Cons a accs)
  have room: "trie_room (Suc (length accs)) (state_trie s)" "account_room E s a" using Cons.prems by simp_all
  obtain s1 where s1: "apply_account E C (fst a) (snd a) s = (Ok (), s1)" "state_valid E s1"
    using apply_account_total [OF Cons.prems(1) room] by blast
  note e = apply_account_effect [OF state_valid_inv [OF Cons.prems(1)] room s1(1)]
  have "account_room E s1 b" if "b \<in> set accs" for b
  proof -
    have "keccak256 E (fst b) \<notin> {keccak256 E (fst a)}"
      using Cons.prems(4) that by (simp add: image_iff) metis
    with old_storage_same [of "{keccak256 E (fst a)}" s s1 E b] e Cons.prems(3) that show ?thesis
      by (simp add: account_room_def list_all_iff)
  qed
  with Cons.IH [of s1] s1 e Cons.prems(4) show ?case by (simp add: list_all_iff)
qed simp

end

end
