(* ===== verification/State_Properties.thy ===== *)
theory State_Properties
  imports State_Correct Trie_Properties
begin

text \<open>The correctness statements of the state update, with a bundle of two accounts as example.\<close>

section \<open>An example\<close>

definition two_codec :: eth_codec where
  "two_codec = \<lparr>account_encode = (\<lambda>a. 0xc1 # acc_storage_root a), account_decode = (\<lambda>_. Inl UnexpectedLength),
     u256_encode = (\<lambda>v. [ucast v]), u256_decode = (\<lambda>_. Inl UnexpectedLength)\<rparr>"

definition two_state :: ethereum_state where
  "two_state = \<lparr>state_trie = ex_state, storage_tries = [keccak256 std_ext [1] \<mapsto> ex_state]\<rparr>"

definition two_bundle :: bundle_state where
  "two_bundle =
     [([1], \<lparr>acct_info = Some \<lparr>info_nonce = 1, info_balance = 2, info_code_hash = []\<rparr>,
             acct_storage = [(1, 5), (2, 0)], acct_was_destroyed = False\<rparr>),
      ([2], \<lparr>acct_info = None, acct_storage = [], acct_was_destroyed = True\<rparr>)]"

lemma two_hashes [simp]: "keccak256 std_ext [1] \<noteq> keccak256 std_ext [2]"
proof -
  have "hd (std_keccak256 [1]) \<noteq> hd (std_keccak256 [2])"
    by (simp add: std_keccak256_def hd_map upt_rec mix_def)
  then show ?thesis by (auto simp: std_ext_def)
qed

lemma two_state_valid: "state_valid std_ext two_state"
  using valid_ex_state by (auto simp: state_valid_def two_state_def)

lemma two_bundle_room:
  "trie_room (length two_bundle) (state_trie two_state)" "list_all (account_room std_ext two_state) two_bundle"
  "distinct (map (\<lambda>a. keccak256 std_ext (fst a)) two_bundle)"
  using room_mono [OF valid_ex_state(2)] room_new [of 0] two_hashes
  by (auto simp: two_bundle_def two_state_def account_room_def old_storage_def)

section \<open>Properties\<close>

text \<open>
  C19: what applying a block's changes does, on full and on pruned tries. After a successful update every
  account of the bundle has its new data and the root of its storage trie, in which exactly the
  changed slots are written (into an empty trie if the account was destroyed) and zero values are
  removed; a removed account is gone with its storage; all other accounts and storage tries read
  as before, unknown parts included.
\<close>

theorem bundle_update_effect:
  assumes "rlp_laws E" "state_inv E s" "trie_room (length accs) (state_trie s)" "list_all (account_room E s) accs"
    and "distinct (map (\<lambda>a. keccak256 E (fst a)) accs)" "update_from_bundle_state E C accs s = (Ok (), s')"
  shows "state_inv E s' \<and> same_except ((\<lambda>a. keccak256 E (fst a)) ` set accs) s s'
    \<and> list_all (account_effect E C s s') accs"
  using rlp_laws.update_effect [OF assms] .

theorem bundle_update_effect_witness:
  "\<exists>s'. update_from_bundle_state std_ext two_codec two_bundle two_state = (Ok (), s')
     \<and> get (state_trie s') (keccak256 std_ext [2]) = Ok None
     \<and> list_all (account_effect std_ext two_codec two_state s') two_bundle"
proof -
  obtain s' where s': "update_from_bundle_state std_ext two_codec two_bundle two_state = (Ok (), s')"
    using std.update_total [OF two_state_valid two_bundle_room] by blast
  from bundle_update_effect [OF std.rlp_laws_axioms state_valid_inv [OF two_state_valid] two_bundle_room s'] s'
  show ?thesis by (auto simp: two_bundle_def account_effect_def)
qed

text \<open>
  C22: the state root after a block does not depend on the iteration order of the bundle's hash map.
  On pruned tries one order may fail where another succeeds, but any two orders that succeed give the
  same state root.
\<close>

theorem bundle_order_irrelevant:
  assumes "rlp_laws E" "state_inv E s" "trie_room (length accs) (state_trie s)" "list_all (account_room E s) accs"
    and "distinct (map (\<lambda>a. keccak256 E (fst a)) accs)" "distinct (map (\<lambda>a. keccak256 E (fst a)) accs')"
    and "set accs' = set accs"
    and "update_from_bundle_state E C accs s = (Ok (), s1)" "update_from_bundle_state E C accs' s = (Ok (), s2)"
  shows "fst (hash E (state_trie s1)) = fst (hash E (state_trie s2))"
  using rlp_laws.update_order [OF assms] .

theorem bundle_order_irrelevant_witness:
  "fst (hash std_ext (state_trie (snd (update_from_bundle_state std_ext two_codec two_bundle two_state)))) =
   fst (hash std_ext (state_trie (snd (update_from_bundle_state std_ext two_codec (rev two_bundle) two_state))))"
proof -
  have r: "trie_room (length (rev two_bundle)) (state_trie two_state)"
    "list_all (account_room std_ext two_state) (rev two_bundle)"
    "distinct (map (\<lambda>a. keccak256 std_ext (fst a)) (rev two_bundle))"
    using two_bundle_room by (simp_all add: rev_map [symmetric])
  obtain s1 s2 where "update_from_bundle_state std_ext two_codec two_bundle two_state = (Ok (), s1)"
    "update_from_bundle_state std_ext two_codec (rev two_bundle) two_state = (Ok (), s2)"
    using std.update_total [OF two_state_valid two_bundle_room] std.update_total [OF two_state_valid r] by blast
  with bundle_order_irrelevant [OF std.rlp_laws_axioms state_valid_inv [OF two_state_valid] two_bundle_room r(3)]
  show ?thesis by simp
qed

text \<open>
  C24: on a state without unresolved nodes applying a bundle always succeeds: neither an error nor the
  \<^verbatim>\<open>unwrap\<close> of the deletion can be reached, and the state stays in that class.
\<close>

theorem bundle_update_total:
  assumes "rlp_laws E" "state_valid E s" "trie_room (length accs) (state_trie s)" "list_all (account_room E s) accs"
    and "distinct (map (\<lambda>a. keccak256 E (fst a)) accs)"
  shows "\<exists>s'. update_from_bundle_state E C accs s = (Ok (), s') \<and> state_valid E s'"
  using rlp_laws.update_total [OF assms] .

theorem bundle_update_total_witness:
  "\<exists>s'. update_from_bundle_state std_ext two_codec two_bundle two_state = (Ok (), s') \<and> state_valid std_ext s'"
  using bundle_update_total [OF std.rlp_laws_axioms two_state_valid two_bundle_room] .

end
