(* ===== verification/Mpt_Frontier.thy ===== *)
theory Mpt_Frontier
  imports Mpt_Codec "HOL-Library.List_Lexorder"
begin

text \<open>
  Model of the digest frontiers of \<^verbatim>\<open>crates/mpt/src/trie.rs\<close>. The host cuts the state trie into
  subtree chunks around the keys a block modifies and leaves a frontier in which every chunk is
  replaced by its digest; the client updates the chunks one at a time and puts their new digests
  back with \<^verbatim>\<open>replace_frontier_slot\<close>.

  The host operations read caches through shared references, so the arena is threaded here too.
  \<open>out\<close> is the growing list of boundaries: a prefix and the node found there, \<open>None\<close> for an empty
  branch slot.
\<close>

record frontier_limits =
  max_nodes :: nat
  max_bytes :: nat
  max_keys :: nat

record frontier_chunk =
  chunk_prefix :: nibs
  chunk_expected_root :: bytes
  chunk_num_nodes :: nat
  chunk_bytes :: bytes

record mpt_frontier =
  frontier_num_nodes :: nat
  frontier_bytes :: bytes
  frontier_chunks :: "frontier_chunk list"

type_synonym boundaries = "(nibs \<times> node_id option) list"

section \<open>Boundaries\<close>

text \<open>\<^verbatim>\<open>matches!(self.calc_reference(id), NodeRef::Digest(_))\<close>.\<close>

definition ref_is_digest :: "ext \<Rightarrow> node_id \<Rightarrow> mpt \<Rightarrow> (mpt_error, bool) outcome \<times> mpt" where
  "ref_is_digest E i m =
     and_then (calc_reference (hash_fuel m) E i m) (\<lambda>r m.
       (Ok (case r of RefDigest _ \<Rightarrow> True | RefBytes _ \<Rightarrow> False), m))"

text \<open>Whether every node among the boundaries is referenced by digest; stops at the first that is not.\<close>

primrec all_digests :: "ext \<Rightarrow> boundaries \<Rightarrow> mpt \<Rightarrow> (mpt_error, bool) outcome \<times> mpt" where
  "all_digests E [] m = (Ok True, m)"
| "all_digests E (b # bs) m =
     (case snd b of
        None \<Rightarrow> all_digests E bs m
      | Some i \<Rightarrow>
          and_then (ref_is_digest E i m) (\<lambda>digest m.
            if digest then all_digests E bs m else (Ok False, m)))"

definition child_keys :: "(nibs \<times> nat) list \<Rightarrow> nat \<Rightarrow> byte \<Rightarrow> (nibs \<times> nat) list" where
  "child_keys keys pos nibble = filter (\<lambda>key. nth_opt (fst key) pos = Some nibble) keys"

type_synonym collector =
  "node_id \<Rightarrow> nibs \<Rightarrow> (nibs \<times> nat) list \<Rightarrow> boundaries \<Rightarrow> mpt \<Rightarrow> (mpt_error, boundaries) outcome \<times> mpt"

text \<open>The loop \<^verbatim>\<open>for nibble in 0..16\<close> over the children of a branch.\<close>

primrec collect_children ::
  "collector \<Rightarrow> node_id option list \<Rightarrow> nat list \<Rightarrow> nibs \<Rightarrow> (nibs \<times> nat) list \<Rightarrow> boundaries \<Rightarrow> mpt \<Rightarrow>
   (mpt_error, boundaries) outcome \<times> mpt" where
  "collect_children coll children [] pre keys out m = (Ok out, m)"
| "collect_children coll children (j # js) pre keys out m =
     (let nibble = of_nat j; ckeys = child_keys keys (length pre) nibble in
      and_then
        (if ckeys = [] then (Ok out, m)
         else
           (case nth_opt children j of
              None \<Rightarrow> (Panic IndexOutOfBounds, m)
            | Some (Some child) \<Rightarrow> coll child (pre @ [nibble]) ckeys out m
            | Some None \<Rightarrow> (Ok (out @ [(pre @ [nibble], None)]), m)))
        (\<lambda>out m. collect_children coll children js pre keys out m))"

definition over_limit :: "frontier_limits \<Rightarrow> nat \<Rightarrow> nat \<Rightarrow> (nibs \<times> nat) list \<Rightarrow> bool" where
  "over_limit limits node_count encoded_len keys \<longleftrightarrow>
     node_count > max_nodes limits \<or> encoded_len > max_bytes limits
       \<or> sum_list (map snd keys) > max_keys limits"

primrec collect_frontier_boundaries :: "nat \<Rightarrow> ext \<Rightarrow> frontier_limits \<Rightarrow> collector" where
  "collect_frontier_boundaries 0 E limits i pre keys out m = (Panic StackOverflow, m)"
| "collect_frontier_boundaries (Suc fuel) E limits i pre keys out m =
     and_then (encoded_subtrie E i m) (\<lambda>encoded m.
     and_then (subtree_num_nodes i m, m) (\<lambda>node_count m.
       if over_limit limits node_count (length encoded) keys then
         (case node_at m i of
            None \<Rightarrow> (Panic IndexOutOfBounds, m)
          | Some (Branch children) \<Rightarrow>
              and_then (collect_children (collect_frontier_boundaries fuel E limits) children
                          [0..<16] pre keys out m) (\<lambda>out' m.
              and_then (all_digests E (drop (length out) out') m) (\<lambda>ok m.
                if \<not> ok then (Ok (take (length out) out' @ [(pre, Some i)]), m)
                else if length out' > length out then (Ok out', m)
                else (Ok (out' @ [(pre, Some i)]), m)))
          | Some (Extension path child) \<Rightarrow>
              and_then (collect_frontier_boundaries fuel E limits child (pre @ prefix_to_nibs path)
                          keys out m) (\<lambda>out' m.
              and_then (all_digests E (drop (length out) out') m) (\<lambda>ok m.
                if ok \<and> length out' > length out then (Ok out', m)
                else (Ok (take (length out) out' @ [(pre, Some i)]), m)))
          | Some _ \<Rightarrow> (Ok (out @ [(pre, Some i)]), m))
       else (Ok (out @ [(pre, Some i)]), m)))"

section \<open>Replacing a slot\<close>

definition slot_node :: "ext \<Rightarrow> bytes \<Rightarrow> node_data" where
  "slot_node E new_root = (if new_root = EMPTY_ROOT_HASH E then Null else Digest new_root)"

definition invalidate_unit :: "node_id \<Rightarrow> mpt \<Rightarrow> (mpt_error, unit) outcome \<times> mpt" where
  "invalidate_unit i m = and_then (invalidate_ref_cache i m) (\<lambda>_ m. (Ok (), m))"

primrec replace_frontier_slot_internal ::
  "nat \<Rightarrow> ext \<Rightarrow> node_id \<Rightarrow> nibs \<Rightarrow> bytes \<Rightarrow> bytes \<Rightarrow> mpt \<Rightarrow> (mpt_error, unit) outcome \<times> mpt" where
  "replace_frontier_slot_internal 0 E i pre expected_root new_root m = (Panic StackOverflow, m)"
| "replace_frontier_slot_internal (Suc fuel) E i pre expected_root new_root m =
     (case pre of
        [] \<Rightarrow>
          and_then (subtree_hash E i m) (\<lambda>h m.
            if h \<noteq> expected_root then (Err NodeRefMismatch, m)
            else if unat i < length (nodes m) then
              invalidate_unit i (set_node i (slot_node E new_root) m)
            else (Panic IndexOutOfBounds, m))
      | head # tail \<Rightarrow>
          (case node_at m i of
             None \<Rightarrow> (Panic IndexOutOfBounds, m)
           | Some (Branch children) \<Rightarrow>
               (case child_at children head of
                  None \<Rightarrow> (Panic IndexOutOfBounds, m)
                | Some c \<Rightarrow>
                    and_then
                      (if tail = [] \<and> c = None then
                         (if expected_root \<noteq> EMPTY_ROOT_HASH E then (Err NodeRefMismatch, m)
                          else if new_root \<noteq> EMPTY_ROOT_HASH E then
                            (case add_node (Digest new_root) None m of
                               (new_id, m) \<Rightarrow>
                                 (Ok (), set_node i (Branch (children[unat head := Some new_id])) m))
                          else (Ok (), m))
                       else
                         (case c of
                            None \<Rightarrow> (Err InvalidFrontierPrefix, m)
                          | Some child \<Rightarrow>
                              replace_frontier_slot_internal fuel E child tail expected_root new_root m))
                      (\<lambda>_ m. invalidate_unit i m))
           | Some (Extension path child) \<Rightarrow>
               (case slice_strip_prefix (prefix_to_nibs path) pre of
                  None \<Rightarrow> (Err InvalidFrontierPrefix, m)
                | Some tail \<Rightarrow>
                    and_then (replace_frontier_slot_internal fuel E child tail expected_root new_root m)
                      (\<lambda>_ m. invalidate_unit i m))
           | Some _ \<Rightarrow> (Err InvalidFrontierPrefix, m)))"

definition replace_frontier_slot ::
  "ext \<Rightarrow> nibs \<Rightarrow> bytes \<Rightarrow> bytes \<Rightarrow> mpt \<Rightarrow> (mpt_error, unit) outcome \<times> mpt" where
  "replace_frontier_slot E pre expected_root new_root m =
     replace_frontier_slot_internal (walk_fuel m pre) E (root_id m) pre expected_root new_root m"

section \<open>Building a frontier\<close>

text \<open>
  Sorted keys are merged, adding up the weights of equal keys: \<^verbatim>\<open>dedup_by\<close> drops the later of two
  equal neighbours after adding its weight to the earlier one.
\<close>

fun dedup_keys :: "(nibs \<times> nat) list \<Rightarrow> (nibs \<times> nat) list" where
  "dedup_keys (b # a # ks) =
     (if fst a = fst b then dedup_keys ((fst b, snd b + snd a) # ks)
      else b # dedup_keys (a # ks))"
| "dedup_keys ks = ks"

definition frontier_keys :: "(bytes \<times> nat) list \<Rightarrow> (nibs \<times> nat) list" where
  "frontier_keys keys = dedup_keys (sort_key fst (map (\<lambda>(key, weight). (to_nibs key, weight)) keys))"

text \<open>The root, node count and bytes of one chunk.\<close>

definition chunk_data ::
  "ext \<Rightarrow> node_id option \<Rightarrow> mpt \<Rightarrow> (mpt_error, bytes \<times> nat \<times> bytes) outcome \<times> mpt" where
  "chunk_data E node m =
     (case node of
        Some i \<Rightarrow>
          and_then (ref_is_digest E i m) (\<lambda>digest m.
            if \<not> digest \<and> i \<noteq> root_id m then (Err InlineFrontierChunk, m)
            else
              and_then (subtree_hash E i m) (\<lambda>root m.
              and_then (subtree_num_nodes i m, m) (\<lambda>n m.
              and_then (encoded_subtrie E i m) (\<lambda>bs m. (Ok (root, n, bs), m)))))
      | None \<Rightarrow> (Ok (EMPTY_ROOT_HASH E, 1, [EMPTY_STRING_CODE E, 0, 0, 0]), m))"

text \<open>The loop over the boundaries; \<open>fr\<close> is the frontier, a clone of the trie \<open>m\<close>.\<close>

primrec build_chunks ::
  "ext \<Rightarrow> boundaries \<Rightarrow> mpt \<times> mpt \<Rightarrow> (mpt_error, frontier_chunk list) outcome \<times> (mpt \<times> mpt)" where
  "build_chunks E [] s = (Ok [], s)"
| "build_chunks E (b # bs) s =
     (case s of (m, fr) \<Rightarrow>
      (case chunk_data E (snd b) m of
         (Ok (root, n, bytes), m) \<Rightarrow>
           (case replace_frontier_slot E (fst b) root root fr of
              (Ok _, fr) \<Rightarrow>
                and_then (build_chunks E bs (m, fr)) (\<lambda>cs s.
                  (Ok (\<lparr>chunk_prefix = fst b, chunk_expected_root = root, chunk_num_nodes = n,
                        chunk_bytes = bytes\<rparr> # cs), s))
            | (Err e, fr) \<Rightarrow> (Err e, (m, fr))
            | (Panic p, fr) \<Rightarrow> (Panic p, (m, fr)))
       | (Err e, m) \<Rightarrow> (Err e, (m, fr))
       | (Panic p, m) \<Rightarrow> (Panic p, (m, fr))))"

text \<open>
  The sums of weights are natural numbers. A debug build asserts at the end that the frontier still has the root of the trie; that it has
  is proved in the theory \<open>Frontier_Partition\<close>.
\<close>

definition build_frontier_weighted ::
  "ext \<Rightarrow> (bytes \<times> nat) list \<Rightarrow> frontier_limits \<Rightarrow> mpt \<Rightarrow> (mpt_error, mpt_frontier) outcome \<times> mpt" where
  "build_frontier_weighted E keys limits m =
     (let ks = frontier_keys keys in
      if ks = [] then
        and_then (encode_trie E m) (\<lambda>bs m.
          (Ok \<lparr>frontier_num_nodes = num_nodes m, frontier_bytes = bs, frontier_chunks = []\<rparr>, m))
      else
        and_then (collect_frontier_boundaries (hash_fuel m) E limits (root_id m) [] ks [] m) (\<lambda>bounds m.
          (case build_chunks E (sort_key fst bounds) (m, m) of
             (Ok cs, (m, fr)) \<Rightarrow>
               and_then (hash E m) (\<lambda>_ m.
                 (case subtree_num_nodes (root_id fr) fr of
                    Ok n \<Rightarrow>
                      (case encode_trie E fr of
                         (Ok bs, _) \<Rightarrow>
                           (Ok \<lparr>frontier_num_nodes = n, frontier_bytes = bs, frontier_chunks = cs\<rparr>, m)
                       | (Err e, _) \<Rightarrow> (Err e, m)
                       | (Panic p, _) \<Rightarrow> (Panic p, m))
                  | Err e \<Rightarrow> (Err e, m)
                  | Panic p \<Rightarrow> (Panic p, m)))
           | (Err e, (m, _)) \<Rightarrow> (Err e, m)
           | (Panic p, (m, _)) \<Rightarrow> (Panic p, m))))"

definition build_frontier ::
  "ext \<Rightarrow> bytes list \<Rightarrow> frontier_limits \<Rightarrow> mpt \<Rightarrow> (mpt_error, mpt_frontier) outcome \<times> mpt" where
  "build_frontier E keys limits m = build_frontier_weighted E (map (\<lambda>key. (key, 1)) keys) limits m"

end
