(* ===== verification/Frontier_Refine.thy ===== *)
theory Frontier_Refine
  imports Trie_Laws Mpt_Frontier
begin

text \<open>
  The replacement of a frontier slot on abstract trees, and the proof that
  \<^verbatim>\<open>replace_frontier_slot\<close> implements it on every arena that stores a tree. The result of a
  replacement need not be canonical, so the relation between arenas and trees is \<open>stores\<close>, which
  is \<open>rep\<close> without the canonical form.
\<close>

section \<open>Replacement on trees\<close>

definition pt_slot :: "ext \<Rightarrow> bytes \<Rightarrow> ptree" where
  "pt_slot E n = (if n = EMPTY_ROOT_HASH E then PNull else PDigest n)"

function pt_replace :: "ext \<Rightarrow> ptree \<Rightarrow> nibs \<Rightarrow> bytes \<Rightarrow> bytes \<Rightarrow> (mpt_error, ptree) outcome" where
  "pt_replace E t [] x n = (if root_hash E t = x then Ok (pt_slot E n) else Err NodeRefMismatch)"
| "pt_replace E (PBranch cs) (h # k) x n =
     (if unat h < length cs then
        (case cs ! unat h of
           None \<Rightarrow>
             (if k \<noteq> [] then Err InvalidFrontierPrefix
              else if x \<noteq> EMPTY_ROOT_HASH E then Err NodeRefMismatch
              else if n \<noteq> EMPTY_ROOT_HASH E then Ok (PBranch (cs[unat h := Some (PDigest n)]))
              else Ok (PBranch cs))
         | Some c \<Rightarrow>
             (case pt_replace E c k x n of
                Ok c' \<Rightarrow> Ok (PBranch (cs[unat h := Some c']))
              | Err e \<Rightarrow> Err e
              | Panic q \<Rightarrow> Panic q))
      else Panic IndexOutOfBounds)"
| "pt_replace E (PExt p c) (h # k) x n =
     (if prefix p (h # k) then
        (case pt_replace E c (drop (length p) (h # k)) x n of
           Ok c' \<Rightarrow> Ok (PExt p c')
         | Err e \<Rightarrow> Err e
         | Panic q \<Rightarrow> Panic q)
      else Err InvalidFrontierPrefix)"
| "pt_replace E PNull (h # k) x n = Err InvalidFrontierPrefix"
| "pt_replace E (PLeaf p v) (h # k) x n = Err InvalidFrontierPrefix"
| "pt_replace E (PDigest d) (h # k) x n = Err InvalidFrontierPrefix"
  by pat_completeness auto
termination
  by (relation "measure (\<lambda>(_, t, _). size t)") (auto simp: termination_simp)

section \<open>Arenas that store a tree\<close>

definition stores :: "ext \<Rightarrow> mpt \<Rightarrow> atree \<Rightarrow> bool" where
  "stores E m t \<longleftrightarrow> holds E m t \<and> distinct (aids t) \<and> aid t = root_id m
     \<and> length (cached_references m) = length (nodes m) \<and> \<not> scratch_borrowed m"

definition stores_tree :: "ext \<Rightarrow> mpt \<Rightarrow> ptree \<Rightarrow> bool" where
  "stores_tree E m t \<longleftrightarrow> (\<exists>a. stores E m a \<and> erase a = t)"

lemma rep_stores: "rep E m a \<longleftrightarrow> stores E m a \<and> canon_top (erase a)"
  by (auto simp: rep_def stores_def)

lemma repr_stores: "repr_tree E m t \<longleftrightarrow> stores_tree E m t \<and> canon_top t"
  by (auto simp: repr_tree_def stores_tree_def rep_stores)

definition replace_ok ::
  "ext \<Rightarrow> mpt \<Rightarrow> atree \<Rightarrow> nibs \<Rightarrow> bytes \<Rightarrow> bytes \<Rightarrow> (mpt_error, unit) outcome \<times> mpt \<Rightarrow> bool" where
  "replace_ok E m t k x n r \<longleftrightarrow>
     (\<exists>m' t'. r = (Ok (), m') \<and> pt_replace E (erase t) k x n = Ok (erase t') \<and> post E m t m' t'
        \<and> length (nodes m') \<le> length (nodes m) + (if x = n then 0 else 1))
     \<or> (\<exists>e m'. r = (Err e, m') \<and> pt_replace E (erase t) k x n = Err e \<and> post E m t m' t
        \<and> nodes m' = nodes m)"

lemma replace_okI:
  "r = (Ok (), m') \<Longrightarrow> pt_replace E (erase t) k x n = Ok (erase t') \<Longrightarrow> post E m t m' t' \<Longrightarrow>
   length (nodes m') \<le> length (nodes m) + (if x = n then 0 else 1) \<Longrightarrow> replace_ok E m t k x n r"
  unfolding replace_ok_def by blast

lemma replace_errI:
  "r = (Err e, m') \<Longrightarrow> pt_replace E (erase t) k x n = Err e \<Longrightarrow> post E m t m' t \<Longrightarrow>
   nodes m' = nodes m \<Longrightarrow> replace_ok E m t k x n r"
  unfolding replace_ok_def by blast

lemma distinct_concat_disjoint:
  "distinct (concat (map f xs)) \<Longrightarrow> x \<in> set xs \<Longrightarrow> y \<in> set xs \<Longrightarrow> x \<noteq> y \<Longrightarrow> set (f x) \<inter> set (f y) = {}"
  by (induction xs) auto

lemma invalidate_finish:
  "finish_update i (Ok True, m) = (Ok True, m') \<Longrightarrow> invalidate_unit i m = (Ok (), m')"
  by (cases "invalidate_ref_cache i m"; cases "fst (invalidate_ref_cache i m)")
    (auto simp: finish_update_def invalidate_unit_def)

lemma grown_cells_changed:
  "cells_changed S m m' \<Longrightarrow> length (cached_references m) = length (nodes m) \<Longrightarrow> S \<subseteq> T \<Longrightarrow> grown T m m'"
  by (auto simp: cells_changed_def grown_def node_at_def)

lemma post_kid_same:
  assumes t: "holds E m t" "distinct (aids t)" and c: "c \<in> set (akids t)" and p: "post E m c m1 c"
  shows "post E m t m1 t"
proof -
  note kp = kid_post [OF t c p]
  have "holds E m1 d" if "d \<in> set (akids t)" for d
  proof (cases "d = c")
    case False
    have "distinct (concat (map aids (akids t)))" using t(2) by (subst (asm) aids_rec) simp
    with False that c have "set (aids d) \<inter> set (aids c) = {}" by (intro distinct_concat_disjoint)
    with kp(9) holds_kid [OF t(1) that] show ?thesis by blast
  qed (use kp(4) in simp)
  moreover have "cell_ok E m t" "shape_ok t" using t(1) holds_rec by blast+
  ultimately have "holds E m1 t" using kp(2,3) by (subst holds_rec) (simp add: cell_ok_def)
  with t(2) kp(1) show ?thesis by (simp add: post_def)
qed

lemma replace_branch_ok:
  assumes t: "t = ABranch i cs" "holds E m t" "distinct (aids t)"
    and cs: "length cs = 16" "unat a < 16" "cs ! unat a = Some c"
    and r: "replace_ok E m c k x n r"
  shows "replace_ok E m t (a # k) x n (and_then r (\<lambda>_ m. invalidate_unit i m))"
proof -
  have kid: "c \<in> set (akids t)" using Some_nth_kid cs t(1) by simp
  have c: "map (map_option erase) cs ! unat a = Some (erase c)" using cs by simp
  from r consider
      (ok) m1 c' where "r = (Ok (), m1)" "pt_replace E (erase c) k x n = Ok (erase c')" "post E m c m1 c'"
        "length (nodes m1) \<le> length (nodes m) + (if x = n then 0 else 1)"
    | (err) e m1 where "r = (Err e, m1)" "pt_replace E (erase c) k x n = Err e" "post E m c m1 c" "nodes m1 = nodes m"
    unfolding replace_ok_def by blast
  then show ?thesis
  proof cases
    case ok
    let ?t2 = "ABranch i (cs[unat a := Some c'])"
    have "map_option aid (Some c') = map_option aid (cs ! unat a)" using ok(3) cs by (simp add: post_def)
    then have nd: "node_of ?t2 = node_of t" using t(1) cs by (simp add: map_update list_update_same_conv)
    have "unat a < length cs" using cs by simp
    note bk = branch_kid_post [OF t this cs(3) ok(3), of "Some c'"]
    have "\<exists>m'. finish_update (aid t) (Ok True, m1) = (Ok True, m') \<and> post E m t m' ?t2
      \<and> length (nodes m') = length (nodes m1)"
      by (rule insert_kid_commit [OF t(2,3) kid ok(3)]) (use t cs nd bk in \<open>auto simp: distinct_somes\<close>)
    then obtain m' where m': "finish_update i (Ok True, m1) = (Ok True, m')" "post E m t m' ?t2"
      "length (nodes m') = length (nodes m1)" using t(1) by auto
    have "pt_replace E (erase t) (a # k) x n = Ok (erase ?t2)"
      using t(1) cs ok(2) c by (simp add: map_update)
    with ok(1,4) m' invalidate_finish [OF m'(1)] show ?thesis
      unfolding replace_ok_def by (intro disjI1 exI [of _ m'] exI [of _ ?t2]) simp
  next
    case err
    with post_kid_same [OF t(2,3) kid err(3)] t(1) cs c show ?thesis by (auto simp: replace_ok_def)
  qed
qed

lemma replace_ext_ok:
  assumes t: "t = AExt i q c" "holds E m t" "distinct (aids t)" and q: "prefix q k" "k \<noteq> []"
    and r: "replace_ok E m c (drop (length q) k) x n r"
  shows "replace_ok E m t k x n (and_then r (\<lambda>_ m. invalidate_unit i m))"
proof -
  have kid: "c \<in> set (akids t)" using t(1) by simp
  obtain a l where k: "k = a # l" using q(2) by (cases k) auto
  have eq: "pt_replace E (erase t) k x n =
      (case pt_replace E (erase c) (drop (length q) k) x n of
         Ok c' \<Rightarrow> Ok (PExt q c') | Err e \<Rightarrow> Err e | Panic z \<Rightarrow> Panic z)"
    using t(1) q(1) k by simp
  from r consider
      (ok) m1 c' where "r = (Ok (), m1)" "pt_replace E (erase c) (drop (length q) k) x n = Ok (erase c')"
        "post E m c m1 c'" "length (nodes m1) \<le> length (nodes m) + (if x = n then 0 else 1)"
    | (err) e m1 where "r = (Err e, m1)" "pt_replace E (erase c) (drop (length q) k) x n = Err e"
        "post E m c m1 c" "nodes m1 = nodes m"
    unfolding replace_ok_def by blast
  then show ?thesis
  proof cases
    case ok
    note kp = kid_post [OF t(2,3) kid ok(3)]
    have "shape_ok t" using t(2) holds_rec by blast
    then have "\<exists>m'. finish_update (aid t) (Ok True, m1) = (Ok True, m') \<and> post E m t m' (AExt i q c')
      \<and> length (nodes m') = length (nodes m1)"
      by (intro insert_kid_commit [OF t(2,3) kid ok(3)]) (use t kp in auto)
    then obtain m' where m': "finish_update i (Ok True, m1) = (Ok True, m')" "post E m t m' (AExt i q c')"
      "length (nodes m') = length (nodes m1)" using t(1) by auto
    with ok(1,2,4) eq invalidate_finish [OF m'(1)] show ?thesis
      unfolding replace_ok_def by (intro disjI1 exI [of _ m'] exI [of _ "AExt i q c'"]) simp
  next
    case err
    with post_kid_same [OF t(2,3) kid err(3)] eq show ?thesis by (auto simp: replace_ok_def)
  qed
qed

text \<open>The step for a slot without a child: a new digest node, or nothing to do.\<close>

definition fill_slot ::
  "ext \<Rightarrow> node_id \<Rightarrow> node_id option list \<Rightarrow> byte \<Rightarrow> bytes \<Rightarrow> bytes \<Rightarrow> mpt \<Rightarrow> (mpt_error, unit) outcome \<times> mpt" where
  "fill_slot E i children a x n m =
     (if x \<noteq> EMPTY_ROOT_HASH E then (Err NodeRefMismatch, m)
      else if n \<noteq> EMPTY_ROOT_HASH E then
        (case add_node (Digest n) None m of
           (new_id, m) \<Rightarrow> (Ok (), set_node i (Branch (children[unat a := Some new_id])) m))
      else (Ok (), m))"

lemma replace_empty_slot_ok:
  assumes t: "t = ABranch i cs" "holds E m t" "distinct (aids t)"
    and len: "length (cached_references m) = length (nodes m)" "length (nodes m) < 2 ^ 32" and n: "length n = 32"
    and cs: "length cs = 16" "unat a < 16" "cs ! unat a = None"
  shows "replace_ok E m t (a # k) x n
    (and_then (if k = [] then fill_slot E i (map (map_option aid) cs) a x n m else (Err InvalidFrontierPrefix, m))
       (\<lambda>_ m. invalidate_unit i m))"
proof -
  consider (deep) "k \<noteq> []" | (mismatch) "k = []" "x \<noteq> EMPTY_ROOT_HASH E"
    | (same) "k = []" "x = EMPTY_ROOT_HASH E" "n = EMPTY_ROOT_HASH E"
    | (new) "k = []" "x = EMPTY_ROOT_HASH E" "n \<noteq> EMPTY_ROOT_HASH E" by blast
  then show ?thesis
  proof cases
    case same
    have "\<exists>m'. finish_update (aid t) (Ok True, set_node (aid t) (node_of t) m) = (Ok True, m')
        \<and> post E m t m' t \<and> length (nodes m') = length (nodes m)"
      by (rule commit_post [OF grown_refl [OF len(1)] t(2)])
        (use t kid_aids [of _ t] aid_notin_kid [OF t(3)] holds_kid [OF t(2)] holds_rec [of E m t]
          aids_rec [of t] in auto)
    then obtain m' where m': "finish_update i (Ok True, m) = (Ok True, m')" "post E m t m' t"
      "length (nodes m') = length (nodes m)"
      using set_node_same [OF holds_node [OF t(2)]] t(1) by auto
    with same invalidate_finish [OF m'(1)] t(1) cs show ?thesis
      by (intro replace_okI [of _ m' _ _ _ _ _ t]) (auto simp: fill_slot_def)
  next
    case new
    obtain j m1 where j: "add_node (Digest n) None m = (j, m1)" by fastforce
    obtain m' where m': "finish_update i (Ok True, set_node i (Branch ((map (map_option aid) cs)[unat a := Some j])) m1) =
        (Ok True, m')" "post E m t m' (ABranch i (cs[unat a := Some (ADigest j n)]))"
      "length (nodes m') = Suc (length (nodes m))"
      using new_kid_commit [OF t cs(1) len cs(2), of "ADigest j n" j m1] j n by auto
    from new j m' invalidate_finish [OF m'(1)] t(1) cs show ?thesis
      unfolding replace_ok_def
      by (intro disjI1 exI [of _ m'] exI [of _ "ABranch i (cs[unat a := Some (ADigest j n)])"])
        (simp add: fill_slot_def map_update)
  qed (use cs t post_refl [OF t(2,3) len(1)] in \<open>auto simp: replace_ok_def fill_slot_def\<close>)
qed

context rlp_laws
begin

lemma subtree_hash_spec:
  assumes h: "holds E m t" and d: "distinct (aids t)" and s: "\<not> scratch_borrowed m"
  shows "\<exists>m'. subtree_hash E (aid t) m = (Ok (root_hash E (erase t)), m') \<and> holds E m' t
    \<and> cells_changed (set (aids t) - {aid t}) m m'"
proof (cases "erase t = PNull")
  case True
  then have "node_at m (aid t) = Some Null" using holds_node [OF h] by simp
  with True h show ?thesis by (auto simp: subtree_hash_def root_hash_def)
next
  case False
  have parts: "node_at m (aid t) = Some (node_of t)" "shape_ok t"
    "\<forall>c \<in> set (akids t). holds E m c" "cell_ok E m t" using h holds_rec by blast+
  have "calc_spec E (calc_reference (hash_fuel m) E) t"
    using calc_reference_spec [OF d] length_aids_le [OF h d] by (simp add: hash_fuel_def)
  then obtain m' where m': "calc_reference (hash_fuel m) E (aid t) m = (Ok (tree_ref E (erase t)), m')"
    "\<forall>c \<in> set (akids t). holds E m' c" "cells_changed (set (aids t) - {aid t}) m m'"
    using parts s unfolding calc_spec_def by blast
  have "holds E m' t"
    using m' parts cells_changed_node [OF m'(3)] cells_changed_cell [OF m'(3), of "aid t"] holds_rec [of E m' t]
    by (simp add: cell_ok_def)
  moreover have "subtree_hash E (aid t) m = (Ok (root_hash E (erase t)), m')"
    using subtree_hash_case [OF parts(1)] False m'(1) digest_of_ref_spec holds_digests_ok [OF h] by simp
  ultimately show ?thesis using m'(3) by blast
qed

lemma replace_here_ok:
  assumes h: "holds E m t" and d: "distinct (aids t)" and s: "\<not> scratch_borrowed m"
    and len: "length (cached_references m) = length (nodes m)" and n: "length n = 32"
  shows "replace_ok E m t [] x n (replace_frontier_slot_internal (Suc f) E (aid t) [] x n m)"
proof -
  obtain m1 where m1: "subtree_hash E (aid t) m = (Ok (root_hash E (erase t)), m1)" "holds E m1 t"
    "cells_changed (set (aids t) - {aid t}) m m1" using subtree_hash_spec [OF h d s] by blast
  have g: "grown (set (aids t)) m m1" using grown_cells_changed [OF m1(3) len] by blast
  have nodes: "nodes m1 = nodes m" using m1(3) by (simp add: cells_changed_def)
  show ?thesis
  proof (cases "root_hash E (erase t) = x")
    case True
    define t2 where "t2 = (if n = EMPTY_ROOT_HASH E then ANull (aid t) else ADigest (aid t) n)"
    have t2: "node_of t2 = slot_node E n" "erase t2 = pt_slot E n" "aid t2 = aid t" "shape_ok t2" "akids t2 = []"
      using n by (simp_all add: slot_node_def pt_slot_def t2_def)
    have "cell_at m1 (aid t) = cell_at m (aid t)" using cells_changed_cell [OF m1(3)] by simp
    with commit_post [OF g h t2(3,4)] t2 obtain m' where
      m': "finish_update (aid t) (Ok True, set_node (aid t) (slot_node E n) m1) = (Ok True, m')"
      "post E m t m' t2" "length (nodes m') = length (nodes m1)" by auto
    have "replace_frontier_slot_internal (Suc f) E (aid t) [] x n m = (Ok (), m')"
      using m1(1) True nodes holds_bound [OF h, of "aid t"] invalidate_finish [OF m'(1)] by simp
    with m' t2(2) True nodes show ?thesis by (intro replace_okI [of _ m' _ _ _ _ _ t2]) auto
  next
    case False
    with m1 g d nodes show ?thesis by (auto simp: replace_ok_def post_def)
  qed
qed

lemma replace_internal_spec:
  assumes "holds E m t" "distinct (aids t)" "nibbles k" "length (aids t) \<le> fuel"
    "length (cached_references m) = length (nodes m)" "\<not> scratch_borrowed m"
    "length (nodes m) < 2 ^ 32" "length n = 32"
  shows "replace_ok E m t k x n (replace_frontier_slot_internal fuel E (aid t) k x n m)"
  using assms
proof (induction t arbitrary: k fuel rule: atree_induct)
  case (node t)
  obtain f where f: "fuel = Suc f" using node.prems(4) by (cases fuel) auto
  note p = node.prems
  have nd: "node_at m (aid t) = Some (node_of t)" and sh: "shape_ok t" using p(1) holds_rec by blast+
  have ih: "replace_ok E m c k' x n (replace_frontier_slot_internal f E (aid c) k' x n m)"
    if "c \<in> set (akids t)" "nibbles k'" for c k'
    using node.IH [OF that(1)] holds_kid [OF p(1) that(1)] distinct_kid [OF p(2) that(1)] that(2)
      length_kid_aids [OF that(1)] p f by simp
  show ?case
  proof (cases k)
    case Nil
    with replace_here_ok [OF p(1,2,6,5,8)] f show ?thesis by simp
  next
    case (Cons a l)
    show ?thesis
    proof (cases t)
      case (ABranch i cs)
      then have cs: "length cs = 16" "unat a < 16" using sh p(3) Cons by auto
      have "child_at (map (map_option aid) cs) a = Some (map_option aid (cs ! unat a))"
        using cs by (simp add: child_at_def)
      then have step: "replace_frontier_slot_internal (Suc f) E i (a # l) x n m =
          and_then (case cs ! unat a of
              None \<Rightarrow> if l = [] then fill_slot E i (map (map_option aid) cs) a x n m else (Err InvalidFrontierPrefix, m)
            | Some c \<Rightarrow> replace_frontier_slot_internal f E (aid c) l x n m) (\<lambda>_ m. invalidate_unit i m)"
        using nd ABranch by (simp add: fill_slot_def split: option.split)
      show ?thesis
      proof (cases "cs ! unat a")
        case None
        with replace_empty_slot_ok [OF ABranch p(1,2,5,7,8) cs None, of l x] Cons f ABranch step show ?thesis
          by simp
      next
        case (Some c)
        then have "c \<in> set (akids t)" using Some_nth_kid cs ABranch by simp
        then have "replace_ok E m c l x n (replace_frontier_slot_internal f E (aid c) l x n m)"
          using ih Cons p(3) by simp
        from replace_branch_ok [OF ABranch p(1,2) cs Some this] Cons f ABranch step Some show ?thesis
          by simp
      qed
    next
      case (AExt i q c)
      then have q: "nibbles q" "prefix_to_nibs (to_encoded_path q False) = q" using sh by simp_all
      show ?thesis
      proof (cases "prefix q k")
        case True
        then have "slice_strip_prefix q k = Some (drop (length q) k)"
          by (auto simp: slice_strip_prefix_def prefix_def)
        moreover have "replace_ok E m c (drop (length q) k) x n
            (replace_frontier_slot_internal f E (aid c) (drop (length q) k) x n m)"
          using ih [of c] AExt p(3) by simp
        ultimately show ?thesis
          using replace_ext_ok [OF AExt p(1,2) True, of x n] Cons AExt nd f q by simp
      next
        case False
        then have "slice_strip_prefix q k = None"
          by (auto simp: slice_strip_prefix_def prefix_def) (metis append_take_drop_id)
        with False Cons AExt nd f q post_refl [OF p(1,2,5)] show ?thesis
          by (auto simp: replace_ok_def)
      qed
    qed (use Cons nd f post_refl [OF p(1,2,5)] in \<open>auto simp: replace_ok_def\<close>)
  qed
qed

end

end
