(* ===== verification/Frontier_Correct.thy ===== *)
theory Frontier_Correct
  imports Frontier_Refine Blinded
begin

text \<open>
  Why updating a trie chunk by chunk is correct. A frontier blinds the full trie: some of its
  hash-addressed subtrees are digests. Blinding keeps every reference and so the root hash. When a
  chunk of the full trie is replaced by an updated one that is again hash-addressed, replacing its
  slot in the frontier by the new digest blinds the updated trie.
\<close>

section \<open>Subtrees by prefix\<close>

text \<open>An empty slot of a branch counts as the empty subtree.\<close>

function sub_at :: "ptree \<Rightarrow> nibs \<Rightarrow> ptree option" where
  "sub_at t [] = Some t"
| "sub_at (PBranch cs) (h # k) =
     (if unat h < length cs then
        (case cs ! unat h of
           None \<Rightarrow> if k = [] then Some PNull else None
         | Some c \<Rightarrow> sub_at c k)
      else None)"
| "sub_at (PExt p c) (h # k) =
     (if prefix p (h # k) then sub_at c (drop (length p) (h # k)) else None)"
| "sub_at PNull (h # k) = None"
| "sub_at (PLeaf p v) (h # k) = None"
| "sub_at (PDigest d) (h # k) = None"
  by pat_completeness auto
termination
  by (relation "measure (\<lambda>(t, _). size t)") (auto simp: termination_simp)

function put_at :: "ptree \<Rightarrow> nibs \<Rightarrow> ptree \<Rightarrow> ptree" where
  "put_at t [] G = G"
| "put_at (PBranch cs) (h # k) G =
     (if unat h < length cs then
        (case cs ! unat h of
           None \<Rightarrow> if G = PNull then PBranch cs else PBranch (cs[unat h := Some G])
         | Some c \<Rightarrow> PBranch (cs[unat h := Some (put_at c k G)]))
      else PBranch cs)"
| "put_at (PExt p c) (h # k) G = PExt p (put_at c (drop (length p) (h # k)) G)"
| "put_at PNull (h # k) G = PNull"
| "put_at (PLeaf p v) (h # k) G = PLeaf p v"
| "put_at (PDigest d) (h # k) G = PDigest d"
  by pat_completeness auto
termination
  by (relation "measure (\<lambda>(t, _, _). size t)") (auto simp: termination_simp)

lemma sub_at_Ext:
  "k \<noteq> [] \<Longrightarrow> sub_at (PExt p c) k = (if prefix p k then sub_at c (drop (length p) k) else None)"
  by (cases k) auto

lemma put_at_Ext: "k \<noteq> [] \<Longrightarrow> put_at (PExt p c) k G = PExt p (put_at c (drop (length p) k) G)"
  by (cases k) auto

lemma sub_at_put_at: "sub_at F pre = Some G \<Longrightarrow> G' \<noteq> PNull \<Longrightarrow> sub_at (put_at F pre G') pre = Some G'"
proof (induction F pre rule: sub_at.induct)
  case (3 p c h l)
  then obtain s where s: "h # l = p @ s" by (auto simp: prefix_def split: if_splits)
  have ps: "p @ s \<noteq> []" using s by (metis list.distinct(1))
  with 3(2) s have "sub_at c s = Some G" by (simp add: sub_at_Ext)
  with 3 s ps show ?case by (simp add: sub_at_Ext put_at_Ext)
qed (auto split: option.splits if_splits)

lemma prefix_append_iff: "prefix (p @ s) k \<longleftrightarrow> prefix p k \<and> prefix s (drop (length p) k)"
  by (auto simp: prefix_def)

lemma pt_get_put_at:
  "sub_at F pre = Some G \<Longrightarrow>
   pt_get (put_at F pre G') k = (if prefix pre k then pt_get G' (drop (length pre) k) else pt_get F k)"
proof (induction F pre arbitrary: k rule: sub_at.induct)
  case (2 cs h l)
  show ?case
  proof (cases k)
    case Nil
    with 2 show ?thesis by (auto split: option.splits)
  next
    case (Cons a r)
    then show ?thesis using 2
      by (auto simp: nth_list_update word_unat_eq_iff split: option.splits if_splits)
  qed
next
  case (3 p c h l)
  then obtain s where s: "h # l = p @ s" by (auto simp: prefix_def split: if_splits)
  have ps: "p @ s \<noteq> []" using s by (metis list.distinct(1))
  have sub: "sub_at c s = Some G" using 3(2) s ps by (simp add: sub_at_Ext)
  have ih: "pt_get (put_at c s G') r = (if prefix s r then pt_get G' (drop (length s) r) else pt_get c r)" for r
    using 3(1) [of r] s sub by simp
  show ?case
    unfolding s using ps ih by (auto simp: put_at_Ext prefix_append_iff add.commute)
qed auto

section \<open>Replacement and blinding\<close>

lemma blinds_sub_at:
  "blinds E t F \<Longrightarrow> sub_at t pre = Some s \<Longrightarrow> sub_at F pre = Some G \<Longrightarrow> blinds E s G"
proof (induction t pre arbitrary: F rule: sub_at.induct)
  case (2 cs h k)
  from 2(2) obtain ds where ds: "F = PBranch ds" "blinds_kids E cs ds" by (rule blinds_branchD)
  have h: "unat h < length cs" using 2(3) by (auto split: if_splits)
  from blinds_kids_nth [OF ds(2) h] blinds_kids_length [OF ds(2)] show ?case
    using 2 ds(1) h by (cases "cs ! unat h"; cases "ds ! unat h") (auto intro: blinds.same split: if_splits)
next
  case (3 p c h k)
  from 3(2) obtain d where "F = PExt p d" "blinds E c d" by (rule blinds_extD)
  with 3 show ?case by (auto split: if_splits)
qed auto

lemma pt_replace_total:
  "sub_at t pre = Some s \<Longrightarrow> root_hash E s = x \<Longrightarrow> \<exists>t'. pt_replace E t pre x n = Ok t'"
proof (induction t pre rule: sub_at.induct)
  case (2 cs h k)
  then show ?case by (fastforce simp: root_hash_def split: option.splits if_splits)
next
  case (3 p c h k)
  then show ?case by (fastforce split: if_splits)
qed auto

lemma pt_replace_blinds:
  assumes "blinds E t F" "pt_replace E t pre x n = Ok t'" "sub_at F pre = Some G"
    and "tree_ref E G' = RefDigest n" "n \<noteq> EMPTY_ROOT_HASH E"
  shows "blinds E t' (put_at F pre G')"
  using assms(1-3)
proof (induction t pre arbitrary: F t' rule: sub_at.induct)
  case (1 t)
  then show ?case using assms(4,5) by (auto simp: pt_slot_def intro: blinds.digest split: if_splits)
next
  case (2 cs h k)
  from 2(3) have h: "unat h < length cs" by (auto split: if_splits)
  from 2(2) obtain ds where ds: "F = PBranch ds" "blinds_kids E cs ds" by (rule blinds_branchD)
  note kid = blinds_kids_nth [OF ds(2) h] and len = blinds_kids_length [OF ds(2)]
  show ?case
  proof (cases "cs ! unat h")
    case None
    with kid have "ds ! unat h = None" by auto
    with None h 2 ds assms(4,5) len have "t' = PBranch (cs[unat h := Some (PDigest n)])"
      "put_at F (h # k) G' = PBranch (ds[unat h := Some G'])"
      by (auto split: if_splits)
    then show ?thesis
      using blinds_branch [OF blinds_kids_update [OF ds(2)]] blinds.digest [OF assms(4)] by simp
  next
    case (Some c)
    with kid obtain d where d: "ds ! unat h = Some d" "blinds E c d" by auto
    from 2(3) Some h obtain c' where c': "pt_replace E c k x n = Ok c'" "t' = PBranch (cs[unat h := Some c'])"
      by (auto split: outcome.splits)
    have "sub_at d k = Some G" using 2(4) ds d h len by simp
    with 2(1) [OF h Some d(2) c'(1)] have "blinds E c' (put_at d k G')" .
    then show ?thesis
      using blinds_branch [OF blinds_kids_update [OF ds(2)]] ds(1) d h c'(2) len by simp
  qed
next
  case (3 p c h k)
  from 3(2) obtain d where d: "F = PExt p d" "blinds E c d" by (rule blinds_extD)
  from 3(3) obtain c' where c': "prefix p (h # k)" "pt_replace E c (drop (length p) (h # k)) x n = Ok c'"
    "t' = PExt p c'" by (auto split: outcome.splits if_splits)
  have "sub_at d (drop (length p) (h # k)) = Some G" using 3(4) d c'(1) by simp
  with 3(1) [OF c'(1) d(2) c'(2)] have "blinds E c' (put_at d (drop (length p) (h # k)) G')" .
  then show ?case using d c'(3) by (simp add: blinds.ext)
qed auto

end
