(* ===== verification/Client_Types.thy ===== *)
theory Client_Types
  imports Eth_State Mpt_Frontier
begin

text \<open>
  The data of the client program: \<^verbatim>\<open>crates/executor/client/src/error.rs\<close>, the input types and the
  header chain of \<^verbatim>\<open>crates/executor/client/src/io.rs\<close>, and the capacity hints of
  \<^verbatim>\<open>crates/executor/client/src/capacity.rs\<close>.

  Block headers, bytecodes and their hashes come from the Ethereum libraries. A header is the
  record of the fields the client reads or rewrites; \<open>hdr_other\<close> stands for the rest of it. The
  hash functions are the fields of \<open>client_ext\<close>. An error that carries a formatted message has a
  constructor for every message, with the values the message prints.
\<close>

record block_header =
  hdr_number :: u64
  hdr_parent_hash :: bytes
  hdr_state_root :: bytes
  hdr_ommers_hash :: bytes
  hdr_transactions_root :: bytes
  hdr_receipts_root :: bytes
  hdr_withdrawals_root :: "bytes option"
  hdr_logs_bloom :: bytes
  hdr_requests_hash :: "bytes option"
  hdr_other :: bytes

text \<open>A block is its header and its body, which the code only hands to library functions.\<close>

record eth_block =
  blk_header :: block_header
  blk_transaction_count :: nat
  blk_body :: bytes

record client_ext =
  header_hash :: "block_header \<Rightarrow> bytes"
  bytecode_hash :: "bytes \<Rightarrow> bytes"

section \<open>Inputs\<close>

record state_trie_header =
  sth_version :: byte
  sth_num_nodes :: nat
  sth_chunk_count :: nat

record state_chunk_header =
  sch_prefix :: nibs
  sch_expected_root :: bytes
  sch_num_nodes :: nat
  sch_witness_count :: nat

record storage_trie_header =
  stoh_hashed_address :: bytes
  stoh_num_nodes :: nat

record account_input =
  ai_hashed_address :: bytes
  ai_account :: "trie_account option"

datatype client_witness_input =
    WAccount account_input
  | WStorageTrie storage_trie_header
  | WBytecode bytes
  | WStateChunk state_chunk_header

datatype witness_access =
    AccAccount bytes
  | AccStorageTrie bytes
  | AccBytecode bytes
  | AccStateTrie
  | AccModifiedAccount bytes nat

section \<open>Errors\<close>

datatype witness_message =
    ExpectedAccount bytes client_witness_input
  | DuplicateAccount bytes
  | ExpectedStorageTrie bytes client_witness_input
  | StorageTrieAddressMismatch bytes bytes
  | StorageTrieDecode mpt_error
  | StorageRootMismatch bytes bytes bytes
  | ExpectedBytecode bytes client_witness_input
  | BytecodeHashMismatch bytes bytes
  | StreamingBytecodeForEagerState
  | StreamedAccountMismatch bytes
  | UnsupportedVersion byte
  | ExpectedStateChunk client_witness_input
  | ChunkRootMismatch nibs bytes bytes
  | AccountOutsideChunk bytes nibs
  | PostUpdateAccountMismatch bytes
  | InvalidStorageWitness bytes nibs
  | UnexpectedChunkWitness client_witness_input
  | ChunkWithoutAccounts nibs
  | MissingStorageTrie bytes
  | UnusedStorageWitnesses
  | AccountsNotConsumed nat nat

datatype execution_error = DatabaseError witness_message | EvmError string

datatype client_error =
    ParentStateRootMismatch bytes bytes
  | ParentStorageRootMismatch bytes bytes bytes
  | NonConsecutiveBlockHeaders u64 u64
  | ParentBlockHashMismatch u64 bytes bytes
  | BlockSenderRecoveryError string
  | InvalidHeader string
  | InvalidBlockPreExecution string
  | InvalidBlockPostExecution string
  | BlockExecutionError execution_error
  | StateRootMismatch bytes bytes
  | MptError mpt_error
  | TrieWitnessError witness_message

section \<open>Keys\<close>

text \<open>The loop fills the places \<open>2 * i\<close> and \<open>2 * i + 1\<close> of a zeroed array of 64 nibbles.\<close>

definition b256_nibbles :: "bytes \<Rightarrow> nibs" where
  "b256_nibbles v =
     foldl (\<lambda>nibs i. nibs[2 * i := drop_bit 4 (v ! i), 2 * i + 1 := v ! i AND 0x0f])
       (replicate 64 0) [0..<length v]"

text \<open>\<^verbatim>\<open>starts_with\<close> on slices.\<close>

definition starts_with :: "nibs \<Rightarrow> nibs \<Rightarrow> bool" where
  "starts_with nibs pre \<longleftrightarrow> take (length pre) nibs = pre"

section \<open>The header chain\<close>

text \<open>
  Adjacent pairs of headers, child first. \<^verbatim>\<open>child.number - 1\<close> is a \<open>u64\<close> subtraction: without
  overflow checks it wraps.
\<close>

fun build_block_hashes ::
  "client_ext \<Rightarrow> block_header list \<Rightarrow> (u64 \<Rightarrow> bytes option) \<Rightarrow> (client_error, u64 \<Rightarrow> bytes option) outcome" where
  "build_block_hashes X (child # parent # headers) block_hashes =
     (if hdr_number parent \<noteq> hdr_number child - 1 then
        Err (NonConsecutiveBlockHeaders (hdr_number parent) (hdr_number child))
      else if header_hash X parent \<noteq> hdr_parent_hash child then
        Err (ParentBlockHashMismatch (hdr_number parent) (header_hash X parent) (hdr_parent_hash child))
      else
        build_block_hashes X (parent # headers) (block_hashes(hdr_number parent \<mapsto> hdr_parent_hash child)))"
| "build_block_hashes X _ block_hashes = Ok block_hashes"

section \<open>Capacity hints\<close>

record capacity_hints_rec =
  cap_accounts :: nat
  cap_contracts :: nat
  cap_block_hashes :: nat

definition MAX_ACCOUNT_CAPACITY :: nat where "MAX_ACCOUNT_CAPACITY = 16384"
definition MAX_CONTRACT_CAPACITY :: nat where "MAX_CONTRACT_CAPACITY = 4096"
definition MAX_BLOCK_HASH_CAPACITY :: nat where "MAX_BLOCK_HASH_CAPACITY = 256"

definition capacity_hints :: "nat \<Rightarrow> nat \<Rightarrow> nat \<Rightarrow> capacity_hints_rec" where
  "capacity_hints w transaction_count ancestor_count =
     \<lparr>cap_accounts = min (saturating_add w (saturating_mul w transaction_count 4) 4096) MAX_ACCOUNT_CAPACITY,
      cap_contracts = min (saturating_add w transaction_count 256) MAX_CONTRACT_CAPACITY,
      cap_block_hashes = min ancestor_count MAX_BLOCK_HASH_CAPACITY\<rparr>"

end
