(* ===== verification/Client_Io.thy ===== *)
theory Client_Io
  imports Client_Types
begin

text \<open>
  Model of the client's state and databases in \<^verbatim>\<open>crates/executor/client/src/io.rs\<close>: the eager
  input with all tries decoded up front, the streaming state that reads witnesses from the host
  in the order execution asks for them, and the database views on both.

  The input reader hands out the host's hints one after the other; the model is the list of the
  hints still to come. Asking for another kind of value than the next hint holds is a failed
  deserialisation, a panic. The account cache is a hash map; it is the list of its entries, whose
  order only decides which of several errors is reported.
\<close>

datatype hint =
    HAncestorHeaders "block_header list"
  | HCurrentBlock eth_block
  | HStateTrieHeader state_trie_header
  | HWitness client_witness_input
  | HRaw bytes

record client_input =
  ci_current_block :: eth_block
  ci_ancestor_headers :: "block_header list"
  ci_parent_state_bytes :: ethereum_state_bytes
  ci_bytecodes :: "bytes list"

record storage_trie_input =
  sti_hashed_address :: bytes
  sti_num_nodes :: nat
  sti_bytes :: bytes

text \<open>The conversion of an input to its parts: block, headers, state trie, storage tries and bytecodes.\<close>

definition input_parts ::
  "client_input \<Rightarrow> eth_block \<times> block_header list \<times> (nat \<times> bytes) \<times> storage_trie_input list \<times> bytes list" where
  "input_parts inp =
     (ci_current_block inp, ci_ancestor_headers inp, state_trie_bytes (ci_parent_state_bytes inp),
      map (\<lambda>(hashed_address, num_nodes, bs).
        \<lparr>sti_hashed_address = hashed_address, sti_num_nodes = num_nodes, sti_bytes = bs\<rparr>)
        (storage_tries_bytes (ci_parent_state_bytes inp)),
      ci_bytecodes inp)"

record streaming_state =
  sts_header :: state_trie_header
  sts_parent_state_root :: bytes
  sts_state_trie :: "mpt option"
  sts_account_cache :: "(bytes \<times> trie_account option) list"
  sts_storage_tries :: "bytes \<Rightarrow> mpt option"
  sts_input :: "hint list"

type_synonym ('e, 'a) streaming = "streaming_state \<Rightarrow> ('e, 'a) outcome \<times> streaming_state"

section \<open>Storage updates\<close>

definition update_storage_trie ::
  "ext \<Rightarrow> eth_codec \<Rightarrow> (u256 \<times> u256) list \<Rightarrow> mpt \<Rightarrow> (mpt_error, bytes) outcome \<times> mpt" where
  "update_storage_trie E C storage storage_trie =
     and_then (apply_slots E C storage storage_trie) (\<lambda>_ storage_trie. hash E storage_trie)"

section \<open>The eager input\<close>

definition storage_root_of :: "ext \<Rightarrow> trie_account option \<Rightarrow> bytes" where
  "storage_root_of E acc = (case acc of None \<Rightarrow> EMPTY_ROOT_HASH E | Some a \<Rightarrow> acc_storage_root a)"

text \<open>The loop over the storage tries, each checked against the account in the state trie.\<close>

primrec build_storage_tries ::
  "ext \<Rightarrow> eth_codec \<Rightarrow> mpt \<Rightarrow> (bytes \<times> nat \<times> bytes) list \<Rightarrow> (bytes \<Rightarrow> mpt option) \<Rightarrow>
   (client_error, bytes \<Rightarrow> mpt option) outcome" where
  "build_storage_tries E C st [] tries = Ok tries"
| "build_storage_tries E C st (e # es) tries =
     (case e of (hashed_address, n, bs) \<Rightarrow>
      (case get_rlp (account_decode C) st hashed_address of
         Ok acc \<Rightarrow>
           (case decode_trie E bs n of
              Ok (trie, _) \<Rightarrow>
                (case hash E trie of
                   (Ok h, trie) \<Rightarrow>
                     (if h \<noteq> storage_root_of E acc
                      then Err (ParentStorageRootMismatch hashed_address h (storage_root_of E acc))
                      else build_storage_tries E C st es (tries(hashed_address \<mapsto> trie)))
                 | (Err err, _) \<Rightarrow> Err (MptError err)
                 | (Panic p, _) \<Rightarrow> Panic p)
            | Err err \<Rightarrow> Err (MptError err)
            | Panic p \<Rightarrow> Panic p)
       | Err err \<Rightarrow> Err (MptError err)
       | Panic p \<Rightarrow> Panic p))"

definition build_input_state ::
  "ext \<Rightarrow> eth_codec \<Rightarrow> client_input \<Rightarrow> (client_error, ethereum_state) outcome" where
  "build_input_state E C inp =
     (case state_trie_bytes (ci_parent_state_bytes inp) of (n, bs) \<Rightarrow>
      (case decode_trie E bs n of
         Ok (st, _) \<Rightarrow>
           (case hash E st of
              (Ok h, st) \<Rightarrow>
                (case ci_ancestor_headers inp of
                   [] \<Rightarrow> Panic IndexOutOfBounds
                 | parent # _ \<Rightarrow>
                     (if h \<noteq> hdr_state_root parent
                      then Err (ParentStateRootMismatch h (hdr_state_root parent))
                      else
                        (case build_storage_tries E C st
                                (storage_tries_bytes (ci_parent_state_bytes inp)) (\<lambda>_. None) of
                           Ok tries \<Rightarrow> Ok \<lparr>state_trie = st, storage_tries = tries\<rparr>
                         | Err e \<Rightarrow> Err e
                         | Panic p \<Rightarrow> Panic p)))
            | (Err err, _) \<Rightarrow> Err (MptError err)
            | (Panic p, _) \<Rightarrow> Panic p)
       | Err err \<Rightarrow> Err (MptError err)
       | Panic p \<Rightarrow> Panic p))"

section \<open>Reading hints\<close>

definition read_witness_input :: "('e, client_witness_input) streaming" where
  "read_witness_input s =
     (case sts_input s of
        HWitness w # hs \<Rightarrow> (Ok w, s\<lparr>sts_input := hs\<rparr>)
      | _ \<Rightarrow> (Panic UnwrapNone, s))"

definition read_raw_bytes :: "('e, bytes) streaming" where
  "read_raw_bytes s =
     (case sts_input s of
        HRaw bs # hs \<Rightarrow> (Ok bs, s\<lparr>sts_input := hs\<rparr>)
      | _ \<Rightarrow> (Panic UnwrapNone, s))"

definition build_streaming_state_from_input_reader ::
  "block_header list \<Rightarrow> hint list \<Rightarrow> (client_error, streaming_state) outcome" where
  "build_streaming_state_from_input_reader ancestor_headers inp =
     (case inp of
        HStateTrieHeader h # hs \<Rightarrow>
          (case ancestor_headers of
             [] \<Rightarrow> Panic IndexOutOfBounds
           | parent # _ \<Rightarrow>
               Ok \<lparr>sts_header = h, sts_parent_state_root = hdr_state_root parent,
                   sts_state_trie = None, sts_account_cache = [], sts_storage_tries = (\<lambda>_. None),
                   sts_input = hs\<rparr>)
      | _ \<Rightarrow> Panic UnwrapNone)"

definition ensure_state_trie_loaded :: "ext \<Rightarrow> (client_error, unit) streaming" where
  "ensure_state_trie_loaded E s =
     (case sts_state_trie s of
        Some _ \<Rightarrow> (Ok (), s)
      | None \<Rightarrow>
          and_then (read_raw_bytes s) (\<lambda>bs s.
            case decode_trie E bs (sth_num_nodes (sts_header s)) of
              Ok (trie, _) \<Rightarrow>
                (case hash E trie of
                   (Ok h, trie) \<Rightarrow>
                     (if h \<noteq> sts_parent_state_root s
                      then (Err (ParentStateRootMismatch h (sts_parent_state_root s)), s)
                      else (Ok (), s\<lparr>sts_state_trie := Some trie\<rparr>))
                 | (Err err, _) \<Rightarrow> (Err (MptError err), s)
                 | (Panic p, _) \<Rightarrow> (Panic p, s))
            | Err err \<Rightarrow> (Err (MptError err), s)
            | Panic p \<Rightarrow> (Panic p, s)))"

definition state_root :: "ext \<Rightarrow> (client_error, bytes) streaming" where
  "state_root E s =
     (case sts_state_trie s of
        None \<Rightarrow> (Panic UnwrapNone, s)
      | Some trie \<Rightarrow>
          (case hash E trie of
             (Ok h, trie) \<Rightarrow> (Ok h, s\<lparr>sts_state_trie := Some trie\<rparr>)
           | (Err err, _) \<Rightarrow> (Err (MptError err), s)
           | (Panic p, _) \<Rightarrow> (Panic p, s)))"

primrec check_cached ::
  "eth_codec \<Rightarrow> mpt \<Rightarrow> (bytes \<times> trie_account option) list \<Rightarrow> (client_error, unit) outcome" where
  "check_cached C trie [] = Ok ()"
| "check_cached C trie (e # es) =
     (case get_rlp (account_decode C) trie (fst e) of
        Ok acc \<Rightarrow>
          (if acc \<noteq> snd e then Err (TrieWitnessError (StreamedAccountMismatch (fst e)))
           else check_cached C trie es)
      | Err err \<Rightarrow> Err (MptError err)
      | Panic p \<Rightarrow> Panic p)"

definition validate_account_cache :: "eth_codec \<Rightarrow> (client_error, unit) streaming" where
  "validate_account_cache C s =
     (case sts_state_trie s of
        None \<Rightarrow> (Panic UnwrapNone, s)
      | Some trie \<Rightarrow> (check_cached C trie (sts_account_cache s), s))"

section \<open>Witnesses on demand\<close>

text \<open>
  The loop of \<^verbatim>\<open>read_account\<close> consumes one hint per round until the wanted account arrives; all
  accounts on the way enter the cache.
\<close>

primrec read_account_loop ::
  "bytes \<Rightarrow> hint list \<Rightarrow> (witness_message, trie_account option) streaming" where
  "read_account_loop hashed_address [] s = (Panic UnwrapNone, s\<lparr>sts_input := []\<rparr>)"
| "read_account_loop hashed_address (h # hs) s =
     (case h of
        HWitness w \<Rightarrow>
          (let s = s\<lparr>sts_input := hs\<rparr> in
           case w of
             WAccount a \<Rightarrow>
               (if map_of (sts_account_cache s) (ai_hashed_address a) \<noteq> None
                then (Err (DuplicateAccount (ai_hashed_address a)), s)
                else
                  (let s = s\<lparr>sts_account_cache := (ai_hashed_address a, ai_account a) # sts_account_cache s\<rparr> in
                   if ai_hashed_address a = hashed_address then (Ok (ai_account a), s)
                   else read_account_loop hashed_address hs s))
           | _ \<Rightarrow> (Err (ExpectedAccount hashed_address w), s))
      | _ \<Rightarrow> (Panic UnwrapNone, s\<lparr>sts_input := h # hs\<rparr>))"

definition read_account :: "bytes \<Rightarrow> (witness_message, trie_account option) streaming" where
  "read_account hashed_address s =
     (case map_of (sts_account_cache s) hashed_address of
        Some acc \<Rightarrow> (Ok acc, s)
      | None \<Rightarrow> read_account_loop hashed_address (sts_input s) s)"

definition expected_storage_root :: "ext \<Rightarrow> bytes \<Rightarrow> (witness_message, bytes) streaming" where
  "expected_storage_root E hashed_address s =
     and_then (read_account hashed_address s) (\<lambda>acc s. (Ok (storage_root_of E acc), s))"

definition load_storage_trie :: "ext \<Rightarrow> bytes \<Rightarrow> (witness_message, unit) streaming" where
  "load_storage_trie E hashed_address s =
     (if sts_storage_tries s hashed_address \<noteq> None then (Ok (), s)
      else
        and_then (read_witness_input s) (\<lambda>w s.
          case w of
            WStorageTrie h \<Rightarrow>
              (if stoh_hashed_address h \<noteq> hashed_address
               then (Err (StorageTrieAddressMismatch hashed_address (stoh_hashed_address h)), s)
               else
                 and_then (expected_storage_root E hashed_address s) (\<lambda>expected s.
                 and_then (read_raw_bytes s) (\<lambda>bs s.
                   case decode_trie E bs (stoh_num_nodes h) of
                     Ok (trie, _) \<Rightarrow>
                       (case hash E trie of
                          (Ok root, trie) \<Rightarrow>
                            (if root \<noteq> expected
                             then (Err (StorageRootMismatch hashed_address root expected), s)
                             else (Ok (), s\<lparr>sts_storage_tries := (sts_storage_tries s)(hashed_address \<mapsto> trie)\<rparr>))
                        | (Err err, _) \<Rightarrow> (Err (StorageTrieDecode err), s)
                        | (Panic p, _) \<Rightarrow> (Panic p, s))
                   | Err err \<Rightarrow> (Err (StorageTrieDecode err), s)
                   | Panic p \<Rightarrow> (Panic p, s))))
          | _ \<Rightarrow> (Err (ExpectedStorageTrie hashed_address w), s)))"

definition read_bytecode :: "client_ext \<Rightarrow> bytes \<Rightarrow> (witness_message, bytes) streaming" where
  "read_bytecode X code_hash s =
     and_then (read_witness_input s) (\<lambda>w s.
       case w of
         WBytecode code \<Rightarrow>
           (if bytecode_hash X code \<noteq> code_hash
            then (Err (BytecodeHashMismatch code_hash (bytecode_hash X code)), s)
            else (Ok code, s))
       | _ \<Rightarrow> (Err (ExpectedBytecode code_hash w), s))"

end
