(* ===== verification/Client_Update.thy ===== *)
theory Client_Update
  imports Client_Io
begin

text \<open>
  Model of \<^verbatim>\<open>StreamingEthereumState::update_from_bundle_state\<close> of
  \<^verbatim>\<open>crates/executor/client/src/io.rs\<close>: the block's changes are applied chunk by chunk. Every chunk
  is a subtrie that the host sends after the frontier; it is authenticated against the root its
  header names, updated, and its new root is written into the frontier, which in turn checks that
  the slot held the expected root.

  One definition stands for each step of the loop body, in the order of the code. The map of the
  chunk's storage tries is a list of entries.
\<close>

type_synonym chunk_tries = "(bytes \<times> mpt) list"
type_synonym bundle_entry = "bytes \<times> nibs \<times> bundle_account"

definition remove_key :: "bytes \<Rightarrow> (bytes \<times> 'a) list \<Rightarrow> (bytes \<times> 'a) list" where
  "remove_key k = filter (\<lambda>e. fst e \<noteq> k)"

section \<open>The steps for one chunk\<close>

definition sorted_bundle :: "ext \<Rightarrow> bundle_state \<Rightarrow> bundle_entry list" where
  "sorted_bundle E bundle =
     sort_key fst (map (\<lambda>(address, account).
       (keccak256 E address, b256_nibbles (keccak256 E address), account)) bundle)"

definition read_chunk :: "ext \<Rightarrow> (client_error, state_chunk_header \<times> mpt) streaming" where
  "read_chunk E s =
     and_then (read_witness_input s) (\<lambda>w s.
       case w of
         WStateChunk h \<Rightarrow>
           and_then (read_raw_bytes s) (\<lambda>bs s.
             case decode_trie E bs (sch_num_nodes h) of
               Ok (chunk, _) \<Rightarrow>
                 (case hash E chunk of
                    (Ok root, chunk) \<Rightarrow>
                      (if root \<noteq> sch_expected_root h
                       then (Err (TrieWitnessError (ChunkRootMismatch (sch_prefix h) root (sch_expected_root h))), s)
                       else (Ok (h, chunk), s))
                  | (Err err, _) \<Rightarrow> (Err (MptError err), s)
                  | (Panic p, _) \<Rightarrow> (Panic p, s))
             | Err err \<Rightarrow> (Err (MptError err), s)
             | Panic p \<Rightarrow> (Panic p, s))
       | _ \<Rightarrow> (Err (TrieWitnessError (ExpectedStateChunk w)), s))"

definition in_chunk :: "nibs \<Rightarrow> bytes \<Rightarrow> bool" where
  "in_chunk pre hashed_address = starts_with (b256_nibbles hashed_address) pre"

definition chunk_account ::
  "eth_codec \<Rightarrow> mpt \<Rightarrow> nibs \<Rightarrow> bytes \<Rightarrow> (client_error, trie_account option) outcome" where
  "chunk_account C chunk pre hashed_address =
     lift_outcome MptError
       (get_rlp_nibbles (account_decode C) chunk (drop (length pre) (b256_nibbles hashed_address)))"

text \<open>Accounts that execution read from the host are checked against the chunk, and forgotten.\<close>

primrec consume_cached ::
  "eth_codec \<Rightarrow> mpt \<Rightarrow> nibs \<Rightarrow> bytes list \<Rightarrow> (client_error, unit) streaming" where
  "consume_cached C chunk pre [] s = (Ok (), s)"
| "consume_cached C chunk pre (k # ks) s =
     (let streamed_account = map_of (sts_account_cache s) k;
          s = s\<lparr>sts_account_cache := remove_key k (sts_account_cache s)\<rparr> in
      and_then (chunk_account C chunk pre k, s) (\<lambda>acc s.
        if streamed_account \<noteq> Some acc
        then (Err (TrieWitnessError (StreamedAccountMismatch k)), s)
        else consume_cached C chunk pre ks s))"

text \<open>The further witnesses of the chunk: \<open>n\<close> of them are still to be read.\<close>

primrec read_chunk_witnesses ::
  "ext \<Rightarrow> eth_codec \<Rightarrow> mpt \<Rightarrow> nibs \<Rightarrow> nat \<Rightarrow> chunk_tries \<Rightarrow> (client_error, chunk_tries) streaming" where
  "read_chunk_witnesses E C chunk pre 0 post s = (Ok post, s)"
| "read_chunk_witnesses E C chunk pre (Suc n) post s =
     and_then (read_witness_input s) (\<lambda>w s.
       case w of
         WAccount a \<Rightarrow>
           (if \<not> in_chunk pre (ai_hashed_address a)
            then (Err (TrieWitnessError (AccountOutsideChunk (ai_hashed_address a) pre)), s)
            else
              and_then (chunk_account C chunk pre (ai_hashed_address a), s) (\<lambda>acc s.
                if acc \<noteq> ai_account a
                then (Err (TrieWitnessError (PostUpdateAccountMismatch (ai_hashed_address a))), s)
                else read_chunk_witnesses E C chunk pre n post s))
       | WStorageTrie h \<Rightarrow>
           (if \<not> in_chunk pre (stoh_hashed_address h) \<or> map_of post (stoh_hashed_address h) \<noteq> None
            then (Err (TrieWitnessError (InvalidStorageWitness (stoh_hashed_address h) pre)), s)
            else
              and_then (chunk_account C chunk pre (stoh_hashed_address h), s) (\<lambda>acc s.
              and_then (read_raw_bytes s) (\<lambda>bs s.
                case decode_trie E bs (stoh_num_nodes h) of
                  Ok (storage, _) \<Rightarrow>
                    (case hash E storage of
                       (Ok root, storage) \<Rightarrow>
                         (if root \<noteq> storage_root_of E acc
                          then (Err (ParentStorageRootMismatch (stoh_hashed_address h) root (storage_root_of E acc)), s)
                          else read_chunk_witnesses E C chunk pre n
                                 ((stoh_hashed_address h, storage) # post) s)
                     | (Err err, _) \<Rightarrow> (Err (MptError err), s)
                     | (Panic p, _) \<Rightarrow> (Panic p, s))
                | Err err \<Rightarrow> (Err (MptError err), s)
                | Panic p \<Rightarrow> (Panic p, s))))
       | _ \<Rightarrow> (Err (TrieWitnessError (UnexpectedChunkWitness w)), s))"

definition advance_cursor :: "bundle_entry list \<Rightarrow> nibs \<Rightarrow> nat \<Rightarrow> nat" where
  "advance_cursor accounts pre cursor =
     cursor + length (takeWhile (\<lambda>e. starts_with (fst (snd e)) pre) (drop cursor accounts))"

text \<open>
  The new storage root of a changed account, and what is left of the chunk's storage tries. The
  storage trie is empty after a destruction; otherwise it was loaded during execution, came with
  the chunk, or was empty before.
\<close>

definition new_storage_root ::
  "ext \<Rightarrow> eth_codec \<Rightarrow> bytes \<Rightarrow> bundle_account \<Rightarrow> trie_account option \<Rightarrow> chunk_tries \<Rightarrow>
   (client_error, bytes \<times> chunk_tries) streaming" where
  "new_storage_root E C hashed_address account old_account post s =
     (let update = (\<lambda>t. lift_outcome MptError (fst (update_storage_trie E C (acct_storage account) t)));
          taken = s\<lparr>sts_storage_tries := (sts_storage_tries s)(hashed_address := None)\<rparr> in
      if acct_was_destroyed account \<or> acct_storage account \<noteq> [] then
        (if acct_was_destroyed account then
           and_then (update new, s) (\<lambda>root s. (Ok (root, post), s))
         else
           (case sts_storage_tries s hashed_address of
              Some storage \<Rightarrow> and_then (update storage, taken) (\<lambda>root s. (Ok (root, post), s))
            | None \<Rightarrow>
                (case map_of post hashed_address of
                   Some storage \<Rightarrow>
                     and_then (update storage, s) (\<lambda>root s. (Ok (root, remove_key hashed_address post), s))
                 | None \<Rightarrow>
                     (if storage_root_of E old_account = EMPTY_ROOT_HASH E then
                        and_then (update new, s) (\<lambda>root s. (Ok (root, post), s))
                      else (Err (TrieWitnessError (MissingStorageTrie hashed_address)), s)))))
      else
        (case sts_storage_tries s hashed_address of
           None \<Rightarrow> (Ok (storage_root_of E old_account, post), s)
         | Some storage \<Rightarrow>
             and_then (lift_outcome MptError (fst (hash E storage)), taken) (\<lambda>root s.
               if root \<noteq> storage_root_of E old_account
               then (Err (ParentStorageRootMismatch hashed_address root (storage_root_of E old_account)), s)
               else (Ok (storage_root_of E old_account, post), s))))"

definition apply_chunk_account ::
  "ext \<Rightarrow> eth_codec \<Rightarrow> nibs \<Rightarrow> bundle_entry \<Rightarrow> mpt \<Rightarrow> chunk_tries \<Rightarrow>
   (client_error, mpt \<times> chunk_tries) streaming" where
  "apply_chunk_account E C pre entry chunk post s =
     (case entry of (hashed_address, nibs, account) \<Rightarrow>
      (let suf = drop (length pre) nibs in
       and_then (lift_outcome MptError (get_rlp_nibbles (account_decode C) chunk suf), s) (\<lambda>old_account s.
         case acct_info account of
           Some info \<Rightarrow>
             and_then (new_storage_root E C hashed_address account old_account post s) (\<lambda>(storage_root, post) s.
               (case insert_rlp_nibbles (account_encode C) suf
                       \<lparr>acc_nonce = info_nonce info, acc_balance = info_balance info,
                        acc_storage_root = storage_root, acc_code_hash = info_code_hash info\<rparr> chunk of
                  (r, chunk) \<Rightarrow> and_then (lift_outcome MptError r, s) (\<lambda>_ s. (Ok (chunk, post), s))))
         | None \<Rightarrow>
             (case delete_nibbles suf chunk of
                (r, chunk) \<Rightarrow> and_then (lift_outcome MptError r, s) (\<lambda>_ s.
                  (Ok (chunk, post),
                   s\<lparr>sts_storage_tries := (sts_storage_tries s)(hashed_address := None)\<rparr>))))))"

primrec apply_chunk_accounts ::
  "ext \<Rightarrow> eth_codec \<Rightarrow> nibs \<Rightarrow> bundle_entry list \<Rightarrow> mpt \<Rightarrow> chunk_tries \<Rightarrow>
   (client_error, mpt \<times> chunk_tries) streaming" where
  "apply_chunk_accounts E C pre [] chunk post s = (Ok (chunk, post), s)"
| "apply_chunk_accounts E C pre (e # es) chunk post s =
     and_then (apply_chunk_account E C pre e chunk post s) (\<lambda>(chunk, post) s.
       apply_chunk_accounts E C pre es chunk post s)"

text \<open>
  The end of the loop body: the new root must be hash-addressed unless the chunk is the whole
  trie or became empty, and then takes the place of the old one in the frontier.
\<close>

definition finish_chunk ::
  "ext \<Rightarrow> state_chunk_header \<Rightarrow> mpt \<Rightarrow> (client_error, unit) streaming" where
  "finish_chunk E h chunk s =
     (case hash E chunk of (r, chunk) \<Rightarrow>
      and_then (lift_outcome MptError r, s) (\<lambda>new_root s.
        and_then
          (if sch_prefix h \<noteq> [] \<and> new_root \<noteq> EMPTY_ROOT_HASH E
           then (lift_outcome MptError (fst (root_is_hash_addressed E chunk)), s) else (Ok True, s))
          (\<lambda>addressed s.
             if \<not> addressed then (Err (MptError InlineFrontierChunk), s)
             else
               (case sts_state_trie s of
                  None \<Rightarrow> (Panic UnwrapNone, s)
                | Some trie \<Rightarrow>
                    (case replace_frontier_slot E (sch_prefix h) (sch_expected_root h) new_root trie of
                       (r, trie) \<Rightarrow> (lift_outcome MptError r, s\<lparr>sts_state_trie := Some trie\<rparr>))))))"

definition process_chunk ::
  "ext \<Rightarrow> eth_codec \<Rightarrow> bundle_entry list \<Rightarrow> nat \<Rightarrow> (client_error, nat) streaming" where
  "process_chunk E C accounts cursor s =
     and_then (read_chunk E s) (\<lambda>(h, chunk) s.
     and_then (consume_cached C chunk (sch_prefix h)
                 (filter (in_chunk (sch_prefix h)) (map fst (sts_account_cache s))) s) (\<lambda>_ s.
     and_then (read_chunk_witnesses E C chunk (sch_prefix h) (sch_witness_count h) [] s) (\<lambda>post s.
       let cursor' = advance_cursor accounts (sch_prefix h) cursor in
       if cursor' = cursor
       then (Err (TrieWitnessError (ChunkWithoutAccounts (sch_prefix h))), s)
       else
         and_then (apply_chunk_accounts E C (sch_prefix h)
                     (take (cursor' - cursor) (drop cursor accounts)) chunk post s) (\<lambda>(chunk, post) s.
           if post \<noteq> [] then (Err (TrieWitnessError UnusedStorageWitnesses), s)
           else and_then (finish_chunk E h chunk s) (\<lambda>_ s. (Ok cursor', s))))))"

section \<open>The whole update\<close>

primrec process_chunks ::
  "ext \<Rightarrow> eth_codec \<Rightarrow> bundle_entry list \<Rightarrow> nat \<Rightarrow> nat \<Rightarrow> (client_error, nat) streaming" where
  "process_chunks E C accounts 0 cursor s = (Ok cursor, s)"
| "process_chunks E C accounts (Suc n) cursor s =
     and_then (process_chunk E C accounts cursor s) (\<lambda>cursor s. process_chunks E C accounts n cursor s)"

definition streaming_update ::
  "ext \<Rightarrow> eth_codec \<Rightarrow> bundle_state \<Rightarrow> (client_error, unit) streaming" where
  "streaming_update E C bundle s =
     and_then (ensure_state_trie_loaded E s) (\<lambda>_ s.
       if sth_version (sts_header s) \<noteq> 2
       then (Err (TrieWitnessError (UnsupportedVersion (sth_version (sts_header s)))), s)
       else
         (let accounts = sorted_bundle E bundle in
          and_then (process_chunks E C accounts (sth_chunk_count (sts_header s)) 0 s) (\<lambda>cursor s.
            if cursor \<noteq> length accounts
            then (Err (TrieWitnessError (AccountsNotConsumed cursor (length accounts))), s)
            else
              and_then (validate_account_cache C s) (\<lambda>_ s.
                (Ok (), s\<lparr>sts_storage_tries := (\<lambda>_. None)\<rparr>)))))"

end
