(* ===== verification/Frontier_Properties.thy ===== *)
theory Frontier_Properties
  imports Frontier_Correct Trie_Properties Client_Update
begin

text \<open>
  The correctness statements of the digest frontiers: \<^verbatim>\<open>replace_frontier_slot\<close> implements the
  replacement on abstract trees, updating the chunks of a frontier gives the root hash of the
  updated full trie, and the limits of that argument.
\<close>

lemma storesD:
  assumes "stores E m a"
  shows "holds E m a" "distinct (aids a)" "root_id m = aid a" "\<not> scratch_borrowed m"
    "length (cached_references m) = length (nodes m)"
  using assms by (auto simp: stores_def)

lemma post_stores: "stores E m a \<Longrightarrow> post E m a m' a' \<Longrightarrow> stores E m' a'"
  by (auto simp: stores_def post_def grown_def)

lemma put_at_anchor:
  "pt_anchor F \<Longrightarrow> sub_at F pre = Some G \<Longrightarrow> (pt_anchor G \<longrightarrow> pt_anchor G') \<Longrightarrow> pt_anchor (put_at F pre G')"
  by (cases F; cases pre) (auto split: option.splits if_splits)

lemma put_at_canon:
  "canon_top F \<Longrightarrow> sub_at F pre = Some G \<Longrightarrow> canon G' \<Longrightarrow> (pt_anchor G \<longrightarrow> pt_anchor G') \<Longrightarrow>
   canon (put_at F pre G')"
proof (induction F pre rule: sub_at.induct)
  case (2 cs h k)
  have h: "unat h < length cs" using 2(3) by (auto split: if_splits)
  have cs: "canon (PBranch cs)" using 2(2) by (simp add: canon_top_def)
  show ?case
  proof (cases "cs ! unat h")
    case None
    with 2 h cs show ?thesis by (auto simp: length_remaining_set nth_list_update)
  next
    case (Some c)
    have "canon_top c" using canon_child [OF cs _ Some] h cs by (simp add: canon_top_def)
    with 2(1) [OF h Some] 2(3-5) h Some have "canon (put_at c k G')" by simp
    with h cs Some show ?thesis by (auto simp: remaining_replace nth_list_update)
  qed
next
  case (3 p c h k)
  have p: "prefix p (h # k)" and sub: "sub_at c (drop (length p) (h # k)) = Some G"
    using 3(3) by (auto split: if_splits)
  have "canon (PExt p c)" using 3(2) by (simp add: canon_top_def)
  with 3(1) [OF p _ sub 3(4,5)] put_at_anchor [OF _ sub 3(5)] show ?case by (simp add: canon_top_def)
qed auto

lemma remaining_single:
  assumes "i < 16"
  shows "remaining (no_children[i := Some (c :: ptree)]) = [i]"
proof -
  let ?cs = "no_children[i := Some c]"
  have "set (remaining ?cs) = {i}"
    using assms by (auto simp: set_remaining nth_list_update)
  moreover from this have "length (remaining ?cs) = 1"
    using distinct_card [OF distinct_remaining, of ?cs] by (simp del: set_remaining)
  ultimately show ?thesis by (auto simp: length_Suc_conv simp del: set_remaining)
qed

context rlp_laws
begin

lemma hash_stores:
  assumes "stores_tree E m t"
  shows "\<exists>m'. hash E m = (Ok (root_hash E t), m') \<and> stores_tree E m' t"
proof -
  obtain a where a: "stores E m a" "erase a = t" using assms by (auto simp: stores_tree_def)
  note s = storesD [OF a(1)]
  obtain m' where m': "hash E m = (Ok (root_hash E t), m')" "holds E m' a" "cells_changed (set (aids a)) m m'"
    using hash_holds [OF s(1,2,4,3)] a(2) by blast
  with a have "stores E m' a" by (auto simp: stores_def cells_changed_def)
  with a(2) m'(1) show ?thesis by (auto simp: stores_tree_def)
qed

lemma replace_stores:
  assumes "stores_tree E m t" "nibbles pre" "length n = 32" "length (nodes m) < 2 ^ 32"
  shows "case pt_replace E t pre x n of
      Ok t' \<Rightarrow> (\<exists>m'. replace_frontier_slot E pre x n m = (Ok (), m') \<and> stores_tree E m' t')
    | Err e \<Rightarrow> (\<exists>m'. replace_frontier_slot E pre x n m = (Err e, m') \<and> stores_tree E m' t \<and> nodes m' = nodes m)
    | Panic p \<Rightarrow> False"
proof -
  obtain a where a: "stores E m a" "erase a = t" using assms by (auto simp: stores_tree_def)
  note s = storesD [OF a(1)]
  have "length (aids a) \<le> walk_fuel m pre" using length_aids_le [OF s(1,2)] by (simp add: walk_fuel_def)
  from replace_internal_spec [OF s(1,2) assms(2) this s(5,4) assms(4,3)] s(3)
  have "replace_ok E m a pre x n (replace_frontier_slot E pre x n m)" by (simp add: replace_frontier_slot_def)
  then show ?thesis
    using a post_stores [OF a(1)] unfolding replace_ok_def stores_tree_def by (force split: outcome.split)
qed

lemma replaced_slot:
  assumes m: "stores_tree E m t" "nibbles pre" "length root = 32" "length (nodes m) < 2 ^ 32"
    and run: "replace_frontier_slot E pre x root m = (Ok (), m')"
  shows "\<exists>t'. pt_replace E t pre x root = Ok t' \<and> stores_tree E m' t' \<and> length (nodes m') \<le> length (nodes m) + (if x = root then 0 else 1)"
proof -
  obtain a where a: "stores E m a" "erase a = t" using m(1) by (auto simp: stores_tree_def)
  note s = storesD [OF a(1)]
  have "length (aids a) \<le> walk_fuel m pre" using length_aids_le [OF s(1,2)] by (simp add: walk_fuel_def)
  from replace_internal_spec [OF s(1,2) m(2) this s(5,4) m(4,3)] s(3)
  have "replace_ok E m a pre x root (replace_frontier_slot E pre x root m)" by (simp add: replace_frontier_slot_def)
  with run obtain t' where "pt_replace E (erase a) pre x root = Ok (erase t')" "post E m a m' t'"
    "length (nodes m') \<le> length (nodes m) + (if x = root then 0 else 1)" unfolding replace_ok_def by auto
  with a(2) post_stores [OF a(1)] show ?thesis unfolding stores_tree_def by blast
qed

lemma chunk_update:
  assumes m: "stores_tree E m t" "length (nodes m) < 2 ^ 32" and pre: "nibbles pre"
    and F: "blinds E t F" "canon_top F" "sub_at F pre = Some G" "sub_at t pre \<noteq> None"
    and G': "canon G'" "pt_anchor G \<longrightarrow> pt_anchor G'" "tree_ref E G' = RefDigest n" "n \<noteq> EMPTY_ROOT_HASH E"
  shows "\<exists>m' t'. replace_frontier_slot E pre (root_hash E G) n m = (Ok (), m') \<and> stores_tree E m' t'
    \<and> blinds E t' (put_at F pre G') \<and> canon (put_at F pre G')"
proof -
  obtain s where s: "sub_at t pre = Some s" using F(4) by blast
  have "root_hash E s = root_hash E G" using blinds_root_hash [OF blinds_sub_at [OF F(1) s F(3)]] .
  then obtain t' where t': "pt_replace E t pre (root_hash E G) n = Ok t'" using pt_replace_total [OF s] by blast
  have "length n = 32" using tree_ref_digest_length [OF canon_digests_ok [OF G'(1)] G'(3)] .
  from replace_stores [OF m(1) pre this m(2), of "root_hash E G"] t'
    pt_replace_blinds [OF F(1) t' F(3) G'(3,4)] put_at_canon [OF F(2,3) G'(1,2)]
  show ?thesis by auto
qed

lemma finish_chunk_replaces:
  assumes s: "sts_state_trie s = Some m" and chunk: "repr_tree E chunk G'"
    and addr: "sch_prefix h = [] \<or> (\<exists>d. tree_ref E G' = RefDigest d)"
  shows "finish_chunk E h chunk s =
    (case replace_frontier_slot E (sch_prefix h) (sch_expected_root h) (root_hash E G') m of
       (r, m') \<Rightarrow> (lift_outcome MptError r, s\<lparr>sts_state_trie := Some m'\<rparr>))"
proof -
  obtain c where c: "hash E chunk = (Ok (root_hash E G'), c)" "repr_tree E c G'" using hash_repr [OF chunk] by blast
  obtain c' where "root_is_hash_addressed E c = (Ok (\<exists>d. tree_ref E G' = RefDigest d), c')"
    using root_is_hash_addressed_repr [OF c(2)] by blast
  with c addr s show ?thesis by (auto simp: finish_chunk_def)
qed

lemma finish_chunk_root:
  assumes s: "sts_state_trie s = Some m" and m: "stores_tree E m t" "length (nodes m) < 2 ^ 32"
    and F: "blinds E t F" "canon_top F" "sub_at F (sch_prefix h) = Some G" "sub_at t (sch_prefix h) \<noteq> None"
    and h: "nibbles (sch_prefix h)" "sch_expected_root h = root_hash E G"
    and G': "repr_tree E chunk G'" "canon G'" "pt_anchor G \<longrightarrow> pt_anchor G'"
      "sch_prefix h = [] \<or> tree_ref E G' = RefDigest d" "root_hash E G' \<noteq> EMPTY_ROOT_HASH E"
  shows "\<exists>s' m'. finish_chunk E h chunk s = (Ok (), s') \<and> sts_state_trie s' = Some m'
    \<and> fst (hash E m') = Ok (root_hash E (put_at F (sch_prefix h) G'))"
proof (cases "sch_prefix h = []")
  case True
  then have G: "G = F" using F(3) by simp
  have "pt_replace E t [] (root_hash E G) (root_hash E G') = Ok (PDigest (root_hash E G'))"
    using blinds_root_hash [OF F(1)] G G'(5) by (simp add: pt_slot_def)
  with replace_stores [OF m(1) h(1) root_hash_length [OF canon_digests_ok [OF G'(2)]] m(2), of "root_hash E G"] True
  obtain m' where m': "replace_frontier_slot E [] (root_hash E G) (root_hash E G') m = (Ok (), m')"
    "stores_tree E m' (PDigest (root_hash E G'))" by auto
  have "root_hash E (PDigest (root_hash E G')) = root_hash E G'" by (simp add: root_hash_def)
  with hash_stores [OF m'(2)] m'(1) finish_chunk_replaces [OF s G'(1), of h] True h(2)
  show ?thesis by auto
next
  case False
  then have d: "tree_ref E G' = RefDigest d" using G'(4) by simp
  then have n: "root_hash E G' = d" using G'(2) by (auto simp: root_hash_def)
  from chunk_update [OF m h(1) F G'(2,3) d] G'(5) n obtain m' t' where
    m': "replace_frontier_slot E (sch_prefix h) (root_hash E G) d m = (Ok (), m')" "stores_tree E m' t'"
      "blinds E t' (put_at F (sch_prefix h) G')" by auto
  with hash_stores [OF m'(2)] blinds_root_hash [OF m'(3)] finish_chunk_replaces [OF s G'(1), of h] d h(2) n
  show ?thesis by auto
qed

lemma child_codes_length:
  "i < length cs \<Longrightarrow> length (concat (map (child_code E) (cs[i := Some c]))) \<le>
     length (concat (map (child_code E) cs)) + length (ref_code E (tree_ref E c))"
  by (simp add: length_concat map_update sum_list_update child_code_def)

lemma list_rlp_short_inj:
  assumes "list_rlp E p = list_rlp E q" "length p < 56"
  shows "p = q"
proof -
  have "length q + length_of_length E (length q) = length p + 1"
    using assms length_list_rlp [of p] length_list_rlp [of q] short_header [OF assms(2)] by simp
  with assms(2) have "length q < 2 ^ 64" by simp
  with assms decode_list_header [of "length p" p] decode_list_header [of "length q" q] show ?thesis
    by (simp add: list_rlp_def)
qed

lemma branch_rlp_no_pair:
  assumes "cs ! 0 = None" "cs \<noteq> []" "length (tree_payload E (PBranch cs)) < 56" "path \<noteq> []"
  shows "tree_rlp E (PBranch cs) \<noteq> list_rlp E (bytes_encode E path @ r)"
proof
  assume "tree_rlp E (PBranch cs) = list_rlp E (bytes_encode E path @ r)"
  with list_rlp_short_inj assms(3) have eq: "tree_payload E (PBranch cs) = bytes_encode E path @ r" by simp
  from arg_cong [OF this, of length] assms(3) bytes_encode_length [of path]
  have "length path < 2 ^ 64" by simp
  moreover obtain r' where "tree_payload E (PBranch cs) = bytes_encode E [] @ r'"
    using assms(1,2) by (cases cs) (auto simp: child_code_def bytes_encode_empty)
  ultimately show False using bytes_encode_prefix_free [of "[]" r' path r] eq assms(4) by simp
qed

lemma emptied_chunk:
  assumes m: "stores_tree E m t" "length (nodes m) < 2 ^ 32"
    and t: "t = PBranch (no_children[unat a := Some c, unat b := Some (PLeaf q w)])"
    and F: "F = PBranch (no_children[unat a := Some (PLeaf p v), unat b := Some (PLeaf q w)])"
    and c: "root_hash E c = x" and nib: "nibbles [a, b]" "a \<noteq> b" "a \<noteq> 0" "b \<noteq> 0"
    and kept: "kept = PBranch (no_children[unat a := Some PNull, unat b := Some (PLeaf q w)])"
    and collapsed: "collapsed = PLeaf (b # q) w"
    and keccak: "tree_rlp E kept \<noteq> tree_rlp E collapsed \<Longrightarrow> keccak256 E (tree_rlp E kept) \<noteq> keccak256 E (tree_rlp E collapsed)"
  shows "pt_delete F (a # p) = Ok (True, collapsed) \<and> tree_rlp E kept \<noteq> tree_rlp E collapsed
    \<and> (\<exists>m'. replace_frontier_slot E [a] x (EMPTY_ROOT_HASH E) m = (Ok (), m')
        \<and> fst (hash E m') = Ok (keccak256 E (tree_rlp E kept)) \<and> fst (hash E m') \<noteq> Ok (root_hash E collapsed))"
proof -
  let ?cs = "no_children[unat a := Some PNull, unat b := Some (PLeaf q w)]"
  have ab: "unat a \<noteq> unat b" "unat a < 16" "unat b < 16" "unat a \<noteq> 0" "unat b \<noteq> 0"
    using nib by (auto simp: word_unat_eq_iff)
  have "nibbles [a]" using nib by simp
  have r: "pt_replace E t [a] x (EMPTY_ROOT_HASH E) = Ok (PBranch ?cs)"
    using ab t c by (simp add: pt_slot_def list_update_swap)
  obtain m' where m': "replace_frontier_slot E [a] x (EMPTY_ROOT_HASH E) m = (Ok (), m')" "stores_tree E m' (PBranch ?cs)"
    using replace_stores [OF m(1) \<open>nibbles [a]\<close> empty_root_length m(2), of x] r by auto
  have "pt_collapse (no_children[unat b := Some (PLeaf q w)]) = PLeaf (b # q) w"
    using ab remaining_single [of "unat b" "PLeaf q w"] by (simp add: pt_collapse_def)
  then have d: "pt_delete F (a # p) = Ok (True, PLeaf (b # q) w)"
    using ab F list_update_id [of "no_children :: ptree option list" "unat a"] by (simp add: list_update_swap)
  have "length (ref_code E (tree_ref E (PLeaf q w))) \<le> 33"
    using length_ref_code [of "PLeaf q w"] tree_ref_bytes_length [of "PLeaf q w"] by (auto split: node_ref.splits)
  moreover have "length (concat (map (child_code E) no_children)) = 16"
    by (simp add: no_children_def length_concat child_code_def sum_list_replicate)
  ultimately have "length (tree_payload E (PBranch ?cs)) < 56"
    using ab child_codes_length [of "unat b" "no_children[unat a := Some PNull]" "PLeaf q w"]
      child_codes_length [of "unat a" no_children PNull] by simp
  moreover have "to_encoded_path (b # q) True \<noteq> []" by (simp add: to_encoded_path_def)
  ultimately have "tree_rlp E (PBranch ?cs) \<noteq> tree_rlp E (PLeaf (b # q) w)"
    using ab branch_rlp_no_pair [of ?cs "to_encoded_path (b # q) True" "bytes_encode E w"]
    by (simp add: no_children_def)
  with keccak have ne: "tree_rlp E kept \<noteq> tree_rlp E collapsed" "keccak256 E (tree_rlp E kept) \<noteq> keccak256 E (tree_rlp E collapsed)"
    unfolding kept collapsed by auto
  have "root_hash E kept = keccak256 E (tree_rlp E kept)" "root_hash E collapsed = keccak256 E (tree_rlp E collapsed)"
    unfolding kept collapsed by (rule root_hash_keccak; simp)+
  with m' d ne hash_stores [OF m'(2)] show ?thesis unfolding kept collapsed by auto
qed

end

section \<open>An example\<close>

text \<open>
  A frontier with two children, the chunk below the first, and its update. Forty-byte values make
  the leaves hash-addressed.
\<close>

definition ex_chunk_tree :: "byte \<Rightarrow> ptree" where
  "ex_chunk_tree b = PLeaf [2] (replicate 40 b)"

definition ex_full_tree :: ptree where
  "ex_full_tree = PBranch (no_children[1 := Some (ex_chunk_tree 5), 3 := Some (PLeaf [4] [6])])"

definition ex_frontier :: mpt where
  "ex_frontier = snd (insert_nibbles [3, 4] [6] (snd (insert_nibbles [1, 2] (replicate 40 5) new)))"

definition ex_chunk :: mpt where
  "ex_chunk = snd (insert_nibbles [2] (replicate 40 7) new)"

definition ex_chunk_header :: state_chunk_header where
  "ex_chunk_header = \<lparr>sch_prefix = [1], sch_expected_root = root_hash std_ext (ex_chunk_tree 5),
     sch_num_nodes = 2, sch_witness_count = 0\<rparr>"

definition ex_streaming :: "mpt \<Rightarrow> streaming_state" where
  "ex_streaming m = \<lparr>sts_header = undefined, sts_parent_state_root = [], sts_state_trie = Some m,
     sts_account_cache = [], sts_storage_tries = (\<lambda>_. None), sts_input = []\<rparr>"

lemma ex_chunk_rlp: "tree_rlp std_ext (ex_chunk_tree b) = 0xea # 0x32 # 0xa8 # replicate 40 b"
  by (simp add: ex_chunk_tree_def list_rlp_def std_ext_def std_header_encode_def std_bytes_encode_def
      to_encoded_path_def)

lemma ex_chunk_ref: "tree_ref std_ext (ex_chunk_tree b) = RefDigest (root_hash std_ext (ex_chunk_tree b))"
  using ex_chunk_rlp [of b] by (simp add: tree_ref_list root_hash_def ref_of_rlp_def ex_chunk_tree_def)

lemma replicate_8: "replicate 8 b = [b, b, b, b, b, b, b, b]"
  by (simp add: numeral_eq_Suc)

lemma replicate_40: "replicate 40 b = replicate 8 b @ replicate 8 b @ replicate 8 b @ replicate 8 b @ replicate 8 b"
  by (simp flip: replicate_add)

lemma hd_std_keccak256: "hd (std_keccak256 bs) = of_nat (mix bs)"
  by (simp add: std_keccak256_def hd_map upt_rec)

lemma ex_chunk_root: "root_hash std_ext (ex_chunk_tree 7) \<noteq> EMPTY_ROOT_HASH std_ext"
proof -
  have "hd (std_keccak256 (0xea # 0x32 # 0xa8 # replicate 40 7)) \<noteq> hd (std_keccak256 [0x80])"
    unfolding hd_std_keccak256 by (simp add: mix_def replicate_40 replicate_8)
  moreover have "root_hash std_ext (ex_chunk_tree 7) = std_keccak256 (0xea # 0x32 # 0xa8 # replicate 40 7)"
    using std.root_hash_keccak [of "ex_chunk_tree 7"] ex_chunk_rlp [of 7]
    by (simp add: ex_chunk_tree_def std_ext_def)
  moreover have "EMPTY_ROOT_HASH std_ext = std_keccak256 [0x80]" by (simp add: std_ext_def)
  ultimately show ?thesis by metis
qed

lemma ex_collapsed_rlp: "tree_rlp std_ext (PLeaf [3, 4] [6]) = [0xc4, 0x82, 0x20, 0x34, 6]"
  by (simp add: list_rlp_def std_ext_def std_header_encode_def std_bytes_encode_def to_encoded_path_def)

lemma ex_kept_rlp:
  "tree_rlp std_ext (PBranch (no_children[unat (1 :: byte) := Some PNull, unat (3 :: byte) := Some (PLeaf [4] [6])])) =
     [0xd3, 0x80, 0x80, 0x80, 0xc2, 0x34, 6, 0x80, 0x80, 0x80, 0x80, 0x80, 0x80, 0x80, 0x80, 0x80, 0x80, 0x80, 0x80, 0x80]"
proof -
  have leaf: "tree_rlp std_ext (PLeaf [4] [6]) = [0xc2, 0x34, 6]"
    by (simp add: list_rlp_def std_ext_def std_header_encode_def std_bytes_encode_def to_encoded_path_def)
  have "tree_ref std_ext (PLeaf [4] [6]) = RefBytes [0xc2, 0x34, 6]" using leaf by (simp add: tree_ref_list ref_of_rlp_def)
  then have c: "child_code std_ext (Some (PLeaf [4] [6])) = [0xc2, 0x34, 6]" by (simp add: child_code_def)
  have e: "child_code std_ext (Some PNull) = [0x80]" "child_code std_ext None = [0x80]" "EMPTY_STRING_CODE std_ext = 0x80"
    by (simp_all add: child_code_def std_ext_def)
  have cs: "no_children[unat (1 :: byte) := Some PNull, unat (3 :: byte) := Some (PLeaf [4] [6])] =
    [None, Some PNull, None, Some (PLeaf [4] [6]), None, None, None, None, None, None, None, None, None, None, None, None]"
    by code_simp
  have "tree_payload std_ext (PBranch (no_children[unat (1 :: byte) := Some PNull, unat (3 :: byte) := Some (PLeaf [4] [6])])) =
     [0x80, 0x80, 0x80, 0xc2, 0x34, 6, 0x80, 0x80, 0x80, 0x80, 0x80, 0x80, 0x80, 0x80, 0x80, 0x80, 0x80, 0x80, 0x80]"
    unfolding cs using c e by simp
  then show ?thesis by (simp add: list_rlp_def std_ext_def std_header_encode_def)
qed

lemma repr_ex_chunk: "repr_tree E ex_chunk (ex_chunk_tree 7)"
proof -
  have n: "nibbles [2]" by simp
  from insert_nibbles_repr [OF repr_new [of E] n capacity_new, of "replicate 40 7"] show ?thesis
    by (auto simp: ex_chunk_def ex_chunk_tree_def)
qed

lemma repr_ex_frontier: "repr_tree E ex_frontier ex_full_tree" "length (nodes ex_frontier) < 2 ^ 32"
proof -
  have n: "nibbles [1, 2]" "nibbles [3, 4]" by simp_all
  let ?m = "snd (insert_nibbles [1, 2] (replicate 40 5) new)"
  from insert_nibbles_repr [OF repr_new [of E] n(1) capacity_new, of "replicate 40 5"]
  have m: "repr_tree E ?m (PLeaf [1, 2] (replicate 40 5))" "capacity_left ?m" "length (nodes ?m) \<le> 4"
    by (auto simp: capacity_left_def new_def with_capacity_def)
  have "pt_insert (PLeaf [1, 2] (replicate 40 5)) [3, 4] [6] = Ok (True, ex_full_tree)"
    unfolding ex_full_tree_def ex_chunk_tree_def by code_simp
  with insert_nibbles_repr [OF m(1) n(2) m(2), of "[6]"] m(3)
  show "repr_tree E ex_frontier ex_full_tree" "length (nodes ex_frontier) < 2 ^ 32"
    by (auto simp: ex_frontier_def)
qed

section \<open>Properties\<close>

text \<open>
  C23: \<open>replace_frontier_slot\<close> refines the replacement on abstract trees, for every frontier, also one
  that is not canonical: the same success or error, the new arena stores the new tree, an error
  leaves the tree as it was, and nothing panics.
\<close>

theorem replace_frontier_slot_refines:
  assumes "rlp_laws E" "stores_tree E m t" "nibbles pre" "length n = 32" "length (nodes m) < 2 ^ 32"
  shows "case pt_replace E t pre x n of
      Ok t' \<Rightarrow> (\<exists>m'. replace_frontier_slot E pre x n m = (Ok (), m') \<and> stores_tree E m' t')
    | Err e \<Rightarrow> (\<exists>m'. replace_frontier_slot E pre x n m = (Err e, m') \<and> stores_tree E m' t \<and> nodes m' = nodes m)
    | Panic p \<Rightarrow> False"
  using rlp_laws.replace_stores [OF assms] .

theorem replace_frontier_slot_refines_witness:
  "\<exists>m'. replace_frontier_slot std_ext [1, 3] (EMPTY_ROOT_HASH std_ext) (replicate 32 7) ex_leaf =
     (Err InvalidFrontierPrefix, m') \<and> nodes m' = nodes ex_leaf"
proof -
  have n: "nibbles [1, 3]" and l: "length (replicate 32 (7 :: byte)) = 32" by simp_all
  have s: "stores_tree std_ext ex_leaf (PLeaf [1, 2, 3, 4] [9])" using repr_ex_leaf(1) repr_stores by blast
  have "length (nodes ex_leaf) < 2 ^ 32" using repr_ex_leaf(2) by (simp add: capacity_left_def)
  from replace_frontier_slot_refines [OF std.rlp_laws_axioms s n l this, of "EMPTY_ROOT_HASH std_ext"]
  show ?thesis by auto
qed

text \<open>
  C20: chunked updates compute the root of the updated trie. The frontier held by the client blinds
  the full trie \<open>F\<close>, the chunk at a prefix is the subtree \<open>G\<close> there, and \<open>chunk\<close> is the
  updated chunk \<open>G'\<close>. Then the end of the chunk loop succeeds, and the frontier hashes to the root of
  the full trie in which exactly the keys below the prefix are replaced; that trie is canonical, so
  it is the trie any other way of applying the changes produces.
\<close>

theorem finish_chunk_gives_full_root:
  assumes "rlp_laws E" "sts_state_trie s = Some m" "stores_tree E m t" "length (nodes m) < 2 ^ 32"
    and "blinds E t F" "canon_top F" "sub_at F (sch_prefix h) = Some G" "sub_at t (sch_prefix h) \<noteq> None"
    and "nibbles (sch_prefix h)" "sch_expected_root h = root_hash E G"
    and "repr_tree E chunk G'" "canon G'" "pt_anchor G \<longrightarrow> pt_anchor G'"
    and "sch_prefix h = [] \<or> tree_ref E G' = RefDigest d" "root_hash E G' \<noteq> EMPTY_ROOT_HASH E"
  shows "\<exists>s' m' F'. finish_chunk E h chunk s = (Ok (), s') \<and> sts_state_trie s' = Some m'
    \<and> fst (hash E m') = Ok (root_hash E F') \<and> canon F'
    \<and> (\<forall>k. pt_get F' k =
         (if prefix (sch_prefix h) k then pt_get G' (drop (length (sch_prefix h)) k) else pt_get F k))"
  using rlp_laws.finish_chunk_root [OF assms] put_at_canon [OF assms(6,7,12,13)] pt_get_put_at [OF assms(7)]
  by blast

theorem finish_chunk_gives_full_root_witness:
  "\<exists>s' m' F'. finish_chunk std_ext ex_chunk_header ex_chunk (ex_streaming ex_frontier) = (Ok (), s')
    \<and> sts_state_trie s' = Some m' \<and> fst (hash std_ext m') = Ok (root_hash std_ext F') \<and> canon F'
    \<and> pt_get F' [1, 2] = Ok (Some (replicate 40 7)) \<and> pt_get F' [3, 4] = Ok (Some [6])"
proof -
  note r = repr_ex_frontier(1) [of std_ext]
  have st: "stores_tree std_ext ex_frontier ex_full_tree" "canon_top ex_full_tree" using r repr_stores by blast+
  have pre: "sch_prefix ex_chunk_header = [1]" by (simp add: ex_chunk_header_def)
  have sub: "sub_at ex_full_tree [1] = Some (ex_chunk_tree 5)" by (simp add: ex_full_tree_def)
  have leaf: "\<not> pt_anchor (ex_chunk_tree 5)" "canon (ex_chunk_tree 7)" by (simp_all add: ex_chunk_tree_def)
  have "\<exists>s' m' F'. finish_chunk std_ext ex_chunk_header ex_chunk (ex_streaming ex_frontier) = (Ok (), s')
    \<and> sts_state_trie s' = Some m' \<and> fst (hash std_ext m') = Ok (root_hash std_ext F') \<and> canon F'
    \<and> (\<forall>k. pt_get F' k = (if prefix (sch_prefix ex_chunk_header) k
          then pt_get (ex_chunk_tree 7) (drop (length (sch_prefix ex_chunk_header)) k) else pt_get ex_full_tree k))"
    by (rule finish_chunk_gives_full_root [where G = "ex_chunk_tree 5", OF std.rlp_laws_axioms _ st(1) repr_ex_frontier(2) blinds.same st(2)
          _ _ _ _ repr_ex_chunk _ _ disjI2 [OF ex_chunk_ref] ex_chunk_root])
      (use sub leaf in \<open>simp_all add: ex_streaming_def ex_chunk_header_def\<close>)
  then obtain s' m' F' where w: "finish_chunk std_ext ex_chunk_header ex_chunk (ex_streaming ex_frontier) = (Ok (), s')"
    "sts_state_trie s' = Some m'" "fst (hash std_ext m') = Ok (root_hash std_ext F')" "canon F'"
    "\<And>k. pt_get F' k = (if prefix [1] k then pt_get (ex_chunk_tree 7) (drop 1 k) else pt_get ex_full_tree k)"
    unfolding pre by auto
  have "pt_get F' [1, 2] = Ok (Some (replicate 40 7))" "pt_get F' [3, 4] = Ok (Some [6])"
    using w(5) [of "[1, 2]"] w(5) [of "[3, 4]"] by (simp_all add: ex_chunk_tree_def ex_full_tree_def)
  with w(1-4) show ?thesis by blast
qed

text \<open>
  C33: a chunk that becomes empty is not merged away. When one of two leaves below a branch is the
  chunk and the block deletes it, the trie collapses to a single leaf, while the frontier keeps the branch
  with an empty slot. The encodings of the two are different, the hash of the frontier is the digest of the
  encoding of the branch, and so it is not the root of the collapsed trie, unless Keccak collides on these two
  encodings: the root check at the end of the client rejects an honest block.
\<close>

theorem emptied_chunk_not_collapsed:
  assumes "rlp_laws E" "stores_tree E m t" "length (nodes m) < 2 ^ 32"
    and "t = PBranch (no_children[unat a := Some c, unat b := Some (PLeaf q w)])"
    and "F = PBranch (no_children[unat a := Some (PLeaf p v), unat b := Some (PLeaf q w)])"
    and "root_hash E c = x" "nibbles [a, b]" "a \<noteq> b" "a \<noteq> 0" "b \<noteq> 0"
    and "kept = PBranch (no_children[unat a := Some PNull, unat b := Some (PLeaf q w)])" "collapsed = PLeaf (b # q) w"
    and "tree_rlp E kept \<noteq> tree_rlp E collapsed \<Longrightarrow> keccak256 E (tree_rlp E kept) \<noteq> keccak256 E (tree_rlp E collapsed)"
  shows "pt_delete F (a # p) = Ok (True, collapsed) \<and> tree_rlp E kept \<noteq> tree_rlp E collapsed
    \<and> (\<exists>m'. replace_frontier_slot E [a] x (EMPTY_ROOT_HASH E) m = (Ok (), m')
        \<and> fst (hash E m') = Ok (keccak256 E (tree_rlp E kept)) \<and> fst (hash E m') \<noteq> Ok (root_hash E collapsed))"
  by (rule rlp_laws.emptied_chunk [OF assms])

theorem emptied_chunk_not_collapsed_witness:
  "\<exists>m'. replace_frontier_slot std_ext [1] (root_hash std_ext (ex_chunk_tree 5)) (EMPTY_ROOT_HASH std_ext) ex_frontier = (Ok (), m')
    \<and> pt_delete ex_full_tree [1, 2] = Ok (True, PLeaf [3, 4] [6]) \<and> fst (hash std_ext m') \<noteq> Ok (root_hash std_ext (PLeaf [3, 4] [6]))"
proof -
  let ?kept = "PBranch (no_children[unat (1 :: byte) := Some PNull, unat (3 :: byte) := Some (PLeaf [4] [6])])"
  have st: "stores_tree std_ext ex_frontier ex_full_tree" using repr_ex_frontier(1) repr_stores by blast
  have "hd (keccak256 std_ext (tree_rlp std_ext ?kept)) \<noteq> hd (keccak256 std_ext (tree_rlp std_ext (PLeaf [3, 4] [6])))"
    unfolding ex_kept_rlp ex_collapsed_rlp by (simp add: std_ext_def hd_std_keccak256 mix_def)
  then have "keccak256 std_ext (tree_rlp std_ext ?kept) \<noteq> keccak256 std_ext (tree_rlp std_ext (PLeaf [3, 4] [6]))" by metis
  from emptied_chunk_not_collapsed [where p = "[2]" and v = "replicate 40 5" and F = ex_full_tree and c = "ex_chunk_tree 5",
      OF std.rlp_laws_axioms st repr_ex_frontier(2) _ _ refl _ _ _ _ refl refl this]
  show ?thesis by (auto simp: ex_full_tree_def ex_chunk_tree_def)
qed

end
