(* ===== verification/Witness_Db.thy ===== *)
theory Witness_Db
  imports Client_Io
begin

text \<open>
  Model of \<^verbatim>\<open>WitnessDb\<close> of \<^verbatim>\<open>crates/executor/client/src/io.rs\<close>, the database the EVM reads from.
  It has two backends. The eager one looks into the decoded tries and may record the order of the
  lookups; the streaming one reads the next witness from the host.

  The lists of a recording are shared \<^verbatim>\<open>RefCell\<close>s in the code; here the database carries them,
  and every query returns the database after it.
\<close>

record recording =
  account_lookup_order :: "bytes list"
  bytecode_lookup_order :: "bytes list"
  storage_lookup_order :: "bytes list"
  witness_order :: "witness_access list option"

datatype state_provider = EagerState ethereum_state | StreamingState streaming_state
datatype bytecode_provider = EagerBytecodes "bytes \<Rightarrow> bytes option" | StreamingBytecodes

record witness_db =
  db_state :: state_provider
  db_block_hashes :: "u64 \<Rightarrow> bytes option"
  db_bytecodes :: bytecode_provider
  db_recording :: "recording option"

type_synonym 'a db_query = "witness_db \<Rightarrow> (witness_message, 'a) outcome \<times> witness_db"

section \<open>Construction\<close>

definition bytecode_by_hash :: "client_ext \<Rightarrow> bytes list \<Rightarrow> bytes \<Rightarrow> bytes option" where
  "bytecode_by_hash X codes = foldl (\<lambda>m code. m(bytecode_hash X code \<mapsto> code)) (\<lambda>_. None) codes"

definition from_parts ::
  "client_ext \<Rightarrow> ethereum_state \<Rightarrow> block_header \<Rightarrow> block_header list \<Rightarrow> bytes list \<Rightarrow>
   (client_error, witness_db) outcome" where
  "from_parts X st current_header ancestor_headers codes =
     (case build_block_hashes X (current_header # ancestor_headers) (\<lambda>_. None) of
        Ok hashes \<Rightarrow>
          Ok \<lparr>db_state = EagerState st, db_block_hashes = hashes,
              db_bytecodes = EagerBytecodes (bytecode_by_hash X codes), db_recording = None\<rparr>
      | Err e \<Rightarrow> Err e
      | Panic p \<Rightarrow> Panic p)"

definition from_parts_recording ::
  "client_ext \<Rightarrow> ethereum_state \<Rightarrow> block_header \<Rightarrow> block_header list \<Rightarrow> bytes list \<Rightarrow> recording \<Rightarrow>
   (client_error, witness_db) outcome" where
  "from_parts_recording X st current_header ancestor_headers codes rec =
     (case from_parts X st current_header ancestor_headers codes of
        Ok db \<Rightarrow> Ok (db\<lparr>db_recording := Some rec\<rparr>)
      | Err e \<Rightarrow> Err e
      | Panic p \<Rightarrow> Panic p)"

text \<open>
  The view of an eager input: the headers in the order of the chain check, the root its state must
  have, and the databases built from it.
\<close>

definition parent_header :: "client_input \<Rightarrow> ('e, block_header) outcome" where
  "parent_header inp =
     (case ci_ancestor_headers inp of [] \<Rightarrow> Panic IndexOutOfBounds | parent # _ \<Rightarrow> Ok parent)"

definition state_anchor :: "client_input \<Rightarrow> ('e, bytes) outcome" where
  "state_anchor inp =
     (case parent_header inp of Ok parent \<Rightarrow> Ok (hdr_state_root parent) | Err e \<Rightarrow> Err e | Panic p \<Rightarrow> Panic p)"

definition input_headers :: "client_input \<Rightarrow> block_header list" where
  "input_headers inp = blk_header (ci_current_block inp) # ci_ancestor_headers inp"

definition input_witness_db :: "client_ext \<Rightarrow> client_input \<Rightarrow> ethereum_state \<Rightarrow> (client_error, witness_db) outcome" where
  "input_witness_db X inp st =
     (case build_block_hashes X (input_headers inp) (\<lambda>_. None) of
        Ok hashes \<Rightarrow>
          Ok \<lparr>db_state = EagerState st, db_block_hashes = hashes,
              db_bytecodes = EagerBytecodes (bytecode_by_hash X (ci_bytecodes inp)), db_recording = None\<rparr>
      | Err e \<Rightarrow> Err e
      | Panic p \<Rightarrow> Panic p)"

definition witness_db_recording ::
  "client_ext \<Rightarrow> client_input \<Rightarrow> ethereum_state \<Rightarrow> recording \<Rightarrow> (client_error, witness_db) outcome" where
  "witness_db_recording X inp st rec =
     from_parts_recording X st (blk_header (ci_current_block inp)) (ci_ancestor_headers inp) (ci_bytecodes inp) rec"

definition from_streaming_parts ::
  "client_ext \<Rightarrow> streaming_state \<Rightarrow> block_header \<Rightarrow> block_header list \<Rightarrow>
   (client_error, witness_db) outcome" where
  "from_streaming_parts X s current_header ancestor_headers =
     (case build_block_hashes X (current_header # ancestor_headers) (\<lambda>_. None) of
        Ok hashes \<Rightarrow>
          Ok \<lparr>db_state = StreamingState s, db_block_hashes = hashes,
              db_bytecodes = StreamingBytecodes, db_recording = None\<rparr>
      | Err e \<Rightarrow> Err e
      | Panic p \<Rightarrow> Panic p)"

section \<open>Recording\<close>

definition push_access :: "witness_access \<Rightarrow> recording \<Rightarrow> recording" where
  "push_access a r = r\<lparr>witness_order := map_option (\<lambda>w. w @ [a]) (witness_order r)\<rparr>"

text \<open>A first lookup enters the list of its kind and the witness order.\<close>

definition note_account :: "bytes \<Rightarrow> recording \<Rightarrow> recording" where
  "note_account h r =
     (if h \<in> set (account_lookup_order r) then r
      else push_access (AccAccount h) (r\<lparr>account_lookup_order := account_lookup_order r @ [h]\<rparr>))"

definition note_storage :: "bytes \<Rightarrow> recording \<Rightarrow> recording" where
  "note_storage h r =
     (if h \<in> set (storage_lookup_order r) then r
      else push_access (AccStorageTrie h) (r\<lparr>storage_lookup_order := storage_lookup_order r @ [h]\<rparr>))"

text \<open>Every bytecode lookup is recorded, also a repeated one.\<close>

definition note_bytecode :: "bytes \<Rightarrow> recording \<Rightarrow> recording" where
  "note_bytecode h r =
     push_access (AccBytecode h) (r\<lparr>bytecode_lookup_order := bytecode_lookup_order r @ [h]\<rparr>)"

definition recorded :: "(recording \<Rightarrow> recording) \<Rightarrow> witness_db \<Rightarrow> witness_db" where
  "recorded f db = db\<lparr>db_recording := map_option f (db_recording db)\<rparr>"

section \<open>Queries\<close>

definition account_info_of :: "trie_account \<Rightarrow> account_info" where
  "account_info_of acc =
     \<lparr>info_nonce = acc_nonce acc, info_balance = acc_balance acc, info_code_hash = acc_code_hash acc\<rparr>"

text \<open>A query to the streaming state inside the database.\<close>

definition on_stream ::
  "witness_db \<Rightarrow> (witness_message, 'a) outcome \<times> streaming_state \<Rightarrow> (witness_message, 'a) outcome \<times> witness_db" where
  "on_stream db r = (fst r, db\<lparr>db_state := StreamingState (snd r)\<rparr>)"

definition basic_ref :: "ext \<Rightarrow> eth_codec \<Rightarrow> bytes \<Rightarrow> account_info option db_query" where
  "basic_ref E C address db =
     (let hashed_address = keccak256 E address in
      and_then
        (case db_state db of
           EagerState st \<Rightarrow>
             (case get_rlp (account_decode C) (state_trie st) hashed_address of
                Ok acc \<Rightarrow> (Ok acc, recorded (note_account hashed_address) db)
              | Err _ \<Rightarrow> (Panic UnwrapNone, recorded (note_account hashed_address) db)
              | Panic p \<Rightarrow> (Panic p, recorded (note_account hashed_address) db))
         | StreamingState s \<Rightarrow> on_stream db (read_account hashed_address s))
        (\<lambda>acc db. (Ok (map_option account_info_of acc), db)))"

definition code_by_hash_ref :: "client_ext \<Rightarrow> bytes \<Rightarrow> bytes db_query" where
  "code_by_hash_ref X code_hash db =
     (case db_bytecodes db of
        EagerBytecodes codes \<Rightarrow>
          (case codes code_hash of
             Some code \<Rightarrow> (Ok code, recorded (note_bytecode code_hash) db)
           | None \<Rightarrow> (Panic UnwrapNone, recorded (note_bytecode code_hash) db))
      | StreamingBytecodes \<Rightarrow>
          (case db_state db of
             StreamingState s \<Rightarrow> on_stream db (read_bytecode X code_hash s)
           | EagerState _ \<Rightarrow> (Err StreamingBytecodeForEagerState, db)))"

text \<open>The value of a slot in a storage trie; an absent slot is zero.\<close>

definition slot_value :: "eth_codec \<Rightarrow> mpt option \<Rightarrow> bytes \<Rightarrow> ('e, u256) outcome" where
  "slot_value C trie hashed_slot =
     (case trie of
        None \<Rightarrow> Panic UnwrapNone
      | Some t \<Rightarrow>
          (case get_rlp (u256_decode C) t hashed_slot of
             Ok v \<Rightarrow> Ok (case v of None \<Rightarrow> 0 | Some v \<Rightarrow> v)
           | Err _ \<Rightarrow> Panic UnwrapNone
           | Panic p \<Rightarrow> Panic p))"

definition storage_ref :: "ext \<Rightarrow> eth_codec \<Rightarrow> bytes \<Rightarrow> u256 \<Rightarrow> u256 db_query" where
  "storage_ref E C address index db =
     (let hashed_address = keccak256 E address;
          hashed_slot = keccak256 E (to_be_bytes_32 index) in
      case db_state db of
        EagerState st \<Rightarrow>
          (slot_value C (storage_tries st hashed_address) hashed_slot,
           recorded (note_storage hashed_address \<circ> note_account hashed_address) db)
      | StreamingState s \<Rightarrow>
          and_then (on_stream db (load_storage_trie E hashed_address s)) (\<lambda>_ db.
            (case db_state db of
               StreamingState s \<Rightarrow> slot_value C (sts_storage_tries s hashed_address) hashed_slot
             | EagerState _ \<Rightarrow> Panic UnreachableCode, db)))"

definition block_hash_ref :: "u64 \<Rightarrow> bytes db_query" where
  "block_hash_ref number db =
     (case db_block_hashes db number of
        Some h \<Rightarrow> (Ok h, db)
      | None \<Rightarrow> (Panic UnwrapNone, db))"

end
