(* ===== verification/Client_Exec.thy ===== *)
theory Client_Exec
  imports Client_Update Witness_Db
begin

text \<open>
  Model of \<^verbatim>\<open>ClientExecutor\<close> of \<^verbatim>\<open>crates/executor/client/src/lib.rs\<close>: the execution of a block on
  the eager input, with or without recording the witness order, and on the streamed input.

  Sender recovery, consensus rules and the EVM are library code: the fields of \<open>exec_lib\<close>. The
  EVM talks to the database while it runs; it is a program of type \<open>evm\<close> that asks one query
  at a time and goes on with the answer. \<open>run_evm\<close> runs such a program on a database.
  A failing query ends the execution with an error, as the EVM does on a database error.
\<close>

datatype chain_variant = Mainnet | Dev

record execution_output =
  out_bundle :: bundle_state
  out_receipt_blooms :: "bytes list"
  out_other :: bytes

datatype evm =
    EvmDone execution_output
  | EvmFail string
  | QBasic bytes "account_info option \<Rightarrow> evm"
  | QCode bytes "bytes \<Rightarrow> evm"
  | QStorage bytes u256 "u256 \<Rightarrow> evm"
  | QBlockHash u64 "bytes \<Rightarrow> evm"

record exec_lib =
  try_into_recovered :: "eth_block \<Rightarrow> string option"
  validate_header :: "chain_variant \<Rightarrow> block_header \<Rightarrow> string option"
  validate_block_pre_execution :: "chain_variant \<Rightarrow> eth_block \<Rightarrow> string option"
  execute_block :: "chain_variant \<Rightarrow> capacity_hints_rec \<Rightarrow> eth_block \<Rightarrow> evm"
  validate_block_post_execution :: "chain_variant \<Rightarrow> eth_block \<Rightarrow> execution_output \<Rightarrow> string option"
  accrue_bloom :: "bytes \<Rightarrow> bytes \<Rightarrow> bytes"
  calculate_ommers_root :: "bytes \<Rightarrow> bytes"
  calculate_withdrawals_root :: "bytes \<Rightarrow> bytes option"

section \<open>Running the EVM\<close>

definition db_outcome :: "(witness_message, 'a) outcome \<Rightarrow> (client_error, 'a) outcome" where
  "db_outcome r = lift_outcome (BlockExecutionError \<circ> DatabaseError) r"

definition ask ::
  "(witness_message, 'a) outcome \<times> witness_db \<Rightarrow>
   ('a \<Rightarrow> witness_db \<Rightarrow> (client_error, 'b) outcome \<times> witness_db) \<Rightarrow> (client_error, 'b) outcome \<times> witness_db" where
  "ask r k = and_then (db_outcome (fst r), snd r) k"

primrec run_evm ::
  "ext \<Rightarrow> eth_codec \<Rightarrow> client_ext \<Rightarrow> evm \<Rightarrow> witness_db \<Rightarrow>
   (client_error, execution_output) outcome \<times> witness_db" where
  "run_evm E C X (EvmDone out) db = (Ok out, db)"
| "run_evm E C X (EvmFail e) db = (Err (BlockExecutionError (EvmError e)), db)"
| "run_evm E C X (QBasic address k) db =
     ask (basic_ref E C address db) (\<lambda>acc db. run_evm E C X (k acc) db)"
| "run_evm E C X (QCode code_hash k) db =
     ask (code_by_hash_ref X code_hash db) (\<lambda>code db. run_evm E C X (k code) db)"
| "run_evm E C X (QStorage address index k) db =
     ask (storage_ref E C address index db) (\<lambda>v db. run_evm E C X (k v) db)"
| "run_evm E C X (QBlockHash number k) db =
     ask (block_hash_ref number db) (\<lambda>h db. run_evm E C X (k h) db)"

section \<open>Shared steps\<close>

definition fail_with :: "('x \<Rightarrow> 'e) \<Rightarrow> 'x option \<Rightarrow> ('e, unit) outcome" where
  "fail_with f r = (case r of None \<Rightarrow> Ok () | Some x \<Rightarrow> Err (f x))"

text \<open>Recovery of the senders and the checks before execution.\<close>

definition check_block :: "exec_lib \<Rightarrow> chain_variant \<Rightarrow> eth_block \<Rightarrow> (client_error, unit) outcome" where
  "check_block L v block =
     (case fail_with BlockSenderRecoveryError (try_into_recovered L block) of
        Ok _ \<Rightarrow>
          (case fail_with InvalidHeader (validate_header L v (blk_header block)) of
             Ok _ \<Rightarrow> fail_with InvalidBlockPreExecution (validate_block_pre_execution L v block)
           | r \<Rightarrow> r)
      | r \<Rightarrow> r)"

text \<open>The word size of the zkVM and of the host differ; \<open>w\<close> is the width of \<^verbatim>\<open>usize\<close>.\<close>

definition block_evm :: "nat \<Rightarrow> exec_lib \<Rightarrow> chain_variant \<Rightarrow> eth_block \<Rightarrow> block_header list \<Rightarrow> evm" where
  "block_evm w L v block ancestor_headers =
     execute_block L v (capacity_hints w (blk_transaction_count block) (length ancestor_headers)) block"

definition logs_bloom_of :: "exec_lib \<Rightarrow> execution_output \<Rightarrow> bytes" where
  "logs_bloom_of L out = foldl (accrue_bloom L) (replicate 256 0) (out_receipt_blooms out)"

definition result_header ::
  "client_ext \<Rightarrow> exec_lib \<Rightarrow> eth_block \<Rightarrow> block_header \<Rightarrow> execution_output \<Rightarrow> block_header" where
  "result_header X L block parent out =
     (blk_header block)
       \<lparr>hdr_parent_hash := header_hash X parent,
        hdr_ommers_hash := calculate_ommers_root L (blk_body block),
        hdr_withdrawals_root := calculate_withdrawals_root L (blk_body block),
        hdr_logs_bloom := logs_bloom_of L out\<rparr>"

section \<open>Execution on the streamed input\<close>

text \<open>The part after execution: the update, the comparison of the roots and the new header.\<close>

definition finish_streaming ::
  "ext \<Rightarrow> eth_codec \<Rightarrow> client_ext \<Rightarrow> exec_lib \<Rightarrow> eth_block \<Rightarrow> block_header list \<Rightarrow> execution_output \<Rightarrow>
   (client_error, block_header) streaming" where
  "finish_streaming E C X L block ancestor_headers out s =
     and_then (streaming_update E C (out_bundle out) s) (\<lambda>_ s.
     and_then (state_root E s) (\<lambda>root s.
       if root \<noteq> hdr_state_root (blk_header block)
       then (Err (StateRootMismatch root (hdr_state_root (blk_header block))), s)
       else
         (case ancestor_headers of
            [] \<Rightarrow> (Panic IndexOutOfBounds, s)
          | parent # _ \<Rightarrow> (Ok (result_header X L block parent out), s))))"

definition execute_streaming ::
  "nat \<Rightarrow> ext \<Rightarrow> eth_codec \<Rightarrow> client_ext \<Rightarrow> exec_lib \<Rightarrow> chain_variant \<Rightarrow> eth_block \<Rightarrow> block_header list \<Rightarrow>
   (client_error, block_header) streaming" where
  "execute_streaming w E C X L v block ancestor_headers s =
     (case from_streaming_parts X s (blk_header block) ancestor_headers of
        Ok db \<Rightarrow>
          (case run_evm E C X (block_evm w L v block ancestor_headers) db of
             (r, db) \<Rightarrow>
               (case db_state db of
                  EagerState _ \<Rightarrow> (Panic UnreachableCode, s)
                | StreamingState s \<Rightarrow>
                    and_then (r, s) (\<lambda>out s.
                    and_then (fail_with InvalidBlockPostExecution
                                (validate_block_post_execution L v block out), s) (\<lambda>_ s.
                      finish_streaming E C X L block ancestor_headers out s))))
      | Err e \<Rightarrow> (Err e, s)
      | Panic p \<Rightarrow> (Panic p, s))"

definition execute_from_reader ::
  "nat \<Rightarrow> ext \<Rightarrow> eth_codec \<Rightarrow> client_ext \<Rightarrow> exec_lib \<Rightarrow> chain_variant \<Rightarrow> hint list \<Rightarrow>
   (client_error, block_header) outcome" where
  "execute_from_reader w E C X L v inp =
     (case inp of
        HAncestorHeaders ancestor_headers # HCurrentBlock block # inp \<Rightarrow>
          (case check_block L v block of
             Ok _ \<Rightarrow>
               (case build_streaming_state_from_input_reader ancestor_headers inp of
                  Ok s \<Rightarrow> fst (execute_streaming w E C X L v block ancestor_headers s)
                | Err e \<Rightarrow> Err e
                | Panic p \<Rightarrow> Panic p)
           | Err e \<Rightarrow> Err e
           | Panic p \<Rightarrow> Panic p)
      | _ \<Rightarrow> Panic UnwrapNone)"

section \<open>Execution on the eager input\<close>

text \<open>
  After execution the recording gets the state marker and, for every account of the bundle, a
  marker with the number of changed slots; accounts whose storage trie is changed but was never
  read get their witnesses after the marker.
\<close>

definition record_modified ::
  "ext \<Rightarrow> (bytes \<times> bundle_account) \<Rightarrow> ethereum_state \<times> recording \<Rightarrow>
   (client_error, unit) outcome \<times> (ethereum_state \<times> recording)" where
  "record_modified E a sr =
     (case sr of (st, rec) \<Rightarrow>
      (let h = keccak256 E (fst a);
           rec = push_access (AccModifiedAccount h (length (acct_storage (snd a)))) rec in
       if acct_info (snd a) \<noteq> None \<and> acct_storage (snd a) \<noteq> [] \<and> h \<notin> set (storage_lookup_order rec) then
         (case storage_tries st h of
            None \<Rightarrow> (Ok (), st, rec)
          | Some trie \<Rightarrow>
              (case hash E trie of
                 (r, trie) \<Rightarrow>
                   and_then (lift_outcome MptError r, st\<lparr>storage_tries := (storage_tries st)(h \<mapsto> trie)\<rparr>, rec)
                     (\<lambda>root (st, rec).
                        if root \<noteq> EMPTY_ROOT_HASH E
                        then (Ok (), st, note_storage h (note_account h rec))
                        else (Ok (), st, rec))))
       else (Ok (), st, rec)))"

primrec record_bundle ::
  "ext \<Rightarrow> bundle_state \<Rightarrow> ethereum_state \<times> recording \<Rightarrow>
   (client_error, unit) outcome \<times> (ethereum_state \<times> recording)" where
  "record_bundle E [] sr = (Ok (), sr)"
| "record_bundle E (a # bundle) sr =
     and_then (record_modified E a sr) (\<lambda>_ sr. record_bundle E bundle sr)"

definition record_outcome ::
  "ext \<Rightarrow> bundle_state \<Rightarrow> ethereum_state \<Rightarrow> recording option \<Rightarrow>
   (client_error, unit) outcome \<times> (ethereum_state \<times> recording option)" where
  "record_outcome E bundle st rec =
     (case rec of
        None \<Rightarrow> (Ok (), st, None)
      | Some rec \<Rightarrow>
          (if witness_order rec = None then (Ok (), st, Some rec)
           else
             (case record_bundle E bundle (st, push_access AccStateTrie rec) of
                (r, st, rec) \<Rightarrow> (r, st, Some rec))))"

definition finish_eager ::
  "ext \<Rightarrow> eth_codec \<Rightarrow> client_ext \<Rightarrow> exec_lib \<Rightarrow> eth_block \<Rightarrow> block_header list \<Rightarrow> execution_output \<Rightarrow>
   ethereum_state \<Rightarrow> (client_error, block_header) outcome" where
  "finish_eager E C X L block ancestor_headers out st =
     (case update_from_bundle_state E C (out_bundle out) st of
        (Ok _, st) \<Rightarrow>
          (case hash E (state_trie st) of
             (Ok root, _) \<Rightarrow>
               (if root \<noteq> hdr_state_root (blk_header block)
                then Err (StateRootMismatch root (hdr_state_root (blk_header block)))
                else
                  (case ancestor_headers of
                     [] \<Rightarrow> Panic IndexOutOfBounds
                   | parent # _ \<Rightarrow> Ok (result_header X L block parent out)))
           | (Err e, _) \<Rightarrow> Err (MptError e)
           | (Panic p, _) \<Rightarrow> Panic p)
      | (Err e, _) \<Rightarrow> Err (MptError e)
      | (Panic p, _) \<Rightarrow> Panic p)"

text \<open>The result carries the recording as it is at the end.\<close>

definition execute_with_state ::
  "nat \<Rightarrow> ext \<Rightarrow> eth_codec \<Rightarrow> client_ext \<Rightarrow> exec_lib \<Rightarrow> chain_variant \<Rightarrow> client_input \<Rightarrow> ethereum_state \<Rightarrow>
   recording option \<Rightarrow> (client_error, block_header \<times> recording option) outcome" where
  "execute_with_state w E C X L v inp st recording =
     (let block = ci_current_block inp; ancestor_headers = ci_ancestor_headers inp in
      case (case recording of
              Some rec \<Rightarrow> witness_db_recording X inp st rec
            | None \<Rightarrow> input_witness_db X inp st) of
        Ok db \<Rightarrow>
          (case check_block L v block of
             Ok _ \<Rightarrow>
               (case run_evm E C X (block_evm w L v block ancestor_headers) db of
                  (Ok out, db) \<Rightarrow>
                    (case fail_with InvalidBlockPostExecution (validate_block_post_execution L v block out) of
                       Ok _ \<Rightarrow>
                         (case record_outcome E (out_bundle out) st (db_recording db) of
                            (Ok _, st, rec) \<Rightarrow>
                              (case finish_eager E C X L block ancestor_headers out st of
                                 Ok header \<Rightarrow> Ok (header, rec)
                               | Err e \<Rightarrow> Err e
                               | Panic p \<Rightarrow> Panic p)
                          | (Err e, _) \<Rightarrow> Err e
                          | (Panic p, _) \<Rightarrow> Panic p)
                     | Err e \<Rightarrow> Err e
                     | Panic p \<Rightarrow> Panic p)
                | (Err e, _) \<Rightarrow> Err e
                | (Panic p, _) \<Rightarrow> Panic p)
           | Err e \<Rightarrow> Err e
           | Panic p \<Rightarrow> Panic p)
      | Err e \<Rightarrow> Err e
      | Panic p \<Rightarrow> Panic p)"

definition execute ::
  "nat \<Rightarrow> ext \<Rightarrow> eth_codec \<Rightarrow> client_ext \<Rightarrow> exec_lib \<Rightarrow> chain_variant \<Rightarrow> client_input \<Rightarrow>
   (client_error, block_header) outcome" where
  "execute w E C X L v inp =
     (case build_input_state E C inp of
        Ok st \<Rightarrow>
          (case execute_with_state w E C X L v inp st None of
             Ok (header, _) \<Rightarrow> Ok header
           | Err e \<Rightarrow> Err e
           | Panic p \<Rightarrow> Panic p)
      | Err e \<Rightarrow> Err e
      | Panic p \<Rightarrow> Panic p)"

definition no_recording :: recording where
  "no_recording = \<lparr>account_lookup_order = [], bytecode_lookup_order = [], storage_lookup_order = [],
                   witness_order = Some []\<rparr>"

definition execute_recording_witness_order ::
  "nat \<Rightarrow> ext \<Rightarrow> eth_codec \<Rightarrow> client_ext \<Rightarrow> exec_lib \<Rightarrow> chain_variant \<Rightarrow> client_input \<Rightarrow>
   (client_error, block_header \<times> witness_access list) outcome" where
  "execute_recording_witness_order w E C X L v inp =
     (case build_input_state E C inp of
        Ok st \<Rightarrow>
          (case execute_with_state w E C X L v inp st (Some no_recording) of
             Ok (header, Some rec) \<Rightarrow>
               (case witness_order rec of
                  Some order \<Rightarrow> Ok (header, order)
                | None \<Rightarrow> Panic UnreachableCode)
           | Ok (header, None) \<Rightarrow> Panic UnreachableCode
           | Err e \<Rightarrow> Err e
           | Panic p \<Rightarrow> Panic p)
      | Err e \<Rightarrow> Err e
      | Panic p \<Rightarrow> Panic p)"

end
