(* ===== verification/Client_Chain.thy ===== *)
theory Client_Chain
  imports Witness_Db
begin

text \<open>
  Properties of the smaller parts of the client: the header chain and the block hashes the EVM
  sees, the nibble form of hashed addresses, and the capacity hints.
\<close>

section \<open>The header chain\<close>

text \<open>Every header names its successor in the list as its parent, by number and by hash.\<close>

fun linked :: "client_ext \<Rightarrow> block_header list \<Rightarrow> bool" where
  "linked X (child # parent # headers) \<longleftrightarrow>
     hdr_number parent = hdr_number child - 1 \<and> header_hash X parent = hdr_parent_hash child \<and>
     linked X (parent # headers)"
| "linked X _ \<longleftrightarrow> True"

definition numbered_hash :: "client_ext \<Rightarrow> block_header \<Rightarrow> u64 \<times> bytes" where
  "numbered_hash X h = (hdr_number h, header_hash X h)"

lemma build_block_hashes_linked:
  "linked X (c # hs) \<Longrightarrow>
   build_block_hashes X (c # hs) m = Ok (m ++ map_of (rev (map (numbered_hash X) hs)))"
proof (induction hs arbitrary: c m)
  case (Cons p hs)
  then have "numbered_hash X p = (hdr_number c - 1, hdr_parent_hash c)" by (simp add: numbered_hash_def)
  with Cons show ?case by (auto simp: map_add_def fun_upd_def fun_eq_iff split: option.splits)
qed simp

lemma build_block_hashes_unlinked:
  "\<not> linked X (c # hs) \<Longrightarrow> \<exists>e. build_block_hashes X (c # hs) m = Err e"
  by (induction hs arbitrary: c m) auto

lemma linked_numbers:
  "linked X (c # hs) \<Longrightarrow> i < length hs \<Longrightarrow> hdr_number (hs ! i) = hdr_number c - of_nat (Suc i)"
proof (induction hs arbitrary: c i)
  case (Cons p hs)
  show ?case
  proof (cases i)
    case (Suc j)
    have "hdr_number (hs ! j) = hdr_number p - of_nat (Suc j)"
      by (rule Cons.IH) (use Suc Cons.prems in auto)
    also have "\<dots> = hdr_number c - of_nat (Suc (Suc j))" using Cons.prems by simp
    finally show ?thesis using Suc by simp
  qed (use Cons.prems in simp)
qed simp

lemma of_nat_u64_inj: "i < 2 ^ 64 \<Longrightarrow> j < 2 ^ 64 \<Longrightarrow> (of_nat i :: u64) = of_nat j \<longleftrightarrow> i = j"
  by (auto simp: word_unat_eq_iff unat_of_nat)

lemma linked_distinct:
  assumes "linked X (c # hs)" and "length hs < 2 ^ 64"
  shows "distinct (map hdr_number hs)"
proof -
  have "hdr_number (hs ! i) \<noteq> hdr_number (hs ! j)" if "i < length hs" "j < length hs" "i \<noteq> j" for i j
    using that assms linked_numbers [OF assms(1)] of_nat_u64_inj [of "Suc i" "Suc j"] by auto
  then show ?thesis by (simp add: distinct_conv_nth)
qed

lemma map_of_rev_distinct: "distinct (map fst xs) \<Longrightarrow> map_of (rev xs) = map_of xs"
proof (induction xs)
  case (Cons x xs)
  then have "map_of xs (fst x) = None" by (auto simp: map_of_eq_None_iff)
  with Cons show ?case by (auto simp: fun_eq_iff map_add_def split: option.splits)
qed simp

text \<open>
  C28. The block hashes the EVM can ask for are authenticated by the current header: building the
  table succeeds exactly when every ancestor header hashes to the parent hash of its child and the
  numbers count down, and then the table holds exactly the ancestors' own hashes under their
  numbers. It fails with an error otherwise, and never panics.
\<close>

theorem block_hashes_authenticated:
  assumes "length ancestors < 2 ^ 64"
  shows "(build_block_hashes X (current # ancestors) (\<lambda>_. None) = Ok table \<longleftrightarrow>
            linked X (current # ancestors) \<and>
            table = map_of (map (\<lambda>h. (hdr_number h, header_hash X h)) ancestors)) \<and>
         \<not> is_panic (build_block_hashes X (current # ancestors) (\<lambda>_. None))"
proof (cases "linked X (current # ancestors)")
  case True
  have "distinct (map fst (map (numbered_hash X) ancestors))"
    using linked_distinct [OF True assms] by (simp add: numbered_hash_def comp_def)
  then show ?thesis
    using True build_block_hashes_linked [OF True, of "\<lambda>_. None"]
    by (auto simp: map_of_rev_distinct numbered_hash_def [abs_def])
next
  case False
  then show ?thesis using build_block_hashes_unlinked [OF False, of "\<lambda>_. None"] by auto
qed

definition ex_header :: "u64 \<Rightarrow> bytes \<Rightarrow> block_header" where
  "ex_header n parent =
     \<lparr>hdr_number = n, hdr_parent_hash = parent, hdr_state_root = [], hdr_ommers_hash = [],
      hdr_transactions_root = [], hdr_receipts_root = [], hdr_withdrawals_root = None,
      hdr_logs_bloom = [], hdr_requests_hash = None, hdr_other = []\<rparr>"

definition ex_client_ext :: client_ext where
  "ex_client_ext = \<lparr>header_hash = (\<lambda>h. ucast (hdr_number h) # hdr_parent_hash h), bytecode_hash = (\<lambda>c. c)\<rparr>"

theorem block_hashes_authenticated_witness:
  "\<exists>table. build_block_hashes ex_client_ext [ex_header 3 [2, 1], ex_header 2 [1], ex_header 1 []] (\<lambda>_. None) =
     Ok table \<and> table 2 = Some [2, 1] \<and> table 1 = Some [1] \<and> table 3 = None"
  using block_hashes_authenticated
    [of "[ex_header 2 [1], ex_header 1 []]" ex_client_ext "ex_header 3 [2, 1]"
        "map_of [(2, [2, 1]), (1, [1])]"]
  by (simp add: ex_header_def ex_client_ext_def)

section \<open>Nibbles of a hashed address\<close>

lemma to_nibs_append: "to_nibs (as @ bs) = to_nibs as @ to_nibs bs"
  by (induction as rule: to_nibs.induct) auto

lemma b256_nibbles_fold:
  "n \<le> length v \<Longrightarrow> n \<le> 32 \<Longrightarrow>
   foldl (\<lambda>nibs i. nibs[2 * i := drop_bit 4 (v ! i), 2 * i + 1 := v ! i AND 0x0f])
     (replicate 64 0) [0..<n] = to_nibs (take n v) @ replicate (64 - 2 * n) 0"
proof (induction n)
  case (Suc n)
  then have "64 - 2 * n = Suc (Suc (64 - 2 * Suc n))" by simp
  with Suc show ?case
    by (simp add: take_Suc_conv_app_nth to_nibs_append list_update_append)
qed simp

text \<open>
  The client's own nibble routine agrees with the trie's: for a 32-byte hash the array filled
  by index is the nibble path under which the trie files the key, so that comparing it with the
  prefix of a chunk decides exactly whether the key lies below the chunk.
\<close>

lemma b256_nibbles_is_trie_path:
  assumes "length h = 32"
  shows "b256_nibbles h = to_nibs h \<and> nibbles (b256_nibbles h) \<and> length (b256_nibbles h) = 64 \<and>
         (starts_with (b256_nibbles h) pre \<longleftrightarrow> (\<exists>suf. to_nibs h = pre @ suf))"
proof -
  have "b256_nibbles h = to_nibs h" using b256_nibbles_fold [of 32 h] assms by (simp add: b256_nibbles_def)
  moreover have "take (length pre) ns = pre \<longleftrightarrow> (\<exists>suf. ns = pre @ suf)" for ns :: nibs
    by (metis append_eq_conv_conj append_take_drop_id)
  ultimately show ?thesis using assms by (simp add: starts_with_def)
qed

section \<open>Capacity hints\<close>

text \<open>
  C31. The capacity hints are bounded and overflow-safe at every width of \<^verbatim>\<open>usize\<close> of at least 16 bits:
  each hint lies between its floor and its cap, grows with the block, and equals the unbounded
  estimate as long as that does not exceed the cap.
\<close>

theorem capacity_hints_bounded:
  assumes "16 \<le> w" and "txs < 2 ^ w" and "ancs < 2 ^ w"
  shows "cap_accounts (capacity_hints w txs ancs) = min (4 * txs + 4096) 16384 \<and>
         cap_contracts (capacity_hints w txs ancs) = min (txs + 256) 4096 \<and>
         cap_block_hashes (capacity_hints w txs ancs) = min ancs 256"
proof -
  have "(2 :: nat) ^ 16 \<le> 2 ^ w" using assms(1) by (intro power_increasing) auto
  then have w: "65536 \<le> (2 :: nat) ^ w" by simp
  then show ?thesis
    by (auto simp: capacity_hints_def saturating_add_def saturating_mul_def
        MAX_ACCOUNT_CAPACITY_def MAX_CONTRACT_CAPACITY_def MAX_BLOCK_HASH_CAPACITY_def min_def)
qed

theorem capacity_hints_bounded_witness:
  "cap_accounts (capacity_hints 32 896 3) = 7680 \<and> cap_contracts (capacity_hints 32 896 3) = 1152 \<and>
   cap_block_hashes (capacity_hints 32 896 3) = 3"
  using capacity_hints_bounded [of 32 896 3] by simp

end
