(* ===== verification/Guest.thy ===== *)
theory Guest
  imports Client_Exec Client_Chain
begin

text \<open>
  Model of \<^verbatim>\<open>bin/ceno-client-eth/src/main.rs\<close>, the program the zkVM proves: it executes the block from
  the host's hints and commits the hash of the header. The reader hands out the hints in order,
  which is the hint list of the client model; \<^verbatim>\<open>usize\<close> has 32 bits in the zkVM.
\<close>

section \<open>The committed digest\<close>

text \<open>\<^verbatim>\<open>transmute\<close> of 32 bytes to eight words on a little-endian machine.\<close>

definition le_word :: "bytes \<Rightarrow> 32 word" where
  "le_word bs = foldr (\<lambda>b w. push_bit 8 w OR ucast b) bs 0"

definition digest_words :: "bytes \<Rightarrow> 32 word list" where
  "digest_words bs = map (\<lambda>i. le_word (take 4 (drop (4 * i) bs))) [0..<8]"

definition guest_main ::
  "ext \<Rightarrow> eth_codec \<Rightarrow> client_ext \<Rightarrow> exec_lib \<Rightarrow> hint list \<Rightarrow> (unit, 32 word list) outcome" where
  "guest_main E C X L inp =
     (case execute_from_reader 32 E C X L Mainnet inp of
        Ok header \<Rightarrow> Ok (digest_words (header_hash X header))
      | Err _ \<Rightarrow> Panic UnwrapNone
      | Panic p \<Rightarrow> Panic p)"

section \<open>Reading the digest back\<close>

definition word_bytes :: "32 word \<Rightarrow> bytes" where
  "word_bytes w = map (\<lambda>i. ucast (drop_bit (8 * i) w)) [0..<4]"

definition digest_bytes :: "32 word list \<Rightarrow> bytes" where
  "digest_bytes ws = concat (map word_bytes ws)"

lemma no_high_bit: "8 \<le> n \<Longrightarrow> \<not> bit (b :: byte) n"
  using bit_imp_le_length [of b n] by auto

lemma word_bytes_le_word:
  assumes "length bs = 4"
  shows "word_bytes (le_word bs) = bs"
proof -
  obtain a b c d where bs: "bs = [a, b, c, d]" using assms by (auto simp: length_Suc_conv numeral_eq_Suc)
  have "ucast (drop_bit (8 * i) (le_word bs)) = bs ! i" if "i < 4" for i
  proof -
    have "i = 0 \<or> i = 1 \<or> i = 2 \<or> i = 3" using that by auto
    then consider "i = 0" | "i = 1" | "i = 2" | "i = 3" by blast
    then show ?thesis unfolding bs le_word_def
      by cases (auto intro!: bit_word_eqI simp: bit_simps no_high_bit)
  qed
  then show ?thesis using assms by (auto simp: word_bytes_def intro!: nth_equalityI)
qed

lemma concat_blocks: "4 * n \<le> length bs \<Longrightarrow> concat (map (\<lambda>i. take 4 (drop (4 * i) bs)) [0..<n]) = take (4 * n) bs"
  by (induction n) (simp_all add: take_add add.commute [of 4])

lemma digest_bytes_words: "length h = 32 \<Longrightarrow> digest_bytes (digest_words h) = h"
proof -
  assume h: "length h = 32"
  have "word_bytes (le_word (take 4 (drop (4 * i) h))) = take 4 (drop (4 * i) h)" if "i \<in> set [0..<8]" for i
    using h that by (intro word_bytes_le_word) simp
  then have "digest_bytes (digest_words h) = concat (map (\<lambda>i. take 4 (drop (4 * i) h)) [0..<8])"
    unfolding digest_bytes_def digest_words_def map_map comp_def by (metis (no_types, lifting) map_cong)
  with concat_blocks [of 8 h] h show ?thesis by simp
qed

section \<open>What a commitment means\<close>

lemma fail_with_Ok [simp]: "fail_with f r = Ok u \<longleftrightarrow> r = None"
  by (cases r) (simp_all add: fail_with_def)

lemma finish_streaming_Ok:
  assumes "fst (finish_streaming E C X L block ancestors out s) = Ok header"
  obtains parent rest s1 where "ancestors = parent # rest" "streaming_update E C (out_bundle out) s = (Ok (), s1)"
    "fst (state_root E s1) = Ok (hdr_state_root (blk_header block))" "header = result_header X L block parent out"
proof -
  obtain s2 where "finish_streaming E C X L block ancestors out s = (Ok header, s2)"
    using assms by (metis prod.collapse)
  then show thesis
    by (cases ancestors) (auto simp: finish_streaming_def and_then_Ok_iff intro: that split: if_splits)
qed

lemma execute_streaming_Ok:
  assumes "fst (execute_streaming w E C X L v block ancestors s) = Ok header"
  obtains db out db' s' where "from_streaming_parts X s (blk_header block) ancestors = Ok db"
    "run_evm E C X (block_evm w L v block ancestors) db = (Ok out, db')" "db_state db' = StreamingState s'"
    "validate_block_post_execution L v block out = None"
    "fst (finish_streaming E C X L block ancestors out s') = Ok header"
proof -
  obtain s2 where "execute_streaming w E C X L v block ancestors s = (Ok header, s2)"
    using assms by (metis prod.collapse)
  then show thesis
    by (auto simp: execute_streaming_def and_then_Ok_iff intro: that
        split: outcome.splits prod.splits state_provider.splits)
qed

lemma execute_from_reader_Ok:
  assumes "execute_from_reader w E C X L v inp = Ok header"
  obtains ancestors block rest s where "inp = HAncestorHeaders ancestors # HCurrentBlock block # rest"
    "check_block L v block = Ok ()" "build_streaming_state_from_input_reader ancestors rest = Ok s"
    "fst (execute_streaming w E C X L v block ancestors s) = Ok header"
  using assms by (auto simp: execute_from_reader_def intro: that split: list.splits hint.splits outcome.splits)

end
