(* ===== verification/Proof_Import.thy ===== *)
theory Proof_Import
  imports Eth_State
begin

text \<open>
  Model of the host side that builds tries from Merkle proofs: the proof decoder and \<^verbatim>\<open>MptOwned\<close> of
  \<^verbatim>\<open>crates/mpt/src/trie.rs\<close>, \<^verbatim>\<open>crates/mpt/src/from_proof.rs\<close> and \<^verbatim>\<open>crates/mpt/src/resolver.rs\<close>.

  \<^verbatim>\<open>MptOwned\<close> wraps an \<^verbatim>\<open>Mpt\<close> together with the arena that owns its bytes; as the model does not
  track where bytes live, it is the type \<open>mpt\<close> itself. The RLP views \<^verbatim>\<open>decode_raw\<close> and
  \<^verbatim>\<open>decode_bytes\<close> are third-party code, the fields of \<open>raw_codec\<close>; the buffer behind the item is
  not used by the callers. A node store is a hash map from digests to tries. Following a digest
  through the store may not end when the store has a cycle, so the resolver takes fuel, and running
  out of it is the panic \<open>StackOverflow\<close>.
\<close>

datatype payload_view = PvString bytes | PvList "bytes list"

record raw_codec =
  decode_raw :: "bytes \<Rightarrow> rlp_error + payload_view"
  decode_bytes :: "bytes \<Rightarrow> rlp_error + bytes"

definition lift_rlp :: "rlp_error + 'a \<Rightarrow> (mpt_error, 'a) outcome" where
  "lift_rlp r = (case r of Inl e \<Rightarrow> Err (RlpError e) | Inr a \<Rightarrow> Ok a)"

section \<open>Owned tries\<close>

definition owned_default :: mpt where
  "owned_default = new"

definition owned_set_node :: "node_id \<Rightarrow> node_data \<Rightarrow> mpt \<Rightarrow> mpt" where
  "owned_set_node i nd m = set_node i nd m"

definition owned_add_node :: "node_data \<Rightarrow> mpt \<Rightarrow> node_id \<times> mpt" where
  "owned_add_node nd m = (case add_node Null None m of (i, m) \<Rightarrow> (i, owned_set_node i nd m))"

text \<open>The loop of \<^verbatim>\<open>from_trie\<close>: existing places are overwritten, the others appended.\<close>

primrec copy_nodes :: "nat \<Rightarrow> node_data list \<Rightarrow> mpt \<Rightarrow> mpt" where
  "copy_nodes i [] m = m"
| "copy_nodes i (nd # nds) m =
     copy_nodes (i + 1) nds
       (if i < length (nodes m) then owned_set_node (of_nat i) nd m else snd (owned_add_node nd m))"

definition from_trie :: "mpt \<Rightarrow> mpt" where
  "from_trie other = (copy_nodes 0 (nodes other) owned_default)\<lparr>root_id := root_id other\<rparr>"

section \<open>Decoding one proof node\<close>

type_synonym proof_decoder = "bytes \<Rightarrow> mpt \<Rightarrow> (mpt_error, node_id) outcome \<times> mpt"

text \<open>The loop over the sixteen children; index 0 is the null node and means no child.\<close>

primrec proof_children ::
  "proof_decoder \<Rightarrow> bytes list \<Rightarrow> mpt \<Rightarrow> (mpt_error, node_id option list) outcome \<times> mpt" where
  "proof_children dec [] m = (Ok [], m)"
| "proof_children dec (item # items) m =
     and_then (dec item m) (\<lambda>child_id m.
     and_then (proof_children dec items m) (\<lambda>childs m.
       (Ok ((if child_id = NULL_NODE_ID then None else Some child_id) # childs), m)))"

primrec decode_from_proof_rlp_internal :: "nat \<Rightarrow> ext \<Rightarrow> raw_codec \<Rightarrow> proof_decoder" where
  "decode_from_proof_rlp_internal 0 E R bs m = (Panic StackOverflow, m)"
| "decode_from_proof_rlp_internal (Suc fuel) E R bs m =
     and_then (lift_rlp (decode_raw R bs), m) (\<lambda>view m.
       case view of
         PvString item \<Rightarrow>
           (if length item = 0 then (Ok NULL_NODE_ID, m)
            else if length item = 32 then
              (case add_node (Digest item) (Some (RefDigest item)) m of (i, m) \<Rightarrow> (Ok i, m))
            else (Err (RlpError UnexpectedLength), m))
       | PvList items \<Rightarrow>
           (if length items = 2 then
              and_then (lift_rlp (decode_bytes R (items ! 0)), m) (\<lambda>path m.
                case path of
                  [] \<Rightarrow> (Panic IndexOutOfBounds, m)
                | flag # _ \<Rightarrow>
                    (if flag AND 0x20 = 0 then
                       and_then (decode_from_proof_rlp_internal fuel E R (items ! 1) m) (\<lambda>c m.
                         case add_node (Extension path c) None m of (i, m) \<Rightarrow> (Ok i, m))
                     else
                       and_then (lift_rlp (decode_bytes R (items ! 1)), m) (\<lambda>val m.
                         case add_node (Leaf path val) None m of (i, m) \<Rightarrow> (Ok i, m))))
            else if length items = 17 then
              (if items ! 16 \<noteq> NULL_NODE_REF_SLICE E then (Err ValueInBranch, m)
               else
                 and_then (proof_children (decode_from_proof_rlp_internal fuel E R) (take 16 items) m)
                   (\<lambda>childs m. case add_node (Branch childs) None m of (i, m) \<Rightarrow> (Ok i, m)))
            else (Err (RlpError UnexpectedLength), m)))"

text \<open>An item of a list is shorter than the list, so the length of the input bounds the depth.\<close>

definition decode_from_proof_rlp :: "ext \<Rightarrow> raw_codec \<Rightarrow> bytes \<Rightarrow> (mpt_error, mpt) outcome" where
  "decode_from_proof_rlp E R bs =
     (case decode_from_proof_rlp_internal (Suc (length bs)) E R bs (with_capacity 1) of
        (Ok i, m) \<Rightarrow> Ok (m\<lparr>root_id := i\<rparr>)
      | (Err e, _) \<Rightarrow> Err e
      | (Panic p, _) \<Rightarrow> Panic p)"

text \<open>The encodings of all nodes in preorder.\<close>

primrec payloads_children ::
  "(node_id \<Rightarrow> bytes list \<Rightarrow> mpt \<Rightarrow> (mpt_error, bytes list) outcome \<times> mpt) \<Rightarrow>
   node_id option list \<Rightarrow> bytes list \<Rightarrow> mpt \<Rightarrow> (mpt_error, bytes list) outcome \<times> mpt" where
  "payloads_children f [] res m = (Ok res, m)"
| "payloads_children f (c # cs) res m =
     and_then (case c of Some i \<Rightarrow> f i res m | None \<Rightarrow> (Ok res, m)) (\<lambda>res m. payloads_children f cs res m)"

primrec payloads_internal ::
  "nat \<Rightarrow> ext \<Rightarrow> node_id \<Rightarrow> bytes list \<Rightarrow> mpt \<Rightarrow> (mpt_error, bytes list) outcome \<times> mpt" where
  "payloads_internal 0 E i res m = (Panic StackOverflow, m)"
| "payloads_internal (Suc fuel) E i res m =
     and_then (payload_length E (calc_reference (hash_fuel m) E) i m) (\<lambda>payload_len m.
     and_then (encode_with_payload_len E (calc_reference (hash_fuel m) E) i payload_len [] m) (\<lambda>buffer m.
       let res = res @ [buffer] in
       case node_at m i of
         None \<Rightarrow> (Panic IndexOutOfBounds, m)
       | Some (Branch cs) \<Rightarrow> payloads_children (payloads_internal fuel E) cs res m
       | Some (Extension _ c) \<Rightarrow> payloads_internal fuel E c res m
       | Some _ \<Rightarrow> (Ok res, m)))"

definition payloads :: "ext \<Rightarrow> mpt \<Rightarrow> (mpt_error, bytes list) outcome \<times> mpt" where
  "payloads E m = payloads_internal (hash_fuel m) E (root_id m) [] m"

section \<open>Joining proof nodes\<close>

type_synonym node_store = "bytes \<Rightarrow> mpt option"

primrec parse_proof :: "ext \<Rightarrow> raw_codec \<Rightarrow> bytes list \<Rightarrow> (mpt_error, mpt list) outcome" where
  "parse_proof E R [] = Ok []"
| "parse_proof E R (bs # proof) =
     (case decode_from_proof_rlp E R bs of
        Ok trie \<Rightarrow>
          (case parse_proof E R proof of Ok tries \<Rightarrow> Ok (trie # tries) | Err e \<Rightarrow> Err e | Panic p \<Rightarrow> Panic p)
      | Err e \<Rightarrow> Err e
      | Panic p \<Rightarrow> Panic p)"

text \<open>\<^verbatim>\<open>node_store.insert(node.hash(), node)\<close> for every node.\<close>

primrec store_nodes :: "ext \<Rightarrow> mpt list \<Rightarrow> node_store \<Rightarrow> (mpt_error, unit) outcome \<times> node_store" where
  "store_nodes E [] store = (Ok (), store)"
| "store_nodes E (node # tries) store =
     (case hash E node of
        (Ok h, node) \<Rightarrow> store_nodes E tries (store(h \<mapsto> node))
      | (Err e, _) \<Rightarrow> (Err e, store)
      | (Panic p, _) \<Rightarrow> (Panic p, store))"

definition process_proof ::
  "ext \<Rightarrow> raw_codec \<Rightarrow> bytes list \<Rightarrow> node_store \<Rightarrow> (mpt_error, mpt option) outcome \<times> node_store" where
  "process_proof E R proof store =
     and_then (parse_proof E R proof, store) (\<lambda>tries store.
       let root_node = (case tries of [] \<Rightarrow> None | t # _ \<Rightarrow> Some t) in
       and_then (store_nodes E tries store) (\<lambda>_ store. (Ok root_node, store)))"

primrec resolve_children ::
  "(node_id \<Rightarrow> mpt \<Rightarrow> (mpt_error, node_id) outcome \<times> mpt) \<Rightarrow> node_id option list \<Rightarrow> mpt \<Rightarrow>
   (mpt_error, node_id option list) outcome \<times> mpt" where
  "resolve_children f [] new_trie = (Ok [], new_trie)"
| "resolve_children f (c # cs) new_trie =
     and_then (case c of
                 None \<Rightarrow> (Ok None, new_trie)
               | Some i \<Rightarrow> and_then (f i new_trie) (\<lambda>j m. (Ok (Some j), m))) (\<lambda>x new_trie.
     and_then (resolve_children f cs new_trie) (\<lambda>xs new_trie. (Ok (x # xs), new_trie)))"

primrec resolve_nodes_internal ::
  "nat \<Rightarrow> node_store \<Rightarrow> mpt \<Rightarrow> node_id \<Rightarrow> mpt \<Rightarrow> (mpt_error, node_id) outcome \<times> mpt" where
  "resolve_nodes_internal 0 store cur_trie i new_trie = (Panic StackOverflow, new_trie)"
| "resolve_nodes_internal (Suc fuel) store cur_trie i new_trie =
     (case node_at cur_trie i of
        None \<Rightarrow> (Panic UnwrapNone, new_trie)
      | Some Null \<Rightarrow> (case owned_add_node Null new_trie of (j, m) \<Rightarrow> (Ok j, m))
      | Some (Leaf pre val) \<Rightarrow> (case owned_add_node (Leaf pre val) new_trie of (j, m) \<Rightarrow> (Ok j, m))
      | Some (Branch childs) \<Rightarrow>
          and_then (resolve_children (resolve_nodes_internal fuel store cur_trie) childs new_trie)
            (\<lambda>cs m. case owned_add_node (Branch cs) m of (j, m) \<Rightarrow> (Ok j, m))
      | Some (Extension pre c) \<Rightarrow>
          and_then (resolve_nodes_internal fuel store cur_trie c new_trie)
            (\<lambda>c m. case owned_add_node (Extension pre c) m of (j, m) \<Rightarrow> (Ok j, m))
      | Some (Digest digest) \<Rightarrow>
          (case b256_from_slice digest of
             None \<Rightarrow> (Panic LengthMismatch, new_trie)
           | Some d \<Rightarrow>
               (case store d of
                  Some trie \<Rightarrow> resolve_nodes_internal fuel store trie (root_id trie) new_trie
                | None \<Rightarrow> (case owned_add_node (Digest digest) new_trie of (j, m) \<Rightarrow> (Ok j, m)))))"

text \<open>The assertion of a debug build, that the root hash has not changed, is not part of the model.\<close>

definition resolve_nodes :: "nat \<Rightarrow> mpt \<Rightarrow> node_store \<Rightarrow> (mpt_error, mpt) outcome" where
  "resolve_nodes fuel root store =
     (case resolve_nodes_internal fuel store root (root_id root) owned_default of
        (Ok i, m) \<Rightarrow> Ok (m\<lparr>root_id := i\<rparr>)
      | (Err e, _) \<Rightarrow> Err e
      | (Panic p, _) \<Rightarrow> Panic p)"

definition mpt_from_proof :: "nat \<Rightarrow> ext \<Rightarrow> mpt list \<Rightarrow> (mpt_error, mpt) outcome" where
  "mpt_from_proof fuel E proof_nodes =
     (case proof_nodes of
        [] \<Rightarrow> Ok owned_default
      | root_node # _ \<Rightarrow>
          (case store_nodes E proof_nodes (\<lambda>_. None) of
             (Ok _, store) \<Rightarrow> resolve_nodes fuel root_node store
           | (Err e, _) \<Rightarrow> Err e
           | (Panic p, _) \<Rightarrow> Panic p))"

definition is_not_included :: "nat \<Rightarrow> ext \<Rightarrow> bytes \<Rightarrow> mpt list \<Rightarrow> (mpt_error, bool) outcome" where
  "is_not_included fuel E key proof_nodes =
     (case mpt_from_proof fuel E proof_nodes of
        Ok trie \<Rightarrow>
          (case get trie key of Ok val \<Rightarrow> Ok (val = None) | Err e \<Rightarrow> Err e | Panic p \<Rightarrow> Panic p)
      | Err e \<Rightarrow> Err e
      | Panic p \<Rightarrow> Panic p)"

definition shorten_node_path :: "mpt \<Rightarrow> (mpt_error, mpt list) outcome" where
  "shorten_node_path node =
     (case node_at node (root_id node) of
        None \<Rightarrow> Panic UnwrapNone
      | Some (Leaf pre val) \<Rightarrow>
          (let nibs = prefix_to_nibs pre in
           Ok (map (\<lambda>i. owned_set_node (root_id owned_default)
                  (Leaf (to_encoded_path (drop i nibs) True) val) owned_default)
                [0..<Suc (length nibs)]))
      | Some (Extension pre c) \<Rightarrow>
          (let nibs = prefix_to_nibs pre in
           Ok (map (\<lambda>i. let t = from_trie node in
                  owned_set_node (root_id t) (Extension (to_encoded_path (drop i nibs) False) c) t)
                [0..<Suc (length nibs)]))
      | Some _ \<Rightarrow> Ok [])"

definition add_orphaned_leafs ::
  "nat \<Rightarrow> ext \<Rightarrow> raw_codec \<Rightarrow> bytes \<Rightarrow> bytes list \<Rightarrow> node_store \<Rightarrow> (mpt_error, unit) outcome \<times> node_store" where
  "add_orphaned_leafs fuel E R key proof store =
     (if proof = [] then (Ok (), store)
      else
        and_then (parse_proof E R proof, store) (\<lambda>proof_nodes store.
        and_then (is_not_included fuel E (keccak256 E key) proof_nodes, store) (\<lambda>absent store.
          if \<not> absent then (Ok (), store)
          else if proof_nodes = [] then (Panic UnwrapNone, store)
          else
            and_then (shorten_node_path (last proof_nodes), store) (\<lambda>tries store.
              store_nodes E tries store))))"

definition node_from_digest :: "ext \<Rightarrow> bytes \<Rightarrow> mpt" where
  "node_from_digest E digest =
     (if digest = EMPTY_ROOT_HASH E \<or> digest = replicate 32 0 then owned_default
      else owned_set_node (root_id owned_default) (Digest digest) owned_default)"

text \<open>What the code reads of an account proof of the RPC library.\<close>

record account_proof =
  ap_proof :: "bytes list"
  ap_storage_root :: bytes
  ap_storage_proofs :: "(bytes \<times> bytes list) list"

primrec process_storage_proofs ::
  "ext \<Rightarrow> raw_codec \<Rightarrow> (bytes \<times> bytes list) list \<Rightarrow> mpt \<Rightarrow> node_store \<Rightarrow>
   (mpt_error, mpt) outcome \<times> node_store" where
  "process_storage_proofs E R [] root store = (Ok root, store)"
| "process_storage_proofs E R (sp # sps) root store =
     and_then (process_proof E R (snd sp) store) (\<lambda>r store.
       process_storage_proofs E R sps (case r of None \<Rightarrow> root | Some t \<Rightarrow> t) store)"

primrec add_orphaned_storage ::
  "nat \<Rightarrow> ext \<Rightarrow> raw_codec \<Rightarrow> (bytes \<times> bytes list) list \<Rightarrow> node_store \<Rightarrow>
   (mpt_error, unit) outcome \<times> node_store" where
  "add_orphaned_storage fuel E R [] store = (Ok (), store)"
| "add_orphaned_storage fuel E R (sp # sps) store =
     and_then (add_orphaned_leafs fuel E R (fst sp) (snd sp) store) (\<lambda>_ store.
       add_orphaned_storage fuel E R sps store)"

definition build_storage_trie ::
  "nat \<Rightarrow> ext \<Rightarrow> raw_codec \<Rightarrow> account_proof \<Rightarrow> account_proof \<Rightarrow> (mpt_error, mpt) outcome" where
  "build_storage_trie fuel E R proof fini_proofs =
     (if ap_storage_proofs proof = [] then Ok (node_from_digest E (ap_storage_root proof))
      else
        (case process_storage_proofs E R (ap_storage_proofs proof) owned_default (\<lambda>_. None) of
           (Ok root, store) \<Rightarrow>
             (case add_orphaned_storage fuel E R (ap_storage_proofs fini_proofs) store of
                (Ok _, store) \<Rightarrow> resolve_nodes fuel root store
              | (Err e, _) \<Rightarrow> Err e
              | (Panic p, _) \<Rightarrow> Panic p)
         | (Err e, _) \<Rightarrow> Err e
         | (Panic p, _) \<Rightarrow> Panic p))"

text \<open>
  The loop over the accounts. The accumulator holds the root of the state trie seen last, the
  store of state nodes and the storage tries built so far.
\<close>

type_synonym import_acc = "mpt \<times> node_store \<times> (bytes \<Rightarrow> mpt option)"

primrec import_accounts ::
  "nat \<Rightarrow> ext \<Rightarrow> raw_codec \<Rightarrow> (bytes \<Rightarrow> account_proof option) \<Rightarrow> (bytes \<times> account_proof) list \<Rightarrow>
   import_acc \<Rightarrow> (mpt_error, import_acc) outcome" where
  "import_accounts fuel E R proofs [] acc = Ok acc"
| "import_accounts fuel E R proofs (a # as) acc =
     (case acc of (root, store, tries) \<Rightarrow>
      (case process_proof E R (ap_proof (snd a)) store of
         (Ok r, store) \<Rightarrow>
           (case proofs (fst a) of
              None \<Rightarrow> Panic UnwrapNone
            | Some fini \<Rightarrow>
                (case add_orphaned_leafs fuel E R (fst a) (ap_proof fini) store of
                   (Ok _, store) \<Rightarrow>
                     (case build_storage_trie fuel E R (snd a) fini of
                        Ok t \<Rightarrow>
                          import_accounts fuel E R proofs as
                            ((case r of None \<Rightarrow> root | Some t \<Rightarrow> t), store,
                             tries(keccak256 E (fst a) \<mapsto> t))
                      | Err e \<Rightarrow> Err e
                      | Panic p \<Rightarrow> Panic p)
                 | (Err e, _) \<Rightarrow> Err e
                 | (Panic p, _) \<Rightarrow> Panic p))
       | (Err e, _) \<Rightarrow> Err e
       | (Panic p, _) \<Rightarrow> Panic p))"

definition transition_proofs_to_tries ::
  "nat \<Rightarrow> ext \<Rightarrow> raw_codec \<Rightarrow> bytes \<Rightarrow> (bytes \<times> account_proof) list \<Rightarrow> (bytes \<Rightarrow> account_proof option) \<Rightarrow>
   (mpt_error, ethereum_state) outcome" where
  "transition_proofs_to_tries fuel E R state_root parent_proofs proofs =
     (if parent_proofs = [] then
        Ok \<lparr>state_trie = node_from_digest E state_root, storage_tries = (\<lambda>_. None)\<rparr>
      else
        (case import_accounts fuel E R proofs parent_proofs (owned_default, (\<lambda>_. None), (\<lambda>_. None)) of
           Ok (root, store, tries) \<Rightarrow>
             (case resolve_nodes fuel root store of
                Ok t \<Rightarrow> Ok \<lparr>state_trie = t, storage_tries = tries\<rparr>
              | Err e \<Rightarrow> Err e
              | Panic p \<Rightarrow> Panic p)
         | Err e \<Rightarrow> Err e
         | Panic p \<Rightarrow> Panic p))"

section \<open>The node-store resolver\<close>

primrec resolve_internal ::
  "nat \<Rightarrow> ext \<Rightarrow> raw_codec \<Rightarrow> (bytes \<Rightarrow> bytes option) \<Rightarrow> proof_decoder" where
  "resolve_internal 0 E R store bs m = (Panic StackOverflow, m)"
| "resolve_internal (Suc fuel) E R store bs m =
     and_then (lift_rlp (decode_raw R bs), m) (\<lambda>view m.
       case view of
         PvString item \<Rightarrow>
           (if length item = 0 then (Ok NULL_NODE_ID, m)
            else if length item = 32 then
              (case store item of
                 Some resolved \<Rightarrow> resolve_internal fuel E R store resolved m
               | None \<Rightarrow> (case owned_add_node (Digest item) m of (i, m) \<Rightarrow> (Ok i, m)))
            else (Err (RlpError UnexpectedLength), m))
       | PvList items \<Rightarrow>
           (if length items = 2 then
              and_then (lift_rlp (decode_bytes R (items ! 0)), m) (\<lambda>path m.
                case path of
                  [] \<Rightarrow> (Panic IndexOutOfBounds, m)
                | flag # _ \<Rightarrow>
                    (if flag AND 0x20 = 0 then
                       and_then (resolve_internal fuel E R store (items ! 1) m) (\<lambda>c m.
                         case owned_add_node (Extension path c) m of (i, m) \<Rightarrow> (Ok i, m))
                     else
                       and_then (lift_rlp (decode_bytes R (items ! 1)), m) (\<lambda>val m.
                         case owned_add_node (Leaf path val) m of (i, m) \<Rightarrow> (Ok i, m))))
            else if length items = 17 then
              (if items ! 16 \<noteq> NULL_NODE_REF_SLICE E then (Err ValueInBranch, m)
               else
                 and_then (proof_children (resolve_internal fuel E R store) (take 16 items) m)
                   (\<lambda>childs m. case owned_add_node (Branch childs) m of (i, m) \<Rightarrow> (Ok i, m)))
            else (Err (RlpError UnexpectedLength), m)))"

definition resolve ::
  "nat \<Rightarrow> ext \<Rightarrow> raw_codec \<Rightarrow> (bytes \<Rightarrow> bytes option) \<Rightarrow> bytes \<Rightarrow> (mpt_error, mpt) outcome" where
  "resolve fuel E R store root =
     (let rlp_root = (EMPTY_STRING_CODE E + 32) # root in
      case resolve_internal fuel E R store rlp_root owned_default of
        (Ok i, m) \<Rightarrow> Ok (m\<lparr>root_id := i\<rparr>)
      | (Err e, _) \<Rightarrow> Err e
      | (Panic p, _) \<Rightarrow> Panic p)"

end
