(* ===== verification/Rpc_Db.thy ===== *)
theory Rpc_Db
  imports Client_Exec Proof_Import "HOL-Library.AList"
begin

text \<open>
  Model of \<^verbatim>\<open>crates/storage/rpc-db/src/lib.rs\<close>, the database the host executes a block on, and of
  \<^verbatim>\<open>crates/primitives/src/account_proof.rs\<close>. The database asks an RPC provider and remembers what
  was asked; the host later fetches proofs for exactly these accounts and slots.

  The provider is a remote service: a record of functions from a request to an error message or an
  answer. Its hash maps are association lists, in the order in which a loop meets the entries.
\<close>

section \<open>The provider\<close>

record rpc_block =
  rb_block :: eth_block
  rb_hash :: bytes

record eip1186_proof =
  ep_address :: bytes
  ep_balance :: u256
  ep_code_hash :: bytes
  ep_nonce :: u64
  ep_storage_hash :: bytes
  ep_account_proof :: "bytes list"
  ep_storage_proof :: "(bytes \<times> u256 \<times> bytes list) list"

record provider =
  get_block_by_number :: "u64 \<Rightarrow> string + rpc_block option"
  get_proof :: "bytes \<Rightarrow> bytes list \<Rightarrow> u64 \<Rightarrow> string + eip1186_proof"
  get_code_at :: "bytes \<Rightarrow> u64 \<Rightarrow> string + bytes"
  get_storage_at :: "bytes \<Rightarrow> u256 \<Rightarrow> u64 \<Rightarrow> string + u256"

text \<open>The proof type the tries are built from, with the fields only the conversion fills.\<close>

record full_account_proof = account_proof +
  ap_address :: bytes
  ap_info :: "(u64 \<times> u256 \<times> bytes) option"
  ap_storage_values :: "u256 list"

definition eip1186_proof_to_account_proof :: "ext \<Rightarrow> eip1186_proof \<Rightarrow> full_account_proof" where
  "eip1186_proof_to_account_proof E p =
     (let absent = ep_nonce p = 0 \<and> ep_balance p = 0 \<and> ep_storage_hash p = replicate 32 0
            \<and> ep_code_hash p = replicate 32 0 in
      \<lparr>ap_proof = ep_account_proof p,
       ap_storage_root = (if absent then EMPTY_ROOT_HASH E else ep_storage_hash p),
       ap_storage_proofs = map (\<lambda>(key, _, proof). (key, proof)) (ep_storage_proof p),
       ap_address = ep_address p,
       ap_info = (if absent then None else Some (ep_nonce p, ep_balance p, ep_code_hash p)),
       ap_storage_values = map (\<lambda>(_, value, _). value) (ep_storage_proof p)\<rparr>)"

section \<open>The database\<close>

record rpc_account = account_info +
  info_code :: "bytes option"

record rpc_db =
  rdb_block :: u64
  rdb_accounts :: "(bytes \<times> rpc_account) list"
  rdb_storage :: "(bytes \<times> (u256 \<times> u256) list) list"
  rdb_oldest_ancestor :: u64

datatype rpc_db_error = RpcError string | BlockNotFound | PreimageNotFound

definition rpc_db_new :: "u64 \<Rightarrow> rpc_db" where
  "rpc_db_new block = \<lparr>rdb_block = block, rdb_accounts = [], rdb_storage = [], rdb_oldest_ancestor = block\<rparr>"

type_synonym 'a rpc_call = "rpc_db \<Rightarrow> (rpc_db_error, 'a) outcome \<times> rpc_db"

definition rpc :: "string + 'a \<Rightarrow> (rpc_db_error, 'a) outcome" where
  "rpc r = (case r of Inl e \<Rightarrow> Err (RpcError e) | Inr a \<Rightarrow> Ok a)"

definition fetch_account_info :: "provider \<Rightarrow> client_ext \<Rightarrow> bytes \<Rightarrow> rpc_account rpc_call" where
  "fetch_account_info P X address db =
     and_then (rpc (get_proof P address [] (rdb_block db)), db) (\<lambda>proof db.
     and_then (rpc (get_code_at P address (rdb_block db)), db) (\<lambda>code db.
       let info = \<lparr>info_nonce = ep_nonce proof, info_balance = ep_balance proof,
                   info_code_hash = bytecode_hash X code, info_code = Some code\<rparr> in
       (Ok info, db\<lparr>rdb_accounts := AList.update address info (rdb_accounts db)\<rparr>)))"

definition slots_of :: "(bytes \<times> (u256 \<times> u256) list) list \<Rightarrow> bytes \<Rightarrow> (u256 \<times> u256) list" where
  "slots_of storage address = (case map_of storage address of None \<Rightarrow> [] | Some slots \<Rightarrow> slots)"

definition fetch_storage_at :: "provider \<Rightarrow> bytes \<Rightarrow> u256 \<Rightarrow> u256 rpc_call" where
  "fetch_storage_at P address index db =
     and_then (rpc (get_storage_at P address index (rdb_block db)), db) (\<lambda>value db.
       (Ok value, db\<lparr>rdb_storage :=
          AList.update address (AList.update index value (slots_of (rdb_storage db) address)) (rdb_storage db)\<rparr>))"

definition fetch_block_hash :: "provider \<Rightarrow> u64 \<Rightarrow> bytes rpc_call" where
  "fetch_block_hash P number db =
     and_then (rpc (get_block_by_number P number), db) (\<lambda>block db.
       case block of
         None \<Rightarrow> (Err BlockNotFound, db)
       | Some block \<Rightarrow> (Ok (rb_hash block), db\<lparr>rdb_oldest_ancestor := min number (rdb_oldest_ancestor db)\<rparr>))"

text \<open>The keys of the inner maps, sorted; an address may occur in both maps and is listed once.\<close>

definition get_state_requests :: "rpc_db \<Rightarrow> (bytes \<times> u256 list) list" where
  "get_state_requests db =
     map (\<lambda>address. (address, sort (remdups (map fst (slots_of (rdb_storage db) address)))))
       (remdups (map fst (rdb_accounts db) @ map fst (rdb_storage db)))"

text \<open>The map from hashes to codes is sorted, and a later code with the same hash replaces an earlier one.\<close>

definition get_bytecodes :: "client_ext \<Rightarrow> rpc_db \<Rightarrow> bytes list" where
  "get_bytecodes X db =
     map snd (sort_key fst (foldl (\<lambda>m code. AList.update (bytecode_hash X code) code m) []
       (List.map_filter (\<lambda>a. info_code (snd a)) (rdb_accounts db))))"

section \<open>The database interface\<close>

text \<open>
  \<open>runtime\<close>: whether a Tokio runtime is present. \<open>keccak_empty\<close> is the code hash of the default
  account; two accounts are equal when nonce, balance and code hash are.
\<close>

datatype provider_error = NoTokioRuntime | RpcDbFailed rpc_db_error

definition blocking :: "bool \<Rightarrow> (rpc_db_error, 'a) outcome \<times> rpc_db \<Rightarrow> rpc_db \<Rightarrow> (provider_error, 'a) outcome \<times> rpc_db" where
  "blocking runtime r db =
     (if \<not> runtime then (Err NoTokioRuntime, db)
      else (case fst r of Ok a \<Rightarrow> Ok a | Err e \<Rightarrow> Err (RpcDbFailed e) | Panic p \<Rightarrow> Panic p, snd r))"

definition rpc_basic_ref ::
  "bool \<Rightarrow> bytes \<Rightarrow> provider \<Rightarrow> client_ext \<Rightarrow> bytes \<Rightarrow> rpc_db \<Rightarrow> (provider_error, account_info option) outcome \<times> rpc_db" where
  "rpc_basic_ref runtime keccak_empty P X address db =
     and_then (blocking runtime (fetch_account_info P X address db) db) (\<lambda>info db.
       if info_nonce info = 0 \<and> info_balance info = 0 \<and> info_code_hash info = keccak_empty then (Ok None, db)
       else (Ok (Some (account_info.truncate info)), db))"

definition rpc_code_by_hash_ref :: "bytes \<Rightarrow> rpc_db \<Rightarrow> (provider_error, bytes) outcome \<times> rpc_db" where
  "rpc_code_by_hash_ref code_hash db = (Panic Unimplemented, db)"

definition rpc_storage_ref ::
  "bool \<Rightarrow> provider \<Rightarrow> bytes \<Rightarrow> u256 \<Rightarrow> rpc_db \<Rightarrow> (provider_error, u256) outcome \<times> rpc_db" where
  "rpc_storage_ref runtime P address index db = blocking runtime (fetch_storage_at P address index db) db"

definition rpc_block_hash_ref ::
  "bool \<Rightarrow> provider \<Rightarrow> u64 \<Rightarrow> rpc_db \<Rightarrow> (provider_error, bytes) outcome \<times> rpc_db" where
  "rpc_block_hash_ref runtime P number db = blocking runtime (fetch_block_hash P number db) db"

end
