(* ===== verification/Host_Executor.thy ===== *)
theory Host_Executor
  imports Rpc_Db
begin

text \<open>
  Model of \<^verbatim>\<open>HostExecutor::execute\<close> of \<^verbatim>\<open>crates/executor/host/src/lib.rs\<close>: the host executes the block
  on the RPC database, fetches proofs for everything that was asked, builds the tries of the witness
  from them and collects the client's input.

  The EVM with its cache is library code: \<open>B block\<close> is the program of the queries that reach the RPC
  database. \<open>env\<close> collects the other parameters.
\<close>

datatype host_error =
    FetchFailed string
  | BlockMissing u64
  | RecoveryFailed string
  | ConsensusFailed string
  | HostDatabaseError provider_error
  | HostEvmError string
  | PostExecutionFailed string
  | TrieFailed mpt_error

record host_env =
  env_ext :: ext
  env_hashes :: client_ext
  env_lib :: exec_lib
  env_raw :: raw_codec
  env_provider :: provider
  env_runtime :: bool
  env_keccak_empty :: bytes
  env_fuel :: nat

section \<open>Execution on the RPC database\<close>

definition host_ask ::
  "(provider_error, 'a) outcome \<times> rpc_db \<Rightarrow> ('a \<Rightarrow> rpc_db \<Rightarrow> (host_error, 'b) outcome \<times> rpc_db) \<Rightarrow>
   (host_error, 'b) outcome \<times> rpc_db" where
  "host_ask r k =
     and_then (case fst r of Ok a \<Rightarrow> Ok a | Err e \<Rightarrow> Err (HostDatabaseError e) | Panic p \<Rightarrow> Panic p, snd r) k"

primrec run_rpc :: "host_env \<Rightarrow> evm \<Rightarrow> rpc_db \<Rightarrow> (host_error, execution_output) outcome \<times> rpc_db" where
  "run_rpc H (EvmDone out) db = (Ok out, db)"
| "run_rpc H (EvmFail e) db = (Err (HostEvmError e), db)"
| "run_rpc H (QBasic address k) db =
     host_ask (rpc_basic_ref (env_runtime H) (env_keccak_empty H) (env_provider H) (env_hashes H) address db)
       (\<lambda>acc db. run_rpc H (k acc) db)"
| "run_rpc H (QCode code_hash k) db =
     host_ask (rpc_code_by_hash_ref code_hash db) (\<lambda>code db. run_rpc H (k code) db)"
| "run_rpc H (QStorage address index k) db =
     host_ask (rpc_storage_ref (env_runtime H) (env_provider H) address index db) (\<lambda>v db. run_rpc H (k v) db)"
| "run_rpc H (QBlockHash number k) db =
     host_ask (rpc_block_hash_ref (env_runtime H) (env_provider H) number db) (\<lambda>h db. run_rpc H (k h) db)"

section \<open>The steps\<close>

definition fetched :: "string + 'a \<Rightarrow> (host_error, 'a) outcome" where
  "fetched r = (case r of Inl e \<Rightarrow> Err (FetchFailed e) | Inr a \<Rightarrow> Ok a)"

text \<open>A missing block is reported with the number of the block to execute, also for its parent.\<close>

definition fetch_block :: "host_env \<Rightarrow> u64 \<Rightarrow> u64 \<Rightarrow> (host_error, eth_block) outcome" where
  "fetch_block H number reported =
     (case fetched (get_block_by_number (env_provider H) number) of
        Ok (Some block) \<Rightarrow> Ok (rb_block block)
      | Ok None \<Rightarrow> Err (BlockMissing reported)
      | Err e \<Rightarrow> Err e
      | Panic p \<Rightarrow> Panic p)"

definition host_check_block :: "exec_lib \<Rightarrow> eth_block \<Rightarrow> (host_error, unit) outcome" where
  "host_check_block L block =
     (case fail_with RecoveryFailed (try_into_recovered L block) of
        Ok _ \<Rightarrow>
          (case fail_with ConsensusFailed (validate_header L Mainnet (blk_header block)) of
             Ok _ \<Rightarrow> fail_with ConsensusFailed (validate_block_pre_execution L Mainnet block)
           | r \<Rightarrow> r)
      | r \<Rightarrow> r)"

text \<open>Sets of storage keys are sorted lists without duplicates.\<close>

definition key_list :: "bytes list \<Rightarrow> bytes list" where
  "key_list keys = sort (remdups keys)"

definition modified_keys :: "bundle_state \<Rightarrow> bytes \<Rightarrow> bytes list" where
  "modified_keys state address =
     (case map_of state address of
        None \<Rightarrow> []
      | Some account \<Rightarrow> key_list (map (to_be_bytes_32 \<circ> fst) (acct_storage account)))"

definition proof_keys :: "bundle_state \<Rightarrow> bytes \<Rightarrow> u256 list \<Rightarrow> bytes list" where
  "proof_keys state address used_keys = key_list (map to_be_bytes_32 used_keys @ modified_keys state address)"

primrec fetch_proofs ::
  "host_env \<Rightarrow> u64 \<Rightarrow> bundle_state \<Rightarrow> (bytes \<times> u256 list) list \<Rightarrow>
   (host_error, full_account_proof list \<times> full_account_proof list) outcome" where
  "fetch_proofs H block_number state [] = Ok ([], [])"
| "fetch_proofs H block_number state (r # requests) =
     (case fetched (get_proof (env_provider H) (fst r) (proof_keys state (fst r) (snd r)) (block_number - 1)) of
        Ok before \<Rightarrow>
          (case fetched (get_proof (env_provider H) (fst r) (modified_keys state (fst r)) block_number) of
             Ok after \<Rightarrow>
               (case fetch_proofs H block_number state requests of
                  Ok (befores, afters) \<Rightarrow>
                    Ok (eip1186_proof_to_account_proof (env_ext H) before # befores,
                        eip1186_proof_to_account_proof (env_ext H) after # afters)
                | Err e \<Rightarrow> Err e
                | Panic p \<Rightarrow> Panic p)
           | Err e \<Rightarrow> Err e
           | Panic p \<Rightarrow> Panic p)
      | Err e \<Rightarrow> Err e
      | Panic p \<Rightarrow> Panic p)"

text \<open>Collecting the proofs into a map from addresses: a later proof for an address wins.\<close>

definition by_address :: "full_account_proof list \<Rightarrow> (bytes \<times> account_proof) list" where
  "by_address proofs = foldl (\<lambda>m p. AList.update (ap_address p) (account_proof.truncate p) m) [] proofs"

text \<open>The loop \<^verbatim>\<open>for height in (oldest..=(block_number - 1)).rev()\<close>.\<close>

definition ancestor_heights :: "u64 \<Rightarrow> u64 \<Rightarrow> u64 list" where
  "ancestor_heights oldest newest = map of_nat (rev [unat oldest..<Suc (unat newest)])"

primrec fetch_headers :: "host_env \<Rightarrow> u64 list \<Rightarrow> (host_error, block_header list) outcome" where
  "fetch_headers H [] = Ok []"
| "fetch_headers H (height # heights) =
     (case fetched (get_block_by_number (env_provider H) height) of
        Ok (Some block) \<Rightarrow>
          (case fetch_headers H heights of
             Ok headers \<Rightarrow> Ok (blk_header (rb_block block) # headers)
           | Err e \<Rightarrow> Err e
           | Panic p \<Rightarrow> Panic p)
      | Ok None \<Rightarrow> Panic UnwrapNone
      | Err e \<Rightarrow> Err e
      | Panic p \<Rightarrow> Panic p)"

text \<open>From the execution output to the witness state.\<close>

definition witness_state ::
  "host_env \<Rightarrow> u64 \<Rightarrow> eth_block \<Rightarrow> execution_output \<Rightarrow> rpc_db \<Rightarrow>
   (host_error, (bytes \<times> account_proof) list \<times> ethereum_state) outcome" where
  "witness_state H block_number previous out db =
     (case fetch_proofs H block_number (out_bundle out) (get_state_requests db) of
        Ok (befores, afters) \<Rightarrow>
          (case transition_proofs_to_tries (env_fuel H) (env_ext H) (env_raw H)
                  (hdr_state_root (blk_header previous)) (by_address befores) (map_of (by_address afters)) of
             Ok state \<Rightarrow> Ok (by_address befores, state)
           | Err e \<Rightarrow> Err (TrieFailed e)
           | Panic p \<Rightarrow> Panic p)
      | Err e \<Rightarrow> Err e
      | Panic p \<Rightarrow> Panic p)"

text \<open>From the witness state to the client's input.\<close>

definition host_input ::
  "host_env \<Rightarrow> u64 \<Rightarrow> eth_block \<Rightarrow> eth_block \<Rightarrow> execution_output \<Rightarrow> rpc_db \<Rightarrow>
   (bytes \<times> account_proof) list \<times> ethereum_state \<Rightarrow> (host_error, client_input) outcome" where
  "host_input H block_number current previous out db ps =
     (if header_hash (env_hashes H) (result_header (env_hashes H) (env_lib H) current (blk_header previous) out)
           \<noteq> header_hash (env_hashes H) (blk_header current) then Panic AssertionFailed
      else
        (case fetch_headers H (ancestor_heights (rdb_oldest_ancestor db) (block_number - 1)) of
           Ok headers \<Rightarrow>
             (case encode_to_state_bytes (env_ext H) (map (keccak256 (env_ext H) \<circ> fst) (fst ps)) (snd ps) of
                Ok state_bytes \<Rightarrow>
                  Ok \<lparr>ci_current_block = current, ci_ancestor_headers = headers,
                      ci_parent_state_bytes = state_bytes, ci_bytecodes = get_bytecodes (env_hashes H) db\<rparr>
              | Err e \<Rightarrow> Err (TrieFailed e)
              | Panic p \<Rightarrow> Panic p)
         | Err e \<Rightarrow> Err e
         | Panic p \<Rightarrow> Panic p))"

definition host_execute ::
  "host_env \<Rightarrow> (eth_block \<Rightarrow> evm) \<Rightarrow> u64 \<Rightarrow> (host_error, client_input) outcome" where
  "host_execute H B block_number =
     (case fetch_block H block_number block_number of
        Ok current \<Rightarrow>
          (case fetch_block H (block_number - 1) block_number of
             Ok previous \<Rightarrow>
               (case host_check_block (env_lib H) current of
                  Ok _ \<Rightarrow>
                    (case run_rpc H (B current) (rpc_db_new (block_number - 1)) of
                       (Ok out, db) \<Rightarrow>
                         (case fail_with PostExecutionFailed (validate_block_post_execution (env_lib H) Mainnet current out) of
                            Ok _ \<Rightarrow>
                              (case witness_state H block_number previous out db of
                                 Ok ps \<Rightarrow> host_input H block_number current previous out db ps
                               | Err e \<Rightarrow> Err e
                               | Panic p \<Rightarrow> Panic p)
                          | Err e \<Rightarrow> Err e
                          | Panic p \<Rightarrow> Panic p)
                     | (Err e, _) \<Rightarrow> Err e
                     | (Panic p, _) \<Rightarrow> Panic p)
                | Err e \<Rightarrow> Err e
                | Panic p \<Rightarrow> Panic p)
           | Err e \<Rightarrow> Err e
           | Panic p \<Rightarrow> Panic p)
      | Err e \<Rightarrow> Err e
      | Panic p \<Rightarrow> Panic p)"

end
