(* ===== verification/Host_Correct.thy ===== *)
theory Host_Correct
  imports Host_Executor Client_Chain
begin

text \<open>
  The input the host prepares serves the client: whatever the execution asked for on the host is
  among the requested proofs, the bytecodes and the ancestor headers.
\<close>

section \<open>What the execution asked\<close>

datatype query = AskAccount bytes | AskSlot bytes u256 | AskHash u64 bytes

text \<open>The queries of a run that were answered, with the answered hashes.\<close>

primrec rpc_trace :: "host_env \<Rightarrow> evm \<Rightarrow> rpc_db \<Rightarrow> query list" where
  "rpc_trace H (EvmDone out) db = []"
| "rpc_trace H (EvmFail e) db = []"
| "rpc_trace H (QBasic address k) db =
     (case rpc_basic_ref (env_runtime H) (env_keccak_empty H) (env_provider H) (env_hashes H) address db of
        (Ok acc, db) \<Rightarrow> AskAccount address # rpc_trace H (k acc) db | _ \<Rightarrow> [])"
| "rpc_trace H (QCode code_hash k) db = []"
| "rpc_trace H (QStorage address index k) db =
     (case rpc_storage_ref (env_runtime H) (env_provider H) address index db of
        (Ok v, db) \<Rightarrow> AskSlot address index # rpc_trace H (k v) db | _ \<Rightarrow> [])"
| "rpc_trace H (QBlockHash number k) db =
     (case rpc_block_hash_ref (env_runtime H) (env_provider H) number db of
        (Ok h, db) \<Rightarrow> AskHash number h # rpc_trace H (k h) db | _ \<Rightarrow> [])"

text \<open>What the database has recorded of a query.\<close>

primrec recorded_query :: "host_env \<Rightarrow> rpc_db \<Rightarrow> query \<Rightarrow> bool" where
  "recorded_query H db (AskAccount a) \<longleftrightarrow> (\<exists>info code. map_of (rdb_accounts db) a = Some info
     \<and> info_code info = Some code \<and> get_code_at (env_provider H) a (rdb_block db) = Inr code)"
| "recorded_query H db (AskSlot a i) \<longleftrightarrow> i \<in> fst ` set (slots_of (rdb_storage db) a) \<and> a \<in> fst ` set (rdb_storage db)"
| "recorded_query H db (AskHash n h) \<longleftrightarrow> rdb_oldest_ancestor db \<le> n
     \<and> (\<exists>block. get_block_by_number (env_provider H) n = Inr (Some block) \<and> rb_hash block = h)"

text \<open>Later queries keep what is recorded.\<close>

definition db_extends :: "host_env \<Rightarrow> rpc_db \<Rightarrow> rpc_db \<Rightarrow> bool" where
  "db_extends H db db' \<longleftrightarrow> rdb_block db' = rdb_block db \<and> rdb_oldest_ancestor db' \<le> rdb_oldest_ancestor db
     \<and> (\<forall>q. recorded_query H db q \<longrightarrow> recorded_query H db' q)"

lemma db_extends_trans: "db_extends H a b \<Longrightarrow> db_extends H b c \<Longrightarrow> db_extends H a c"
  by (auto simp: db_extends_def)

lemma db_extends_refl [simp]: "db_extends H db db"
  by (simp add: db_extends_def)

lemma rpc_Ok: "rpc r = Ok a \<longleftrightarrow> r = Inr a"
  by (auto simp: rpc_def split: sum.split)

lemma blocking_Ok: "blocking b r db = (Ok a, db') \<longleftrightarrow> b \<and> r = (Ok a, db')"
  by (cases r) (auto simp: blocking_def split: outcome.split)

lemma account_recorded:
  assumes "fetch_account_info P X a db = (Ok info, db')" "P = env_provider H"
  shows "db_extends H db db' \<and> recorded_query H db' (AskAccount a)"
proof -
  from assms obtain code where c: "get_code_at (env_provider H) a (rdb_block db) = Inr code"
    "info_code info = Some code" "db' = db\<lparr>rdb_accounts := AList.update a info (rdb_accounts db)\<rparr>"
    by (auto simp: fetch_account_info_def Let_def rpc_Ok elim!: and_then_OkE)
  have "recorded_query H db q \<Longrightarrow> recorded_query H db' q" for q
    using c by (cases q) (auto simp: update_conv' split: if_splits)
  with c show ?thesis by (auto simp: db_extends_def update_conv')
qed

lemma slots_of_update:
  "slots_of (AList.update a m storage) b = (if b = a then m else slots_of storage b)"
  by (simp add: slots_of_def update_conv')

lemma slot_recorded:
  assumes "fetch_storage_at P a i db = (Ok v, db')"
  shows "db_extends H db db' \<and> recorded_query H db' (AskSlot a i)"
proof -
  from assms have db': "db' = db\<lparr>rdb_storage :=
      AList.update a (AList.update i v (slots_of (rdb_storage db) a)) (rdb_storage db)\<rparr>"
    by (auto simp: fetch_storage_at_def rpc_Ok elim!: and_then_OkE)
  have "recorded_query H db q \<Longrightarrow> recorded_query H db' q" for q
    using db' by (cases q) (auto simp: slots_of_update dom_update)
  with db' show ?thesis by (auto simp: db_extends_def slots_of_update dom_update)
qed

lemma hash_recorded:
  assumes "fetch_block_hash P n db = (Ok h, db')" "P = env_provider H"
  shows "db_extends H db db' \<and> recorded_query H db' (AskHash n h)"
proof -
  from assms obtain block where b: "get_block_by_number (env_provider H) n = Inr (Some block)" "rb_hash block = h"
    "db' = db\<lparr>rdb_oldest_ancestor := min n (rdb_oldest_ancestor db)\<rparr>"
    by (auto simp: fetch_block_hash_def rpc_Ok elim!: and_then_OkE split: option.splits)
  have "recorded_query H db q \<Longrightarrow> recorded_query H db' q" for q
    using b by (cases q) (auto simp: min.coboundedI2)
  with b show ?thesis by (auto simp: db_extends_def)
qed

lemma host_ask_Ok:
  "host_ask r k = (Ok b, s') \<longleftrightarrow> (\<exists>a s. r = (Ok a, s) \<and> k a s = (Ok b, s'))"
  by (cases r; cases "fst r") (auto simp: host_ask_def)

lemma trace_step:
  assumes "db_extends H db db1 \<and> recorded_query H db1 q" "db_extends H db1 db' \<and> (\<forall>q \<in> set tr. recorded_query H db' q)"
  shows "db_extends H db db' \<and> (\<forall>q \<in> set (q # tr). recorded_query H db' q)"
proof -
  have "recorded_query H db' q" using assms by (simp add: db_extends_def)
  with assms db_extends_trans [of H db db1 db'] show ?thesis by simp
qed

lemma run_recorded:
  "run_rpc H e db = (Ok out, db') \<Longrightarrow>
   db_extends H db db' \<and> (\<forall>q \<in> set (rpc_trace H e db). recorded_query H db' q)"
proof (induction e arbitrary: db)
  case (QBasic a k)
  from QBasic.prems obtain acc db1 where q: "rpc_basic_ref (env_runtime H) (env_keccak_empty H) (env_provider H)
      (env_hashes H) a db = (Ok acc, db1)" "run_rpc H (k acc) db1 = (Ok out, db')" by (auto simp: host_ask_Ok)
  from q(1) obtain info where "fetch_account_info (env_provider H) (env_hashes H) a db = (Ok info, db1)"
    by (auto simp: rpc_basic_ref_def blocking_Ok elim!: and_then_OkE split: if_splits)
  with account_recorded have "db_extends H db db1 \<and> recorded_query H db1 (AskAccount a)" by blast
  from trace_step [OF this QBasic.IH [OF _ q(2)]] q(1) show ?case by simp
next
  case (QStorage a i k)
  from QStorage.prems obtain v db1 where q: "rpc_storage_ref (env_runtime H) (env_provider H) a i db = (Ok v, db1)"
    "run_rpc H (k v) db1 = (Ok out, db')" by (auto simp: host_ask_Ok)
  then have "db_extends H db db1 \<and> recorded_query H db1 (AskSlot a i)"
    using slot_recorded unfolding rpc_storage_ref_def blocking_Ok by blast
  from trace_step [OF this QStorage.IH [OF _ q(2)]] q(1) show ?case by simp
next
  case (QBlockHash n k)
  from QBlockHash.prems obtain h db1 where q: "rpc_block_hash_ref (env_runtime H) (env_provider H) n db = (Ok h, db1)"
    "run_rpc H (k h) db1 = (Ok out, db')" by (auto simp: host_ask_Ok)
  then have "db_extends H db db1 \<and> recorded_query H db1 (AskHash n h)"
    using hash_recorded unfolding rpc_block_hash_ref_def blocking_Ok by blast
  from trace_step [OF this QBlockHash.IH [OF _ q(2)]] q(1) show ?case by simp
qed (auto simp: host_ask_Ok rpc_code_by_hash_ref_def)

section \<open>What the input contains\<close>

text \<open>Whether the requested proofs, bytecodes and headers of a database cover a query.\<close>

definition code_hashes :: "client_ext \<Rightarrow> bytes list \<Rightarrow> bytes set" where
  "code_hashes X codes = bytecode_hash X ` set codes"

primrec covered :: "host_env \<Rightarrow> rpc_db \<Rightarrow> query \<Rightarrow> bool" where
  "covered H db (AskAccount a) \<longleftrightarrow> a \<in> fst ` set (get_state_requests db)
     \<and> (\<exists>code. get_code_at (env_provider H) a (rdb_block db) = Inr code
          \<and> bytecode_hash (env_hashes H) code \<in> code_hashes (env_hashes H) (get_bytecodes (env_hashes H) db))"
| "covered H db (AskSlot a i) \<longleftrightarrow> (\<exists>keys. (a, keys) \<in> set (get_state_requests db) \<and> i \<in> set keys)"
| "covered H db (AskHash n h) \<longleftrightarrow> rdb_oldest_ancestor db \<le> n"

lemma request_account: "a \<in> fst ` set (rdb_accounts db) \<Longrightarrow> a \<in> fst ` set (get_state_requests db)"
  by (auto simp: get_state_requests_def image_image)

lemma request_slot:
  "a \<in> fst ` set (rdb_storage db) \<Longrightarrow> i \<in> fst ` set (slots_of (rdb_storage db) a) \<Longrightarrow>
   \<exists>keys. (a, keys) \<in> set (get_state_requests db) \<and> i \<in> set keys"
  by (intro exI [of _ "sort (remdups (map fst (slots_of (rdb_storage db) a)))"]) (auto simp: get_state_requests_def)

lemma bytecodes_hashes:
  "code_hashes X (get_bytecodes X db) =
     bytecode_hash X ` set (List.map_filter (\<lambda>a. info_code (snd a)) (rdb_accounts db))"
proof -
  let ?step = "\<lambda>m code. AList.update (bytecode_hash X code) code m"
  have "bytecode_hash X ` snd ` set (foldl ?step m codes) = fst ` set m \<union> bytecode_hash X ` set codes
      \<and> (\<forall>e \<in> set (foldl ?step m codes). bytecode_hash X (snd e) = fst e)"
    if "\<forall>e \<in> set m. bytecode_hash X (snd e) = fst e" for m codes
    using that
  proof (induction codes arbitrary: m)
    case Nil
    then show ?case by (force simp: image_image intro!: image_cong)
  next
    case (Cons c codes)
    have "\<forall>e \<in> set (AList.update (bytecode_hash X c) c m). bytecode_hash X (snd e) = fst e"
      using Cons.prems by (induction m) auto
    from Cons.IH [OF this] show ?case by (auto simp: dom_update)
  qed
  from conjunct1 [OF this [of "[]" "List.map_filter (\<lambda>a. info_code (snd a)) (rdb_accounts db)"]] show ?thesis
    by (simp only: code_hashes_def get_bytecodes_def set_map set_sort list.set(1) image_empty Un_empty_left ball_empty
        simp_thms)
qed

lemma recorded_covered: "recorded_query H db q \<Longrightarrow> covered H db q"
proof (cases q)
  case (AskAccount a)
  assume "recorded_query H db q"
  with AskAccount obtain info code where i: "map_of (rdb_accounts db) a = Some info" "info_code info = Some code"
    "get_code_at (env_provider H) a (rdb_block db) = Inr code" by auto
  have "(a, info) \<in> set (rdb_accounts db)" using map_of_SomeD [OF i(1)] .
  with i(2) have "code \<in> set (List.map_filter (\<lambda>a. info_code (snd a)) (rdb_accounts db))"
    by (force simp: List.map_filter_def)
  with AskAccount i(3) request_account [of a db] \<open>(a, info) \<in> set (rdb_accounts db)\<close> show ?thesis
    by (force simp: bytecodes_hashes)
next
  case (AskSlot a i)
  assume "recorded_query H db q"
  with AskSlot request_slot show ?thesis by auto
qed auto

section \<open>Ancestor headers\<close>

text \<open>
  What the protocol promises of a provider: a block is returned under its own number and hash, and it
  names the hash of the block below it.
\<close>

definition honest_chain :: "client_ext \<Rightarrow> provider \<Rightarrow> bool" where
  "honest_chain X P \<longleftrightarrow>
     (\<forall>n b. get_block_by_number P n = Inr (Some b) \<longrightarrow>
        hdr_number (blk_header (rb_block b)) = n \<and> rb_hash b = header_hash X (blk_header (rb_block b)))
     \<and> (\<forall>n b p. get_block_by_number P n = Inr (Some b) \<longrightarrow> get_block_by_number P (n - 1) = Inr (Some p) \<longrightarrow>
        hdr_parent_hash (blk_header (rb_block b)) = rb_hash p)"

lemma fetch_headers_nth:
  "fetch_headers H heights = Ok headers \<Longrightarrow> length headers = length heights
   \<and> (\<forall>i < length heights. \<exists>b. get_block_by_number (env_provider H) (heights ! i) = Inr (Some b)
        \<and> headers ! i = blk_header (rb_block b))"
proof (induction heights arbitrary: headers)
  case (Cons n heights)
  from Cons.prems obtain b hs where "get_block_by_number (env_provider H) n = Inr (Some b)"
    "fetch_headers H heights = Ok hs" "headers = blk_header (rb_block b) # hs"
    by (auto simp: fetched_def split: sum.splits outcome.splits option.splits)
  with Cons.IH show ?case by (auto simp: nth_Cons split: nat.split)
qed simp

lemma linked_nth:
  "(\<forall>i. Suc i < length hs \<longrightarrow> hdr_number (hs ! Suc i) = hdr_number (hs ! i) - 1
      \<and> header_hash X (hs ! Suc i) = hdr_parent_hash (hs ! i)) \<Longrightarrow> linked X hs"
proof (induction X hs rule: linked.induct)
  case (1 X child parent headers)
  have "linked X (parent # headers)"
    by (rule "1.IH") (use "1.prems" in \<open>metis length_Cons nth_Cons_Suc Suc_mono\<close>)
  with "1.prems" [rule_format, of 0] show ?case by simp
qed auto

lemma heights_nth:
  assumes "unat oldest \<le> unat newest" "i < length (ancestor_heights oldest newest)"
  shows "ancestor_heights oldest newest ! i = newest - of_nat i" "i \<le> unat newest"
proof -
  have len: "length (ancestor_heights oldest newest) = Suc (unat newest) - unat oldest"
    using assms(1) by (simp add: ancestor_heights_def Suc_diff_le)
  then show i: "i \<le> unat newest" using assms(2) by simp
  have "ancestor_heights oldest newest ! i = of_nat (unat newest - i)"
    using assms len by (simp add: ancestor_heights_def rev_nth Suc_diff_le del: upt_Suc)
  with i show "ancestor_heights oldest newest ! i = newest - of_nat i" by (simp add: of_nat_diff)
qed

lemma host_execute_parts:
  assumes "host_execute H B n = Ok inp"
  obtains current out db b where "run_rpc H (B current) (rpc_db_new (n - 1)) = (Ok out, db)"
    "get_block_by_number (env_provider H) n = Inr (Some b)" "current = rb_block b" "ci_current_block inp = current"
    "fetch_headers H (ancestor_heights (rdb_oldest_ancestor db) (n - 1)) = Ok (ci_ancestor_headers inp)"
    "ci_bytecodes inp = get_bytecodes (env_hashes H) db"
  using assms
  by (auto simp: host_execute_def host_input_def fetch_block_def fetched_def
      split: outcome.splits prod.splits if_splits sum.splits option.splits)

lemma ancestors_linked:
  assumes chain: "honest_chain X (env_provider H)" and n: "unat oldest \<le> unat (n - 1)"
    and b: "get_block_by_number (env_provider H) n = Inr (Some b)"
    and hs: "fetch_headers H (ancestor_heights oldest (n - 1)) = Ok headers"
  shows "linked X (blk_header (rb_block b) # headers)"
proof (rule linked_nth, intro allI impI)
  let ?hs = "blk_header (rb_block b) # headers" and ?heights = "ancestor_heights oldest (n - 1)"
  have len: "length headers = length ?heights" using fetch_headers_nth [OF hs] by simp
  have block: "\<exists>b. get_block_by_number (env_provider H) (n - of_nat i) = Inr (Some b) \<and> ?hs ! i = blk_header (rb_block b)"
    if "i \<le> length headers" for i
  proof (cases i)
    case (Suc j)
    with that len have j: "j < length ?heights" by simp
    have "?heights ! j = n - of_nat i" using heights_nth(1) [OF n j] Suc by (simp add: algebra_simps)
    with fetch_headers_nth [OF hs] j Suc show ?thesis by auto
  qed (use b in simp)
  fix i assume "Suc i < length ?hs"
  then obtain c p where c: "get_block_by_number (env_provider H) (n - of_nat i) = Inr (Some c)" "?hs ! i = blk_header (rb_block c)"
    and p: "get_block_by_number (env_provider H) (n - of_nat i - 1) = Inr (Some p)" "?hs ! Suc i = blk_header (rb_block p)"
    using block [of i] block [of "Suc i"] by (auto simp: algebra_simps)
  with chain show "hdr_number (?hs ! Suc i) = hdr_number (?hs ! i) - 1 \<and> header_hash X (?hs ! Suc i) = hdr_parent_hash (?hs ! i)"
    unfolding honest_chain_def by metis
qed

lemma ancestor_hash:
  assumes chain: "honest_chain X (env_provider H)" and b: "get_block_by_number (env_provider H) k = Inr (Some b)"
    and hs: "fetch_headers H heights = Ok headers" and k: "k \<in> set heights"
  shows "map_of (map (\<lambda>h. (hdr_number h, header_hash X h)) headers) k = Some (rb_hash b)"
  using hs k
proof (induction heights arbitrary: headers)
  case (Cons n heights)
  from Cons.prems(1) obtain c hs where c: "get_block_by_number (env_provider H) n = Inr (Some c)"
    "fetch_headers H heights = Ok hs" "headers = blk_header (rb_block c) # hs"
    by (auto simp: fetched_def split: sum.splits outcome.splits option.splits)
  have "hdr_number (blk_header (rb_block c)) = n" "rb_hash c = header_hash X (blk_header (rb_block c))"
    using chain c(1) unfolding honest_chain_def by blast+
  with Cons c b show ?case by auto
qed simp

end
