(* ===== verification/Host_Properties.thy ===== *)
theory Host_Properties
  imports Host_Correct Codec_Correct
begin

text \<open>The correctness statements of the host's input, with a two-block chain as example.\<close>

section \<open>An example\<close>

definition chain_header :: "u64 \<Rightarrow> bytes \<Rightarrow> block_header" where
  "chain_header n parent =
     \<lparr>hdr_number = n, hdr_parent_hash = parent, hdr_state_root = EMPTY_ROOT_HASH std_ext, hdr_ommers_hash = [],
      hdr_transactions_root = [], hdr_receipts_root = [], hdr_withdrawals_root = None,
      hdr_logs_bloom = replicate 256 0, hdr_requests_hash = None, hdr_other = []\<rparr>"

definition chain_block :: "u64 \<Rightarrow> bytes \<Rightarrow> bytes \<Rightarrow> rpc_block" where
  "chain_block n parent h =
     \<lparr>rb_block = \<lparr>blk_header = chain_header n parent, blk_transaction_count = 0, blk_body = []\<rparr>, rb_hash = h\<rparr>"

definition chain_provider :: provider where
  "chain_provider =
     \<lparr>get_block_by_number = (\<lambda>n. if n = 1 then Inr (Some (chain_block 1 [] [1]))
        else if n = 2 then Inr (Some (chain_block 2 [1] [2, 1])) else Inr None),
      get_proof = (\<lambda>_ _ _. Inl ''no proofs''), get_code_at = (\<lambda>_ _. Inl ''no code''),
      get_storage_at = (\<lambda>_ _ _. Inr 7)\<rparr>"

definition chain_lib :: exec_lib where
  "chain_lib =
     \<lparr>try_into_recovered = (\<lambda>_. None), validate_header = (\<lambda>_ _. None),
      validate_block_pre_execution = (\<lambda>_ _. None), execute_block = (\<lambda>_ _ _. EvmFail ''''),
      validate_block_post_execution = (\<lambda>_ _ _. None), accrue_bloom = (\<lambda>b _. b),
      calculate_ommers_root = (\<lambda>_. []), calculate_withdrawals_root = (\<lambda>_. None)\<rparr>"

definition chain_env :: host_env where
  "chain_env =
     \<lparr>env_ext = std_ext,
      env_hashes = \<lparr>header_hash = (\<lambda>h. ucast (hdr_number h) # hdr_parent_hash h), bytecode_hash = (\<lambda>c. c)\<rparr>,
      env_lib = chain_lib, env_raw = \<lparr>decode_raw = (\<lambda>_. Inl UnexpectedLength), decode_bytes = (\<lambda>_. Inl UnexpectedLength)\<rparr>,
      env_provider = chain_provider, env_runtime = True, env_keccak_empty = [], env_fuel = 0\<rparr>"

definition chain_out :: execution_output where
  "chain_out = \<lparr>out_bundle = [], out_receipt_blooms = [], out_other = []\<rparr>"

definition chain_evm :: evm where
  "chain_evm = QBlockHash 1 (\<lambda>_. EvmDone chain_out)"

lemma chain_honest: "honest_chain (env_hashes chain_env) chain_provider"
  by (auto simp: honest_chain_def chain_env_def chain_provider_def chain_block_def chain_header_def split: if_splits)

lemma chain_run:
  "run_rpc chain_env chain_evm (rpc_db_new 1) = (Ok chain_out, rpc_db_new 1)"
  "rpc_trace chain_env chain_evm (rpc_db_new 1) = [AskHash 1 [1]]"
  by (simp_all add: chain_evm_def chain_env_def chain_provider_def chain_block_def rpc_block_hash_ref_def
      fetch_block_hash_def blocking_def rpc_def host_ask_def rpc_db_new_def)

lemma chain_state_bytes:
  "\<exists>bs. encode_to_state_bytes std_ext [] \<lparr>state_trie = new, storage_tries = (\<lambda>_. None)\<rparr> = Ok bs"
  using std.encode_trie_repr [OF repr_new] by (auto simp: encode_to_state_bytes_def)

lemma chain_input:
  "\<exists>inp. host_execute chain_env (\<lambda>_. chain_evm) 2 = Ok inp"
proof -
  have blocks: "fetch_block chain_env 2 2 = Ok (rb_block (chain_block 2 [1] [2, 1]))"
    "fetch_block chain_env 1 2 = Ok (rb_block (chain_block 1 [] [1]))"
    "fetch_headers chain_env (ancestor_heights 1 1) = Ok [chain_header 1 []]"
    by (simp_all add: fetch_block_def fetched_def chain_env_def chain_provider_def ancestor_heights_def chain_block_def)
  have lib: "host_check_block chain_lib b = Ok ()" "validate_block_post_execution chain_lib v b out = None" for b v out
    by (simp_all add: host_check_block_def fail_with_def chain_lib_def)
  have req: "get_state_requests (rpc_db_new 1) = []" by (simp add: get_state_requests_def rpc_db_new_def)
  have st: "witness_state chain_env 2 (rb_block (chain_block 1 [] [1])) chain_out (rpc_db_new 1) =
      Ok ([], \<lparr>state_trie = new, storage_tries = (\<lambda>_. None)\<rparr>)"
    by (simp add: witness_state_def req by_address_def transition_proofs_to_tries_def chain_block_def chain_header_def
        node_from_digest_def owned_default_def chain_env_def)
  have hash: "header_hash (env_hashes chain_env) (result_header (env_hashes chain_env) chain_lib
      (rb_block (chain_block 2 [1] [2, 1])) (blk_header (rb_block (chain_block 1 [] [1]))) chain_out) =
      header_hash (env_hashes chain_env) (blk_header (rb_block (chain_block 2 [1] [2, 1])))"
    by (simp add: result_header_def chain_env_def chain_block_def chain_header_def)
  have env: "env_lib chain_env = chain_lib" "env_ext chain_env = std_ext" by (simp_all add: chain_env_def)
  have old: "rdb_oldest_ancestor (rpc_db_new 1) = 1" by (simp add: rpc_db_new_def)
  have "(2 :: u64) - 1 = 1" by simp
  with blocks lib st hash env old chain_state_bytes chain_run(1) show ?thesis
    by (auto simp: host_execute_def host_input_def fail_with_def)
qed

section \<open>Properties\<close>

text \<open>
  C29: the host asks for everything the execution used. Every account and storage slot that a
  successful execution read from the RPC database is among the state requests for which proofs are
  fetched, the code of every such account is among the bytecodes, and the oldest ancestor is not
  above any block whose hash was read.
\<close>

theorem host_requests_cover_execution:
  assumes "run_rpc H e (rpc_db_new n) = (Ok out, db)" "q \<in> set (rpc_trace H e (rpc_db_new n))"
  shows "covered H db q"
  using run_recorded [OF assms(1)] assms(2) recorded_covered by blast

theorem host_requests_cover_execution_witness:
  "\<exists>db. run_rpc chain_env (QStorage [5] 3 (\<lambda>_. EvmDone chain_out)) (rpc_db_new 1) = (Ok chain_out, db)
     \<and> (\<exists>keys. ([5], keys) \<in> set (get_state_requests db) \<and> 3 \<in> set keys)"
proof -
  let ?e = "QStorage [5] 3 (\<lambda>_. EvmDone chain_out)"
  have "\<exists>db. run_rpc chain_env ?e (rpc_db_new 1) = (Ok chain_out, db)"
    "AskSlot [5] 3 \<in> set (rpc_trace chain_env ?e (rpc_db_new 1))"
    by (simp_all add: chain_env_def chain_provider_def rpc_storage_ref_def fetch_storage_at_def blocking_def rpc_def
        host_ask_def)
  then obtain db where db: "run_rpc chain_env ?e (rpc_db_new 1) = (Ok chain_out, db)"
    "AskSlot [5] 3 \<in> set (rpc_trace chain_env ?e (rpc_db_new 1))" by blast
  from host_requests_cover_execution [OF db] db(1) show ?thesis by auto
qed

text \<open>
  C30: the client can answer the block hashes the host saw. On an honest chain, the ancestor
  headers the host collects pass the client's chain check, and the client's table holds, for every
  ancestor whose hash the execution read on the host, the same hash.
\<close>

theorem host_serves_block_hashes:
  assumes "honest_chain (env_hashes H) (env_provider H)" "0 < n" "host_execute H B n = Ok inp"
    and "AskHash k h \<in> set (rpc_trace H (B (ci_current_block inp)) (rpc_db_new (n - 1)))" "k < n"
  shows "\<exists>table. build_block_hashes (env_hashes H)
      (blk_header (ci_current_block inp) # ci_ancestor_headers inp) (\<lambda>_. None) = Ok table \<and> table k = Some h"
proof -
  let ?X = "env_hashes H"
  from assms(3) obtain current out db b where
    run: "run_rpc H (B current) (rpc_db_new (n - 1)) = (Ok out, db)" and
    b: "get_block_by_number (env_provider H) n = Inr (Some b)" "current = rb_block b" "ci_current_block inp = current" and
    hs: "fetch_headers H (ancestor_heights (rdb_oldest_ancestor db) (n - 1)) = Ok (ci_ancestor_headers inp)"
    by (rule host_execute_parts)
  have rq: "db_extends H (rpc_db_new (n - 1)) db" "recorded_query H db (AskHash k h)"
    using run_recorded [OF run] assms(4) b(3) by auto
  from rq(2) obtain c where
    c: "get_block_by_number (env_provider H) k = Inr (Some c)" "rb_hash c = h" "rdb_oldest_ancestor db \<le> k" by auto
  have old: "rdb_oldest_ancestor db \<le> k" "rdb_oldest_ancestor db \<le> n - 1"
    using c(3) rq(1) by (simp_all add: db_extends_def rpc_db_new_def)
  have n: "unat (n - 1) = unat n - 1" using assms(2) by (simp add: unat_minus_one word_neq_0_conv)
  have le: "unat (rdb_oldest_ancestor db) \<le> unat (n - 1)" using old(2) by (simp add: word_le_nat_alt)
  have len: "length (ci_ancestor_headers inp) < 2 ^ 64"
    using fetch_headers_nth [OF hs] n unsigned_less [of n, where ?'a = nat] assms(2)
    by (simp add: ancestor_heights_def word_less_nat_alt del: upt_Suc)
  have "linked ?X (blk_header (rb_block b) # ci_ancestor_headers inp)"
    using ancestors_linked [OF assms(1) le b(1) hs] .
  from build_block_hashes_linked [OF this, of "\<lambda>_. None"] linked_distinct [OF this len]
  have "build_block_hashes ?X (blk_header (ci_current_block inp) # ci_ancestor_headers inp) (\<lambda>_. None) =
      Ok (map_of (map (\<lambda>h. (hdr_number h, header_hash ?X h)) (ci_ancestor_headers inp)))"
    using b by (simp add: map_of_rev_distinct numbered_hash_def [abs_def] comp_def)
  moreover have "unat k \<le> unat (n - 1)" using assms(2,5) n by (simp add: word_less_nat_alt)
  then have "k \<in> set (ancestor_heights (rdb_oldest_ancestor db) (n - 1))"
    using old(1) by (simp only: ancestor_heights_def set_map set_rev word_le_nat_alt)
      (rule image_eqI [of _ _ "unat k"], simp_all del: upt_Suc)
  ultimately show ?thesis using ancestor_hash [OF assms(1) c(1) hs] c(2) by auto
qed

theorem host_serves_block_hashes_witness:
  "\<exists>inp table. host_execute chain_env (\<lambda>_. chain_evm) 2 = Ok inp
     \<and> build_block_hashes (env_hashes chain_env) (blk_header (ci_current_block inp) # ci_ancestor_headers inp)
         (\<lambda>_. None) = Ok table \<and> table 1 = Some [1]"
proof -
  obtain inp where inp: "host_execute chain_env (\<lambda>_. chain_evm) 2 = Ok inp" using chain_input by blast
  have h: "honest_chain (env_hashes chain_env) (env_provider chain_env)"
    using chain_honest by (simp add: chain_env_def)
  have q: "AskHash 1 [1] \<in> set (rpc_trace chain_env chain_evm (rpc_db_new (2 - 1)))" using chain_run(2) by simp
  from host_serves_block_hashes [OF h _ inp q] inp show ?thesis by auto
qed

end
