(* ===== verification/Guest_Properties.thy ===== *)
theory Guest_Properties
  imports Guest Host_Properties State_Properties
begin

text \<open>What the digest committed by the guest program proves, with an empty block as example.\<close>

section \<open>An example\<close>

definition guest_ext :: client_ext where
  "guest_ext = \<lparr>header_hash = (\<lambda>h. replicate 31 0 @ [ucast (hdr_number h)]), bytecode_hash = (\<lambda>c. c)\<rparr>"

definition guest_lib :: exec_lib where
  "guest_lib = chain_lib\<lparr>execute_block := (\<lambda>_ _ _. EvmDone chain_out)\<rparr>"

definition guest_block :: eth_block where
  "guest_block = rb_block (chain_block 2 (replicate 31 0 @ [1]) [])"

definition guest_input :: "hint list" where
  "guest_input =
     [HAncestorHeaders [chain_header 1 []], HCurrentBlock guest_block,
      HStateTrieHeader \<lparr>sth_version = 2, sth_num_nodes = 1, sth_chunk_count = 0\<rparr>, HRaw [0x80, 0, 0, 0]]"

lemma guest_runs: "\<exists>words. guest_main std_ext two_codec guest_ext guest_lib guest_input = Ok words"
proof -
  have "decode_trie std_ext [0x80, 0, 0, 0] n = Ok (new, [0x80, 0, 0, 0])" for n
    by (simp add: decode_trie_def std_ext_def)
  moreover obtain m where m: "hash std_ext new = (Ok (EMPTY_ROOT_HASH std_ext), m)" "repr_tree std_ext m PNull"
    using std.hash_repr [OF repr_new] by (auto simp: root_hash_def)
  moreover obtain m' where "hash std_ext m = (Ok (EMPTY_ROOT_HASH std_ext), m')"
    using std.hash_repr [OF m(2)] by (auto simp: root_hash_def)
  ultimately show ?thesis
    by (simp add: guest_main_def execute_from_reader_def guest_input_def check_block_def guest_lib_def chain_lib_def
        fail_with_def build_streaming_state_from_input_reader_def execute_streaming_def from_streaming_parts_def
        guest_block_def chain_block_def chain_header_def guest_ext_def block_evm_def finish_streaming_def
        streaming_update_def ensure_state_trie_loaded_def read_raw_bytes_def chain_out_def sorted_bundle_def
        validate_account_cache_def state_root_def)
qed

section \<open>Property\<close>

text \<open>
  C6: what the proof of the guest program says. If the guest commits a digest, the digest is the hash
  of a header, and the host's hints contained a block with a chain of ancestor headers such that:
  senders and consensus checks passed, every ancestor is authenticated by the parent hash of its
  child, the EVM ran to the end on the streamed state and the post-execution checks passed, the
  streamed update of the state succeeded and the state root it computed is the one in the block's
  header. The committed header has the block's number, state root and parent hash. Every failure
  of the client ends in a panic, so that nothing is committed.
\<close>

theorem guest_commits_executed_block:
  assumes "guest_main E C X L inp = Ok words" "\<And>h. length (header_hash X h) = 32"
  shows "\<exists>parent ancestors block rest s db out db' s' s1 header.
    inp = HAncestorHeaders (parent # ancestors) # HCurrentBlock block # rest
    \<and> check_block L Mainnet block = Ok () \<and> linked X (blk_header block # parent # ancestors)
    \<and> build_streaming_state_from_input_reader (parent # ancestors) rest = Ok s
    \<and> from_streaming_parts X s (blk_header block) (parent # ancestors) = Ok db
    \<and> run_evm E C X (block_evm 32 L Mainnet block (parent # ancestors)) db = (Ok out, db')
    \<and> db_state db' = StreamingState s' \<and> validate_block_post_execution L Mainnet block out = None
    \<and> streaming_update E C (out_bundle out) s' = (Ok (), s1)
    \<and> fst (state_root E s1) = Ok (hdr_state_root header)
    \<and> digest_bytes words = header_hash X header
    \<and> hdr_number header = hdr_number (blk_header block) \<and> hdr_state_root header = hdr_state_root (blk_header block)
    \<and> hdr_parent_hash header = hdr_parent_hash (blk_header block)"
proof -
  obtain header where run: "execute_from_reader 32 E C X L Mainnet inp = Ok header"
    and words: "words = digest_words (header_hash X header)"
    using assms(1) by (auto simp: guest_main_def split: outcome.splits)
  from run obtain as block rest s where inp: "inp = HAncestorHeaders as # HCurrentBlock block # rest"
    "check_block L Mainnet block = Ok ()" "build_streaming_state_from_input_reader as rest = Ok s"
    and ex: "fst (execute_streaming 32 E C X L Mainnet block as s) = Ok header" by (rule execute_from_reader_Ok)
  from ex obtain db out db' s' where db: "from_streaming_parts X s (blk_header block) as = Ok db"
    "run_evm E C X (block_evm 32 L Mainnet block as) db = (Ok out, db')" "db_state db' = StreamingState s'"
    "validate_block_post_execution L Mainnet block out = None"
    and fin: "fst (finish_streaming E C X L block as out s') = Ok header" by (rule execute_streaming_Ok)
  from fin obtain parent ancestors s1 where p: "as = parent # ancestors"
    "streaming_update E C (out_bundle out) s' = (Ok (), s1)"
    "fst (state_root E s1) = Ok (hdr_state_root (blk_header block))" "header = result_header X L block parent out"
    by (rule finish_streaming_Ok)
  have "linked X (blk_header block # as)"
    using db(1) build_block_hashes_unlinked [of X "blk_header block" as "\<lambda>_. None"]
    by (auto simp: from_streaming_parts_def split: outcome.splits)
  moreover from this p(1,4) have "hdr_parent_hash header = hdr_parent_hash (blk_header block)"
    by (simp add: result_header_def)
  moreover have "hdr_number header = hdr_number (blk_header block)" "hdr_state_root header = hdr_state_root (blk_header block)"
    using p(4) by (simp_all add: result_header_def)
  ultimately show ?thesis
    using inp db p(1-3) words digest_bytes_words [OF assms(2)] by metis
qed

theorem guest_commits_executed_block_witness:
  "\<exists>words header. guest_main std_ext two_codec guest_ext guest_lib guest_input = Ok words
     \<and> digest_bytes words = header_hash guest_ext header \<and> hdr_number header = 2"
proof -
  obtain words where w: "guest_main std_ext two_codec guest_ext guest_lib guest_input = Ok words"
    using guest_runs by blast
  have "length (header_hash guest_ext h) = 32" for h by (simp add: guest_ext_def)
  from guest_commits_executed_block [OF w this] w show ?thesis
    by (auto simp: guest_input_def guest_block_def chain_block_def chain_header_def)
qed

end
