(* ===== verification/Tree_Updates.thy ===== *)
theory Tree_Updates
  imports Pruned_Updates Frontier_Properties
begin

text \<open>
  Lists of updates on abstract trees, and the decoder for tries that may be empty: what the
  streaming client needs to know about the chunks and storage tries it reads.
\<close>

section \<open>Lists of updates on trees\<close>

fun pt_updates :: "(nibs \<times> bytes option) list \<Rightarrow> ptree \<Rightarrow> (mpt_error, ptree) outcome" where
  "pt_updates [] t = Ok t"
| "pt_updates ((k, None) # us) t =
     (case pt_delete t k of Ok (b, t') \<Rightarrow> pt_updates us t' | Err e \<Rightarrow> Err e | Panic p \<Rightarrow> Panic p)"
| "pt_updates ((k, Some v) # us) t =
     (case pt_insert t k v of Ok (b, t') \<Rightarrow> pt_updates us t' | Err e \<Rightarrow> Err e | Panic p \<Rightarrow> Panic p)"

definition nib_keys :: "(nibs \<times> bytes option) list \<Rightarrow> bool" where
  "nib_keys us \<longleftrightarrow> list_all (\<lambda>u. nibbles (fst u)) us"

lemma nib_keys_simps [simp]: "nib_keys []" "nib_keys (u # us) \<longleftrightarrow> nibbles (fst u) \<and> nib_keys us"
  by (simp_all add: nib_keys_def)

lemma pt_updates_step:
  assumes "pt_updates ((k, v) # us) t = Ok t'" "canon_top t" "nibbles k"
  obtains t1 where "pt_updates us t1 = Ok t'" "canon_top t1"
    "\<And>p. nibbles p \<Longrightarrow> pt_get t1 p = ((pt_get t)(k := Ok v)) p"
proof (cases v)
  case None
  with assms(1) obtain b t1 where "pt_delete t k = Ok (b, t1)" "pt_updates us t1 = Ok t'"
    by (auto split: outcome.splits)
  with pt_delete_canon pt_delete_get assms(2,3) None show ?thesis by (intro that [of t1]) auto
next
  case (Some w)
  with assms(1) obtain b t1 where t1: "pt_insert t k w = Ok (b, t1)" "pt_updates us t1 = Ok t'"
    by (auto split: outcome.splits)
  with pt_insert_canon pt_insert_get assms(2,3) Some show ?thesis
    by (intro that [of t1]) (auto simp: canon_top_def)
qed

lemma pt_updates_view:
  "pt_updates us t = Ok t' \<Longrightarrow> canon_top t \<Longrightarrow> nib_keys us \<Longrightarrow>
   canon_top t' \<and> (\<forall>p. nibbles p \<longrightarrow> pt_get t' p = viewed (\<lambda>k. k) us (pt_get t) p)"
proof (induction us arbitrary: t)
  case (Cons u us)
  obtain k v where u: "u = (k, v)" by (cases u)
  with Cons.prems obtain t1 where t1: "pt_updates us t1 = Ok t'" "canon_top t1"
    "\<And>p. nibbles p \<Longrightarrow> pt_get t1 p = ((pt_get t)(k := Ok v)) p" by (auto elim: pt_updates_step)
  have "viewed (\<lambda>k. k) us (pt_get t1) p = viewed (\<lambda>k. k) us ((pt_get t)(k := Ok v)) p" if "nibbles p" for p
    using that t1(3) by (induction us rule: rev_induct) (auto simp: viewed_def split: prod.splits)
  with Cons.IH [OF t1(1,2)] Cons.prems(3) u show ?case by simp
qed simp

lemma blinds_updates:
  "blinds E t F \<Longrightarrow> canon_top t \<Longrightarrow> nib_keys us \<Longrightarrow> merges_known us t \<Longrightarrow> pt_updates us t = Ok t' \<Longrightarrow>
   \<exists>F'. pt_updates us F = Ok F' \<and> blinds E t' F'"
proof (induction us arbitrary: t F)
  case (Cons u us)
  obtain k v where u: "u = (k, v)" by (cases u)
  show ?case
  proof (cases v)
    case None
    with Cons.prems u obtain b t1 where t1: "pt_delete t k = Ok (b, t1)" "pt_updates us t1 = Ok t'"
      by (auto split: outcome.splits)
    from blinds_delete [OF Cons.prems(1) _ Cons.prems(2) t1(1)] Cons.prems(4) u None obtain F1 where
      "pt_delete F k = Ok (b, F1)" "blinds E t1 F1" by auto
    with Cons.IH [of t1 F1] t1 pt_delete_canon [OF Cons.prems(2) _ t1(1)] Cons.prems(3,4) u None show ?thesis by auto
  next
    case (Some w)
    with Cons.prems u obtain b t1 where t1: "pt_insert t k w = Ok (b, t1)" "pt_updates us t1 = Ok t'"
      by (auto split: outcome.splits)
    from blinds_insert [OF Cons.prems(1) t1(1)] obtain F1 where "pt_insert F k w = Ok (b, F1)" "blinds E t1 F1" by auto
    with Cons.IH [of t1 F1] t1 pt_insert_canon [OF Cons.prems(2) _ t1(1)] Cons.prems(3,4) u Some show ?thesis
      by (auto simp: canon_top_def)
  qed
qed auto

lemma pt_updates_digest: "pt_updates us (PDigest d) = Ok t' \<Longrightarrow> us = []"
proof (cases us)
  case (Cons u us')
  assume "pt_updates us (PDigest d) = Ok t'"
  with Cons show ?thesis by (cases u; cases "snd u") auto
qed simp

text \<open>The arena follows the tree.\<close>

lemma apply_nibbles_repr:
  assumes "repr_tree E m t" "trie_room (n + length us) m" "nib_keys us"
    and "apply_updates insert_nibbles delete_nibbles us m = (Ok (), m')"
  shows "\<exists>t'. pt_updates us t = Ok t' \<and> repr_tree E m' t' \<and> trie_room n m'"
  using assms
proof (induction us arbitrary: m t)
  case (Cons u us)
  obtain k v where u: "u = (k, v)" by (cases u)
  have room: "trie_room (Suc (n + length us)) m" and k: "nibbles k" using Cons.prems u by simp_all
  show ?case
  proof (cases v)
    case None
    with Cons.prems(4) u obtain b m1 where m1: "delete_nibbles k m = (Ok b, m1)"
      "apply_updates insert_nibbles delete_nibbles us m1 = (Ok (), m')" by (auto simp: and_then_Ok_iff)
    from delete_nibbles_repr [OF Cons.prems(1) k] m1(1) obtain t1 where
      t1: "pt_delete t k = Ok (b, t1)" "repr_tree E m1 t1" "length (nodes m1) = length (nodes m)" by auto
    have "trie_room (n + length us) m1" using room t1(3) by (simp add: trie_room_def)
    with Cons.IH [OF t1(2) this _ m1(2)] Cons.prems(3) t1(1) u None show ?thesis by auto
  next
    case (Some w)
    with Cons.prems(4) u obtain b m1 where m1: "insert_nibbles k w m = (Ok b, m1)"
      "apply_updates insert_nibbles delete_nibbles us m1 = (Ok (), m')" by (auto simp: and_then_Ok_iff)
    from insert_nibbles_repr [OF Cons.prems(1) k trie_room_capacity [OF room], of w] m1(1) obtain t1 where
      t1: "pt_insert t k w = Ok (b, t1)" "repr_tree E m1 t1" "length (nodes m1) \<le> length (nodes m) + 3" by auto
    have "trie_room (n + length us) m1" using room t1(3) by (simp add: trie_room_def)
    with Cons.IH [OF t1(2) this _ m1(2)] Cons.prems(3) t1(1) u Some show ?thesis by auto
  qed
qed simp

lemma apply_bytes_nibbles:
  "apply_updates insert_mpt delete us m = apply_updates insert_nibbles delete_nibbles (as_nibs us) m"
proof (induction us arbitrary: m)
  case (Cons u us)
  obtain k v where u: "u = (k, v)" by (cases u)
  have "apply_updates insert_mpt delete us = apply_updates insert_nibbles delete_nibbles (as_nibs us)"
    using Cons.IH by (rule HOL.ext)
  with u show ?case by (cases v) (simp_all add: as_nibs_def insert_mpt_nibbles [of k] delete_as_nibbles [of k])
qed (simp add: as_nibs_def)

section \<open>Decoding a trie that may be empty\<close>

text \<open>
  A trie whose root is named by a header: either empty or full and hash-addressed. The bytes that
  are decoded have no Keccak collision with its nodes, nor with the empty trie.
\<close>

definition named_trie :: "ext \<Rightarrow> ptree \<Rightarrow> bool" where
  "named_trie E T \<longleftrightarrow> T = PNull \<or> full_trie E T \<and> (\<exists>d. tree_ref E T = RefDigest d \<and> d \<noteq> EMPTY_ROOT_HASH E)"

definition bytes_ok :: "ext \<Rightarrow> bytes \<Rightarrow> ptree \<Rightarrow> bool" where
  "bytes_ok E bs T \<longleftrightarrow> length bs < 2 ^ 31 \<and> collision_free E bs T
     \<and> (\<forall>x. sublist x bs \<longrightarrow> keccak256 E x = EMPTY_ROOT_HASH E \<longrightarrow> x = [EMPTY_STRING_CODE E])"

text \<open>What the decoder returns for such a trie: it blinds it, or it is a bare digest of its root.\<close>

definition stands_for :: "ext \<Rightarrow> ptree \<Rightarrow> ptree \<Rightarrow> bool" where
  "stands_for E t T \<longleftrightarrow> blinds E t T \<or> t = PDigest (root_hash E T)"

lemma stands_for_get: "stands_for E t T \<Longrightarrow> pt_get t k = Ok v \<Longrightarrow> pt_get T k = Ok v"
  by (auto simp: stands_for_def intro: blinds_get)

lemma stands_for_updates:
  assumes "stands_for E t T" "canon_top t" "nib_keys us" "merges_known us t" "pt_updates us t = Ok t'" "us \<noteq> []"
  shows "\<exists>T'. pt_updates us T = Ok T' \<and> blinds E t' T'"
  using assms blinds_updates pt_updates_digest unfolding stands_for_def by blast

context rlp_laws
begin

lemma repr_digest_added:
  assumes "add_node (Digest d) (Some (RefDigest d)) (with_capacity n) = (i, m)" "length d = 32"
  shows "repr_tree E (m\<lparr>root_id := i\<rparr>) (PDigest d)"
proof -
  have "dec_post (with_capacity n) m [ADigest i d]"
    using add_node_dec_post [of "with_capacity n" "with_capacity n" "ADigest i d" m] dec_post_nil [of "with_capacity n"] assms
    by (simp add: arena_ok_def with_capacity_def)
  from dec_post_rep [OF this] assms(2) have "rep E (m\<lparr>root_id := i\<rparr>) (ADigest i d)"
    by (simp add: canon_top_def with_capacity_def)
  then show ?thesis unfolding repr_tree_def by (intro exI [of _ "ADigest i d"]) simp
qed

lemma decode_empty_auth:
  assumes free: "\<And>x. sublist x bs \<Longrightarrow> keccak256 E x = EMPTY_ROOT_HASH E \<Longrightarrow> x = [EMPTY_STRING_CODE E]"
    and len: "length bs < 2 ^ 32" and run: "decode_trie E bs n = Ok (m, rest)"
    and h: "fst (hash E m) = Ok (EMPTY_ROOT_HASH E)"
  shows "repr_tree E m PNull \<or> repr_tree E m (PDigest (EMPTY_ROOT_HASH E))"
proof (cases "bs = [EMPTY_STRING_CODE E, 0, 0, 0]")
  case True
  with run have "m = new" by (simp add: decode_trie_def)
  then show ?thesis using repr_new by blast
next
  case False
  let ?m = "with_capacity (n + n div 2)"
  from run False obtain r i m1 where r: "root_ref E bs = Ok r"
    and dec: "decode_trie_internal (Suc (length bs)) E bs r ?m = (Ok (i, rest), m1)" and m: "m = m1\<lparr>root_id := i\<rparr>"
    by (auto simp: decode_trie_def Let_def split: outcome.splits prod.splits)
  have bound: "length (nodes m1) \<le> 2 ^ 32" "length (cached_references m1) = length (nodes m1)"
    using dec_boundedD(2) [OF decode_bounded dec] len by (auto simp: arena_step_def with_capacity_def)
  from dec obtain l p rlp rest' r' bs2 where
    item: "decode_item E bs = Ok (l, p, rlp, rest')" and chk: "check_node_ref E l p rlp r = Ok r'" and
    cont: "(if \<not> l then
         (if length p = 0 then (Ok (NULL_NODE_ID, bs2), ?m)
          else if length p = 32 then
            (case add_node (Digest p) (Some (RefDigest p)) ?m of (i, m) \<Rightarrow> (Ok (i, bs2), m))
          else (Err (RlpError UnexpectedLength), ?m))
       else list_node_step (length bs) E p r' bs2 ?m) = (Ok (i, rest), m1)"
    by (rule decode_step_Ok)
  note split = decode_item_split [OF item]
  have sub: "sublist rlp bs" using split(1) by (simp add: sublist_appendI [of rlp "[]", simplified])
  have r_def: "r = (if length rlp < 32 then RefBytes rlp else if \<not> l then RefDigest p else RefDigest (keccak256 E rlp))"
    using r item by (simp add: root_ref_def)
  show ?thesis
  proof (cases l)
    case True
    have "r' = r" using chk r_def by (auto simp: check_node_ref_def split: if_splits)
    with cont True obtain nd m2 where nd: "nd \<noteq> Null" "add_node nd (Some r) m2 = (i, m1)"
      using list_node_step_last [of "length bs" p r bs2 ?m i rest m1] by auto
    have "fst (digest_of_ref E r m1) = Ok (EMPTY_ROOT_HASH E)" using hash_added [OF nd(2,1) bound] h m by simp
    with r_def True have "keccak256 E rlp = EMPTY_ROOT_HASH E"
      by (auto simp: digest_of_ref_def b256_from_slice_def split: if_splits)
    with free [OF sub] have "rlp = [EMPTY_STRING_CODE E]" by blast
    with decode_item_bytes [of "[]" rest'] item split(1) True show ?thesis by (simp add: bytes_encode_empty)
  next
    case False
    consider "length p = 0" | "length p = 32" "add_node (Digest p) (Some (RefDigest p)) ?m = (i, m1)"
      using cont False by (auto split: if_splits prod.splits)
    then show ?thesis
    proof cases
      case 1
      with cont False m have "m = ?m\<lparr>root_id := NULL_NODE_ID\<rparr>" by auto
      then have "m = ?m" by (simp add: with_capacity_def NULL_NODE_ID_def)
      then show ?thesis using repr_with_capacity by simp
    next
      case 2
      have "fst (hash E m) = Ok p" using hash_added [OF 2(2) _ bound] m 2(1)
        by (simp add: digest_of_ref_def b256_from_slice_def)
      with h repr_digest_added [OF 2(2,1)] m show ?thesis by simp
    qed
  qed
qed

lemma decode_named:
  assumes T: "named_trie E T" and bs: "bytes_ok E bs T" and run: "decode_trie E bs n = Ok (m, rest)"
    and h: "fst (hash E m) = Ok (root_hash E T)"
  shows "\<exists>t. repr_tree E m t \<and> stands_for E t T \<and> length (nodes m) \<le> 2 ^ 31"
proof -
  have size: "length (nodes m) \<le> 2 ^ 31" using decode_trie_bounds [of bs n m rest] run bs by (simp add: bytes_ok_def)
  show ?thesis
  proof (cases "T = PNull")
    case True
    with h have "fst (hash E m) = Ok (EMPTY_ROOT_HASH E)" by (simp add: root_hash_def)
    with decode_empty_auth [OF _ _ run] bs have "repr_tree E m PNull \<or> repr_tree E m (PDigest (EMPTY_ROOT_HASH E))"
      by (simp add: bytes_ok_def)
    with True size show ?thesis by (auto simp: stands_for_def root_hash_def intro: blinds.same)
  next
    case False
    with T obtain d where d: "full_trie E T" "tree_ref E T = RefDigest d" "d \<noteq> EMPTY_ROOT_HASH E"
      by (auto simp: named_trie_def)
    then have "fst (hash E m) = Ok d" using h False by (simp add: root_hash_def)
    with decode_trie_auth [OF d _ _ run] bs size show ?thesis by (auto simp: bytes_ok_def stands_for_def)
  qed
qed

end

end
