(* ===== verification/Stream_Spec.thy ===== *)
theory Stream_Spec
  imports Tree_Updates State_Correct Client_Chain
begin

text \<open>
  What the streamed update should do, over full tries: \<open>F\<close> is the account trie of the parent state
  and \<open>S\<close> gives the storage trie of every hashed address. The theory also proves the parts of the
  update that concern one account: the storage root that is written is the root of the updated full
  storage trie.
\<close>

section \<open>The full state\<close>

definition account_at :: "eth_codec \<Rightarrow> ptree \<Rightarrow> bytes \<Rightarrow> (mpt_error, trie_account option) outcome" where
  "account_at C F k =
     (case pt_get F (to_nibs k) of
        Ok (Some bs) \<Rightarrow> (case account_decode C bs of Inl e \<Rightarrow> Err (RlpError e) | Inr v \<Rightarrow> Ok (Some v))
      | Ok None \<Rightarrow> Ok None
      | Err e \<Rightarrow> Err e
      | Panic p \<Rightarrow> Panic p)"

text \<open>Every storage trie is full and has the root its account names.\<close>

definition storage_world :: "ext \<Rightarrow> eth_codec \<Rightarrow> ptree \<Rightarrow> (bytes \<Rightarrow> ptree) \<Rightarrow> bool" where
  "storage_world E C F S \<longleftrightarrow> (\<forall>k. named_trie E (S k))
     \<and> (\<forall>k acc. account_at C F k = Ok acc \<longrightarrow> root_hash E (S k) = storage_root_of E acc)"

section \<open>The effect of a bundle entry\<close>

definition slot_updates :: "ext \<Rightarrow> eth_codec \<Rightarrow> bundle_account \<Rightarrow> (nibs \<times> bytes option) list" where
  "slot_updates E C account = as_nibs (map (slot_update E C) (acct_storage account))"

definition new_storage ::
  "ext \<Rightarrow> eth_codec \<Rightarrow> (bytes \<Rightarrow> ptree) \<Rightarrow> bytes \<Rightarrow> bundle_account \<Rightarrow> (mpt_error, ptree) outcome" where
  "new_storage E C S h account =
     pt_updates (slot_updates E C account) (if acct_was_destroyed account then PNull else S h)"

definition entry_update :: "ext \<Rightarrow> eth_codec \<Rightarrow> (bytes \<Rightarrow> ptree) \<Rightarrow> bundle_entry \<Rightarrow> nibs \<times> bytes option" where
  "entry_update E C S e =
     (case e of (h, nibs, account) \<Rightarrow>
       (nibs,
        case acct_info account of
          None \<Rightarrow> None
        | Some info \<Rightarrow>
            (case new_storage E C S h account of
               Ok T \<Rightarrow> Some (account_encode C (written_account info (root_hash E T)))
             | _ \<Rightarrow> None)))"

section \<open>Tries read from the hints\<close>

definition loaded :: "ext \<Rightarrow> bytes set \<Rightarrow> bytes \<Rightarrow> mpt \<Rightarrow> bool" where
  "loaded E B root trie \<longleftrightarrow>
     (\<exists>bs \<in> B. \<exists>n m rest. decode_trie E bs n = Ok (m, rest) \<and> hash E m = (Ok root, trie))"

lemma named_root_empty: "named_trie E T \<Longrightarrow> root_hash E T = EMPTY_ROOT_HASH E \<longleftrightarrow> T = PNull"
  by (auto simp: named_trie_def root_hash_def split: if_splits)

lemma nib_keys_as_nibs [simp]: "nib_keys (as_nibs us)"
  by (auto simp: nib_keys_def as_nibs_def list_all_iff)

lemma length_slot_updates [simp]: "length (slot_updates E C account) = length (acct_storage account)"
  by (simp add: slot_updates_def as_nibs_def)

lemma slot_updates_Nil [simp]: "slot_updates E C account = [] \<longleftrightarrow> acct_storage account = []"
  by (metis length_0_conv length_slot_updates)

context rlp_laws
begin

lemma loaded_repr:
  assumes "loaded E B (root_hash E T) trie" "named_trie E T" "\<And>bs. bs \<in> B \<Longrightarrow> bytes_ok E bs T"
  shows "\<exists>t. repr_tree E trie t \<and> stands_for E t T \<and> length (nodes trie) \<le> 2 ^ 31"
proof -
  obtain bs n m rest where m: "bs \<in> B" "decode_trie E bs n = Ok (m, rest)" "hash E m = (Ok (root_hash E T), trie)"
    using assms(1) by (auto simp: loaded_def)
  from decode_named [OF assms(2) assms(3) [OF m(1)] m(2)] m(3) obtain t where
    t: "repr_tree E m t" "stands_for E t T" "length (nodes m) \<le> 2 ^ 31" by auto
  with hash_repr [OF t(1)] m(3) show ?thesis by auto
qed

lemma update_storage_root:
  assumes m: "repr_tree E m t" "length (nodes m) \<le> 2 ^ 31" and room: "length (acct_storage account) < 2 ^ 28"
    and run: "fst (update_storage_trie E C (acct_storage account) m) = Ok root"
  shows "\<exists>t'. pt_updates (slot_updates E C account) t = Ok t' \<and> root = root_hash E t'"
proof -
  let ?us = "slot_updates E C account"
  obtain m1 where m1: "apply_updates insert_nibbles delete_nibbles ?us m = (Ok (), m1)" "fst (hash E m1) = Ok root"
    using run by (cases "apply_slots E C (acct_storage account) m"; cases "fst (apply_slots E C (acct_storage account) m)")
      (auto simp: update_storage_trie_def slot_updates_def apply_slots_updates apply_bytes_nibbles)
  have "trie_room (0 + length ?us) m" using m(2) room by (simp add: trie_room_def)
  from apply_nibbles_repr [OF m(1) this _ m1(1)] obtain t' where "pt_updates ?us t = Ok t'" "repr_tree E m1 t'"
    by (auto simp: slot_updates_def)
  with hash_repr [of m1 t'] m1(2) show ?thesis by auto
qed

text \<open>The storage root of a changed account, on every branch.\<close>

lemma new_storage_root_correct:
  assumes world: "storage_world E C F S" "account_at C F h = Ok old" "length (acct_storage account) < 2 ^ 28"
    and B: "\<And>bs. bs \<in> B \<Longrightarrow> bytes_ok E bs (S h)"
    and known: "\<And>m t. loaded E B (root_hash E (S h)) m \<Longrightarrow> repr_tree E m t \<Longrightarrow> merges_known (slot_updates E C account) t"
    and tries: "\<And>trie. sts_storage_tries s h = Some trie \<or> map_of post_tries h = Some trie \<Longrightarrow>
      loaded E B (root_hash E (S h)) trie"
    and run: "new_storage_root E C h account old post_tries s = (Ok (root, tries'), s')"
  shows "(\<exists>T. new_storage E C S h account = Ok T \<and> root = root_hash E T)
    \<and> (s' = s \<or> s' = s\<lparr>sts_storage_tries := (sts_storage_tries s)(h := None)\<rparr>) \<and> (tries' = post_tries \<or> tries' = remove_key h post_tries)"
proof -
  let ?us = "slot_updates E C account" and ?slots = "acct_storage account"
  have S: "named_trie E (S h)" "root_hash E (S h) = storage_root_of E old" using world by (simp_all add: storage_world_def)
  have empty: "\<exists>T. pt_updates ?us PNull = Ok T \<and> root = root_hash E T"
    if "fst (update_storage_trie E C ?slots new) = Ok root"
    using update_storage_root [OF repr_new _ world(3) that] by (auto simp: new_def with_capacity_def)
  have changed: "\<exists>T. pt_updates ?us (S h) = Ok T \<and> root = root_hash E T"
    if l: "loaded E B (root_hash E (S h)) trie" and u: "fst (update_storage_trie E C ?slots trie) = Ok root" and n: "?slots \<noteq> []" for trie
  proof -
    obtain t where t: "repr_tree E trie t" "stands_for E t (S h)" "length (nodes trie) \<le> 2 ^ 31"
      using loaded_repr [OF l S(1) B] by blast
    obtain t' where t': "pt_updates ?us t = Ok t'" "root = root_hash E t'"
      using update_storage_root [OF t(1,3) world(3) u] by blast
    have "nib_keys ?us" "?us \<noteq> []" using n by (simp add: slot_updates_def, simp)
    from stands_for_updates [OF t(2) repr_canon [OF t(1)] this(1) known [OF l t(1)] t'(1) this(2)]
    obtain T where "pt_updates ?us (S h) = Ok T" "blinds E t' T" by blast
    with blinds_root_hash t'(2) show ?thesis by auto
  qed
  consider (destroyed) "acct_was_destroyed account" | (slots) "\<not> acct_was_destroyed account" "?slots \<noteq> []"
    | (same) "\<not> acct_was_destroyed account" "?slots = []" by blast
  then show ?thesis
  proof cases
    case destroyed
    with run empty show ?thesis by (auto simp: new_storage_root_def new_storage_def and_then_Ok_iff lift_outcome_def split: outcome.splits)
  next
    case same
    then have "root = storage_root_of E old" using run
      by (auto simp: new_storage_root_def Let_def and_then_Ok_iff split: option.splits if_splits)
    moreover have "s' = s \<or> s' = s\<lparr>sts_storage_tries := (sts_storage_tries s)(h := None)\<rparr>" "tries' = post_tries"
      using run same by (auto simp: new_storage_root_def Let_def and_then_Ok_iff split: option.splits if_splits)
    moreover have "new_storage E C S h account = Ok (S h)"
      using same by (simp add: new_storage_def slot_updates_def as_nibs_def)
    ultimately show ?thesis using S(2) by auto
  next
    case slots
    show ?thesis
    proof (cases "sts_storage_tries s h")
      case (Some trie)
      with run slots changed [of trie] tries show ?thesis
        by (auto simp: new_storage_root_def new_storage_def and_then_Ok_iff lift_outcome_def split: outcome.splits)
    next
      case None
      show ?thesis
      proof (cases "map_of post_tries h")
        case (Some trie)
        with None run slots changed [of trie] tries show ?thesis
          by (auto simp: new_storage_root_def new_storage_def and_then_Ok_iff lift_outcome_def split: outcome.splits)
      next
        case none: None
        with None run slots have e: "storage_root_of E old = EMPTY_ROOT_HASH E"
          "fst (update_storage_trie E C ?slots new) = Ok root" "s' = s" "tries' = post_tries"
          by (auto simp: new_storage_root_def and_then_Ok_iff lift_outcome_def split: outcome.splits if_splits)
        have "S h = PNull" using S e(1) named_root_empty by metis
        with empty e slots show ?thesis by (auto simp: new_storage_def)
      qed
    qed
  qed
qed

end

end
