(* ===== verification/Stream_Chunk.thy ===== *)
theory Stream_Chunk
  imports Stream_Spec
begin

text \<open>
  The steps of the streamed update for one chunk, each as a lemma on a successful run: what was read
  from the hints, which accounts were compared, and which updates the chunk received.
\<close>

definition raw_hints :: "hint list \<Rightarrow> bytes set" where
  "raw_hints hs = {bs. HRaw bs \<in> set hs}"

lemma raw_hints_simps [simp]:
  "raw_hints [] = {}" "raw_hints (HRaw bs # hs) = insert bs (raw_hints hs)"
  "raw_hints (HWitness w # hs) = raw_hints hs"
  by (auto simp: raw_hints_def)

definition below :: "nibs \<Rightarrow> (nibs \<times> bytes option) list \<Rightarrow> (nibs \<times> bytes option) list" where
  "below pre us = map (\<lambda>u. (drop (length pre) (fst u), snd u)) us"

lemma below_simps [simp]:
  "below pre [] = []" "below pre (u # us) = (drop (length pre) (fst u), snd u) # below pre us"
  by (simp_all add: below_def)

lemma length_below [simp]: "length (below pre us) = length us"
  by (simp add: below_def)

section \<open>Reading\<close>

lemma and_then_witness:
  "and_then (read_witness_input s) f = (Ok r, s') \<longleftrightarrow>
     (\<exists>w hs. sts_input s = HWitness w # hs \<and> f w (s\<lparr>sts_input := hs\<rparr>) = (Ok r, s'))"
  by (auto simp: read_witness_input_def split: list.splits hint.splits)

lemma and_then_raw:
  "and_then (read_raw_bytes s) f = (Ok r, s') \<longleftrightarrow>
     (\<exists>bs hs. sts_input s = HRaw bs # hs \<and> f bs (s\<lparr>sts_input := hs\<rparr>) = (Ok r, s'))"
  by (auto simp: read_raw_bytes_def split: list.splits hint.splits)

lemma and_then_pure: "and_then (r, s) f = (Ok b, s') \<longleftrightarrow> (\<exists>a. r = Ok a \<and> f a s = (Ok b, s'))"
  by (cases r) auto

lemma lift_outcome_Ok: "lift_outcome g r = Ok a \<longleftrightarrow> r = Ok a"
  by (cases r) auto

lemma decode_hash_Ok:
  "(case decode_trie E bs n of
      Ok (t, _) \<Rightarrow>
        (case hash E t of (Ok r, t) \<Rightarrow> k r t | (Err e, _) \<Rightarrow> (Err (f e), s) | (Panic p, _) \<Rightarrow> (Panic p, s))
    | Err e \<Rightarrow> (Err (f e), s) | Panic p \<Rightarrow> (Panic p, s)) = (Ok x, s') \<longleftrightarrow>
   (\<exists>m rest r t. decode_trie E bs n = Ok (m, rest) \<and> hash E m = (Ok r, t) \<and> k r t = (Ok x, s'))"
proof (cases "decode_trie E bs n")
  case (Ok p)
  then show ?thesis by (cases p; cases "hash E (fst p)"; cases "fst (hash E (fst p))") auto
qed auto

lemma read_chunk_Ok:
  assumes "read_chunk E s = (Ok (h, chunk), s')"
  obtains bs hs where "sts_input s = HWitness (WStateChunk h) # HRaw bs # hs" "s' = s\<lparr>sts_input := hs\<rparr>"
    "loaded E {bs} (sch_expected_root h) chunk"
proof -
  from assms obtain w hs where w: "sts_input s = HWitness w # hs"
    unfolding read_chunk_def and_then_witness by blast
  from assms w obtain h' where h': "w = WStateChunk h'" by (cases w) (auto simp: read_chunk_def and_then_witness)
  with assms w obtain bs hs2 m rest where r: "h' = h" "hs = HRaw bs # hs2"
    "decode_trie E bs (sch_num_nodes h) = Ok (m, rest)" "hash E m = (Ok (sch_expected_root h), chunk)"
    "s' = s\<lparr>sts_input := hs2\<rparr>"
    by (auto simp: read_chunk_def and_then_witness and_then_raw decode_hash_Ok split: if_splits)
  then have "loaded E {bs} (sch_expected_root h) chunk" by (auto simp: loaded_def)
  with w h' r that show thesis by auto
qed

lemma remove_key_lookup: "map_of (remove_key k m) k' = (if k' = k then None else map_of m k')"
  by (induction m) (auto simp: remove_key_def)

lemma consume_cached_Ok:
  "consume_cached C chunk pre ks s = (Ok (), s') \<Longrightarrow>
   (\<forall>k \<in> set ks. \<exists>acc. map_of (sts_account_cache s) k = Some acc \<and> chunk_account C chunk pre k = Ok acc)
   \<and> s' = s\<lparr>sts_account_cache := filter (\<lambda>e. fst e \<notin> set ks) (sts_account_cache s)\<rparr>"
proof (induction ks arbitrary: s)
  case (Cons k ks)
  let ?s = "s\<lparr>sts_account_cache := remove_key k (sts_account_cache s)\<rparr>"
  from Cons.prems obtain acc where acc: "chunk_account C chunk pre k = Ok acc"
    "map_of (sts_account_cache s) k = Some acc" "consume_cached C chunk pre ks ?s = (Ok (), s')"
    by (auto simp: Let_def and_then_Ok_iff split: if_splits)
  have "filter (\<lambda>e. fst e \<notin> set ks) (remove_key k (sts_account_cache s)) =
      filter (\<lambda>e. fst e \<notin> set (k # ks)) (sts_account_cache s)"
    by (auto simp: remove_key_def intro: filter_cong)
  with Cons.IH [OF acc(3)] acc(1,2) show ?case by (auto simp: remove_key_lookup split: if_splits)
qed simp

lemma loaded_mono: "loaded E A root m \<Longrightarrow> A \<subseteq> B \<Longrightarrow> loaded E B root m"
  by (auto simp: loaded_def)

definition witness_origin :: "ext \<Rightarrow> eth_codec \<Rightarrow> mpt \<Rightarrow> nibs \<Rightarrow> bytes set \<Rightarrow> chunk_tries \<Rightarrow> bool" where
  "witness_origin E C chunk pre B tries \<longleftrightarrow> (\<forall>h trie. map_of tries h = Some trie \<longrightarrow>
     in_chunk pre h \<and> (\<exists>acc. chunk_account C chunk pre h = Ok acc \<and> loaded E B (storage_root_of E acc) trie))"

lemma read_chunk_witnesses_Ok:
  "read_chunk_witnesses E C chunk pre n tries s = (Ok tries', s') \<Longrightarrow>
   raw_hints (sts_input s) \<subseteq> B \<Longrightarrow> witness_origin E C chunk pre B tries \<Longrightarrow>
   s' = s\<lparr>sts_input := sts_input s'\<rparr> \<and> raw_hints (sts_input s') \<subseteq> B \<and> witness_origin E C chunk pre B tries'"
proof (induction n arbitrary: tries s)
  case (Suc n)
  from Suc.prems(1) obtain w hs where hs: "sts_input s = HWitness w # hs"
    unfolding read_chunk_witnesses.simps and_then_witness by blast
  let ?s1 = "s\<lparr>sts_input := hs\<rparr>"
  show ?case
  proof (cases w)
    case (WAccount a)
    with Suc.prems(1) hs have "read_chunk_witnesses E C chunk pre n tries ?s1 = (Ok tries', s')"
      by (auto simp: and_then_witness and_then_pure split: if_splits)
    with Suc.IH [of tries ?s1] Suc.prems hs show ?thesis by auto
  next
    case (WStorageTrie h)
    let ?h = "stoh_hashed_address h"
    from Suc.prems(1) hs WStorageTrie obtain acc bs hs2 m rest trie where
      r: "in_chunk pre ?h" "chunk_account C chunk pre ?h = Ok acc"
        "decode_trie E bs (stoh_num_nodes h) = Ok (m, rest)" "hash E m = (Ok (storage_root_of E acc), trie)"
        "read_chunk_witnesses E C chunk pre n ((?h, trie) # tries) (s\<lparr>sts_input := hs2\<rparr>) = (Ok tries', s')"
      and s2: "hs = HRaw bs # hs2"
      by (auto simp: and_then_witness and_then_raw and_then_pure decode_hash_Ok split: if_splits)
    have "loaded E B (storage_root_of E acc) trie"
      using r(3,4) s2 hs Suc.prems(2) unfolding loaded_def by (intro bexI [of _ bs]) auto
    with r(1,2) Suc.prems(3) have "witness_origin E C chunk pre B ((?h, trie) # tries)" by (auto simp: witness_origin_def)
    with Suc.IH [OF r(5)] s2 hs Suc.prems(2) show ?thesis by auto
  qed (use Suc.prems(1) hs in \<open>auto simp: and_then_witness\<close>)
qed simp

section \<open>Updating the accounts of a chunk\<close>

definition entry_ok :: "nibs \<Rightarrow> bundle_entry \<Rightarrow> bool" where
  "entry_ok pre e \<longleftrightarrow> fst (snd e) = to_nibs (fst e) \<and> length (fst e) = 32 \<and> prefix pre (to_nibs (fst e))
     \<and> length (acct_storage (snd (snd e))) < 2 ^ 28"

definition suffix_of :: "nibs \<Rightarrow> bundle_entry \<Rightarrow> nibs" where
  "suffix_of pre e = drop (length pre) (fst (snd e))"

text \<open>What is read from the chunk at an entry is what the full trie stores there.\<close>

definition reads_ok :: "ptree \<Rightarrow> nibs \<Rightarrow> mpt \<Rightarrow> bundle_entry \<Rightarrow> bool" where
  "reads_ok F pre chunk e \<longleftrightarrow>
     (\<forall>v. get_nibbles chunk (suffix_of pre e) = Ok v \<longrightarrow> pt_get F (to_nibs (fst e)) = Ok v)"

text \<open>The storage tries at hand for an entry come from the hints and have the right root.\<close>

definition tries_ok :: "ext \<Rightarrow> bytes set \<Rightarrow> (bytes \<Rightarrow> ptree) \<Rightarrow> streaming_state \<Rightarrow> chunk_tries \<Rightarrow> bundle_entry \<Rightarrow> bool" where
  "tries_ok E B S s tries e \<longleftrightarrow>
     (\<forall>trie. sts_storage_tries s (fst e) = Some trie \<or> map_of tries (fst e) = Some trie \<longrightarrow>
        loaded E B (root_hash E (S (fst e))) trie)"

text \<open>Updating a storage trie from the hints merges no unresolved node.\<close>

definition storage_known :: "ext \<Rightarrow> eth_codec \<Rightarrow> bytes set \<Rightarrow> (bytes \<Rightarrow> ptree) \<Rightarrow> bundle_entry \<Rightarrow> bool" where
  "storage_known E C B S e \<longleftrightarrow> (\<forall>m t. loaded E B (root_hash E (S (fst e))) m \<longrightarrow> repr_tree E m t \<longrightarrow>
     merges_known (slot_updates E C (snd (snd e))) t)"

text \<open>The streaming state changes in its storage tries only, which it can lose.\<close>

definition fewer_tries :: "streaming_state \<Rightarrow> chunk_tries \<Rightarrow> streaming_state \<Rightarrow> chunk_tries \<Rightarrow> bool" where
  "fewer_tries s tries s' tries' \<longleftrightarrow>
     (\<exists>t. s' = s\<lparr>sts_storage_tries := t\<rparr> \<and> (\<forall>k trie. t k = Some trie \<longrightarrow> sts_storage_tries s k = Some trie))
     \<and> (\<forall>k trie. map_of tries' k = Some trie \<longrightarrow> map_of tries k = Some trie)"

lemma fewer_tries_trans:
  "fewer_tries s tries s1 tries1 \<Longrightarrow> fewer_tries s1 tries1 s' tries' \<Longrightarrow> fewer_tries s tries s' tries'"
  unfolding fewer_tries_def
proof (elim conjE exE)
  fix t1 t2 assume "s1 = s\<lparr>sts_storage_tries := t1\<rparr>" "s' = s1\<lparr>sts_storage_tries := t2\<rparr>"
    "\<forall>k trie. t1 k = Some trie \<longrightarrow> sts_storage_tries s k = Some trie"
    "\<forall>k trie. t2 k = Some trie \<longrightarrow> sts_storage_tries s1 k = Some trie"
    "\<forall>k trie. map_of tries1 k = Some trie \<longrightarrow> map_of tries k = Some trie"
    "\<forall>k trie. map_of tries' k = Some trie \<longrightarrow> map_of tries1 k = Some trie"
  then show "(\<exists>t. s' = s\<lparr>sts_storage_tries := t\<rparr> \<and> (\<forall>k trie. t k = Some trie \<longrightarrow> sts_storage_tries s k = Some trie))
      \<and> (\<forall>k trie. map_of tries' k = Some trie \<longrightarrow> map_of tries k = Some trie)"
    by (intro conjI exI [of _ t2]) simp_all
qed

lemma fewer_tries_refl [simp]: "fewer_tries s tries s tries"
  unfolding fewer_tries_def by (intro conjI exI [of _ "sts_storage_tries s"]) simp_all

lemma fewer_tries_ok: "fewer_tries s tries s' tries' \<Longrightarrow> tries_ok E B S s tries e \<Longrightarrow> tries_ok E B S s' tries' e"
  unfolding fewer_tries_def tries_ok_def by (elim conjE exE) simp

lemma fewer_tries_drop:
  assumes "s' = s \<or> s' = s\<lparr>sts_storage_tries := (sts_storage_tries s)(h := None)\<rparr>" "tries' = tries \<or> tries' = remove_key h tries"
  shows "fewer_tries s tries s' tries'"
proof -
  have "\<exists>t. s' = s\<lparr>sts_storage_tries := t\<rparr> \<and> (\<forall>k trie. t k = Some trie \<longrightarrow> sts_storage_tries s k = Some trie)"
    using assms(1) by (elim disjE) (rule exI [of _ "sts_storage_tries s"], simp, force split: if_splits)
  then show ?thesis using assms(2) by (auto simp: fewer_tries_def remove_key_lookup split: if_splits)
qed

lemma chunk_read:
  "reads_ok F pre chunk e \<Longrightarrow> get_rlp_nibbles (account_decode C) chunk (suffix_of pre e) = Ok acc \<Longrightarrow>
   account_at C F (fst e) = Ok acc"
  by (auto simp: reads_ok_def get_rlp_nibbles_def account_at_def split: outcome.splits option.splits sum.splits)

context rlp_laws
begin

lemma apply_chunk_account_Ok:
  assumes world: "storage_world E C F S" and e: "entry_ok pre e" "reads_ok F pre chunk e"
    and B: "\<And>bs. bs \<in> B \<Longrightarrow> bytes_ok E bs (S (fst e))" "storage_known E C B S e" "tries_ok E B S s tries e"
    and run: "apply_chunk_account E C pre e chunk tries s = (Ok (chunk', tries'), s')"
  shows "apply_updates insert_nibbles delete_nibbles (below pre [entry_update E C S e]) chunk = (Ok (), chunk')
    \<and> fewer_tries s tries s' tries'"
proof -
  obtain h nibs account where e_def: "e = (h, nibs, account)" by (cases e)
  let ?suf = "drop (length pre) nibs"
  from run [unfolded e_def apply_chunk_account_def prod.case Let_def insert_rlp_nibbles_def written_account_def [symmetric]]
  obtain old where old: "get_rlp_nibbles (account_decode C) chunk ?suf = Ok old"
    and cont: "(case acct_info account of
        Some info \<Rightarrow> and_then (new_storage_root E C h account old tries s) (\<lambda>(storage_root, tries) s.
          (case insert_nibbles ?suf (account_encode C (written_account info storage_root)) chunk of
             (r, chunk) \<Rightarrow> and_then (lift_outcome MptError r, s) (\<lambda>_ s. (Ok (chunk, tries), s))))
      | None \<Rightarrow> (case delete_nibbles ?suf chunk of (r, chunk) \<Rightarrow> and_then (lift_outcome MptError r, s) (\<lambda>_ s.
          (Ok (chunk, tries), s\<lparr>sts_storage_tries := (sts_storage_tries s)(h := None)\<rparr>)))) = (Ok (chunk', tries'), s')"
    by (auto simp: and_then_pure lift_outcome_Ok)
  have acc: "account_at C F h = Ok old" using chunk_read [OF e(2), of C old] old e_def by (simp add: suffix_of_def)
  show ?thesis
  proof (cases "acct_info account")
    case None
    with cont obtain b where "delete_nibbles ?suf chunk = (Ok b, chunk')" "tries' = tries"
      "s' = s\<lparr>sts_storage_tries := (sts_storage_tries s)(h := None)\<rparr>"
      by (auto simp: and_then_pure lift_outcome_Ok split: prod.splits)
    with None e_def fewer_tries_drop [of s' s h tries' tries] show ?thesis by (simp add: entry_update_def)
  next
    case (Some info)
    with cont obtain root b where
      root: "new_storage_root E C h account old tries s = (Ok (root, tries'), s')"
      and ins: "insert_nibbles ?suf (account_encode C (written_account info root)) chunk = (Ok b, chunk')"
      by (auto simp: and_then_pure lift_outcome_Ok elim!: and_then_OkE split: prod.splits)
    have small: "length (acct_storage account) < 2 ^ 28" using e(1) e_def by (simp add: entry_ok_def)
    have "(\<exists>T. new_storage E C S h account = Ok T \<and> root = root_hash E T)
      \<and> (s' = s \<or> s' = s\<lparr>sts_storage_tries := (sts_storage_tries s)(h := None)\<rparr>) \<and> (tries' = tries \<or> tries' = remove_key h tries)"
      by (rule new_storage_root_correct [OF world acc small _ _ _ root, of B])
        (use B e_def in \<open>auto simp: storage_known_def tries_ok_def\<close>)
    with ins Some e_def fewer_tries_drop [of s' s h tries' tries] show ?thesis by (auto simp: entry_update_def)
  qed
qed

end

end
