(* ===== verification/Stream_Step.thy ===== *)
theory Stream_Step
  imports Stream_Chunk
begin

text \<open>
  One chunk of the streamed update is correct: if the client accepts it, the accounts it checked are
  those of the full trie, and the frontier afterwards blinds the full trie in which exactly the
  chunk's accounts are updated.
\<close>

section \<open>Subtrees\<close>

lemma pt_get_sub_at: "sub_at F pre = Some G \<Longrightarrow> pt_get F (pre @ k) = pt_get G k"
proof (induction F pre rule: sub_at.induct)
  case (3 p c h l)
  then obtain s where s: "h # l = p @ s" by (auto simp: prefix_def split: if_splits)
  have "p @ s \<noteq> []" using s by (metis list.distinct(1))
  with 3(2) s have "sub_at c s = Some G" by (simp add: sub_at_Ext)
  with 3(1) s show ?case by (simp flip: append_Cons add: s)
qed (auto split: option.splits if_splits)

lemma sub_at_subs: "sub_at F pre = Some G \<Longrightarrow> G = PNull \<or> G \<in> set (pt_subs F)"
proof (induction F pre rule: sub_at.induct)
  case (1 t)
  then show ?case using pt_subs_self by auto
next
  case (2 cs h k)
  show ?case
  proof (cases "cs ! unat h")
    case (Some c)
    with 2 have "G = PNull \<or> G \<in> set (pt_subs c)" "c \<in> set (pkids (PBranch cs))"
      by (auto split: if_splits simp: in_set_conv_nth)
    with pt_subs_kid show ?thesis by blast
  qed (use 2 in \<open>auto split: if_splits\<close>)
next
  case (3 p c h k)
  then have "G = PNull \<or> G \<in> set (pt_subs c)" by (auto split: if_splits)
  with pt_subs_kid [of c "PExt p c"] show ?case by auto
qed auto

lemma pt_subs_cases:
  assumes "s \<in> set (pt_subs t)"
  obtains "s = t" | c where "c \<in> set (pkids t)" "s \<in> set (pt_subs c)"
  using assms by (subst (asm) pt_subs.simps) auto

lemma pt_subs_sub: "s \<in> set (pt_subs t) \<Longrightarrow> set (pt_subs s) \<subseteq> set (pt_subs t)"
proof (induction t rule: pt_subs.induct)
  case (1 t)
  from "1.prems" show ?case using "1.IH" pt_subs_kid by (cases rule: pt_subs_cases) blast+
qed

lemma pt_replace_slot:
  "pt_replace E t pre x n = Ok t' \<Longrightarrow> \<exists>s. sub_at t pre = Some s \<and> root_hash E s = x"
proof (induction t pre arbitrary: t' rule: sub_at.induct)
  case (2 cs h k)
  have "root_hash E PNull = EMPTY_ROOT_HASH E" by (simp add: root_hash_def)
  with 2 show ?case by (cases "cs ! unat h") (auto split: if_splits outcome.splits)
next
  case (3 p c h k)
  then show ?case by (auto split: if_splits outcome.splits)
qed (auto split: if_splits)

lemma blinds_sub_at_ex:
  "blinds E t F \<Longrightarrow> sub_at t pre = Some s \<Longrightarrow> \<exists>G. sub_at F pre = Some G \<and> blinds E s G"
proof (induction t pre arbitrary: F rule: sub_at.induct)
  case (2 cs h k)
  from 2(2) obtain ds where ds: "F = PBranch ds" "blinds_kids E cs ds" by (rule blinds_branchD)
  have h: "unat h < length cs" using 2(3) by (auto split: if_splits)
  from blinds_kids_nth [OF ds(2) h] blinds_kids_length [OF ds(2)] show ?case
    using 2 ds(1) h by (cases "cs ! unat h"; cases "ds ! unat h") (auto intro: blinds.same split: if_splits)
next
  case (3 p c h k)
  from 3(2) obtain d where "F = PExt p d" "blinds E c d" by (rule blinds_extD)
  with 3 show ?case by (auto split: if_splits)
qed auto

section \<open>Updates below a prefix\<close>

lemma viewed_append: "viewed pos (us @ vs) f = viewed pos vs (viewed pos us f)"
  by (simp add: viewed_def)

lemma viewed_id_cong:
  "(\<And>p. nibbles p \<Longrightarrow> f p = g p) \<Longrightarrow> nibbles p \<Longrightarrow> viewed (\<lambda>k. k) us f p = viewed (\<lambda>k. k) us g p"
  by (induction us arbitrary: p rule: rev_induct) (auto simp: viewed_def split: prod.splits)

lemma viewed_other: "k \<notin> fst ` set us \<Longrightarrow> viewed (\<lambda>k. k) us f k = f k"
  by (induction us rule: rev_induct) (auto simp: viewed_def split: prod.splits)

lemma viewed_below:
  "list_all (\<lambda>u. prefix pre (fst u)) us \<Longrightarrow>
   viewed (\<lambda>k. k) (below pre us) (\<lambda>p. f (pre @ p)) k = viewed (\<lambda>k. k) us f (pre @ k)"
proof (induction us arbitrary: f)
  case (Cons u us)
  obtain k' v where u: "u = (k', v)" by (cases u)
  with Cons.prems obtain r where r: "k' = pre @ r" by (auto simp: prefix_def)
  have "(\<lambda>p. f (pre @ p))(r := Ok v) = (\<lambda>p. (f(k' := Ok v)) (pre @ p))" using r by (auto simp: fun_eq_iff)
  with Cons.IH [of "f(k' := Ok v)"] Cons.prems u r show ?case by (simp del: fun_upd_apply)
qed simp

lemma put_at_viewed:
  assumes sub: "sub_at T pre = Some G" and pre: "nibbles pre" "list_all (\<lambda>u. prefix pre (fst u)) us"
    and G': "\<And>p. nibbles p \<Longrightarrow> pt_get G' p = viewed (\<lambda>k. k) (below pre us) (pt_get G) p" and k: "nibbles k"
  shows "pt_get (put_at T pre G') k = viewed (\<lambda>k. k) us (pt_get T) k"
proof (cases "prefix pre k")
  case True
  then obtain r where r: "k = pre @ r" by (auto simp: prefix_def)
  have "pt_get G = (\<lambda>p. pt_get T (pre @ p))" using pt_get_sub_at [OF sub] by (simp add: fun_eq_iff)
  with viewed_below [OF pre(2), of "pt_get T" r] G' [of r] k r pt_get_put_at [OF sub, of G' k] show ?thesis by simp
next
  case False
  with pre(2) have "k \<notin> fst ` set us" by (auto simp: list_all_iff)
  with viewed_other [of k us "pt_get T"] False pt_get_put_at [OF sub, of G' k] show ?thesis by simp
qed

lemma merges_known_digest: "pt_updates us t = Ok t' \<Longrightarrow> known t \<Longrightarrow> known t'"
proof (induction us arbitrary: t)
  case (Cons u us)
  obtain k v where u: "u = (k, v)" by (cases u)
  have ins: "known t1" if "pt_insert t k w = Ok (b, t1)" "known t" for w b t1
    using that by (cases t) (auto simp: pt_fork_def Let_def pt_insert.simps split: list.splits if_splits option.splits outcome.splits)
  have del: "known t1" if "pt_delete t k = Ok (b, t1)" "known t" for b t1
    using that known_delete [of t k t1] pt_delete_updated [of t k b t1] by (cases b) auto
  from Cons u ins del show ?case by (cases v) (auto split: outcome.splits)
qed auto

lemma blinds_known_anchor: "blinds E t T \<Longrightarrow> known t \<Longrightarrow> pt_anchor t \<longleftrightarrow> pt_anchor T"
  by (cases rule: blinds.cases, assumption) auto

section \<open>The accounts of a chunk\<close>

lemma suffix_inj:
  assumes "entry_ok pre e" "entry_ok pre e'" "suffix_of pre e = suffix_of pre e'"
  shows "fst e = fst e'"
proof -
  have "to_nibs (fst e) = pre @ suffix_of pre e" if "entry_ok pre e" for e
    using that by (auto simp: entry_ok_def suffix_of_def prefix_def)
  with assms have "to_nibs (fst e) = to_nibs (fst e')" by metis
  then show ?thesis by (simp add: to_nibs_inject)
qed

lemma fst_entry_update [simp]: "fst (entry_update E C S e) = fst (snd e)"
  by (cases e) (simp add: entry_update_def)

section \<open>Stages of the update\<close>

text \<open>Account tries are full, and every node is hash-addressed: an account is longer than a digest.\<close>

definition account_trie :: "ext \<Rightarrow> ptree \<Rightarrow> bool" where
  "account_trie E T \<longleftrightarrow> full_trie E T
     \<and> (\<forall>s \<in> set (pt_subs T). \<exists>d. tree_ref E s = RefDigest d \<and> d \<noteq> EMPTY_ROOT_HASH E)"

text \<open>The canonical trie after some updates.\<close>

definition after :: "ptree \<Rightarrow> (nibs \<times> bytes option) list \<Rightarrow> ptree \<Rightarrow> bool" where
  "after F us T \<longleftrightarrow> canon_top T \<and> (\<forall>k. nibbles k \<longrightarrow> pt_get T k = viewed (\<lambda>k. k) us (pt_get F) k)"

text \<open>
  Updating a chunk neither merges an unresolved node, nor empties the chunk, nor turns a branch into
  another node.
\<close>

definition chunk_safe :: "(nibs \<times> bytes option) list \<Rightarrow> ptree \<Rightarrow> bool" where
  "chunk_safe us t \<longleftrightarrow> merges_known us t
     \<and> (\<forall>t'. pt_updates us t = Ok t' \<longrightarrow> t' \<noteq> PNull \<and> (pt_anchor t \<longrightarrow> pt_anchor t'))"

definition chunk_entries :: "bundle_entry list \<Rightarrow> nibs \<Rightarrow> nat \<Rightarrow> bundle_entry list" where
  "chunk_entries accounts pre c = take (advance_cursor accounts pre c - c) (drop c accounts)"

text \<open>What is assumed of the trie after \<open>c\<close> entries, and of the hints \<open>B\<close> at that stage.\<close>

definition stage_ok ::
  "ext \<Rightarrow> eth_codec \<Rightarrow> (bytes \<Rightarrow> ptree) \<Rightarrow> bundle_entry list \<Rightarrow> bytes set \<Rightarrow> nat \<Rightarrow> ptree \<Rightarrow> bool" where
  "stage_ok E C S accounts B c T \<longleftrightarrow> account_trie E T \<and> (\<forall>bs \<in> B. bytes_ok E bs T)
     \<and> (\<forall>pre G m t. sub_at T pre = Some G \<longrightarrow> loaded E B (root_hash E G) m \<longrightarrow> repr_tree E m t \<longrightarrow>
          chunk_entries accounts pre c \<noteq> [] \<longrightarrow>
          chunk_safe (below pre (map (entry_update E C S) (chunk_entries accounts pre c))) t)"

definition frontier_holds :: "ext \<Rightarrow> streaming_state \<Rightarrow> ptree \<Rightarrow> nat \<Rightarrow> bool" where
  "frontier_holds E s T n \<longleftrightarrow>
     (\<exists>m t. sts_state_trie s = Some m \<and> stores_tree E m t \<and> blinds E t T \<and> length (nodes m) + n < 2 ^ 32)"

context rlp_laws
begin

lemma account_trie_sub:
  assumes "account_trie E T" "sub_at T pre = Some G"
  shows "named_trie E G" "canon_top G"
proof -
  have "full_trie E G" if "G \<in> set (pt_subs T)"
  proof -
    have "set (pt_subs G) \<subseteq> set (pt_subs T)" using that by (rule pt_subs_sub)
    moreover have "canon G \<and> resolved G"
      using that assms(1) unfolding account_trie_def full_trie_def
    proof (elim conjE)
      assume "canon T" "resolved T" "G \<in> set (pt_subs T)"
      then show ?thesis
      proof (induction T rule: pt_subs.induct)
        case (1 t)
        from "1.prems"(3) show ?case
          using 1 canon_pkids resolved_pkids by (cases rule: pt_subs_cases) blast+
      qed
    qed
    ultimately show ?thesis using assms(1) by (auto simp: account_trie_def full_trie_def)
  qed
  with sub_at_subs [OF assms(2)] assms(1) show "named_trie E G" "canon_top G"
    by (auto simp: named_trie_def account_trie_def full_trie_def canon_top_def)
qed

lemma bytes_ok_sub:
  assumes "bytes_ok E bs T" "sub_at T pre = Some G"
  shows "bytes_ok E bs G"
proof (cases "G = PNull")
  case True
  with assms(1) empty_root show ?thesis by (auto simp: bytes_ok_def collision_free_def pt_subs.simps [of PNull])
next
  case False
  have "set (pt_subs G) \<subseteq> set (pt_subs T)" using sub_at_subs [OF assms(2)] False pt_subs_sub by blast
  with assms(1) show ?thesis by (auto simp: bytes_ok_def collision_free_def)
qed

lemma apply_chunk_accounts_Ok:
  assumes "storage_world E C F S" "mpt_inv E chunk" "trie_room (length es) chunk" "distinct (map fst es)"
    and "\<And>e. e \<in> set es \<Longrightarrow> entry_ok pre e \<and> reads_ok F pre chunk e \<and> storage_known E C B S e
      \<and> tries_ok E B S s tries e \<and> (\<forall>bs \<in> B. bytes_ok E bs (S (fst e)))"
    and "apply_chunk_accounts E C pre es chunk tries s = (Ok (chunk', tries'), s')"
  shows "apply_updates insert_nibbles delete_nibbles (below pre (map (entry_update E C S) es)) chunk = (Ok (), chunk')
    \<and> fewer_tries s tries s' tries'"
  using assms
proof (induction es arbitrary: chunk tries s)
  case (Cons e es)
  from Cons.prems(6) obtain chunk1 tries1 s1 where
    r: "apply_chunk_account E C pre e chunk tries s = (Ok (chunk1, tries1), s1)"
      "apply_chunk_accounts E C pre es chunk1 tries1 s1 = (Ok (chunk', tries'), s')"
    by (auto simp: and_then_Ok_iff)
  have e: "entry_ok pre e" "reads_ok F pre chunk e" "storage_known E C B S e" "tries_ok E B S s tries e"
    "\<And>bs. bs \<in> B \<Longrightarrow> bytes_ok E bs (S (fst e))" using Cons.prems(5) [of e] by auto
  from apply_chunk_account_Ok [OF Cons.prems(1) e(1,2,5,3,4) r(1)] have
    u: "apply_updates insert_nibbles delete_nibbles (below pre [entry_update E C S e]) chunk = (Ok (), chunk1)"
    and f: "fewer_tries s tries s1 tries1" by auto
  have nib: "nibbles (suffix_of pre e')" if "entry_ok pre e'" for e'
    using that nibbles_to_nibs [of "fst e'"] by (simp add: suffix_of_def entry_ok_def)
  have v: "mpt_inv E chunk1 \<and> trie_room (length es) chunk1 \<and> (\<forall>p. nibbles p \<longrightarrow>
      get_nibbles chunk1 p = viewed (\<lambda>k. k) (below pre [entry_update E C S e]) (get_nibbles chunk) p)"
    by (rule chunk_map.updates_view [OF Cons.prems(2) _ _ u]) (use Cons.prems(3) nib [OF e(1)] in \<open>simp_all add: suffix_of_def\<close>)
  have "entry_ok pre e' \<and> reads_ok F pre chunk1 e' \<and> storage_known E C B S e'
      \<and> tries_ok E B S s1 tries1 e' \<and> (\<forall>bs \<in> B. bytes_ok E bs (S (fst e')))" if e': "e' \<in> set es" for e'
  proof -
    have c: "entry_ok pre e'" "reads_ok F pre chunk e'" "storage_known E C B S e'" "tries_ok E B S s tries e'"
      "\<forall>bs \<in> B. bytes_ok E bs (S (fst e'))" using Cons.prems(5) [of e'] e' by auto
    have "fst e' \<noteq> fst e" using Cons.prems(4) e' by simp (metis image_eqI)
    then have "suffix_of pre e' \<noteq> suffix_of pre e" using suffix_inj [OF c(1) e(1)] by blast
    then have "get_nibbles chunk1 (suffix_of pre e') = get_nibbles chunk (suffix_of pre e')"
      using v nib [OF c(1)] by (simp add: suffix_of_def)
    with c f fewer_tries_ok show ?thesis by (auto simp: reads_ok_def)
  qed
  with Cons.IH [of chunk1 s1 tries1] Cons.prems v r(2) have
    ih: "apply_updates insert_nibbles delete_nibbles (below pre (map (entry_update E C S) es)) chunk1 = (Ok (), chunk')"
      "fewer_tries s1 tries1 s' tries'" by auto
  from u ih(1) have "apply_updates insert_nibbles delete_nibbles (below pre (map (entry_update E C S) (e # es))) chunk =
      (Ok (), chunk')"
    by (cases "snd (entry_update E C S e)") (auto simp: and_then_Ok_iff)
  with fewer_tries_trans [OF f ih(2)] show ?case by simp
qed simp

end

end
