(* ===== verification/Stream_Run.thy ===== *)
theory Stream_Run
  imports Stream_Step
begin

text \<open>
  The streamed update over all chunks. The invariant says which full trie the frontier blinds, that
  the accounts still in the cache belong to entries not yet updated, and where the loaded storage
  tries come from.
\<close>

section \<open>Parts of a chunk step\<close>

lemma process_chunk_parts:
  assumes "process_chunk E C accounts c s = (Ok c', s')"
  obtains h chunk s1 s2 tries s3 chunk' s4 where "read_chunk E s = (Ok (h, chunk), s1)"
    "consume_cached C chunk (sch_prefix h) (filter (in_chunk (sch_prefix h)) (map fst (sts_account_cache s1))) s1 = (Ok (), s2)"
    "read_chunk_witnesses E C chunk (sch_prefix h) (sch_witness_count h) [] s2 = (Ok tries, s3)"
    "c' = advance_cursor accounts (sch_prefix h) c" "c' \<noteq> c"
    "apply_chunk_accounts E C (sch_prefix h) (chunk_entries accounts (sch_prefix h) c) chunk tries s3 = (Ok (chunk', []), s4)"
    "finish_chunk E h chunk' s4 = (Ok (), s')"
proof -
  from assms obtain h chunk s1 s2 tries s3 where r: "read_chunk E s = (Ok (h, chunk), s1)"
    "consume_cached C chunk (sch_prefix h) (filter (in_chunk (sch_prefix h)) (map fst (sts_account_cache s1))) s1 = (Ok (), s2)"
    "read_chunk_witnesses E C chunk (sch_prefix h) (sch_witness_count h) [] s2 = (Ok tries, s3)"
    and rest: "(let cursor' = advance_cursor accounts (sch_prefix h) c in
       if cursor' = c then (Err (TrieWitnessError (ChunkWithoutAccounts (sch_prefix h))), s3)
       else and_then (apply_chunk_accounts E C (sch_prefix h) (take (cursor' - c) (drop c accounts)) chunk tries s3)
         (\<lambda>(chunk, post) s.
           if post \<noteq> [] then (Err (TrieWitnessError UnusedStorageWitnesses), s)
           else and_then (finish_chunk E h chunk s) (\<lambda>_ s. (Ok cursor', s)))) = (Ok c', s')"
    unfolding process_chunk_def by (elim and_then_OkE) (auto elim!: and_then_OkE)
  from rest obtain chunk' s4 where
    "c' = advance_cursor accounts (sch_prefix h) c" "c' \<noteq> c"
    "apply_chunk_accounts E C (sch_prefix h) (take (c' - c) (drop c accounts)) chunk tries s3 = (Ok (chunk', []), s4)"
    "finish_chunk E h chunk' s4 = (Ok (), s')"
    by (auto simp: Let_def elim!: and_then_OkE split: if_splits)
  with r that show thesis unfolding chunk_entries_def by blast
qed

lemma finish_chunk_Ok:
  assumes "finish_chunk E h chunk s = (Ok (), s')" "sts_state_trie s = Some m"
  obtains root chunk' m' where "hash E chunk = (Ok root, chunk')"
    "replace_frontier_slot E (sch_prefix h) (sch_expected_root h) root m = (Ok (), m')"
    "s' = s\<lparr>sts_state_trie := Some m'\<rparr>"
proof -
  obtain r chunk' where hash: "hash E chunk = (r, chunk')" by (cases "hash E chunk")
  with assms obtain root where root: "r = Ok root" by (auto simp: finish_chunk_def and_then_pure lift_outcome_Ok)
  obtain r' m' where rep: "replace_frontier_slot E (sch_prefix h) (sch_expected_root h) root m = (r', m')"
    by (cases "replace_frontier_slot E (sch_prefix h) (sch_expected_root h) root m")
  have "r' = Ok () \<and> s' = s\<lparr>sts_state_trie := Some m'\<rparr>"
    using assms hash root rep
    by (auto simp: finish_chunk_def and_then_pure lift_outcome_Ok elim!: and_then_OkE split: if_splits)
  with that hash root rep show thesis by blast
qed

lemma new_storage_root_frame:
  "new_storage_root E C h account old tries s = (Ok r, s') \<Longrightarrow> sts_state_trie s' = sts_state_trie s"
  by (auto simp: new_storage_root_def Let_def and_then_pure split: if_splits option.splits)

lemma apply_chunk_account_frame:
  assumes "apply_chunk_account E C pre e chunk tries s = (Ok r, s')"
  shows "sts_state_trie s' = sts_state_trie s"
  using assms
  by (cases e; cases "acct_info (snd (snd e))")
    (auto simp: apply_chunk_account_def Let_def and_then_pure split: prod.splits elim!: and_then_OkE dest: new_storage_root_frame)

lemma apply_chunk_accounts_frame:
  "apply_chunk_accounts E C pre es chunk tries s = (Ok r, s') \<Longrightarrow> sts_state_trie s' = sts_state_trie s"
proof (induction es arbitrary: chunk tries s)
  case (Cons e es)
  then obtain chunk1 tries1 s1 where "apply_chunk_account E C pre e chunk tries s = (Ok (chunk1, tries1), s1)"
    "apply_chunk_accounts E C pre es chunk1 tries1 s1 = (Ok r, s')" by (auto simp: and_then_Ok_iff)
  with Cons.IH apply_chunk_account_frame show ?case by metis
qed simp

lemma advance_cursor_le: "c \<le> length accounts \<Longrightarrow> advance_cursor accounts pre c \<le> length accounts"
  using length_takeWhile_le [of "\<lambda>e. starts_with (fst (snd e)) pre" "drop c accounts"] by (simp add: advance_cursor_def)

lemma advance_cursor_ge: "c \<le> advance_cursor accounts pre c"
  by (simp add: advance_cursor_def)

lemma chunk_entries_takeWhile:
  "chunk_entries accounts pre c = takeWhile (\<lambda>e. starts_with (fst (snd e)) pre) (drop c accounts)"
  by (simp add: chunk_entries_def advance_cursor_def takeWhile_eq_take [symmetric])

lemma chunk_entries_prefix: "e \<in> set (chunk_entries accounts pre c) \<Longrightarrow> starts_with (fst (snd e)) pre \<and> e \<in> set (drop c accounts)"
  unfolding chunk_entries_takeWhile by (auto dest: set_takeWhileD)

lemma take_advance:
  "take (advance_cursor accounts pre c) accounts = take c accounts @ chunk_entries accounts pre c"
  using advance_cursor_ge [of c accounts pre] by (simp add: chunk_entries_def take_add [symmetric])

lemma starts_with_prefix: "starts_with ns pre \<longleftrightarrow> prefix pre ns"
  unfolding starts_with_def by (metis append_eq_conv_conj prefix_def)

context rlp_laws
begin

lemma hash_length32: "fst (hash E m) = Ok r \<Longrightarrow> length r = 32"
  by (auto simp: hash_def digest_of_ref_def b256_from_slice_def empty_root_length keccak_length and_then_def
      split: outcome.splits option.splits node_data.splits prod.splits node_ref.splits if_splits)

lemma chunk_slot:
  assumes f: "frontier_holds E s T (Suc n)" and fin: "finish_chunk E h chunk s = (Ok (), s')" and pre: "nibbles (sch_prefix h)"
  obtains G root where "sub_at T (sch_prefix h) = Some G" "root_hash E G = sch_expected_root h"
    "fst (hash E chunk) = Ok root"
    "\<And>G'. tree_ref E G' = RefDigest root \<Longrightarrow> root \<noteq> EMPTY_ROOT_HASH E \<Longrightarrow>
      frontier_holds E s' (put_at T (sch_prefix h) G') n"
    "s' = s\<lparr>sts_state_trie := sts_state_trie s'\<rparr>"
proof -
  let ?pre = "sch_prefix h"
  obtain m t where m: "sts_state_trie s = Some m" "stores_tree E m t" "blinds E t T" "length (nodes m) + Suc n < 2 ^ 32"
    using f by (auto simp: frontier_holds_def)
  obtain root chunk' m' where r: "hash E chunk = (Ok root, chunk')"
    "replace_frontier_slot E ?pre (sch_expected_root h) root m = (Ok (), m')" "s' = s\<lparr>sts_state_trie := Some m'\<rparr>"
    by (rule finish_chunk_Ok [OF fin m(1)])
  have "length root = 32" using hash_length32 [of chunk root] r(1) by simp
  with replaced_slot [OF m(2) pre _ _ r(2)] m(4) obtain t' where
    t': "pt_replace E t ?pre (sch_expected_root h) root = Ok t'" "stores_tree E m' t'" "length (nodes m') \<le> length (nodes m) + 1"
    by (auto split: if_splits)
  obtain s0 where s0: "sub_at t ?pre = Some s0" "root_hash E s0 = sch_expected_root h"
    using pt_replace_slot [OF t'(1)] by blast
  obtain G where G: "sub_at T ?pre = Some G" "blinds E s0 G" using blinds_sub_at_ex [OF m(3) s0(1)] by blast
  have "frontier_holds E s' (put_at T ?pre G') n" if "tree_ref E G' = RefDigest root" "root \<noteq> EMPTY_ROOT_HASH E" for G'
    using pt_replace_blinds [OF m(3) t'(1) G(1) that] t' r(3) m(4) by (auto simp: frontier_holds_def)
  with that G blinds_root_hash [OF G(2)] s0(2) r show thesis by auto
qed

text \<open>The updated chunk, seen on the full trie.\<close>

lemma chunk_updated:
  assumes T: "account_trie E T" "sub_at T pre = Some G" and chunk: "repr_tree E chunk t" "stands_for E t G"
    and us: "nib_keys us" "us \<noteq> []" "chunk_safe us t" and room: "trie_room (length us) chunk"
    and run: "apply_updates insert_nibbles delete_nibbles us chunk = (Ok (), chunk')"
  shows "\<exists>G'. fst (hash E chunk') = Ok (root_hash E G') \<and> canon G' \<and> (pt_anchor G \<longrightarrow> pt_anchor G')
    \<and> (\<forall>p. nibbles p \<longrightarrow> pt_get G' p = viewed (\<lambda>k. k) us (pt_get G) p)"
proof -
  obtain t' where t': "pt_updates us t = Ok t'" "repr_tree E chunk' t'"
    using apply_nibbles_repr [OF chunk(1) _ us(1) run, of 0] room by auto
  obtain G' where G': "pt_updates us G = Ok G'" "blinds E t' G'"
    using stands_for_updates [OF chunk(2) repr_canon [OF chunk(1)] us(1) _ t'(1) us(2)] us(3) by (auto simp: chunk_safe_def)
  have k: "known t" using t'(1) us(2) pt_updates_digest by (auto simp: known_def split: ptree.splits)
  then have b: "blinds E t G" using chunk(2) by (auto simp: stands_for_def)
  have k': "known t'" using merges_known_digest [OF t'(1) k] .
  have "t' \<noteq> PNull" "pt_anchor t \<longrightarrow> pt_anchor t'" using us(3) t'(1) by (auto simp: chunk_safe_def)
  then have "G' \<noteq> PNull" "pt_anchor G \<longrightarrow> pt_anchor G'"
    using blinds_Null [OF G'(2)] blinds_known_anchor [OF b k] blinds_known_anchor [OF G'(2) k'] by auto
  moreover note pt_updates_view [OF G'(1) account_trie_sub(2) [OF T] us(1)]
  moreover have "fst (hash E chunk') = Ok (root_hash E G')"
    using hash_repr [OF t'(2)] blinds_root_hash [OF G'(2)] by auto
  ultimately show ?thesis by (auto simp: canon_top_def)
qed

end

section \<open>The invariant of the loop\<close>

definition accounts_ok :: "bundle_entry list \<Rightarrow> bool" where
  "accounts_ok accounts \<longleftrightarrow> length accounts < 2 ^ 28 \<and> distinct (map fst accounts)
     \<and> (\<forall>e \<in> set accounts. fst (snd e) = to_nibs (fst e) \<and> length (fst e) = 32 \<and> length (acct_storage (snd (snd e))) < 2 ^ 28)"

text \<open>The hypotheses of the whole run: the full state, the hints and the stages.\<close>

definition run_ok ::
  "ext \<Rightarrow> eth_codec \<Rightarrow> ptree \<Rightarrow> (bytes \<Rightarrow> ptree) \<Rightarrow> bundle_entry list \<Rightarrow> bytes set \<Rightarrow> bool" where
  "run_ok E C F S accounts B \<longleftrightarrow> storage_world E C F S \<and> accounts_ok accounts
     \<and> (\<forall>e \<in> set accounts. storage_known E C B S e \<and> (\<forall>bs \<in> B. bytes_ok E bs (S (fst e))))
     \<and> (\<forall>c T. c \<le> length accounts \<longrightarrow> after F (map (entry_update E C S) (take c accounts)) T \<longrightarrow>
          stage_ok E C S accounts B c T)"

definition run_inv ::
  "ext \<Rightarrow> eth_codec \<Rightarrow> ptree \<Rightarrow> (bytes \<Rightarrow> ptree) \<Rightarrow> bundle_entry list \<Rightarrow> bytes set \<Rightarrow> nat \<Rightarrow> nat \<Rightarrow> streaming_state \<Rightarrow>
   ptree \<Rightarrow> bool" where
  "run_inv E C F S accounts B n c s T \<longleftrightarrow> c \<le> length accounts \<and> frontier_holds E s T n
     \<and> after F (map (entry_update E C S) (take c accounts)) T \<and> raw_hints (sts_input s) \<subseteq> B
     \<and> (\<forall>k acc. map_of (sts_account_cache s) k = Some acc \<longrightarrow> length k = 32 \<and> k \<notin> fst ` set (take c accounts))
     \<and> (\<forall>e \<in> set (drop c accounts). \<forall>trie. sts_storage_tries s (fst e) = Some trie \<longrightarrow>
          loaded E B (root_hash E (S (fst e))) trie
          \<or> (\<exists>acc. map_of (sts_account_cache s) (fst e) = Some acc \<and> loaded E B (storage_root_of E acc) trie))"

lemma chunk_entries_ok:
  assumes "accounts_ok accounts" "e \<in> set (chunk_entries accounts pre c)"
  shows "entry_ok pre e" "e \<in> set (drop c accounts)"
proof -
  have e: "prefix pre (fst (snd e))" "e \<in> set (drop c accounts)"
    using chunk_entries_prefix [OF assms(2)] by (simp_all add: starts_with_prefix)
  then have "e \<in> set accounts" by (auto dest: in_set_dropD)
  with e assms(1) show "entry_ok pre e" "e \<in> set (drop c accounts)" by (auto simp: entry_ok_def accounts_ok_def)
qed

lemma chunk_entries_nibbles:
  assumes "accounts_ok accounts" "chunk_entries accounts pre c \<noteq> []"
  shows "nibbles pre"
proof -
  obtain e where "e \<in> set (chunk_entries accounts pre c)" using assms(2) by (cases "chunk_entries accounts pre c") auto
  from chunk_entries_ok(1) [OF assms(1) this] have "prefix pre (to_nibs (fst e))" by (simp add: entry_ok_def)
  then obtain r where "to_nibs (fst e) = pre @ r" by (auto simp: prefix_def)
  with nibbles_to_nibs [of "fst e"] nibbles_simps(3) [of pre r] show ?thesis by metis
qed

lemma chunk_entries_ne: "advance_cursor accounts pre c \<noteq> c \<Longrightarrow> chunk_entries accounts pre c \<noteq> []"
  by (auto simp: chunk_entries_takeWhile advance_cursor_def)

lemma distinct_chunk_entries:
  assumes "accounts_ok accounts"
  shows "distinct (map fst (chunk_entries accounts pre c))" "length (chunk_entries accounts pre c) < 2 ^ 28"
proof -
  have d: "distinct (map fst accounts)" "length accounts < 2 ^ 28" using assms by (simp_all add: accounts_ok_def)
  then show "distinct (map fst (chunk_entries accounts pre c))"
    by (simp add: chunk_entries_def take_map [symmetric] drop_map [symmetric])
  show "length (chunk_entries accounts pre c) < 2 ^ 28" using d(2) by (simp add: chunk_entries_def)
qed

lemma account_at_after:
  assumes "after F (map (entry_update E C S) es) T" "\<And>e. e \<in> set es \<Longrightarrow> fst (snd e) = to_nibs (fst e)" "k \<notin> fst ` set es"
  shows "pt_get T (to_nibs k) = pt_get F (to_nibs k)"
proof -
  have "to_nibs k \<notin> fst ` set (map (entry_update E C S) es)"
  proof
    assume "to_nibs k \<in> fst ` set (map (entry_update E C S) es)"
    then obtain e where e: "e \<in> set es" "to_nibs k = fst (snd e)" by auto
    with assms(2) [OF e(1)] have "k = fst e" by (simp add: to_nibs_inject)
    with e(1) assms(3) show False by simp
  qed
  with assms(1) viewed_other [of "to_nibs k" _ "pt_get F"] show ?thesis by (simp add: after_def)
qed

lemma in_chunk_prefix: "length k = 32 \<Longrightarrow> in_chunk pre k \<longleftrightarrow> prefix pre (to_nibs k)"
  using b256_nibbles_fold [of 32 k] by (simp add: in_chunk_def b256_nibbles_def starts_with_prefix)

lemma map_of_filter_fst: "map_of (filter (\<lambda>e. fst e \<notin> K) m) k = (if k \<in> K then None else map_of m k)"
  by (induction m) auto

lemma filter_in_map_of: "k \<in> set (filter P (map fst m)) \<longleftrightarrow> P k \<and> map_of m k \<noteq> None"
  by (force simp: map_of_eq_None_iff)

context rlp_laws
begin

lemma chunk_account_authentic:
  assumes t: "repr_tree E chunk t" "stands_for E t G" and sub: "sub_at T pre = Some G"
    and k: "length k = 32" "in_chunk pre k" "chunk_account C chunk pre k = Ok acc"
  shows "account_at C T k = Ok acc"
proof -
  have nibs: "b256_nibbles k = to_nibs k" using b256_nibbles_fold [of 32 k] k(1) by (simp add: b256_nibbles_def)
  obtain r where r: "to_nibs k = pre @ r" using k(1,2) in_chunk_prefix by (auto simp: prefix_def)
  then have "nibbles r" using nibbles_to_nibs [of k] by simp
  then have get: "pt_get T (to_nibs k) = Ok v" if "get_nibbles chunk r = Ok v" for v
    using that get_nibbles_repr [OF t(1)] stands_for_get [OF t(2)] pt_get_sub_at [OF sub] r by simp
  from k(3) nibs r have "get_rlp_nibbles (account_decode C) chunk r = Ok acc"
    by (simp add: chunk_account_def lift_outcome_Ok)
  then show ?thesis using get
    by (auto simp: get_rlp_nibbles_def account_at_def split: outcome.splits option.splits sum.splits)
qed

lemma chunk_stage:
  assumes stage: "stage_ok E C S accounts B c T" and after: "after F (map (entry_update E C S) (take c accounts)) T"
    and acc: "accounts_ok accounts" "chunk_entries accounts pre c \<noteq> []" and sub: "sub_at T pre = Some G"
    and chunk: "repr_tree E chunk t" "stands_for E t G" "loaded E B (root_hash E G) chunk" "length (nodes chunk) \<le> 2 ^ 31"
    and us: "us = map (entry_update E C S) (chunk_entries accounts pre c)"
    and run: "apply_updates insert_nibbles delete_nibbles (below pre us) chunk = (Ok (), chunk')"
  shows "\<exists>G'. fst (hash E chunk') = Ok (root_hash E G') \<and> G' \<noteq> PNull
    \<and> after F (map (entry_update E C S) (take (advance_cursor accounts pre c) accounts)) (put_at T pre G')"
proof -
  note nib = chunk_entries_nibbles [OF acc]
  have pre: "prefix pre (fst u)" "nibbles (fst u)" if u: "u \<in> set us" for u
  proof -
    obtain e where e: "e \<in> set (chunk_entries accounts pre c)" "fst u = fst (snd e)" using u us by auto
    from chunk_entries_ok(1) [OF acc(1) e(1)] e(2) show "prefix pre (fst u)" "nibbles (fst u)"
      by (simp_all add: entry_ok_def)
  qed
  have keys: "nib_keys (below pre us)" using pre(2) by (simp add: nib_keys_def below_def list_all_iff)
  have "chunk_safe (below pre us) t" using stage sub chunk(1,3) acc(2) us by (auto simp: stage_ok_def)
  moreover have "below pre us \<noteq> []" using acc(2) us by (simp add: below_def)
  moreover have "trie_room (length (below pre us)) chunk"
    using distinct_chunk_entries(2) [OF acc(1), of pre c] chunk(4) us by (simp add: trie_room_def)
  moreover have T: "account_trie E T" using stage by (simp add: stage_ok_def)
  ultimately obtain G' where G': "fst (hash E chunk') = Ok (root_hash E G')" "canon G'" "pt_anchor G \<longrightarrow> pt_anchor G'"
    "\<And>p. nibbles p \<Longrightarrow> pt_get G' p = viewed (\<lambda>k. k) (below pre us) (pt_get G) p"
    using chunk_updated [OF T sub chunk(1,2) keys _ _ _ run] by blast
  have "canon_top T" using after by (simp add: after_def)
  from put_at_canon [OF this sub G'(2,3)] have can: "canon_top (put_at T pre G')" by (simp add: canon_top_def)
  have "pt_get (put_at T pre G') k = viewed (\<lambda>k. k) us (pt_get T) k" if "nibbles k" for k
    by (rule put_at_viewed [OF sub nib _ G'(4) that]) (use pre(1) in \<open>simp add: list_all_iff\<close>)
  moreover have "viewed (\<lambda>k. k) us (pt_get T) k =
      viewed (\<lambda>k. k) us (viewed (\<lambda>k. k) (map (entry_update E C S) (take c accounts)) (pt_get F)) k" if "nibbles k" for k
    by (rule viewed_id_cong) (use after that in \<open>simp_all add: after_def\<close>)
  ultimately have "after F (map (entry_update E C S) (take (advance_cursor accounts pre c) accounts)) (put_at T pre G')"
    using can us by (simp add: after_def take_advance viewed_append)
  moreover have "G' \<noteq> PNull" using G'(2) by auto
  ultimately show ?thesis using G'(1) by blast
qed

text \<open>The chunk that was read stands for the subtree at its prefix, and the checks it passed are authentic.\<close>

lemma chunk_checks:
  assumes stage: "stage_ok E C S accounts B c T" and after: "after F (map (entry_update E C S) (take c accounts)) T"
    and acc: "accounts_ok accounts" "bs \<in> B" and sub: "sub_at T pre = Some G" and chunk: "loaded E {bs} (root_hash E G) chunk"
  obtains t where "repr_tree E chunk t" "stands_for E t G" "length (nodes chunk) \<le> 2 ^ 31"
    "\<And>k acc. length k = 32 \<Longrightarrow> in_chunk pre k \<Longrightarrow> k \<notin> fst ` set (take c accounts) \<Longrightarrow>
      chunk_account C chunk pre k = Ok acc \<Longrightarrow> account_at C F k = Ok acc"
    "\<And>e. e \<in> set (chunk_entries accounts pre c) \<Longrightarrow> reads_ok F pre chunk e"
proof -
  have T: "account_trie E T" "bytes_ok E bs T" using stage acc(2) by (simp_all add: stage_ok_def)
  obtain t where t: "repr_tree E chunk t" "stands_for E t G" "length (nodes chunk) \<le> 2 ^ 31"
    using loaded_repr [OF chunk account_trie_sub(1) [OF T(1) sub]] bytes_ok_sub [OF T(2) sub] by blast
  have old: "pt_get T (to_nibs k) = pt_get F (to_nibs k)" if "k \<notin> fst ` set (take c accounts)" for k
    by (rule account_at_after [OF after _ that]) (use acc(1) in \<open>auto simp: accounts_ok_def dest: in_set_takeD\<close>)
  have "account_at C F k = Ok acc" if "length k = 32" "in_chunk pre k" "k \<notin> fst ` set (take c accounts)"
    "chunk_account C chunk pre k = Ok acc" for k acc
    using chunk_account_authentic [OF t(1,2) sub that(1,2,4)] old [OF that(3)] by (simp add: account_at_def)
  moreover have "reads_ok F pre chunk e" if e: "e \<in> set (chunk_entries accounts pre c)" for e
  proof -
    note ok = chunk_entries_ok [OF acc(1) e]
    have "distinct (map fst (take c accounts @ drop c accounts))" using acc(1) by (simp add: accounts_ok_def)
    with ok(2) have new: "fst e \<notin> fst ` set (take c accounts)" by (simp only: map_append distinct_append set_map) blast
    obtain r where r: "to_nibs (fst e) = pre @ r" "suffix_of pre e = r"
      using ok(1) by (auto simp: entry_ok_def suffix_of_def prefix_def)
    then have "nibbles r" using nibbles_to_nibs [of "fst e"] by simp
    then show ?thesis
      using get_nibbles_repr [OF t(1)] stands_for_get [OF t(2)] pt_get_sub_at [OF sub] old [OF new] r
      by (auto simp: reads_ok_def)
  qed
  ultimately show thesis using that t by blast
qed

lemma chunk_tries_ok:
  assumes inv: "run_inv E C F S accounts B n c s T" and world: "storage_world E C F S" and e: "e \<in> set (drop c accounts)"
    "in_chunk pre (fst e)" "length (fst e) = 32" "fst e \<notin> fst ` set (take c accounts)"
    and cached: "\<And>acc. map_of (sts_account_cache s) (fst e) = Some acc \<Longrightarrow> chunk_account C chunk pre (fst e) = Ok acc"
    and auth: "\<And>k acc. length k = 32 \<Longrightarrow> in_chunk pre k \<Longrightarrow> k \<notin> fst ` set (take c accounts) \<Longrightarrow>
      chunk_account C chunk pre k = Ok acc \<Longrightarrow> account_at C F k = Ok acc"
    and origin: "witness_origin E C chunk pre B tries" and s3: "sts_storage_tries s3 = sts_storage_tries s"
  shows "tries_ok E B S s3 tries e"
proof -
  have root: "storage_root_of E acc = root_hash E (S (fst e))" if "chunk_account C chunk pre (fst e) = Ok acc" for acc
    using auth [OF e(3,2,4) that] world by (simp add: storage_world_def)
  have "loaded E B (root_hash E (S (fst e))) trie" if "sts_storage_tries s (fst e) = Some trie" for trie
    using inv e(1) that root cached by (fastforce simp: run_inv_def)
  moreover have "loaded E B (root_hash E (S (fst e))) trie" if "map_of tries (fst e) = Some trie" for trie
    using origin that root by (fastforce simp: witness_origin_def)
  ultimately show ?thesis using s3 by (auto simp: tries_ok_def)
qed

lemma chunk_entries_in_chunk:
  assumes "accounts_ok accounts" "e \<in> set (chunk_entries accounts pre c)"
  shows "in_chunk pre (fst e)" "length (fst e) = 32" "fst e \<notin> fst ` set (take c accounts)"
proof -
  note e = chunk_entries_ok [OF assms]
  show "length (fst e) = 32" using e(1) by (simp add: entry_ok_def)
  with e(1) show "in_chunk pre (fst e)" by (simp add: in_chunk_prefix entry_ok_def)
  have "distinct (map fst (take c accounts @ drop c accounts))" using assms(1) by (simp add: accounts_ok_def)
  with e(2) show "fst e \<notin> fst ` set (take c accounts)" by (simp only: map_append distinct_append set_map) blast
qed

text \<open>A successful step, with everything that is known about the chunk before it is updated.\<close>

lemma chunk_received:
  assumes run: "process_chunk E C accounts c s = (Ok c', s')" and B: "raw_hints (sts_input s) \<subseteq> B"
    and K: "\<And>pre. K pre = {k. in_chunk pre k \<and> map_of (sts_account_cache s) k \<noteq> None}"
  obtains h bs chunk chunk' tries s3 s4 where
    "c' = advance_cursor accounts (sch_prefix h) c" "c' \<noteq> c" "bs \<in> B" "loaded E {bs} (sch_expected_root h) chunk"
    "\<And>k acc. map_of (sts_account_cache s) k = Some acc \<Longrightarrow> in_chunk (sch_prefix h) k \<Longrightarrow> chunk_account C chunk (sch_prefix h) k = Ok acc"
    "sts_state_trie s3 = sts_state_trie s" "sts_storage_tries s3 = sts_storage_tries s"
    "map_of (sts_account_cache s3) = (\<lambda>k. if k \<in> K (sch_prefix h) then None else map_of (sts_account_cache s) k)"
    "raw_hints (sts_input s3) \<subseteq> B" "witness_origin E C chunk (sch_prefix h) B tries"
    "apply_chunk_accounts E C (sch_prefix h) (chunk_entries accounts (sch_prefix h) c) chunk tries s3 = (Ok (chunk', []), s4)"
    "finish_chunk E h chunk' s4 = (Ok (), s')"
proof -
  obtain h chunk s1 s2 tries s3 chunk' s4 where
    read: "read_chunk E s = (Ok (h, chunk), s1)" and
    cons: "consume_cached C chunk (sch_prefix h) (filter (in_chunk (sch_prefix h)) (map fst (sts_account_cache s1))) s1 = (Ok (), s2)" and
    wit: "read_chunk_witnesses E C chunk (sch_prefix h) (sch_witness_count h) [] s2 = (Ok tries, s3)" and
    rest: "c' = advance_cursor accounts (sch_prefix h) c" "c' \<noteq> c"
      "apply_chunk_accounts E C (sch_prefix h) (chunk_entries accounts (sch_prefix h) c) chunk tries s3 = (Ok (chunk', []), s4)"
      "finish_chunk E h chunk' s4 = (Ok (), s')"
    by (rule process_chunk_parts [OF run])
  let ?K = "K (sch_prefix h)"
  obtain bs hs where bs: "sts_input s = HWitness (WStateChunk h) # HRaw bs # hs" "s1 = s\<lparr>sts_input := hs\<rparr>"
    "loaded E {bs} (sch_expected_root h) chunk" by (rule read_chunk_Ok [OF read])
  have hs: "bs \<in> B" "raw_hints hs \<subseteq> B" using B bs(1) by auto
  have c1: "sts_account_cache s1 = sts_account_cache s" using bs(2) by simp
  have keys: "set (filter (in_chunk (sch_prefix h)) (map fst (sts_account_cache s))) = ?K"
    unfolding K filter_in_map_of [symmetric] by simp
  have c2: "\<And>k. k \<in> ?K \<Longrightarrow> \<exists>acc. map_of (sts_account_cache s) k = Some acc \<and> chunk_account C chunk (sch_prefix h) k = Ok acc"
    "s2 = s\<lparr>sts_input := hs, sts_account_cache := filter (\<lambda>e. fst e \<notin> ?K) (sts_account_cache s)\<rparr>"
    using consume_cached_Ok [OF cons [unfolded c1]] bs(2) unfolding keys by auto
  have w: "s3 = s2\<lparr>sts_input := sts_input s3\<rparr>" "raw_hints (sts_input s3) \<subseteq> B" "witness_origin E C chunk (sch_prefix h) B tries"
    using read_chunk_witnesses_Ok [OF wit, of B] hs(2) c2(2) by (simp_all add: witness_origin_def)
  have s3: "sts_state_trie s3 = sts_state_trie s" "sts_storage_tries s3 = sts_storage_tries s"
    "map_of (sts_account_cache s3) = (\<lambda>k. if k \<in> ?K then None else map_of (sts_account_cache s) k)"
    using arg_cong [OF w(1), of sts_state_trie] arg_cong [OF w(1), of sts_storage_tries] arg_cong [OF w(1), of sts_account_cache]
      c2(2) by (simp_all add: map_of_filter_fst fun_eq_iff)
  have "chunk_account C chunk (sch_prefix h) k = Ok acc"
    if "map_of (sts_account_cache s) k = Some acc" "in_chunk (sch_prefix h) k" for k acc
    using c2(1) [of k] that by (auto simp: K)
  with that rest hs(1) bs(3) s3 w(2,3) show thesis by blast
qed

lemma chunk_opened:
  assumes ok: "run_ok E C F S accounts B" and inv: "run_inv E C F S accounts B (Suc n) c s T"
    and run: "process_chunk E C accounts c s = (Ok c', s')"
  obtains pre K chunk chunk' tries s3 s4 G root t where
    "c' = advance_cursor accounts pre c" "chunk_entries accounts pre c \<noteq> []" "K = {k. in_chunk pre k \<and> map_of (sts_account_cache s) k \<noteq> None}"
    "sub_at T pre = Some G" "fst (hash E chunk') = Ok root"
    "\<And>G'. tree_ref E G' = RefDigest root \<Longrightarrow> root \<noteq> EMPTY_ROOT_HASH E \<Longrightarrow> frontier_holds E s' (put_at T pre G') n"
    "repr_tree E chunk t" "stands_for E t G" "loaded E B (root_hash E G) chunk" "length (nodes chunk) \<le> 2 ^ 31"
    "apply_chunk_accounts E C pre (chunk_entries accounts pre c) chunk tries s3 = (Ok (chunk', []), s4)"
    "\<And>e. e \<in> set (chunk_entries accounts pre c) \<Longrightarrow> reads_ok F pre chunk e \<and> tries_ok E B S s3 tries e"
    "\<And>k acc. map_of (sts_account_cache s) k = Some acc \<Longrightarrow> k \<in> K \<Longrightarrow> account_at C F k = Ok acc"
    "map_of (sts_account_cache s3) = (\<lambda>k. if k \<in> K then None else map_of (sts_account_cache s) k)"
    "sts_storage_tries s3 = sts_storage_tries s" "raw_hints (sts_input s3) \<subseteq> B" "s' = s4\<lparr>sts_state_trie := sts_state_trie s'\<rparr>"
proof -
  define K where "K = (\<lambda>pre. {k. in_chunk pre k \<and> map_of (sts_account_cache s) k \<noteq> None})"
  have world: "storage_world E C F S" "accounts_ok accounts" using ok by (simp_all add: run_ok_def)
  have inv': "c \<le> length accounts" "frontier_holds E s T (Suc n)" "raw_hints (sts_input s) \<subseteq> B"
    "after F (map (entry_update E C S) (take c accounts)) T"
    "\<And>k acc. map_of (sts_account_cache s) k = Some acc \<Longrightarrow> length k = 32 \<and> k \<notin> fst ` set (take c accounts)"
    using inv by (auto simp: run_inv_def)
  have stage: "stage_ok E C S accounts B c T" using ok inv'(1,4) by (simp add: run_ok_def)
  obtain h bs chunk chunk' tries s3 s4 where
    c': "c' = advance_cursor accounts (sch_prefix h) c" "c' \<noteq> c" and bs: "bs \<in> B" "loaded E {bs} (sch_expected_root h) chunk" and
    cached: "\<And>k acc. map_of (sts_account_cache s) k = Some acc \<Longrightarrow> in_chunk (sch_prefix h) k \<Longrightarrow> chunk_account C chunk (sch_prefix h) k = Ok acc" and
    s3: "sts_state_trie s3 = sts_state_trie s" "sts_storage_tries s3 = sts_storage_tries s"
      "map_of (sts_account_cache s3) = (\<lambda>k. if k \<in> K (sch_prefix h) then None else map_of (sts_account_cache s) k)"
      "raw_hints (sts_input s3) \<subseteq> B" and
    wit: "witness_origin E C chunk (sch_prefix h) B tries" and
    app: "apply_chunk_accounts E C (sch_prefix h) (chunk_entries accounts (sch_prefix h) c) chunk tries s3 = (Ok (chunk', []), s4)" and
    fin: "finish_chunk E h chunk' s4 = (Ok (), s')"
    by (rule chunk_received [OF run inv'(3) fun_cong [OF K_def]]) blast
  define pre where "pre = sch_prefix h"
  note p = pre_def [symmetric]
  have ne: "chunk_entries accounts pre c \<noteq> []" using chunk_entries_ne c' by (metis pre_def)
  have frontier: "frontier_holds E s4 T (Suc n)"
    using inv'(2) apply_chunk_accounts_frame [OF app] s3(1) by (simp add: frontier_holds_def)
  obtain G root where G: "sub_at T pre = Some G" "root_hash E G = sch_expected_root h" "fst (hash E chunk') = Ok root"
    "\<And>G'. tree_ref E G' = RefDigest root \<Longrightarrow> root \<noteq> EMPTY_ROOT_HASH E \<Longrightarrow> frontier_holds E s' (put_at T pre G') n"
    "s' = s4\<lparr>sts_state_trie := sts_state_trie s'\<rparr>"
    using chunk_slot [OF frontier fin] chunk_entries_nibbles [OF world(2) ne] unfolding pre_def by metis
  have ld: "loaded E {bs} (root_hash E G) chunk" using bs(2) G(2) by simp
  obtain t where t: "repr_tree E chunk t" "stands_for E t G" "length (nodes chunk) \<le> 2 ^ 31"
    and auth: "\<And>k acc. length k = 32 \<Longrightarrow> in_chunk pre k \<Longrightarrow> k \<notin> fst ` set (take c accounts) \<Longrightarrow>
      chunk_account C chunk pre k = Ok acc \<Longrightarrow> account_at C F k = Ok acc"
    and reads: "\<And>e. e \<in> set (chunk_entries accounts pre c) \<Longrightarrow> reads_ok F pre chunk e"
    using chunk_checks [OF stage inv'(4) world(2) bs(1) G(1) ld] by metis
  have "account_at C F k = Ok acc" if "map_of (sts_account_cache s) k = Some acc" "k \<in> K pre" for k acc
    using auth [of k acc] cached inv'(5) that by (auto simp: K_def p)
  moreover have "tries_ok E B S s3 tries e" if "e \<in> set (chunk_entries accounts pre c)" for e
    using chunk_tries_ok [OF inv world(1) chunk_entries_ok(2) [OF world(2) that] chunk_entries_in_chunk [OF world(2) that]
        _ auth wit [unfolded p] s3(2)] cached chunk_entries_in_chunk(1) [OF world(2) that] unfolding p by blast
  moreover have "loaded E B (root_hash E G) chunk" using loaded_mono [OF ld, of B] bs(1) by simp
  ultimately show thesis
    using c'(1) ne G(1,3-5) t reads app s3(2-4) unfolding p by (intro that [OF _ ne fun_cong [OF K_def]]) auto
qed

lemma run_inv_step:
  assumes world: "storage_world E C F S" "accounts_ok accounts" and inv: "run_inv E C F S accounts B (Suc n) c s T"
    and c': "c' = advance_cursor accounts pre c" and T': "frontier_holds E s' T' n"
      "after F (map (entry_update E C S) (take c' accounts)) T'"
    and K: "K = {k. in_chunk pre k \<and> map_of (sts_account_cache s) k \<noteq> None}"
    and auth: "\<And>k acc. map_of (sts_account_cache s) k = Some acc \<Longrightarrow> k \<in> K \<Longrightarrow> account_at C F k = Ok acc"
    and s': "map_of (sts_account_cache s') = (\<lambda>k. if k \<in> K then None else map_of (sts_account_cache s) k)"
      "\<And>k trie. sts_storage_tries s' k = Some trie \<Longrightarrow> sts_storage_tries s k = Some trie" "raw_hints (sts_input s') \<subseteq> B"
  shows "\<exists>T'. run_inv E C F S accounts B n c' s' T'
    \<and> (\<forall>k acc. map_of (sts_account_cache s) k = Some acc \<longrightarrow>
         map_of (sts_account_cache s') k = Some acc \<or> account_at C F k = Ok acc)"
proof -
  have "run_inv E C F S accounts B n c' s' T'"
    unfolding run_inv_def
  proof (intro conjI allI impI ballI)
    show "c' \<le> length accounts" using advance_cursor_le inv c' by (auto simp: run_inv_def)
  next
    fix k acc assume "map_of (sts_account_cache s') k = Some acc"
    then have k: "map_of (sts_account_cache s) k = Some acc" "k \<notin> K" using s'(1) by (auto split: if_splits)
    then show "length k = 32" using inv by (auto simp: run_inv_def)
    have "k \<notin> fst ` set (chunk_entries accounts pre c)" using k K chunk_entries_in_chunk(1) [OF world(2)] by auto
    with k(1) inv show "k \<notin> fst ` set (take c' accounts)" by (auto simp: run_inv_def c' take_advance image_Un)
  next
    fix e trie assume e: "e \<in> set (drop c' accounts)" and trie: "sts_storage_tries s' (fst e) = Some trie"
    have "e \<in> set (drop c accounts)"
      using e set_drop_subset_set_drop [of c c' accounts] advance_cursor_ge [of c accounts pre] c' by auto
    then consider "loaded E B (root_hash E (S (fst e))) trie"
      | acc where "map_of (sts_account_cache s) (fst e) = Some acc" "loaded E B (storage_root_of E acc) trie"
      using inv s'(2) [OF trie] unfolding run_inv_def by blast
    then show "loaded E B (root_hash E (S (fst e))) trie
        \<or> (\<exists>acc. map_of (sts_account_cache s') (fst e) = Some acc \<and> loaded E B (storage_root_of E acc) trie)"
      using auth world(1) s'(1) by cases (auto simp: storage_world_def)
  qed (use T' s'(3) in auto)
  moreover have "map_of (sts_account_cache s') k = Some acc \<or> account_at C F k = Ok acc"
    if "map_of (sts_account_cache s) k = Some acc" for k acc
    using that auth s'(1) by auto
  ultimately show ?thesis by blast
qed

lemma chunk_step:
  assumes ok: "run_ok E C F S accounts B" and inv: "run_inv E C F S accounts B (Suc n) c s T"
    and run: "process_chunk E C accounts c s = (Ok c', s')"
  shows "\<exists>T'. run_inv E C F S accounts B n c' s' T'
    \<and> (\<forall>k acc. map_of (sts_account_cache s) k = Some acc \<longrightarrow>
         map_of (sts_account_cache s') k = Some acc \<or> account_at C F k = Ok acc)"
proof -
  obtain pre K chunk chunk' tries s3 s4 G root t where
    c': "c' = advance_cursor accounts pre c" "chunk_entries accounts pre c \<noteq> []"
    and K: "K = {k. in_chunk pre k \<and> map_of (sts_account_cache s) k \<noteq> None}"
    and G: "sub_at T pre = Some G" "fst (hash E chunk') = Ok root"
      "\<And>G'. tree_ref E G' = RefDigest root \<Longrightarrow> root \<noteq> EMPTY_ROOT_HASH E \<Longrightarrow> frontier_holds E s' (put_at T pre G') n"
    and t: "repr_tree E chunk t" "stands_for E t G" "loaded E B (root_hash E G) chunk" "length (nodes chunk) \<le> 2 ^ 31"
    and app: "apply_chunk_accounts E C pre (chunk_entries accounts pre c) chunk tries s3 = (Ok (chunk', []), s4)"
    and reads: "\<And>e. e \<in> set (chunk_entries accounts pre c) \<Longrightarrow> reads_ok F pre chunk e \<and> tries_ok E B S s3 tries e"
    and auth: "\<And>k acc. map_of (sts_account_cache s) k = Some acc \<Longrightarrow> k \<in> K \<Longrightarrow> account_at C F k = Ok acc"
    and s3: "map_of (sts_account_cache s3) = (\<lambda>k. if k \<in> K then None else map_of (sts_account_cache s) k)"
      "sts_storage_tries s3 = sts_storage_tries s" "raw_hints (sts_input s3) \<subseteq> B"
    and s': "s' = s4\<lparr>sts_state_trie := sts_state_trie s'\<rparr>"
    by (rule chunk_opened [OF assms], rule that; (assumption | blast))
  let ?es = "chunk_entries accounts pre c"
  have world: "storage_world E C F S" "accounts_ok accounts" using ok by (simp_all add: run_ok_def)
  have inv': "c \<le> length accounts" "after F (map (entry_update E C S) (take c accounts)) T"
    using inv by (auto simp: run_inv_def)
  have stage: "stage_ok E C S accounts B c T" using ok inv' by (simp add: run_ok_def)
  have es: "entry_ok pre e \<and> reads_ok F pre chunk e \<and> storage_known E C B S e \<and> tries_ok E B S s3 tries e
      \<and> (\<forall>bs \<in> B. bytes_ok E bs (S (fst e)))" if "e \<in> set ?es" for e
    using chunk_entries_ok [OF world(2) that] reads [OF that] ok by (auto simp: run_ok_def dest: in_set_dropD)
  have "mpt_inv E chunk" using t(1) by (auto simp: mpt_inv_def)
  moreover have "trie_room (length ?es) chunk"
    using t(4) distinct_chunk_entries(2) [OF world(2), of pre c] by (simp add: trie_room_def)
  ultimately have up: "apply_updates insert_nibbles delete_nibbles (below pre (map (entry_update E C S) ?es)) chunk = (Ok (), chunk')"
    and fewer: "fewer_tries s3 tries s4 []"
    using apply_chunk_accounts_Ok [OF world(1) _ _ distinct_chunk_entries(1) [OF world(2)] es app] by auto
  obtain G' where G': "fst (hash E chunk') = Ok (root_hash E G')" "G' \<noteq> PNull"
    and T': "after F (map (entry_update E C S) (take c' accounts)) (put_at T pre G')"
    using chunk_stage [OF stage inv'(2) world(2) c'(2) G(1) t refl up] c'(1) by blast
  have le: "c' \<le> length accounts" using advance_cursor_le [OF inv'(1)] c'(1) by simp
  then have "account_trie E (put_at T pre G')" using ok T' by (simp add: run_ok_def stage_ok_def)
  then obtain d where "tree_ref E G' = RefDigest d" "d \<noteq> EMPTY_ROOT_HASH E"
    using sub_at_subs [OF sub_at_put_at [OF G(1) G'(2)]] G'(2) by (auto simp: account_trie_def)
  then have front: "frontier_holds E s' (put_at T pre G') n" using G(2,3) G' by (auto simp: root_hash_def)
  obtain tt where tt: "s4 = s3\<lparr>sts_storage_tries := tt\<rparr>" "\<And>k trie. tt k = Some trie \<Longrightarrow> sts_storage_tries s k = Some trie"
    using fewer s3(2) by (auto simp: fewer_tries_def)
  have fields: "sts_storage_tries s' = tt" "sts_input s' = sts_input s3" "sts_account_cache s' = sts_account_cache s3"
    using arg_cong [OF s', of sts_storage_tries] arg_cong [OF s', of sts_input] arg_cong [OF s', of sts_account_cache] tt(1)
    by simp_all
  show ?thesis
    using run_inv_step [OF world inv c'(1) front T' K auth] fields s3(1,3) tt(2) by auto
qed

lemma chunks_run:
  assumes "run_ok E C F S accounts B" "run_inv E C F S accounts B n c s T"
    and "process_chunks E C accounts n c s = (Ok c', s')"
  shows "\<exists>T'. run_inv E C F S accounts B 0 c' s' T'
    \<and> (\<forall>k acc. map_of (sts_account_cache s) k = Some acc \<longrightarrow>
         map_of (sts_account_cache s') k = Some acc \<or> account_at C F k = Ok acc)"
  using assms
proof (induction n arbitrary: c s T)
  case (Suc n)
  from Suc.prems(3) obtain c1 s1 where r: "process_chunk E C accounts c s = (Ok c1, s1)"
    "process_chunks E C accounts n c1 s1 = (Ok c', s')" by (auto simp: and_then_Ok_iff)
  from chunk_step [OF Suc.prems(1,2) r(1)] obtain T1 where
    T1: "run_inv E C F S accounts B n c1 s1 T1"
      "\<And>k acc. map_of (sts_account_cache s) k = Some acc \<Longrightarrow>
         map_of (sts_account_cache s1) k = Some acc \<or> account_at C F k = Ok acc" by blast
  from Suc.IH [OF Suc.prems(1) T1(1) r(2)] T1(2) show ?case by blast
qed auto

section \<open>The end of the update\<close>

lemma frontier_repr:
  assumes "frontier_holds E s T n" "account_trie E T"
  obtains m t where "sts_state_trie s = Some m" "repr_tree E m t" "blinds E t T"
proof -
  obtain m t where m: "sts_state_trie s = Some m" "stores_tree E m t" "blinds E t T"
    using assms(1) by (auto simp: frontier_holds_def)
  then obtain a where a: "stores E m a" "erase a = t" by (auto simp: stores_tree_def)
  then have "digests_ok t" using holds_digests_ok storesD(1) by metis
  then have "canon_top t" using blinds_canon [OF m(3)] assms(2) by (auto simp: canon_top_def account_trie_def full_trie_def)
  with m that show thesis by (simp add: repr_stores)
qed

lemma check_cached_Ok:
  "check_cached C trie cache = Ok () \<Longrightarrow> map_of cache k = Some acc \<Longrightarrow> get_rlp (account_decode C) trie k = Ok acc"
  by (induction cache) (auto split: outcome.splits if_splits)

lemma frontier_account:
  assumes "repr_tree E m t" "blinds E t T" "get_rlp (account_decode C) m k = Ok acc"
  shows "account_at C T k = Ok acc"
  using assms(3) get_repr [OF assms(1), of k] blinds_get [OF assms(2), of "to_nibs k"]
  by (auto simp: get_rlp_def account_at_def split: outcome.splits option.splits sum.splits)

end

end
