(* ===== verification/Stream_Exec.thy ===== *)
theory Stream_Exec
  imports Stream_Run Client_Exec
begin

text \<open>
  Execution on the streamed state. Accounts are taken from the hints on trust while the EVM runs,
  and compared with the state trie afterwards. The theory shows what this gives: once the final
  comparison has accepted every cached account, the run of the EVM was a run on the full state.
\<close>

section \<open>Execution on the full state\<close>

definition slot_at :: "eth_codec \<Rightarrow> ptree \<Rightarrow> bytes \<Rightarrow> u256 option" where
  "slot_at C T k =
     (case pt_get T (to_nibs k) of
        Ok (Some bs) \<Rightarrow> (case u256_decode C bs of Inl e \<Rightarrow> None | Inr v \<Rightarrow> Some v)
      | Ok None \<Rightarrow> Some 0
      | _ \<Rightarrow> None)"

text \<open>
  Every query is answered by the full state: the account in \<open>F\<close>, the slot in the account's storage
  trie, a code with the hash asked for, and the hash of an ancestor.
\<close>

inductive evm_on ::
  "ext \<Rightarrow> eth_codec \<Rightarrow> client_ext \<Rightarrow> ptree \<Rightarrow> (bytes \<Rightarrow> ptree) \<Rightarrow> (u64 \<Rightarrow> bytes option) \<Rightarrow> evm \<Rightarrow> execution_output \<Rightarrow> bool"
  for E C X F S table where
  finished: "evm_on E C X F S table (EvmDone out) out"
| basic: "account_at C F (keccak256 E address) = Ok acc \<Longrightarrow>
    evm_on E C X F S table (k (map_option account_info_of acc)) out \<Longrightarrow> evm_on E C X F S table (QBasic address k) out"
| code: "bytecode_hash X c = code_hash \<Longrightarrow> evm_on E C X F S table (k c) out \<Longrightarrow>
    evm_on E C X F S table (QCode code_hash k) out"
| slot: "slot_at C (S (keccak256 E address)) (keccak256 E (to_be_bytes_32 index)) = Some v \<Longrightarrow>
    evm_on E C X F S table (k v) out \<Longrightarrow> evm_on E C X F S table (QStorage address index k) out"
| block: "table number = Some h \<Longrightarrow> evm_on E C X F S table (k h) out \<Longrightarrow>
    evm_on E C X F S table (QBlockHash number k) out"

section \<open>The streaming state during execution\<close>

definition typed_hints :: "hint list \<Rightarrow> bool" where
  "typed_hints hs \<longleftrightarrow> (\<forall>a. HWitness (WAccount a) \<in> set hs \<longrightarrow> length (ai_hashed_address a) = 32)"

definition stream_inv :: "ext \<Rightarrow> bytes set \<Rightarrow> streaming_state \<Rightarrow> bool" where
  "stream_inv E B s \<longleftrightarrow> raw_hints (sts_input s) \<subseteq> B \<and> typed_hints (sts_input s)
     \<and> (\<forall>k acc. map_of (sts_account_cache s) k = Some acc \<longrightarrow> length k = 32)
     \<and> (\<forall>h trie. sts_storage_tries s h = Some trie \<longrightarrow>
          (\<exists>acc. map_of (sts_account_cache s) h = Some acc \<and> loaded E B (storage_root_of E acc) trie))"

definition stream_grows :: "streaming_state \<Rightarrow> streaming_state \<Rightarrow> bool" where
  "stream_grows s s' \<longleftrightarrow> map_of (sts_account_cache s) \<subseteq>\<^sub>m map_of (sts_account_cache s')
     \<and> sts_header s' = sts_header s \<and> sts_parent_state_root s' = sts_parent_state_root s
     \<and> sts_state_trie s' = sts_state_trie s"

lemma stream_grows_refl [simp]: "stream_grows s s"
  by (simp add: stream_grows_def)

lemma stream_grows_trans: "stream_grows s s1 \<Longrightarrow> stream_grows s1 s' \<Longrightarrow> stream_grows s s'"
  by (auto simp: stream_grows_def intro: map_le_trans)

lemma stream_inv_input:
  "stream_inv E B s \<Longrightarrow> raw_hints hs \<subseteq> B \<Longrightarrow> typed_hints hs \<Longrightarrow> stream_inv E B (s\<lparr>sts_input := hs\<rparr>)"
  by (simp add: stream_inv_def)

lemma stream_inv_account:
  assumes "stream_inv E B s" "map_of (sts_account_cache s) k = None" "length k = 32"
  shows "stream_inv E B (s\<lparr>sts_account_cache := (k, acc) # sts_account_cache s\<rparr>)"
    "stream_grows s (s\<lparr>sts_account_cache := (k, acc) # sts_account_cache s\<rparr>)"
  using assms by (auto simp: stream_inv_def stream_grows_def map_le_def split: if_splits) force

lemma read_account_loop_Ok:
  "read_account_loop h hs s = (Ok acc, s') \<Longrightarrow> stream_inv E B s \<Longrightarrow> raw_hints hs \<subseteq> B \<Longrightarrow> typed_hints hs \<Longrightarrow>
   stream_inv E B s' \<and> stream_grows s s' \<and> map_of (sts_account_cache s') h = Some acc"
proof (induction hs arbitrary: s)
  case (Cons x hs)
  from Cons.prems(1) obtain a where x: "x = HWitness (WAccount a)"
    by (auto simp: Let_def split: hint.splits client_witness_input.splits)
  let ?s = "s\<lparr>sts_input := hs, sts_account_cache := (ai_hashed_address a, ai_account a) # sts_account_cache s\<rparr>"
  have hs: "raw_hints hs \<subseteq> B" "typed_hints hs" "length (ai_hashed_address a) = 32"
    using Cons.prems(3,4) x by (auto simp: typed_hints_def)
  have new: "map_of (sts_account_cache s) (ai_hashed_address a) = None"
    and cont: "(if ai_hashed_address a = h then (Ok (ai_account a), ?s) else read_account_loop h hs ?s) = (Ok acc, s')"
    using Cons.prems(1) x by (auto simp: Let_def split: if_splits)
  have inv: "stream_inv E B ?s" "stream_grows s ?s"
    using stream_inv_account [OF stream_inv_input [OF Cons.prems(2) hs(1,2)], of "ai_hashed_address a" "ai_account a"] new hs(3)
    by (simp_all add: stream_grows_def)
  show ?case
  proof (cases "ai_hashed_address a = h")
    case True
    with cont inv show ?thesis by auto
  next
    case False
    with cont Cons.IH [of ?s, OF _ inv(1) hs(1,2)] stream_grows_trans [OF inv(2)] show ?thesis by auto
  qed
qed simp

lemma read_account_Ok:
  assumes "read_account h s = (Ok acc, s')" "stream_inv E B s"
  shows "stream_inv E B s' \<and> stream_grows s s' \<and> map_of (sts_account_cache s') h = Some acc"
  using assms read_account_loop_Ok [of h "sts_input s" s acc s' E B]
  by (auto simp: read_account_def stream_inv_def split: option.splits)

lemma read_raw_bytes_Ok:
  "read_raw_bytes s = (Ok bs, s') \<longleftrightarrow> (\<exists>hs. sts_input s = HRaw bs # hs \<and> s' = s\<lparr>sts_input := hs\<rparr>)"
  by (auto simp: read_raw_bytes_def split: list.splits hint.splits)

lemma load_storage_trie_Ok:
  assumes run: "load_storage_trie E h s = (Ok (), s')" and inv: "stream_inv E B s"
  shows "stream_inv E B s' \<and> stream_grows s s'"
proof (cases "sts_storage_tries s h")
  case None
  let ?h = "stoh_hashed_address"
  from run None obtain w hs where w: "sts_input s = HWitness w # hs" by (auto simp: load_storage_trie_def and_then_witness)
  with run None obtain hd where hd: "w = WStorageTrie hd" by (cases w) (auto simp: load_storage_trie_def and_then_witness)
  let ?s = "s\<lparr>sts_input := hs\<rparr>"
  from run None w hd obtain acc s1 bs hs1 m rest trie where
    r: "read_account h ?s = (Ok acc, s1)" "sts_input s1 = HRaw bs # hs1" "decode_trie E bs (stoh_num_nodes hd) = Ok (m, rest)"
      "hash E m = (Ok (storage_root_of E acc), trie)"
      "s' = s1\<lparr>sts_input := hs1, sts_storage_tries := (sts_storage_tries s1)(h \<mapsto> trie)\<rparr>"
    by (auto simp: load_storage_trie_def and_then_witness expected_storage_root_def read_raw_bytes_Ok decode_hash_Ok
        elim!: and_then_OkE split: if_splits)
  have "stream_inv E B ?s" using inv w by (auto simp: stream_inv_def typed_hints_def)
  from read_account_Ok [OF r(1) this] have s1: "stream_inv E B s1" "stream_grows ?s s1" "map_of (sts_account_cache s1) h = Some acc"
    by auto
  have "loaded E B (storage_root_of E acc) trie"
    using r(2-4) s1(1) unfolding loaded_def stream_inv_def by (intro bexI [of _ bs]) auto
  with s1 r(2,5) show ?thesis by (auto simp: stream_inv_def stream_grows_def typed_hints_def)
qed (use assms in \<open>simp add: load_storage_trie_def\<close>)

section \<open>Queries\<close>

lemma ask_Ok: "ask r k = (Ok b, s') \<longleftrightarrow> (\<exists>a s. r = (Ok a, s) \<and> k a s = (Ok b, s'))"
  by (cases r; cases "fst r") (auto simp: ask_def db_outcome_def)

definition streams :: "witness_db \<Rightarrow> streaming_state \<Rightarrow> bool" where
  "streams db s \<longleftrightarrow> db_state db = StreamingState s \<and> db_bytecodes db = StreamingBytecodes"

lemma on_stream_Ok:
  "streams db s \<Longrightarrow> on_stream db r = (Ok a, db1) \<longleftrightarrow>
   (\<exists>s1. r = (Ok a, s1) \<and> db1 = db\<lparr>db_state := StreamingState s1\<rparr>)"
  by (cases r) (auto simp: on_stream_def)

lemma streams_next [simp]: "streams db s \<Longrightarrow> streams (db\<lparr>db_state := StreamingState s1\<rparr>) s1"
  by (simp add: streams_def)

lemma basic_streamed:
  assumes "basic_ref E C address db = (Ok r, db1)" "streams db s" "stream_inv E B s"
  obtains acc s1 where "r = map_option account_info_of acc" "db1 = db\<lparr>db_state := StreamingState s1\<rparr>" "stream_inv E B s1"
    "stream_grows s s1" "map_of (sts_account_cache s1) (keccak256 E address) = Some acc"
proof -
  note d = assms(2) [unfolded streams_def]
  from assms(1) d obtain acc s1 where "read_account (keccak256 E address) s = (Ok acc, s1)" "r = map_option account_info_of acc"
    "db1 = db\<lparr>db_state := StreamingState s1\<rparr>"
    by (auto simp: basic_ref_def Let_def and_then_Ok_iff on_stream_Ok [OF assms(2)])
  with read_account_Ok [OF _ assms(3)] that show thesis by blast
qed

lemma code_streamed:
  assumes "code_by_hash_ref X code_hash db = (Ok c, db1)" "streams db s" "stream_inv E B s"
  obtains s1 where "bytecode_hash X c = code_hash" "db1 = db\<lparr>db_state := StreamingState s1\<rparr>" "stream_inv E B s1"
    "stream_grows s s1"
proof -
  note d = assms(2) [unfolded streams_def]
  from assms(1) d obtain s1 where s1: "read_bytecode X code_hash s = (Ok c, s1)" "db1 = db\<lparr>db_state := StreamingState s1\<rparr>"
    by (auto simp: code_by_hash_ref_def on_stream_Ok [OF assms(2)])
  then obtain hs w where hs: "sts_input s = HWitness w # hs" by (auto simp: read_bytecode_def and_then_witness)
  with s1(1) have "s1 = s\<lparr>sts_input := hs\<rparr>" "bytecode_hash X c = code_hash"
    by (cases w; auto simp: read_bytecode_def and_then_witness split: if_splits)+
  moreover from this(1) hs assms(3) have "stream_inv E B s1" "stream_grows s s1"
    by (auto simp: stream_inv_def stream_grows_def typed_hints_def)
  ultimately show thesis using that s1(2) by blast
qed

lemma slot_streamed:
  assumes "storage_ref E C address index db = (Ok v, db1)" "streams db s" "stream_inv E B s"
  obtains s1 trie where "db1 = db\<lparr>db_state := StreamingState s1\<rparr>" "stream_inv E B s1" "stream_grows s s1"
    "sts_storage_tries s1 (keccak256 E address) = Some trie"
    "slot_value C (Some trie) (keccak256 E (to_be_bytes_32 index)) = (Ok v :: (witness_message, u256) outcome)"
proof -
  note d = assms(2) [unfolded streams_def]
  from assms(1) d obtain s1 where s1: "load_storage_trie E (keccak256 E address) s = (Ok (), s1)"
    "slot_value C (sts_storage_tries s1 (keccak256 E address)) (keccak256 E (to_be_bytes_32 index)) =
      (Ok v :: (witness_message, u256) outcome)"
    "db1 = db\<lparr>db_state := StreamingState s1\<rparr>"
    by (auto simp: storage_ref_def Let_def and_then_Ok_iff on_stream_Ok [OF assms(2)])
  moreover from s1(2) obtain trie where "sts_storage_tries s1 (keccak256 E address) = Some trie"
    by (auto simp: slot_value_def split: option.splits)
  ultimately show thesis using that load_storage_trie_Ok [OF s1(1) assms(3)] by auto
qed

context rlp_laws
begin

lemma slot_authentic:
  assumes world: "storage_world E C F S" and B: "\<And>bs. bs \<in> B \<Longrightarrow> bytes_ok E bs (S h)"
    and acc: "account_at C F h = Ok acc" "loaded E B (storage_root_of E acc) trie"
    and v: "slot_value C (Some trie) k = (Ok v :: (witness_message, u256) outcome)"
  shows "slot_at C (S h) k = Some v"
proof -
  have S: "named_trie E (S h)" "loaded E B (root_hash E (S h)) trie" using world acc by (auto simp: storage_world_def)
  from loaded_repr [OF S(2,1) B] obtain t where t: "repr_tree E trie t" "stands_for E t (S h)" by blast
  from v get_repr [OF t(1), of k] stands_for_get [OF t(2), of "to_nibs k"] show ?thesis
    by (auto simp: slot_value_def get_rlp_def slot_at_def split: outcome.splits option.splits sum.splits)
qed

lemma run_evm_streamed:
  assumes world: "storage_world E C F S" and B: "\<And>bs k. bs \<in> B \<Longrightarrow> bytes_ok E bs (S k)"
  shows "run_evm E C X e db = (Ok out, db') \<Longrightarrow> streams db s \<Longrightarrow> stream_inv E B s \<Longrightarrow>
    \<exists>s'. streams db' s' \<and> stream_inv E B s' \<and> stream_grows s s'
      \<and> ((\<forall>k acc. map_of (sts_account_cache s') k = Some acc \<longrightarrow> account_at C F k = Ok acc) \<longrightarrow>
           evm_on E C X F S (db_block_hashes db) e out)"
proof (induction e arbitrary: db s)
  case (EvmDone out')
  then show ?case by (auto intro: evm_on.finished)
next
  case (QBasic address k)
  then obtain r db1 where q: "basic_ref E C address db = (Ok r, db1)" "run_evm E C X (k r) db1 = (Ok out, db')"
    by (auto simp: ask_Ok)
  obtain acc s1 where s1: "r = map_option account_info_of acc" "db1 = db\<lparr>db_state := StreamingState s1\<rparr>" "stream_inv E B s1"
    "stream_grows s s1" "map_of (sts_account_cache s1) (keccak256 E address) = Some acc"
    by (rule basic_streamed [OF q(1) QBasic.prems(2,3)])
  have "streams db1 s1" using QBasic.prems(2) s1(2) by simp
  from QBasic.IH [OF _ q(2) this s1(3)] obtain s' where s': "streams db' s'" "stream_inv E B s'" "stream_grows s1 s'"
    "(\<forall>k acc. map_of (sts_account_cache s') k = Some acc \<longrightarrow> account_at C F k = Ok acc) \<longrightarrow>
       evm_on E C X F S (db_block_hashes db1) (k r) out" by blast
  have "map_of (sts_account_cache s') (keccak256 E address) = Some acc"
    using s'(3) s1(5) by (auto simp: stream_grows_def map_le_def dom_def)
  with s' s1 stream_grows_trans [OF s1(4) s'(3)] show ?case by (auto intro: evm_on.basic)
next
  case (QCode code_hash k)
  then obtain c db1 where q: "code_by_hash_ref X code_hash db = (Ok c, db1)" "run_evm E C X (k c) db1 = (Ok out, db')"
    by (auto simp: ask_Ok)
  obtain s1 where s1: "bytecode_hash X c = code_hash" "db1 = db\<lparr>db_state := StreamingState s1\<rparr>" "stream_inv E B s1"
    "stream_grows s s1" by (rule code_streamed [OF q(1) QCode.prems(2,3)])
  have "streams db1 s1" using QCode.prems(2) s1(2) by simp
  from QCode.IH [OF _ q(2) this s1(3)] s1 show ?case
    by (auto intro: evm_on.code dest: stream_grows_trans)
next
  case (QStorage address index k)
  let ?h = "keccak256 E address"
  from QStorage obtain v db1 where q: "storage_ref E C address index db = (Ok v, db1)" "run_evm E C X (k v) db1 = (Ok out, db')"
    by (auto simp: ask_Ok)
  obtain s1 trie where s1: "db1 = db\<lparr>db_state := StreamingState s1\<rparr>" "stream_inv E B s1" "stream_grows s s1"
    "sts_storage_tries s1 ?h = Some trie"
    "slot_value C (Some trie) (keccak256 E (to_be_bytes_32 index)) = (Ok v :: (witness_message, u256) outcome)"
    by (rule slot_streamed [OF q(1) QStorage.prems(2,3)])
  have "streams db1 s1" using QStorage.prems(2) s1(1) by simp
  from QStorage.IH [OF _ q(2) this s1(2)] obtain s' where s': "streams db' s'" "stream_inv E B s'" "stream_grows s1 s'"
    "(\<forall>k acc. map_of (sts_account_cache s') k = Some acc \<longrightarrow> account_at C F k = Ok acc) \<longrightarrow>
       evm_on E C X F S (db_block_hashes db1) (k v) out" by blast
  obtain acc where acc: "map_of (sts_account_cache s1) ?h = Some acc" "loaded E B (storage_root_of E acc) trie"
    using s1(2,4) unfolding stream_inv_def by blast
  have "map_of (sts_account_cache s') ?h = Some acc" using s'(3) acc(1) by (auto simp: stream_grows_def map_le_def dom_def)
  with slot_authentic [OF world B _ acc(2) s1(5), of ?h]
  have "(\<forall>k acc. map_of (sts_account_cache s') k = Some acc \<longrightarrow> account_at C F k = Ok acc) \<longrightarrow>
      slot_at C (S ?h) (keccak256 E (to_be_bytes_32 index)) = Some v" by blast
  with s' s1(1) stream_grows_trans [OF s1(3) s'(3)] show ?case by (intro exI [of _ s']) (auto intro: evm_on.slot)
next
  case (QBlockHash number k)
  then obtain h db1 where q: "block_hash_ref number db = (Ok h, db1)" "run_evm E C X (k h) db1 = (Ok out, db')"
    by (auto simp: ask_Ok)
  then have "db_block_hashes db number = Some h" "db1 = db" by (auto simp: block_hash_ref_def split: option.splits)
  with QBlockHash.IH [OF _ q(2), of s] QBlockHash.prems(2,3) evm_on.block show ?case by blast
qed simp

end

end
