(* ===== verification/Stream_Sound.thy ===== *)
theory Stream_Sound
  imports Stream_Exec Guest
begin

text \<open>
  The streamed client as a whole: if it accepts, the EVM ran on the full parent state and the state
  root it compared is the root of the updated full state.
\<close>

context rlp_laws
begin

lemma frontier_loaded:
  assumes run: "ensure_state_trie_loaded E s = (Ok (), s1)" and s: "sts_state_trie s = None" "raw_hints (sts_input s) \<subseteq> B"
    and F: "account_trie E F" "root_hash E F = sts_parent_state_root s" "\<And>bs. bs \<in> B \<Longrightarrow> bytes_ok E bs F" and n: "n < 2 ^ 31"
  obtains m hs where "s1 = s\<lparr>sts_input := hs, sts_state_trie := Some m\<rparr>" "frontier_holds E s1 F n" "raw_hints hs \<subseteq> B"
proof -
  from run s(1) obtain bs hs m0 rest m where r: "sts_input s = HRaw bs # hs"
    "decode_trie E bs (sth_num_nodes (sts_header s)) = Ok (m0, rest)" "hash E m0 = (Ok (sts_parent_state_root s), m)"
    "s1 = s\<lparr>sts_input := hs, sts_state_trie := Some m\<rparr>"
    by (auto simp: ensure_state_trie_loaded_def and_then_raw decode_hash_Ok split: if_splits)
  have bs: "bs \<in> B" "raw_hints hs \<subseteq> B" using r(1) s(2) by auto
  have "sub_at F [] = Some F" by simp
  from account_trie_sub(1) [OF F(1) this] have "named_trie E F" .
  moreover have "loaded E {bs} (root_hash E F) m" using r(2,3) F(2) by (auto simp: loaded_def)
  ultimately obtain t where t: "repr_tree E m t" "stands_for E t F" "length (nodes m) \<le> 2 ^ 31"
    using loaded_repr [of "{bs}" F m] F(3) [OF bs(1)] by auto
  obtain d where "tree_ref E F = RefDigest d" "F \<noteq> PNull" using F(1) pt_subs_self by (fastforce simp: account_trie_def full_trie_def)
  then have "blinds E t F" using t(2) blinds.digest by (auto simp: stands_for_def root_hash_def)
  then have "frontier_holds E s1 F n" using t n r(4) repr_stores by (fastforce simp: frontier_holds_def)
  with that r(4) bs(2) show thesis by simp
qed

lemma streamed_update:
  assumes ok: "run_ok E C F S (sorted_bundle E bundle) B"
    and F: "account_trie E F" "root_hash E F = sts_parent_state_root s" "\<And>bs. bs \<in> B \<Longrightarrow> bytes_ok E bs F"
    and s: "stream_inv E B s" "sts_state_trie s = None" "sth_chunk_count (sts_header s) < 2 ^ 31"
    and run: "streaming_update E C bundle s = (Ok (), s')"
  shows "(\<forall>k acc. map_of (sts_account_cache s) k = Some acc \<longrightarrow> account_at C F k = Ok acc)
    \<and> (\<exists>T. after F (map (entry_update E C S) (sorted_bundle E bundle)) T \<and> fst (state_root E s') = Ok (root_hash E T))"
proof -
  let ?accs = "sorted_bundle E bundle"
  from run obtain s1 c s2 where r: "ensure_state_trie_loaded E s = (Ok (), s1)"
    "process_chunks E C ?accs (sth_chunk_count (sts_header s1)) 0 s1 = (Ok c, s2)" "c = length ?accs"
    "validate_account_cache C s2 = (Ok (), s2)" "s' = s2\<lparr>sts_storage_tries := (\<lambda>_. None)\<rparr>"
    by (auto simp: streaming_update_def Let_def validate_account_cache_def elim!: and_then_OkE split: if_splits option.splits)
  have "raw_hints (sts_input s) \<subseteq> B" using s(1) by (simp add: stream_inv_def)
  from frontier_loaded [OF r(1) s(2) this F s(3)] obtain m hs where
    s1: "s1 = s\<lparr>sts_input := hs, sts_state_trie := Some m\<rparr>" "frontier_holds E s1 F (sth_chunk_count (sts_header s))"
      "raw_hints hs \<subseteq> B" by blast
  have "canon_top F" using F(1) by (simp add: account_trie_def full_trie_def canon_top_def)
  then have "run_inv E C F S ?accs B (sth_chunk_count (sts_header s1)) 0 s1 F"
    using s1 s(1) by (auto simp: run_inv_def after_def stream_inv_def)
  from chunks_run [OF ok this r(2)] obtain T where T: "run_inv E C F S ?accs B 0 c s2 T"
    "\<And>k acc. map_of (sts_account_cache s) k = Some acc \<Longrightarrow>
       map_of (sts_account_cache s2) k = Some acc \<or> account_at C F k = Ok acc" using s1(1) by auto
  have after: "after F (map (entry_update E C S) ?accs) T" and front: "frontier_holds E s2 T 0"
    using T(1) r(3) by (simp_all add: run_inv_def)
  have "stage_ok E C S ?accs B c T" using ok T(1) by (simp add: run_ok_def run_inv_def)
  then have "account_trie E T" by (simp add: stage_ok_def)
  then obtain m t where m: "sts_state_trie s2 = Some m" "repr_tree E m t" "blinds E t T" by (rule frontier_repr [OF front])
  have "account_at C F k = Ok acc" if k: "map_of (sts_account_cache s2) k = Some acc" for k acc
  proof -
    have "check_cached C m (sts_account_cache s2) = Ok ()" using r(4) m(1) by (simp add: validate_account_cache_def)
    from frontier_account [OF m(2,3) check_cached_Ok [OF this k]] have "account_at C T k = Ok acc" .
    moreover have k: "k \<notin> fst ` set ?accs" using T(1) k r(3) by (auto simp: run_inv_def)
    have "pt_get T (to_nibs k) = pt_get F (to_nibs k)"
      by (rule account_at_after [OF after _ k]) (use ok in \<open>auto simp: run_ok_def accounts_ok_def\<close>)
    ultimately show ?thesis by (simp add: account_at_def)
  qed
  with T(2) have "\<forall>k acc. map_of (sts_account_cache s) k = Some acc \<longrightarrow> account_at C F k = Ok acc" by blast
  moreover have "fst (state_root E s') = Ok (root_hash E T)"
    using hash_repr [OF m(2)] blinds_root_hash [OF m(3)] m(1) r(5) by (auto simp: state_root_def)
  ultimately show ?thesis using after by blast
qed

section \<open>The guest on the full state\<close>

lemma guest_on_full_state:
  assumes run: "guest_main E C X L inp = Ok words" "\<And>h. length (header_hash X h) = 32"
    and inp: "inp = HAncestorHeaders (parent # ancestors) # HCurrentBlock block # HStateTrieHeader th # hints"
    and F: "account_trie E F" "root_hash E F = hdr_state_root parent" "storage_world E C F S"
    and B: "\<And>bs. bs \<in> raw_hints hints \<Longrightarrow> bytes_ok E bs F" "\<And>bs k. bs \<in> raw_hints hints \<Longrightarrow> bytes_ok E bs (S k)"
    and hints: "typed_hints hints" "sth_chunk_count th < 2 ^ 31"
    and ok: "\<And>s db out db'. build_streaming_state_from_input_reader (parent # ancestors) (HStateTrieHeader th # hints) = Ok s \<Longrightarrow>
      from_streaming_parts X s (blk_header block) (parent # ancestors) = Ok db \<Longrightarrow>
      run_evm E C X (block_evm 32 L Mainnet block (parent # ancestors)) db = (Ok out, db') \<Longrightarrow>
      run_ok E C F S (sorted_bundle E (out_bundle out)) (raw_hints hints)"
  shows "\<exists>table out T header. build_block_hashes X (blk_header block # parent # ancestors) (\<lambda>_. None) = Ok table
    \<and> evm_on E C X F S table (block_evm 32 L Mainnet block (parent # ancestors)) out
    \<and> validate_block_post_execution L Mainnet block out = None
    \<and> after F (map (entry_update E C S) (sorted_bundle E (out_bundle out))) T
    \<and> hdr_state_root (blk_header block) = root_hash E T
    \<and> digest_bytes words = header_hash X header \<and> header = result_header X L block parent out"
proof -
  let ?e = "block_evm 32 L Mainnet block (parent # ancestors)"
  obtain header where "execute_from_reader 32 E C X L Mainnet inp = Ok header"
    and words: "words = digest_words (header_hash X header)"
    using run(1) by (auto simp: guest_main_def split: outcome.splits)
  then obtain s where s: "build_streaming_state_from_input_reader (parent # ancestors) (HStateTrieHeader th # hints) = Ok s"
    "fst (execute_streaming 32 E C X L Mainnet block (parent # ancestors) s) = Ok header"
    using inp by (auto elim: execute_from_reader_Ok)
  from s(2) obtain db out db' s' where
    db: "from_streaming_parts X s (blk_header block) (parent # ancestors) = Ok db" "run_evm E C X ?e db = (Ok out, db')"
      "db_state db' = StreamingState s'" "validate_block_post_execution L Mainnet block out = None"
    and fin: "fst (finish_streaming E C X L block (parent # ancestors) out s') = Ok header" by (rule execute_streaming_Ok)
  from fin obtain s1 where up: "streaming_update E C (out_bundle out) s' = (Ok (), s1)"
    "fst (state_root E s1) = Ok (hdr_state_root (blk_header block))" "header = result_header X L block parent out"
    by (auto elim: finish_streaming_Ok)
  from db(1) obtain table where table: "build_block_hashes X (blk_header block # parent # ancestors) (\<lambda>_. None) = Ok table"
    "db = \<lparr>db_state = StreamingState s, db_block_hashes = table, db_bytecodes = StreamingBytecodes, db_recording = None\<rparr>"
    by (auto simp: from_streaming_parts_def split: outcome.splits)
  have s0: "sts_header s = th" "sts_parent_state_root s = hdr_state_root parent" "sts_state_trie s = None"
      "stream_inv E (raw_hints hints) s"
    using s(1) hints(1) by (auto simp: build_streaming_state_from_input_reader_def stream_inv_def)
  have "streams db s" using table(2) by (simp add: streams_def)
  from run_evm_streamed [OF F(3) B(2) db(2) this s0(4)] db(3) table(2)
  have s': "stream_inv E (raw_hints hints) s'" "stream_grows s s'"
    and evm: "(\<forall>k acc. map_of (sts_account_cache s') k = Some acc \<longrightarrow> account_at C F k = Ok acc) \<Longrightarrow> evm_on E C X F S table ?e out"
    by (auto simp: streams_def)
  have st: "root_hash E F = sts_parent_state_root s'" "sts_state_trie s' = None" "sth_chunk_count (sts_header s') < 2 ^ 31"
    using s'(2) s0 F(2) hints(2) by (auto simp: stream_grows_def)
  from streamed_update [OF ok [OF s(1) db(1,2)] F(1) st(1) B(1) s'(1) st(2,3) up(1)] up(2) evm
  have "\<exists>T. after F (map (entry_update E C S) (sorted_bundle E (out_bundle out))) T \<and> hdr_state_root (blk_header block) = root_hash E T"
    "evm_on E C X F S table ?e out" by auto
  with table(1) db(4) up(3) words digest_bytes_words [OF run(2)] show ?thesis by metis
qed

end

end
