(* ===== verification/Stream_Example.thy ===== *)
theory Stream_Example
  imports Stream_Sound Guest_Properties Witness_Properties
begin

text \<open>
  A world in which the hypotheses of the streaming theorems hold: a state with one account, whose
  nonce the block changes from 1 to 2. The hash function has no second preimages of the encodings
  of the two states.
\<close>

section \<open>Definitions\<close>

definition one_leaf :: "byte \<Rightarrow> ptree" where
  "one_leaf b = PLeaf (to_nibs (replicate 32 4)) (replicate 40 b)"

definition one_keccak :: "bytes \<Rightarrow> bytes" where
  "one_keccak bs = replicate 32
     (if bs = tree_rlp std_ext (one_leaf 1) then 1 else if bs = tree_rlp std_ext (one_leaf 2) then 2
      else if bs = [0x80] then 3 else 4)"

definition one_ext :: ext where
  "one_ext = std_ext\<lparr>keccak256 := one_keccak, EMPTY_ROOT_HASH := one_keccak [0x80]\<rparr>"

definition one_account :: trie_account where
  "one_account = \<lparr>acc_nonce = 1, acc_balance = 0, acc_storage_root = replicate 32 3, acc_code_hash = []\<rparr>"

definition one_codec :: eth_codec where
  "one_codec =
     \<lparr>account_encode = (\<lambda>a. replicate 40 (ucast (acc_nonce a))),
      account_decode = (\<lambda>bs. Inr (one_account\<lparr>acc_nonce := ucast (hd bs)\<rparr>)),
      u256_encode = (\<lambda>v. [ucast v]), u256_decode = (\<lambda>bs. Inr (ucast (hd bs)))\<rparr>"

definition one_bundle :: bundle_state where
  "one_bundle =
     [([9], \<lparr>acct_info = Some \<lparr>info_nonce = 2, info_balance = 0, info_code_hash = []\<rparr>, acct_storage = [],
             acct_was_destroyed = False\<rparr>)]"

definition one_bytes :: bytes where
  "one_bytes = tree_stream one_ext (one_leaf 1)"

definition one_chunk :: state_chunk_header where
  "one_chunk = \<lparr>sch_prefix = [], sch_expected_root = replicate 32 1, sch_num_nodes = 1, sch_witness_count = 0\<rparr>"

definition one_state :: streaming_state where
  "one_state =
     \<lparr>sts_header = \<lparr>sth_version = 2, sth_num_nodes = 1, sth_chunk_count = 1\<rparr>,
      sts_parent_state_root = replicate 32 1, sts_state_trie = None,
      sts_account_cache = [(replicate 32 4, Some one_account)], sts_storage_tries = (\<lambda>_. None),
      sts_input = [HRaw one_bytes, HWitness (WStateChunk one_chunk), HRaw one_bytes]\<rparr>"

section \<open>The two states\<close>

interpretation one: rlp_laws one_ext
  unfolding one_ext_def by (rule rehashed_laws) (simp add: one_keccak_def)

lemma one_rlp [simp]: "tree_rlp one_ext (one_leaf b) = tree_rlp std_ext (one_leaf b)"
  by (simp add: one_ext_def one_leaf_def list_rlp_def)

lemma one_rlp_length: "42 \<le> length (tree_rlp std_ext (one_leaf b))" "length (tree_rlp std_ext (one_leaf b)) < 100"
  by (simp_all add: one_leaf_def list_rlp_def std_ext_def std_header_encode_def std_bytes_encode_def to_encoded_path_def be_bytes.simps)

lemma one_rlp_last: "last (tree_rlp std_ext (one_leaf b)) = b"
  by (simp add: one_leaf_def list_rlp_def std_ext_def std_bytes_encode_def)

lemma one_rlp_distinct: "tree_rlp std_ext (one_leaf 1) \<noteq> tree_rlp std_ext (one_leaf 2)"
  using one_rlp_last [of 1] one_rlp_last [of 2] by (auto dest!: arg_cong [of _ _ last])

lemma one_hash [simp]:
  "one_keccak (tree_rlp std_ext (one_leaf 1)) = replicate 32 1" "one_keccak (tree_rlp std_ext (one_leaf 2)) = replicate 32 2"
  "one_keccak [0x80] = replicate 32 3" "one_keccak [9] = replicate 32 4"
  using one_rlp_length(1) [of 1] one_rlp_length(1) [of 2] one_rlp_distinct
  by (auto simp: one_keccak_def dest!: arg_cong [of _ _ length])

lemma one_fields [simp]:
  "keccak256 one_ext = one_keccak" "EMPTY_ROOT_HASH one_ext = replicate 32 3" "EMPTY_STRING_CODE one_ext = 0x80"
  by (simp_all add: one_ext_def)

lemma one_subs: "pt_subs (one_leaf b) = [one_leaf b]"
  by (subst pt_subs.simps) (simp add: one_leaf_def)

lemma one_full: "full_trie one_ext (one_leaf b)"
proof -
  have "length (tree_rlp std_ext (one_leaf b)) < 2 ^ 64" using one_rlp_length(2) [of b] by simp
  moreover have "canon (one_leaf b)" "resolved (one_leaf b)" by (simp_all add: one_leaf_def)
  ultimately show ?thesis by (simp add: full_trie_def one_subs)
qed

lemma one_ref: "b = 1 \<or> b = 2 \<Longrightarrow> tree_ref one_ext (one_leaf b) = RefDigest (replicate 32 b)"
  using one_rlp_length(1) [of b] tree_ref_list [OF one.full_list_node [OF one_full], of one_ext b]
  by (auto simp: ref_of_rlp_def)

lemma one_root: "b = 1 \<or> b = 2 \<Longrightarrow> root_hash one_ext (one_leaf b) = replicate 32 b"
  using one_ref [of b] by (auto simp: root_hash_def one_leaf_def)

lemma one_account_trie: "b = 1 \<or> b = 2 \<Longrightarrow> account_trie one_ext (one_leaf b)"
  using one_full one_ref [of b] by (auto simp: account_trie_def one_subs)

lemma one_unique: "one_keccak x = replicate 32 c \<Longrightarrow> c = 1 \<Longrightarrow> x = tree_rlp std_ext (one_leaf 1)"
  "one_keccak x = replicate 32 c \<Longrightarrow> c = 2 \<Longrightarrow> x = tree_rlp std_ext (one_leaf 2)"
  "one_keccak x = replicate 32 c \<Longrightarrow> c = 3 \<Longrightarrow> x = [0x80]"
  by (auto simp: one_keccak_def dest!: arg_cong [of _ _ hd] split: if_splits)

lemma one_bytes_length: "length one_bytes < 128"
proof -
  have "length (tree_stream one_ext (one_leaf 1)) = length (pad4 (tree_rlp one_ext (one_leaf 1)))"
    by (subst tree_stream.simps) (simp add: one_leaf_def)
  then show ?thesis using one_rlp_length(2) [of 1] by (simp add: one_bytes_def pad4_def padding_len_def MIN_ALIGN_def)
qed

lemma one_bytes_ok: "b = 1 \<or> b = 2 \<Longrightarrow> bytes_ok one_ext one_bytes (one_leaf b)" "bytes_ok one_ext one_bytes PNull"
  using one_bytes_length
  by (auto simp: bytes_ok_def collision_free_def one_subs pt_subs.simps [of PNull] dest: one_unique)

lemma one_decoded:
  "\<exists>m rest. decode_trie one_ext one_bytes 1 = Ok (m, rest) \<and> repr_tree one_ext m (one_leaf 1) \<and> length (nodes m) \<le> 128"
proof -
  have "canon_top (one_leaf 1)" "pt_nodes (one_leaf 1) < 2 ^ 32" by (simp_all add: one_leaf_def canon_top_def pt_nodes_code)
  with one.decode_encode [of "one_leaf 1" "[]" 1] one_bytes_length obtain m rest where
    m: "decode_trie one_ext one_bytes 1 = Ok (m, rest)" "repr_tree one_ext m (one_leaf 1)" by (auto simp: one_bytes_def)
  then show ?thesis using one.decode_trie_bounds [of one_bytes 1 m rest] one_bytes_length by auto
qed

section \<open>The hypotheses\<close>

lemma one_entry: "sorted_bundle one_ext one_bundle = [(replicate 32 4, to_nibs (replicate 32 4), snd (hd one_bundle))]"
  using b256_nibbles_is_trie_path [of "replicate 32 4" "[]"] by (simp add: sorted_bundle_def one_bundle_def)

lemma one_update:
  "entry_update one_ext one_codec (\<lambda>_. PNull) (replicate 32 4, to_nibs (replicate 32 4), snd (hd one_bundle)) =
     (to_nibs (replicate 32 4), Some (replicate 40 2))"
  by (simp add: entry_update_def one_bundle_def new_storage_def slot_updates_def as_nibs_def one_codec_def
      written_account_def)

lemma one_inserted: "pt_insert (one_leaf 1) (to_nibs (replicate 32 4)) (replicate 40 2) = Ok (True, one_leaf 2)"
proof -
  have "replicate 40 (1 :: byte) \<noteq> replicate 40 2" by (auto dest!: arg_cong [of _ _ hd])
  then show ?thesis unfolding one_leaf_def pt_insert.simps Let_def lcp_same by simp
qed

lemma one_after: "after (one_leaf 1) [] T \<longleftrightarrow> T = one_leaf 1"
  "after (one_leaf 1) [(to_nibs (replicate 32 4), Some (replicate 40 2))] T \<longleftrightarrow> T = one_leaf 2"
proof -
  have top: "canon_top (one_leaf b)" for b by (simp add: one_leaf_def canon_top_def)
  show "after (one_leaf 1) [] T \<longleftrightarrow> T = one_leaf 1"
    using canon_unique [OF _ top, of T 1] top by (auto simp: after_def pt_same_def)
  have "viewed (\<lambda>k. k) [(to_nibs (replicate 32 4), Some (replicate 40 2))] (pt_get (one_leaf 1)) = pt_get (one_leaf 2)"
    by (rule HOL.ext) (simp add: one_leaf_def)
  then show "after (one_leaf 1) [(to_nibs (replicate 32 4), Some (replicate 40 2))] T \<longleftrightarrow> T = one_leaf 2"
    using canon_unique [OF _ top, of T 2] top by (auto simp: after_def pt_same_def)
qed

lemma one_world: "storage_world one_ext one_codec F (\<lambda>_. PNull)"
  by (auto simp: storage_world_def named_trie_def root_hash_def account_at_def one_codec_def storage_root_of_def one_account_def
      split: outcome.splits option.splits)

lemma one_chunk_safe:
  assumes "loaded one_ext {one_bytes} (root_hash one_ext (one_leaf 1)) m" "repr_tree one_ext m t"
  shows "chunk_safe [(to_nibs (replicate 32 4), Some (replicate 40 2))] t"
proof -
  have "named_trie one_ext (one_leaf 1)" using one_full one_ref [of 1] by (auto simp: named_trie_def)
  from one.loaded_repr [OF assms(1) this] one_bytes_ok(1) [of 1] obtain t' where
    t': "repr_tree one_ext m t'" "stands_for one_ext t' (one_leaf 1)" by auto
  then have "t = one_leaf 1 \<or> (\<exists>d. t = PDigest d)"
    using view_unique [OF assms(2) t'(1)] by (auto simp: stands_for_def one_leaf_def elim: blinds_cases)
  then show ?thesis using one_inserted by (auto simp: chunk_safe_def) (auto simp: one_leaf_def)
qed

lemma one_run_ok: "run_ok one_ext one_codec (one_leaf 1) (\<lambda>_. PNull) (sorted_bundle one_ext one_bundle) {one_bytes}"
proof -
  let ?accs = "sorted_bundle one_ext one_bundle"
  have "stage_ok one_ext one_codec (\<lambda>_. PNull) ?accs {one_bytes} c T"
    if c: "c \<le> length ?accs" "after (one_leaf 1) (map (entry_update one_ext one_codec (\<lambda>_. PNull)) (take c ?accs)) T" for c T
  proof -
    have "c = 0 \<and> T = one_leaf 1 \<or> c = 1 \<and> T = one_leaf 2"
      using c one_after by (cases c) (auto simp: one_entry one_update)
    then show ?thesis
    proof
      assume T: "c = 0 \<and> T = one_leaf 1"
      have "pre = [] \<and> G = one_leaf 1" if "sub_at (one_leaf 1) pre = Some G" for pre G
        using that by (cases pre) (auto simp: one_leaf_def)
      from this [THEN conjunct1] this [THEN conjunct2] show ?thesis
        using T one_account_trie [of 1] one_bytes_ok(1) [of 1] one_chunk_safe
        unfolding stage_ok_def chunk_entries_def advance_cursor_def one_entry starts_with_def
        by (fastforce simp: one_update)
    qed (use one_account_trie [of 2] one_bytes_ok(1) [of 2] in
        \<open>auto simp: stage_ok_def chunk_entries_def advance_cursor_def one_entry\<close>)
  qed
  moreover have "acct_storage (snd (hd one_bundle)) = []" by (simp add: one_bundle_def)
  ultimately show ?thesis
    using one_world one_bytes_ok(2)
    by (auto simp: run_ok_def accounts_ok_def one_entry storage_known_def slot_updates_def as_nibs_def)
qed

section \<open>The run\<close>

lemma one_loaded:
  assumes "decode_trie one_ext one_bytes 1 = Ok (m, rest)" "hash one_ext m = (Ok (replicate 32 1), m1)"
  shows "ensure_state_trie_loaded one_ext one_state =
      (Ok (), one_state\<lparr>sts_input := tl (sts_input one_state), sts_state_trie := Some m1\<rparr>)"
    "read_chunk one_ext (one_state\<lparr>sts_input := tl (sts_input one_state), sts_state_trie := Some m1\<rparr>) =
      (Ok (one_chunk, m1), one_state\<lparr>sts_input := [], sts_state_trie := Some m1\<rparr>)"
  using assms
  by (simp_all add: ensure_state_trie_loaded_def one_state_def read_raw_bytes_def read_chunk_def read_witness_input_def one_chunk_def)

lemma one_run: "\<exists>s. streaming_update one_ext one_codec one_bundle one_state = (Ok (), s)"
proof -
  let ?k = "replicate 32 4 :: bytes" and ?n = "to_nibs (replicate 32 4)"
  obtain m rest where m: "decode_trie one_ext one_bytes 1 = Ok (m, rest)" "repr_tree one_ext m (one_leaf 1)"
    "length (nodes m) \<le> 128" using one_decoded by blast
  obtain m1 where m1: "hash one_ext m = (Ok (replicate 32 1), m1)" "repr_tree one_ext m1 (one_leaf 1)" "length (nodes m1) \<le> 128"
    using one.hash_repr [OF m(2)] one_root [of 1] m(3) by auto
  have k: "b256_nibbles ?k = ?n" "nibbles ?n" using b256_nibbles_is_trie_path [of ?k "[]"] by simp_all
  have get: "get_nibbles m1 ?n = Ok (Some (replicate 40 1))"
    using get_nibbles_repr [OF m1(2) k(2)] by (simp add: one_leaf_def)
  have acc: "chunk_account one_codec m1 [] ?k = Ok (Some one_account)"
    "get_rlp_nibbles (account_decode one_codec) m1 ?n = Ok (Some one_account)"
    using k(1) get by (simp_all add: chunk_account_def get_rlp_nibbles_def one_codec_def one_account_def)
  have "capacity_left m1" using m1(3) by (simp add: capacity_left_def)
  from insert_nibbles_repr [OF m1(2) k(2) this, of "replicate 40 2"] one_inserted obtain m2 where
    ins: "insert_nibbles ?n (replicate 40 2) m1 = (Ok True, m2)" "repr_tree one_ext m2 (one_leaf 2)" by auto
  let ?s = "one_state\<lparr>sts_input := [], sts_state_trie := Some m1, sts_account_cache := []\<rparr>"
  have "stores_tree one_ext m1 (one_leaf 1)" "canon (one_leaf b)" "\<not> pt_anchor (one_leaf b)" for b
    using m1(2) by (simp_all add: repr_stores) (simp_all add: one_leaf_def)
  with one.finish_chunk_root [of ?s m1 "one_leaf 1" "one_leaf 1" one_chunk "one_leaf 1" m2 "one_leaf 2"]
    m1(3) blinds.same ins(2) one_root [of 1] one_root [of 2]
  obtain s where fin: "finish_chunk one_ext one_chunk m2 ?s = (Ok (), s)" by (auto simp: one_chunk_def canon_top_def)
  then obtain m' where s: "s = ?s\<lparr>sts_state_trie := Some m'\<rparr>" by (auto elim: finish_chunk_Ok)
  have chunk: "sch_prefix one_chunk = []" "sch_witness_count one_chunk = 0" by (simp_all add: one_chunk_def)
  have state: "sts_account_cache one_state = [(?k, Some one_account)]" "sts_header one_state = \<lparr>sth_version = 2, sth_num_nodes = 1, sth_chunk_count = 1\<rparr>"
    "sts_storage_tries one_state = (\<lambda>_. None)" by (simp_all add: one_state_def)
  have account: "acct_info (snd (hd one_bundle)) = Some \<lparr>info_nonce = 2, info_balance = 0, info_code_hash = []\<rparr>"
    "acct_storage (snd (hd one_bundle)) = []" "\<not> acct_was_destroyed (snd (hd one_bundle))"
    "account_encode one_codec \<lparr>acc_nonce = 2, acc_balance = b, acc_storage_root = r, acc_code_hash = c\<rparr> = replicate 40 2" for b r c
    by (simp_all add: one_bundle_def one_codec_def)
  have "process_chunk one_ext one_codec (sorted_bundle one_ext one_bundle) 0
      (one_state\<lparr>sts_input := tl (sts_input one_state), sts_state_trie := Some m1\<rparr>) = (Ok 1, s)"
    using one_loaded(2) [OF m(1) m1(1)] acc ins(1) fin chunk state k(1) account
    by (simp add: one_entry process_chunk_def in_chunk_def starts_with_def advance_cursor_def remove_key_def
       apply_chunk_account_def new_storage_root_def insert_rlp_nibbles_def)
  then show ?thesis
    using one_loaded(1) [OF m(1) m1(1)] s state
    by (simp add: streaming_update_def one_entry validate_account_cache_def)
qed

lemma one_inv: "stream_inv one_ext {one_bytes} one_state"
  by (auto simp: stream_inv_def one_state_def typed_hints_def)

lemma one_root_after:
  assumes "streaming_update one_ext one_codec one_bundle one_state = (Ok (), s)"
  shows "fst (state_root one_ext s) = Ok (replicate 32 2)"
proof -
  have "root_hash one_ext (one_leaf 1) = sts_parent_state_root one_state" "sts_state_trie one_state = None"
    "sth_chunk_count (sts_header one_state) < 2 ^ 31" using one_root [of 1] by (simp_all add: one_state_def)
  from one.streamed_update [OF one_run_ok _ this(1) _ one_inv this(2,3) assms] one_account_trie [of 1] one_bytes_ok(1) [of 1]
  show ?thesis using one_after(2) one_root [of 2] by (auto simp: one_entry one_update)
qed

section \<open>The guest\<close>

definition one_out :: execution_output where
  "one_out = \<lparr>out_bundle = one_bundle, out_receipt_blooms = [], out_other = []\<rparr>"

text \<open>The EVM reads the account and writes it back with the next nonce, if the account exists.\<close>

definition one_next :: "account_info \<Rightarrow> execution_output" where
  "one_next info =
     \<lparr>out_bundle =
        [([9], \<lparr>acct_info = Some (info\<lparr>info_nonce := info_nonce info + 1\<rparr>), acct_storage = [], acct_was_destroyed = False\<rparr>)],
      out_receipt_blooms = [], out_other = []\<rparr>"

definition one_evm :: evm where
  "one_evm = QBasic [9] (\<lambda>acc. case acc of None \<Rightarrow> EvmFail ''no account'' | Some info \<Rightarrow> EvmDone (one_next info))"

definition one_lib :: exec_lib where
  "one_lib = chain_lib\<lparr>execute_block := (\<lambda>_ _ _. one_evm)\<rparr>"

lemma one_next: "one_next (account_info_of one_account) = one_out"
  by (simp add: one_next_def one_out_def one_bundle_def account_info_of_def one_account_def)

lemma one_block_evm [simp]: "block_evm w one_lib v b hs = one_evm"
  by (simp add: block_evm_def one_lib_def)

definition one_parent :: block_header where
  "one_parent = (chain_header 1 [])\<lparr>hdr_state_root := replicate 32 1\<rparr>"

definition one_block :: eth_block where
  "one_block =
     \<lparr>blk_header = (chain_header 2 (replicate 31 0 @ [1]))\<lparr>hdr_state_root := replicate 32 2\<rparr>,
      blk_transaction_count = 0, blk_body = []\<rparr>"

definition one_hints :: "hint list" where
  "one_hints = HWitness (WAccount \<lparr>ai_hashed_address = replicate 32 4, ai_account = Some one_account\<rparr>) # sts_input one_state"

definition one_input :: "hint list" where
  "one_input = HAncestorHeaders [one_parent] # HCurrentBlock one_block # HStateTrieHeader (sts_header one_state) # one_hints"

lemma one_start:
  "build_streaming_state_from_input_reader [one_parent] (HStateTrieHeader (sts_header one_state) # one_hints) =
     Ok (one_state\<lparr>sts_account_cache := [], sts_input := one_hints\<rparr>)"
  by (simp add: build_streaming_state_from_input_reader_def one_state_def one_parent_def)

lemma one_db:
  "from_streaming_parts guest_ext (one_state\<lparr>sts_account_cache := [], sts_input := one_hints\<rparr>) (blk_header one_block) [one_parent] =
     Ok \<lparr>db_state = StreamingState (one_state\<lparr>sts_account_cache := [], sts_input := one_hints\<rparr>),
         db_block_hashes = Map.empty(1 \<mapsto> replicate 31 0 @ [1]), db_bytecodes = StreamingBytecodes, db_recording = None\<rparr>"
  by (simp add: from_streaming_parts_def one_block_def one_parent_def chain_header_def guest_ext_def)

lemma one_evm_run:
  "run_evm one_ext one_codec X one_evm
     \<lparr>db_state = StreamingState (one_state\<lparr>sts_account_cache := [], sts_input := one_hints\<rparr>), db_block_hashes = t,
      db_bytecodes = StreamingBytecodes, db_recording = None\<rparr> =
   (Ok one_out, \<lparr>db_state = StreamingState one_state, db_block_hashes = t, db_bytecodes = StreamingBytecodes, db_recording = None\<rparr>)"
proof -
  have "read_account (replicate 32 4) (one_state\<lparr>sts_account_cache := [], sts_input := one_hints\<rparr>) =
      (Ok (Some one_account), one_state)"
    by (simp add: read_account_def one_hints_def one_state_def)
  then have "basic_ref one_ext one_codec [9]
      \<lparr>db_state = StreamingState (one_state\<lparr>sts_account_cache := [], sts_input := one_hints\<rparr>), db_block_hashes = t,
       db_bytecodes = StreamingBytecodes, db_recording = None\<rparr> =
      (Ok (Some (account_info_of one_account)), \<lparr>db_state = StreamingState one_state, db_block_hashes = t,
       db_bytecodes = StreamingBytecodes, db_recording = None\<rparr>)"
    by (simp add: basic_ref_def on_stream_def)
  then show ?thesis by (simp add: one_evm_def ask_def db_outcome_def one_next)
qed

lemma one_guest: "\<exists>words. guest_main one_ext one_codec guest_ext one_lib one_input = Ok words"
proof -
  obtain s where s: "streaming_update one_ext one_codec one_bundle one_state = (Ok (), s)" using one_run by blast
  obtain s2 where root: "state_root one_ext s = (Ok (replicate 32 2), s2)" using one_root_after [OF s] by (metis prod.collapse)
  have "check_block one_lib Mainnet one_block = Ok ()" "validate_block_post_execution one_lib Mainnet one_block one_out = None"
    by (simp_all add: check_block_def one_lib_def chain_lib_def fail_with_def)
  with s root one_start one_db one_evm_run show ?thesis
    by (simp add: guest_main_def execute_from_reader_def one_input_def fail_with_def execute_streaming_def finish_streaming_def
        one_out_def one_block_def)
qed

lemma one_hints_ok: "raw_hints one_hints = {one_bytes}" "typed_hints one_hints"
  by (auto simp: one_hints_def one_state_def typed_hints_def raw_hints_def)

text \<open>What the guest's EVM puts out on the database that is built from the hints.\<close>

lemma one_block_run:
  assumes "build_streaming_state_from_input_reader [one_parent] (HStateTrieHeader (sts_header one_state) # one_hints) = Ok s"
    and "from_streaming_parts guest_ext s (blk_header one_block) [one_parent] = Ok db"
    and "run_evm one_ext one_codec guest_ext one_evm db = (Ok out, db')"
  shows "out = one_out"
  using assms one_start one_db one_evm_run by simp

end
