(* ===== verification/Stream_Properties.thy ===== *)
theory Stream_Properties
  imports Stream_Example
begin

text \<open>
  The correctness statements of the streaming client, over the full state that the parent block's
  state root names.
\<close>

text \<open>
  C2: the streamed update of the state is sound. Let \<open>F\<close> be the full state trie of the parent block
  and \<open>S\<close> its storage tries. If the update accepts the host's chunks, then every account that
  execution took from the hints on trust is the account of the full state, and the new state root is
  the root of the canonical trie that holds the accounts of \<open>F\<close> with the changes of the bundle,
  each with the root of its updated storage trie. The hints may be any bytes that do not collide under
  Keccak with the nodes of the tries. The hypothesis \<open>run_ok\<close> excludes the updates for
  which the code does not have the nodes it needs: a deletion that merges an unresolved sibling, a chunk
  that becomes empty, a branch below an extension that stops being a branch.
\<close>

theorem streaming_update_sound:
  assumes "rlp_laws E" "run_ok E C F S (sorted_bundle E bundle) B"
    and "account_trie E F" "root_hash E F = sts_parent_state_root s" "\<And>bs. bs \<in> B \<Longrightarrow> bytes_ok E bs F"
    and "stream_inv E B s" "sts_state_trie s = None" "sth_chunk_count (sts_header s) < 2 ^ 31"
    and "streaming_update E C bundle s = (Ok (), s')"
  shows "(\<forall>k acc. map_of (sts_account_cache s) k = Some acc \<longrightarrow> account_at C F k = Ok acc)
    \<and> (\<exists>T. after F (map (entry_update E C S) (sorted_bundle E bundle)) T \<and> fst (state_root E s') = Ok (root_hash E T))"
  by (rule rlp_laws.streamed_update [OF assms])

theorem streaming_update_sound_witness:
  "account_at one_codec (one_leaf 1) (replicate 32 4) = Ok (Some one_account)
   \<and> (\<exists>s. streaming_update one_ext one_codec one_bundle one_state = (Ok (), s)
        \<and> fst (state_root one_ext s) = Ok (root_hash one_ext (one_leaf 2)))"
proof -
  obtain s where s: "streaming_update one_ext one_codec one_bundle one_state = (Ok (), s)" using one_run by blast
  have st: "account_trie one_ext (one_leaf 1)" "root_hash one_ext (one_leaf 1) = sts_parent_state_root one_state"
    "sts_state_trie one_state = None" "sth_chunk_count (sts_header one_state) < 2 ^ 31"
    "map_of (sts_account_cache one_state) (replicate 32 4) = Some (Some one_account)"
    using one_root [of 1] one_account_trie [of 1] by (simp_all add: one_state_def)
  have "bytes_ok one_ext bs (one_leaf 1)" if "bs \<in> {one_bytes}" for bs using that one_bytes_ok(1) [of 1] by simp
  from streaming_update_sound [OF one.rlp_laws_axioms one_run_ok st(1,2) this one_inv st(3,4) s] st(5) s one_after(2)
  show ?thesis by (auto simp: one_entry one_update)
qed

text \<open>
  C1: what a proof of the guest program says about Ethereum. If the guest commits a digest for a block and
  the first ancestor of the hints is the block's parent, whose state root is the root of the full state
  \<open>F\<close> with storage tries \<open>S\<close>, then the EVM ran the block on that full state: every account and slot
  it read is the one of \<open>F\<close> and \<open>S\<close>, every code has the hash asked for, every block hash is in the
  authenticated table. Post-execution validation passed, and the state root in the block's header is the root of
  the canonical trie with the block's changes. The digest is the hash of the resulting header. This holds
  for all hints, up to Keccak collisions, if the changes that the EVM puts out on the database built from these
  hints satisfy the conditions \<open>run_ok\<close> on updates. Nothing is asked of what the EVM would put out on other databases.
\<close>

theorem guest_proves_state_transition:
  assumes "rlp_laws E" "guest_main E C X L inp = Ok words" "\<And>h. length (header_hash X h) = 32"
    and "inp = HAncestorHeaders (parent # ancestors) # HCurrentBlock block # HStateTrieHeader th # hints"
    and "account_trie E F" "root_hash E F = hdr_state_root parent" "storage_world E C F S"
    and "\<And>bs. bs \<in> raw_hints hints \<Longrightarrow> bytes_ok E bs F" "\<And>bs k. bs \<in> raw_hints hints \<Longrightarrow> bytes_ok E bs (S k)"
    and "typed_hints hints" "sth_chunk_count th < 2 ^ 31"
    and "\<And>s db out db'. build_streaming_state_from_input_reader (parent # ancestors) (HStateTrieHeader th # hints) = Ok s \<Longrightarrow>
      from_streaming_parts X s (blk_header block) (parent # ancestors) = Ok db \<Longrightarrow>
      run_evm E C X (block_evm 32 L Mainnet block (parent # ancestors)) db = (Ok out, db') \<Longrightarrow>
      run_ok E C F S (sorted_bundle E (out_bundle out)) (raw_hints hints)"
  shows "\<exists>table out T header. build_block_hashes X (blk_header block # parent # ancestors) (\<lambda>_. None) = Ok table
    \<and> evm_on E C X F S table (block_evm 32 L Mainnet block (parent # ancestors)) out
    \<and> validate_block_post_execution L Mainnet block out = None
    \<and> after F (map (entry_update E C S) (sorted_bundle E (out_bundle out))) T
    \<and> hdr_state_root (blk_header block) = root_hash E T
    \<and> digest_bytes words = header_hash X header \<and> header = result_header X L block parent out"
  by (rule rlp_laws.guest_on_full_state [OF assms])

theorem guest_proves_state_transition_witness:
  "\<exists>words out T. guest_main one_ext one_codec guest_ext one_lib one_input = Ok words
     \<and> evm_on one_ext one_codec guest_ext (one_leaf 1) (\<lambda>_. PNull) (Map.empty(1 \<mapsto> replicate 31 0 @ [1]))
         (block_evm 32 one_lib Mainnet one_block [one_parent]) out
     \<and> after (one_leaf 1) (map (entry_update one_ext one_codec (\<lambda>_. PNull)) (sorted_bundle one_ext (out_bundle out))) T
     \<and> root_hash one_ext T = replicate 32 2"
proof -
  obtain words where w: "guest_main one_ext one_codec guest_ext one_lib one_input = Ok words" using one_guest by blast
  have ok: "run_ok one_ext one_codec (one_leaf 1) (\<lambda>_. PNull) (sorted_bundle one_ext (out_bundle out)) (raw_hints one_hints)"
    if "build_streaming_state_from_input_reader [one_parent] (HStateTrieHeader (sts_header one_state) # one_hints) = Ok s"
      "from_streaming_parts guest_ext s (blk_header one_block) [one_parent] = Ok db"
      "run_evm one_ext one_codec guest_ext (block_evm 32 one_lib Mainnet one_block [one_parent]) db = (Ok out, db')" for s db out db'
    using one_block_run [OF that(1,2)] that(3) one_run_ok by (simp add: one_out_def one_hints_ok)
  have h: "length (header_hash guest_ext h) = 32" for h by (simp add: guest_ext_def)
  have F: "account_trie one_ext (one_leaf 1)" "root_hash one_ext (one_leaf 1) = hdr_state_root one_parent"
    "sth_chunk_count (sts_header one_state) < 2 ^ 31" "hdr_state_root (blk_header one_block) = replicate 32 2"
    using one_account_trie [of 1] one_root [of 1] by (simp_all add: one_parent_def one_state_def one_block_def)
  have B: "bytes_ok one_ext bs (one_leaf 1)" "bytes_ok one_ext bs PNull" if "bs \<in> raw_hints one_hints" for bs
    using that one_bytes_ok(1) [of 1] one_bytes_ok(2) by (simp_all add: one_hints_ok)
  have "build_block_hashes guest_ext (blk_header one_block # [one_parent]) (\<lambda>_. None) = Ok (Map.empty(1 \<mapsto> replicate 31 0 @ [1]))"
    by (simp add: one_block_def one_parent_def chain_header_def guest_ext_def)
  moreover have "\<exists>table out T header. build_block_hashes guest_ext (blk_header one_block # [one_parent]) (\<lambda>_. None) = Ok table
    \<and> evm_on one_ext one_codec guest_ext (one_leaf 1) (\<lambda>_. PNull) table (block_evm 32 one_lib Mainnet one_block [one_parent]) out
    \<and> validate_block_post_execution one_lib Mainnet one_block out = None
    \<and> after (one_leaf 1) (map (entry_update one_ext one_codec (\<lambda>_. PNull)) (sorted_bundle one_ext (out_bundle out))) T
    \<and> hdr_state_root (blk_header one_block) = root_hash one_ext T
    \<and> digest_bytes words = header_hash guest_ext header \<and> header = result_header guest_ext one_lib one_block one_parent out"
    by (rule guest_proves_state_transition [OF one.rlp_laws_axioms w h one_input_def F(1,2) one_world B one_hints_ok(2) F(3)])
       (assumption | rule ok)+
  ultimately show ?thesis using w F(4) by (metis outcome.inject(1))
qed

end
