(* ===== verification/Honest_Tree.thy ===== *)
theory Honest_Tree
  imports Stream_Run
begin

text \<open>
  When updates succeed. An update at a key that can be read succeeds, the arena follows the tree,
  and a bundle that the eager client applies is a list of updates of the account trie. These are the facts
  with which the streamed update of an honest host is shown to go through.
\<close>

section \<open>Updates of readable keys\<close>

lemma pt_insert_resolves: "pt_get t k = Ok r \<Longrightarrow> pt_insert t k v \<noteq> Err (NodeNotResolved d)"
proof (induction t k v rule: pt_insert.induct)
  case (2 cs k v)
  then show ?case by (cases k) (auto split: option.splits outcome.splits if_splits)
next
  case (4 p c k v)
  show ?case
  proof (cases "lcp p k = length p")
    case True
    then have "prefix p k" using lcp_full_iff [of p k] by simp
    with 4 True show ?thesis by (auto simp: pt_insert.simps(4) split: outcome.splits)
  next
    case False
    then show ?thesis by (auto simp: pt_insert.simps(4) Let_def)
  qed
qed (auto simp: pt_insert.simps(3) Let_def)

lemma pt_delete_resolves: "pt_get t k = Ok r \<Longrightarrow> pt_delete t k \<noteq> Err (NodeNotResolved d)"
proof (induction t k rule: pt_delete.induct)
  case (2 cs k)
  then show ?case by (cases k) (auto split: option.splits outcome.splits if_splits)
next
  case (4 p c k)
  then show ?case by (auto split: outcome.splits if_splits)
qed auto

lemma update_readable:
  assumes "canon_top t" "keylen n t" "nibbles k" "length k = n" "pt_get t k = Ok r"
  shows "\<exists>t'. pt_updates [(k, v)] t = Ok t' \<and> keylen n t'"
proof (cases v)
  case None
  obtain b t' where d: "pt_delete t k = Ok (b, t')"
    using pt_delete_total [OF assms(1,3)] pt_delete_keylen(1) [OF assms(1,3,2,4)] pt_delete_resolves [OF assms(5)] by fastforce
  with None pt_delete_keylen(2) [OF assms(1,3,2,4) d] show ?thesis by simp
next
  case (Some w)
  obtain b t' where d: "pt_insert t k w = Ok (b, t')"
    using pt_insert_total [OF assms(1,3), of w] pt_insert_keylen(1) [OF assms(1,3,2,4)] pt_insert_resolves [OF assms(5)] by fastforce
  with Some pt_insert_keylen(2) [OF assms(1,3,2,4) d] show ?thesis by simp
qed

lemma pt_updates_Cons: "pt_updates (u # us) t = (case pt_updates [u] t of Ok t' \<Rightarrow> pt_updates us t' | Err e \<Rightarrow> Err e | Panic p \<Rightarrow> Panic p)"
proof -
  obtain k v where "u = (k, v)" by (cases u)
  then show ?thesis by (cases v) (auto split: outcome.splits prod.splits)
qed

lemma pt_updates_ConsI: "pt_updates [u] t = Ok t1 \<Longrightarrow> pt_updates us t1 = Ok t' \<Longrightarrow> pt_updates (u # us) t = Ok t'"
  by (subst pt_updates_Cons) simp

lemma pt_updates_readable:
  assumes "canon_top t" "keylen n t" "distinct (map fst us)"
    and "\<And>u. u \<in> set us \<Longrightarrow> nibbles (fst u) \<and> length (fst u) = n \<and> (\<exists>r. pt_get t (fst u) = Ok r)"
  shows "\<exists>t'. pt_updates us t = Ok t' \<and> keylen n t'"
  using assms
proof (induction us arbitrary: t)
  case (Cons u us)
  have u: "nibbles (fst u)" "length (fst u) = n" "\<exists>r. pt_get t (fst u) = Ok r" using Cons.prems(4) [of u] by auto
  then obtain t1 where t1: "pt_updates [u] t = Ok t1" "keylen n t1"
    using update_readable [OF Cons.prems(1,2) u(1,2), of _ "snd u"] by auto
  have v: "canon_top t1" "\<And>p. nibbles p \<Longrightarrow> pt_get t1 p = viewed (\<lambda>k. k) [u] (pt_get t) p"
    using pt_updates_view [OF t1(1) Cons.prems(1)] u(1) by simp_all
  have "nibbles (fst w) \<and> length (fst w) = n \<and> (\<exists>r. pt_get t1 (fst w) = Ok r)" if "w \<in> set us" for w
  proof -
    have w: "nibbles (fst w)" "length (fst w) = n" "\<exists>r. pt_get t (fst w) = Ok r" using Cons.prems(4) [of w] that by auto
    have "fst w \<in> fst ` set us" using that by simp
    moreover have "fst u \<notin> fst ` set us" using Cons.prems(3) by simp
    ultimately have "fst w \<noteq> fst u" by metis
    then have "fst w \<notin> fst ` set [u]" by simp
    from viewed_other [OF this] v(2) [OF w(1)] have "pt_get t1 (fst w) = pt_get t (fst w)" by simp
    with w show ?thesis by simp
  qed
  with Cons.IH [of t1] v(1) t1(2) Cons.prems(3) obtain t' where "pt_updates us t1 = Ok t'" "keylen n t'" by auto
  with pt_updates_ConsI [OF t1(1)] show ?case by blast
qed simp

lemma keylen_sub_at: "keylen n t \<Longrightarrow> sub_at t p = Some G \<Longrightarrow> length p \<le> n \<and> keylen (n - length p) G"
proof (induction t p arbitrary: n rule: sub_at.induct)
  case (2 cs h k)
  show ?case
  proof (cases "cs ! unat h")
    case None
    with 2 show ?thesis by (auto split: if_splits)
  next
    case (Some c)
    have h: "unat h < length cs" "0 < n" using 2(2,3) by (auto split: if_splits)
    with Some 2(2) have "keylen (n - 1) c" by (auto split: option.splits)
    with 2(1) [OF h(1) Some, of "n - 1"] 2(3) Some h show ?thesis by auto
  qed
next
  case (3 p c h k)
  obtain s where s: "h # k = p @ s" "sub_at c s = Some G" using 3(3) by (auto simp: prefix_def split: if_splits)
  have c: "length p \<le> n" "keylen (n - length p) c" using 3(2) by simp_all
  have pre: "prefix p (h # k)" using s(1) by simp
  have "drop (length p) (h # k) = s" using s(1) by simp
  with 3(1) [OF pre c(2)] s(2) have "length s \<le> n - length p" "keylen (n - length p - length s) G" by auto
  moreover have "length (h # k) = length p + length s" using s(1) by simp
  ultimately show ?case using c(1) by simp
qed auto

section \<open>The arena follows\<close>

lemma apply_nibbles_complete:
  assumes "repr_tree E m t" "trie_room (n + length us) m" "nib_keys us" "pt_updates us t = Ok t'"
  shows "\<exists>m'. apply_updates insert_nibbles delete_nibbles us m = (Ok (), m') \<and> repr_tree E m' t' \<and> trie_room n m'"
  using assms
proof (induction us arbitrary: m t)
  case (Cons u us)
  obtain k v where u: "u = (k, v)" by (cases u)
  have room: "trie_room (Suc (n + length us)) m" and k: "nibbles k" using Cons.prems u by simp_all
  show ?case
  proof (cases v)
    case None
    with Cons.prems(4) u obtain b t1 where t1: "pt_delete t k = Ok (b, t1)" "pt_updates us t1 = Ok t'"
      by (auto split: outcome.splits)
    from delete_nibbles_repr [OF Cons.prems(1) k] t1(1) obtain m1 where
      m1: "delete_nibbles k m = (Ok b, m1)" "repr_tree E m1 t1" "length (nodes m1) = length (nodes m)" by auto
    have "trie_room (n + length us) m1" using room m1(3) by (simp add: trie_room_def)
    with Cons.IH [OF m1(2) this _ t1(2)] Cons.prems(3) m1(1) u None show ?thesis by auto
  next
    case (Some w)
    with Cons.prems(4) u obtain b t1 where t1: "pt_insert t k w = Ok (b, t1)" "pt_updates us t1 = Ok t'"
      by (auto split: outcome.splits)
    from insert_nibbles_repr [OF Cons.prems(1) k trie_room_capacity [OF room], of w] t1(1) obtain m1 where
      m1: "insert_nibbles k w m = (Ok b, m1)" "repr_tree E m1 t1" "length (nodes m1) \<le> length (nodes m) + 3" by auto
    have "trie_room (n + length us) m1" using room m1(3) by (simp add: trie_room_def)
    with Cons.IH [OF m1(2) this _ t1(2)] Cons.prems(3) m1(1) u Some show ?thesis by auto
  qed
qed simp

context rlp_laws
begin

lemma update_storage_complete:
  assumes "repr_tree E m t" "length (nodes m) \<le> 2 ^ 31" "length (acct_storage account) < 2 ^ 28"
    and "pt_updates (slot_updates E C account) t = Ok t'"
  shows "fst (update_storage_trie E C (acct_storage account) m) = Ok (root_hash E t')"
proof -
  let ?us = "slot_updates E C account"
  have "trie_room (0 + length ?us) m" using assms(2,3) by (simp add: trie_room_def)
  from apply_nibbles_complete [OF assms(1) this _ assms(4)] obtain m1 where
    m1: "apply_updates insert_nibbles delete_nibbles ?us m = (Ok (), m1)" "repr_tree E m1 t'" by (auto simp: slot_updates_def)
  obtain m2 where "hash E m1 = (Ok (root_hash E t'), m2)" using hash_repr [OF m1(2)] by blast
  with m1(1) show ?thesis
    by (simp add: update_storage_trie_def slot_updates_def apply_slots_updates apply_bytes_nibbles)
qed

end

section \<open>A bundle on the eager state\<close>

text \<open>The trees of a state: \<open>t\<close> of the state trie, \<open>S\<close> of the storage tries.\<close>

definition tries_of :: "ext \<Rightarrow> ethereum_state \<Rightarrow> bytes set \<Rightarrow> (bytes \<Rightarrow> ptree) \<Rightarrow> bool" where
  "tries_of E st H S \<longleftrightarrow> (\<forall>h \<in> H. case storage_tries st h of
     None \<Rightarrow> S h = PNull | Some m \<Rightarrow> repr_tree E m (S h) \<and> length (nodes m) \<le> 2 ^ 31)"

definition bundle_entry_of :: "ext \<Rightarrow> bytes \<times> bundle_account \<Rightarrow> bundle_entry" where
  "bundle_entry_of E a = (keccak256 E (fst a), to_nibs (keccak256 E (fst a)), snd a)"

context rlp_laws
begin

lemma sorted_bundle_entries: "sorted_bundle E bundle = sort_key fst (map (bundle_entry_of E) bundle)"
proof -
  have "b256_nibbles (keccak256 E a) = to_nibs (keccak256 E a)" for a
    using b256_nibbles_fold [of 32 "keccak256 E a"] keccak_length by (simp add: b256_nibbles_def)
  then have "(\<lambda>(address, account). (keccak256 E address, b256_nibbles (keccak256 E address), account)) = bundle_entry_of E"
    by (simp add: fun_eq_iff bundle_entry_of_def)
  then show ?thesis by (simp add: sorted_bundle_def)
qed

lemma storage_update_repr:
  assumes "repr_tree E m t" "length (nodes m) \<le> 2 ^ 31" "length (acct_storage account) < 2 ^ 28"
    and "apply_slots E C (acct_storage account) m = (Ok (), m1)"
  shows "\<exists>T. pt_updates (slot_updates E C account) t = Ok T \<and> repr_tree E m1 T"
proof -
  have "apply_updates insert_nibbles delete_nibbles (slot_updates E C account) m = (Ok (), m1)"
    using assms(4) by (simp add: slot_updates_def apply_slots_updates apply_bytes_nibbles)
  moreover have "trie_room (0 + length (slot_updates E C account)) m" using assms(2,3) by (simp add: trie_room_def)
  moreover have "nib_keys (slot_updates E C account)" by (simp add: slot_updates_def)
  ultimately show ?thesis using apply_nibbles_repr [OF assms(1)] by blast
qed

lemma apply_account_tree:
  assumes t: "repr_tree E (state_trie s) t" "trie_room (Suc n) (state_trie s)"
    and S: "tries_of E s {keccak256 E (fst a)} S" "length (acct_storage (snd a)) < 2 ^ 28"
    and run: "apply_account E C (fst a) (snd a) s = (Ok (), s')"
  shows "\<exists>t'. pt_updates [entry_update E C S (bundle_entry_of E a)] t = Ok t' \<and> repr_tree E (state_trie s') t'
    \<and> trie_room n (state_trie s') \<and> (acct_info (snd a) \<noteq> None \<longrightarrow> (\<exists>T. new_storage E C S (keccak256 E (fst a)) (snd a) = Ok T))
    \<and> (\<forall>h. h \<noteq> keccak256 E (fst a) \<longrightarrow> storage_tries s' h = storage_tries s h)"
proof -
  let ?h = "keccak256 E (fst a)" and ?k = "to_nibs (keccak256 E (fst a))"
  have room: "trie_room (n + length [u]) (state_trie s)" for u :: "nibs \<times> bytes option" using t(2) by simp
  have step: "\<exists>t'. pt_updates [(?k, v)] t = Ok t' \<and> repr_tree E m' t' \<and> trie_room n m'"
    if "apply_updates insert_nibbles delete_nibbles [(?k, v)] (state_trie s) = (Ok (), m')" for v m'
    by (rule apply_nibbles_repr [OF t(1) room _ that]) simp
  show ?thesis
  proof (cases "acct_info (snd a)")
    case None
    then obtain b m' where m': "delete ?h (state_trie s) = (Ok b, m')"
      "s' = s\<lparr>state_trie := m', storage_tries := (storage_tries s)(?h := None)\<rparr>"
      using run by (auto simp: apply_account_def Let_def split: prod.splits outcome.splits)
    with step [of None m'] None show ?thesis by (auto simp: delete_as_nibbles entry_update_def bundle_entry_of_def)
  next
    case (Some info)
    let ?old = "old_storage E s (fst a) (snd a)"
    from run Some obtain st0 root st b m' where
      slots: "apply_slots E C (acct_storage (snd a)) ?old = (Ok (), st0)" and
      root: "hash E st0 = (Ok root, st)" and
      ins: "insert_mpt ?h (account_encode C (written_account info root)) (state_trie s) = (Ok b, m')" and
      s': "s' = s\<lparr>state_trie := m', storage_tries := (storage_tries s)(?h \<mapsto> st)\<rparr>"
      by (auto simp: apply_account_def Let_def old_storage_def written_account_def insert_rlp_def
          split: prod.splits outcome.splits option.splits if_splits)
    have "repr_tree E ?old (if acct_was_destroyed (snd a) then PNull else S ?h) \<and> length (nodes ?old) \<le> 2 ^ 31"
      using S(1) repr_new by (auto simp: old_storage_def tries_of_def new_def with_capacity_def split: option.splits)
    then obtain T where T: "new_storage E C S ?h (snd a) = Ok T" "repr_tree E st0 T"
      using storage_update_repr [OF _ _ S(2) slots] by (auto simp: new_storage_def)
    moreover have "root = root_hash E T" using hash_repr [OF T(2)] root by simp
    ultimately have u: "entry_update E C S (bundle_entry_of E a) = (?k, Some (account_encode C (written_account info root)))"
      using Some by (simp add: entry_update_def bundle_entry_of_def)
    have "apply_updates insert_nibbles delete_nibbles [(?k, Some (account_encode C (written_account info root)))] (state_trie s) = (Ok (), m')"
      using ins by (simp add: insert_mpt_nibbles)
    from step [OF this] u T s' show ?thesis by auto
  qed
qed

lemma tries_of_keep:
  "tries_of E s H S \<Longrightarrow> \<forall>h \<in> H. storage_tries s' h = storage_tries s h \<Longrightarrow> tries_of E s' H S"
  by (simp add: tries_of_def)

lemma tries_of_mono: "tries_of E s H S \<Longrightarrow> K \<subseteq> H \<Longrightarrow> tries_of E s K S"
  by (auto simp: tries_of_def)

lemma update_bundle_tree:
  assumes "repr_tree E (state_trie s) t" "trie_room (length accs) (state_trie s)"
    and "tries_of E s ((\<lambda>a. keccak256 E (fst a)) ` set accs) S" "\<forall>a \<in> set accs. length (acct_storage (snd a)) < 2 ^ 28"
    and "distinct (map (\<lambda>a. keccak256 E (fst a)) accs)" "update_from_bundle_state E C accs s = (Ok (), s')"
  shows "\<exists>t'. pt_updates (map (\<lambda>a. entry_update E C S (bundle_entry_of E a)) accs) t = Ok t' \<and> repr_tree E (state_trie s') t'
    \<and> (\<forall>a \<in> set accs. acct_info (snd a) \<noteq> None \<longrightarrow> (\<exists>T. new_storage E C S (keccak256 E (fst a)) (snd a) = Ok T))"
  using assms
proof (induction accs arbitrary: s t)
  case (Cons a accs)
  let ?h = "\<lambda>a. keccak256 E (fst a)"
  obtain s1 where s1: "apply_account E C (fst a) (snd a) s = (Ok (), s1)"
    "update_from_bundle_state E C accs s1 = (Ok (), s')" using Cons.prems(6) by (auto simp: and_then_Ok_iff)
  have a: "trie_room (Suc (length accs)) (state_trie s)" "tries_of E s {?h a} S" "length (acct_storage (snd a)) < 2 ^ 28"
    using Cons.prems tries_of_mono [OF Cons.prems(3), of "{?h a}"] by simp_all
  obtain t1 where t1: "pt_updates [entry_update E C S (bundle_entry_of E a)] t = Ok t1" "repr_tree E (state_trie s1) t1"
    "trie_room (length accs) (state_trie s1)" "acct_info (snd a) \<noteq> None \<longrightarrow> (\<exists>T. new_storage E C S (?h a) (snd a) = Ok T)"
    "\<forall>h. h \<noteq> ?h a \<longrightarrow> storage_tries s1 h = storage_tries s h"
    using apply_account_tree [OF Cons.prems(1) a s1(1)] by blast
  have rest: "tries_of E s (?h ` set accs) S" using tries_of_mono [OF Cons.prems(3), of "?h ` set accs"] by auto
  have "?h a \<notin> ?h ` set accs" using Cons.prems(5) by simp
  then have "\<forall>h \<in> ?h ` set accs. h \<noteq> ?h a" by metis
  then have "\<forall>h \<in> ?h ` set accs. storage_tries s1 h = storage_tries s h" using t1(5) by blast
  from tries_of_keep [OF rest this] have "tries_of E s1 (?h ` set accs) S" .
  with Cons.IH [OF t1(2,3) this] s1(2) Cons.prems(4,5) obtain t' where
    "pt_updates (map (\<lambda>a. entry_update E C S (bundle_entry_of E a)) accs) t1 = Ok t'" "repr_tree E (state_trie s') t'"
    "\<forall>a \<in> set accs. acct_info (snd a) \<noteq> None \<longrightarrow> (\<exists>T. new_storage E C S (?h a) (snd a) = Ok T)" by auto
  with pt_updates_ConsI [OF t1(1)] t1(4) show ?case by auto
qed simp

end

section \<open>The order of the chunks\<close>

text \<open>
  The order of the chunks. The client goes through the changed accounts in the order of their hashes and
  takes for every chunk the accounts that follow and have its prefix. With sorted prefixes none of
  which is a prefix of another, this gives every chunk all of its accounts.
\<close>

lemma byte_less_nibs:
  "(a :: byte) < b \<Longrightarrow> drop_bit 4 a < drop_bit 4 b \<or> drop_bit 4 a = drop_bit 4 b \<and> a AND 0x0f < b AND 0x0f"
proof -
  assume "a < b"
  then have "unat a < unat b" by (simp add: word_less_nat_alt)
  moreover have "unat (drop_bit 4 x) = unat x div 16" "unat (x AND 0x0f) = unat x mod 16" for x :: byte
  proof -
    show "unat (drop_bit 4 x) = unat x div 16" using unat_drop_bit_eq [of 4 x] drop_bit_eq_div [of 4 "unat x"] by simp
    have "x AND 0x0f = take_bit 4 x" by (simp add: take_bit_eq_mask mask_numeral)
    then show "unat (x AND 0x0f) = unat x mod 16" using take_bit_eq_mod [of 4 "unat x"] by (simp add: unsigned_take_bit_eq)
  qed
  moreover have "m div 16 < n div 16 \<or> m div 16 = n div 16 \<and> m mod 16 < n mod 16" if "m < n" for m n :: nat
    using div_le_mono [of m n 16] div_mult_mod_eq [of m 16] div_mult_mod_eq [of n 16] that by linarith
  ultimately show ?thesis by (simp only: word_less_nat_alt word_unat_eq_iff)
qed

lemma to_nibs_less: "a < b \<Longrightarrow> to_nibs a < to_nibs b"
proof (induction a arbitrary: b)
  case Nil
  then show ?case by (cases b) auto
next
  case (Cons x a)
  then obtain y c where b: "b = y # c" by (cases b) auto
  with Cons.prems consider "x < y" | "x = y" "a < c" by auto
  then show ?case using b Cons.IH byte_less_nibs [of x y] by cases auto
qed

lemma to_nibs_le: "a \<le> b \<Longrightarrow> to_nibs a \<le> to_nibs b"
  using to_nibs_less by (fastforce simp: order_le_less)

lemma parallel_less:
  fixes p q :: nibs
  assumes "parallel p q" "p \<le> q" "prefix p x" "prefix q y"
  shows "x < y"
proof -
  obtain as b bs c cs where d: "b \<noteq> c" "p = as @ b # bs" "q = as @ c # cs" using parallel_decomp [OF assms(1)] by blast
  have le: "b < c" using assms(2) d by (induction as arbitrary: p q) auto
  obtain r r' where "x = as @ b # r" "y = as @ c # r'" using assms(3,4) d by (auto simp: prefix_def)
  then show ?thesis using le by (induction as arbitrary: x y) auto
qed

lemma prefix_between: "prefix p (x :: nibs) \<Longrightarrow> prefix p z \<Longrightarrow> x \<le> y \<Longrightarrow> y \<le> z \<Longrightarrow> prefix p y"
proof (induction p arbitrary: x y z)
  case (Cons a p)
  obtain x' z' where xz: "x = a # x'" "z = a # z'" "prefix p x'" "prefix p z'" using Cons.prems(1,2) by (elim prefixE) simp
  have le: "a # x' \<le> y" "y \<le> a # z'" using Cons.prems(3,4) xz(1,2) by simp_all
  then obtain b y' where y: "y = b # y'" by (cases y) simp_all
  then have "a < b \<or> a = b \<and> x' \<le> y'" "b < a \<or> b = a \<and> y' \<le> z'" using le by simp_all
  then have "b = a \<and> x' \<le> y' \<and> y' \<le> z'" using less_asym [of a b] by blast
  with Cons.IH [OF xz(3,4)] y show ?case by simp
qed simp

text \<open>The first chunk takes its keys from the front of the list, and leaves the others to the other chunks.\<close>

lemma first_chunk:
  fixes g :: "'a \<Rightarrow> nibs"
  assumes ks: "sorted (map g ks)" and ps: "sorted (p # ps)" "sorted_wrt parallel (p # ps)"
    and cover: "\<And>k. k \<in> set ks \<Longrightarrow> \<exists>q \<in> set (p # ps). prefix q (g k)"
    and used: "\<And>q. q \<in> set (p # ps) \<Longrightarrow> \<exists>k \<in> set ks. prefix q (g k)"
  shows "takeWhile (\<lambda>k. prefix p (g k)) ks \<noteq> []"
    "k \<in> set (dropWhile (\<lambda>k. prefix p (g k)) ks) \<Longrightarrow> \<exists>q \<in> set ps. prefix q (g k)"
    "k \<in> set (dropWhile (\<lambda>k. prefix p (g k)) ks) \<Longrightarrow> \<not> prefix p (g k)"
    "q \<in> set ps \<Longrightarrow> \<exists>k \<in> set (dropWhile (\<lambda>k. prefix p (g k)) ks). prefix q (g k)"
proof -
  let ?P = "\<lambda>k. prefix p (g k)"
  obtain e where e: "e \<in> set ks" "prefix p (g e)" using used [of p] by auto
  then obtain k0 ks' where ks': "ks = k0 # ks'" by (cases ks) auto
  have first: "prefix p (g k0)"
  proof (rule ccontr)
    assume n: "\<not> prefix p (g k0)"
    obtain q where q: "q \<in> set (p # ps)" "prefix q (g k0)" using cover [of k0] ks' by auto
    then have q': "q \<in> set ps" using n by auto
    then have "parallel p q" "p \<le> q" using ps by auto
    from parallel_less [OF this e(2) q(2)] have "g e < g k0" .
    moreover have "g k0 \<le> g e" using ks ks' e(1) by auto
    ultimately show False by simp
  qed
  then show "takeWhile ?P ks \<noteq> []" using ks' by simp
  have none: "\<not> prefix p (g k)" if k: "k \<in> set (dropWhile ?P ks)" for k
  proof
    assume p: "prefix p (g k)"
    have ne: "dropWhile ?P ks \<noteq> []" using k by (metis empty_iff empty_set)
    then obtain d ds where d: "dropWhile ?P ks = d # ds" by (cases "dropWhile ?P ks") auto
    have nd: "\<not> ?P d" using hd_dropWhile [OF ne] d by simp
    have "sorted (map g (takeWhile ?P ks @ d # ds))" using ks d by (metis takeWhile_dropWhile_id)
    moreover have "k0 \<in> set (takeWhile ?P ks)" using first ks' by simp
    ultimately have "g k0 \<le> g d" "g d \<le> g k" using k d by (auto simp: sorted_append)
    from prefix_between [OF first p this] nd show False by simp
  qed
  then show "k \<in> set (dropWhile ?P ks) \<Longrightarrow> \<not> prefix p (g k)" for k .
  show "\<exists>q \<in> set ps. prefix q (g k)" if "k \<in> set (dropWhile ?P ks)" for k
    using cover [of k] none [OF that] that by (auto dest: set_dropWhileD)
  show "\<exists>k \<in> set (dropWhile ?P ks). prefix q (g k)" if q: "q \<in> set ps" for q
  proof -
    obtain k where k: "k \<in> set ks" "prefix q (g k)" using used [of q] q by auto
    have "parallel p q" using ps(2) q by simp
    then have "\<not> ?P k" using k(2) prefix_same_cases by (auto simp: parallel_def)
    then have "k \<notin> set (takeWhile ?P ks)" by (auto dest: set_takeWhileD)
    then have "k \<in> set (dropWhile ?P ks)" using k(1) by (metis Un_iff set_append takeWhile_dropWhile_id)
    with k(2) show ?thesis by blast
  qed
qed

end
