(* ===== verification/Host_Hints.thy ===== *)
theory Host_Hints
  imports Client_Exec
begin

text \<open>
  Model of the host side of the streamed input, \<^verbatim>\<open>write_ceno_client_input\<close> of
  \<^verbatim>\<open>crates/host-bench/src/lib.rs\<close>: it executes the block once on the eager input to learn the
  order in which witnesses are asked for, partitions the state trie into a frontier and chunks
  around the modified accounts, and writes the hints in the order in which the client reads them.

  A raw hint is padded to the word size; the padding is not part of the data the client reads,
  since the item carries the end of its data. \<open>read_raw_item\<close> is that reading.
\<close>

record raw_item =
  item_data :: bytes
  item_end_of_data :: nat

definition next_multiple_of :: "nat \<Rightarrow> nat \<Rightarrow> nat" where
  "next_multiple_of n k = (n + k - 1) div k * k"

definition write_raw_hint_bytes :: "nat \<Rightarrow> bytes \<Rightarrow> raw_item" where
  "write_raw_hint_bytes word_alignment bs =
     \<lparr>item_data = bs @ replicate (next_multiple_of (length bs) word_alignment - length bs) 0,
      item_end_of_data = length bs\<rparr>"

definition read_raw_item :: "raw_item \<Rightarrow> bytes" where
  "read_raw_item it = take (item_end_of_data it) (item_data it)"

datatype host_error =
    HostClientError client_error
  | HostMptError mpt_error
  | FrontierChangedRoot
  | NoStateTrieMarker
  | MissingAccountHint bytes
  | MissingStorageHint bytes
  | MissingBytecodeHint bytes

section \<open>Lookup tables\<close>

definition storage_trie_by_hash ::
  "(bytes \<times> nat \<times> bytes) list \<Rightarrow> bytes \<Rightarrow> (nat \<times> bytes) option" where
  "storage_trie_by_hash tries = foldl (\<lambda>m (h, n, bs). m(h \<mapsto> (n, bs))) (\<lambda>_. None) tries"

definition modified_accounts :: "witness_access list \<Rightarrow> (bytes \<times> nat) list" where
  "modified_accounts order =
     List.map_filter (\<lambda>a. case a of AccModifiedAccount h n \<Rightarrow> Some (h, 1 + n) | _ \<Rightarrow> None) order"

primrec account_by_hash ::
  "eth_codec \<Rightarrow> mpt \<Rightarrow> witness_access list \<Rightarrow> (bytes \<Rightarrow> trie_account option option) \<Rightarrow>
   (host_error, bytes \<Rightarrow> trie_account option option) outcome" where
  "account_by_hash C trie [] m = Ok m"
| "account_by_hash C trie (a # as) m =
     (case a of
        AccAccount h \<Rightarrow>
          (case get_rlp (account_decode C) trie h of
             Ok acc \<Rightarrow> account_by_hash C trie as (m(h \<mapsto> acc))
           | Err e \<Rightarrow> Err (HostMptError e)
           | Panic p \<Rightarrow> Panic p)
      | _ \<Rightarrow> account_by_hash C trie as m)"

text \<open>The part of the order up to the state marker, and the part after it.\<close>

definition is_state_marker :: "witness_access \<Rightarrow> bool" where
  "is_state_marker a = (case a of AccStateTrie \<Rightarrow> True | _ \<Rightarrow> False)"

definition split_order ::
  "witness_access list \<Rightarrow> (witness_access list \<times> witness_access list) option" where
  "split_order order =
     (case dropWhile (\<lambda>a. \<not> is_state_marker a) order of
        [] \<Rightarrow> None
      | marker # rest \<Rightarrow> Some (takeWhile (\<lambda>a. \<not> is_state_marker a) order @ [marker], rest))"

definition is_post_access :: "witness_access \<Rightarrow> bool" where
  "is_post_access a = (case a of AccAccount _ \<Rightarrow> True | AccStorageTrie _ \<Rightarrow> True | _ \<Rightarrow> False)"

definition access_hash :: "witness_access \<Rightarrow> bytes" where
  "access_hash a = (case a of AccAccount h \<Rightarrow> h | AccStorageTrie h \<Rightarrow> h | _ \<Rightarrow> [])"

section \<open>Writing hints\<close>

record hint_source =
  src_accounts :: "bytes \<Rightarrow> trie_account option option"
  src_storage :: "bytes \<Rightarrow> (nat \<times> bytes) option"
  src_bytecodes :: "bytes \<Rightarrow> bytes option"
  src_frontier :: bytes

definition account_hint :: "hint_source \<Rightarrow> bytes \<Rightarrow> (host_error, hint list) outcome" where
  "account_hint H h =
     (case src_accounts H h of
        None \<Rightarrow> Err (MissingAccountHint h)
      | Some acc \<Rightarrow> Ok [HWitness (WAccount \<lparr>ai_hashed_address = h, ai_account = acc\<rparr>)])"

definition storage_hint :: "hint_source \<Rightarrow> bytes \<Rightarrow> (host_error, hint list) outcome" where
  "storage_hint H h =
     (case src_storage H h of
        None \<Rightarrow> Err (MissingStorageHint h)
      | Some (n, bs) \<Rightarrow>
          Ok [HWitness (WStorageTrie \<lparr>stoh_hashed_address = h, stoh_num_nodes = n\<rparr>), HRaw bs])"

text \<open>The hints for an access before the marker, and for one that belongs to a chunk.\<close>

definition execution_hint :: "hint_source \<Rightarrow> witness_access \<Rightarrow> (host_error, hint list) outcome" where
  "execution_hint H a =
     (case a of
        AccAccount h \<Rightarrow> account_hint H h
      | AccStorageTrie h \<Rightarrow> storage_hint H h
      | AccBytecode h \<Rightarrow>
          (case src_bytecodes H h of
             None \<Rightarrow> Err (MissingBytecodeHint h)
           | Some code \<Rightarrow> Ok [HWitness (WBytecode code)])
      | AccStateTrie \<Rightarrow> Ok [HRaw (src_frontier H)]
      | AccModifiedAccount _ _ \<Rightarrow> Panic UnreachableCode)"

definition chunk_hint :: "hint_source \<Rightarrow> witness_access \<Rightarrow> (host_error, hint list) outcome" where
  "chunk_hint H a =
     (case a of
        AccAccount h \<Rightarrow> account_hint H h
      | AccStorageTrie h \<Rightarrow> storage_hint H h
      | _ \<Rightarrow> Panic UnreachableCode)"

primrec write_hints ::
  "('a \<Rightarrow> (host_error, hint list) outcome) \<Rightarrow> 'a list \<Rightarrow> (host_error, hint list) outcome" where
  "write_hints f [] = Ok []"
| "write_hints f (a # as) =
     (case f a of
        Ok hs \<Rightarrow>
          (case write_hints f as of
             Ok rest \<Rightarrow> Ok (hs @ rest)
           | Err e \<Rightarrow> Err e
           | Panic p \<Rightarrow> Panic p)
      | Err e \<Rightarrow> Err e
      | Panic p \<Rightarrow> Panic p)"

definition write_chunk ::
  "hint_source \<Rightarrow> witness_access list \<Rightarrow> frontier_chunk \<Rightarrow> (host_error, hint list) outcome" where
  "write_chunk H post_accesses chunk =
     (let chunk_accesses =
            filter (\<lambda>a. starts_with (b256_nibbles (access_hash a)) (chunk_prefix chunk)) post_accesses in
      case write_hints (chunk_hint H) chunk_accesses of
        Ok hs \<Rightarrow>
          Ok (HWitness (WStateChunk \<lparr>sch_prefix = chunk_prefix chunk,
                                     sch_expected_root = chunk_expected_root chunk,
                                     sch_num_nodes = chunk_num_nodes chunk,
                                     sch_witness_count = length chunk_accesses\<rparr>) #
              HRaw (chunk_bytes chunk) # hs)
      | Err e \<Rightarrow> Err e
      | Panic p \<Rightarrow> Panic p)"

definition FRONTIER_LIMITS :: frontier_limits where
  "FRONTIER_LIMITS = \<lparr>max_nodes = 2048, max_bytes = 256 * 1024, max_keys = 256\<rparr>"

text \<open>The hints after the tables are built.\<close>

definition write_all_hints ::
  "client_input \<Rightarrow> hint_source \<Rightarrow> mpt_frontier \<Rightarrow> witness_access list \<Rightarrow> witness_access list \<Rightarrow>
   (host_error, hint list) outcome" where
  "write_all_hints inp H frontier pre_accesses post_accesses =
     (case write_hints (execution_hint H) pre_accesses of
        Ok pre \<Rightarrow>
          (case write_hints (write_chunk H post_accesses) (frontier_chunks frontier) of
             Ok post \<Rightarrow>
               Ok (HAncestorHeaders (ci_ancestor_headers inp) # HCurrentBlock (ci_current_block inp) #
                   HStateTrieHeader \<lparr>sth_version = 2, sth_num_nodes = frontier_num_nodes frontier,
                                     sth_chunk_count = length (frontier_chunks frontier)\<rparr> # pre @ post)
           | Err e \<Rightarrow> Err e
           | Panic p \<Rightarrow> Panic p)
      | Err e \<Rightarrow> Err e
      | Panic p \<Rightarrow> Panic p)"

text \<open>The frontier, which must have the root of the state trie it was cut from.\<close>

definition checked_frontier ::
  "ext \<Rightarrow> witness_access list \<Rightarrow> mpt \<Rightarrow> (host_error, mpt_frontier \<times> mpt) outcome" where
  "checked_frontier E order trie =
     (case build_frontier_weighted E (modified_accounts order) FRONTIER_LIMITS trie of
        (Ok frontier, trie) \<Rightarrow>
          (case hash E trie of
             (Ok root, trie) \<Rightarrow>
               (case decode_trie E (frontier_bytes frontier) (frontier_num_nodes frontier) of
                  Ok (ft, _) \<Rightarrow>
                    (case fst (hash E ft) of
                       Ok frontier_root \<Rightarrow>
                         (if frontier_root = root then Ok (frontier, trie) else Err FrontierChangedRoot)
                     | Err e \<Rightarrow> Err (HostMptError e)
                     | Panic p \<Rightarrow> Panic p)
                | Err e \<Rightarrow> Err (HostMptError e)
                | Panic p \<Rightarrow> Panic p)
           | (Err e, _) \<Rightarrow> Err (HostMptError e)
           | (Panic p, _) \<Rightarrow> Panic p)
      | (Err e, _) \<Rightarrow> Err (HostMptError e)
      | (Panic p, _) \<Rightarrow> Panic p)"

definition write_ceno_client_input ::
  "nat \<Rightarrow> ext \<Rightarrow> eth_codec \<Rightarrow> client_ext \<Rightarrow> exec_lib \<Rightarrow> client_input \<Rightarrow> (host_error, hint list) outcome" where
  "write_ceno_client_input w E C X L inp =
     (case build_input_state E C inp of
        Ok st \<Rightarrow>
          (case execute_recording_witness_order w E C X L Mainnet inp of
             Ok (_, order) \<Rightarrow>
               (case checked_frontier E order (state_trie st) of
                  Ok (frontier, trie) \<Rightarrow>
                    (case split_order order of
                       None \<Rightarrow> Err NoStateTrieMarker
                     | Some (pre_accesses, rest) \<Rightarrow>
                         (case account_by_hash C trie order (\<lambda>_. None) of
                            Ok accounts \<Rightarrow>
                              write_all_hints inp
                                \<lparr>src_accounts = accounts,
                                 src_storage = storage_trie_by_hash (storage_tries_bytes (ci_parent_state_bytes inp)),
                                 src_bytecodes = bytecode_by_hash X (ci_bytecodes inp),
                                 src_frontier = frontier_bytes frontier\<rparr>
                                frontier pre_accesses (filter is_post_access rest)
                          | Err e \<Rightarrow> Err e
                          | Panic p \<Rightarrow> Panic p))
                | Err e \<Rightarrow> Err e
                | Panic p \<Rightarrow> Panic p)
           | Err e \<Rightarrow> Err (HostClientError e)
           | Panic p \<Rightarrow> Panic p)
      | Err e \<Rightarrow> Err (HostClientError e)
      | Panic p \<Rightarrow> Panic p)"

end
