(* ===== verification/Witness_Replay.thy ===== *)
theory Witness_Replay
  imports Host_Hints
begin

text \<open>
  The streamed client answers the EVM exactly as the eager one. The host runs the block on the
  eager database and records the witness order; the client runs it on the hints written in that
  order. The proof follows the EVM program query by query: \<open>follows\<close> relates the recording
  after the queries so far with the client's caches, and \<open>replays\<close> says that the hints for the new
  part of the order make the client give the same answer, use up exactly these hints, and end in
  a related state.
\<close>

section \<open>What the host must provide\<close>

text \<open>The tables from which the hints are written agree with the eager state.\<close>

definition serves ::
  "ext \<Rightarrow> eth_codec \<Rightarrow> client_ext \<Rightarrow> ethereum_state \<Rightarrow> (bytes \<Rightarrow> bytes option) \<Rightarrow> hint_source \<Rightarrow>
   witness_access list \<Rightarrow> bool" where
  "serves E C X st codes H accs \<longleftrightarrow>
     (\<forall>h code. codes h = Some code \<longrightarrow> src_bytecodes H h = Some code \<and> bytecode_hash X code = h) \<and>
     (\<forall>h t. storage_tries st h = Some t \<longrightarrow>
        (\<exists>n bs t0 rest root acc. src_storage H h = Some (n, bs) \<and> decode_trie E bs n = Ok (t0, rest) \<and>
           hash E t0 = (Ok root, t) \<and> get_rlp (account_decode C) (state_trie st) h = Ok acc \<and>
           root = storage_root_of E acc)) \<and>
     (\<forall>h acc. AccAccount h \<in> set accs \<longrightarrow> get_rlp (account_decode C) (state_trie st) h = Ok acc \<longrightarrow>
        src_accounts H h = Some acc)"

definition follows :: "eth_codec \<Rightarrow> ethereum_state \<Rightarrow> recording \<Rightarrow> streaming_state \<Rightarrow> bool" where
  "follows C st r s \<longleftrightarrow>
     (\<forall>h. h \<in> set (account_lookup_order r) \<longrightarrow>
        (\<exists>acc. get_rlp (account_decode C) (state_trie st) h = Ok acc \<and>
               map_of (sts_account_cache s) h = Some acc)) \<and>
     (\<forall>h. h \<notin> set (account_lookup_order r) \<longrightarrow> map_of (sts_account_cache s) h = None) \<and>
     (\<forall>h. sts_storage_tries s h = (if h \<in> set (storage_lookup_order r) then storage_tries st h else None)) \<and>
     (\<forall>h. h \<in> set (storage_lookup_order r) \<longrightarrow> storage_tries st h \<noteq> None)"

definition eager_db ::
  "ethereum_state \<Rightarrow> (bytes \<Rightarrow> bytes option) \<Rightarrow> (u64 \<Rightarrow> bytes option) \<Rightarrow> recording \<Rightarrow> witness_db \<Rightarrow> bool" where
  "eager_db st codes hashes r db \<longleftrightarrow>
     db_state db = EagerState st \<and> db_bytecodes db = EagerBytecodes codes \<and>
     db_block_hashes db = hashes \<and> db_recording db = Some r \<and> witness_order r \<noteq> None"

definition streaming_db :: "(u64 \<Rightarrow> bytes option) \<Rightarrow> streaming_state \<Rightarrow> witness_db \<Rightarrow> bool" where
  "streaming_db hashes s db \<longleftrightarrow>
     db_state db = StreamingState s \<and> db_bytecodes db = StreamingBytecodes \<and> db_block_hashes db = hashes"

lemma streaming_db_update [simp]:
  "streaming_db hashes s db \<Longrightarrow> streaming_db hashes s' (db\<lparr>db_state := StreamingState s'\<rparr>)"
  by (simp add: streaming_db_def)

definition replays ::
  "ext \<Rightarrow> eth_codec \<Rightarrow> client_ext \<Rightarrow> ethereum_state \<Rightarrow> (bytes \<Rightarrow> bytes option) \<Rightarrow> (u64 \<Rightarrow> bytes option) \<Rightarrow>
   recording \<Rightarrow> witness_access list \<Rightarrow> recording \<Rightarrow> (witness_db \<Rightarrow> ('e, 'a) outcome \<times> witness_db) \<Rightarrow> 'a \<Rightarrow> bool" where
  "replays E C X st codes hashes r accs r' f a \<longleftrightarrow>
     (\<forall>H. serves E C X st codes H accs \<longrightarrow>
        (\<exists>hs. write_hints (execution_hint H) accs = Ok hs \<and>
           (\<forall>ds s rest. streaming_db hashes s ds \<longrightarrow> follows C st r s \<longrightarrow> sts_input s = hs @ rest \<longrightarrow>
              (\<exists>s'. f ds = (Ok a, ds\<lparr>db_state := StreamingState s'\<rparr>) \<and> follows C st r' s' \<and>
                    sts_input s' = rest))))"

section \<open>Composition\<close>

lemma write_hints_append:
  "write_hints f as = Ok hs \<Longrightarrow> write_hints f bs = Ok hs' \<Longrightarrow> write_hints f (as @ bs) = Ok (hs @ hs')"
  by (induction as arbitrary: hs) (auto split: outcome.splits)

lemma serves_append:
  "serves E C X st codes H (as @ bs) \<longleftrightarrow> serves E C X st codes H as \<and> serves E C X st codes H bs"
  unfolding serves_def by auto

lemma replays_ask:
  assumes f: "replays E C X st codes hashes r as r' f a"
    and k: "replays E C X st codes hashes r' bs r'' (k a) b"
  shows "replays E C X st codes hashes r (as @ bs) r'' (\<lambda>ds. ask (f ds) k) b"
  unfolding replays_def
proof (intro allI impI)
  fix H assume "serves E C X st codes H (as @ bs)"
  then have H: "serves E C X st codes H as" "serves E C X st codes H bs" by (simp_all add: serves_append)
  from f H(1) obtain hs where hs: "write_hints (execution_hint H) as = Ok hs"
    and F: "\<And>ds s rest. \<lbrakk>streaming_db hashes s ds; follows C st r s; sts_input s = hs @ rest\<rbrakk> \<Longrightarrow>
       \<exists>s'. f ds = (Ok a, ds\<lparr>db_state := StreamingState s'\<rparr>) \<and> follows C st r' s' \<and> sts_input s' = rest"
    unfolding replays_def by blast
  from k H(2) obtain hs' where hs': "write_hints (execution_hint H) bs = Ok hs'"
    and K: "\<And>ds s rest. \<lbrakk>streaming_db hashes s ds; follows C st r' s; sts_input s = hs' @ rest\<rbrakk> \<Longrightarrow>
       \<exists>s'. k a ds = (Ok b, ds\<lparr>db_state := StreamingState s'\<rparr>) \<and> follows C st r'' s' \<and> sts_input s' = rest"
    unfolding replays_def by blast
  have "\<exists>s'. ask (f ds) k = (Ok b, ds\<lparr>db_state := StreamingState s'\<rparr>) \<and> follows C st r'' s' \<and> sts_input s' = rest"
    if ds: "streaming_db hashes s ds" "follows C st r s" "sts_input s = (hs @ hs') @ rest" for ds s rest
  proof -
    obtain s' where s': "f ds = (Ok a, ds\<lparr>db_state := StreamingState s'\<rparr>)" "follows C st r' s'"
      "sts_input s' = hs' @ rest" using F [of s ds "hs' @ rest"] ds by auto
    from K [OF streaming_db_update [OF ds(1)] s'(2,3)] s'(1)
    show ?thesis by (auto simp: ask_def db_outcome_def)
  qed
  with write_hints_append [OF hs hs']
  show "\<exists>hs. write_hints (execution_hint H) (as @ bs) = Ok hs \<and>
      (\<forall>ds s rest. streaming_db hashes s ds \<longrightarrow> follows C st r s \<longrightarrow> sts_input s = hs @ rest \<longrightarrow>
         (\<exists>s'. ask (f ds) k = (Ok b, ds\<lparr>db_state := StreamingState s'\<rparr>) \<and> follows C st r'' s' \<and>
               sts_input s' = rest))" by blast
qed

section \<open>The queries\<close>

text \<open>A query that needs no hint, and one that needs the hints of one access.\<close>

lemma replays_hit:
  assumes "\<And>ds s. streaming_db hashes s ds \<Longrightarrow> follows C st r s \<Longrightarrow> f ds = (Ok a, ds)"
  shows "replays E C X st codes hashes r [] r f a"
proof -
  have "ds\<lparr>db_state := StreamingState s\<rparr> = ds" if "streaming_db hashes s ds" for ds s
    using that by (simp add: streaming_db_def)
  with assms have "\<exists>s'. f ds = (Ok a, ds\<lparr>db_state := StreamingState s'\<rparr>) \<and> follows C st r s' \<and> sts_input s' = rest"
    if "streaming_db hashes s ds" "follows C st r s" "sts_input s = rest" for ds s rest
    using that by (intro exI [of _ s]) simp
  then show ?thesis by (simp add: replays_def)
qed

lemma replays_miss:
  assumes "\<And>H. serves E C X st codes H [acc] \<Longrightarrow>
     \<exists>hs. execution_hint H acc = Ok hs \<and>
       (\<forall>ds s rest. streaming_db hashes s ds \<longrightarrow> follows C st r s \<longrightarrow> sts_input s = hs @ rest \<longrightarrow>
          (\<exists>s'. f ds = (Ok a, ds\<lparr>db_state := StreamingState s'\<rparr>) \<and> follows C st r' s' \<and> sts_input s' = rest))"
  shows "replays E C X st codes hashes r [acc] r' f a"
  using assms unfolding replays_def by fastforce

lemma read_account_hint:
  assumes "follows C st r s" and "h \<notin> set (account_lookup_order r)"
    and "sts_input s = HWitness (WAccount \<lparr>ai_hashed_address = h, ai_account = acc\<rparr>) # rest"
  shows "read_account h s =
     (Ok acc, s\<lparr>sts_input := rest, sts_account_cache := (h, acc) # sts_account_cache s\<rparr>)"
  using assms by (simp add: follows_def read_account_def)

lemma follows_account:
  assumes "follows C st r s" and "h \<notin> set (account_lookup_order r)"
    and "get_rlp (account_decode C) (state_trie st) h = Ok acc"
  shows "follows C st (note_account h r)
     (s\<lparr>sts_input := rest, sts_account_cache := (h, acc) # sts_account_cache s\<rparr>)"
  using assms by (simp add: follows_def note_account_def push_access_def)

lemma basic_ref_replays:
  assumes db: "eager_db st codes hashes r de" and q: "basic_ref E C address de = (Ok a, de')"
  shows "\<exists>r' accs. eager_db st codes hashes r' de' \<and>
           witness_order r' = map_option (\<lambda>w. w @ accs) (witness_order r) \<and>
           set (account_lookup_order r') = insert (keccak256 E address) (set (account_lookup_order r)) \<and>
           replays E C X st codes hashes r accs r' (basic_ref E C address) a"
proof -
  let ?h = "keccak256 E address"
  from db q obtain acc where acc: "get_rlp (account_decode C) (state_trie st) ?h = Ok acc"
    and a: "a = map_option account_info_of acc" and de': "de' = recorded (note_account ?h) de"
    by (auto simp: basic_ref_def eager_db_def Let_def split: outcome.splits)
  show ?thesis
  proof (cases "?h \<in> set (account_lookup_order r)")
    case True
    then have "eager_db st codes hashes r de'"
      using db by (simp add: de' eager_db_def recorded_def note_account_def)
    moreover have "replays E C X st codes hashes r [] r (basic_ref E C address) a"
      using True acc
      by (intro replays_hit)
        (auto simp: basic_ref_def streaming_db_def follows_def read_account_def on_stream_def a)
    ultimately show ?thesis
      using True by (intro exI [of _ r] exI [of _ "[]"]) (auto simp: option.map_ident)
  next
    case False
    let ?r = "note_account ?h r"
    have "replays E C X st codes hashes r [AccAccount ?h] ?r (basic_ref E C address) a"
    proof (rule replays_miss)
      fix H assume "serves E C X st codes H [AccAccount ?h]"
      with acc have "execution_hint H (AccAccount ?h) =
          Ok [HWitness (WAccount \<lparr>ai_hashed_address = ?h, ai_account = acc\<rparr>)]"
        by (simp add: serves_def execution_hint_def account_hint_def)
      moreover have "\<exists>s'. basic_ref E C address ds = (Ok a, ds\<lparr>db_state := StreamingState s'\<rparr>) \<and>
          follows C st ?r s' \<and> sts_input s' = rest"
        if "streaming_db hashes s ds" "follows C st r s"
          "sts_input s = HWitness (WAccount \<lparr>ai_hashed_address = ?h, ai_account = acc\<rparr>) # rest" for ds s rest
        using that(1) read_account_hint [OF that(2) False that(3)] follows_account [OF that(2) False acc, of rest]
        by (intro exI [of _ "s\<lparr>sts_input := rest, sts_account_cache := (?h, acc) # sts_account_cache s\<rparr>"])
          (simp add: basic_ref_def streaming_db_def on_stream_def a)
      ultimately show "\<exists>hs. execution_hint H (AccAccount ?h) = Ok hs \<and>
       (\<forall>ds s rest. streaming_db hashes s ds \<longrightarrow> follows C st r s \<longrightarrow> sts_input s = hs @ rest \<longrightarrow>
          (\<exists>s'. basic_ref E C address ds = (Ok a, ds\<lparr>db_state := StreamingState s'\<rparr>) \<and>
                follows C st ?r s' \<and> sts_input s' = rest))" by simp
    qed
    moreover have "eager_db st codes hashes ?r de'"
      using db by (simp add: de' eager_db_def recorded_def note_account_def push_access_def)
    ultimately show ?thesis
      using False by (intro exI [of _ ?r] exI [of _ "[AccAccount ?h]"])
        (auto simp: note_account_def push_access_def)
  qed
qed

lemma code_by_hash_ref_replays:
  assumes db: "eager_db st codes hashes r de" and q: "code_by_hash_ref X h de = (Ok a, de')"
  shows "\<exists>r' accs. eager_db st codes hashes r' de' \<and>
           witness_order r' = map_option (\<lambda>w. w @ accs) (witness_order r) \<and>
           set (account_lookup_order r') = set (account_lookup_order r) \<and>
           replays E C X st codes hashes r accs r' (code_by_hash_ref X h) a"
proof -
  let ?r = "note_bytecode h r"
  from db q have a: "codes h = Some a" and de': "de' = recorded (note_bytecode h) de"
    by (auto simp: code_by_hash_ref_def eager_db_def split: option.splits)
  have "replays E C X st codes hashes r [AccBytecode h] ?r (code_by_hash_ref X h) a"
  proof (rule replays_miss)
    fix H assume "serves E C X st codes H [AccBytecode h]"
    with a have "src_bytecodes H h = Some a" "bytecode_hash X a = h" by (simp_all add: serves_def)
    then show "\<exists>hs. execution_hint H (AccBytecode h) = Ok hs \<and>
       (\<forall>ds s rest. streaming_db hashes s ds \<longrightarrow> follows C st r s \<longrightarrow> sts_input s = hs @ rest \<longrightarrow>
          (\<exists>s'. code_by_hash_ref X h ds = (Ok a, ds\<lparr>db_state := StreamingState s'\<rparr>) \<and>
                follows C st ?r s' \<and> sts_input s' = rest))"
      by (auto simp: execution_hint_def code_by_hash_ref_def streaming_db_def follows_def
          read_bytecode_def read_witness_input_def on_stream_def note_bytecode_def push_access_def)
  qed
  moreover have "eager_db st codes hashes ?r de'"
    using db by (simp add: de' eager_db_def recorded_def note_bytecode_def push_access_def)
  ultimately show ?thesis
    by (intro exI [of _ ?r] exI [of _ "[AccBytecode h]"])
      (auto simp: note_bytecode_def push_access_def)
qed

text \<open>
  A storage trie is loaded only for an account that is in the cache: the recording then has the
  trie alone, which is what the client reads.
\<close>

lemma serves_storage:
  assumes "serves E C X st codes H accs" and "storage_tries st h = Some t"
  obtains n bs t0 rest acc where "src_storage H h = Some (n, bs)" "decode_trie E bs n = Ok (t0, rest)"
    "hash E t0 = (Ok (storage_root_of E acc), t)" "get_rlp (account_decode C) (state_trie st) h = Ok acc"
  using assms(1) [unfolded serves_def, THEN conjunct2, THEN conjunct1, rule_format, OF assms(2)] by blast

lemma load_storage_trie_hint:
  assumes "serves E C X st codes H accs" and "storage_tries st h = Some t" and "follows C st r s"
    and "h \<in> set (account_lookup_order r)" and "h \<notin> set (storage_lookup_order r)"
  shows "\<exists>hs. execution_hint H (AccStorageTrie h) = Ok hs \<and>
     (sts_input s = hs @ rest \<longrightarrow>
        load_storage_trie E h s =
          (Ok (), s\<lparr>sts_input := rest, sts_storage_tries := (sts_storage_tries s)(h \<mapsto> t)\<rparr>))"
proof -
  obtain n bs t0 rest' acc where "src_storage H h = Some (n, bs)" "decode_trie E bs n = Ok (t0, rest')"
    "hash E t0 = (Ok (storage_root_of E acc), t)" "get_rlp (account_decode C) (state_trie st) h = Ok acc"
    using serves_storage [OF assms(1,2)] .
  moreover from this(4) have "map_of (sts_account_cache s) h = Some acc" "sts_storage_tries s h = None"
    using assms(3-5) by (auto simp: follows_def)
  ultimately show ?thesis
    by (simp add: execution_hint_def storage_hint_def load_storage_trie_def read_witness_input_def
        expected_storage_root_def read_account_def read_raw_bytes_def)
qed

lemma follows_storage:
  assumes "follows C st r s" and "h \<notin> set (storage_lookup_order r)" and "storage_tries st h = Some t"
  shows "follows C st (note_storage h r)
     (s\<lparr>sts_input := rest, sts_storage_tries := (sts_storage_tries s)(h \<mapsto> t)\<rparr>)"
  using assms by (simp add: follows_def note_storage_def push_access_def)

lemma follows_loaded:
  assumes "follows C st r s" and "h \<in> set (storage_lookup_order r)"
  shows "sts_storage_tries s h = storage_tries st h" and "load_storage_trie E h s = (Ok (), s)"
  using assms by (auto simp: follows_def load_storage_trie_def)

lemma storage_ref_replays:
  assumes db: "eager_db st codes hashes r de" and q: "storage_ref E C address index de = (Ok a, de')"
    and acc: "keccak256 E address \<in> set (account_lookup_order r)"
  shows "\<exists>r' accs. eager_db st codes hashes r' de' \<and>
           witness_order r' = map_option (\<lambda>w. w @ accs) (witness_order r) \<and>
           set (account_lookup_order r') = set (account_lookup_order r) \<and>
           replays E C X st codes hashes r accs r' (storage_ref E C address index) a"
proof -
  let ?h = "keccak256 E address" and ?i = "keccak256 E (to_be_bytes_32 index)"
  let ?r = "note_storage ?h r"
  from db q have v: "slot_value C (storage_tries st ?h) ?i = (Ok a :: (witness_message, u256) outcome)"
    and de': "de' = recorded (note_storage ?h \<circ> note_account ?h) de"
    by (simp_all add: storage_ref_def eager_db_def Let_def)
  from v obtain t where t: "storage_tries st ?h = Some t" by (auto simp: slot_value_def split: option.splits)
  have n: "note_account ?h r = r" using acc by (simp add: note_account_def)
  have e: "eager_db st codes hashes ?r de'"
    using db by (simp add: de' eager_db_def recorded_def n) (simp add: note_storage_def push_access_def)
  show ?thesis
  proof (cases "?h \<in> set (storage_lookup_order r)")
    case True
    have "replays E C X st codes hashes r [] r (storage_ref E C address index) a"
    proof (rule replays_hit)
      fix ds s assume "streaming_db hashes s ds" "follows C st r s"
      with follows_loaded [OF this(2) True] v show "storage_ref E C address index ds = (Ok a, ds)"
        by (simp add: storage_ref_def streaming_db_def on_stream_def Let_def)
    qed
    then show ?thesis
      using True e by (intro exI [of _ r] exI [of _ "[]"]) (auto simp: note_storage_def option.map_ident)
  next
    case False
    have "replays E C X st codes hashes r [AccStorageTrie ?h] ?r (storage_ref E C address index) a"
    proof (rule replays_miss)
      fix H assume H: "serves E C X st codes H [AccStorageTrie ?h]"
      obtain n bs where "src_storage H ?h = Some (n, bs)" by (rule serves_storage [OF H t])
      then obtain hs where hs: "execution_hint H (AccStorageTrie ?h) = Ok hs"
        by (auto simp: execution_hint_def storage_hint_def)
      moreover have "\<exists>s'. storage_ref E C address index ds = (Ok a, ds\<lparr>db_state := StreamingState s'\<rparr>) \<and>
          follows C st ?r s' \<and> sts_input s' = rest"
        if "streaming_db hashes s ds" "follows C st r s" "sts_input s = hs @ rest" for ds s rest
      proof -
        have "load_storage_trie E ?h s =
            (Ok (), s\<lparr>sts_input := rest, sts_storage_tries := (sts_storage_tries s)(?h \<mapsto> t)\<rparr>)"
          using load_storage_trie_hint [OF H t that(2) acc False, of rest] hs that(3) by auto
        with that(1) v t follows_storage [OF that(2) False t, of rest] show ?thesis
          by (intro exI [of _ "s\<lparr>sts_input := rest, sts_storage_tries := (sts_storage_tries s)(?h \<mapsto> t)\<rparr>"])
            (simp add: storage_ref_def streaming_db_def on_stream_def Let_def)
      qed
      ultimately show "\<exists>hs. execution_hint H (AccStorageTrie ?h) = Ok hs \<and>
       (\<forall>ds s rest. streaming_db hashes s ds \<longrightarrow> follows C st r s \<longrightarrow> sts_input s = hs @ rest \<longrightarrow>
          (\<exists>s'. storage_ref E C address index ds = (Ok a, ds\<lparr>db_state := StreamingState s'\<rparr>) \<and>
                follows C st ?r s' \<and> sts_input s' = rest))" by blast
    qed
    with e show ?thesis
      using False by (intro exI [of _ ?r] exI [of _ "[AccStorageTrie ?h]"])
        (auto simp: note_storage_def push_access_def)
  qed
qed

lemma block_hash_ref_replays:
  assumes "eager_db st codes hashes r de" and "block_hash_ref n de = (Ok a, de')"
  shows "de' = de \<and> replays E C X st codes hashes r [] r (block_hash_ref n) a"
proof -
  from assms have "hashes n = Some a" "de' = de"
    by (auto simp: block_hash_ref_def eager_db_def split: option.splits)
  then show ?thesis by (auto intro!: replays_hit simp: block_hash_ref_def streaming_db_def)
qed

section \<open>The whole execution\<close>

text \<open>
  What the client relies on about the EVM: the account is read before its storage. \<open>seen\<close> holds
  the hashed addresses of the accounts read so far.
\<close>

primrec accounts_first :: "ext \<Rightarrow> evm \<Rightarrow> bytes set \<Rightarrow> bool" where
  "accounts_first E (EvmDone out) seen \<longleftrightarrow> True"
| "accounts_first E (EvmFail e) seen \<longleftrightarrow> True"
| "accounts_first E (QBasic address k) seen \<longleftrightarrow>
     (\<forall>acc. accounts_first E (k acc) (insert (keccak256 E address) seen))"
| "accounts_first E (QCode h k) seen \<longleftrightarrow> (\<forall>code. accounts_first E (k code) seen)"
| "accounts_first E (QStorage address index k) seen \<longleftrightarrow>
     keccak256 E address \<in> seen \<and> (\<forall>v. accounts_first E (k v) seen)"
| "accounts_first E (QBlockHash n k) seen \<longleftrightarrow> (\<forall>h. accounts_first E (k h) seen)"

lemma ask_Ok_iff:
  "ask q k = (Ok b, db') \<longleftrightarrow> (\<exists>a db. q = (Ok a, db) \<and> k a db = (Ok b, db'))"
  by (cases q; cases "fst q") (auto simp: ask_def db_outcome_def)

lemma replays_step:
  assumes "witness_order r1 = map_option (\<lambda>w. w @ as) (witness_order r)"
    and "replays E C X st codes hashes r as r1 f a"
    and "\<exists>r' bs. eager_db st codes hashes r' de' \<and>
           witness_order r' = map_option (\<lambda>w. w @ bs) (witness_order r1) \<and>
           replays E C X st codes hashes r1 bs r' (k a) out"
  shows "\<exists>r' accs. eager_db st codes hashes r' de' \<and>
           witness_order r' = map_option (\<lambda>w. w @ accs) (witness_order r) \<and>
           replays E C X st codes hashes r accs r' (\<lambda>ds. ask (f ds) k) out"
proof -
  from assms(3) obtain r' bs where *: "eager_db st codes hashes r' de'"
    "witness_order r' = map_option (\<lambda>w. w @ bs) (witness_order r1)"
    "replays E C X st codes hashes r1 bs r' (k a) out" by blast
  have "replays E C X st codes hashes r (as @ bs) r' (\<lambda>ds. ask (f ds) k) out"
    by (rule replays_ask) (use assms(2) *(3) in auto)
  with * assms(1) show ?thesis
    by (intro exI [of _ r'] exI [of _ "as @ bs"]) (cases "witness_order r", auto)
qed

lemma run_evm_replays:
  assumes "eager_db st codes hashes r de" and "run_evm E C X e de = (Ok out, de')"
    and "accounts_first E e (set (account_lookup_order r))"
  shows "\<exists>r' accs. eager_db st codes hashes r' de' \<and>
           witness_order r' = map_option (\<lambda>w. w @ accs) (witness_order r) \<and>
           replays E C X st codes hashes r accs r' (run_evm E C X e) out"
  using assms
proof (induction e arbitrary: r de)
  case (EvmDone out')
  then show ?case
    by (intro exI [of _ r] exI [of _ "[]"]) (auto simp: option.map_ident intro!: replays_hit)
next
  case (EvmFail x)
  then show ?case by simp
next
  case (QBasic address k)
  then obtain a de1 where q: "basic_ref E C address de = (Ok a, de1)"
    and k: "run_evm E C X (k a) de1 = (Ok out, de')" by (auto simp: ask_Ok_iff)
  from basic_ref_replays [OF QBasic.prems(1) q]
  obtain r1 accs where *: "eager_db st codes hashes r1 de1"
    "witness_order r1 = map_option (\<lambda>w. w @ accs) (witness_order r)"
    "set (account_lookup_order r1) = insert (keccak256 E address) (set (account_lookup_order r))"
    "replays E C X st codes hashes r accs r1 (basic_ref E C address) a" by blast
  with QBasic.IH [OF rangeI *(1) k] QBasic.prems(3) replays_step [OF *(2,4)]
  show ?case by simp
next
  case (QCode h k)
  then obtain a de1 where q: "code_by_hash_ref X h de = (Ok a, de1)"
    and k: "run_evm E C X (k a) de1 = (Ok out, de')" by (auto simp: ask_Ok_iff)
  from code_by_hash_ref_replays [OF QCode.prems(1) q]
  obtain r1 accs where *: "eager_db st codes hashes r1 de1"
    "witness_order r1 = map_option (\<lambda>w. w @ accs) (witness_order r)"
    "set (account_lookup_order r1) = set (account_lookup_order r)"
    "replays E C X st codes hashes r accs r1 (code_by_hash_ref X h) a" by blast
  with QCode.IH [OF rangeI *(1) k] QCode.prems(3) replays_step [OF *(2,4)]
  show ?case by simp
next
  case (QStorage address index k)
  then obtain a de1 where q: "storage_ref E C address index de = (Ok a, de1)"
    and k: "run_evm E C X (k a) de1 = (Ok out, de')" by (auto simp: ask_Ok_iff)
  from QStorage.prems(3) have "keccak256 E address \<in> set (account_lookup_order r)" by simp
  from storage_ref_replays [OF QStorage.prems(1) q this]
  obtain r1 accs where *: "eager_db st codes hashes r1 de1"
    "witness_order r1 = map_option (\<lambda>w. w @ accs) (witness_order r)"
    "set (account_lookup_order r1) = set (account_lookup_order r)"
    "replays E C X st codes hashes r accs r1 (storage_ref E C address index) a" by blast
  with QStorage.IH [OF rangeI *(1) k] QStorage.prems(3) replays_step [OF *(2,4)]
  show ?case by simp
next
  case (QBlockHash n k)
  then obtain a de1 where q: "block_hash_ref n de = (Ok a, de1)"
    and k: "run_evm E C X (k a) de1 = (Ok out, de')" by (auto simp: ask_Ok_iff)
  from block_hash_ref_replays [OF QBlockHash.prems(1) q]
  have *: "de1 = de" "replays E C X st codes hashes r [] r (block_hash_ref n) a" by auto
  have "witness_order r = map_option (\<lambda>w. w @ []) (witness_order r)" by (simp add: option.map_ident)
  from replays_step [OF this *(2)] QBlockHash.IH [OF rangeI _ k, of r] QBlockHash.prems(1,3) *(1)
  show ?case by simp
qed

section \<open>The host's tables\<close>

lemma bytecode_by_hash_sound:
  "bytecode_by_hash X codes h = Some code \<Longrightarrow> bytecode_hash X code = h"
proof -
  have "foldl (\<lambda>m code. m(bytecode_hash X code \<mapsto> code)) m codes h = Some code \<Longrightarrow>
        (\<And>h code. m h = Some code \<Longrightarrow> bytecode_hash X code = h) \<Longrightarrow> bytecode_hash X code = h" for m
  proof (induction codes arbitrary: m)
    case (Cons c cs)
    show ?case by (rule Cons.IH [of "m(bytecode_hash X c \<mapsto> c)"]) (use Cons.prems in \<open>auto split: if_splits\<close>)
  qed auto
  from this [of "\<lambda>_. None"] show "bytecode_by_hash X codes h = Some code \<Longrightarrow> bytecode_hash X code = h"
    by (simp add: bytecode_by_hash_def)
qed

lemma account_by_hash_keeps:
  "account_by_hash C trie order m = Ok m' \<Longrightarrow> get_rlp (account_decode C) trie h = Ok acc \<Longrightarrow>
   m h = Some acc \<or> AccAccount h \<in> set order \<Longrightarrow> m' h = Some acc"
proof (induction order arbitrary: m)
  case (Cons a as)
  show ?case
  proof (cases a)
    case (AccAccount k)
    with Cons.prems obtain acc' where acc': "get_rlp (account_decode C) trie k = Ok acc'"
      "account_by_hash C trie as (m(k \<mapsto> acc')) = Ok m'" by (auto split: outcome.splits)
    with AccAccount Cons.prems show ?thesis by (intro Cons.IH [OF acc'(2)]) auto
  qed (use Cons in auto)
qed auto

text \<open>The eager storage trie of an address comes from the bytes the host sends for it.\<close>

definition trie_from_bytes ::
  "ext \<Rightarrow> eth_codec \<Rightarrow> mpt \<Rightarrow> (bytes \<Rightarrow> (nat \<times> bytes) option) \<Rightarrow> bytes \<Rightarrow> mpt \<Rightarrow> bool" where
  "trie_from_bytes E C st m h t \<longleftrightarrow>
     (\<exists>n bs t0 rest root acc. m h = Some (n, bs) \<and> decode_trie E bs n = Ok (t0, rest) \<and>
        hash E t0 = (Ok root, t) \<and> get_rlp (account_decode C) st h = Ok acc \<and> root = storage_root_of E acc)"

lemma build_storage_tries_from_bytes:
  assumes "build_storage_tries E C st es tries0 = Ok tries"
    and "\<And>h t. tries0 h = Some t \<Longrightarrow> trie_from_bytes E C st m h t" and "tries h = Some t"
  shows "trie_from_bytes E C st (foldl (\<lambda>m (h, n, bs). m(h \<mapsto> (n, bs))) m es) h t"
  using assms
proof (induction es arbitrary: tries0 m)
  case (Cons e es)
  obtain k n bs where e: "e = (k, n, bs)" by (cases e)
  from Cons.prems(1) obtain acc t0 rest root t1 where
    *: "get_rlp (account_decode C) st k = Ok acc" "decode_trie E bs n = Ok (t0, rest)"
      "hash E t0 = (Ok root, t1)" "root = storage_root_of E acc"
    and rest: "build_storage_tries E C st es (tries0(k \<mapsto> t1)) = Ok tries"
    by (auto simp: e split: outcome.splits if_splits prod.splits)
  have "trie_from_bytes E C st (m(k \<mapsto> (n, bs))) h' t'" if "(tries0(k \<mapsto> t1)) h' = Some t'" for h' t'
    using that * Cons.prems(2) by (auto simp: trie_from_bytes_def split: if_splits)
  from Cons.IH [OF rest this Cons.prems(3)] show ?case by (simp add: e)
qed auto

lemma build_input_state_storage:
  assumes "build_input_state E C inp = Ok st"
  shows "build_storage_tries E C (state_trie st) (storage_tries_bytes (ci_parent_state_bytes inp)) (\<lambda>_. None) =
           Ok (storage_tries st)"
  using assms
  by (auto simp: build_input_state_def split: prod.splits outcome.splits list.splits if_splits)

lemma host_tables_serve:
  assumes st: "build_input_state E C inp = Ok st"
    and accs: "account_by_hash C (state_trie st) order (\<lambda>_. None) = Ok accounts"
  shows "serves E C X st (bytecode_by_hash X (ci_bytecodes inp))
     \<lparr>src_accounts = accounts,
      src_storage = storage_trie_by_hash (storage_tries_bytes (ci_parent_state_bytes inp)),
      src_bytecodes = bytecode_by_hash X (ci_bytecodes inp), src_frontier = fr\<rparr> order"
proof -
  have "trie_from_bytes E C (state_trie st)
      (storage_trie_by_hash (storage_tries_bytes (ci_parent_state_bytes inp))) h t"
    if "storage_tries st h = Some t" for h t
    unfolding storage_trie_by_hash_def
    by (rule build_storage_tries_from_bytes [OF build_input_state_storage [OF st]]) (use that in auto)
  then show ?thesis
    using account_by_hash_keeps [OF accs] bytecode_by_hash_sound [of X "ci_bytecodes inp"]
    unfolding serves_def trie_from_bytes_def by fastforce
qed

text \<open>
  C18. The streamed client answers the EVM exactly as the eager client does. Let the eager execution
  succeed on a built input while recording the witness order, with an EVM that reads an account
  before its storage. Then the host can write the hints for the recorded order, and a fresh
  streaming state that reads these hints gives the EVM the same answers, so that the execution
  ends with the same output, has used up exactly these hints, and has cached only accounts that
  are in the state trie.
\<close>

theorem streaming_replays_recording:
  assumes "build_input_state E C inp = Ok st"
    and "from_parts_recording X st (blk_header (ci_current_block inp)) (ci_ancestor_headers inp)
           (ci_bytecodes inp) no_recording = Ok de"
    and "run_evm E C X e de = (Ok out, de')" and "accounts_first E e {}"
    and "map_option witness_order (db_recording de') = Some (Some order)"
    and "account_by_hash C (state_trie st) order (\<lambda>_. None) = Ok accounts"
  shows "\<exists>hs. write_hints (execution_hint
              \<lparr>src_accounts = accounts,
               src_storage = storage_trie_by_hash (storage_tries_bytes (ci_parent_state_bytes inp)),
               src_bytecodes = bytecode_by_hash X (ci_bytecodes inp), src_frontier = fr\<rparr>) order = Ok hs \<and>
           (\<forall>s rest. sts_account_cache s = [] \<longrightarrow> sts_storage_tries s = (\<lambda>_. None) \<longrightarrow> sts_input s = hs @ rest \<longrightarrow>
              (\<exists>ds s'. from_streaming_parts X s (blk_header (ci_current_block inp)) (ci_ancestor_headers inp) = Ok ds \<and>
                 run_evm E C X e ds = (Ok out, ds\<lparr>db_state := StreamingState s'\<rparr>) \<and> sts_input s' = rest \<and>
                 (\<forall>h acc. map_of (sts_account_cache s') h = Some acc \<longrightarrow>
                    get_rlp (account_decode C) (state_trie st) h = Ok acc)))"
proof -
  let ?codes = "bytecode_by_hash X (ci_bytecodes inp)"
  from assms(2) obtain hashes where hashes:
    "build_block_hashes X (blk_header (ci_current_block inp) # ci_ancestor_headers inp) (\<lambda>_. None) = Ok hashes"
    and de: "eager_db st ?codes hashes no_recording de"
    by (auto simp: from_parts_recording_def from_parts_def eager_db_def no_recording_def split: outcome.splits)
  have "set (account_lookup_order no_recording) = {}" by (simp add: no_recording_def)
  with run_evm_replays [OF de assms(3)] assms(4) obtain r' accs where r': "eager_db st ?codes hashes r' de'"
    "witness_order r' = map_option (\<lambda>w. w @ accs) (witness_order no_recording)"
    and replay: "replays E C X st ?codes hashes no_recording accs r' (run_evm E C X e) out" by auto
  from r' assms(5) have "accs = order" by (auto simp: eager_db_def no_recording_def)
  with replay host_tables_serve [OF assms(1,6)] obtain hs where
    hs: "write_hints (execution_hint
              \<lparr>src_accounts = accounts,
               src_storage = storage_trie_by_hash (storage_tries_bytes (ci_parent_state_bytes inp)),
               src_bytecodes = ?codes, src_frontier = fr\<rparr>) order = Ok hs"
    and run: "\<And>ds s rest. \<lbrakk>streaming_db hashes s ds; follows C st no_recording s; sts_input s = hs @ rest\<rbrakk> \<Longrightarrow>
       \<exists>s'. run_evm E C X e ds = (Ok out, ds\<lparr>db_state := StreamingState s'\<rparr>) \<and> follows C st r' s' \<and> sts_input s' = rest"
    unfolding replays_def by blast
  have "\<exists>ds s'. from_streaming_parts X s (blk_header (ci_current_block inp)) (ci_ancestor_headers inp) = Ok ds \<and>
          run_evm E C X e ds = (Ok out, ds\<lparr>db_state := StreamingState s'\<rparr>) \<and> sts_input s' = rest \<and>
          (\<forall>h acc. map_of (sts_account_cache s') h = Some acc \<longrightarrow>
             get_rlp (account_decode C) (state_trie st) h = Ok acc)"
    if s: "sts_account_cache s = []" "sts_storage_tries s = (\<lambda>_. None)" "sts_input s = hs @ rest" for s rest
  proof -
    let ?ds = "\<lparr>db_state = StreamingState s, db_block_hashes = hashes,
                db_bytecodes = StreamingBytecodes, db_recording = None\<rparr>"
    have ds: "from_streaming_parts X s (blk_header (ci_current_block inp)) (ci_ancestor_headers inp) = Ok ?ds"
      using hashes by (simp add: from_streaming_parts_def)
    have "streaming_db hashes s ?ds" by (simp add: streaming_db_def)
    moreover have "follows C st no_recording s" using s by (simp add: follows_def no_recording_def)
    ultimately obtain s' where "run_evm E C X e ?ds = (Ok out, ?ds\<lparr>db_state := StreamingState s'\<rparr>)"
      "follows C st r' s'" "sts_input s' = rest" using run s(3) by blast
    moreover from this(2) have "get_rlp (account_decode C) (state_trie st) h = Ok acc"
      if "map_of (sts_account_cache s') h = Some acc" for h acc
      using that unfolding follows_def by (metis option.distinct(1) option.inject)
    ultimately show ?thesis using ds by blast
  qed
  with hs show ?thesis by blast
qed

section \<open>A witness\<close>

text \<open>
  The example: the parent state is the empty trie, one account has an empty storage trie, there
  is one bytecode and one ancestor header. The EVM reads the account, a slot of it, the bytecode
  and the parent's hash.
\<close>

definition ex_codec :: eth_codec where
  "ex_codec = \<lparr>account_encode = (\<lambda>_. [1]), account_decode = (\<lambda>_. Inl UnexpectedLength),
               u256_encode = (\<lambda>_. [1]), u256_decode = (\<lambda>_. Inl UnexpectedLength)\<rparr>"

definition ex_hashes :: client_ext where
  "ex_hashes = \<lparr>header_hash = (\<lambda>h. [7]), bytecode_hash = (\<lambda>c. c)\<rparr>"

definition ex_hdr :: "u64 \<Rightarrow> bytes \<Rightarrow> block_header" where
  "ex_hdr n root =
     \<lparr>hdr_number = n, hdr_parent_hash = [7], hdr_state_root = root, hdr_ommers_hash = [],
      hdr_transactions_root = [], hdr_receipts_root = [], hdr_withdrawals_root = None,
      hdr_logs_bloom = [], hdr_requests_hash = None, hdr_other = []\<rparr>"

definition empty_bytes :: bytes where
  "empty_bytes = [0x80, 0, 0, 0]"

definition ex_input :: client_input where
  "ex_input =
     \<lparr>ci_current_block = \<lparr>blk_header = ex_hdr 2 [], blk_transaction_count = 1, blk_body = []\<rparr>,
      ci_ancestor_headers = [ex_hdr 1 (EMPTY_ROOT_HASH std_ext)],
      ci_parent_state_bytes =
        \<lparr>state_trie_bytes = (1, empty_bytes),
         storage_tries_bytes = [(keccak256 std_ext [5], 1, empty_bytes)]\<rparr>,
      ci_bytecodes = [[0x60, 0x00]]\<rparr>"

definition ex_out :: execution_output where
  "ex_out = \<lparr>out_bundle = [], out_receipt_blooms = [], out_other = []\<rparr>"

definition ex_evm :: evm where
  "ex_evm = QBasic [5] (\<lambda>_. QStorage [5] 3 (\<lambda>_. QCode [0x60, 0x00] (\<lambda>_. QBlockHash 1 (\<lambda>_. EvmDone ex_out))))"

lemma ex_decode_empty [simp]: "decode_trie std_ext empty_bytes n = Ok (new, empty_bytes)"
  by (simp add: decode_trie_def empty_bytes_def std_ext_def)

lemma hash_new [simp]: "hash E new = (Ok (EMPTY_ROOT_HASH E), new)"
  by (simp add: hash_def new_def with_capacity_def node_at_def nth_opt_def)

lemma get_rlp_new [simp]: "get_rlp decode new h = Ok None"
  by (simp add: get_rlp_def get_def new_def with_capacity_def node_at_def walk_fuel_def nth_opt_def)

lemma ex_build: "build_input_state std_ext ex_codec ex_input =
    Ok \<lparr>state_trie = new, storage_tries = [keccak256 std_ext [5] \<mapsto> new]\<rparr>"
  by (simp add: build_input_state_def ex_input_def ex_hdr_def storage_root_of_def)

definition ex_db :: witness_db where
  "ex_db =
     \<lparr>db_state = EagerState \<lparr>state_trie = new, storage_tries = [keccak256 std_ext [5] \<mapsto> new]\<rparr>,
      db_block_hashes = [1 \<mapsto> [7]],
      db_bytecodes = EagerBytecodes [[0x60, 0x00] \<mapsto> [0x60, 0x00]],
      db_recording = Some no_recording\<rparr>"

lemma ex_parts: "from_parts_recording ex_hashes \<lparr>state_trie = new, storage_tries = [keccak256 std_ext [5] \<mapsto> new]\<rparr>
   (blk_header (ci_current_block ex_input)) (ci_ancestor_headers ex_input) (ci_bytecodes ex_input) no_recording = Ok ex_db"
  by (simp add: from_parts_recording_def from_parts_def ex_input_def ex_hdr_def ex_hashes_def
      bytecode_by_hash_def ex_db_def)

definition ex_order :: "witness_access list" where
  "ex_order = [AccAccount (keccak256 std_ext [5]), AccStorageTrie (keccak256 std_ext [5]), AccBytecode [0x60, 0x00]]"

lemmas ex_query_simps = basic_ref_def storage_ref_def code_by_hash_ref_def block_hash_ref_def recorded_def
  note_account_def note_storage_def note_bytecode_def push_access_def slot_value_def ask_def db_outcome_def Let_def

lemma ex_run: "\<exists>de. run_evm std_ext ex_codec ex_hashes ex_evm ex_db = (Ok ex_out, de) \<and>
     map_option witness_order (db_recording de) = Some (Some ex_order)"
  by (simp add: ex_evm_def ex_db_def no_recording_def ex_query_simps ex_order_def)

definition ex_stream :: "hint list \<Rightarrow> streaming_state" where
  "ex_stream inp =
     \<lparr>sts_header = \<lparr>sth_version = 2, sth_num_nodes = 1, sth_chunk_count = 0\<rparr>,
      sts_parent_state_root = EMPTY_ROOT_HASH std_ext, sts_state_trie = None, sts_account_cache = [],
      sts_storage_tries = (\<lambda>_. None), sts_input = inp\<rparr>"

definition ex_source :: hint_source where
  "ex_source =
     \<lparr>src_accounts = [keccak256 std_ext [5] \<mapsto> None],
      src_storage = storage_trie_by_hash (storage_tries_bytes (ci_parent_state_bytes ex_input)),
      src_bytecodes = bytecode_by_hash ex_hashes (ci_bytecodes ex_input), src_frontier = []\<rparr>"

theorem streaming_replays_recording_witness:
  "\<exists>hs. write_hints (execution_hint ex_source) ex_order = Ok hs \<and>
     (\<exists>ds s'. from_streaming_parts ex_hashes (ex_stream (hs @ [HRaw [9]]))
          (blk_header (ci_current_block ex_input)) (ci_ancestor_headers ex_input) = Ok ds \<and>
        run_evm std_ext ex_codec ex_hashes ex_evm ds = (Ok ex_out, ds\<lparr>db_state := StreamingState s'\<rparr>) \<and>
        sts_input s' = [HRaw [9]])"
proof -
  obtain de where de: "run_evm std_ext ex_codec ex_hashes ex_evm ex_db = (Ok ex_out, de)"
    "map_option witness_order (db_recording de) = Some (Some ex_order)" using ex_run by blast
  have first: "accounts_first std_ext ex_evm {}" by (simp add: ex_evm_def)
  have accs: "account_by_hash ex_codec (state_trie \<lparr>state_trie = new, storage_tries = [keccak256 std_ext [5] \<mapsto> new]\<rparr>)
      ex_order (\<lambda>_. None) = Ok [keccak256 std_ext [5] \<mapsto> None]"
    by (simp add: ex_order_def)
  obtain hs where hs: "write_hints (execution_hint ex_source) ex_order = Ok hs"
    and run: "\<And>s rest. sts_account_cache s = [] \<Longrightarrow> sts_storage_tries s = (\<lambda>_. None) \<Longrightarrow> sts_input s = hs @ rest \<Longrightarrow>
       \<exists>ds s'. from_streaming_parts ex_hashes s (blk_header (ci_current_block ex_input))
                 (ci_ancestor_headers ex_input) = Ok ds \<and>
         run_evm std_ext ex_codec ex_hashes ex_evm ds = (Ok ex_out, ds\<lparr>db_state := StreamingState s'\<rparr>) \<and>
         sts_input s' = rest"
    using streaming_replays_recording [OF ex_build ex_parts de(1) first de(2) accs, of "[]"]
    unfolding ex_source_def by blast
  with run [of "ex_stream (hs @ [HRaw [9]])" "[HRaw [9]]"] show ?thesis
    by (auto simp: ex_stream_def)
qed

section \<open>Storage before the account\<close>

text \<open>
  C32. The hypothesis on the EVM is needed. When the first access to an account is to its storage, the
  recorder notes the account first and the storage trie second, but the client expects the header
  of the storage trie first: the recorded hints are rejected with an error.
\<close>

theorem storage_first_rejected:
  assumes "db_state de = EagerState st" and "db_recording de = Some no_recording"
    and "write_hints (execution_hint H)
           [AccAccount (keccak256 E address), AccStorageTrie (keccak256 E address)] = Ok hs"
    and "db_state ds = StreamingState s" and "sts_storage_tries s = (\<lambda>_. None)" and "sts_input s = hs @ rest"
  shows "map_option witness_order (db_recording (snd (storage_ref E C address index de))) =
           Some (Some [AccAccount (keccak256 E address), AccStorageTrie (keccak256 E address)]) \<and>
         (\<exists>w. fst (storage_ref E C address index ds) = Err (ExpectedStorageTrie (keccak256 E address) w))"
proof -
  obtain a hs' where "hs = HWitness (WAccount a) # hs'"
    using assms(3) by (auto simp: execution_hint_def account_hint_def split: outcome.splits option.splits)
  then show ?thesis
    using assms(1,2,4,5,6)
    by (simp add: storage_ref_def recorded_def note_account_def note_storage_def push_access_def no_recording_def
        on_stream_def load_storage_trie_def read_witness_input_def Let_def)
qed

theorem storage_first_rejected_witness:
  "\<exists>w. fst (storage_ref std_ext ex_codec [5] 3
     \<lparr>db_state = StreamingState (ex_stream
        [HWitness (WAccount \<lparr>ai_hashed_address = keccak256 std_ext [5], ai_account = None\<rparr>),
         HWitness (WStorageTrie \<lparr>stoh_hashed_address = keccak256 std_ext [5], stoh_num_nodes = 1\<rparr>),
         HRaw empty_bytes]),
      db_block_hashes = (\<lambda>_. None), db_bytecodes = StreamingBytecodes, db_recording = None\<rparr>) =
     Err (ExpectedStorageTrie (keccak256 std_ext [5]) w)"
  by (rule storage_first_rejected [THEN conjunct2,
        of ex_db _ "\<lparr>src_accounts = (\<lambda>_. Some None), src_storage = (\<lambda>_. Some (1, empty_bytes)),
              src_bytecodes = (\<lambda>_. None), src_frontier = []\<rparr>" _ _ _ _ _ "[]"])
    (auto simp: ex_db_def ex_stream_def execution_hint_def account_hint_def storage_hint_def)

end
