(* ===== verification/Honest_Record.thy ===== *)
theory Honest_Record
  imports Honest_Tree Stream_Exec Witness_Replay
begin

text \<open>
  What the host records. Execution notes accounts, storage tries and bytecodes; then comes the state marker, and
  for every account of the bundle a marker with the witnesses that the update needs and execution did not.
\<close>

section \<open>What execution keeps of the streaming state\<close>

definition kept :: "streaming_state \<Rightarrow> streaming_state \<Rightarrow> bool" where
  "kept s s' \<longleftrightarrow> sts_header s' = sts_header s \<and> sts_parent_state_root s' = sts_parent_state_root s
     \<and> sts_state_trie s' = sts_state_trie s
     \<and> (distinct (map fst (sts_account_cache s)) \<longrightarrow> distinct (map fst (sts_account_cache s')))"

lemma kept_refl [simp]: "kept s s"
  by (simp add: kept_def)

lemma kept_input [simp]: "kept (s\<lparr>sts_input := hs\<rparr>) s' \<longleftrightarrow> kept s s'" "kept s (s'\<lparr>sts_input := hs\<rparr>) \<longleftrightarrow> kept s s'"
  by (simp_all add: kept_def)

lemma kept_tries [simp]: "kept s (s'\<lparr>sts_storage_tries := f\<rparr>) \<longleftrightarrow> kept s s'"
  by (simp add: kept_def)

lemma kept_trans: "kept s s1 \<Longrightarrow> kept s1 s' \<Longrightarrow> kept s s'"
  by (simp add: kept_def)

lemma read_account_loop_kept: "read_account_loop h hs s = (Ok acc, s') \<Longrightarrow> kept s s'"
proof (induction hs arbitrary: s)
  case (Cons x hs)
  from Cons.prems obtain a where x: "x = HWitness (WAccount a)"
    by (auto simp: Let_def split: hint.splits client_witness_input.splits)
  let ?s = "s\<lparr>sts_input := hs, sts_account_cache := (ai_hashed_address a, ai_account a) # sts_account_cache s\<rparr>"
  have new: "map_of (sts_account_cache s) (ai_hashed_address a) = None"
    and cont: "(if ai_hashed_address a = h then (Ok (ai_account a), ?s) else read_account_loop h hs ?s) = (Ok acc, s')"
    using Cons.prems x by (auto simp: Let_def split: if_splits)
  have "kept s ?s" using new by (auto simp: kept_def map_of_eq_None_iff)
  with cont Cons.IH [of ?s] kept_trans show ?case by (auto split: if_splits)
qed simp

lemma read_account_kept: "read_account h s = (Ok acc, s') \<Longrightarrow> kept s s'"
  using read_account_loop_kept by (auto simp: read_account_def split: option.splits)

lemma load_storage_trie_kept: "load_storage_trie E h s = (Ok (), s') \<Longrightarrow> kept s s'"
proof (cases "sts_storage_tries s h")
  case None
  assume run: "load_storage_trie E h s = (Ok (), s')"
  from run None obtain w hs where w: "sts_input s = HWitness w # hs" by (auto simp: load_storage_trie_def and_then_witness)
  with run None obtain hd where hd: "w = WStorageTrie hd" by (cases w) (auto simp: load_storage_trie_def and_then_witness)
  from run None w hd obtain acc s1 bs hs1 trie where
    r: "read_account h (s\<lparr>sts_input := hs\<rparr>) = (Ok acc, s1)" "sts_input s1 = HRaw bs # hs1"
      "s' = s1\<lparr>sts_input := hs1, sts_storage_tries := (sts_storage_tries s1)(h \<mapsto> trie)\<rparr>"
    by (auto simp: load_storage_trie_def and_then_witness expected_storage_root_def read_raw_bytes_Ok decode_hash_Ok
        elim!: and_then_OkE split: if_splits)
  from read_account_kept [OF r(1)] r(3) show ?thesis by simp
qed (simp add: load_storage_trie_def)

lemma read_bytecode_kept: "read_bytecode X h s = (Ok c, s') \<Longrightarrow> kept s s'"
proof -
  assume run: "read_bytecode X h s = (Ok c, s')"
  then obtain hs w where hs: "sts_input s = HWitness w # hs" by (auto simp: read_bytecode_def and_then_witness)
  with run have "s' = s\<lparr>sts_input := hs\<rparr>" by (cases w) (auto simp: read_bytecode_def and_then_witness split: if_splits)
  then show ?thesis by simp
qed

text \<open>The queries of a streamed run.\<close>

lemma run_evm_kept:
  "run_evm E C X e db = (Ok out, db') \<Longrightarrow> streams db s \<Longrightarrow> \<exists>s'. streams db' s' \<and> kept s s'"
proof (induction e arbitrary: db s)
  case (QBasic address k)
  then obtain r db1 where q: "basic_ref E C address db = (Ok r, db1)" "run_evm E C X (k r) db1 = (Ok out, db')"
    by (auto simp: ask_Ok)
  with QBasic.prems(2) obtain acc s1 where s1: "read_account (keccak256 E address) s = (Ok acc, s1)" "db1 = db\<lparr>db_state := StreamingState s1\<rparr>"
    by (auto simp: basic_ref_def Let_def and_then_Ok_iff on_stream_Ok [OF QBasic.prems(2)] streams_def)
  with QBasic.IH [OF _ q(2), of s1] QBasic.prems(2) read_account_kept [OF s1(1)] kept_trans show ?case by auto
next
  case (QCode h k)
  then obtain c db1 where q: "code_by_hash_ref X h db = (Ok c, db1)" "run_evm E C X (k c) db1 = (Ok out, db')"
    by (auto simp: ask_Ok)
  with QCode.prems(2) obtain s1 where s1: "read_bytecode X h s = (Ok c, s1)" "db1 = db\<lparr>db_state := StreamingState s1\<rparr>"
    by (auto simp: code_by_hash_ref_def on_stream_Ok [OF QCode.prems(2)] streams_def)
  with QCode.IH [OF _ q(2), of s1] QCode.prems(2) read_bytecode_kept [OF s1(1)] kept_trans show ?case by auto
next
  case (QStorage address index k)
  then obtain v db1 where q: "storage_ref E C address index db = (Ok v, db1)" "run_evm E C X (k v) db1 = (Ok out, db')"
    by (auto simp: ask_Ok)
  with QStorage.prems(2) obtain s1 where s1: "load_storage_trie E (keccak256 E address) s = (Ok (), s1)" "db1 = db\<lparr>db_state := StreamingState s1\<rparr>"
    by (auto simp: storage_ref_def Let_def and_then_Ok_iff on_stream_Ok [OF QStorage.prems(2)] streams_def)
  with QStorage.IH [OF _ q(2), of s1] QStorage.prems(2) load_storage_trie_kept [OF s1(1)] kept_trans show ?case by auto
next
  case (QBlockHash n k)
  then obtain h db1 where q: "block_hash_ref n db = (Ok h, db1)" "run_evm E C X (k h) db1 = (Ok out, db')"
    by (auto simp: ask_Ok)
  then have "db1 = db" by (auto simp: block_hash_ref_def split: option.splits)
  with QBlockHash.IH [OF _ q(2), of s] QBlockHash.prems(2) show ?case by blast
qed auto

section \<open>What execution records\<close>

definition exec_access :: "eth_codec \<Rightarrow> ethereum_state \<Rightarrow> witness_access \<Rightarrow> bool" where
  "exec_access C st a = (case a of
     AccAccount h \<Rightarrow> \<exists>acc. get_rlp (account_decode C) (state_trie st) h = Ok acc
   | AccStorageTrie h \<Rightarrow> True
   | AccBytecode h \<Rightarrow> True
   | _ \<Rightarrow> False)"

text \<open>A recording after more accesses of execution.\<close>

definition recorded_more :: "eth_codec \<Rightarrow> ethereum_state \<Rightarrow> recording \<Rightarrow> recording \<Rightarrow> bool" where
  "recorded_more C st r r' \<longleftrightarrow>
     (\<exists>accs. witness_order r' = map_option (\<lambda>w. w @ accs) (witness_order r) \<and> (\<forall>a \<in> set accs. exec_access C st a))
     \<and> (\<forall>h \<in> set (account_lookup_order r'). h \<in> set (account_lookup_order r) \<or> length h = 32)"

lemma recorded_more_refl [simp]: "recorded_more C st r r"
  unfolding recorded_more_def by (intro conjI exI [of _ "[]"]) (auto simp: option.map_ident)

lemma recorded_more_trans:
  assumes "recorded_more C st r r1" "recorded_more C st r1 r'"
  shows "recorded_more C st r r'"
proof -
  obtain as bs where w: "witness_order r1 = map_option (\<lambda>w. w @ as) (witness_order r)" "\<forall>a \<in> set as. exec_access C st a"
    "witness_order r' = map_option (\<lambda>w. w @ bs) (witness_order r1)" "\<forall>a \<in> set bs. exec_access C st a"
    using assms by (auto simp: recorded_more_def)
  have "witness_order r' = map_option (\<lambda>w. w @ (as @ bs)) (witness_order r)" unfolding w(3,1) by (cases "witness_order r") auto
  with w(2,4) assms show ?thesis unfolding recorded_more_def by (intro conjI exI [of _ "as @ bs"]) auto
qed

lemma recorded_more_push:
  "exec_access C st a \<Longrightarrow> recorded_more C st r (push_access a r)"
  unfolding recorded_more_def by (intro conjI exI [of _ "[a]"]) (auto simp: push_access_def)

lemma note_account_more:
  assumes "get_rlp (account_decode C) (state_trie st) h = Ok acc" "length h = 32"
  shows "recorded_more C st r (note_account h r)"
proof (cases "h \<in> set (account_lookup_order r)")
  case False
  have "exec_access C st (AccAccount h)" using assms(1) by (simp add: exec_access_def)
  with False assms(2) show ?thesis unfolding recorded_more_def note_account_def push_access_def
    by (intro conjI exI [of _ "[AccAccount h]"]) auto
qed (simp add: note_account_def)

lemma note_storage_more: "recorded_more C st r (note_storage h r)"
proof (cases "h \<in> set (storage_lookup_order r)")
  case False
  have "exec_access C st (AccStorageTrie h)" by (simp add: exec_access_def)
  with False show ?thesis unfolding recorded_more_def note_storage_def push_access_def
    by (intro conjI exI [of _ "[AccStorageTrie h]"]) auto
qed (simp add: note_storage_def)

lemma note_bytecode_more: "recorded_more C st r (note_bytecode h r)"
  unfolding recorded_more_def note_bytecode_def push_access_def
  by (auto simp: exec_access_def intro: exI [of _ "[AccBytecode h]"])

context rlp_laws
begin

lemma run_evm_recorded:
  assumes tries: "\<And>h. storage_tries st h \<noteq> None \<Longrightarrow> \<exists>acc. get_rlp (account_decode C) (state_trie st) h = Ok acc"
  shows "eager_db st codes hashes r db \<Longrightarrow> run_evm E C X e db = (Ok out, db') \<Longrightarrow>
    \<exists>r'. eager_db st codes hashes r' db' \<and> recorded_more C st r r'"
proof (induction e arbitrary: db r)
  case (QBasic address k)
  let ?h = "keccak256 E address"
  from QBasic.prems(2) obtain a db1 where q: "basic_ref E C address db = (Ok a, db1)" "run_evm E C X (k a) db1 = (Ok out, db')"
    by (auto simp: ask_Ok)
  with QBasic.prems(1) obtain acc where acc: "get_rlp (account_decode C) (state_trie st) ?h = Ok acc"
    and db1: "db1 = recorded (note_account ?h) db"
    by (auto simp: basic_ref_def eager_db_def Let_def split: outcome.splits)
  have "eager_db st codes hashes (note_account ?h r) db1"
    using QBasic.prems(1) by (simp add: db1 eager_db_def recorded_def note_account_def push_access_def)
  with QBasic.IH [OF _ this q(2)] note_account_more [OF acc keccak_length, of r] recorded_more_trans show ?case by blast
next
  case (QCode h k)
  from QCode.prems(2) obtain a db1 where q: "code_by_hash_ref X h db = (Ok a, db1)" "run_evm E C X (k a) db1 = (Ok out, db')"
    by (auto simp: ask_Ok)
  with QCode.prems(1) have db1: "db1 = recorded (note_bytecode h) db"
    by (auto simp: code_by_hash_ref_def eager_db_def split: option.splits)
  have "eager_db st codes hashes (note_bytecode h r) db1"
    using QCode.prems(1) by (simp add: db1 eager_db_def recorded_def note_bytecode_def push_access_def)
  with QCode.IH [OF _ this q(2)] note_bytecode_more [of C st r h] recorded_more_trans show ?case by blast
next
  case (QStorage address index k)
  let ?h = "keccak256 E address"
  from QStorage.prems(2) obtain a db1 where q: "storage_ref E C address index db = (Ok a, db1)" "run_evm E C X (k a) db1 = (Ok out, db')"
    by (auto simp: ask_Ok)
  with QStorage.prems(1) have
    v: "slot_value C (storage_tries st ?h) (keccak256 E (to_be_bytes_32 index)) = (Ok a :: (witness_message, u256) outcome)"
    and db1: "db1 = recorded (note_storage ?h \<circ> note_account ?h) db"
    by (simp_all add: storage_ref_def eager_db_def Let_def)
  from v have "storage_tries st ?h \<noteq> None" by (auto simp: slot_value_def split: option.splits)
  then obtain acc where acc: "get_rlp (account_decode C) (state_trie st) ?h = Ok acc" using tries by blast
  have "eager_db st codes hashes (note_storage ?h (note_account ?h r)) db1"
    using QStorage.prems(1) by (simp add: db1 eager_db_def recorded_def note_storage_def note_account_def push_access_def)
  with QStorage.IH [OF _ this q(2)] note_account_more [OF acc keccak_length, of r]
    note_storage_more [of C st "note_account ?h r" ?h] recorded_more_trans show ?case by blast
next
  case (QBlockHash n k)
  then obtain h db1 where q: "block_hash_ref n db = (Ok h, db1)" "run_evm E C X (k h) db1 = (Ok out, db')"
    by (auto simp: ask_Ok)
  then have "db1 = db" by (auto simp: block_hash_ref_def split: option.splits)
  with QBlockHash.IH [OF _ _ q(2), of r] QBlockHash.prems(1) show ?case by blast
qed auto

end

end
