(* ===== verification/Frontier_Collect.thy ===== *)
theory Frontier_Collect
  imports Frontier_Properties Codec_Properties
begin

text \<open>
  The boundaries that \<^verbatim>\<open>collect_frontier_boundaries\<close> finds. They are places of the tree, none above
  another, every one of them is referenced by a digest or is the node the search started from,
  and every key that does not leave the tree inside the path of an extension lies below one of them.
\<close>

section \<open>Places in a tree\<close>

inductive reaches :: "atree \<Rightarrow> nibs \<Rightarrow> atree \<Rightarrow> bool" where
  here: "reaches a [] a"
| branch: "unat h < length cs \<Longrightarrow> cs ! unat h = Some c \<Longrightarrow> reaches c q s \<Longrightarrow> reaches (ABranch i cs) (h # q) s"
| ext: "p \<noteq> [] \<Longrightarrow> reaches c q s \<Longrightarrow> reaches (AExt i p c) (p @ q) s"

text \<open>A key that does not leave the tree inside the path of an extension and does not end at a branch.\<close>

function on_path :: "ptree \<Rightarrow> nibs \<Rightarrow> bool" where
  "on_path (PBranch cs) k =
     (case k of
        [] \<Rightarrow> False
      | h # r \<Rightarrow>
          (if unat h < length cs then (case cs ! unat h of None \<Rightarrow> True | Some c \<Rightarrow> on_path c r) else False))"
| "on_path (PExt p c) k = (prefix p k \<and> on_path c (drop (length p) k))"
| "on_path PNull k = True"
| "on_path (PLeaf p v) k = True"
| "on_path (PDigest d) k = True"
  by pat_completeness auto
termination
  by (relation "measure (\<lambda>(t, _). size t)") (auto simp: termination_simp)

lemma asubs_self [simp]: "a \<in> set (asubs a)"
  by (subst asubs.simps) simp

lemma asubs_kid: "c \<in> set (akids a) \<Longrightarrow> set (asubs c) \<subseteq> set (asubs a)"
  by (subst (2) asubs.simps) auto

lemma asubs_trans: "s \<in> set (asubs a) \<Longrightarrow> set (asubs s) \<subseteq> set (asubs a)"
proof (induction a rule: atree_induct)
  case (node a)
  from node.prems consider "s = a" | c where "c \<in> set (akids a)" "s \<in> set (asubs c)"
    by (subst (asm) asubs.simps) auto
  then show ?case using node.IH asubs_kid by cases blast+
qed

lemma asubs_aids: "s \<in> set (asubs a) \<Longrightarrow> set (aids s) \<subseteq> set (aids a)"
  unfolding aids_def using asubs_trans by fastforce

lemma asubs_holds: "holds E m a \<Longrightarrow> s \<in> set (asubs a) \<Longrightarrow> holds E m s"
  unfolding holds_def using asubs_trans by blast

lemma asubs_distinct: "s \<in> set (asubs a) \<Longrightarrow> distinct (aids a) \<Longrightarrow> distinct (aids s)"
proof (induction a rule: atree_induct)
  case (node a)
  from node.prems(1) consider "s = a" | c where "c \<in> set (akids a)" "s \<in> set (asubs c)"
    by (subst (asm) asubs.simps) auto
  then show ?case using node distinct_kid by cases blast+
qed

text \<open>Changing caches below a node of a tree keeps the tree when it keeps what is below the node.\<close>

lemma holds_below:
  assumes a: "holds E m a" "distinct (aids a)" "s \<in> set (asubs a)"
    and s: "holds E m' s" "cells_changed (set (aids s)) m m'"
  shows "holds E m' a"
  unfolding holds_def
proof
  fix u assume u: "u \<in> set (asubs a)"
  show "node_at m' (aid u) = Some (node_of u) \<and> cell_ok E m' u \<and> shape_ok u"
  proof (cases "aid u \<in> set (aids s)")
    case True
    then obtain v where v: "v \<in> set (asubs s)" "aid v = aid u" by (auto simp: aids_def)
    then have "v \<in> set (asubs a)" using asubs_trans [OF a(3)] by blast
    with u v(2) a(2) have "u = v" by (auto simp: aids_def distinct_map inj_on_def)
    with s(1) v(1) show ?thesis by (auto simp: holds_def)
  next
    case False
    with a(1) u cells_changed_node [OF s(2)] cells_changed_cell [OF s(2)] show ?thesis
      by (auto simp: holds_def cell_ok_def)
  qed
qed

lemma reaches_asubs: "reaches a q s \<Longrightarrow> s \<in> set (asubs a)"
proof (induction rule: reaches.induct)
  case (branch h cs c q s i)
  then have "c \<in> set (akids (ABranch i cs))" by (auto intro: nth_mem [of "unat h" cs, simplified] simp: in_set_conv_nth)
  with branch.IH asubs_kid show ?case by blast
next
  case (ext p c q s i)
  with asubs_kid [of c "AExt i p c"] show ?case by auto
qed simp

lemma reaches_sub_at: "reaches a q s \<Longrightarrow> sub_at (erase a) q = Some (erase s)"
proof (induction rule: reaches.induct)
  case (ext p c q s i)
  then have "p @ q \<noteq> []" by simp
  with ext show ?case by (simp add: sub_at_Ext del: append_is_Nil_conv)
qed simp_all

section \<open>Boundaries\<close>

definition bound_at :: "atree \<Rightarrow> nibs \<Rightarrow> node_id option \<Rightarrow> bool" where
  "bound_at a q n \<longleftrightarrow>
     (case n of
        None \<Rightarrow> q \<noteq> [] \<and> sub_at (erase a) q = Some PNull
      | Some i \<Rightarrow> \<exists>s. reaches a q s \<and> aid s = i)"

definition digest_at :: "ext \<Rightarrow> atree \<Rightarrow> nibs \<Rightarrow> node_id option \<Rightarrow> bool" where
  "digest_at E a q n \<longleftrightarrow> (\<forall>i. n = Some i \<longrightarrow> (\<exists>s d. reaches a q s \<and> aid s = i \<and> tree_ref E (erase s) = RefDigest d))"

lemma bound_at_branch:
  assumes "unat h < length cs" "cs ! unat h = Some c"
  shows "bound_at c q n \<Longrightarrow> bound_at (ABranch i cs) (h # q) n" "digest_at E c q n \<Longrightarrow> digest_at E (ABranch i cs) (h # q) n"
  using assms reaches.branch [OF assms] by (fastforce simp: bound_at_def digest_at_def split: option.splits)+

lemma bound_at_ext:
  assumes "p \<noteq> []"
  shows "bound_at c q n \<Longrightarrow> bound_at (AExt i p c) (p @ q) n" "digest_at E c q n \<Longrightarrow> digest_at E (AExt i p c) (p @ q) n"
  using assms reaches.ext [OF assms] by (fastforce simp: bound_at_def digest_at_def sub_at_Ext split: option.splits)+

definition keys_below :: "atree \<Rightarrow> nibs \<Rightarrow> (nibs \<times> nat) list \<Rightarrow> bool" where
  "keys_below a pre keys \<longleftrightarrow> (\<forall>k \<in> set (map fst keys). prefix pre k \<and> on_path (erase a) (drop (length pre) k))"

definition cut_ok :: "atree \<Rightarrow> nibs \<Rightarrow> (nibs \<times> nat) list \<Rightarrow> boundaries \<Rightarrow> bool" where
  "cut_ok a pre keys bs \<longleftrightarrow>
     (\<forall>b \<in> set bs. \<exists>q. fst b = pre @ q \<and> bound_at a q (snd b))
     \<and> sorted_wrt (\<lambda>b c. parallel (fst b) (fst c)) bs
     \<and> (\<forall>k \<in> set (map fst keys). prefix pre k \<and> on_path (erase a) (drop (length pre) k) \<longrightarrow>
          (\<exists>b \<in> set bs. prefix (fst b) k))
     \<and> (keys \<noteq> [] \<and> keys_below a pre keys \<longrightarrow> (\<forall>b \<in> set bs. \<exists>k \<in> set (map fst keys). prefix (fst b) k))"

definition all_digest :: "ext \<Rightarrow> atree \<Rightarrow> nibs \<Rightarrow> boundaries \<Rightarrow> bool" where
  "all_digest E a pre bs \<longleftrightarrow> (\<forall>b \<in> set bs. \<exists>q. fst b = pre @ q \<and> digest_at E a q (snd b))"

lemma cut_ok_here: "cut_ok a pre keys [(pre, Some (aid a))]"
  by (cases keys) (auto simp: cut_ok_def bound_at_def keys_below_def intro: reaches.here)

text \<open>What the boundaries below the children \<open>js\<close> of a branch satisfy.\<close>

definition kids_ok :: "atree \<Rightarrow> nibs \<Rightarrow> (nibs \<times> nat) list \<Rightarrow> nat list \<Rightarrow> boundaries \<Rightarrow> bool" where
  "kids_ok a pre keys js bs \<longleftrightarrow>
     (\<forall>b \<in> set bs. \<exists>j \<in> set js. \<exists>q. fst b = pre @ of_nat j # q \<and> bound_at a (of_nat j # q) (snd b))
     \<and> sorted_wrt (\<lambda>b c. parallel (fst b) (fst c)) bs
     \<and> (\<forall>k \<in> set (map fst keys). \<forall>j \<in> set js. \<forall>r. k = pre @ of_nat j # r \<and> on_path (erase a) (of_nat j # r) \<longrightarrow>
          (\<exists>b \<in> set bs. prefix (fst b) k))
     \<and> (keys_below a pre keys \<longrightarrow> (\<forall>b \<in> set bs. \<exists>k \<in> set (map fst keys). prefix (fst b) k))"

lemma parallel_branch: "h \<noteq> h' \<Longrightarrow> parallel (pre @ h # q) (pre @ h' # q')"
  by (auto simp: parallel_def)

lemma nibble_inj: "j < 16 \<Longrightarrow> j' < 16 \<Longrightarrow> (of_nat j :: byte) = of_nat j' \<longleftrightarrow> j = j'"
  by (auto simp: word_unat_eq_iff unat_of_nat)

lemma unat_nibble: "j < 16 \<Longrightarrow> unat (of_nat j :: byte) = j"
  by (simp add: unat_of_nat)

lemma kids_okD:
  assumes "kids_ok a pre keys js bs"
  shows "b \<in> set bs \<Longrightarrow> \<exists>j \<in> set js. \<exists>q. fst b = pre @ of_nat j # q \<and> bound_at a (of_nat j # q) (snd b)"
    "sorted_wrt (\<lambda>b c. parallel (fst b) (fst c)) bs"
    "k \<in> set (map fst keys) \<Longrightarrow> j \<in> set js \<Longrightarrow> k = pre @ of_nat j # r \<Longrightarrow> on_path (erase a) (of_nat j # r) \<Longrightarrow>
     \<exists>b \<in> set bs. prefix (fst b) k"
    "keys_below a pre keys \<Longrightarrow> b \<in> set bs \<Longrightarrow> \<exists>k \<in> set (map fst keys). prefix (fst b) k"
  using assms unfolding kids_ok_def by blast+

lemma kids_ok_cons:
  assumes one: "kids_ok a pre keys [j] bs" and rest: "kids_ok a pre keys js cs" and j: "j \<notin> set js" "set (j # js) \<subseteq> {..<16}"
  shows "kids_ok a pre keys (j # js) (bs @ cs)"
  unfolding kids_ok_def
proof (intro conjI ballI allI impI; (elim conjE)?)
  have "parallel (fst b) (fst c)" if b: "b \<in> set bs" and c: "c \<in> set cs" for b c
  proof -
    obtain q where "fst b = pre @ of_nat j # q" using kids_okD(1) [OF one b] by auto
    moreover obtain j' q' where j': "j' \<in> set js" "fst c = pre @ of_nat j' # q'" using kids_okD(1) [OF rest c] by blast
    moreover have "(of_nat j :: byte) \<noteq> of_nat j'" using j j'(1) nibble_inj [of j j'] by auto
    ultimately show ?thesis using parallel_branch by metis
  qed
  then show "sorted_wrt (\<lambda>b c. parallel (fst b) (fst c)) (bs @ cs)"
    using kids_okD(2) [OF one] kids_okD(2) [OF rest] by (simp add: sorted_wrt_append)
next
  fix b assume "b \<in> set (bs @ cs)"
  then consider "b \<in> set bs" | "b \<in> set cs" by auto
  then show "\<exists>i \<in> set (j # js). \<exists>q. fst b = pre @ of_nat i # q \<and> bound_at a (of_nat i # q) (snd b)"
    using kids_okD(1) [OF one] kids_okD(1) [OF rest] by cases auto
next
  fix k i r assume k: "k \<in> set (map fst keys)" "k = pre @ of_nat i # r" "on_path (erase a) (of_nat i # r)" and "i \<in> set (j # js)"
  then consider "i = j" | "i \<in> set js" by auto
  then show "\<exists>b \<in> set (bs @ cs). prefix (fst b) k"
  proof cases
    case 1
    with kids_okD(3) [OF one k(1) _ k(2,3)] show ?thesis by auto
  next
    case 2
    from kids_okD(3) [OF rest k(1) 2 k(2,3)] show ?thesis by auto
  qed
next
  fix b assume below: "keys_below a pre keys" and "b \<in> set (bs @ cs)"
  then consider "b \<in> set bs" | "b \<in> set cs" by auto
  then show "\<exists>k \<in> set (map fst keys). prefix (fst b) k"
    using kids_okD(4) [OF one below] kids_okD(4) [OF rest below] by cases
qed

lemma kids_ok_cut:
  assumes "kids_ok a pre keys [0..<16] bs" "a = ABranch i cs" "length cs = 16"
  shows "cut_ok a pre keys bs"
  unfolding cut_ok_def
proof (intro conjI ballI impI; (elim conjE)?)
  fix k assume k: "k \<in> set (map fst keys)" "prefix pre k" "on_path (erase a) (drop (length pre) k)"
  then obtain r where r: "k = pre @ r" by (auto simp: prefix_def)
  with k(3) assms(2,3) obtain h l where h: "r = h # l" "unat h < 16" by (auto split: list.splits if_splits)
  then have "k = pre @ of_nat (unat h) # l" "unat h \<in> set [0..<16]" "on_path (erase a) (of_nat (unat h) # l)" using r k(3) by simp_all
  then show "\<exists>b \<in> set bs. prefix (fst b) k" using kids_okD(3) [OF assms(1) k(1)] by blast
qed (use kids_okD(1,2,4) [OF assms(1)] in \<open>blast+\<close>)

section \<open>What the search reads\<close>

context rlp_laws
begin

lemma ref_is_digest_spec:
  assumes h: "holds E m t" and d: "distinct (aids t)" and s: "\<not> scratch_borrowed m"
  shows "\<exists>m'. ref_is_digest E (aid t) m = (Ok (\<exists>d. tree_ref E (erase t) = RefDigest d), m') \<and> holds E m' t
    \<and> cells_changed (set (aids t)) m m'"
proof -
  have parts: "node_at m (aid t) = Some (node_of t)" "shape_ok t" "\<forall>c \<in> set (akids t). holds E m c" "cell_ok E m t"
    using h holds_rec by blast+
  have "calc_spec E (calc_reference (hash_fuel m) E) t"
    using calc_reference_spec [OF d] length_aids_le [OF h d] by (simp add: hash_fuel_def)
  then obtain m' where m': "calc_reference (hash_fuel m) E (aid t) m = (Ok (tree_ref E (erase t)), m')"
    "\<forall>c \<in> set (akids t). holds E m' c" "cells_changed (set (aids t) - {aid t}) m m'"
    using parts s unfolding calc_spec_def by blast
  have "holds E m' t"
    using m' parts cells_changed_node [OF m'(3)] cells_changed_cell [OF m'(3), of "aid t"] holds_rec [of E m' t]
    by (simp add: cell_ok_def)
  with m'(1) cells_changed_mono [OF m'(3)] show ?thesis by (auto simp: ref_is_digest_def split: node_ref.split)
qed

lemma encoded_subtrie_spec:
  assumes h: "holds E m t" and d: "distinct (aids t)" and s: "\<not> scratch_borrowed m"
  shows "\<exists>m'. encoded_subtrie E (aid t) m = (Ok (tree_stream E (erase t)), m') \<and> holds E m' t \<and> cells_changed (set (aids t)) m m'"
proof -
  have "enc_spec (encode_trie_internal (hash_fuel m) E) t"
    using encode_trie_internal_spec [OF d] length_aids_le [OF h d] by (simp add: hash_fuel_def)
  with h s show ?thesis unfolding enc_spec_def encoded_subtrie_def by (metis append_Nil)
qed

lemma subtree_count_spec: "holds E m t \<Longrightarrow> distinct (aids t) \<Longrightarrow> subtree_num_nodes (aid t) m = Ok (pt_nodes (erase t))"
  using subtree_num_nodes_spec [of E m t "hash_fuel m"] length_aids_le [of E m t]
  by (simp add: subtree_num_nodes_def hash_fuel_def pt_nodes_erase)

lemma all_digests_spec:
  assumes "holds E m a" "distinct (aids a)" "\<not> scratch_borrowed m"
    and "\<And>b. b \<in> set bs \<Longrightarrow> \<exists>q. fst b = pre @ q \<and> bound_at a q (snd b)"
  shows "\<exists>ok m'. all_digests E bs m = (Ok ok, m') \<and> holds E m' a \<and> cells_changed (set (aids a)) m m'
    \<and> (ok \<longrightarrow> all_digest E a pre bs)"
  using assms
proof (induction bs arbitrary: m)
  case (Cons b bs)
  obtain q where q: "fst b = pre @ q" "bound_at a q (snd b)" using Cons.prems(4) [of b] by auto
  show ?case
  proof (cases "snd b")
    case None
    then have "digest_at E a q (snd b)" by (simp add: digest_at_def)
    with q None Cons.IH [OF Cons.prems(1-3)] Cons.prems(4) show ?thesis by (fastforce simp: all_digest_def)
  next
    case (Some i)
    then obtain s where s: "reaches a q s" "aid s = i" using q(2) by (auto simp: bound_at_def)
    note sub = reaches_asubs [OF s(1)]
    obtain m1 where m1: "ref_is_digest E i m = (Ok (\<exists>d. tree_ref E (erase s) = RefDigest d), m1)" "holds E m1 s"
      "cells_changed (set (aids s)) m m1"
      using ref_is_digest_spec [OF asubs_holds [OF Cons.prems(1) sub] asubs_distinct [OF sub Cons.prems(2)] Cons.prems(3)] s(2) by auto
    have h1: "holds E m1 a" by (rule holds_below [OF Cons.prems(1,2) sub m1(2,3)])
    have ch: "cells_changed (set (aids a)) m m1" using cells_changed_mono [OF m1(3) asubs_aids [OF sub]] .
    have s1: "\<not> scratch_borrowed m1" using Cons.prems(3) cells_changed_scratch [OF ch] by simp
    show ?thesis
    proof (cases "\<exists>d. tree_ref E (erase s) = RefDigest d")
      case True
      obtain ok m2 where m2: "all_digests E bs m1 = (Ok ok, m2)" "holds E m2 a" "cells_changed (set (aids a)) m1 m2"
        "ok \<longrightarrow> all_digest E a pre bs" using Cons.IH [OF h1 Cons.prems(2) s1] Cons.prems(4) by (meson list.set_intros(2))
      have "digest_at E a q (snd b)" using True s Some by (auto simp: digest_at_def)
      with m2 m1(1) True Some q cells_changed_trans [OF ch m2(3)] show ?thesis by (auto simp: all_digest_def)
    next
      case False
      with m1(1) Some h1 ch show ?thesis by auto
    qed
  qed
qed (auto simp: all_digest_def)

section \<open>The search\<close>

definition coll_spec :: "collector \<Rightarrow> atree \<Rightarrow> bool" where
  "coll_spec coll a \<longleftrightarrow> (\<forall>pre keys out m. holds E m a \<and> \<not> scratch_borrowed m \<longrightarrow>
     (\<exists>bs m'. coll (aid a) pre keys out m = (Ok (out @ bs), m') \<and> holds E m' a \<and> cells_changed (set (aids a)) m m'
        \<and> cut_ok a pre keys bs \<and> bs \<noteq> [] \<and> (bs = [(pre, Some (aid a))] \<or> all_digest E a pre bs)))"

lemma key_at_nibble:
  assumes "prefix pre k" "length pre < length k" "k ! length pre = h"
  obtains r where "k = pre @ h # r"
proof -
  obtain zs where zs: "k = pre @ zs" using assms(1) by (auto simp: prefix_def)
  with assms(2,3) have "zs = h # tl zs" by (cases zs) auto
  with zs that show thesis by metis
qed

lemma child_kids_ok:
  assumes "a = ABranch i cs" "length cs = 16" "j < 16" "cs ! j = Some c"
    and "cut_ok c (pre @ [of_nat j]) (child_keys keys (length pre) (of_nat j)) bs" "child_keys keys (length pre) (of_nat j) \<noteq> []"
  shows "kids_ok a pre keys [j] bs"
  unfolding kids_ok_def
proof (intro conjI ballI allI impI; (elim conjE)?)
  note u = unat_nibble [OF assms(3)]
  fix b assume "b \<in> set bs"
  then obtain q where "fst b = (pre @ [of_nat j]) @ q" "bound_at c q (snd b)" using assms(5) unfolding cut_ok_def by blast
  with bound_at_branch(1) [of "of_nat j" cs c q "snd b" i] u assms(1-4)
  show "\<exists>j' \<in> set [j]. \<exists>q. fst b = pre @ of_nat j' # q \<and> bound_at a (of_nat j' # q) (snd b)" by auto
next
  note u = unat_nibble [OF assms(3)]
  fix k j' r assume k: "k \<in> set (map fst keys)" "j' \<in> set [j]" "k = pre @ of_nat j' # r" "on_path (erase a) (of_nat j' # r)"
  then obtain w where "(k, w) \<in> set keys" by auto
  with k have "(k, w) \<in> set (child_keys keys (length pre) (of_nat j))" by (simp add: child_keys_def nth_opt_def)
  then have "k \<in> set (map fst (child_keys keys (length pre) (of_nat j)))" by force
  moreover have "on_path (erase c) r" using k u assms(1-4) by simp
  moreover have "drop (length (pre @ [of_nat j])) k = r" "prefix (pre @ [of_nat j]) k" using k by (auto simp: prefix_def)
  ultimately show "\<exists>b \<in> set bs. prefix (fst b) k" using assms(5) unfolding cut_ok_def by metis
next
  note u = unat_nibble [OF assms(3)]
  fix b assume below: "keys_below a pre keys" and b: "b \<in> set bs"
  have "prefix (pre @ [of_nat j]) k \<and> on_path (erase c) (drop (length (pre @ [of_nat j])) k)"
    if k: "k \<in> set (map fst (child_keys keys (length pre) (of_nat j)))" for k
  proof -
    have k': "k \<in> set (map fst keys)" "length pre < length k" "k ! length pre = of_nat j"
      using k by (auto simp: child_keys_def nth_opt_def split: if_splits)
    have pre: "prefix pre k" "on_path (erase a) (drop (length pre) k)" using below k'(1) unfolding keys_below_def by blast+
    obtain r where r: "k = pre @ of_nat j # r" by (rule key_at_nibble [OF pre(1) k'(2,3)])
    with pre(2) u assms(1-4) show ?thesis by (simp add: prefix_def)
  qed
  then have "keys_below c (pre @ [of_nat j]) (child_keys keys (length pre) (of_nat j))" unfolding keys_below_def by blast
  with assms(5,6) b have "\<exists>k \<in> set (map fst (child_keys keys (length pre) (of_nat j))). prefix (fst b) k" unfolding cut_ok_def by blast
  then show "\<exists>k \<in> set (map fst keys). prefix (fst b) k" by (force simp: child_keys_def)
qed (use assms(5) in \<open>auto simp: cut_ok_def\<close>)

lemma empty_slot_kids_ok:
  assumes "a = ABranch i cs" "length cs = 16" "j < 16" "cs ! j = None" "child_keys keys (length pre) (of_nat j) \<noteq> []"
  shows "kids_ok a pre keys [j] [(pre @ [of_nat j], None)]"
proof -
  obtain k where k: "k \<in> set (map fst keys)" "length pre < length k" "k ! length pre = of_nat j"
    using assms(5) by (auto simp: child_keys_def nth_opt_def filter_empty_conv split: if_splits)
  have below: "\<exists>k \<in> set (map fst keys). prefix (pre @ [of_nat j]) k" if "keys_below a pre keys"
  proof -
    have "prefix pre k" using that k(1) unfolding keys_below_def by blast
    from key_at_nibble [OF this k(2,3)] obtain r where "k = pre @ of_nat j # r" .
    then have "prefix (pre @ [of_nat j]) k" by simp
    with k(1) show ?thesis by blast
  qed
  have "bound_at a [of_nat j] None" using assms(1-4) unat_nibble [OF assms(3)] by (simp add: bound_at_def)
  then show ?thesis using below unfolding kids_ok_def by simp
qed

lemma no_keys_kids_ok: "child_keys keys (length pre) (of_nat j) = [] \<Longrightarrow> kids_ok a pre keys [j] []"
  by (auto simp: kids_ok_def child_keys_def nth_opt_def filter_empty_conv)

lemma collect_children_spec:
  assumes a: "a = ABranch i cs" "length cs = 16" "distinct (concat (map aids (somes cs)))"
    and c: "\<And>c. c \<in> set (somes cs) \<Longrightarrow> coll_spec coll c"
    and m: "\<forall>c \<in> set (somes cs). holds E m c" "\<not> scratch_borrowed m" and js: "distinct js" "set js \<subseteq> {..<16}"
  shows "\<exists>bs m'. collect_children coll (map (map_option aid) cs) js pre keys out m = (Ok (out @ bs), m')
    \<and> (\<forall>c \<in> set (somes cs). holds E m' c) \<and> cells_changed (\<Union>c \<in> set (somes cs). set (aids c)) m m'
    \<and> kids_ok a pre keys js bs"
  using m js
proof (induction js arbitrary: m out)
  case (Cons j js)
  let ?S = "\<Union>c \<in> set (somes cs). set (aids c)" and ?n = "of_nat j :: byte"
  let ?step = "(if child_keys keys (length pre) ?n = [] then (Ok out, m)
      else (case nth_opt (map (map_option aid) cs) j of
              None \<Rightarrow> (Panic IndexOutOfBounds, m)
            | Some (Some child) \<Rightarrow> coll child (pre @ [?n]) (child_keys keys (length pre) ?n) out m
            | Some None \<Rightarrow> (Ok (out @ [(pre @ [?n], None)]), m)))"
  have j: "j < 16" using Cons.prems by simp
  have nth: "j < length cs" using j a(2) by simp
  have "\<exists>bs m1. ?step = (Ok (out @ bs), m1)
    \<and> (\<forall>c \<in> set (somes cs). holds E m1 c) \<and> cells_changed ?S m m1 \<and> kids_ok a pre keys [j] bs"
  proof (cases "child_keys keys (length pre) ?n = []")
    case True
    with no_keys_kids_ok [OF True] Cons.prems(1) show ?thesis by (intro exI [of _ "[]"] exI [of _ m]) simp
  next
    case False
    show ?thesis
    proof (cases "cs ! j")
      case None
      with False nth empty_slot_kids_ok [OF a(1,2) j None False] Cons.prems(1) show ?thesis
        by (intro exI [of _ "[(pre @ [?n], None)]"] exI [of _ m]) (simp add: nth_opt_def)
    next
      case (Some c)
      then have kid: "c \<in> set (somes cs)" using j a(2) by (auto simp: in_set_conv_nth)
      then obtain bs m1 where m1: "coll (aid c) (pre @ [?n]) (child_keys keys (length pre) ?n) out m = (Ok (out @ bs), m1)"
        "holds E m1 c" "cells_changed (set (aids c)) m m1" "cut_ok c (pre @ [?n]) (child_keys keys (length pre) ?n) bs"
        using c [OF kid] Cons.prems(1,2) unfolding coll_spec_def by blast
      have "holds E m1 d" if "d \<in> set (somes cs)" for d
        using holds_cells_changed [OF _ m1(3)] distinct_concat_disjoint [OF a(3) kid that] Cons.prems(1) that m1(2)
        by (cases "d = c") auto
      moreover have "cells_changed ?S m m1" by (rule cells_changed_mono [OF m1(3)]) (rule UN_upper [OF kid])
      ultimately show ?thesis
        using False nth Some m1(1) child_kids_ok [OF a(1,2) j Some m1(4) False] by (intro exI [of _ bs] exI [of _ m1]) (simp add: nth_opt_def)
    qed
  qed
  then obtain bs m1 where m1: "?step = (Ok (out @ bs), m1)"
    "\<forall>c \<in> set (somes cs). holds E m1 c" "cells_changed ?S m m1" "kids_ok a pre keys [j] bs" by blast
  have "\<not> scratch_borrowed m1" using Cons.prems(2) cells_changed_scratch [OF m1(3)] by simp
  with Cons.IH [OF m1(2), of "out @ bs"] Cons.prems(3,4) obtain bs' m2 where
    m2: "collect_children coll (map (map_option aid) cs) js pre keys (out @ bs) m1 = (Ok ((out @ bs) @ bs'), m2)"
    "\<forall>c \<in> set (somes cs). holds E m2 c" "cells_changed ?S m1 m2" "kids_ok a pre keys js bs'" by auto
  have "collect_children coll (map (map_option aid) cs) (j # js) pre keys out m = (Ok (out @ bs @ bs'), m2)"
    using m1(1) m2(1) by (simp add: Let_def)
  moreover have "kids_ok a pre keys (j # js) (bs @ bs')" using kids_ok_cons [OF m1(4) m2(4)] Cons.prems(3,4) by simp
  moreover have "cells_changed ?S m m2" by (rule cells_changed_trans [OF m1(3) m2(3)]) simp
  ultimately show ?case using m2(2) by blast
qed (auto simp: kids_ok_def)

lemma collect_branch_spec:
  assumes a: "a = ABranch i cs" "holds E m a" "distinct (aids a)" "\<not> scratch_borrowed m"
    and c: "\<And>c. c \<in> set (akids a) \<Longrightarrow> coll_spec coll c"
  shows "\<exists>bs m'. and_then (collect_children coll (map (map_option aid) cs) [0..<16] pre keys out m) (\<lambda>out' m.
      and_then (all_digests E (drop (length out) out') m) (\<lambda>ok m.
        if \<not> ok then (Ok (take (length out) out' @ [(pre, Some i)]), m)
        else if length out' > length out then (Ok out', m)
        else (Ok (out' @ [(pre, Some i)]), m))) = (Ok (out @ bs), m')
    \<and> holds E m' a \<and> cells_changed (set (aids a)) m m' \<and> cut_ok a pre keys bs \<and> bs \<noteq> []
    \<and> (bs = [(pre, Some (aid a))] \<or> all_digest E a pre bs)"
proof -
  have len: "length cs = 16" using a(1,2) holds_rec [of E m a] by simp
  have kids: "\<forall>c \<in> set (somes cs). holds E m c" "distinct (concat (map aids (somes cs)))"
    using a holds_kid [OF a(2)] distinct_kids [OF a(3)] by simp_all
  have js: "distinct [0..<16]" "set [0..<16] \<subseteq> {..<16 :: nat}" by auto
  have c': "coll_spec coll c" if "c \<in> set (somes cs)" for c using c that a(1) by simp
  obtain bs m1 where m1: "collect_children coll (map (map_option aid) cs) [0..<16] pre keys out m = (Ok (out @ bs), m1)"
    "\<forall>c \<in> set (somes cs). holds E m1 c" "cells_changed (\<Union>c \<in> set (somes cs). set (aids c)) m m1" "kids_ok a pre keys [0..<16] bs"
    using collect_children_spec [OF a(1) len kids(2) c' kids(1) a(4) js, of pre keys out] by blast
  have sub: "cells_changed (set (aids a) - {aid a}) m m1" using m1(3) aids_kids [OF a(3)] a(1) by simp
  then have h1: "holds E m1 a"
    using m1(2) a(1,2) holds_rec [of E m a] holds_rec [of E m1 a] cells_changed_node [OF sub] cells_changed_cell [OF sub, of "aid a"]
    by (simp add: cell_ok_def)
  note cut = kids_ok_cut [OF m1(4) a(1) len]
  have "\<not> scratch_borrowed m1" using a(4) cells_changed_scratch [OF sub] by simp
  from all_digests_spec [OF h1 a(3) this, of bs pre] cut obtain ok m2 where
    m2: "all_digests E bs m1 = (Ok ok, m2)" "holds E m2 a" "cells_changed (set (aids a)) m1 m2" "ok \<longrightarrow> all_digest E a pre bs"
    unfolding cut_ok_def by blast
  have ch: "cells_changed (set (aids a)) m m2" by (rule cells_changed_trans [OF sub m2(3)]) blast
  show ?thesis
  proof (cases "ok \<and> bs \<noteq> []")
    case True
    with m1(1) m2 ch cut show ?thesis by (intro exI [of _ bs] exI [of _ m2]) simp
  next
    case False
    with m1(1) m2 ch cut_ok_here [of a pre keys] a(1) show ?thesis
      by (intro exI [of _ "[(pre, Some (aid a))]"] exI [of _ m2]) auto
  qed
qed

lemma cut_ok_ext:
  assumes "cut_ok c (pre @ p) keys bs" "p \<noteq> []"
  shows "cut_ok (AExt i p c) pre keys bs" "all_digest E c (pre @ p) bs \<Longrightarrow> all_digest E (AExt i p c) pre bs"
proof -
  have "\<exists>q. fst b = pre @ q \<and> bound_at (AExt i p c) q (snd b)" if "b \<in> set bs" for b
    using assms bound_at_ext(1) [OF assms(2)] that unfolding cut_ok_def by fastforce
  moreover have "\<exists>b \<in> set bs. prefix (fst b) k"
    if k: "k \<in> set (map fst keys)" "prefix pre k" "on_path (erase (AExt i p c)) (drop (length pre) k)" for k
  proof -
    obtain r where r: "k = pre @ p @ r" using k(2,3) by (auto simp: prefix_def)
    with k(3) have "prefix (pre @ p) k" "on_path (erase c) (drop (length (pre @ p)) k)" by (auto simp: prefix_def)
    with assms(1) k(1) show ?thesis unfolding cut_ok_def by blast
  qed
  moreover have "keys_below c (pre @ p) keys" if "keys_below (AExt i p c) pre keys"
    using that unfolding keys_below_def by (auto simp: prefix_def)
  ultimately show "cut_ok (AExt i p c) pre keys bs" using assms(1) unfolding cut_ok_def by blast
  show "all_digest E (AExt i p c) pre bs" if "all_digest E c (pre @ p) bs"
    using that bound_at_ext(2) [OF assms(2)] unfolding all_digest_def by fastforce
qed

lemma collect_spec:
  "distinct (aids a) \<Longrightarrow> canon_top (erase a) \<Longrightarrow> length (aids a) \<le> fuel \<Longrightarrow>
   coll_spec (collect_frontier_boundaries fuel E limits) a"
proof (induction a arbitrary: fuel rule: atree_induct)
  case (node a)
  obtain f where f: "fuel = Suc f" using node.prems(3) by (cases fuel) auto
  have can: "canon_top (erase c)" if "c \<in> set (akids a)" for c
    using that node.prems(2) by (cases a) (auto simp: canon_top_def in_set_conv_nth split: option.splits)
  have ih: "coll_spec (collect_frontier_boundaries f E limits) c" if "c \<in> set (akids a)" for c
    using node.IH [OF that distinct_kid [OF node.prems(1) that] can [OF that]] length_kid_aids [OF that] node.prems(3) f by simp
  show ?case
    unfolding coll_spec_def
  proof (intro allI impI; elim conjE)
    fix pre keys out m assume h: "holds E m a" and s: "\<not> scratch_borrowed m"
    obtain m1 where m1: "encoded_subtrie E (aid a) m = (Ok (tree_stream E (erase a)), m1)" "holds E m1 a" "cells_changed (set (aids a)) m m1"
      using encoded_subtrie_spec [OF h node.prems(1) s] by blast
    have s1: "\<not> scratch_borrowed m1" using s cells_changed_scratch [OF m1(3)] by simp
    have nd: "node_at m1 (aid a) = Some (node_of a)" "shape_ok a" using m1(2) holds_rec by blast+
    note cnt = subtree_count_spec [OF m1(2) node.prems(1)]
    let ?over = "over_limit limits (pt_nodes (erase a)) (length (tree_stream E (erase a))) keys"
    let ?goal = "\<lambda>m0. \<exists>bs m'. collect_frontier_boundaries fuel E limits (aid a) pre keys out m = (Ok (out @ bs), m')
      \<and> holds E m' a \<and> cells_changed (set (aids a)) m0 m' \<and> cut_ok a pre keys bs \<and> bs \<noteq> []
      \<and> (bs = [(pre, Some (aid a))] \<or> all_digest E a pre bs)"
    have here: "?goal m1" if "collect_frontier_boundaries fuel E limits (aid a) pre keys out m = (Ok (out @ [(pre, Some (aid a))]), m1)"
      using that m1(2) cut_ok_here by (intro exI [of _ "[(pre, Some (aid a))]"] exI [of _ m1]) simp
    have "?goal m1"
    proof (cases ?over)
      case True
      show ?thesis
      proof (cases a)
        case (ABranch i cs)
        from collect_branch_spec [OF ABranch m1(2) node.prems(1) s1 ih] True ABranch f m1(1) cnt nd show ?thesis by simp
      next
        case (AExt i p c)
        have p: "p \<noteq> []" "prefix_to_nibs (to_encoded_path p False) = p" using node.prems(2) nd(2) AExt by (simp_all add: canon_top_def)
        have kid: "c \<in> set (akids a)" using AExt by simp
        obtain bs m2 where m2: "collect_frontier_boundaries f E limits (aid c) (pre @ p) keys out m1 = (Ok (out @ bs), m2)"
          "holds E m2 c" "cells_changed (set (aids c)) m1 m2" "cut_ok c (pre @ p) keys bs" "bs \<noteq> []"
          using ih [OF kid] holds_kid [OF m1(2) kid] s1 unfolding coll_spec_def by blast
        note sub = asubs_kid [OF kid, THEN subsetD, OF asubs_self]
        have h2: "holds E m2 a" by (rule holds_below [OF m1(2) node.prems(1) sub m2(2,3)])
        have ch2: "cells_changed (set (aids a)) m1 m2" by (rule cells_changed_mono [OF m2(3) asubs_aids [OF sub]])
        have s2: "\<not> scratch_borrowed m2" using s1 cells_changed_scratch [OF ch2] by simp
        note cut = cut_ok_ext(1) [OF m2(4) p(1), of i, folded AExt]
        from all_digests_spec [OF h2 node.prems(1) s2, of bs pre] cut obtain ok m3 where
          m3: "all_digests E bs m2 = (Ok ok, m3)" "holds E m3 a" "cells_changed (set (aids a)) m2 m3" "ok \<longrightarrow> all_digest E a pre bs"
          unfolding cut_ok_def by blast
        have ch: "cells_changed (set (aids a)) m1 m3" by (rule cells_changed_trans [OF ch2 m3(3)]) simp
        have run: "collect_frontier_boundaries fuel E limits (aid a) pre keys out m =
            (Ok (out @ (if ok then bs else [(pre, Some (aid a))])), m3)"
          using True AExt f m1(1) cnt nd p m2(1,5) m3(1) by simp
        show ?thesis
          using run m3 ch cut m2(5) cut_ok_here [of a pre keys]
          by (intro exI [of _ "if ok then bs else [(pre, Some (aid a))]"] exI [of _ m3]) auto
      qed (rule here, use True f m1(1) cnt nd in simp)+
    next
      case False
      then show ?thesis using f m1(1) cnt by (intro here) simp
    qed
    then show "?goal m" using cells_changed_trans [OF m1(3)] by (metis Un_absorb order_refl)
  qed
qed

end

end
