(* ===== verification/Frontier_Build.thy ===== *)
theory Frontier_Build
  imports Frontier_Collect
begin

text \<open>
  The frontier the host builds. Every chunk is the subtree at its prefix, the chunks lie side by side, and the
  frontier, with the chunks replaced by their digests, keeps the root hash of the trie.
\<close>

section \<open>Replacing a subtree by its digest\<close>

lemma put_at_same: "sub_at t p = Some G \<Longrightarrow> put_at t p G = t"
proof (induction t p rule: sub_at.induct)
  case (2 cs h k)
  then show ?case by (auto simp: list_update_same_conv split: option.splits if_splits)
qed (auto split: if_splits)

lemma sub_at_put_at_parallel:
  "sub_at t p \<noteq> None \<Longrightarrow> parallel p q \<Longrightarrow> sub_at (put_at t p X) q = sub_at t q"
proof (induction t p arbitrary: q rule: sub_at.induct)
  case (2 cs h k)
  obtain h' k' where q: "q = h' # k'" using 2(3) by (cases q) auto
  show ?case
  proof (cases "h' = h")
    case True
    with 2(3) q have par: "parallel k k'" by (simp add: parallel_def)
    with 2(1,2) True q show ?thesis by (cases "cs ! unat h") (auto split: if_splits)
  next
    case False
    with q 2(2) show ?thesis by (cases "cs ! unat h") (auto simp: word_unat_eq_iff split: if_splits)
  qed
next
  case (3 p c h k)
  obtain s where s: "h # k = p @ s" "sub_at c s \<noteq> None" using 3(2) by (auto simp: prefix_def split: if_splits)
  have q: "q \<noteq> []" using 3(3) by auto
  show ?case
  proof (cases "prefix p q")
    case True
    then obtain s' where s': "q = p @ s'" by (auto simp: prefix_def)
    with 3(3) s(1) have "parallel s s'" by (simp add: parallel_def)
    with 3(1) [of s'] s s' have "sub_at (put_at c s X) s' = sub_at c s'" by simp
    moreover have "p @ s \<noteq> []" "p @ s' \<noteq> []" using s(1) s' q by (metis list.distinct(1), simp)
    ultimately show ?thesis unfolding s(1) s' by (simp add: sub_at_Ext put_at_Ext del: append_is_Nil_conv)
  next
    case False
    with q show ?thesis by (simp add: sub_at_Ext)
  qed
qed auto

lemma pt_replace_null: "sub_at t p = Some PNull \<Longrightarrow> pt_replace E t p (EMPTY_ROOT_HASH E) (EMPTY_ROOT_HASH E) = Ok t"
proof (induction t p rule: sub_at.induct)
  case (2 cs h k)
  then show ?case by (auto simp: list_update_same_conv split: option.splits if_splits)
qed (auto simp: root_hash_def pt_slot_def split: if_splits)

lemma pt_replace_digest:
  "sub_at t p = Some G \<Longrightarrow> G \<noteq> PNull \<Longrightarrow> root_hash E G \<noteq> EMPTY_ROOT_HASH E \<Longrightarrow>
   pt_replace E t p (root_hash E G) (root_hash E G) = Ok (put_at t p (PDigest (root_hash E G)))"
proof (induction t p rule: sub_at.induct)
  case (2 cs h k)
  then show ?case by (auto split: option.splits if_splits)
qed (auto simp: pt_slot_def split: if_splits)

lemma sub_at_nibbles: "canon_top t \<Longrightarrow> sub_at t p \<noteq> None \<Longrightarrow> nibbles p"
proof (induction t p rule: sub_at.induct)
  case (2 cs h k)
  have h: "unat h < 16" "length cs = 16" using 2(2,3) by (auto simp: canon_top_def split: if_splits)
  show ?case
  proof (cases "cs ! unat h")
    case None
    with 2(3) h show ?thesis by (auto split: if_splits)
  next
    case (Some c)
    then have "canon_top c" using 2(2) canon_child [of cs "unat h" c] h by (simp add: canon_top_def)
    with 2(1) [OF _ Some] 2(3) Some h show ?thesis by simp
  qed
next
  case (3 p c h k)
  then obtain s where s: "h # k = p @ s" "sub_at c s \<noteq> None" by (auto simp: prefix_def split: if_splits)
  have "canon_top c" "nibbles p" using 3(2) by (auto simp: canon_top_def)
  with 3(1) s have "nibbles s" by simp
  with \<open>nibbles p\<close> show ?case unfolding s(1) by simp
qed auto

lemma sub_at_canon: "canon_top t \<Longrightarrow> sub_at t p = Some G \<Longrightarrow> canon_top G"
proof (induction t p rule: sub_at.induct)
  case (2 cs h k)
  show ?case
  proof (cases "cs ! unat h")
    case None
    with 2(3) show ?thesis by (auto simp: canon_top_def split: if_splits)
  next
    case (Some c)
    have h: "unat h < 16" "length cs = 16" using 2(2,3) by (auto simp: canon_top_def split: if_splits)
    with Some have "canon_top c" using 2(2) canon_child [of cs "unat h" c] by (simp add: canon_top_def)
    with 2(1) [OF _ Some] 2(3) Some h show ?thesis by simp
  qed
next
  case (3 p c h k)
  then show ?case by (auto simp: canon_top_def split: if_splits)
qed auto

text \<open>No subtree hashes to the root of the empty trie.\<close>

definition no_empty_root :: "ext \<Rightarrow> ptree \<Rightarrow> bool" where
  "no_empty_root E t \<longleftrightarrow> (\<forall>p G. sub_at t p = Some G \<and> G \<noteq> PNull \<longrightarrow> root_hash E G \<noteq> EMPTY_ROOT_HASH E)"

section \<open>The chunks\<close>

definition chunk_of :: "ext \<Rightarrow> ptree \<Rightarrow> nibs \<Rightarrow> frontier_chunk \<Rightarrow> bool" where
  "chunk_of E t p c \<longleftrightarrow> chunk_prefix c = p \<and> (\<exists>G. sub_at t p = Some G \<and> chunk_expected_root c = root_hash E G
     \<and> chunk_num_nodes c = pt_nodes G \<and> chunk_bytes c = tree_stream E G)"

text \<open>A boundary at a place that is referenced by a digest, an empty slot, or the whole trie.\<close>

definition cut_at :: "ext \<Rightarrow> atree \<Rightarrow> nibs \<times> node_id option \<Rightarrow> bool" where
  "cut_at E a b \<longleftrightarrow> bound_at a (fst b) (snd b) \<and> (digest_at E a (fst b) (snd b) \<or> b = ([], Some (aid a)))"

context rlp_laws
begin

lemma chunk_data_spec:
  assumes h: "holds E m a" "distinct (aids a)" "\<not> scratch_borrowed m" "root_id m = aid a" and b: "cut_at E a (p, n)"
  shows "\<exists>m' G. sub_at (erase a) p = Some G \<and> chunk_data E n m = (Ok (root_hash E G, pt_nodes G, tree_stream E G), m')
    \<and> holds E m' a \<and> cells_changed (set (aids a)) m m' \<and> (p = [] \<or> G = PNull \<or> (\<exists>d. tree_ref E G = RefDigest d))"
proof (cases n)
  case None
  then have "sub_at (erase a) p = Some PNull" using b by (simp add: cut_at_def bound_at_def)
  moreover have "replicate 3 (0 :: byte) = [0, 0, 0]" by code_simp
  then have "tree_stream E PNull = [EMPTY_STRING_CODE E, 0, 0, 0]"
    by (simp add: tree_stream_code pad4_def padding_len_def MIN_ALIGN_def)
  ultimately show ?thesis using None h(1) by (auto simp: chunk_data_def root_hash_def pt_nodes_code)
next
  case (Some i)
  obtain s where s: "reaches a p s" "aid s = i" "(\<exists>d. tree_ref E (erase s) = RefDigest d) \<or> p = [] \<and> i = aid a"
    using b Some by (auto simp: cut_at_def digest_at_def bound_at_def)
  note sub = reaches_asubs [OF s(1)]
  note d = asubs_distinct [OF sub h(2)]
  obtain m1 where m1: "ref_is_digest E i m = (Ok (\<exists>d. tree_ref E (erase s) = RefDigest d), m1)" "holds E m1 s" "cells_changed (set (aids s)) m m1"
    using ref_is_digest_spec [OF asubs_holds [OF h(1) sub] d h(3)] s(2) by blast
  have b1: "\<not> scratch_borrowed m1" "root_id m1 = aid a" using h(3,4) m1(3) by (simp_all add: cells_changed_def)
  obtain m2 where m2: "subtree_hash E i m1 = (Ok (root_hash E (erase s)), m2)" "holds E m2 s" "cells_changed (set (aids s) - {aid s}) m1 m2"
    using subtree_hash_spec [OF m1(2) d b1(1)] s(2) by blast
  have b2: "\<not> scratch_borrowed m2" using b1 m2(3) by (simp add: cells_changed_def)
  obtain m3 where m3: "encoded_subtrie E i m2 = (Ok (tree_stream E (erase s)), m3)" "holds E m3 s" "cells_changed (set (aids s)) m2 m3"
    using encoded_subtrie_spec [OF m2(2) d b2] s(2) by blast
  have ch: "cells_changed (set (aids s)) m m3"
    by (rule cells_changed_trans [OF cells_changed_trans [OF m1(3) m2(3) order_refl] m3(3)]) auto
  have "chunk_data E n m = (Ok (root_hash E (erase s), pt_nodes (erase s), tree_stream E (erase s)), m3)"
    using Some m1(1) m2(1) m3(1) subtree_count_spec [OF m2(2) d] s(2,3) b1(2) by (auto simp: chunk_data_def)
  moreover have "holds E m3 a" by (rule holds_below [OF h(1,2) sub m3(2) ch])
  ultimately show ?thesis
    using reaches_sub_at [OF s(1)] cells_changed_mono [OF ch asubs_aids [OF sub]] s(3) by blast
qed

text \<open>One step on the frontier.\<close>

lemma replace_step:
  assumes fr: "stores_tree E fr f" "length (nodes fr) < 2 ^ 32" "blinds E f t"
    and t: "canon_top t" "no_empty_root E t" "sub_at t p = Some G" "sub_at f p = Some G"
    and G: "G = PNull \<or> (\<exists>d. tree_ref E G = RefDigest d)"
  shows "\<exists>fr' f'. replace_frontier_slot E p (root_hash E G) (root_hash E G) fr = (Ok (), fr') \<and> stores_tree E fr' f'
    \<and> length (nodes fr') < 2 ^ 32 \<and> blinds E f' t \<and> (\<forall>q. parallel p q \<longrightarrow> sub_at f' q = sub_at f q)
    \<and> (\<exists>s. sub_at f' p = Some s \<and> root_hash E s = root_hash E G)
    \<and> (\<forall>k. \<not> prefix p k \<longrightarrow> pt_get f' k = pt_get f k)"
proof -
  let ?n = "root_hash E G"
  have p: "nibbles p" using sub_at_nibbles [OF t(1)] t(3) by simp
  have len: "length ?n = 32" using root_hash_length [OF canon_top_digests_ok [OF sub_at_canon [OF t(1,3)]]] .
  have "\<exists>f'. pt_replace E f p ?n ?n = Ok f' \<and> blinds E f' t \<and> (\<forall>q. parallel p q \<longrightarrow> sub_at f' q = sub_at f q)
    \<and> (\<exists>s. sub_at f' p = Some s \<and> root_hash E s = ?n) \<and> (\<forall>k. \<not> prefix p k \<longrightarrow> pt_get f' k = pt_get f k)"
  proof (cases "G = PNull")
    case True
    then show ?thesis using pt_replace_null [of f p E] t(4) fr(3) by (simp add: root_hash_def)
  next
    case False
    then obtain d where d: "tree_ref E G = RefDigest d" using G by blast
    then have n: "?n = d" "?n \<noteq> EMPTY_ROOT_HASH E"
      using False t(2,3) unfolding no_empty_root_def by (simp add: root_hash_def, blast)
    note run = pt_replace_digest [OF t(4) False n(2)]
    have "blinds E (put_at f p (PDigest ?n)) (put_at t p G)" by (rule pt_replace_blinds [OF fr(3) run t(3)]) (use d n in simp_all)
    moreover have "sub_at (put_at f p (PDigest ?n)) p = Some (PDigest ?n)" using sub_at_put_at [of f p] t(4) by auto
    ultimately show ?thesis
      using run put_at_same [OF t(3)] sub_at_put_at_parallel [of f p] t(4) pt_get_put_at [OF t(4)] by (simp add: root_hash_def)
  qed
  then obtain f' where f': "pt_replace E f p ?n ?n = Ok f'" "blinds E f' t" "\<forall>q. parallel p q \<longrightarrow> sub_at f' q = sub_at f q"
    "\<exists>s. sub_at f' p = Some s \<and> root_hash E s = ?n" "\<forall>k. \<not> prefix p k \<longrightarrow> pt_get f' k = pt_get f k" by blast
  with replace_stores [OF fr(1) p len fr(2), of ?n] obtain fr' where fr': "replace_frontier_slot E p ?n ?n fr = (Ok (), fr')" "stores_tree E fr' f'"
    by auto
  have "length (nodes fr') < 2 ^ 32" using replaced_slot [OF fr(1) p len fr(2) fr'(1)] fr(2) by auto
  with f' fr' show ?thesis by blast
qed

lemma build_chunks_spec:
  assumes "holds E m a" "distinct (aids a)" "\<not> scratch_borrowed m" "root_id m = aid a"
    and "canon_top (erase a)" "no_empty_root E (erase a)"
    and "stores_tree E fr f" "length (nodes fr) < 2 ^ 32" "blinds E f (erase a)"
    and "\<forall>b \<in> set bs. cut_at E a b \<and> digest_at E a (fst b) (snd b) \<and> sub_at f (fst b) = sub_at (erase a) (fst b)"
    and "sorted_wrt (\<lambda>b c. parallel (fst b) (fst c)) bs"
  shows "\<exists>cs m' fr' f'. build_chunks E bs (m, fr) = (Ok cs, (m', fr')) \<and> list_all2 (\<lambda>b. chunk_of E (erase a) (fst b)) bs cs
    \<and> holds E m' a \<and> cells_changed (set (aids a)) m m' \<and> stores_tree E fr' f' \<and> length (nodes fr') < 2 ^ 32
    \<and> blinds E f' (erase a)
    \<and> (\<forall>q. (\<forall>b \<in> set bs. parallel (fst b) q) \<longrightarrow> sub_at f' q = sub_at f q)
    \<and> (\<forall>c \<in> set cs. \<exists>s. sub_at f' (chunk_prefix c) = Some s \<and> root_hash E s = chunk_expected_root c)
    \<and> (\<forall>k. (\<forall>b \<in> set bs. \<not> prefix (fst b) k) \<longrightarrow> pt_get f' k = pt_get f k)"
  using assms
proof (induction bs arbitrary: m fr f)
  case (Cons b bs)
  note p = Cons.prems
  have b: "cut_at E a (fst b, snd b)" "digest_at E a (fst b) (snd b)" "sub_at f (fst b) = sub_at (erase a) (fst b)" using p(10) by auto
  obtain m1 G where m1: "sub_at (erase a) (fst b) = Some G" "chunk_data E (snd b) m = (Ok (root_hash E G, pt_nodes G, tree_stream E G), m1)"
    "holds E m1 a" "cells_changed (set (aids a)) m m1" using chunk_data_spec [OF p(1-4) b(1)] by blast
  have G: "G = PNull \<or> (\<exists>d. tree_ref E G = RefDigest d)"
  proof (cases "snd b")
    case None
    with b(1) m1(1) show ?thesis by (simp add: cut_at_def bound_at_def)
  next
    case (Some i)
    then obtain s d where "reaches a (fst b) s" "tree_ref E (erase s) = RefDigest d" using b(2) by (auto simp: digest_at_def)
    with reaches_sub_at m1(1) show ?thesis by fastforce
  qed
  obtain fr1 f1 where f1: "replace_frontier_slot E (fst b) (root_hash E G) (root_hash E G) fr = (Ok (), fr1)" "stores_tree E fr1 f1"
    "length (nodes fr1) < 2 ^ 32" "blinds E f1 (erase a)" "\<forall>q. parallel (fst b) q \<longrightarrow> sub_at f1 q = sub_at f q"
    "\<exists>s. sub_at f1 (fst b) = Some s \<and> root_hash E s = root_hash E G" "\<forall>k. \<not> prefix (fst b) k \<longrightarrow> pt_get f1 k = pt_get f k"
    using replace_step [OF p(7-9,5,6) m1(1) _ G] b(3) m1(1) by auto
  have b1: "\<not> scratch_borrowed m1" "root_id m1 = aid a" using p(3,4) m1(4) by (simp_all add: cells_changed_def)
  have rest: "\<forall>b \<in> set bs. cut_at E a b \<and> digest_at E a (fst b) (snd b) \<and> sub_at f1 (fst b) = sub_at (erase a) (fst b)"
    "sorted_wrt (\<lambda>b c. parallel (fst b) (fst c)) bs" "\<forall>c \<in> set bs. parallel (fst b) (fst c)" using p(10,11) f1(5) by auto
  obtain cs m2 fr2 f2 where m2: "build_chunks E bs (m1, fr1) = (Ok cs, (m2, fr2))" "list_all2 (\<lambda>b. chunk_of E (erase a) (fst b)) bs cs"
    "holds E m2 a" "cells_changed (set (aids a)) m1 m2" "stores_tree E fr2 f2" "length (nodes fr2) < 2 ^ 32" "blinds E f2 (erase a)"
    "\<forall>q. (\<forall>b \<in> set bs. parallel (fst b) q) \<longrightarrow> sub_at f2 q = sub_at f1 q"
    "\<forall>c \<in> set cs. \<exists>s. sub_at f2 (chunk_prefix c) = Some s \<and> root_hash E s = chunk_expected_root c"
    "\<forall>k. (\<forall>b \<in> set bs. \<not> prefix (fst b) k) \<longrightarrow> pt_get f2 k = pt_get f1 k"
    using Cons.IH [OF m1(3) p(2) b1 p(5,6) f1(2-4) rest(1,2)] by blast
  let ?c = "\<lparr>chunk_prefix = fst b, chunk_expected_root = root_hash E G, chunk_num_nodes = pt_nodes G, chunk_bytes = tree_stream E G\<rparr>"
  have run: "build_chunks E (b # bs) (m, fr) = (Ok (?c # cs), (m2, fr2))" using m1(2) f1(1) m2(1) by simp
  have "chunk_of E (erase a) (fst b) ?c" using m1(1) by (simp add: chunk_of_def)
  moreover have "sub_at f2 (fst b) = sub_at f1 (fst b)" using m2(8) rest(3) by (simp add: parallel_commute)
  moreover have "cells_changed (set (aids a)) m m2" by (rule cells_changed_trans [OF m1(4) m2(4)]) simp
  ultimately show ?case
    using run m2 f1(5-7) by (intro exI [of _ "?c # cs"] exI [of _ m2] exI [of _ fr2] exI [of _ f2]) simp
qed auto

text \<open>All boundaries at once: the chunks and the tree that the frontier stores.\<close>

lemma cut_chunks:
  assumes a: "stores E m a" "canon_top (erase a)" "no_empty_root E (erase a)" "length (nodes m) < 2 ^ 32"
    and bs: "\<forall>b \<in> set bs. cut_at E a b" "sorted_wrt (\<lambda>b c. parallel (fst b) (fst c)) bs"
      "bs = [([], Some (aid a))] \<or> (\<forall>b \<in> set bs. digest_at E a (fst b) (snd b))"
  shows "\<exists>cs m' fr f. build_chunks E bs (m, m) = (Ok cs, (m', fr)) \<and> list_all2 (\<lambda>b. chunk_of E (erase a) (fst b)) bs cs
    \<and> holds E m' a \<and> cells_changed (set (aids a)) m m' \<and> repr_tree E fr f \<and> length (nodes fr) < 2 ^ 32
    \<and> root_hash E f = root_hash E (erase a)
    \<and> (\<forall>c \<in> set cs. \<exists>s. sub_at f (chunk_prefix c) = Some s \<and> root_hash E s = chunk_expected_root c)
    \<and> (\<forall>k. (\<forall>b \<in> set bs. \<not> prefix (fst b) k) \<longrightarrow> pt_get f k = pt_get (erase a) k)
    \<and> (erase a = PNull \<or> (\<exists>d. tree_ref E (erase a) = RefDigest d) \<longrightarrow> blinds E f (erase a))"
proof -
  note s = storesD [OF a(1)]
  have st: "stores_tree E m (erase a)" using a(1) by (auto simp: stores_tree_def)
  let ?t = "erase a" and ?n = "root_hash E (erase a)"
  show ?thesis
  proof (cases "\<forall>b \<in> set bs. digest_at E a (fst b) (snd b)")
    case True
    obtain cs m' fr f where r: "build_chunks E bs (m, m) = (Ok cs, (m', fr))" "list_all2 (\<lambda>b. chunk_of E ?t (fst b)) bs cs"
      "holds E m' a" "cells_changed (set (aids a)) m m'" "stores_tree E fr f" "length (nodes fr) < 2 ^ 32" "blinds E f ?t"
      "\<forall>c \<in> set cs. \<exists>s. sub_at f (chunk_prefix c) = Some s \<and> root_hash E s = chunk_expected_root c"
      "\<forall>k. (\<forall>b \<in> set bs. \<not> prefix (fst b) k) \<longrightarrow> pt_get f k = pt_get (erase a) k"
      using build_chunks_spec [OF s(1,2,4,3) a(2,3) st a(4) blinds.same _ bs(2)] True bs(1) by blast
    have "canon_top f"
    proof (cases "?t = PNull")
      case False
      obtain b where b: "holds E fr b" "erase b = f" using r(5) by (auto simp: stores_tree_def stores_def)
      then have "canon f" using blinds_canon [OF r(7) _ holds_digests_ok [OF b(1), unfolded b(2)]] False a(2) by (simp add: canon_top_def)
      then show ?thesis by (simp add: canon_top_def)
    qed (use blinds_Null [OF r(7)] in \<open>simp add: canon_top_def\<close>)
    with r repr_stores blinds_root_hash [OF r(7)] show ?thesis by blast
  next
    case False
    then have one: "bs = [([], Some (aid a))]" using bs(3) by blast
    then obtain m1 where m1: "chunk_data E (Some (aid a)) m = (Ok (?n, pt_nodes ?t, tree_stream E ?t), m1)" "holds E m1 a"
      "cells_changed (set (aids a)) m m1" using chunk_data_spec [OF s(1,2,4,3), of "[]" "Some (aid a)"] bs(1) by auto
    have len: "length ?n = 32" using root_hash_length [OF canon_top_digests_ok [OF a(2)]] .
    have "pt_replace E ?t [] ?n ?n = Ok (pt_slot E ?n)" by simp
    with replace_stores [OF st _ len a(4), of "[]" ?n] obtain fr where
      fr: "replace_frontier_slot E [] ?n ?n m = (Ok (), fr)" "stores_tree E fr (pt_slot E ?n)" by auto
    have "length (nodes fr) < 2 ^ 32" using replaced_slot [OF st _ len a(4) fr(1)] a(4) by auto
    moreover have "root_hash E (pt_slot E ?n) = ?n" by (simp add: pt_slot_def root_hash_def)
    moreover have "canon_top (pt_slot E ?n)" using len by (simp add: pt_slot_def canon_top_def)
    moreover have "blinds E (pt_slot E ?n) ?t" if "?t = PNull \<or> (\<exists>d. tree_ref E ?t = RefDigest d)"
      using that
    proof
      assume "\<exists>d. tree_ref E ?t = RefDigest d"
      then obtain d where d: "tree_ref E ?t = RefDigest d" by blast
      then have "?t \<noteq> PNull" by auto
      moreover have "sub_at ?t [] = Some ?t" by simp
      ultimately have "?n \<noteq> EMPTY_ROOT_HASH E" using a(3) unfolding no_empty_root_def by blast
      with d \<open>?t \<noteq> PNull\<close> show ?thesis using blinds.digest [OF d] by (simp add: pt_slot_def root_hash_def)
    qed (simp add: root_hash_def pt_slot_def blinds.same)
    ultimately show ?thesis
      using one m1 fr repr_stores by (intro exI [of _ "[\<lparr>chunk_prefix = [], chunk_expected_root = ?n, chunk_num_nodes = pt_nodes ?t,
          chunk_bytes = tree_stream E ?t\<rparr>]"] exI [of _ m1] exI [of _ fr] exI [of _ "pt_slot E ?n"]) (simp add: chunk_of_def)
  qed
qed

end

section \<open>Keys\<close>

lemma dedup_keys_fst: "set (map fst (dedup_keys ks)) = set (map fst ks)"
  by (induction ks rule: dedup_keys.induct) auto

lemma frontier_keys_fst: "set (map fst (frontier_keys keys)) = to_nibs ` set (map fst keys)"
  unfolding frontier_keys_def dedup_keys_fst by force

lemma frontier_keys_Nil: "frontier_keys keys = [] \<longleftrightarrow> keys = []"
  using frontier_keys_fst [of keys] by (metis image_is_empty list.map_disc_iff set_empty)

lemma parallel_pairwise:
  "sorted_wrt (\<lambda>b c. parallel (fst b) (fst c)) bs \<longleftrightarrow> distinct bs \<and> (\<forall>b \<in> set bs. \<forall>c \<in> set bs. b \<noteq> c \<longrightarrow> parallel (fst b) (fst c))"
  by (induction bs) (auto simp: parallel_commute)

lemma parallel_sort: "sorted_wrt (\<lambda>b c. parallel (fst b) (fst c)) bs \<Longrightarrow> sorted_wrt (\<lambda>b c. parallel (fst b) (fst c)) (sort_key f bs)"
  unfolding parallel_pairwise by simp

end
