(* ===== verification/Frontier_Partition.thy ===== *)
theory Frontier_Partition
  imports Frontier_Build Host_Hints Witness_Properties
begin

text \<open>The partition of a trie into a frontier and chunks, as the host uses it.\<close>

lemma list_all2_chunks:
  assumes "list_all2 (\<lambda>b. chunk_of E t (fst b)) bs cs"
  shows "map chunk_prefix cs = map fst bs" "\<forall>c \<in> set cs. chunk_of E t (chunk_prefix c) c"
  using assms by (induction rule: list_all2_induct) (auto simp: chunk_of_def)

definition partition_ok :: "ext \<Rightarrow> ptree \<Rightarrow> (bytes \<times> nat) list \<Rightarrow> mpt_frontier \<Rightarrow> ptree \<Rightarrow> bool" where
  "partition_ok E t keys fr f \<longleftrightarrow>
     canon_top f \<and> root_hash E f = root_hash E t \<and> frontier_bytes fr = tree_stream E f \<and> pt_nodes f < 2 ^ 32
     \<and> (\<forall>c \<in> set (frontier_chunks fr). chunk_of E t (chunk_prefix c) c
          \<and> (\<exists>s. sub_at f (chunk_prefix c) = Some s \<and> root_hash E s = chunk_expected_root c))
     \<and> sorted (map chunk_prefix (frontier_chunks fr)) \<and> sorted_wrt parallel (map chunk_prefix (frontier_chunks fr))
     \<and> (\<forall>k. (\<forall>c \<in> set (frontier_chunks fr). \<not> prefix (chunk_prefix c) k) \<longrightarrow> pt_get f k = pt_get t k)
     \<and> (t = PNull \<or> (\<exists>d. tree_ref E t = RefDigest d) \<longrightarrow> blinds E f t)
     \<and> (\<forall>key \<in> set (map fst keys). on_path t (to_nibs key) \<longrightarrow>
          (\<exists>c \<in> set (frontier_chunks fr). prefix (chunk_prefix c) (to_nibs key)))
     \<and> ((\<forall>key \<in> set (map fst keys). on_path t (to_nibs key)) \<longrightarrow>
          (\<forall>c \<in> set (frontier_chunks fr). \<exists>key \<in> set (map fst keys). prefix (chunk_prefix c) (to_nibs key)))"

lemma partition_okD:
  assumes "partition_ok E t keys fr f"
  shows "root_hash E f = root_hash E t" "sorted (map chunk_prefix (frontier_chunks fr))"
    "sorted_wrt parallel (map chunk_prefix (frontier_chunks fr))"
    "key \<in> set (map fst keys) \<Longrightarrow> on_path t (to_nibs key) \<Longrightarrow>
       \<exists>c \<in> set (frontier_chunks fr). prefix (chunk_prefix c) (to_nibs key)"
    "\<forall>key \<in> set (map fst keys). on_path t (to_nibs key) \<Longrightarrow> c \<in> set (frontier_chunks fr) \<Longrightarrow>
       \<exists>key \<in> set (map fst keys). prefix (chunk_prefix c) (to_nibs key)"
    "(\<And>c. c \<in> set (frontier_chunks fr) \<Longrightarrow> \<not> prefix (chunk_prefix c) k) \<Longrightarrow> pt_get f k = pt_get t k"
    "t = PNull \<or> (\<exists>d. tree_ref E t = RefDigest d) \<Longrightarrow> blinds E f t"
  using assms by (auto simp: partition_ok_def)

lemma partition_ok_chunk:
  assumes "partition_ok E t keys fr f" "c \<in> set (frontier_chunks fr)"
  shows "\<exists>G s. sub_at t (chunk_prefix c) = Some G \<and> chunk_bytes c = tree_stream E G
    \<and> chunk_expected_root c = root_hash E G \<and> chunk_num_nodes c = pt_nodes G
    \<and> sub_at f (chunk_prefix c) = Some s \<and> root_hash E s = chunk_expected_root c"
  using assms by (auto simp: partition_ok_def chunk_of_def)

context rlp_laws
begin

lemma boundaries_found:
  assumes a: "stores E m a" "canon_top (erase a)"
  shows "\<exists>bs m'. collect_frontier_boundaries (hash_fuel m) E limits (root_id m) [] ks [] m = (Ok bs, m') \<and> stores E m' a
    \<and> nodes m' = nodes m \<and> cut_ok a [] ks bs \<and> (\<forall>b \<in> set bs. cut_at E a b)
    \<and> (bs = [([], Some (aid a))] \<or> (\<forall>b \<in> set bs. digest_at E a (fst b) (snd b)))"
proof -
  note s = storesD [OF a(1)]
  have "coll_spec (collect_frontier_boundaries (hash_fuel m) E limits) a"
    using collect_spec [OF s(2) a(2)] length_aids_le [OF s(1,2)] by (simp add: hash_fuel_def)
  then obtain bs m' where r: "collect_frontier_boundaries (hash_fuel m) E limits (aid a) [] ks [] m = (Ok ([] @ bs), m')"
    "holds E m' a" "cells_changed (set (aids a)) m m'" "cut_ok a [] ks bs" "bs = [([], Some (aid a))] \<or> all_digest E a [] bs"
    using s(1,4) unfolding coll_spec_def by blast
  have dig: "bs = [([], Some (aid a))] \<or> (\<forall>b \<in> set bs. digest_at E a (fst b) (snd b))"
    using r(5) by (auto simp: all_digest_def)
  moreover have "cut_at E a b" if "b \<in> set bs" for b
    using dig r(4) that by (auto simp: cut_at_def cut_ok_def)
  moreover have "stores E m' a" using a(1) r(2,3) by (auto simp: stores_def cells_changed_def)
  ultimately show ?thesis using r s(3) by (auto simp: cells_changed_def)
qed

lemma built_frontier:
  assumes m: "repr_tree E m t" "length (nodes m) < 2 ^ 32" and t: "no_empty_root E t"
  shows "\<exists>fr m' f. build_frontier_weighted E keys limits m = (Ok fr, m') \<and> repr_tree E m' t \<and> partition_ok E t keys fr f"
proof -
  obtain a where a: "stores E m a" "erase a = t" "canon_top t" using m(1) by (auto simp: repr_stores stores_tree_def)
  let ?ks = "frontier_keys keys"
  show ?thesis
  proof (cases "keys = []")
    case True
    obtain m' where "encode_trie E m = (Ok (tree_stream E t), m')" "repr_tree E m' t" using encode_trie_repr [OF m(1)] by blast
    moreover have "pt_nodes t < 2 ^ 32" using repr_nodes_le [OF m(1)] m(2) by simp
    ultimately show ?thesis using True a(3) frontier_keys_Nil [of keys]
      by (auto simp: build_frontier_weighted_def partition_ok_def blinds.same)
  next
    case False
    then have ks: "?ks \<noteq> []" using frontier_keys_Nil by blast
    obtain bs m1 where bs: "collect_frontier_boundaries (hash_fuel m) E limits (root_id m) [] ?ks [] m = (Ok bs, m1)" "stores E m1 a"
      "nodes m1 = nodes m" "cut_ok a [] ?ks bs" "\<forall>b \<in> set bs. cut_at E a b"
      "bs = [([], Some (aid a))] \<or> (\<forall>b \<in> set bs. digest_at E a (fst b) (snd b))"
      using boundaries_found [OF a(1)] a(2,3) by blast
    let ?bs = "sort_key fst bs"
    have sorted: "sorted_wrt (\<lambda>b c. parallel (fst b) (fst c)) ?bs" using bs(4) by (intro parallel_sort) (simp add: cut_ok_def)
    have one: "?bs = [([], Some (aid a))] \<or> (\<forall>b \<in> set ?bs. digest_at E a (fst b) (snd b))" using bs(6) by auto
    obtain cs m2 fr f where r: "build_chunks E ?bs (m1, m1) = (Ok cs, (m2, fr))" "list_all2 (\<lambda>b. chunk_of E t (fst b)) ?bs cs"
      "holds E m2 a" "cells_changed (set (aids a)) m1 m2" "repr_tree E fr f" "length (nodes fr) < 2 ^ 32" "root_hash E f = root_hash E t"
      "\<forall>c \<in> set cs. \<exists>s. sub_at f (chunk_prefix c) = Some s \<and> root_hash E s = chunk_expected_root c"
      "\<forall>k. (\<forall>b \<in> set ?bs. \<not> prefix (fst b) k) \<longrightarrow> pt_get f k = pt_get t k"
      "t = PNull \<or> (\<exists>d. tree_ref E t = RefDigest d) \<longrightarrow> blinds E f t"
      using cut_chunks [OF bs(2) _ _ _ _ sorted one] a(2,3) t m(2) bs(3,5) by auto
    have "stores E m2 a" using bs(2) r(3,4) by (auto simp: stores_def cells_changed_def)
    then have m2: "repr_tree E m2 t" using a(2,3) by (auto simp: repr_stores stores_tree_def)
    then obtain m3 where m3: "hash E m2 = (Ok (root_hash E t), m3)" "repr_tree E m3 t" using hash_repr by blast
    obtain fr' where enc: "encode_trie E fr = (Ok (tree_stream E f), fr')" using encode_trie_repr [OF r(5)] by blast
    have cnt: "subtree_num_nodes (root_id fr) fr = Ok (pt_nodes f)" by (rule subtree_num_nodes_correct [OF rlp_laws_axioms r(5)])
    let ?fr = "\<lparr>frontier_num_nodes = pt_nodes f, frontier_bytes = tree_stream E f, frontier_chunks = cs\<rparr>"
    have run: "build_frontier_weighted E keys limits m = (Ok ?fr, m3)"
      using ks bs(1) r(1) m3(1) cnt enc by (simp add: build_frontier_weighted_def Let_def)
    note pre = list_all2_chunks [OF r(2)]
    have "\<exists>c \<in> set cs. prefix (chunk_prefix c) (to_nibs key)" if "key \<in> set (map fst keys)" "on_path t (to_nibs key)" for key
    proof -
      have "to_nibs key \<in> set (map fst ?ks)" using that(1) frontier_keys_fst by blast
      moreover have "prefix [] (to_nibs key)" "on_path (erase a) (drop (length []) (to_nibs key))" using that(2) a(2) by simp_all
      ultimately have "\<exists>b \<in> set bs. prefix (fst b) (to_nibs key)" using bs(4) unfolding cut_ok_def by blast
      then obtain p where p: "p \<in> set (map fst ?bs)" "prefix p (to_nibs key)" by auto
      then have "p \<in> set (map chunk_prefix cs)" using pre(1) by simp
      with p(2) show ?thesis by auto
    qed
    moreover have "\<exists>key \<in> set (map fst keys). prefix (chunk_prefix c) (to_nibs key)"
      if all: "\<forall>key \<in> set (map fst keys). on_path t (to_nibs key)" and c: "c \<in> set cs" for c
    proof -
      have "chunk_prefix c \<in> set (map fst ?bs)" using c unfolding pre(1) [symmetric] by simp
      then obtain b where b: "b \<in> set bs" "fst b = chunk_prefix c" by auto
      have "keys_below a [] ?ks" using all a(2) frontier_keys_fst [of keys] unfolding keys_below_def by auto
      with ks bs(4) b(1) obtain k where "k \<in> set (map fst ?ks)" "prefix (fst b) k" unfolding cut_ok_def by blast
      with b(2) frontier_keys_fst [of keys] show ?thesis by auto
    qed
    moreover have "sorted (map chunk_prefix cs)" "sorted_wrt parallel (map chunk_prefix cs)"
      using pre(1) sorted sorted_sort_key [of fst bs] by (simp_all add: sorted_wrt_map)
    moreover have "pt_get f k = pt_get t k" if out: "\<forall>c \<in> set cs. \<not> prefix (chunk_prefix c) k" for k
    proof -
      have "\<forall>p \<in> set (map chunk_prefix cs). \<not> prefix p k" using out by simp
      with r(9) pre(1) show ?thesis by simp
    qed
    moreover have "pt_nodes f < 2 ^ 32" using repr_nodes_le [OF r(5)] r(6) by simp
    ultimately have "partition_ok E t keys ?fr f"
      using r(7,8,10) pre(2) repr_canon [OF r(5)] unfolding partition_ok_def by simp
    with run m3(2) show ?thesis by blast
  qed
qed

end

context rlp_laws
begin

lemma partition_decodes:
  assumes "repr_tree E m t" "partition_ok E t keys fr f" "length (frontier_bytes fr) < 2 ^ 64"
  shows "\<exists>ft rest. decode_trie E (frontier_bytes fr) n = Ok (ft, rest) \<and> repr_tree E ft f \<and> fst (hash E ft) = Ok (root_hash E t)"
proof -
  obtain ft rest where "decode_trie E (tree_stream E f @ []) n = Ok (ft, rest)" "repr_tree E ft f"
    using decode_encode [of f "[]" n] assms(2,3) by (auto simp: partition_ok_def)
  with hash_repr [of ft f] assms(2) show ?thesis by (auto simp: partition_ok_def)
qed

text \<open>The host's check of the frontier always passes.\<close>

lemma checked_frontier_passes:
  assumes m: "repr_tree E m t" "length (nodes m) < 2 ^ 32" "no_empty_root E t"
    and size: "\<And>fr m'. build_frontier_weighted E (modified_accounts order) FRONTIER_LIMITS m = (Ok fr, m') \<Longrightarrow> length (frontier_bytes fr) < 2 ^ 64"
  shows "\<exists>fr m' f m1. checked_frontier E order m = Ok (fr, m') \<and> repr_tree E m' t \<and> partition_ok E t (modified_accounts order) fr f
    \<and> build_frontier_weighted E (modified_accounts order) FRONTIER_LIMITS m = (Ok fr, m1)"
proof -
  obtain fr m1 f where r: "build_frontier_weighted E (modified_accounts order) FRONTIER_LIMITS m = (Ok fr, m1)" "repr_tree E m1 t"
    "partition_ok E t (modified_accounts order) fr f" using built_frontier [OF m] by blast
  obtain m2 where "hash E m1 = (Ok (root_hash E t), m2)" "repr_tree E m2 t" using hash_repr [OF r(2)] by blast
  moreover obtain ft rest where "decode_trie E (frontier_bytes fr) (frontier_num_nodes fr) = Ok (ft, rest)" "fst (hash E ft) = Ok (root_hash E t)"
    using partition_decodes [OF r(2,3) size [OF r(1)]] by blast
  ultimately show ?thesis using r(1,3) by (auto simp: checked_frontier_def)
qed

end

text \<open>
  The condition \<open>on_path\<close> is needed: below an extension at the root, a chunk other than the whole trie never has a key
  that leaves the path of the extension, while the search has sorted this key into one of the chunks.
\<close>

lemma key_off_extension_uncovered:
  assumes "partition_ok E (PExt p c) keys fr f" "\<not> prefix p (to_nibs key)" "ch \<in> set (frontier_chunks fr)" "chunk_prefix ch \<noteq> []"
  shows "\<not> prefix (chunk_prefix ch) (to_nibs key)"
proof
  assume "prefix (chunk_prefix ch) (to_nibs key)"
  moreover have "prefix p (chunk_prefix ch)"
    using assms(1,3,4) by (auto simp: partition_ok_def chunk_of_def sub_at_Ext split: if_splits)
  ultimately show False using assms(2) prefix_order.trans by blast
qed

section \<open>An example\<close>

definition cut_keccak :: "bytes \<Rightarrow> bytes" where
  "cut_keccak bs = replicate 32 (if bs = [0x80] then 3 else 4)"

definition cut_ext :: ext where
  "cut_ext = std_ext\<lparr>keccak256 := cut_keccak, EMPTY_ROOT_HASH := cut_keccak [0x80]\<rparr>"

interpretation cut: rlp_laws cut_ext
  unfolding cut_ext_def by (rule rehashed_laws) (simp add: cut_keccak_def)

lemma sub_at_resolved: "resolved t \<Longrightarrow> sub_at t p = Some G \<Longrightarrow> resolved G"
proof (induction t p rule: sub_at.induct)
  case (2 cs h k)
  then show ?case by (auto split: option.splits if_splits)
qed (auto split: if_splits)

lemma cut_no_empty_root: "resolved t \<Longrightarrow> no_empty_root cut_ext t"
  unfolding no_empty_root_def
proof (intro allI impI; elim conjE)
  fix p G assume "resolved t" "sub_at t p = Some G" and G: "G \<noteq> PNull"
  then have "resolved G" using sub_at_resolved by blast
  with G have list: "is_list_node G" "\<nexists>d. G = PDigest d" by (cases G; simp)+
  have "tree_payload cut_ext G \<noteq> []"
    using list by (cases G) (auto simp: cut_ext_def std_ext_def std_bytes_encode_def to_encoded_path_def split: if_splits)
  then have "tree_rlp cut_ext G \<noteq> [0x80]"
    using tree_rlp_list [OF list(1), of cut_ext]
    by (auto simp: list_rlp_def cut_ext_def std_ext_def std_header_encode_def Cons_eq_append_conv split: if_splits)
  then show "root_hash cut_ext G \<noteq> EMPTY_ROOT_HASH cut_ext"
    using cut.root_hash_keccak [OF list(2)] by (simp add: cut_ext_def cut_keccak_def)
qed

section \<open>Property\<close>

text \<open>
  C21: the host cuts a trie into a frontier and chunks that the client can work with. For all keys and limits
  the construction succeeds on a well-formed trie and leaves the trie as it was. Every chunk is
  the subtree at its prefix: its bytes encode it, its root and node count are those of the subtree. The prefixes
  are in order and none is a prefix of another. The frontier has the root hash of the trie, also after decoding, and at the
  prefix of every chunk a slot with the root of the chunk; outside the chunks it reads as the trie does. A key that does not leave the trie inside the path of an
  extension has a chunk, and when this holds for all keys every chunk has a key. The hypothesis says
  that no subtree hashes to the root of the empty trie.
\<close>

theorem frontier_partitions_trie:
  assumes "rlp_laws E" "repr_tree E m t" "length (nodes m) < 2 ^ 32" "no_empty_root E t"
  shows "\<exists>fr m' f. build_frontier_weighted E keys limits m = (Ok fr, m') \<and> repr_tree E m' t
    \<and> (\<forall>c \<in> set (frontier_chunks fr). \<exists>G s. sub_at t (chunk_prefix c) = Some G \<and> chunk_bytes c = tree_stream E G
          \<and> chunk_expected_root c = root_hash E G \<and> chunk_num_nodes c = pt_nodes G
          \<and> sub_at f (chunk_prefix c) = Some s \<and> root_hash E s = chunk_expected_root c)
    \<and> sorted (map chunk_prefix (frontier_chunks fr)) \<and> sorted_wrt parallel (map chunk_prefix (frontier_chunks fr))
    \<and> root_hash E f = root_hash E t
    \<and> (\<forall>k. (\<forall>c \<in> set (frontier_chunks fr). \<not> prefix (chunk_prefix c) k) \<longrightarrow> pt_get f k = pt_get t k)
    \<and> (length (frontier_bytes fr) < 2 ^ 64 \<longrightarrow> (\<exists>ft rest. decode_trie E (frontier_bytes fr) (frontier_num_nodes fr) = Ok (ft, rest)
          \<and> repr_tree E ft f \<and> fst (hash E ft) = fst (hash E m)))
    \<and> (\<forall>key \<in> set (map fst keys). on_path t (to_nibs key) \<longrightarrow>
          (\<exists>c \<in> set (frontier_chunks fr). prefix (chunk_prefix c) (to_nibs key)))
    \<and> ((\<forall>key \<in> set (map fst keys). on_path t (to_nibs key)) \<longrightarrow>
          (\<forall>c \<in> set (frontier_chunks fr). \<exists>key \<in> set (map fst keys). prefix (chunk_prefix c) (to_nibs key)))"
proof -
  obtain fr m' f where r: "build_frontier_weighted E keys limits m = (Ok fr, m')" "repr_tree E m' t" and p: "partition_ok E t keys fr f"
    using rlp_laws.built_frontier [OF assms] by blast
  have "fst (hash E m) = Ok (root_hash E t)" using rlp_laws.hash_repr [OF assms(1,2)] by auto
  then have dec: "\<exists>ft rest. decode_trie E (frontier_bytes fr) (frontier_num_nodes fr) = Ok (ft, rest)
      \<and> repr_tree E ft f \<and> fst (hash E ft) = fst (hash E m)" if "length (frontier_bytes fr) < 2 ^ 64"
    using rlp_laws.partition_decodes [OF assms(1,2) p that] by simp
  show ?thesis
    by (rule exI [of _ fr], rule exI [of _ m'], rule exI [of _ f])
      (intro conjI allI ballI impI r partition_ok_chunk [OF p] partition_okD [OF p] dec; blast)
qed

theorem frontier_partitions_trie_witness:
  "\<exists>fr m' c. build_frontier_weighted cut_ext [([0x12], 1)] \<lparr>max_nodes = 1, max_bytes = 8, max_keys = 1\<rparr> ex_frontier = (Ok fr, m')
     \<and> c \<in> set (frontier_chunks fr) \<and> prefix (chunk_prefix c) [1, 2]"
proof -
  have "resolved ex_full_tree" by (simp add: ex_full_tree_def ex_chunk_tree_def nth_list_update)
  from frontier_partitions_trie [OF cut.rlp_laws_axioms repr_ex_frontier cut_no_empty_root [OF this],
      of "[([0x12], 1)]" "\<lparr>max_nodes = 1, max_bytes = 8, max_keys = 1\<rparr>"]
  obtain fr m' where r: "build_frontier_weighted cut_ext [([0x12], 1)] \<lparr>max_nodes = 1, max_bytes = 8, max_keys = 1\<rparr> ex_frontier = (Ok fr, m')"
    "on_path ex_full_tree (to_nibs [0x12]) \<longrightarrow> (\<exists>c \<in> set (frontier_chunks fr). prefix (chunk_prefix c) (to_nibs [0x12]))" by auto
  have n: "to_nibs [0x12] = [1, 2]" by code_simp
  moreover have "on_path ex_full_tree [1, 2]" by (simp add: ex_full_tree_def ex_chunk_tree_def)
  ultimately show ?thesis using r by auto
qed

end
