(* ===== verification/Honest_Read.thy ===== *)
theory Honest_Read
  imports Honest_Tree Frontier_Partition
begin

text \<open>
  Reading an honest chunk. The chunk decodes to the subtree it was cut from, the cached accounts below its prefix
  are those of the trie, and the witnesses that follow it are accepted one after the other.
\<close>

section \<open>The chunk\<close>

lemma pt_nodes_kid: "c \<in> set (pkids t) \<Longrightarrow> pt_nodes c < pt_nodes t"
  using member_le_sum_list [of "pt_nodes c" "map pt_nodes (pkids t)"] by (subst (2) pt_nodes.simps) simp

lemma pt_nodes_sub: "s \<in> set (pt_subs t) \<Longrightarrow> pt_nodes s \<le> pt_nodes t"
proof (induction t rule: pt_subs.induct)
  case (1 t)
  from "1.prems" show ?case
  proof (cases rule: pt_subs_cases)
    case (2 c)
    with "1.IH" pt_nodes_kid [of c t] show ?thesis by fastforce
  qed simp
qed

lemma pt_nodes_sub_at: "sub_at t p = Some G \<Longrightarrow> pt_nodes G \<le> pt_nodes t"
  using sub_at_subs [of t p G] pt_nodes_sub [of G t] by (auto simp: pt_nodes_code pt_nodes.simps [of t])

lemma repr_account: "repr_tree E m t \<Longrightarrow> get_rlp (account_decode C) m k = account_at C t k"
  by (simp add: get_rlp_def account_at_def get_repr)

lemma chunk_account_repr:
  assumes "repr_tree E chunk G" "sub_at t pre = Some G" "length k = 32" "in_chunk pre k"
  shows "chunk_account C chunk pre k = lift_outcome MptError (account_at C t k)"
proof -
  have nibs: "b256_nibbles k = to_nibs k" using b256_nibbles_fold [of 32 k] assms(3) by (simp add: b256_nibbles_def)
  obtain r where r: "to_nibs k = pre @ r" using in_chunk_prefix assms(3,4) by (auto simp: prefix_def)
  then have "nibbles r" using nibbles_to_nibs [of k] by simp
  then have "get_nibbles chunk r = pt_get t (to_nibs k)"
    using get_nibbles_repr [OF assms(1)] pt_get_sub_at [OF assms(2)] r by simp
  with nibs r show ?thesis by (simp add: chunk_account_def get_rlp_nibbles_def account_at_def)
qed

context rlp_laws
begin

lemma read_honest_chunk:
  assumes t: "canon_top t" "pt_nodes t < 2 ^ 32" "sub_at t pre = Some G" "length (tree_stream E G) < 2 ^ 31"
    and h: "sch_expected_root h = root_hash E G"
    and s: "sts_input s = HWitness (WStateChunk h) # HRaw (tree_stream E G) # hs"
  shows "\<exists>chunk. read_chunk E s = (Ok (h, chunk), s\<lparr>sts_input := hs\<rparr>) \<and> repr_tree E chunk G \<and> length (nodes chunk) \<le> 2 ^ 31"
proof -
  obtain m rest where m: "decode_trie E (tree_stream E G) (sch_num_nodes h) = Ok (m, rest)" "repr_tree E m G"
    using decode_encode [OF sub_at_canon [OF t(1,3)], of "[]" "sch_num_nodes h"] t(2,4) pt_nodes_sub_at [OF t(3)] by auto
  obtain chunk where c: "hash E m = (Ok (root_hash E G), chunk)" "repr_tree E chunk G" "nodes chunk = nodes m"
    using hash_repr [OF m(2)] by blast
  have "length (nodes m) \<le> 2 ^ 31" using decode_trie_bounds [of "tree_stream E G" "sch_num_nodes h" m rest] m(1) t(4) by simp
  with m c h s show ?thesis by (simp add: read_chunk_def read_witness_input_def read_raw_bytes_def)
qed

end

section \<open>The cached accounts\<close>

lemma consume_cached_complete:
  assumes "distinct ks" "\<And>k. k \<in> set ks \<Longrightarrow> \<exists>acc. map_of (sts_account_cache s) k = Some acc \<and> chunk_account C chunk pre k = Ok acc"
  shows "consume_cached C chunk pre ks s =
    (Ok (), s\<lparr>sts_account_cache := filter (\<lambda>e. fst e \<notin> set ks) (sts_account_cache s)\<rparr>)"
  using assms
proof (induction ks arbitrary: s)
  case (Cons k ks)
  let ?s = "s\<lparr>sts_account_cache := remove_key k (sts_account_cache s)\<rparr>"
  obtain acc where acc: "map_of (sts_account_cache s) k = Some acc" "chunk_account C chunk pre k = Ok acc"
    using Cons.prems(2) [of k] by auto
  have "\<exists>acc. map_of (sts_account_cache ?s) k' = Some acc \<and> chunk_account C chunk pre k' = Ok acc" if "k' \<in> set ks" for k'
  proof -
    have "k' \<noteq> k" using that Cons.prems(1) by auto
    with Cons.prems(2) [of k'] that show ?thesis by (simp add: remove_key_lookup)
  qed
  with Cons.IH [of ?s] Cons.prems(1) have "consume_cached C chunk pre ks ?s =
      (Ok (), ?s\<lparr>sts_account_cache := filter (\<lambda>e. fst e \<notin> set ks) (sts_account_cache ?s)\<rparr>)" by simp
  moreover have "filter (\<lambda>e. fst e \<notin> set ks) (remove_key k (sts_account_cache s)) =
      filter (\<lambda>e. fst e \<notin> set (k # ks)) (sts_account_cache s)"
    by (auto simp: remove_key_def intro: filter_cong)
  ultimately show ?case using acc by (simp add: Let_def)
qed simp

section \<open>The witnesses of the chunk\<close>

text \<open>A storage trie that the host can send, as it is after decoding and hashing.\<close>

definition trie_sent :: "ext \<Rightarrow> eth_codec \<Rightarrow> ptree \<Rightarrow> hint_source \<Rightarrow> bytes \<Rightarrow> mpt \<Rightarrow> bool" where
  "trie_sent E C t H h trie \<longleftrightarrow> (\<exists>n bs m rest acc. src_storage H h = Some (n, bs) \<and> decode_trie E bs n = Ok (m, rest)
     \<and> hash E m = (Ok (storage_root_of E acc), trie) \<and> account_at C t h = Ok acc)"

definition access_sent :: "ext \<Rightarrow> eth_codec \<Rightarrow> ptree \<Rightarrow> hint_source \<Rightarrow> witness_access \<Rightarrow> bool" where
  "access_sent E C t H a = (case a of
     AccAccount h \<Rightarrow> length h = 32 \<and> (\<exists>acc. account_at C t h = Ok acc \<and> src_accounts H h = Some acc)
   | AccStorageTrie h \<Rightarrow> length h = 32 \<and> (\<exists>trie. trie_sent E C t H h trie)
   | _ \<Rightarrow> False)"

definition tries_of_accesses :: "witness_access list \<Rightarrow> bytes list" where
  "tries_of_accesses as = List.map_filter (\<lambda>a. case a of AccStorageTrie h \<Rightarrow> Some h | _ \<Rightarrow> None) as"

lemma tries_of_accesses_simps [simp]:
  "tries_of_accesses [] = []" "tries_of_accesses (AccAccount h # as) = tries_of_accesses as"
  "tries_of_accesses (AccStorageTrie h # as) = h # tries_of_accesses as"
  "tries_of_accesses (AccModifiedAccount h n # as) = tries_of_accesses as"
  "tries_of_accesses (AccBytecode h # as) = tries_of_accesses as" "tries_of_accesses (AccStateTrie # as) = tries_of_accesses as"
  by (simp_all add: tries_of_accesses_def map_filter_simps)

lemma tries_of_accesses_append [simp]: "tries_of_accesses (as @ bs) = tries_of_accesses as @ tries_of_accesses bs"
  by (simp add: tries_of_accesses_def map_filter_def)

lemma set_tries_of_accesses: "h \<in> set (tries_of_accesses as) \<longleftrightarrow> AccStorageTrie h \<in> set as"
  by (force simp: tries_of_accesses_def map_filter_def split: witness_access.splits)

lemma read_witnesses_complete:
  assumes chunk: "repr_tree E chunk G" "sub_at t pre = Some G"
    and as: "\<And>a. a \<in> set as \<Longrightarrow> access_sent E C t H a \<and> in_chunk pre (access_hash a)" "distinct (tries_of_accesses as)"
  shows "\<exists>hs tries. write_hints (chunk_hint H) as = Ok hs \<and> map fst tries = rev (tries_of_accesses as)
    \<and> (\<forall>h trie. (h, trie) \<in> set tries \<longrightarrow> trie_sent E C t H h trie)
    \<and> (\<forall>post s rest. fst ` set post \<inter> set (tries_of_accesses as) = {} \<longrightarrow> sts_input s = hs @ rest \<longrightarrow>
        read_chunk_witnesses E C chunk pre (length as) post s = (Ok (tries @ post), s\<lparr>sts_input := rest\<rparr>))"
  using as
proof (induction as)
  case Nil
  show ?case by (intro exI [of _ "[]"]) (auto simp: read_chunk_witnesses.simps)
next
  case (Cons a as)
  obtain hs tries where ih: "write_hints (chunk_hint H) as = Ok hs" "map fst tries = rev (tries_of_accesses as)"
    "\<And>h trie. (h, trie) \<in> set tries \<Longrightarrow> trie_sent E C t H h trie"
    and read: "\<And>post s rest. fst ` set post \<inter> set (tries_of_accesses as) = {} \<Longrightarrow> sts_input s = hs @ rest \<Longrightarrow>
        read_chunk_witnesses E C chunk pre (length as) post s = (Ok (tries @ post), s\<lparr>sts_input := rest\<rparr>)"
    using Cons.IH Cons.prems by (cases a) auto
  have a: "access_sent E C t H a" "in_chunk pre (access_hash a)" using Cons.prems(1) [of a] by simp_all
  show ?case
  proof (cases a)
    case (AccAccount h)
    with a obtain acc where acc: "length h = 32" "account_at C t h = Ok acc" "src_accounts H h = Some acc" "in_chunk pre h"
      by (auto simp: access_sent_def access_hash_def)
    let ?w = "HWitness (WAccount \<lparr>ai_hashed_address = h, ai_account = acc\<rparr>)"
    have "chunk_account C chunk pre h = Ok acc" using chunk_account_repr [OF chunk acc(1,4)] acc(2) by simp
    then have "read_chunk_witnesses E C chunk pre (length (a # as)) post s = (Ok (tries @ post), s\<lparr>sts_input := rest\<rparr>)"
      if "fst ` set post \<inter> set (tries_of_accesses (a # as)) = {}" "sts_input s = (?w # hs) @ rest" for post s rest
      using that read [of post "s\<lparr>sts_input := hs @ rest\<rparr>" rest] acc(4) AccAccount by (simp add: read_witness_input_def)
    moreover have "write_hints (chunk_hint H) (a # as) = Ok (?w # hs)"
      using ih(1) acc(3) AccAccount by (simp add: chunk_hint_def account_hint_def)
    ultimately show ?thesis using ih(2,3) AccAccount by (intro exI [of _ "?w # hs"] exI [of _ tries]) auto
  next
    case (AccStorageTrie h)
    with a obtain trie n bs m rest0 acc where acc: "length h = 32" "account_at C t h = Ok acc" "in_chunk pre h"
      "src_storage H h = Some (n, bs)" "decode_trie E bs n = Ok (m, rest0)" "hash E m = (Ok (storage_root_of E acc), trie)"
      "trie_sent E C t H h trie"
      by (auto simp: access_sent_def access_hash_def trie_sent_def)
    let ?w = "[HWitness (WStorageTrie \<lparr>stoh_hashed_address = h, stoh_num_nodes = n\<rparr>), HRaw bs]"
    have "chunk_account C chunk pre h = Ok acc" using chunk_account_repr [OF chunk acc(1,3)] acc(2) by simp
    then have "read_chunk_witnesses E C chunk pre (length (a # as)) post s = (Ok ((tries @ [(h, trie)]) @ post), s\<lparr>sts_input := rest\<rparr>)"
      if p: "fst ` set post \<inter> set (tries_of_accesses (a # as)) = {}" and s: "sts_input s = (?w @ hs) @ rest" for post s rest
    proof -
      have new: "map_of post h = None" using p AccStorageTrie by (auto simp: map_of_eq_None_iff)
      have "fst ` set ((h, trie) # post) \<inter> set (tries_of_accesses as) = {}" using p Cons.prems(2) AccStorageTrie by auto
      from read [OF this, of "s\<lparr>sts_input := hs @ rest\<rparr>" rest]
      show ?thesis using acc s new AccStorageTrie \<open>chunk_account C chunk pre h = Ok acc\<close>
        by (simp add: read_witness_input_def read_raw_bytes_def)
    qed
    moreover have "write_hints (chunk_hint H) (a # as) = Ok (?w @ hs)"
      using ih(1) acc(4) AccStorageTrie by (simp add: chunk_hint_def storage_hint_def)
    ultimately show ?thesis using ih(2,3) acc(7) AccStorageTrie
      by (intro exI [of _ "?w @ hs"] exI [of _ "tries @ [(h, trie)]"]) auto
  qed (use a in \<open>auto simp: access_sent_def\<close>)
qed

end
