(* ===== verification/Honest_Input.thy ===== *)
theory Honest_Input
  imports Honest_Record Honest_Read
begin

text \<open>
  What the host records after execution: for every changed account a marker, and the storage trie of an account
  whose slots change and whose trie is not empty and was not read.
\<close>

definition hashed :: "ext \<Rightarrow> bytes \<times> bundle_account \<Rightarrow> bytes" where
  "hashed E a = keccak256 E (fst a)"

definition needs_trie ::
  "ext \<Rightarrow> ethereum_state \<Rightarrow> (bytes \<Rightarrow> ptree) \<Rightarrow> bytes set \<Rightarrow> bytes \<times> bundle_account \<Rightarrow> bool" where
  "needs_trie E st S seen a \<longleftrightarrow> acct_info (snd a) \<noteq> None \<and> acct_storage (snd a) \<noteq> [] \<and> hashed E a \<notin> seen
     \<and> storage_tries st (hashed E a) \<noteq> None \<and> root_hash E (S (hashed E a)) \<noteq> EMPTY_ROOT_HASH E"

text \<open>The hashes of storage tries stay, and are the same tries.\<close>

definition same_tries :: "ethereum_state \<Rightarrow> ethereum_state \<Rightarrow> bool" where
  "same_tries st st' \<longleftrightarrow> state_trie st' = state_trie st \<and> (\<forall>h. storage_tries st' h = None \<longleftrightarrow> storage_tries st h = None)"

lemma same_tries_refl [simp]: "same_tries st st"
  by (simp add: same_tries_def)

lemma same_tries_trans: "same_tries st st1 \<Longrightarrow> same_tries st1 st' \<Longrightarrow> same_tries st st'"
  by (simp add: same_tries_def)

lemma needs_trie_cong:
  "same_tries st st' \<Longrightarrow> (hashed E a \<in> seen' \<longleftrightarrow> hashed E a \<in> seen) \<Longrightarrow> needs_trie E st' S seen' a \<longleftrightarrow> needs_trie E st S seen a"
  by (simp add: needs_trie_def same_tries_def)

lemma tries_of_seen: "tries_of E st H S \<Longrightarrow> h \<in> H \<Longrightarrow> storage_tries st h = Some m \<Longrightarrow> repr_tree E m (S h) \<and> length (nodes m) \<le> 2 ^ 31"
  by (auto simp: tries_of_def split: option.splits)

lemma modified_accounts_simps [simp]:
  "modified_accounts [] = []" "modified_accounts (AccModifiedAccount h n # as) = (h, 1 + n) # modified_accounts as"
  "modified_accounts (AccAccount h # as) = modified_accounts as" "modified_accounts (AccStorageTrie h # as) = modified_accounts as"
  "modified_accounts (AccBytecode h # as) = modified_accounts as" "modified_accounts (AccStateTrie # as) = modified_accounts as"
  by (simp_all add: modified_accounts_def map_filter_def)

lemma modified_accounts_append [simp]: "modified_accounts (as @ bs) = modified_accounts as @ modified_accounts bs"
  by (simp add: modified_accounts_def map_filter_def)

context rlp_laws
begin

lemma record_modified_spec:
  assumes st: "tries_of E st H S" "hashed E a \<in> H" and rec: "witness_order rec = Some w"
  shows "\<exists>st' rec' ws. record_modified E a (st, rec) = (Ok (), st', rec') \<and> same_tries st st' \<and> tries_of E st' H S
    \<and> witness_order rec' = Some (w @ AccModifiedAccount (hashed E a) (length (acct_storage (snd a))) # ws)
    \<and> (\<forall>h. h \<noteq> hashed E a \<longrightarrow> (h \<in> set (storage_lookup_order rec') \<longleftrightarrow> h \<in> set (storage_lookup_order rec)))
    \<and> ws = (if needs_trie E st S (set (storage_lookup_order rec)) a
            then (if hashed E a \<in> set (account_lookup_order rec) then [] else [AccAccount (hashed E a)]) @ [AccStorageTrie (hashed E a)]
            else [])"
proof -
  let ?h = "hashed E a" and ?n = "length (acct_storage (snd a))"
  let ?rec = "push_access (AccModifiedAccount ?h ?n) rec"
  have order: "witness_order ?rec = Some (w @ [AccModifiedAccount ?h ?n])" "storage_lookup_order ?rec = storage_lookup_order rec"
    "account_lookup_order ?rec = account_lookup_order rec" using rec by (simp_all add: push_access_def)
  show ?thesis
  proof (cases "acct_info (snd a) \<noteq> None \<and> acct_storage (snd a) \<noteq> [] \<and> ?h \<notin> set (storage_lookup_order rec) \<and> storage_tries st ?h \<noteq> None")
    case False
    then have "\<not> needs_trie E st S (set (storage_lookup_order rec)) a" by (auto simp: needs_trie_def)
    moreover have "record_modified E a (st, rec) = (Ok (), st, ?rec)"
      using False order(2) by (auto simp: record_modified_def hashed_def Let_def)
    ultimately show ?thesis using st(1) order by (intro exI [of _ st] exI [of _ ?rec] exI [of _ "[]"]) simp
  next
    case True
    then obtain trie where trie: "storage_tries st ?h = Some trie" by blast
    have r: "repr_tree E trie (S ?h)" "length (nodes trie) \<le> 2 ^ 31" using tries_of_seen [OF st trie] by simp_all
    obtain trie' where t': "hash E trie = (Ok (root_hash E (S ?h)), trie')" "repr_tree E trie' (S ?h)" "nodes trie' = nodes trie"
      using hash_repr [OF r(1)] by blast
    let ?st = "st\<lparr>storage_tries := (storage_tries st)(?h \<mapsto> trie')\<rparr>"
    let ?rec' = "if root_hash E (S ?h) \<noteq> EMPTY_ROOT_HASH E then note_storage ?h (note_account ?h ?rec) else ?rec"
    have "tries_of E ?st H S" using st(1) r(2) t'(2,3) by (auto simp: tries_of_def)
    moreover have "same_tries st ?st" using trie by (simp add: same_tries_def)
    moreover have "record_modified E a (st, rec) = (Ok (), ?st, ?rec')"
      using True trie t'(1) order(2) by (simp add: record_modified_def hashed_def Let_def)
    moreover have "needs_trie E st S (set (storage_lookup_order rec)) a \<longleftrightarrow> root_hash E (S ?h) \<noteq> EMPTY_ROOT_HASH E"
      using True trie by (simp add: needs_trie_def)
    moreover have "witness_order (note_storage ?h (note_account ?h ?rec)) = Some (w @ AccModifiedAccount ?h ?n #
        (if ?h \<in> set (account_lookup_order rec) then [] else [AccAccount ?h]) @ [AccStorageTrie ?h])"
      "\<And>h. h \<noteq> ?h \<Longrightarrow> h \<in> set (storage_lookup_order (note_storage ?h (note_account ?h ?rec))) \<longleftrightarrow> h \<in> set (storage_lookup_order rec)"
      using True rec by (auto simp: note_storage_def note_account_def push_access_def)
    ultimately show ?thesis using order
      by (cases "root_hash E (S ?h) = EMPTY_ROOT_HASH E"; intro exI [of _ ?st] exI [of _ ?rec'] exI conjI; (rule refl)?) simp_all
  qed
qed

lemma record_bundle_spec:
  assumes "tries_of E st H S" "hashed E ` set accs \<subseteq> H" "distinct (map (hashed E) accs)" "witness_order rec = Some w"
  shows "\<exists>st' rec' ws. record_bundle E accs (st, rec) = (Ok (), st', rec') \<and> same_tries st st' \<and> tries_of E st' H S
    \<and> witness_order rec' = Some (w @ ws)
    \<and> modified_accounts ws = map (\<lambda>a. (hashed E a, 1 + length (acct_storage (snd a)))) accs
    \<and> tries_of_accesses ws = map (hashed E) (filter (needs_trie E st S (set (storage_lookup_order rec))) accs)
    \<and> (\<forall>x \<in> set ws. is_post_access x \<longrightarrow> access_hash x \<in> set (tries_of_accesses ws))"
  using assms
proof (induction accs arbitrary: st rec w)
  case Nil
  then show ?case by auto
next
  case (Cons a accs)
  let ?h = "hashed E a"
  have a: "?h \<in> H" using Cons.prems(2) by simp
  obtain st1 rec1 ws1 where r: "record_modified E a (st, rec) = (Ok (), st1, rec1)" "same_tries st st1" "tries_of E st1 H S"
    "witness_order rec1 = Some (w @ AccModifiedAccount ?h (length (acct_storage (snd a))) # ws1)"
    "\<forall>h. h \<noteq> ?h \<longrightarrow> (h \<in> set (storage_lookup_order rec1) \<longleftrightarrow> h \<in> set (storage_lookup_order rec))"
    "ws1 = (if needs_trie E st S (set (storage_lookup_order rec)) a
            then (if ?h \<in> set (account_lookup_order rec) then [] else [AccAccount ?h]) @ [AccStorageTrie ?h] else [])"
    using record_modified_spec [OF Cons.prems(1) a Cons.prems(4)] by blast
  have "hashed E ` set accs \<subseteq> H" "distinct (map (hashed E) accs)" using Cons.prems(2,3) by simp_all
  from Cons.IH [OF r(3) this r(4)] obtain st' rec' ws where
    ih: "record_bundle E accs (st1, rec1) = (Ok (), st', rec')" "same_tries st1 st'" "tries_of E st' H S"
      "witness_order rec' = Some ((w @ AccModifiedAccount ?h (length (acct_storage (snd a))) # ws1) @ ws)"
      "modified_accounts ws = map (\<lambda>a. (hashed E a, 1 + length (acct_storage (snd a)))) accs"
      "tries_of_accesses ws = map (hashed E) (filter (needs_trie E st1 S (set (storage_lookup_order rec1))) accs)"
      "\<forall>x \<in> set ws. is_post_access x \<longrightarrow> access_hash x \<in> set (tries_of_accesses ws)" by blast
  have "needs_trie E st1 S (set (storage_lookup_order rec1)) b \<longleftrightarrow> needs_trie E st S (set (storage_lookup_order rec)) b"
    if "b \<in> set accs" for b
  proof -
    have "hashed E b \<noteq> ?h" using Cons.prems(3) that by simp (metis image_eqI)
    with r(5) needs_trie_cong [OF r(2)] show ?thesis by blast
  qed
  then have same: "filter (needs_trie E st1 S (set (storage_lookup_order rec1))) accs = filter (needs_trie E st S (set (storage_lookup_order rec))) accs"
    by (rule filter_cong [OF refl])
  let ?ws = "AccModifiedAccount ?h (length (acct_storage (snd a))) # ws1 @ ws"
  have "modified_accounts ?ws = map (\<lambda>a. (hashed E a, 1 + length (acct_storage (snd a)))) (a # accs)"
    using ih(5) by (simp add: r(6))
  moreover have tr: "tries_of_accesses ?ws = map (hashed E) (filter (needs_trie E st S (set (storage_lookup_order rec))) (a # accs))"
    using ih(6) same by (simp add: r(6))
  moreover have "access_hash x \<in> set (tries_of_accesses ?ws)" if "x \<in> set ?ws" "is_post_access x" for x
    using that ih(7) by (auto simp: r(6) is_post_access_def access_hash_def split: if_splits)
  ultimately show ?case
    using r(1) ih(1,3,4) same_tries_trans [OF r(2) ih(2)] by (intro exI [of _ st'] exI [of _ rec'] exI [of _ ?ws]) simp
qed

end

section \<open>The input\<close>

text \<open>
  The host's input and what it stands for: the state trie \<open>t\<close> and the storage tries \<open>S\<close> whose encodings the
  input carries. Tries may be pruned; what is required of them is that the block's accounts can be read.
\<close>

definition encodable :: "ext \<Rightarrow> ptree \<Rightarrow> bool" where
  "encodable E t \<longleftrightarrow> canon_top t \<and> length (tree_stream E t) < 2 ^ 31 \<and> pt_nodes t < 2 ^ 31"

definition input_world :: "ext \<Rightarrow> client_input \<Rightarrow> ptree \<Rightarrow> (bytes \<Rightarrow> ptree) \<Rightarrow> bool" where
  "input_world E inp t S \<longleftrightarrow>
     encodable E t \<and> snd (state_trie_bytes (ci_parent_state_bytes inp)) = tree_stream E t \<and> keylen 64 t
     \<and> no_empty_root E t \<and> (t = PNull \<or> (\<exists>d. tree_ref E t = RefDigest d))
     \<and> (\<forall>e \<in> set (storage_tries_bytes (ci_parent_state_bytes inp)). encodable E (S (fst e)) \<and> snd (snd e) = tree_stream E (S (fst e)))
     \<and> (\<forall>h. h \<notin> fst ` set (storage_tries_bytes (ci_parent_state_bytes inp)) \<longrightarrow> S h = PNull)
     \<and> (\<forall>h. root_hash E (S h) = EMPTY_ROOT_HASH E \<longrightarrow> S h = PNull)"

context rlp_laws
begin

lemma decode_encodable:
  assumes "encodable E t"
  shows "\<exists>m rest m'. decode_trie E (tree_stream E t) n = Ok (m, rest) \<and> hash E m = (Ok (root_hash E t), m')
    \<and> repr_tree E m' t \<and> length (nodes m') \<le> 2 ^ 31"
proof -
  have t: "canon_top t" "length (tree_stream E t) < 2 ^ 31" "pt_nodes t < 2 ^ 31" using assms by (simp_all add: encodable_def)
  obtain m rest where m: "decode_trie E (tree_stream E t) n = Ok (m, rest)" "repr_tree E m t"
    using decode_encode [OF t(1), of "[]" n] t(2,3) by auto
  moreover have "length (nodes m) \<le> 2 ^ 31" using decode_trie_bounds [of "tree_stream E t" n m rest] m(1) t(2) by simp
  ultimately show ?thesis using hash_repr [OF m(2)] by fastforce
qed

lemma build_tries_of:
  assumes "build_storage_tries E C st es tries = Ok tries'" "\<And>e. e \<in> set es \<Longrightarrow> encodable E (S (fst e)) \<and> snd (snd e) = tree_stream E (S (fst e))"
    and "\<And>h m. tries h = Some m \<Longrightarrow> repr_tree E m (S h) \<and> length (nodes m) \<le> 2 ^ 31" "\<And>h. tries h = None \<Longrightarrow> h \<notin> fst ` set es \<Longrightarrow> S h = PNull"
  shows "case tries' h of None \<Rightarrow> S h = PNull | Some m \<Rightarrow> repr_tree E m (S h) \<and> length (nodes m) \<le> 2 ^ 31"
  using assms
proof (induction es arbitrary: tries)
  case Nil
  then show ?case by (auto split: option.splits)
next
  case (Cons e es)
  obtain k n bs where e: "e = (k, n, bs)" by (cases e)
  have S: "encodable E (S k)" "bs = tree_stream E (S k)" using Cons.prems(2) [of e] e by simp_all
  obtain m rest m' where m: "decode_trie E bs n = Ok (m, rest)" "hash E m = (Ok (root_hash E (S k)), m')" "repr_tree E m' (S k)"
    "length (nodes m') \<le> 2 ^ 31" using decode_encodable [OF S(1), of n] S(2) by blast
  have run: "build_storage_tries E C st es (tries(k \<mapsto> m')) = Ok tries'"
    using Cons.prems(1) e m by (auto split: outcome.splits if_splits)
  show ?case by (rule Cons.IH [OF run]) (use Cons.prems m e in \<open>auto split: if_splits\<close>)
qed

lemma built_input:
  assumes st: "build_input_state E C inp = Ok st" and w: "input_world E inp t S"
  shows "repr_tree E (state_trie st) t" "length (nodes (state_trie st)) \<le> 2 ^ 31" "tries_of E st UNIV S"
    "\<exists>parent rest. ci_ancestor_headers inp = parent # rest \<and> root_hash E t = hdr_state_root parent"
    "storage_tries st h \<noteq> None \<Longrightarrow> \<exists>acc. get_rlp (account_decode C) (state_trie st) h = Ok acc"
proof -
  obtain n where t: "encodable E t" "state_trie_bytes (ci_parent_state_bytes inp) = (n, tree_stream E t)"
    using w by (cases "state_trie_bytes (ci_parent_state_bytes inp)") (auto simp: input_world_def)
  obtain m rest m' where m: "decode_trie E (tree_stream E t) n = Ok (m, rest)" "hash E m = (Ok (root_hash E t), m')" "repr_tree E m' t"
    "length (nodes m') \<le> 2 ^ 31" using decode_encodable [OF t(1)] by blast
  obtain parent rest' where p: "ci_ancestor_headers inp = parent # rest'"
    using st t(2) m by (cases "ci_ancestor_headers inp") (auto simp: build_input_state_def)
  with st t(2) m have r: "state_trie st = m'" "root_hash E t = hdr_state_root parent"
    by (auto simp: build_input_state_def split: if_splits outcome.splits)
  with m p show "repr_tree E (state_trie st) t" "length (nodes (state_trie st)) \<le> 2 ^ 31"
    "\<exists>parent rest. ci_ancestor_headers inp = parent # rest \<and> root_hash E t = hdr_state_root parent" by auto
  have "case storage_tries st h of None \<Rightarrow> S h = PNull | Some m \<Rightarrow> repr_tree E m (S h) \<and> length (nodes m) \<le> 2 ^ 31" for h
    by (rule build_tries_of [OF build_input_state_storage [OF st]]) (use w in \<open>auto simp: input_world_def\<close>)
  then show "tries_of E st UNIV S" by (simp add: tries_of_def)
  show "storage_tries st h \<noteq> None \<Longrightarrow> \<exists>acc. get_rlp (account_decode C) (state_trie st) h = Ok acc"
    using build_storage_tries_from_bytes [OF build_input_state_storage [OF st], of "\<lambda>_. None" h] by (auto simp: trie_from_bytes_def)
qed

end

end
