(* ===== verification/Honest_Chunk.thy ===== *)
theory Honest_Chunk
  imports Honest_Read
begin

text \<open>
  Updating an honest chunk: every account can be read, the storage trie that a changed account needs is at hand,
  no storage trie is left over, and the new root takes the place of the old one in the frontier.
\<close>

section \<open>One account\<close>

text \<open>What the update needs for one entry of the bundle: \<open>had\<close> are the storage tries loaded during execution,
  \<open>sent\<close> those that came with the chunk.\<close>

definition entry_served ::
  "ext \<Rightarrow> eth_codec \<Rightarrow> ptree \<Rightarrow> (bytes \<Rightarrow> ptree) \<Rightarrow> (bytes \<Rightarrow> mpt option) \<Rightarrow> (bytes \<Rightarrow> mpt option) \<Rightarrow> bundle_entry \<Rightarrow>
   bool" where
  "entry_served E C t S had sent e \<longleftrightarrow> (case e of (h, nibs, account) \<Rightarrow>
     (\<exists>old. account_at C t h = Ok old
        \<and> (acct_info account \<noteq> None \<and> \<not> acct_was_destroyed account \<longrightarrow> storage_root_of E old = root_hash E (S h)))
     \<and> (acct_info account \<noteq> None \<longrightarrow> (\<exists>T. new_storage E C S h account = Ok T)
          \<and> (had h = None \<and> sent h = None \<and> acct_storage account \<noteq> [] \<and> \<not> acct_was_destroyed account
               \<longrightarrow> S h = PNull))
     \<and> (\<forall>trie. had h = Some trie \<or> sent h = Some trie \<longrightarrow>
          repr_tree E trie (S h) \<and> length (nodes trie) \<le> 2 ^ 31)
     \<and> (sent h \<noteq> None \<longrightarrow> acct_info account \<noteq> None \<and> \<not> acct_was_destroyed account \<and> acct_storage account \<noteq> []
          \<and> had h = None))"

definition tries_dropped :: "bytes set \<Rightarrow> streaming_state \<Rightarrow> streaming_state \<Rightarrow> bool" where
  "tries_dropped K s s' \<longleftrightarrow> (\<exists>f. s' = s\<lparr>sts_storage_tries := f\<rparr> \<and> (\<forall>k. k \<notin> K \<longrightarrow> f k = sts_storage_tries s k))"

lemma tries_dropped_refl [simp]: "tries_dropped K s s"
  unfolding tries_dropped_def by (intro exI [of _ "sts_storage_tries s"]) simp

lemma tries_dropped_one [simp]: "tries_dropped {h} s (s\<lparr>sts_storage_tries := (sts_storage_tries s)(h := None)\<rparr>)"
  unfolding tries_dropped_def by (intro exI [of _ "(sts_storage_tries s)(h := None)"]) simp

lemma tries_dropped_trans: "tries_dropped K s s1 \<Longrightarrow> tries_dropped J s1 s' \<Longrightarrow> tries_dropped (K \<union> J) s s'"
  unfolding tries_dropped_def by auto

lemma remove_key_absent: "map_of m k = None \<Longrightarrow> remove_key k m = m"
  unfolding remove_key_def map_of_eq_None_iff by (intro filter_True) auto

context rlp_laws
begin

lemma empty_storage_update:
  assumes "pt_updates (slot_updates E C account) PNull = Ok T" "length (acct_storage account) < 2 ^ 28"
  shows "fst (update_storage_trie E C (acct_storage account) new) = Ok (root_hash E T)"
  by (rule update_storage_complete [OF repr_new _ assms(2,1)]) (simp add: new_def with_capacity_def)

lemma new_storage_root_complete:
  assumes e: "entry_served E C t S (sts_storage_tries s) (map_of tries) (h, nibs, account)" "account_at C t h = Ok old" "acct_info account = Some info"
    and small: "length (acct_storage account) < 2 ^ 28"
  shows "\<exists>T s'. new_storage E C S h account = Ok T \<and> tries_dropped {h} s s'
    \<and> new_storage_root E C h account old tries s = (Ok (root_hash E T, remove_key h tries), s')"
proof -
  obtain T where T: "new_storage E C S h account = Ok T" using e by (auto simp: entry_served_def)
  have root: "\<not> acct_was_destroyed account \<Longrightarrow> storage_root_of E old = root_hash E (S h)"
    and at: "\<And>trie. sts_storage_tries s h = Some trie \<or> map_of tries h = Some trie \<Longrightarrow>
      repr_tree E trie (S h) \<and> length (nodes trie) \<le> 2 ^ 31"
    and none: "\<And>trie. sts_storage_tries s h = Some trie \<or> acct_was_destroyed account \<or> acct_storage account = [] \<Longrightarrow> map_of tries h = None"
    and gone: "sts_storage_tries s h = None \<Longrightarrow> map_of tries h = None \<Longrightarrow> acct_storage account \<noteq> [] \<Longrightarrow>
      \<not> acct_was_destroyed account \<Longrightarrow> S h = PNull"
    using e by (auto simp: entry_served_def)
  have up: "fst (update_storage_trie E C (acct_storage account) trie) = Ok (root_hash E T)"
    if "repr_tree E trie (S h) \<and> length (nodes trie) \<le> 2 ^ 31" "\<not> acct_was_destroyed account" for trie
    using that T update_storage_complete [of trie "S h", OF _ _ small] by (simp add: new_storage_def)
  consider (destroyed) "acct_was_destroyed account" | (same) "\<not> acct_was_destroyed account" "acct_storage account = []"
    | (slots) "\<not> acct_was_destroyed account" "acct_storage account \<noteq> []" by blast
  then show ?thesis
  proof cases
    case destroyed
    have "fst (update_storage_trie E C (acct_storage account) new) = Ok (root_hash E T)"
      using T destroyed by (intro empty_storage_update [OF _ small]) (simp add: new_storage_def)
    with T destroyed none show ?thesis
      by (intro exI [of _ T] exI [of _ s]) (simp add: new_storage_root_def remove_key_absent)
  next
    case same
    then have TS: "T = S h" using T by (simp add: new_storage_def slot_updates_def as_nibs_def)
    show ?thesis
    proof (cases "sts_storage_tries s h")
      case None
      with same TS T root none show ?thesis
        by (intro exI [of _ T] exI [of _ s]) (simp add: new_storage_root_def remove_key_absent)
    next
      case (Some trie)
      then have "fst (hash E trie) = Ok (root_hash E (S h))" using at hash_repr [of trie "S h"] by force
      with Some same TS T root none show ?thesis
        by (intro exI [of _ T] exI [of _ "s\<lparr>sts_storage_tries := (sts_storage_tries s)(h := None)\<rparr>"])
           (simp add: new_storage_root_def remove_key_absent)
    qed
  next
    case slots
    show ?thesis
    proof (cases "sts_storage_tries s h")
      case (Some trie)
      with slots T at [of trie] up [of trie] none show ?thesis
        by (intro exI [of _ T] exI [of _ "s\<lparr>sts_storage_tries := (sts_storage_tries s)(h := None)\<rparr>"])
           (simp add: new_storage_root_def remove_key_absent)
    next
      case no: None
      show ?thesis
      proof (cases "map_of tries h")
        case (Some trie)
        with no slots T at [of trie] up [of trie] show ?thesis
          by (intro exI [of _ T] exI [of _ s]) (simp add: new_storage_root_def)
      next
        case None
        with no slots gone have S: "S h = PNull" by blast
        have "fst (update_storage_trie E C (acct_storage account) new) = Ok (root_hash E T)"
          using T slots S by (intro empty_storage_update [OF _ small]) (simp add: new_storage_def)
        with no None slots T S root show ?thesis
          by (intro exI [of _ T] exI [of _ s]) (simp add: new_storage_root_def root_hash_def remove_key_absent)
      qed
    qed
  qed
qed

lemma apply_chunk_account_complete:
  assumes chunk: "repr_tree E chunk G" "trie_room (Suc n) chunk" and e: "entry_ok pre e" "entry_served E C t S (sts_storage_tries s) (map_of tries) e"
    and get: "pt_get G (suffix_of pre e) = pt_get t (to_nibs (fst e))"
    and up: "pt_updates (below pre [entry_update E C S e]) G = Ok G'"
  shows "\<exists>chunk' s'. apply_chunk_account E C pre e chunk tries s = (Ok (chunk', remove_key (fst e) tries), s')
    \<and> repr_tree E chunk' G' \<and> trie_room n chunk' \<and> tries_dropped {fst e} s s'"
proof -
  obtain h nibs account where e_def: "e = (h, nibs, account)" by (cases e)
  let ?suf = "drop (length pre) nibs"
  have suf: "nibbles ?suf" using e(1) nibbles_to_nibs [of h] by (simp add: entry_ok_def e_def)
  obtain old where old: "account_at C t h = Ok old" using e(2) by (auto simp: entry_served_def e_def)
  have rd: "get_rlp_nibbles (account_decode C) chunk ?suf = Ok old"
    using old get get_nibbles_repr [OF chunk(1) suf] by (simp add: e_def suffix_of_def get_rlp_nibbles_def account_at_def)
  have room: "trie_room (n + length [u]) chunk" for u :: "nibs \<times> bytes option" using chunk(2) by simp
  show ?thesis
  proof (cases "acct_info account")
    case None
    have u: "pt_updates [(?suf, None)] G = Ok G'" using up None by (simp add: e_def entry_update_def)
    obtain chunk' where c: "apply_updates insert_nibbles delete_nibbles [(?suf, None)] chunk = (Ok (), chunk')"
      "repr_tree E chunk' G'" "trie_room n chunk'"
      using apply_nibbles_complete [OF chunk(1) room _ u] suf by auto
    from c(1) obtain b where "delete_nibbles ?suf chunk = (Ok b, chunk')" by (auto simp: and_then_Ok_iff)
    moreover have "map_of tries h = None" using e(2) None by (auto simp: entry_served_def e_def)
    ultimately show ?thesis using c(2,3) rd None
      by (intro exI [of _ chunk'] exI [of _ "s\<lparr>sts_storage_tries := (sts_storage_tries s)(h := None)\<rparr>"])
         (simp add: apply_chunk_account_def e_def remove_key_absent)
  next
    case (Some info)
    have small: "length (acct_storage account) < 2 ^ 28" using e(1) by (simp add: entry_ok_def e_def)
    obtain T s' where T: "new_storage E C S h account = Ok T" "tries_dropped {h} s s'"
      "new_storage_root E C h account old tries s = (Ok (root_hash E T, remove_key h tries), s')"
      using new_storage_root_complete [OF e(2) [unfolded e_def] old Some small] by blast
    let ?v = "account_encode C (written_account info (root_hash E T))"
    have u: "pt_updates [(?suf, Some ?v)] G = Ok G'" using up Some T(1) by (simp add: e_def entry_update_def)
    obtain chunk' where c: "apply_updates insert_nibbles delete_nibbles [(?suf, Some ?v)] chunk = (Ok (), chunk')"
      "repr_tree E chunk' G'" "trie_room n chunk'"
      using apply_nibbles_complete [OF chunk(1) room _ u] suf by auto
    from c(1) obtain b where "insert_nibbles ?suf ?v chunk = (Ok b, chunk')" by (auto simp: and_then_Ok_iff)
    with c(2,3) rd Some T show ?thesis
      by (intro exI [of _ chunk'] exI [of _ s'])
         (simp add: apply_chunk_account_def e_def insert_rlp_nibbles_def written_account_def)
  qed
qed

end

section \<open>All accounts of the chunk\<close>

lemma entry_served_later:
  assumes "entry_served E C t S (sts_storage_tries s) (map_of tries) e" "tries_dropped {h} s s'" "fst e \<noteq> h"
  shows "entry_served E C t S (sts_storage_tries s') (map_of (remove_key h tries)) e"
proof -
  have "sts_storage_tries s' (fst e) = sts_storage_tries s (fst e)" "map_of (remove_key h tries) (fst e) = map_of tries (fst e)"
    using assms(2,3) by (auto simp: tries_dropped_def remove_key_lookup)
  with assms(1) show ?thesis by (cases e) (simp add: entry_served_def)
qed

lemma filter_remove_key:
  "filter (\<lambda>x. fst x \<notin> K) (remove_key h tries) = filter (\<lambda>x. fst x \<notin> insert h K) tries"
  by (auto simp: remove_key_def intro: filter_cong)

context rlp_laws
begin

lemma apply_chunk_accounts_complete:
  assumes "repr_tree E chunk G" "trie_room (n + length es) chunk" "distinct (map fst es)"
    and "\<And>e. e \<in> set es \<Longrightarrow> entry_ok pre e \<and> entry_served E C t S (sts_storage_tries s) (map_of tries) e \<and> pt_get G (suffix_of pre e) = pt_get t (to_nibs (fst e))"
    and "pt_updates (below pre (map (entry_update E C S) es)) G = Ok G'"
  shows "\<exists>chunk' s'. apply_chunk_accounts E C pre es chunk tries s = (Ok (chunk', filter (\<lambda>x. fst x \<notin> fst ` set es) tries), s')
    \<and> repr_tree E chunk' G' \<and> tries_dropped (fst ` set es) s s'"
  using assms
proof (induction es arbitrary: chunk G tries s)
  case (Cons e es)
  have e: "entry_ok pre e" "entry_served E C t S (sts_storage_tries s) (map_of tries) e" "pt_get G (suffix_of pre e) = pt_get t (to_nibs (fst e))"
    using Cons.prems(4) [of e] by simp_all
  have room: "trie_room (Suc (n + length es)) chunk" using Cons.prems(2) by simp
  obtain G1 where G1: "pt_updates (below pre [entry_update E C S e]) G = Ok G1"
    "pt_updates (below pre (map (entry_update E C S) es)) G1 = Ok G'"
    using Cons.prems(5) pt_updates_Cons [of "(drop (length pre) (fst (entry_update E C S e)), snd (entry_update E C S e))"
      "below pre (map (entry_update E C S) es)" G] by (auto split: outcome.splits)
  obtain chunk1 s1 where r: "apply_chunk_account E C pre e chunk tries s = (Ok (chunk1, remove_key (fst e) tries), s1)"
    "repr_tree E chunk1 G1" "trie_room (n + length es) chunk1" "tries_dropped {fst e} s s1"
    using apply_chunk_account_complete [OF Cons.prems(1) room e G1(1)] by blast
  have nib: "nibbles (suffix_of pre e')" if "entry_ok pre e'" for e'
    using that nibbles_to_nibs [of "fst e'"] by (simp add: suffix_of_def entry_ok_def)
  have view: "pt_get G1 p = viewed (\<lambda>k. k) (below pre [entry_update E C S e]) (pt_get G) p" if "nibbles p" for p
    using pt_updates_view [OF G1(1) repr_canon [OF Cons.prems(1)]] nib [OF e(1)] that by (simp add: suffix_of_def)
  have "entry_ok pre e' \<and> entry_served E C t S (sts_storage_tries s1) (map_of (remove_key (fst e) tries)) e'
      \<and> pt_get G1 (suffix_of pre e') = pt_get t (to_nibs (fst e'))" if e': "e' \<in> set es" for e'
  proof -
    have c: "entry_ok pre e'" "entry_served E C t S (sts_storage_tries s) (map_of tries) e'" "pt_get G (suffix_of pre e') = pt_get t (to_nibs (fst e'))"
      using Cons.prems(4) [of e'] e' by simp_all
    have "fst e' \<noteq> fst e" using Cons.prems(3) e' by simp (metis image_eqI)
    moreover from this have "suffix_of pre e' \<noteq> suffix_of pre e" using suffix_inj [OF c(1) e(1)] by blast
    ultimately show ?thesis
      using c entry_served_later [OF c(2) r(4)] view [OF nib [OF c(1)]] by (simp add: suffix_of_def)
  qed
  from Cons.IH [OF r(2,3) _ this G1(2)] Cons.prems(3) obtain chunk' s' where
    "apply_chunk_accounts E C pre es chunk1 (remove_key (fst e) tries) s1 =
       (Ok (chunk', filter (\<lambda>x. fst x \<notin> fst ` set es) (remove_key (fst e) tries)), s')"
    "repr_tree E chunk' G'" "tries_dropped (fst ` set es) s1 s'" by auto
  with r(1) tries_dropped_trans [OF r(4)] show ?case by (auto simp: filter_remove_key)
qed simp

end

end
