(* ===== verification/Honest_Step.thy ===== *)
theory Honest_Step
  imports Honest_Chunk
begin

text \<open>One honest chunk, from its header to the frontier with the new root.\<close>

section \<open>The slot of the frontier\<close>

lemma pt_replace_put:
  "sub_at t p = Some s \<Longrightarrow> n \<noteq> EMPTY_ROOT_HASH E \<Longrightarrow> pt_replace E t p (root_hash E s) n = Ok (put_at t p (PDigest n))"
proof (induction t p rule: sub_at.induct)
  case (2 cs h k)
  then show ?case by (auto simp: root_hash_def pt_slot_def split: option.splits if_splits)
qed (auto simp: pt_slot_def split: if_splits)

definition front :: "ext \<Rightarrow> streaming_state \<Rightarrow> ptree \<Rightarrow> ptree \<Rightarrow> nat \<Rightarrow> bool" where
  "front E s f T n \<longleftrightarrow> (\<exists>m. sts_state_trie s = Some m \<and> stores_tree E m f \<and> blinds E f T \<and> length (nodes m) + n < 2 ^ 32)"

context rlp_laws
begin

lemma finish_honest_chunk:
  assumes s: "front E s f T (Suc n)" and T: "canon_top T" "sub_at T (sch_prefix h) = Some G" "sub_at f (sch_prefix h) \<noteq> None"
    and h: "sch_expected_root h = root_hash E G"
    and G': "repr_tree E chunk G'" "pt_anchor G \<longrightarrow> pt_anchor G'" "tree_ref E G' = RefDigest d" "d \<noteq> EMPTY_ROOT_HASH E" "G' \<noteq> PNull"
  shows "\<exists>m' f'. finish_chunk E h chunk s = (Ok (), s\<lparr>sts_state_trie := Some m'\<rparr>)
    \<and> front E (s\<lparr>sts_state_trie := Some m'\<rparr>) f' (put_at T (sch_prefix h) G') n \<and> canon (put_at T (sch_prefix h) G')
    \<and> (\<forall>q. parallel (sch_prefix h) q \<longrightarrow> sub_at f' q = sub_at f q)
    \<and> (\<forall>k. \<not> prefix (sch_prefix h) k \<longrightarrow> pt_get f' k = pt_get f k)"
proof -
  let ?p = "sch_prefix h" and ?f' = "put_at f (sch_prefix h) (PDigest d)"
  obtain m where m: "sts_state_trie s = Some m" "stores_tree E m f" "blinds E f T" "length (nodes m) + Suc n < 2 ^ 32"
    using s by (auto simp: front_def)
  have c: "canon G'" using repr_canon [OF G'(1)] G'(5) by (simp add: canon_top_def)
  have pre: "nibbles ?p" using sub_at_nibbles [OF T(1)] T(2) by simp
  have len: "length d = 32" using tree_ref_digest_length [OF canon_digests_ok [OF c] G'(3)] .
  have root: "root_hash E G' = d" using G'(3,5) by (simp add: root_hash_def)
  obtain s0 where s0: "sub_at f ?p = Some s0" using T(3) by blast
  have "root_hash E s0 = root_hash E G" using blinds_root_hash [OF blinds_sub_at [OF m(3) s0 T(2)]] .
  then have rep: "pt_replace E f ?p (root_hash E G) d = Ok ?f'" using pt_replace_put [OF s0 G'(4)] by simp
  have small: "length (nodes m) < 2 ^ 32" using m(4) by simp
  from replace_stores [OF m(2) pre len small, of "root_hash E G"] rep obtain m' where
    m': "replace_frontier_slot E ?p (root_hash E G) d m = (Ok (), m')" "stores_tree E m' ?f'" by auto
  have "length (nodes m') \<le> length (nodes m) + 1" using replaced_slot [OF m(2) pre len small m'(1)] by (auto split: if_splits)
  then have fr: "front E (s\<lparr>sts_state_trie := Some m'\<rparr>) ?f' (put_at T ?p G') n"
    using m' m(4) pt_replace_blinds [OF m(3) rep T(2) G'(3,4)] by (auto simp: front_def)
  have "finish_chunk E h chunk s = (Ok (), s\<lparr>sts_state_trie := Some m'\<rparr>)"
    using finish_chunk_replaces [OF m(1) G'(1), of h] G'(3) m'(1) root h by simp
  with fr put_at_canon [OF T(1,2) c G'(2)] sub_at_put_at_parallel [of f ?p] pt_get_put_at [OF s0] s0 show ?thesis
    by (intro exI [of _ m'] exI [of _ ?f']) simp
qed

end

section \<open>The world of an honest host\<close>

text \<open>
  The trie \<open>t\<close> of the parent state, the storage tries \<open>S\<close>, the changed accounts, the accesses \<open>posts\<close> recorded for
  the update, and the storage tries \<open>had\<close> that execution has loaded.
\<close>

definition sent_ok :: "ext \<Rightarrow> eth_codec \<Rightarrow> ptree \<Rightarrow> hint_source \<Rightarrow> witness_access list \<Rightarrow> bytes \<Rightarrow> mpt option \<Rightarrow> bool" where
  "sent_ok E C t H posts h x \<longleftrightarrow> (x \<noteq> None \<longleftrightarrow> AccStorageTrie h \<in> set posts) \<and> (\<forall>trie. x = Some trie \<longrightarrow> trie_sent E C t H h trie)"

definition honest_world ::
  "ext \<Rightarrow> eth_codec \<Rightarrow> ptree \<Rightarrow> (bytes \<Rightarrow> ptree) \<Rightarrow> hint_source \<Rightarrow> bundle_entry list \<Rightarrow> witness_access list \<Rightarrow> (bytes \<Rightarrow> mpt option) \<Rightarrow>
   bool" where
  "honest_world E C t S H accounts posts had \<longleftrightarrow>
     canon_top t \<and> pt_nodes t < 2 ^ 32 \<and> keylen 64 t \<and> accounts_ok accounts
     \<and> (\<forall>a \<in> set posts. access_sent E C t H a \<and> access_hash a \<in> fst ` set accounts) \<and> distinct (tries_of_accesses posts)
     \<and> (\<forall>e \<in> set accounts. \<forall>sent. sent_ok E C t H posts (fst e) (sent (fst e)) \<longrightarrow> entry_served E C t S had sent e)"

definition chunk_survives :: "ext \<Rightarrow> eth_codec \<Rightarrow> (bytes \<Rightarrow> ptree) \<Rightarrow> ptree \<Rightarrow> nibs \<Rightarrow> bundle_entry list \<Rightarrow> bool" where
  "chunk_survives E C S t p es \<longleftrightarrow> (\<forall>G G'. sub_at t p = Some G \<longrightarrow> pt_updates (below p (map (entry_update E C S) es)) G = Ok G' \<longrightarrow>
     (pt_anchor G \<longrightarrow> pt_anchor G') \<and> G' \<noteq> PNull \<and> (\<exists>d. tree_ref E G' = RefDigest d \<and> d \<noteq> EMPTY_ROOT_HASH E))"

definition chunk_posts :: "witness_access list \<Rightarrow> nibs \<Rightarrow> witness_access list" where
  "chunk_posts posts p = filter (\<lambda>a. in_chunk p (access_hash a)) posts"

definition cache_ok :: "eth_codec \<Rightarrow> ptree \<Rightarrow> (bytes \<times> trie_account option) list \<Rightarrow> bool" where
  "cache_ok C t cache \<longleftrightarrow> distinct (map fst cache) \<and> (\<forall>e \<in> set cache. length (fst e) = 32 \<and> account_at C t (fst e) = Ok (snd e))"

lemma distinct_tries_filter: "distinct (tries_of_accesses as) \<Longrightarrow> distinct (tries_of_accesses (filter P as))"
proof (induction as)
  case (Cons a as)
  have sub: "h \<in> set (tries_of_accesses (filter P as)) \<Longrightarrow> h \<in> set (tries_of_accesses as)" for h
    by (simp add: set_tries_of_accesses)
  show ?case using Cons sub by (cases a) (simp_all, blast?)
qed simp

lemma chunk_tries_sent:
  assumes "map fst tries = rev (tries_of_accesses as)" "\<And>h trie. (h, trie) \<in> set tries \<Longrightarrow> trie_sent E C t H h trie"
  shows "sent_ok E C t H as h (map_of tries h)"
proof -
  have "fst ` set tries = set (tries_of_accesses as)" using assms(1) by (metis image_set set_rev)
  then have "map_of tries h \<noteq> None \<longleftrightarrow> AccStorageTrie h \<in> set as"
    by (simp add: map_of_eq_None_iff set_tries_of_accesses)
  moreover have "trie_sent E C t H h trie" if "map_of tries h = Some trie" for trie
    using assms(2) map_of_SomeD [OF that] by simp
  ultimately show ?thesis by (simp add: sent_ok_def)
qed

context rlp_laws
begin

lemma chunk_updatable:
  assumes w: "honest_world E C t S H accounts posts had" and sub: "sub_at t p = Some G"
    and es: "set es \<subseteq> set accounts" "distinct (map fst es)" "\<And>e. e \<in> set es \<Longrightarrow> entry_ok p e"
  shows "\<exists>G'. pt_updates (below p (map (entry_update E C S) es)) G = Ok G'"
    "e \<in> set es \<Longrightarrow> pt_get G (suffix_of p e) = pt_get t (to_nibs (fst e))"
proof -
  have t: "canon_top t" "keylen 64 t" using w by (simp_all add: honest_world_def)
  let ?us = "below p (map (entry_update E C S) es)"
  have nibs: "to_nibs (fst e) = p @ suffix_of p e" if "e \<in> set es" for e
    using es(3) [OF that] by (auto simp: entry_ok_def suffix_of_def prefix_def)
  then have get: "pt_get G (suffix_of p e) = pt_get t (to_nibs (fst e))" if "e \<in> set es" for e
    using pt_get_sub_at [OF sub, of "suffix_of p e"] that by simp
  then show "e \<in> set es \<Longrightarrow> pt_get G (suffix_of p e) = pt_get t (to_nibs (fst e))" .
  have map: "map fst ?us = map (suffix_of p) es" by (simp add: below_def suffix_of_def)
  have inj: "fst e = fst e'" if "e \<in> set es" "e' \<in> set es" "suffix_of p e = suffix_of p e'" for e e'
    using suffix_inj [OF es(3) es(3)] that by blast
  have "inj_on (suffix_of p) (set es)"
    using inj es(2) unfolding distinct_map inj_on_def by blast
  moreover have "distinct es" using es(2) by (simp add: distinct_map)
  ultimately have "distinct (map (suffix_of p) es)" by (simp only: distinct_map)
  then have d: "distinct (map fst ?us)" using map by simp
  have "nibbles (fst u) \<and> length (fst u) = 64 - length p \<and> (\<exists>r. pt_get G (fst u) = Ok r)" if u: "u \<in> set ?us" for u
  proof -
    have "fst u \<in> set (map (suffix_of p) es)" using u map by (metis image_eqI image_set)
    then obtain e where e: "e \<in> set es" "fst u = suffix_of p e" by auto
    then have ok: "entry_ok p e" using es(3) by blast
    have "length (to_nibs (fst e)) = 64" using ok by (simp add: entry_ok_def)
    then have "length (suffix_of p e) = 64 - length p" "nibbles (suffix_of p e)"
      using nibs [OF e(1)] nibbles_to_nibs [of "fst e"] by auto
    moreover have "\<exists>r. pt_get t (to_nibs (fst e)) = Ok r"
    proof -
      have "\<exists>sent. sent_ok E C t H posts (fst e) (sent (fst e))"
      proof (cases "AccStorageTrie (fst e) \<in> set posts")
        case True
        then have "access_sent E C t H (AccStorageTrie (fst e))" using w by (auto simp: honest_world_def)
        then obtain trie where "trie_sent E C t H (fst e) trie" by (auto simp: access_sent_def)
        with True show ?thesis by (intro exI [of _ "\<lambda>_. Some trie"]) (simp add: sent_ok_def)
      next
        case False
        then show ?thesis by (intro exI [of _ "\<lambda>_. None"]) (simp add: sent_ok_def)
      qed
      then obtain sent where "entry_served E C t S had sent e" using w e(1) es(1) unfolding honest_world_def by blast
      then show ?thesis by (cases e) (auto simp: entry_served_def account_at_def split: outcome.splits)
    qed
    ultimately show ?thesis using get [OF e(1)] e(2) by simp
  qed
  with pt_updates_readable [OF sub_at_canon [OF t(1) sub] _ d] keylen_sub_at [OF t(2) sub]
  show "\<exists>G'. pt_updates ?us G = Ok G'" by blast
qed

end

section \<open>The loop body on an honest chunk\<close>

lemma write_chunk_parts:
  assumes "write_chunk H posts ch = Ok hs"
  obtains ws where "write_hints (chunk_hint H) (chunk_posts posts (chunk_prefix ch)) = Ok ws"
    "hs = HWitness (WStateChunk \<lparr>sch_prefix = chunk_prefix ch, sch_expected_root = chunk_expected_root ch,
       sch_num_nodes = chunk_num_nodes ch, sch_witness_count = length (chunk_posts posts (chunk_prefix ch))\<rparr>) # HRaw (chunk_bytes ch) # ws"
  using assms by (auto simp: write_chunk_def Let_def chunk_posts_def in_chunk_def split: outcome.splits)

lemma cache_ok_lookup:
  assumes "cache_ok C t cache" "k \<in> set (map fst cache)"
  shows "\<exists>acc. map_of cache k = Some acc \<and> length k = 32 \<and> account_at C t k = Ok acc"
proof -
  obtain acc where "(k, acc) \<in> set cache" using assms(2) by auto
  with assms(1) show ?thesis by (fastforce simp: cache_ok_def)
qed

lemma chunk_posts_entries:
  assumes w: "honest_world E C t S H accounts posts had" and es: "set es = {e \<in> set accounts. prefix p (fst (snd e))}"
    and a: "a \<in> set (chunk_posts posts p)"
  shows "access_sent E C t H a" "in_chunk p (access_hash a)" "access_hash a \<in> fst ` set es"
proof -
  have a': "a \<in> set posts" "in_chunk p (access_hash a)" using a by (auto simp: chunk_posts_def)
  then show sent: "access_sent E C t H a" "in_chunk p (access_hash a)" using w by (auto simp: honest_world_def)
  obtain e where e: "e \<in> set accounts" "access_hash a = fst e" using w a'(1) unfolding honest_world_def by fastforce
  then have "fst (snd e) = to_nibs (fst e)" "length (fst e) = 32" using w by (auto simp: honest_world_def accounts_ok_def)
  with e a'(2) es in_chunk_prefix show "access_hash a \<in> fst ` set es" by auto
qed

context rlp_laws
begin

text \<open>The chunk, the cached accounts and the witnesses are read.\<close>

lemma open_honest_chunk:
  assumes w: "honest_world E C t S H accounts posts had" and ch: "chunk_of E t p ch" "length (chunk_bytes ch) < 2 ^ 31"
    and G: "sub_at t p = Some G" and es: "set es = {e \<in> set accounts. prefix p (fst (snd e))}"
    and s: "cache_ok C t (sts_account_cache s)" "write_chunk H posts ch = Ok hs" "sts_input s = hs @ rest"
  shows "\<exists>h chunk s1 s2 s3 tries. read_chunk E s = (Ok (h, chunk), s1) \<and> sch_prefix h = p \<and> sch_expected_root h = root_hash E G
    \<and> repr_tree E chunk G \<and> length (nodes chunk) \<le> 2 ^ 31
    \<and> consume_cached C chunk p (filter (in_chunk p) (map fst (sts_account_cache s1))) s1 = (Ok (), s2)
    \<and> read_chunk_witnesses E C chunk p (sch_witness_count h) [] s2 = (Ok tries, s3)
    \<and> s3 = s\<lparr>sts_input := rest, sts_account_cache := filter (\<lambda>e. \<not> in_chunk p (fst e)) (sts_account_cache s)\<rparr>
    \<and> map fst tries = rev (tries_of_accesses (chunk_posts posts p)) \<and> (\<forall>h trie. (h, trie) \<in> set tries \<longrightarrow> trie_sent E C t H h trie)"
proof -
  have w': "canon_top t" "pt_nodes t < 2 ^ 32" "distinct (tries_of_accesses posts)" using w by (simp_all add: honest_world_def)
  have c: "chunk_expected_root ch = root_hash E G" "chunk_bytes ch = tree_stream E G" "chunk_prefix ch = p"
    using ch(1) G by (auto simp: chunk_of_def)
  let ?as = "chunk_posts posts p" and ?cache = "sts_account_cache s"
  let ?h = "\<lparr>sch_prefix = p, sch_expected_root = root_hash E G, sch_num_nodes = chunk_num_nodes ch, sch_witness_count = length ?as\<rparr>"
  obtain ws where ws: "write_hints (chunk_hint H) ?as = Ok ws" "hs = HWitness (WStateChunk ?h) # HRaw (tree_stream E G) # ws"
    using write_chunk_parts [OF s(2)] c by metis
  have in1: "sts_input s = HWitness (WStateChunk ?h) # HRaw (tree_stream E G) # (ws @ rest)" using s(3) ws(2) by simp
  obtain chunk where chunk: "read_chunk E s = (Ok (?h, chunk), s\<lparr>sts_input := ws @ rest\<rparr>)" "repr_tree E chunk G" "length (nodes chunk) \<le> 2 ^ 31"
    using read_honest_chunk [OF w'(1,2) G _ _ in1] ch(2) c(2) by auto
  let ?ks = "filter (in_chunk p) (map fst ?cache)" and ?s1 = "s\<lparr>sts_input := ws @ rest\<rparr>"
  let ?s2 = "?s1\<lparr>sts_account_cache := filter (\<lambda>e. \<not> in_chunk p (fst e)) ?cache\<rparr>"
  have "\<exists>acc. map_of ?cache k = Some acc \<and> chunk_account C chunk p k = Ok acc" if "k \<in> set ?ks" for k
    using that cache_ok_lookup [OF s(1), of k] chunk_account_repr [OF chunk(2) G, of k C] by auto
  moreover have "distinct ?ks" using s(1) by (simp add: cache_ok_def)
  moreover have "filter (\<lambda>e. fst e \<notin> set ?ks) ?cache = filter (\<lambda>e. \<not> in_chunk p (fst e)) ?cache" by (rule filter_cong) auto
  ultimately have cons: "consume_cached C chunk p ?ks ?s1 = (Ok (), ?s2)" using consume_cached_complete [of ?ks ?s1 C chunk p] by simp
  have as: "access_sent E C t H a \<and> in_chunk p (access_hash a)" if "a \<in> set ?as" for a
    using chunk_posts_entries(1,2) [OF w es that] by blast
  have "distinct (tries_of_accesses ?as)" using distinct_tries_filter [OF w'(3)] by (simp add: chunk_posts_def)
  from read_witnesses_complete [OF chunk(2) G as this] ws(1) obtain tries where
    tries: "map fst tries = rev (tries_of_accesses ?as)" "\<forall>h trie. (h, trie) \<in> set tries \<longrightarrow> trie_sent E C t H h trie"
    "\<forall>post s rest. fst ` set post \<inter> set (tries_of_accesses ?as) = {} \<longrightarrow> sts_input s = ws @ rest \<longrightarrow>
       read_chunk_witnesses E C chunk p (length ?as) post s = (Ok (tries @ post), s\<lparr>sts_input := rest\<rparr>)" by auto
  have "read_chunk_witnesses E C chunk p (length ?as) [] ?s2 = (Ok tries, ?s2\<lparr>sts_input := rest\<rparr>)"
    using tries(3) [rule_format, of "[]" ?s2 rest] by simp
  with chunk cons tries(1,2) show ?thesis
    by (intro exI [of _ ?h] exI [of _ chunk] exI [of _ ?s1] exI [of _ ?s2] exI [of _ "?s2\<lparr>sts_input := rest\<rparr>"] exI [of _ tries]) simp
qed

text \<open>Its accounts are updated, and no storage trie is left over.\<close>

lemma update_honest_chunk:
  assumes w: "honest_world E C t S H accounts posts had" and G: "sub_at t p = Some G"
    and es: "set es = {e \<in> set accounts. prefix p (fst (snd e))}" "distinct (map fst es)" "\<And>e. e \<in> set es \<Longrightarrow> entry_ok p e" "length es < 2 ^ 28"
    and chunk: "repr_tree E chunk G" "length (nodes chunk) \<le> 2 ^ 31"
    and tries: "map fst tries = rev (tries_of_accesses (chunk_posts posts p))" "\<forall>h trie. (h, trie) \<in> set tries \<longrightarrow> trie_sent E C t H h trie"
    and had: "\<And>e. e \<in> set es \<Longrightarrow> sts_storage_tries s (fst e) = had (fst e)"
  shows "\<exists>G' chunk' s'. pt_updates (below p (map (entry_update E C S) es)) G = Ok G'
    \<and> apply_chunk_accounts E C p es chunk tries s = (Ok (chunk', []), s') \<and> repr_tree E chunk' G' \<and> tries_dropped (fst ` set es) s s'"
proof -
  let ?as = "chunk_posts posts p"
  have sub: "set es \<subseteq> set accounts" using es(1) by auto
  obtain G' where G': "pt_updates (below p (map (entry_update E C S) es)) G = Ok G'" using chunk_updatable(1) [OF w G sub es(2,3)] by blast
  have served: "entry_served E C t S (sts_storage_tries s) (map_of tries) e" if e: "e \<in> set es" for e
  proof -
    have "sent_ok E C t H ?as (fst e) (map_of tries (fst e))" using chunk_tries_sent [OF tries(1)] tries(2) by blast
    moreover have "in_chunk p (fst e)" using es(3) [OF e] in_chunk_prefix by (auto simp: entry_ok_def)
    ultimately have "sent_ok E C t H posts (fst e) (map_of tries (fst e))" by (simp add: sent_ok_def chunk_posts_def access_hash_def)
    then have "entry_served E C t S had (map_of tries) e" using w e sub by (auto simp: honest_world_def)
    with had [OF e] show ?thesis by (cases e) (simp add: entry_served_def)
  qed
  have room: "trie_room (0 + length es) chunk" using chunk(2) es(4) by (simp add: trie_room_def)
  have "entry_ok p e \<and> entry_served E C t S (sts_storage_tries s) (map_of tries) e \<and> pt_get G (suffix_of p e) = pt_get t (to_nibs (fst e))"
    if "e \<in> set es" for e using es(3) served chunk_updatable(2) [OF w G sub es(2,3) that] that by blast
  from apply_chunk_accounts_complete [OF chunk(1) room es(2) this G'] obtain chunk' s' where
    app: "apply_chunk_accounts E C p es chunk tries s = (Ok (chunk', filter (\<lambda>x. fst x \<notin> fst ` set es) tries), s')"
      "repr_tree E chunk' G'" "tries_dropped (fst ` set es) s s'" by blast
  have "fst x \<in> fst ` set es" if x: "x \<in> set tries" for x
  proof -
    have "fst x \<in> set (tries_of_accesses ?as)" using x tries(1) by (metis image_eqI image_set set_rev)
    then have "AccStorageTrie (fst x) \<in> set ?as" by (simp add: set_tries_of_accesses)
    from chunk_posts_entries(3) [OF w es(1) this] show ?thesis by (simp add: access_hash_def)
  qed
  then have "filter (\<lambda>x. fst x \<notin> fst ` set es) tries = []" by (simp add: filter_empty_conv)
  with app G' show ?thesis by auto
qed

lemma process_honest_chunk:
  assumes w: "honest_world E C t S H accounts posts had"
    and ch: "chunk_of E t p ch" "length (chunk_bytes ch) < 2 ^ 31"
    and es: "es = chunk_entries accounts p c" "es \<noteq> []" "set es = {e \<in> set accounts. prefix p (fst (snd e))}" "chunk_survives E C S t p es"
    and fr: "front E s f T (Suc n)" "canon_top T" "sub_at T p = sub_at t p" "sub_at f p \<noteq> None"
    and s: "cache_ok C t (sts_account_cache s)" "\<And>e. e \<in> set es \<Longrightarrow> sts_storage_tries s (fst e) = had (fst e)"
      "write_chunk H posts ch = Ok hs" "sts_input s = hs @ rest"
  shows "\<exists>s' f' G G'. process_chunk E C accounts c s = (Ok (advance_cursor accounts p c), s') \<and> sub_at t p = Some G
    \<and> pt_updates (below p (map (entry_update E C S) es)) G = Ok G' \<and> front E s' f' (put_at T p G') n \<and> canon (put_at T p G')
    \<and> (\<forall>q. parallel p q \<longrightarrow> sub_at f' q = sub_at f q) \<and> (\<forall>k. \<not> prefix p k \<longrightarrow> pt_get f' k = pt_get f k)
    \<and> sts_input s' = rest \<and> sts_account_cache s' = filter (\<lambda>e. \<not> in_chunk p (fst e)) (sts_account_cache s)
    \<and> (\<forall>k. k \<notin> fst ` set es \<longrightarrow> sts_storage_tries s' k = sts_storage_tries s k)"
proof -
  have ok: "accounts_ok accounts" using w by (simp add: honest_world_def)
  obtain G where G: "sub_at t p = Some G" using ch(1) by (auto simp: chunk_of_def)
  obtain h chunk s1 s2 s3 tries where r: "read_chunk E s = (Ok (h, chunk), s1)" "sch_prefix h = p" "sch_expected_root h = root_hash E G"
    "repr_tree E chunk G" "length (nodes chunk) \<le> 2 ^ 31"
    "consume_cached C chunk p (filter (in_chunk p) (map fst (sts_account_cache s1))) s1 = (Ok (), s2)"
    "read_chunk_witnesses E C chunk p (sch_witness_count h) [] s2 = (Ok tries, s3)"
    "s3 = s\<lparr>sts_input := rest, sts_account_cache := filter (\<lambda>e. \<not> in_chunk p (fst e)) (sts_account_cache s)\<rparr>"
    "map fst tries = rev (tries_of_accesses (chunk_posts posts p))" "\<forall>h trie. (h, trie) \<in> set tries \<longrightarrow> trie_sent E C t H h trie"
    using open_honest_chunk [OF w ch G es(3) s(1,3,4)] by blast
  have had: "sts_storage_tries s3 (fst e) = had (fst e)" if "e \<in> set es" for e using s(2) [OF that] r(8) by simp
  have ent: "distinct (map fst es)" "length es < 2 ^ 28" "entry_ok p e" if "e \<in> set es" for e
    using distinct_chunk_entries [OF ok] chunk_entries_ok(1) [OF ok] that unfolding es(1) by blast+
  obtain G' chunk' s4 where a: "pt_updates (below p (map (entry_update E C S) es)) G = Ok G'"
    "apply_chunk_accounts E C p es chunk tries s3 = (Ok (chunk', []), s4)" "repr_tree E chunk' G'" "tries_dropped (fst ` set es) s3 s4"
    using update_honest_chunk [OF w G es(3) _ _ _ r(4,5,9,10) had] ent es(2) by (metis list.set_intros(1) neq_Nil_conv)
  obtain tt where s4: "s4 = s3\<lparr>sts_storage_tries := tt\<rparr>" "\<And>k. k \<notin> fst ` set es \<Longrightarrow> tt k = sts_storage_tries s k"
    using a(4) r(8) by (auto simp: tries_dropped_def)
  obtain d where surv: "pt_anchor G \<longrightarrow> pt_anchor G'" "tree_ref E G' = RefDigest d" "d \<noteq> EMPTY_ROOT_HASH E" "G' \<noteq> PNull"
    using es(4) G a(1) by (auto simp: chunk_survives_def)
  have f4: "front E s4 f T (Suc n)" using fr(1) s4(1) r(8) by (simp add: front_def)
  have T: "sub_at T (sch_prefix h) = Some G" "sub_at f (sch_prefix h) \<noteq> None" using fr(3,4) G r(2) by simp_all
  obtain m' f' where fin: "finish_chunk E h chunk' s4 = (Ok (), s4\<lparr>sts_state_trie := Some m'\<rparr>)"
    "front E (s4\<lparr>sts_state_trie := Some m'\<rparr>) f' (put_at T p G') n" "canon (put_at T p G')"
    "\<forall>q. parallel p q \<longrightarrow> sub_at f' q = sub_at f q" "\<forall>k. \<not> prefix p k \<longrightarrow> pt_get f' k = pt_get f k"
    using finish_honest_chunk [OF f4 fr(2) T r(3) a(3) surv] r(2) by auto
  have cur: "advance_cursor accounts p c \<noteq> c" using es(1,2) by (auto simp: chunk_entries_takeWhile advance_cursor_def)
  have "process_chunk E C accounts c s = (Ok (advance_cursor accounts p c), s4\<lparr>sts_state_trie := Some m'\<rparr>)"
    unfolding process_chunk_def using r(1,2,6,7) cur a(2) fin(1) es(1) by (simp add: Let_def chunk_entries_def)
  with G a(1) fin s4 r(8) show ?thesis by (intro exI [of _ "s4\<lparr>sts_state_trie := Some m'\<rparr>"] exI [of _ f'] exI [of _ G] exI [of _ G']) simp
qed

end

end
