(* ===== verification/Honest_Run.thy ===== *)
theory Honest_Run
  imports Honest_Step
begin

text \<open>The streamed update on the chunks of an honest host.\<close>

section \<open>The invariant of the loop\<close>

text \<open>The chunks: subtrees of the trie at sorted prefixes, none a prefix of another, that survive their updates.\<close>

definition chunks_ok ::
  "ext \<Rightarrow> eth_codec \<Rightarrow> (bytes \<Rightarrow> ptree) \<Rightarrow> ptree \<Rightarrow> bundle_entry list \<Rightarrow> frontier_chunk list \<Rightarrow> bool" where
  "chunks_ok E C S t accounts chs \<longleftrightarrow> sorted (map chunk_prefix chs) \<and> sorted_wrt parallel (map chunk_prefix chs)
     \<and> (\<forall>ch \<in> set chs. chunk_of E t (chunk_prefix ch) ch \<and> length (chunk_bytes ch) < 2 ^ 31
          \<and> chunk_survives E C S t (chunk_prefix ch) (filter (\<lambda>e. prefix (chunk_prefix ch) (fst (snd e))) accounts))"

text \<open>The chunks \<open>chs\<close> of all chunks \<open>cs\<close> are still to come, for the entries from \<open>c\<close> on.\<close>

definition entries_split :: "bundle_entry list \<Rightarrow> frontier_chunk list \<Rightarrow> nat \<Rightarrow> bool" where
  "entries_split accounts chs c \<longleftrightarrow> c \<le> length accounts
     \<and> (\<forall>e \<in> set (drop c accounts). \<exists>ch \<in> set chs. prefix (chunk_prefix ch) (fst (snd e)))
     \<and> (\<forall>ch \<in> set chs. \<exists>e \<in> set (drop c accounts). prefix (chunk_prefix ch) (fst (snd e)))
     \<and> (\<forall>e \<in> set (take c accounts). \<forall>ch \<in> set chs. \<not> prefix (chunk_prefix ch) (fst (snd e)))"

definition frontier_inv ::
  "ext \<Rightarrow> eth_codec \<Rightarrow> (bytes \<Rightarrow> ptree) \<Rightarrow> ptree \<Rightarrow> bundle_entry list \<Rightarrow> frontier_chunk list \<Rightarrow> frontier_chunk list \<Rightarrow> nat \<Rightarrow>
   streaming_state \<Rightarrow> ptree \<Rightarrow> ptree \<Rightarrow> bool" where
  "frontier_inv E C S t accounts cs chs c s f T \<longleftrightarrow> front E s f T (length chs)
     \<and> after t (map (entry_update E C S) (take c accounts)) T
     \<and> (\<forall>ch \<in> set chs. sub_at T (chunk_prefix ch) = sub_at t (chunk_prefix ch) \<and> sub_at f (chunk_prefix ch) \<noteq> None)
     \<and> (\<forall>k. (\<forall>ch \<in> set cs. \<not> prefix (chunk_prefix ch) k) \<longrightarrow> pt_get f k = pt_get t k)"

definition stream_ok ::
  "eth_codec \<Rightarrow> ptree \<Rightarrow> hint_source \<Rightarrow> bundle_entry list \<Rightarrow> witness_access list \<Rightarrow> (bytes \<Rightarrow> mpt option) \<Rightarrow> frontier_chunk list \<Rightarrow>
   frontier_chunk list \<Rightarrow> nat \<Rightarrow> streaming_state \<Rightarrow> bool" where
  "stream_ok C t H accounts posts had cs chs c s \<longleftrightarrow> write_hints (write_chunk H posts) chs = Ok (sts_input s)
     \<and> cache_ok C t (sts_account_cache s)
     \<and> (\<forall>e \<in> set (sts_account_cache s). \<forall>ch \<in> set cs - set chs. \<not> prefix (chunk_prefix ch) (to_nibs (fst e)))
     \<and> (\<forall>e \<in> set (drop c accounts). sts_storage_tries s (fst e) = had (fst e))"

lemma parallel_prefix: "parallel p q \<Longrightarrow> prefix p x \<Longrightarrow> \<not> prefix q x"
  using prefix_same_cases by (auto simp: parallel_def)

lemma drop_advance: "drop (advance_cursor accounts p c) accounts = dropWhile (\<lambda>e. prefix p (fst (snd e))) (drop c accounts)"
  by (simp add: advance_cursor_def starts_with_prefix dropWhile_eq_drop add.commute)

lemma next_chunk:
  assumes split: "entries_split accounts (ch # chs) c" and cs: "chunks_ok E C S t accounts (ch # chs)"
    and sorted: "sorted (map (\<lambda>e. fst (snd e)) accounts)"
  shows "chunk_entries accounts (chunk_prefix ch) c = filter (\<lambda>e. prefix (chunk_prefix ch) (fst (snd e))) accounts"
    "chunk_entries accounts (chunk_prefix ch) c \<noteq> []" "entries_split accounts chs (advance_cursor accounts (chunk_prefix ch) c)"
proof -
  let ?p = "chunk_prefix ch" and ?g = "\<lambda>e. fst (snd e)" and ?es = "chunk_entries accounts (chunk_prefix ch) c"
  let ?P = "\<lambda>e :: bundle_entry. prefix (chunk_prefix ch) (fst (snd e))" and ?c' = "advance_cursor accounts (chunk_prefix ch) c"
  have par: "parallel ?p (chunk_prefix ch')" if "ch' \<in> set chs" for ch' using cs that by (simp add: chunks_ok_def)
  have ks: "sorted (map ?g (drop c accounts))" using sorted by (simp add: drop_map [symmetric] sorted_wrt_drop)
  have ps: "sorted (?p # map chunk_prefix chs)" "sorted_wrt parallel (?p # map chunk_prefix chs)" using cs by (simp_all add: chunks_ok_def)
  have cover: "\<And>e. e \<in> set (drop c accounts) \<Longrightarrow> \<exists>q \<in> set (?p # map chunk_prefix chs). prefix q (?g e)"
    and used: "\<And>q. q \<in> set (?p # map chunk_prefix chs) \<Longrightarrow> \<exists>e \<in> set (drop c accounts). prefix q (?g e)"
    using split by (auto simp: entries_split_def)
  note first = first_chunk [OF ks ps cover used]
  have es: "?es = takeWhile ?P (drop c accounts)" by (simp add: chunk_entries_takeWhile starts_with_prefix)
  then show "?es \<noteq> []" using first(1) by simp
  have rest: "drop ?c' accounts = dropWhile ?P (drop c accounts)" by (rule drop_advance)
  have "filter ?P (take c accounts) = []" using split by (auto simp: entries_split_def filter_empty_conv)
  moreover have "filter ?P ?es = ?es" unfolding es by (rule filter_True) (auto dest: set_takeWhileD)
  moreover have "filter ?P (dropWhile ?P (drop c accounts)) = []" using first(3) by (intro filter_False) blast
  moreover have "filter ?P accounts = filter ?P (take c accounts @ ?es @ dropWhile ?P (drop c accounts))" unfolding es by simp
  ultimately show "?es = filter ?P accounts" by simp
  have "\<not> prefix (chunk_prefix ch') (?g e)" if "e \<in> set ?es" "ch' \<in> set chs" for e ch'
    using that parallel_prefix [OF par] es by (auto dest: set_takeWhileD)
  then have "\<forall>e \<in> set (take ?c' accounts). \<forall>ch' \<in> set chs. \<not> prefix (chunk_prefix ch') (?g e)"
    using split by (auto simp: take_advance entries_split_def)
  moreover have "?c' \<le> length accounts" using split advance_cursor_le by (simp add: entries_split_def)
  ultimately show "entries_split accounts chs ?c'"
    using first(2,4) unfolding entries_split_def rest by auto
qed

context rlp_laws
begin

text \<open>The trie with the updated chunk in its place.\<close>

lemma put_at_after:
  assumes T: "after t (map (entry_update E C S) (take c accounts)) T" "sub_at T p = Some G" "canon (put_at T p G')"
    and es: "es = chunk_entries accounts p c" "\<And>e. e \<in> set es \<Longrightarrow> entry_ok p e" "canon_top G"
    and G': "pt_updates (below p (map (entry_update E C S) es)) G = Ok G'"
  shows "after t (map (entry_update E C S) (take (advance_cursor accounts p c) accounts)) (put_at T p G')"
proof -
  let ?us = "map (entry_update E C S) es"
  have pre: "nibbles p" using sub_at_nibbles [of T p] T(1,2) by (simp add: after_def)
  have us: "list_all (\<lambda>u. prefix p (fst u)) ?us" "nib_keys (below p ?us)"
    using es(2) by (auto simp: list_all_iff nib_keys_def below_def entry_ok_def)
  have v: "pt_get G' q = viewed (\<lambda>k. k) (below p ?us) (pt_get G) q" if "nibbles q" for q
    using pt_updates_view [OF G' es(3) us(2)] that by blast
  have "pt_get (put_at T p G') k =
      viewed (\<lambda>k. k) (map (entry_update E C S) (take (advance_cursor accounts p c) accounts)) (pt_get t) k" if k: "nibbles k" for k
  proof -
    have "pt_get (put_at T p G') k = viewed (\<lambda>k. k) ?us (pt_get T) k" by (rule put_at_viewed [OF T(2) pre us(1) v k])
    also have "\<dots> = viewed (\<lambda>k. k) ?us (viewed (\<lambda>k. k) (map (entry_update E C S) (take c accounts)) (pt_get t)) k"
      by (rule viewed_id_cong) (use T(1) k in \<open>simp_all add: after_def\<close>)
    finally show ?thesis by (simp add: es(1) take_advance viewed_append)
  qed
  with T(3) show ?thesis by (simp add: after_def canon_top_def)
qed

lemma honest_chunk_step:
  assumes w: "honest_world E C t S H accounts posts had" and cs: "chunks_ok E C S t accounts (ch # chs)" "set (ch # chs) \<subseteq> set cs"
    and sorted: "sorted (map (\<lambda>e. fst (snd e)) accounts)" and split: "entries_split accounts (ch # chs) c"
    and fr: "frontier_inv E C S t accounts cs (ch # chs) c s f T" and s: "stream_ok C t H accounts posts had cs (ch # chs) c s"
  shows "\<exists>c' s' f' T'. process_chunk E C accounts c s = (Ok c', s') \<and> entries_split accounts chs c'
    \<and> frontier_inv E C S t accounts cs chs c' s' f' T' \<and> stream_ok C t H accounts posts had cs chs c' s'"
proof -
  let ?p = "chunk_prefix ch" and ?c' = "advance_cursor accounts (chunk_prefix ch) c"
  define es where "es = chunk_entries accounts ?p c"
  note n = next_chunk [OF split cs(1) sorted]
  have ch: "chunk_of E t ?p ch" "length (chunk_bytes ch) < 2 ^ 31" "chunk_survives E C S t ?p es"
    and par: "\<And>ch'. ch' \<in> set chs \<Longrightarrow> parallel ?p (chunk_prefix ch')"
    using cs(1) n(1) by (simp_all add: chunks_ok_def es_def)
  have es: "es \<noteq> []" "set es = {e \<in> set accounts. prefix ?p (fst (snd e))}" using n(1,2) by (auto simp: es_def)
  have w': "canon_top t" "accounts_ok accounts" using w by (simp_all add: honest_world_def)
  have f: "front E s f T (Suc (length chs))" "canon_top T" "sub_at T ?p = sub_at t ?p" "sub_at f ?p \<noteq> None"
    using fr by (auto simp: frontier_inv_def after_def)
  obtain hs rest where hs: "write_chunk H posts ch = Ok hs" "write_hints (write_chunk H posts) chs = Ok rest" "sts_input s = hs @ rest"
    using s by (auto simp: stream_ok_def split: outcome.splits)
  have cache: "cache_ok C t (sts_account_cache s)" using s by (simp add: stream_ok_def)
  have sub: "set es \<subseteq> set (drop c accounts)" using chunk_entries_ok(2) [OF w'(2)] by (auto simp: es_def)
  then have had: "sts_storage_tries s (fst e) = had (fst e)" if "e \<in> set es" for e using s that by (auto simp: stream_ok_def)
  obtain s' f' G G' where r: "process_chunk E C accounts c s = (Ok ?c', s')" "sub_at t ?p = Some G"
    "pt_updates (below ?p (map (entry_update E C S) es)) G = Ok G'" "front E s' f' (put_at T ?p G') (length chs)" "canon (put_at T ?p G')"
    "\<forall>q. parallel ?p q \<longrightarrow> sub_at f' q = sub_at f q" "\<forall>k. \<not> prefix ?p k \<longrightarrow> pt_get f' k = pt_get f k"
    "sts_input s' = rest" "sts_account_cache s' = filter (\<lambda>e. \<not> in_chunk ?p (fst e)) (sts_account_cache s)"
    "\<forall>k. k \<notin> fst ` set es \<longrightarrow> sts_storage_tries s' k = sts_storage_tries s k"
    using process_honest_chunk [OF w ch(1,2) es_def es ch(3) f cache had hs(1,3)] by blast
  have T: "sub_at T ?p = Some G" "after t (map (entry_update E C S) (take c accounts)) T" using f(3) r(2) fr by (simp_all add: frontier_inv_def)
  have "after t (map (entry_update E C S) (take ?c' accounts)) (put_at T ?p G')"
    by (rule put_at_after [OF T(2,1) r(5) es_def _ sub_at_canon [OF w'(1) r(2)] r(3)]) (use chunk_entries_ok(1) [OF w'(2)] in \<open>auto simp: es_def\<close>)
  moreover have "sub_at (put_at T ?p G') (chunk_prefix ch') = sub_at t (chunk_prefix ch') \<and> sub_at f' (chunk_prefix ch') \<noteq> None"
    if "ch' \<in> set chs" for ch'
  proof -
    have "sub_at T ?p \<noteq> None" using T(1) by simp
    from sub_at_put_at_parallel [OF this par [OF that], of G'] fr r(6) par [OF that] that show ?thesis by (simp add: frontier_inv_def)
  qed
  moreover have "pt_get f' k = pt_get t k" if "\<forall>ch \<in> set cs. \<not> prefix (chunk_prefix ch) k" for k
    using fr r(7) that cs(2) by (auto simp: frontier_inv_def)
  ultimately have "frontier_inv E C S t accounts cs chs ?c' s' f' (put_at T ?p G')" using r(4) by (simp add: frontier_inv_def)
  moreover have "stream_ok C t H accounts posts had cs chs ?c' s'"
    unfolding stream_ok_def
  proof (intro conjI ballI)
    show "write_hints (write_chunk H posts) chs = Ok (sts_input s')" using hs(2) r(8) by simp
    show "cache_ok C t (sts_account_cache s')" using cache by (auto simp: cache_ok_def r(9) distinct_map_filter)
  next
    fix e ch' assume e: "e \<in> set (sts_account_cache s')" and ch': "ch' \<in> set cs - set chs"
    have l: "length (fst e) = 32" "\<not> in_chunk ?p (fst e)" "e \<in> set (sts_account_cache s)" using e cache r(9) by (auto simp: cache_ok_def)
    then show "\<not> prefix (chunk_prefix ch') (to_nibs (fst e))"
      using in_chunk_prefix [OF l(1)] s ch' by (cases "ch' = ch") (auto simp: stream_ok_def)
  next
    fix e assume "e \<in> set (drop ?c' accounts)"
    then have e: "e \<in> set (drop c accounts)" "fst e \<in> set (map fst (drop ?c' accounts))"
      using drop_advance [of accounts ?p c] by (auto dest: set_dropWhileD)
    have "drop c accounts = es @ drop ?c' accounts"
      by (simp add: es_def chunk_entries_takeWhile drop_advance starts_with_prefix)
    moreover have "distinct (map fst (drop c accounts))" using w'(2) by (simp add: accounts_ok_def drop_map [symmetric])
    ultimately have "set (map fst es) \<inter> set (map fst (drop ?c' accounts)) = {}" by (metis distinct_append map_append)
    then have "fst e \<notin> fst ` set es" using e(2) by auto
    with r(10) s e(1) show "sts_storage_tries s' (fst e) = had (fst e)" by (simp add: stream_ok_def)
  qed
  ultimately show ?thesis using r(1) n(3) by blast
qed

end

section \<open>The whole update\<close>

lemma chunk_count:
  "entries_split accounts chs c \<Longrightarrow> chunks_ok E C S t accounts chs \<Longrightarrow> sorted (map (\<lambda>e. fst (snd e)) accounts) \<Longrightarrow>
   length chs + c \<le> length accounts"
proof (induction chs arbitrary: c)
  case (Cons ch chs)
  note n = next_chunk [OF Cons.prems]
  have "chunks_ok E C S t accounts chs" using Cons.prems(2) by (simp add: chunks_ok_def)
  from Cons.IH [OF n(3) this Cons.prems(3)] have "length chs + advance_cursor accounts (chunk_prefix ch) c \<le> length accounts" .
  moreover have "c < advance_cursor accounts (chunk_prefix ch) c"
    using n(2) by (simp add: advance_cursor_def chunk_entries_takeWhile)
  ultimately show ?case by simp
qed (simp add: entries_split_def)

lemma check_cached_complete:
  "(\<And>e. e \<in> set cache \<Longrightarrow> get_rlp (account_decode C) trie (fst e) = Ok (snd e)) \<Longrightarrow> check_cached C trie cache = Ok ()"
  by (induction cache) simp_all

context rlp_laws
begin

lemma honest_chunks_run:
  assumes "honest_world E C t S H accounts posts had" "sorted (map (\<lambda>e. fst (snd e)) accounts)"
    and "chunks_ok E C S t accounts chs" "set chs \<subseteq> set cs" "entries_split accounts chs c"
    and "frontier_inv E C S t accounts cs chs c s f T" "stream_ok C t H accounts posts had cs chs c s"
  shows "\<exists>s' f' T'. process_chunks E C accounts (length chs) c s = (Ok (length accounts), s')
    \<and> frontier_inv E C S t accounts cs [] (length accounts) s' f' T' \<and> stream_ok C t H accounts posts had cs [] (length accounts) s'"
  using assms
proof (induction chs arbitrary: c s f T)
  case Nil
  then have "drop c accounts = []" by (cases "drop c accounts") (auto simp: entries_split_def)
  then have "c = length accounts" using Nil.prems(5) by (simp add: entries_split_def)
  with Nil.prems show ?case by auto
next
  case (Cons ch chs)
  obtain c' s1 f1 T1 where r: "process_chunk E C accounts c s = (Ok c', s1)" "entries_split accounts chs c'"
    "frontier_inv E C S t accounts cs chs c' s1 f1 T1" "stream_ok C t H accounts posts had cs chs c' s1"
    using honest_chunk_step [OF Cons.prems(1,3,4,2,5-7)] by blast
  have "chunks_ok E C S t accounts chs" "set chs \<subseteq> set cs" using Cons.prems(3,4) by (simp_all add: chunks_ok_def)
  from Cons.IH [OF Cons.prems(1,2) this r(2-4)] r(1) show ?case by auto
qed

text \<open>The accounts left in the cache are outside all chunks, where the frontier reads as the trie.\<close>

lemma honest_cache_valid:
  assumes fr: "frontier_inv E C S t accounts cs [] c s f T" and s: "stream_ok C t H accounts posts had cs [] c s"
  shows "validate_account_cache C s = (Ok (), s)" "fst (state_root E s) = Ok (root_hash E T)"
proof -
  obtain m where m: "sts_state_trie s = Some m" "stores_tree E m f" "blinds E f T" using fr by (auto simp: frontier_inv_def front_def)
  have T: "canon_top T" using fr by (simp add: frontier_inv_def after_def)
  obtain a where "stores E m a" "erase a = f" using m(2) by (auto simp: stores_tree_def)
  then have "digests_ok f" using holds_digests_ok storesD(1) by metis
  then have "canon_top f" using blinds_canon [OF m(3)] T m(3) by (cases "T = PNull") (auto simp: canon_top_def elim: blinds.cases)
  with m(2) have rep: "repr_tree E m f" by (simp add: repr_stores)
  have "get_rlp (account_decode C) m (fst e) = Ok (snd e)" if e: "e \<in> set (sts_account_cache s)" for e
  proof -
    have "\<forall>ch \<in> set cs. \<not> prefix (chunk_prefix ch) (to_nibs (fst e))" using s e by (simp add: stream_ok_def)
    then have "pt_get f (to_nibs (fst e)) = pt_get t (to_nibs (fst e))" using fr by (simp add: frontier_inv_def)
    moreover have "account_at C t (fst e) = Ok (snd e)" using s e by (simp add: stream_ok_def cache_ok_def)
    ultimately show ?thesis by (simp add: repr_account [OF rep] account_at_def)
  qed
  from check_cached_complete [OF this] m(1) show "validate_account_cache C s = (Ok (), s)" by (simp add: validate_account_cache_def)
  show "fst (state_root E s) = Ok (root_hash E T)"
    using hash_repr [OF rep] blinds_root_hash [OF m(3)] m(1) by (auto simp: state_root_def)
qed

lemma honest_frontier_loaded:
  assumes t: "canon_top t" "t = PNull \<or> (\<exists>d. tree_ref E t = RefDigest d)" and p: "partition_ok E t keys fr f" "length (frontier_bytes fr) < 2 ^ 31"
    and s: "sts_state_trie s = None" "sts_input s = HRaw (frontier_bytes fr) # hs" "sts_parent_state_root s = root_hash E t" and n: "n < 2 ^ 31"
  shows "\<exists>m. ensure_state_trie_loaded E s = (Ok (), s\<lparr>sts_input := hs, sts_state_trie := Some m\<rparr>)
    \<and> front E (s\<lparr>sts_input := hs, sts_state_trie := Some m\<rparr>) f t n"
proof -
  let ?n = "sth_num_nodes (sts_header s)"
  have f: "canon_top f" "frontier_bytes fr = tree_stream E f" "pt_nodes f < 2 ^ 32" "root_hash E f = root_hash E t" "blinds E f t"
    using p(1) t(2) by (auto simp: partition_ok_def)
  obtain m0 rest where m0: "decode_trie E (frontier_bytes fr) ?n = Ok (m0, rest)" "repr_tree E m0 f"
    using decode_encode [OF f(1), of "[]" ?n] f(2,3) p(2) by auto
  obtain m where m: "hash E m0 = (Ok (root_hash E f), m)" "repr_tree E m f" "nodes m = nodes m0" using hash_repr [OF m0(2)] by blast
  have "length (nodes m) \<le> 2 ^ 31" using decode_trie_bounds [of "frontier_bytes fr" ?n m0 rest] m0(1) p(2) m(3) by simp
  then have "front E (s\<lparr>sts_input := hs, sts_state_trie := Some m\<rparr>) f t n" using m(2) f(5) n by (auto simp: front_def repr_stores)
  moreover have "ensure_state_trie_loaded E s = (Ok (), s\<lparr>sts_input := hs, sts_state_trie := Some m\<rparr>)"
    using s m0(1) m(1) f(4) by (simp add: ensure_state_trie_loaded_def read_raw_bytes_def)
  ultimately show ?thesis by blast
qed

lemma honest_update:
  assumes w: "honest_world E C t S H (sorted_bundle E bundle) posts had" and t: "t = PNull \<or> (\<exists>d. tree_ref E t = RefDigest d)"
    and p: "partition_ok E t keys fr f" "length (frontier_bytes fr) < 2 ^ 31"
    and cs: "chunks_ok E C S t (sorted_bundle E bundle) (frontier_chunks fr)" "entries_split (sorted_bundle E bundle) (frontier_chunks fr) 0"
      "sorted (map (\<lambda>e. fst (snd e)) (sorted_bundle E bundle))"
    and s: "sts_state_trie s = None" "sts_parent_state_root s = root_hash E t" "cache_ok C t (sts_account_cache s)"
      "\<And>e. e \<in> set (sorted_bundle E bundle) \<Longrightarrow> sts_storage_tries s (fst e) = had (fst e)"
      "sth_version (sts_header s) = 2" "sth_chunk_count (sts_header s) = length (frontier_chunks fr)"
    and hs: "sts_input s = HRaw (frontier_bytes fr) # hs" "write_hints (write_chunk H posts) (frontier_chunks fr) = Ok hs"
  shows "\<exists>s' T. streaming_update E C bundle s = (Ok (), s') \<and> after t (map (entry_update E C S) (sorted_bundle E bundle)) T
    \<and> fst (state_root E s') = Ok (root_hash E T)"
proof -
  let ?accs = "sorted_bundle E bundle" and ?cs = "frontier_chunks fr"
  have w': "canon_top t" "length ?accs < 2 ^ 28" using w by (simp_all add: honest_world_def accounts_ok_def)
  have "length ?cs < 2 ^ 31" using chunk_count [OF cs(2,1,3)] w'(2) by simp
  from honest_frontier_loaded [OF w'(1) t p s(1) hs(1) s(2) this] obtain m where
    m: "ensure_state_trie_loaded E s = (Ok (), s\<lparr>sts_input := hs, sts_state_trie := Some m\<rparr>)"
      "front E (s\<lparr>sts_input := hs, sts_state_trie := Some m\<rparr>) f t (length ?cs)" by blast
  let ?s = "s\<lparr>sts_input := hs, sts_state_trie := Some m\<rparr>"
  have "pt_get f k = pt_get t k" if "\<forall>ch \<in> set ?cs. \<not> prefix (chunk_prefix ch) k" for k
    using partition_okD(6) [OF p(1), of k] that by blast
  moreover have "sub_at f (chunk_prefix ch) \<noteq> None" if "ch \<in> set ?cs" for ch using partition_ok_chunk [OF p(1) that] by auto
  ultimately have "frontier_inv E C S t ?accs ?cs ?cs 0 ?s f t" using m(2) w'(1) by (simp add: frontier_inv_def after_def)
  moreover have "stream_ok C t H ?accs posts had ?cs ?cs 0 ?s" using hs(2) s(3,4) by (simp add: stream_ok_def)
  ultimately obtain s' f' T' where r: "process_chunks E C ?accs (length ?cs) 0 ?s = (Ok (length ?accs), s')"
    "frontier_inv E C S t ?accs ?cs [] (length ?accs) s' f' T'" "stream_ok C t H ?accs posts had ?cs [] (length ?accs) s'"
    using honest_chunks_run [OF w cs(3,1) subset_refl cs(2)] by blast
  note v = honest_cache_valid [OF r(2,3)]
  have "streaming_update E C bundle s = (Ok (), s'\<lparr>sts_storage_tries := (\<lambda>_. None)\<rparr>)"
    using m(1) s(5,6) r(1) v(1) by (simp add: streaming_update_def)
  moreover have "fst (state_root E (s'\<lparr>sts_storage_tries := (\<lambda>_. None)\<rparr>)) = fst (state_root E s')"
    by (auto simp: state_root_def split: option.splits prod.splits outcome.splits)
  moreover have "after t (map (entry_update E C S) ?accs) T'" using r(2) by (simp add: frontier_inv_def)
  ultimately show ?thesis using v(2) by auto
qed

end

end
