(* ===== verification/Honest_Host.thy ===== *)
theory Honest_Host
  imports Honest_Input Honest_Run
begin

text \<open>
  The input of an honest host, its recording and its tables give the streamed update what it needs.
\<close>

text \<open>What is required of the changed accounts. \<open>on_path\<close> excludes keys that leave the trie inside an extension.\<close>

definition bundle_world :: "ext \<Rightarrow> eth_codec \<Rightarrow> ptree \<Rightarrow> (bytes \<Rightarrow> ptree) \<Rightarrow> bundle_state \<Rightarrow> bool" where
  "bundle_world E C t S accs \<longleftrightarrow> length accs < 2 ^ 28 \<and> distinct (map (hashed E) accs)
     \<and> (\<forall>a \<in> set accs. on_path t (to_nibs (hashed E a)) \<and> length (acct_storage (snd a)) < 2 ^ 28
          \<and> (\<exists>old. account_at C t (hashed E a) = Ok old
               \<and> (acct_info (snd a) \<noteq> None \<longrightarrow> storage_root_of E old = root_hash E (S (hashed E a))))
          \<and> (acct_was_destroyed (snd a) \<and> acct_info (snd a) \<noteq> None \<longrightarrow> S (hashed E a) = PNull))"

text \<open>What the recording after execution has for the changed accounts; \<open>seen\<close> are the storage tries read before.\<close>

definition posts_ok ::
  "ext \<Rightarrow> ethereum_state \<Rightarrow> (bytes \<Rightarrow> ptree) \<Rightarrow> bytes set \<Rightarrow> bundle_state \<Rightarrow> witness_access list \<Rightarrow> bool" where
  "posts_ok E st S seen accs posts \<longleftrightarrow> tries_of_accesses posts = map (hashed E) (filter (needs_trie E st S seen) accs)
     \<and> (\<forall>x \<in> set posts. is_post_access x \<and> access_hash x \<in> set (tries_of_accesses posts))"

lemma tries_of_filter: "tries_of_accesses (filter is_post_access ws) = tries_of_accesses ws"
proof (induction ws)
  case (Cons a ws)
  then show ?case by (cases a) (simp_all add: is_post_access_def)
qed simp

lemma posts_needed:
  assumes "posts_ok E st S seen accs posts" "access_hash x \<in> set (tries_of_accesses posts)"
  obtains a where "a \<in> set accs" "access_hash x = hashed E a" "needs_trie E st S seen a"
  using assms by (auto simp: posts_ok_def)

context rlp_laws
begin

lemma sorted_bundle_nibs: "sorted (map (\<lambda>e. fst (snd e)) (sorted_bundle E accs))"
proof -
  have "map (\<lambda>e. fst (snd e)) (sorted_bundle E accs) = map to_nibs (map fst (sorted_bundle E accs))"
    by (auto simp: sorted_bundle_entries bundle_entry_of_def)
  moreover have "sorted (map fst (sorted_bundle E accs))" by (simp add: sorted_bundle_def)
  then have "sorted (map to_nibs (map fst (sorted_bundle E accs)))"
    by (auto simp: sorted_wrt_map intro: sorted_wrt_mono_rel [rotated] to_nibs_le)
  ultimately show ?thesis by (simp only:)
qed

lemma set_sorted_bundle: "set (sorted_bundle E accs) = bundle_entry_of E ` set accs"
  by (simp add: sorted_bundle_entries)

lemma sorted_bundle_ok:
  assumes "bundle_world E C t S accs"
  shows "accounts_ok (sorted_bundle E accs)"
proof -
  have "map fst (map (bundle_entry_of E) accs) = map (hashed E) accs" by (simp add: bundle_entry_of_def hashed_def)
  then have "distinct (map fst (map (bundle_entry_of E) accs))" using assms by (simp only: bundle_world_def)
  then have "distinct (map fst (sorted_bundle E accs))" 
    by (auto simp: distinct_map sorted_bundle_entries intro: inj_on_imageI2 inj_on_imageI)
  moreover have "length (sorted_bundle E accs) < 2 ^ 28" using assms by (simp add: sorted_bundle_entries bundle_world_def)
  ultimately show ?thesis using assms keccak_length
    by (auto simp: accounts_ok_def set_sorted_bundle bundle_entry_of_def bundle_world_def)
qed

lemma honest_entry_served:
  assumes st: "tries_of E st UNIV S" "\<And>h. root_hash E (S h) = EMPTY_ROOT_HASH E \<Longrightarrow> S h = PNull"
    and b: "bundle_world E C t S accs" "a \<in> set accs" "acct_info (snd a) \<noteq> None \<longrightarrow> (\<exists>T. new_storage E C S (hashed E a) (snd a) = Ok T)"
    and had: "\<And>h. had h = (if h \<in> seen then storage_tries st h else None)" "\<And>h. h \<in> seen \<Longrightarrow> storage_tries st h \<noteq> None"
    and sent: "sent (hashed E a) \<noteq> None \<longleftrightarrow> needs_trie E st S seen a" "\<And>trie. sent (hashed E a) = Some trie \<Longrightarrow> storage_tries st (hashed E a) = Some trie"
  shows "entry_served E C t S had sent (bundle_entry_of E a)"
proof -
  let ?h = "hashed E a"
  have e: "bundle_entry_of E a = (?h, to_nibs ?h, snd a)" by (simp add: bundle_entry_of_def hashed_def)
  have old: "\<exists>old. account_at C t ?h = Ok old \<and> (acct_info (snd a) \<noteq> None \<longrightarrow> storage_root_of E old = root_hash E (S ?h))"
    and gone: "acct_was_destroyed (snd a) \<Longrightarrow> acct_info (snd a) \<noteq> None \<Longrightarrow> S ?h = PNull"
    using b(1,2) by (auto simp: bundle_world_def)
  have at: "repr_tree E trie (S ?h) \<and> length (nodes trie) \<le> 2 ^ 31" if "had ?h = Some trie \<or> sent ?h = Some trie" for trie
  proof -
    have "storage_tries st ?h = Some trie" using that had(1) sent(2) by (auto split: if_splits)
    from tries_of_seen [OF st(1) UNIV_I this] show ?thesis .
  qed
  have none: "S ?h = PNull" if "acct_info (snd a) \<noteq> None" "had ?h = None" "sent ?h = None" "acct_storage (snd a) \<noteq> []"
  proof -
    have "storage_tries st ?h = None \<or> root_hash E (S ?h) = EMPTY_ROOT_HASH E"
      using that had sent(1) by (auto simp: needs_trie_def split: if_splits)
    moreover have "S ?h = PNull" if no: "storage_tries st ?h = None"
      using bspec [OF st(1) [unfolded tries_of_def] UNIV_I, of ?h] by (simp add: no)
    ultimately show ?thesis using st(2) by blast
  qed
  have "acct_info (snd a) \<noteq> None \<and> \<not> acct_was_destroyed (snd a) \<and> acct_storage (snd a) \<noteq> [] \<and> had ?h = None" if "sent ?h \<noteq> None"
  proof -
    have n: "needs_trie E st S seen a" using that sent(1) by simp
    then have "root_hash E (S ?h) \<noteq> EMPTY_ROOT_HASH E" by (simp add: needs_trie_def)
    then have "S ?h \<noteq> PNull" by (auto simp: root_hash_def)
    with n gone had(1) show ?thesis by (auto simp: needs_trie_def)
  qed
  with old b(3) none at show ?thesis unfolding e entry_served_def by auto
qed

lemma honest_recording_world:
  assumes st: "build_input_state E C inp = Ok st" "input_world E inp t S"
    and b: "bundle_world E C t S accs" "\<forall>a \<in> set accs. acct_info (snd a) \<noteq> None \<longrightarrow> (\<exists>T. new_storage E C S (hashed E a) (snd a) = Ok T)"
    and posts: "posts_ok E st S seen accs posts" "serves E C X st codes H posts"
    and had: "\<And>h. had h = (if h \<in> seen then storage_tries st h else None)" "\<And>h. h \<in> seen \<Longrightarrow> storage_tries st h \<noteq> None"
  shows "honest_world E C t S H (sorted_bundle E accs) posts had"
proof -
  note i = built_input [OF st]
  have acc: "get_rlp (account_decode C) (state_trie st) h = account_at C t h" for h using repr_account [OF i(1)] .
  have sent: "trie_sent E C t H h trie \<longleftrightarrow> storage_tries st h = Some trie" if needed: "storage_tries st h \<noteq> None" for h trie
  proof -
    obtain m where m: "storage_tries st h = Some m" using needed by blast
    obtain n bs t0 rest acc' where "src_storage H h = Some (n, bs)" "decode_trie E bs n = Ok (t0, rest)"
      "hash E t0 = (Ok (storage_root_of E acc'), m)" "get_rlp (account_decode C) (state_trie st) h = Ok acc'"
      by (rule serves_storage [OF posts(2) m])
    with m acc show ?thesis by (auto simp: trie_sent_def)
  qed
  have distinct: "distinct (tries_of_accesses posts)"
    using posts(1) b(1) by (simp add: posts_ok_def bundle_world_def distinct_map_filter)
  have "access_sent E C t H x \<and> access_hash x \<in> fst ` set (sorted_bundle E accs)" if x: "x \<in> set posts" for x
  proof -
    have p: "is_post_access x" "access_hash x \<in> set (tries_of_accesses posts)" using posts(1) x by (auto simp: posts_ok_def)
    obtain a where a: "a \<in> set accs" "access_hash x = hashed E a" "needs_trie E st S seen a" using posts_needed [OF posts(1) p(2)] .
    have len: "length (hashed E a) = 32" by (simp add: hashed_def keccak_length)
    obtain old where old: "account_at C t (hashed E a) = Ok old" using b(1) a(1) by (auto simp: bundle_world_def)
    have "access_sent E C t H x"
    proof (cases x)
      case (AccAccount h)
      with posts(2) x old acc a(2) len show ?thesis by (auto simp: serves_def access_sent_def access_hash_def)
    next
      case (AccStorageTrie h)
      with a sent [of h] len show ?thesis by (auto simp: needs_trie_def access_sent_def access_hash_def)
    qed (use p(1) in \<open>auto simp: is_post_access_def\<close>)
    moreover have "access_hash x \<in> fst ` set (sorted_bundle E accs)" using a by (force simp: set_sorted_bundle bundle_entry_of_def hashed_def)
    ultimately show ?thesis by blast
  qed
  moreover have "entry_served E C t S had f e" if e: "e \<in> set (sorted_bundle E accs)" and f: "sent_ok E C t H posts (fst e) (f (fst e))" for e f
  proof -
    obtain a where a: "a \<in> set accs" "e = bundle_entry_of E a" using e by (auto simp: set_sorted_bundle)
    have h: "fst e = hashed E a" using a(2) by (simp add: bundle_entry_of_def hashed_def)
    have "AccStorageTrie (hashed E a) \<in> set posts \<longleftrightarrow> needs_trie E st S seen a"
    proof -
      have "AccStorageTrie (hashed E a) \<in> set posts \<longleftrightarrow> hashed E a \<in> hashed E ` {b \<in> set accs. needs_trie E st S seen b}"
        using posts(1) set_tries_of_accesses [of "hashed E a" posts] by (simp add: posts_ok_def)
      moreover have "inj_on (hashed E) (set accs)" using b(1) by (simp add: bundle_world_def distinct_map)
      ultimately show ?thesis using a(1) by (auto dest: inj_onD)
    qed
    then have n: "f (hashed E a) \<noteq> None \<longleftrightarrow> needs_trie E st S seen a" using f h by (simp add: sent_ok_def)
    have "storage_tries st (hashed E a) = Some trie" if "f (hashed E a) = Some trie" for trie
    proof -
      have "storage_tries st (hashed E a) \<noteq> None" using n that by (simp add: needs_trie_def)
      with sent f h that show ?thesis by (auto simp: sent_ok_def)
    qed
    moreover have "\<And>h. root_hash E (S h) = EMPTY_ROOT_HASH E \<Longrightarrow> S h = PNull" using st(2) by (simp add: input_world_def)
    moreover have "acct_info (snd a) \<noteq> None \<longrightarrow> (\<exists>T. new_storage E C S (hashed E a) (snd a) = Ok T)" using b(2) a(1) by blast
    ultimately show ?thesis unfolding a(2) by (intro honest_entry_served [where sent = f, OF i(3) _ b(1) a(1) _ had n])
  qed
  moreover have "pt_nodes t < 2 ^ 32" "canon_top t" "keylen 64 t" using st(2) by (auto simp: input_world_def encodable_def)
  ultimately show ?thesis using sorted_bundle_ok [OF b(1)] distinct by (simp add: honest_world_def)
qed

end

section \<open>The recording run\<close>

lemma finish_eager_Ok:
  assumes "finish_eager E C X L block ancestors out st = Ok header"
  obtains st' parent rest where "update_from_bundle_state E C (out_bundle out) st = (Ok (), st')" "ancestors = parent # rest"
    "fst (hash E (state_trie st')) = Ok (hdr_state_root (blk_header block))" "header = result_header X L block parent out"
proof -
  obtain st' where st': "update_from_bundle_state E C (out_bundle out) st = (Ok (), st')"
    using assms by (auto simp: finish_eager_def split: prod.splits outcome.splits)
  moreover obtain root m where "hash E (state_trie st') = (Ok root, m)"
    using assms st' by (auto simp: finish_eager_def split: prod.splits outcome.splits)
  ultimately show thesis using assms that by (auto simp: finish_eager_def split: if_splits list.splits)
qed

lemma recording_parts:
  assumes "execute_recording_witness_order w E C X L v inp = Ok (header, order)"
  obtains st db out db' st' rec where "build_input_state E C inp = Ok st"
    "witness_db_recording X inp st no_recording = Ok db" "check_block L v (ci_current_block inp) = Ok ()"
    "run_evm E C X (block_evm w L v (ci_current_block inp) (ci_ancestor_headers inp)) db = (Ok out, db')"
    "validate_block_post_execution L v (ci_current_block inp) out = None"
    "record_outcome E (out_bundle out) st (db_recording db') = (Ok (), st', Some rec)"
    "finish_eager E C X L (ci_current_block inp) (ci_ancestor_headers inp) out st' = Ok header" "witness_order rec = Some order"
proof -
  obtain st where st: "build_input_state E C inp = Ok st"
    using assms by (auto simp: execute_recording_witness_order_def split: outcome.splits)
  then obtain rec where rec: "execute_with_state w E C X L v inp st (Some no_recording) = Ok (header, Some rec)" "witness_order rec = Some order"
    using assms by (auto simp: execute_recording_witness_order_def split: outcome.splits prod.splits option.splits)
  from rec(1) obtain db where db: "witness_db_recording X inp st no_recording = Ok db"
    by (auto simp: execute_with_state_def Let_def split: outcome.splits)
  from rec(1) db have chk: "check_block L v (ci_current_block inp) = Ok ()"
    by (auto simp: execute_with_state_def Let_def split: outcome.splits)
  obtain r db' where run: "run_evm E C X (block_evm w L v (ci_current_block inp) (ci_ancestor_headers inp)) db = (r, db')"
    by (cases "run_evm E C X (block_evm w L v (ci_current_block inp) (ci_ancestor_headers inp)) db")
  from rec(1) db chk run obtain out where out: "r = Ok out" by (cases r) (auto simp: execute_with_state_def Let_def)
  from rec(1) db chk run out have val: "validate_block_post_execution L v (ci_current_block inp) out = None"
    by (auto simp: execute_with_state_def Let_def fail_with_def split: option.splits)
  obtain r' st' rec' where ro: "record_outcome E (out_bundle out) st (db_recording db') = (r', st', rec')"
    by (cases "record_outcome E (out_bundle out) st (db_recording db')")
  from rec(1) db chk run out val ro have "r' = Ok () \<and> rec' = Some rec
      \<and> finish_eager E C X L (ci_current_block inp) (ci_ancestor_headers inp) out st' = Ok header"
    by (cases r') (auto simp: execute_with_state_def Let_def fail_with_def split: outcome.splits)
  with that st db chk run out val ro rec(2) show thesis by blast
qed

section \<open>What execution recorded\<close>

lemma exec_access_list:
  assumes "\<forall>a \<in> set accs. exec_access C st a"
  shows "modified_accounts accs = []" "split_order (accs @ AccStateTrie # ws) = Some (accs @ [AccStateTrie], ws)"
proof -
  show "modified_accounts accs = []" using assms
  proof (induction accs)
    case (Cons a accs)
    then show ?case by (cases a) (simp_all add: exec_access_def)
  qed simp
  have "\<not> is_state_marker a" if "a \<in> set accs" for a using assms that by (cases a) (auto simp: exec_access_def is_state_marker_def)
  then have "takeWhile (\<lambda>a. \<not> is_state_marker a) (accs @ AccStateTrie # ws) = accs"
    "dropWhile (\<lambda>a. \<not> is_state_marker a) (accs @ AccStateTrie # ws) = AccStateTrie # ws"
    by (simp_all add: takeWhile_append2 dropWhile_append2 is_state_marker_def)
  then show "split_order (accs @ AccStateTrie # ws) = Some (accs @ [AccStateTrie], ws)" by (simp add: split_order_def)
qed

lemma account_by_hash_complete:
  "(\<And>h. AccAccount h \<in> set as \<Longrightarrow> \<exists>acc. get_rlp (account_decode C) trie h = Ok acc) \<Longrightarrow> \<exists>m'. account_by_hash C trie as m = Ok m'"
proof (induction as arbitrary: m)
  case (Cons a as)
  have ih: "\<exists>m'. account_by_hash C trie as m = Ok m'" for m using Cons by auto
  show ?case
  proof (cases a)
    case (AccAccount h)
    then obtain acc where "get_rlp (account_decode C) trie h = Ok acc" using Cons.prems by auto
    with AccAccount ih show ?thesis by simp
  qed (use ih in simp_all)
qed simp

lemma account_by_hash_cong:
  "(\<And>h. get_rlp (account_decode C) trie h = get_rlp (account_decode C) trie' h) \<Longrightarrow> account_by_hash C trie as m = account_by_hash C trie' as m"
proof (induction as arbitrary: m)
  case (Cons a as)
  then show ?case by (cases a) (auto split: outcome.splits)
qed simp

section \<open>The hints\<close>

lemma write_hints_complete: "(\<And>a. a \<in> set as \<Longrightarrow> \<exists>hs. f a = Ok hs) \<Longrightarrow> \<exists>hs. write_hints f as = Ok hs"
proof (induction as)
  case (Cons a as)
  then obtain hs hs' where "f a = Ok hs" "write_hints f as = Ok hs'" by fastforce
  then show ?case by simp
qed simp

lemma write_chunks_complete:
  assumes "honest_world E C t S H accounts posts had"
  shows "\<exists>hs. write_hints (write_chunk H posts) chs = Ok hs"
proof (rule write_hints_complete)
  fix ch :: frontier_chunk
  have "\<exists>hs. chunk_hint H a = Ok hs" if "a \<in> set posts" for a
  proof -
    have "access_sent E C t H a" using assms that by (simp add: honest_world_def)
    then show ?thesis by (cases a) (auto simp: access_sent_def trie_sent_def chunk_hint_def account_hint_def storage_hint_def)
  qed
  then obtain hs where "write_hints (chunk_hint H) (chunk_posts posts (chunk_prefix ch)) = Ok hs"
    using write_hints_complete [of "chunk_posts posts (chunk_prefix ch)" "chunk_hint H"] by (auto simp: chunk_posts_def)
  then show "\<exists>hs. write_chunk H posts ch = Ok hs" by (simp add: write_chunk_def Let_def chunk_posts_def in_chunk_def)
qed

end
