(* ===== verification/Honest_Guest.thy ===== *)
theory Honest_Guest
  imports Honest_Host Guest
begin

text \<open>The hints of an honest host, from the recording run to the guest's commitment.\<close>

section \<open>The recording run on trees\<close>

text \<open>
  A recording run: the accesses \<open>accs\<close> of execution with the recording \<open>r\<close>, the accesses \<open>ws\<close> for the update, the
  output, and the account trie \<open>t'\<close> after the block.
\<close>

definition recorded_run ::
  "nat \<Rightarrow> ext \<Rightarrow> eth_codec \<Rightarrow> client_ext \<Rightarrow> exec_lib \<Rightarrow> client_input \<Rightarrow> ethereum_state \<Rightarrow> ptree \<Rightarrow> (bytes \<Rightarrow> ptree) \<Rightarrow>
   (u64 \<Rightarrow> bytes option) \<Rightarrow> witness_access list \<Rightarrow> recording \<Rightarrow> witness_access list \<Rightarrow> execution_output \<Rightarrow> ptree \<Rightarrow> bool" where
  "recorded_run w E C X L inp st t S table accs r ws out t' \<longleftrightarrow>
     build_block_hashes X (blk_header (ci_current_block inp) # ci_ancestor_headers inp) (\<lambda>_. None) = Ok table
     \<and> check_block L Mainnet (ci_current_block inp) = Ok ()
     \<and> validate_block_post_execution L Mainnet (ci_current_block inp) out = None
     \<and> replays E C X st (bytecode_by_hash X (ci_bytecodes inp)) table no_recording accs r
         (run_evm E C X (block_evm w L Mainnet (ci_current_block inp) (ci_ancestor_headers inp))) out
     \<and> (\<forall>a \<in> set accs. exec_access C st a) \<and> (\<forall>h \<in> set (account_lookup_order r). length h = 32)
     \<and> posts_ok E st S (set (storage_lookup_order r)) (out_bundle out) (filter is_post_access ws)
     \<and> modified_accounts ws = map (\<lambda>a. (hashed E a, 1 + length (acct_storage (snd a)))) (out_bundle out)
     \<and> pt_updates (map (\<lambda>a. entry_update E C S (bundle_entry_of E a)) (out_bundle out)) t = Ok t'
     \<and> root_hash E t' = hdr_state_root (blk_header (ci_current_block inp))
     \<and> (\<forall>a \<in> set (out_bundle out). acct_info (snd a) \<noteq> None \<longrightarrow> (\<exists>T. new_storage E C S (hashed E a) (snd a) = Ok T))"

context rlp_laws
begin

lemma execution_recorded:
  assumes st: "build_input_state E C inp = Ok st" "input_world E inp t S" and db: "witness_db_recording X inp st no_recording = Ok db"
    and run: "run_evm E C X e db = (Ok out, db')" "accounts_first E e {}"
  shows "\<exists>table accs r. build_block_hashes X (blk_header (ci_current_block inp) # ci_ancestor_headers inp) (\<lambda>_. None) = Ok table
    \<and> replays E C X st (bytecode_by_hash X (ci_bytecodes inp)) table no_recording accs r (run_evm E C X e) out
    \<and> db_recording db' = Some r \<and> witness_order r = Some accs
    \<and> (\<forall>a \<in> set accs. exec_access C st a) \<and> (\<forall>h \<in> set (account_lookup_order r). length h = 32)"
proof -
  let ?codes = "bytecode_by_hash X (ci_bytecodes inp)"
  note i = built_input [OF st]
  from db obtain table where table: "build_block_hashes X (blk_header (ci_current_block inp) # ci_ancestor_headers inp) (\<lambda>_. None) = Ok table"
    and de: "eager_db st ?codes table no_recording db"
    by (auto simp: witness_db_recording_def from_parts_recording_def from_parts_def eager_db_def no_recording_def split: outcome.splits)
  have "set (account_lookup_order no_recording) = {}" by (simp add: no_recording_def)
  with run_evm_replays [OF de run(1)] run(2) obtain r accs where r: "eager_db st ?codes table r db'"
    "witness_order r = map_option (\<lambda>w. w @ accs) (witness_order no_recording)"
    and replay: "replays E C X st ?codes table no_recording accs r (run_evm E C X e) out" by auto
  from run_evm_recorded [OF i(5) de run(1)] r(1) have more: "recorded_more C st no_recording r" by (auto simp: eager_db_def)
  have order: "witness_order r = Some accs" using r(2) by (simp add: no_recording_def)
  have "\<forall>a \<in> set accs. exec_access C st a" "\<forall>h \<in> set (account_lookup_order r). length h = 32"
    using more order by (auto simp: recorded_more_def no_recording_def)
  with table replay order r(1) show ?thesis by (auto simp: eager_db_def)
qed

lemma recorded_run_exists:
  assumes run: "execute_recording_witness_order w E C X L Mainnet inp = Ok (header, order)" and w: "input_world E inp t S"
    and first: "accounts_first E (block_evm w L Mainnet (ci_current_block inp) (ci_ancestor_headers inp)) {}"
    and b: "\<And>st db out db'. build_input_state E C inp = Ok st \<Longrightarrow> witness_db_recording X inp st no_recording = Ok db \<Longrightarrow>
      run_evm E C X (block_evm w L Mainnet (ci_current_block inp) (ci_ancestor_headers inp)) db = (Ok out, db') \<Longrightarrow> bundle_world E C t S (out_bundle out)"
  shows "\<exists>st table accs r ws out t' db db' parent rest. build_input_state E C inp = Ok st \<and> recorded_run w E C X L inp st t S table accs r ws out t'
    \<and> order = accs @ AccStateTrie # ws \<and> ci_ancestor_headers inp = parent # rest \<and> header = result_header X L (ci_current_block inp) parent out
    \<and> witness_db_recording X inp st no_recording = Ok db
    \<and> run_evm E C X (block_evm w L Mainnet (ci_current_block inp) (ci_ancestor_headers inp)) db = (Ok out, db')"
proof -
  let ?e = "block_evm w L Mainnet (ci_current_block inp) (ci_ancestor_headers inp)" 
  from run obtain st db out db' st' rec where p: "build_input_state E C inp = Ok st"
    "witness_db_recording X inp st no_recording = Ok db" "check_block L Mainnet (ci_current_block inp) = Ok ()"
    "run_evm E C X ?e db = (Ok out, db')" "validate_block_post_execution L Mainnet (ci_current_block inp) out = None"
    "record_outcome E (out_bundle out) st (db_recording db') = (Ok (), st', Some rec)"
    "finish_eager E C X L (ci_current_block inp) (ci_ancestor_headers inp) out st' = Ok header" "witness_order rec = Some order"
    by (rule recording_parts)
  note i = built_input [OF p(1) w]
  note bw = b [OF p(1,2,4)]
  from execution_recorded [OF p(1) w p(2,4) first] obtain table accs r where
    r: "build_block_hashes X (blk_header (ci_current_block inp) # ci_ancestor_headers inp) (\<lambda>_. None) = Ok table"
      "replays E C X st (bytecode_by_hash X (ci_bytecodes inp)) table no_recording accs r (run_evm E C X ?e) out"
      "db_recording db' = Some r" "witness_order r = Some accs"
      "\<forall>a \<in> set accs. exec_access C st a" "\<forall>h \<in> set (account_lookup_order r). length h = 32" by blast
  let ?r = "push_access AccStateTrie r"
  have ro: "record_bundle E (out_bundle out) (st, ?r) = (Ok (), st', rec)"
    using p(6) r(3,4) by (auto simp: record_outcome_def split: prod.splits)
  have d: "distinct (map (hashed E) (out_bundle out))" "witness_order ?r = Some (accs @ [AccStateTrie])" "storage_lookup_order ?r = storage_lookup_order r"
    using bw r(4) by (simp_all add: bundle_world_def push_access_def)
  obtain ws where ws: "same_tries st st'" "tries_of E st' UNIV S" "witness_order rec = Some ((accs @ [AccStateTrie]) @ ws)"
    "modified_accounts ws = map (\<lambda>a. (hashed E a, 1 + length (acct_storage (snd a)))) (out_bundle out)"
    "tries_of_accesses ws = map (hashed E) (filter (needs_trie E st S (set (storage_lookup_order r))) (out_bundle out))"
    "\<forall>x \<in> set ws. is_post_access x \<longrightarrow> access_hash x \<in> set (tries_of_accesses ws)"
    using record_bundle_spec [OF i(3) subset_UNIV d(1,2)] ro d(3) by auto
  have posts: "posts_ok E st S (set (storage_lookup_order r)) (out_bundle out) (filter is_post_access ws)"
    using ws(5,6) by (auto simp: posts_ok_def tries_of_filter)
  from p(7) obtain st2 parent rest where f: "update_from_bundle_state E C (out_bundle out) st' = (Ok (), st2)"
    "ci_ancestor_headers inp = parent # rest" "fst (hash E (state_trie st2)) = Ok (hdr_state_root (blk_header (ci_current_block inp)))"
    "header = result_header X L (ci_current_block inp) parent out" by (rule finish_eager_Ok)
  have st': "state_trie st' = state_trie st" using ws(1) by (simp add: same_tries_def)
  have room: "trie_room (length (out_bundle out)) (state_trie st')" using bw i(2) st' by (simp add: trie_room_def bundle_world_def)
  have len: "\<forall>a \<in> set (out_bundle out). length (acct_storage (snd a)) < 2 ^ 28" using bw by (simp add: bundle_world_def)
  obtain t' where t': "pt_updates (map (\<lambda>a. entry_update E C S (bundle_entry_of E a)) (out_bundle out)) t = Ok t'" "repr_tree E (state_trie st2) t'"
    "\<forall>a \<in> set (out_bundle out). acct_info (snd a) \<noteq> None \<longrightarrow> (\<exists>T. new_storage E C S (keccak256 E (fst a)) (snd a) = Ok T)"
    using update_bundle_tree [OF _ room tries_of_mono [OF ws(2) subset_UNIV] len _ f(1), of t] i(1) st' d(1)
    unfolding hashed_def by auto
  have "root_hash E t' = hdr_state_root (blk_header (ci_current_block inp))" using hash_repr [OF t'(2)] f(3) by auto
  with r(1,2,5,6) p(3,5) posts ws(4) t'(1,3) have "recorded_run w E C X L inp st t S table accs r ws out t'"
    by (simp add: recorded_run_def hashed_def)
  moreover have "order = accs @ AccStateTrie # ws" using ws(3) p(8) by simp
  ultimately show ?thesis using p(1,2,4) f(2,4) by blast
qed

end

section \<open>The hints of an honest host\<close>

text \<open>
  The frontier that the host cuts is small enough to be sent, and its chunks survive their updates: none becomes
  empty, a branch stays a branch, and the updated chunk is hash-addressed.
\<close>

definition frontier_world :: "ext \<Rightarrow> eth_codec \<Rightarrow> ptree \<Rightarrow> (bytes \<Rightarrow> ptree) \<Rightarrow> bundle_state \<Rightarrow> bool" where
  "frontier_world E C t S accs \<longleftrightarrow> (\<forall>m fr m'. repr_tree E m t \<longrightarrow> length (nodes m) \<le> 2 ^ 31 \<longrightarrow>
     build_frontier_weighted E (map (\<lambda>a. (hashed E a, 1 + length (acct_storage (snd a)))) accs) FRONTIER_LIMITS m = (Ok fr, m') \<longrightarrow>
     length (frontier_bytes fr) < 2 ^ 31
     \<and> (\<forall>ch \<in> set (frontier_chunks fr). length (chunk_bytes ch) < 2 ^ 31
          \<and> chunk_survives E C S t (chunk_prefix ch) (filter (\<lambda>e. prefix (chunk_prefix ch) (fst (snd e))) (sorted_bundle E accs))))"

lemma storage_read_present:
  assumes "replays E C X st codes table no_recording accs r f out" "serves E C X st codes H accs" "h \<in> set (storage_lookup_order r)"
  shows "storage_tries st h \<noteq> None"
proof -
  obtain hs where hs: "\<And>ds s rest. streaming_db table s ds \<Longrightarrow> follows C st no_recording s \<Longrightarrow> sts_input s = hs @ rest \<Longrightarrow>
      \<exists>s'. f ds = (Ok out, ds\<lparr>db_state := StreamingState s'\<rparr>) \<and> follows C st r s' \<and> sts_input s' = rest"
    using assms(1,2) unfolding replays_def by blast
  let ?s = "\<lparr>sts_header = undefined, sts_parent_state_root = [], sts_state_trie = None, sts_account_cache = [],
    sts_storage_tries = (\<lambda>_. None), sts_input = hs\<rparr>"
  let ?ds = "\<lparr>db_state = StreamingState ?s, db_block_hashes = table, db_bytecodes = StreamingBytecodes, db_recording = None\<rparr>"
  have "streaming_db table ?s ?ds" "follows C st no_recording ?s" "sts_input ?s = hs @ []"
    by (simp_all add: streaming_db_def follows_def no_recording_def)
  from hs [OF this] assms(3) show ?thesis by (auto simp: follows_def)
qed

lemma chunk_entries_of_partition:
  assumes p: "partition_ok E t keys fr f" and k: "fst ` set keys = hashed E ` set accs" and on: "\<And>a. a \<in> set accs \<Longrightarrow> on_path t (to_nibs (hashed E a))"
    and es: "set es = bundle_entry_of E ` set accs"
  shows "entries_split es (frontier_chunks fr) 0"
proof -
  have nib: "fst (snd (bundle_entry_of E a)) = to_nibs (hashed E a)" for a by (simp add: bundle_entry_of_def hashed_def)
  have path: "\<forall>key \<in> set (map fst keys). on_path t (to_nibs key)" using on k by auto
  have "\<exists>ch \<in> set (frontier_chunks fr). prefix (chunk_prefix ch) (fst (snd e))" if e: "e \<in> set es" for e
  proof -
    obtain a where a: "a \<in> set accs" "e = bundle_entry_of E a" using e unfolding es by (rule imageE)
    then have "hashed E a \<in> set (map fst keys)" using k by auto
    from partition_okD(4) [OF p this on [OF a(1)]] a(2) nib show ?thesis by simp
  qed
  moreover have "\<exists>e \<in> set es. prefix (chunk_prefix ch) (fst (snd e))" if ch: "ch \<in> set (frontier_chunks fr)" for ch
  proof -
    obtain key where "key \<in> set (map fst keys)" "prefix (chunk_prefix ch) (to_nibs key)" using partition_okD(5) [OF p path ch] by blast
    then obtain a where "a \<in> set accs" "prefix (chunk_prefix ch) (fst (snd (bundle_entry_of E a)))" using k nib by auto
    with es show ?thesis by blast
  qed
  ultimately show ?thesis by (simp add: entries_split_def)
qed

context rlp_laws
begin

lemma same_updated_trie:
  assumes b: "bundle_world E C t S accs" and t: "canon_top t"
    and T: "after t (map (entry_update E C S) (sorted_bundle E accs)) T" and t': "pt_updates (map (\<lambda>a. entry_update E C S (bundle_entry_of E a)) accs) t = Ok t'"
  shows "T = t'"
proof -
  let ?us = "map (\<lambda>a. entry_update E C S (bundle_entry_of E a)) accs" and ?vs = "map (entry_update E C S) (sorted_bundle E accs)"
  have key: "fst (entry_update E C S (bundle_entry_of E a)) = to_nibs (hashed E a)" for a by (simp add: bundle_entry_of_def hashed_def)
  have d: "distinct (map fst (sorted_bundle E accs))" "\<forall>e \<in> set (sorted_bundle E accs). fst (snd e) = to_nibs (fst e)"
    using sorted_bundle_ok [OF b] by (auto simp: accounts_ok_def)
  have "inj_on to_nibs A" for A by (auto simp: inj_on_def to_nibs_inject)
  then have "distinct (map to_nibs (map (hashed E) accs))" "distinct (map to_nibs (map fst (sorted_bundle E accs)))"
    using b d(1) by (auto simp: bundle_world_def distinct_map intro: comp_inj_on)
  moreover have "map fst ?us = map to_nibs (map (hashed E) accs)" "map fst ?vs = map to_nibs (map fst (sorted_bundle E accs))"
    using key d(2) by simp_all
  ultimately have "distinct (map fst ?us)" "distinct (map fst ?vs)" by (simp_all only:)
  moreover have "set ?vs = set ?us" by (auto simp: set_sorted_bundle)
  ultimately have v: "viewed (\<lambda>k. k) ?vs (pt_get t) = viewed (\<lambda>k. k) ?us (pt_get t)" by (intro viewed_perm) simp_all
  have "nib_keys ?us" using key by (simp add: nib_keys_def list_all_iff)
  from pt_updates_view [OF t' t this] have "canon_top t'" "\<forall>p. nibbles p \<longrightarrow> pt_get t' p = viewed (\<lambda>k. k) ?us (pt_get t) p" by simp_all
  with T v show ?thesis by (intro canon_unique) (simp_all add: after_def pt_same_def)
qed

section \<open>The hints\<close>

text \<open>The tables from which the host writes.\<close>

lemma honest_tables:
  assumes st: "build_input_state E C inp = Ok st" "input_world E inp t S" and trie: "repr_tree E trie t"
    and r: "\<forall>a \<in> set accs. exec_access C st a" "posts_ok E st S seen bs (filter is_post_access ws)" "bundle_world E C t S bs"
  shows "\<exists>accounts. account_by_hash C trie (accs @ AccStateTrie # ws) (\<lambda>_. None) = Ok accounts
    \<and> (\<forall>fr. serves E C X st (bytecode_by_hash X (ci_bytecodes inp))
         \<lparr>src_accounts = accounts, src_storage = storage_trie_by_hash (storage_tries_bytes (ci_parent_state_bytes inp)),
          src_bytecodes = bytecode_by_hash X (ci_bytecodes inp), src_frontier = fr\<rparr> (accs @ AccStateTrie # ws))"
proof -
  let ?order = "accs @ AccStateTrie # ws"
  have get: "get_rlp (account_decode C) trie h = get_rlp (account_decode C) (state_trie st) h" for h
    using repr_account [OF trie] repr_account [OF built_input(1) [OF st]] by simp
  have "\<exists>acc. get_rlp (account_decode C) (state_trie st) h = Ok acc" if h: "AccAccount h \<in> set ?order" for h
  proof (cases "AccAccount h \<in> set accs")
    case True
    then show ?thesis using r(1) by (auto simp: exec_access_def)
  next
    case False
    then have "AccAccount h \<in> set (filter is_post_access ws)" using h by (auto simp: is_post_access_def)
    then have "h \<in> set (tries_of_accesses (filter is_post_access ws))" using r(2) by (fastforce simp: posts_ok_def access_hash_def)
    then obtain a where "a \<in> set bs" "h = hashed E a" using r(2) by (auto simp: posts_ok_def)
    then have "\<exists>acc. account_at C t h = Ok acc" using r(3) by (auto simp: bundle_world_def)
    then show ?thesis using repr_account [OF built_input(1) [OF st]] by simp
  qed
  then obtain accounts where acc: "account_by_hash C (state_trie st) ?order (\<lambda>_. None) = Ok accounts"
    using account_by_hash_complete by blast
  then have "account_by_hash C trie ?order (\<lambda>_. None) = Ok accounts" using account_by_hash_cong [OF get] by simp
  with host_tables_serve [OF st(1) acc] show ?thesis by blast
qed

lemma honest_hints_written:
  assumes st: "build_input_state E C inp = Ok st" "input_world E inp t S"
    and rec: "execute_recording_witness_order w E C X L Mainnet inp = Ok (header, accs @ AccStateTrie # ws)"
    and run: "recorded_run w E C X L inp st t S table accs r ws out t'"
    and b: "bundle_world E C t S (out_bundle out)" "frontier_world E C t S (out_bundle out)"
  shows "\<exists>H fr f keys hs hs'. write_ceno_client_input w E C X L inp = Ok (HAncestorHeaders (ci_ancestor_headers inp) #
        HCurrentBlock (ci_current_block inp) # HStateTrieHeader \<lparr>sth_version = 2, sth_num_nodes = frontier_num_nodes fr,
          sth_chunk_count = length (frontier_chunks fr)\<rparr> # hs @ HRaw (frontier_bytes fr) # hs')
    \<and> serves E C X st (bytecode_by_hash X (ci_bytecodes inp)) H accs \<and> write_hints (execution_hint H) accs = Ok hs
    \<and> honest_world E C t S H (sorted_bundle E (out_bundle out)) (filter is_post_access ws)
        (\<lambda>h. if h \<in> set (storage_lookup_order r) then storage_tries st h else None)
    \<and> write_hints (write_chunk H (filter is_post_access ws)) (frontier_chunks fr) = Ok hs'
    \<and> partition_ok E t keys fr f \<and> length (frontier_bytes fr) < 2 ^ 31
    \<and> chunks_ok E C S t (sorted_bundle E (out_bundle out)) (frontier_chunks fr)
    \<and> entries_split (sorted_bundle E (out_bundle out)) (frontier_chunks fr) 0"
proof -
  let ?order = "accs @ AccStateTrie # ws" and ?bs = "out_bundle out" and ?posts = "filter is_post_access ws"
  let ?codes = "bytecode_by_hash X (ci_bytecodes inp)" and ?seen = "set (storage_lookup_order r)"
  note i = built_input [OF st]
  have r: "\<forall>a \<in> set accs. exec_access C st a" "posts_ok E st S ?seen ?bs ?posts"
    "replays E C X st ?codes table no_recording accs r (run_evm E C X (block_evm w L Mainnet (ci_current_block inp) (ci_ancestor_headers inp))) out"
    "\<forall>a \<in> set ?bs. acct_info (snd a) \<noteq> None \<longrightarrow> (\<exists>T. new_storage E C S (hashed E a) (snd a) = Ok T)"
    "modified_accounts ws = map (\<lambda>a. (hashed E a, 1 + length (acct_storage (snd a)))) ?bs"
    using run by (simp_all add: recorded_run_def)
  note pre = exec_access_list [OF r(1)]
  have keys: "modified_accounts ?order = map (\<lambda>a. (hashed E a, 1 + length (acct_storage (snd a)))) ?bs" using pre(1) r(5) by simp
  have size: "length (frontier_bytes fr) < 2 ^ 31 \<and> (\<forall>ch \<in> set (frontier_chunks fr). length (chunk_bytes ch) < 2 ^ 31
      \<and> chunk_survives E C S t (chunk_prefix ch) (filter (\<lambda>e. prefix (chunk_prefix ch) (fst (snd e))) (sorted_bundle E ?bs)))"
    if "build_frontier_weighted E (modified_accounts ?order) FRONTIER_LIMITS (state_trie st) = (Ok fr, m')" for fr m'
    using b(2) i(1,2) that unfolding keys frontier_world_def by blast
  obtain fr trie f m1 where fr: "checked_frontier E ?order (state_trie st) = Ok (fr, trie)" "repr_tree E trie t"
    "partition_ok E t (modified_accounts ?order) fr f" "build_frontier_weighted E (modified_accounts ?order) FRONTIER_LIMITS (state_trie st) = (Ok fr, m1)"
    using checked_frontier_passes [OF i(1), of ?order] i(2) st(2) size by (fastforce simp: input_world_def)
  obtain accounts where acc: "account_by_hash C trie ?order (\<lambda>_. None) = Ok accounts" and all: "\<And>fb. serves E C X st ?codes
      \<lparr>src_accounts = accounts, src_storage = storage_trie_by_hash (storage_tries_bytes (ci_parent_state_bytes inp)),
       src_bytecodes = ?codes, src_frontier = fb\<rparr> ?order"
    using honest_tables [OF st fr(2) r(1,2) b(1)] by blast
  define H where "H = \<lparr>src_accounts = accounts, src_storage = storage_trie_by_hash (storage_tries_bytes (ci_parent_state_bytes inp)),
    src_bytecodes = ?codes, src_frontier = frontier_bytes fr\<rparr>"
  have H: "serves E C X st ?codes H accs" "serves E C X st ?codes H ?posts"
    using all [of "frontier_bytes fr"] by (simp_all add: H_def serves_def)
  obtain hs where hs: "write_hints (execution_hint H) accs = Ok hs" using r(3) H(1) unfolding replays_def by blast
  moreover have "write_hints (execution_hint H) [AccStateTrie] = Ok [HRaw (frontier_bytes fr)]" by (simp add: execution_hint_def H_def)
  ultimately have hs1: "write_hints (execution_hint H) (accs @ [AccStateTrie]) = Ok (hs @ [HRaw (frontier_bytes fr)])" by (rule write_hints_append)
  have hw: "honest_world E C t S H (sorted_bundle E ?bs) ?posts (\<lambda>h. if h \<in> ?seen then storage_tries st h else None)"
    by (rule honest_recording_world [OF st b(1) r(4,2) H(2) refl storage_read_present [OF r(3) H(1)]])
  obtain hs' where hs': "write_hints (write_chunk H ?posts) (frontier_chunks fr) = Ok hs'" using write_chunks_complete [OF hw] by blast
  have "chunks_ok E C S t (sorted_bundle E ?bs) (frontier_chunks fr)"
    using fr(3) size [OF fr(4)] by (auto simp: chunks_ok_def partition_ok_def)
  moreover have "fst ` set (modified_accounts ?order) = hashed E ` set ?bs" unfolding keys by force
  then have "entries_split (sorted_bundle E ?bs) (frontier_chunks fr) 0"
    using b(1) by (intro chunk_entries_of_partition [OF fr(3)]) (auto simp: bundle_world_def set_sorted_bundle)
  moreover have "write_ceno_client_input w E C X L inp = Ok (HAncestorHeaders (ci_ancestor_headers inp) #
        HCurrentBlock (ci_current_block inp) # HStateTrieHeader \<lparr>sth_version = 2, sth_num_nodes = frontier_num_nodes fr,
          sth_chunk_count = length (frontier_chunks fr)\<rparr> # hs @ HRaw (frontier_bytes fr) # hs')"
    using st(1) rec fr(1) pre(2) acc hs1 hs' by (simp add: write_ceno_client_input_def write_all_hints_def H_def)
  ultimately show ?thesis using H(1) hs hw hs' fr(3) size [OF fr(4)] by blast
qed

end

end
