(* ===== verification/Honest_Client.thy ===== *)
theory Honest_Client
  imports Honest_Guest
begin

text \<open>The client on the hints of an honest host.\<close>

lemma follows_cache_ok:
  assumes f: "follows C st r s" "\<forall>h \<in> set (account_lookup_order r). length h = 32" and d: "distinct (map fst (sts_account_cache s))"
    and acc: "\<And>h. get_rlp (account_decode C) (state_trie st) h = account_at C t h"
  shows "cache_ok C t (sts_account_cache s)"
  unfolding cache_ok_def
proof (intro conjI ballI d)
  fix e assume e: "e \<in> set (sts_account_cache s)"
  then have m: "map_of (sts_account_cache s) (fst e) = Some (snd e)" using d by simp
  then have h: "fst e \<in> set (account_lookup_order r)" using f(1) unfolding follows_def by (metis option.distinct(1))
  then show "length (fst e) = 32" using f(2) by blast
  from f(1) h m acc show "account_at C t (fst e) = Ok (snd e)" unfolding follows_def by force
qed

context rlp_laws
begin

text \<open>Execution on the streamed hints, and the state it leaves for the update.\<close>

lemma honest_execution:
  assumes replay: "replays E C X st codes table no_recording accs r (run_evm E C X e) out" "serves E C X st codes H accs"
      "write_hints (execution_hint H) accs = Ok hs" "\<forall>h \<in> set (account_lookup_order r). length h = 32" "repr_tree E (state_trie st) t"
    and s: "sts_account_cache s = []" "sts_storage_tries s = (\<lambda>_. None)" "sts_input s = hs @ rest"
  shows "\<exists>s'. run_evm E C X e \<lparr>db_state = StreamingState s, db_block_hashes = table, db_bytecodes = StreamingBytecodes, db_recording = None\<rparr> =
      (Ok out, \<lparr>db_state = StreamingState s', db_block_hashes = table, db_bytecodes = StreamingBytecodes, db_recording = None\<rparr>)
    \<and> kept s s' \<and> sts_input s' = rest \<and> cache_ok C t (sts_account_cache s')
    \<and> sts_storage_tries s' = (\<lambda>h. if h \<in> set (storage_lookup_order r) then storage_tries st h else None)"
proof -
  let ?db = "\<lambda>s. \<lparr>db_state = StreamingState s, db_block_hashes = table, db_bytecodes = StreamingBytecodes, db_recording = None\<rparr>"
  have db: "streaming_db table s (?db s)" "follows C st no_recording s" using s by (simp_all add: streaming_db_def follows_def no_recording_def)
  have "\<And>ds s rest. streaming_db table s ds \<Longrightarrow> follows C st no_recording s \<Longrightarrow> sts_input s = hs @ rest \<Longrightarrow>
      \<exists>s'. run_evm E C X e ds = (Ok out, ds\<lparr>db_state := StreamingState s'\<rparr>) \<and> follows C st r s' \<and> sts_input s' = rest"
    using replay(1) [unfolded replays_def, rule_format, OF replay(2)] replay(3) by auto
  from this [OF db s(3)] obtain s' where s': "run_evm E C X e (?db s) = (Ok out, (?db s)\<lparr>db_state := StreamingState s'\<rparr>)"
    "follows C st r s'" "sts_input s' = rest" by blast
  have run: "run_evm E C X e (?db s) = (Ok out, ?db s')" using s'(1) by simp
  have "streams (?db s) s" by (simp add: streams_def)
  from run_evm_kept [OF run this] have k: "kept s s'" by (auto simp: streams_def)
  then have "distinct (map fst (sts_account_cache s'))" using s(1) by (simp add: kept_def)
  from follows_cache_ok [OF s'(2) replay(4) this repr_account [OF replay(5)]] have "cache_ok C t (sts_account_cache s')" .
  moreover have "sts_storage_tries s' = (\<lambda>h. if h \<in> set (storage_lookup_order r) then storage_tries st h else None)"
    using s'(2) unfolding follows_def by auto
  ultimately show ?thesis using run k s'(3) by blast
qed

text \<open>The update after execution, and the header.\<close>

lemma honest_finish:
  assumes world: "honest_world E C t S H (sorted_bundle E (out_bundle out)) posts had" "bundle_world E C t S (out_bundle out)"
      "t = PNull \<or> (\<exists>d. tree_ref E t = RefDigest d)"
    and fr: "partition_ok E t keys fr f" "length (frontier_bytes fr) < 2 ^ 31" "chunks_ok E C S t (sorted_bundle E (out_bundle out)) (frontier_chunks fr)"
      "entries_split (sorted_bundle E (out_bundle out)) (frontier_chunks fr) 0"
      "write_hints (write_chunk H posts) (frontier_chunks fr) = Ok hs"
    and s: "kept s0 s" "sts_header s0 = \<lparr>sth_version = 2, sth_num_nodes = n, sth_chunk_count = length (frontier_chunks fr)\<rparr>"
      "sts_parent_state_root s0 = root_hash E t" "sts_state_trie s0 = None"
      "sts_input s = HRaw (frontier_bytes fr) # hs" "cache_ok C t (sts_account_cache s)" "sts_storage_tries s = had"
    and t': "pt_updates (map (\<lambda>a. entry_update E C S (bundle_entry_of E a)) (out_bundle out)) t = Ok t'"
      "root_hash E t' = hdr_state_root (blk_header block)"
  shows "fst (finish_streaming E C X L block (parent # ancestors) out s) = Ok (result_header X L block parent out)"
proof -
  have k: "sts_state_trie s = None" "sts_parent_state_root s = root_hash E t" "sth_version (sts_header s) = 2"
    "sth_chunk_count (sts_header s) = length (frontier_chunks fr)" using s(1-4) by (simp_all add: kept_def)
  have top: "canon_top t" using world(1) by (simp add: honest_world_def)
  have tries: "sts_storage_tries s (fst e) = had (fst e)" for e :: bundle_entry by (simp add: s(7))
  obtain s' T where u: "streaming_update E C (out_bundle out) s = (Ok (), s')"
    "after t (map (entry_update E C S) (sorted_bundle E (out_bundle out))) T" "fst (state_root E s') = Ok (root_hash E T)"
    using honest_update [OF world(1,3) fr(1-4) sorted_bundle_nibs k(1,2) s(6) tries k(3,4) s(5) fr(5)] by blast
  have "T = t'" by (rule same_updated_trie [OF world(2) top u(2) t'(1)])
  with u(3) t'(2) obtain s2 where "state_root E s' = (Ok (hdr_state_root (blk_header block)), s2)" by (metis prod.collapse)
  with u(1) show ?thesis by (simp add: finish_streaming_def)
qed

lemma honest_guest:
  assumes rec: "execute_recording_witness_order w E C X L Mainnet inp = Ok (header, order)" and w: "input_world E inp t S"
    and first: "accounts_first E (block_evm w L Mainnet (ci_current_block inp) (ci_ancestor_headers inp)) {}"
    and cap: "block_evm 32 L Mainnet (ci_current_block inp) (ci_ancestor_headers inp) = block_evm w L Mainnet (ci_current_block inp) (ci_ancestor_headers inp)"
    and b: "\<And>st db out db'. build_input_state E C inp = Ok st \<Longrightarrow> witness_db_recording X inp st no_recording = Ok db \<Longrightarrow>
      run_evm E C X (block_evm w L Mainnet (ci_current_block inp) (ci_ancestor_headers inp)) db = (Ok out, db') \<Longrightarrow>
      bundle_world E C t S (out_bundle out) \<and> frontier_world E C t S (out_bundle out)"
  shows "\<exists>hints. write_ceno_client_input w E C X L inp = Ok hints \<and> guest_main E C X L hints = Ok (digest_words (header_hash X header))"
proof -
  let ?block = "ci_current_block inp" and ?hd = "ci_ancestor_headers inp"
  let ?e = "block_evm w L Mainnet ?block ?hd"
  obtain st table accs r ws out t' db db' parent rest where st: "build_input_state E C inp = Ok st"
    and run: "recorded_run w E C X L inp st t S table accs r ws out t'" and order: "order = accs @ AccStateTrie # ws"
    and hd: "?hd = parent # rest" "header = result_header X L ?block parent out" 
    and evm: "witness_db_recording X inp st no_recording = Ok db" "run_evm E C X ?e db = (Ok out, db')"
    using recorded_run_exists [OF rec w first] b by blast
  let ?bs = "out_bundle out" and ?posts = "filter is_post_access ws" and ?accs = "sorted_bundle E (out_bundle out)"
  let ?had = "\<lambda>h. if h \<in> set (storage_lookup_order r) then storage_tries st h else None"
  have bw: "bundle_world E C t S ?bs" "frontier_world E C t S ?bs" using b [OF st evm] by simp_all
  note i = built_input [OF st w]
  have root: "root_hash E t = hdr_state_root parent" using i(4) hd(1) by auto
  have rr: "build_block_hashes X (blk_header ?block # ?hd) (\<lambda>_. None) = Ok table" "check_block L Mainnet ?block = Ok ()"
    "validate_block_post_execution L Mainnet ?block out = None"
    "replays E C X st (bytecode_by_hash X (ci_bytecodes inp)) table no_recording accs r (run_evm E C X ?e) out"
    "\<forall>h \<in> set (account_lookup_order r). length h = 32"
    "pt_updates (map (\<lambda>a. entry_update E C S (bundle_entry_of E a)) ?bs) t = Ok t'" "root_hash E t' = hdr_state_root (blk_header ?block)"
    using run by (simp_all add: recorded_run_def)
  obtain H fr f keys hs hs' where h: "write_ceno_client_input w E C X L inp = Ok (HAncestorHeaders ?hd # HCurrentBlock ?block #
        HStateTrieHeader \<lparr>sth_version = 2, sth_num_nodes = frontier_num_nodes fr, sth_chunk_count = length (frontier_chunks fr)\<rparr> #
        hs @ HRaw (frontier_bytes fr) # hs')"
    "serves E C X st (bytecode_by_hash X (ci_bytecodes inp)) H accs" "write_hints (execution_hint H) accs = Ok hs"
    "honest_world E C t S H ?accs ?posts ?had" "write_hints (write_chunk H ?posts) (frontier_chunks fr) = Ok hs'"
    "partition_ok E t keys fr f" "length (frontier_bytes fr) < 2 ^ 31" "chunks_ok E C S t ?accs (frontier_chunks fr)"
    "entries_split ?accs (frontier_chunks fr) 0"
    using honest_hints_written [OF st w rec [unfolded order] run bw] by blast
  let ?s = "\<lparr>sts_header = \<lparr>sth_version = 2, sth_num_nodes = frontier_num_nodes fr, sth_chunk_count = length (frontier_chunks fr)\<rparr>,
    sts_parent_state_root = hdr_state_root parent, sts_state_trie = None, sts_account_cache = [], sts_storage_tries = (\<lambda>_. None),
    sts_input = hs @ HRaw (frontier_bytes fr) # hs'\<rparr>"
  let ?db = "\<lambda>s. \<lparr>db_state = StreamingState s, db_block_hashes = table, db_bytecodes = StreamingBytecodes, db_recording = None\<rparr>"
  obtain s' where s': "run_evm E C X ?e (?db ?s) = (Ok out, ?db s')" "kept ?s s'" "sts_input s' = HRaw (frontier_bytes fr) # hs'"
    "cache_ok C t (sts_account_cache s')" "sts_storage_tries s' = ?had"
    using honest_execution [OF rr(4) h(2,3) rr(5) i(1), of ?s "HRaw (frontier_bytes fr) # hs'"] by auto
  have top: "t = PNull \<or> (\<exists>d. tree_ref E t = RefDigest d)" using w by (simp add: input_world_def)
  have "fst (finish_streaming E C X L ?block (parent # rest) out s') = Ok header"
    unfolding hd(2) by (rule honest_finish [OF h(4) bw(1) top h(6-9,5) s'(2) _ _ _ s'(3-5) rr(6,7)]) (simp_all add: root)
  then have "execute_from_reader 32 E C X L Mainnet (HAncestorHeaders ?hd # HCurrentBlock ?block #
        HStateTrieHeader (sts_header ?s) # hs @ HRaw (frontier_bytes fr) # hs') = Ok header"
    using rr(1-3) s'(1) cap hd(1)
    by (simp add: execute_from_reader_def build_streaming_state_from_input_reader_def execute_streaming_def from_streaming_parts_def fail_with_def)
  with h(1) show ?thesis by (simp add: guest_main_def)
qed

end

end
