(* ===== verification/Honest_Properties.thy ===== *)
theory Honest_Properties
  imports Honest_Client Stream_Example
begin

text \<open>The hints of an honest host are accepted.\<close>

section \<open>A storage trie too many\<close>

text \<open>
  The recorder notes the storage trie of every changed account with info and slots that was not read before, also
  when the account was destroyed (\<open>record_modified_spec\<close>). The update does not take the trie of a destroyed account, so it is left
  over at the end of the chunk, and the client rejects the chunk. This is why \<open>bundle_world\<close> excludes such accounts.
\<close>

lemma new_storage_root_tries:
  "new_storage_root E C h account old tries s = (Ok (root, tries'), s') \<Longrightarrow>
   tries' = tries \<or> \<not> acct_was_destroyed account \<and> tries' = remove_key h tries"
  by (auto simp: new_storage_root_def Let_def and_then_pure split: if_splits option.splits)

lemma apply_chunk_account_tries:
  assumes "apply_chunk_account E C pre e chunk tries s = (Ok (chunk', tries'), s')"
  shows "tries' = tries \<or> \<not> acct_was_destroyed (snd (snd e)) \<and> tries' = remove_key (fst e) tries"
proof -
  obtain h nibs account where e: "e = (h, nibs, account)" by (cases e)
  show ?thesis
  proof (cases "acct_info account")
    case (Some info)
    then obtain old root s1 where "new_storage_root E C h account old tries s = (Ok (root, tries'), s1)"
      using assms e by (auto simp: apply_chunk_account_def Let_def and_then_pure elim!: and_then_OkE split: prod.splits)
    with new_storage_root_tries e show ?thesis by fastforce
  qed (use assms e in \<open>auto simp: apply_chunk_account_def Let_def and_then_pure split: prod.splits\<close>)
qed

lemma apply_chunk_accounts_tries:
  "apply_chunk_accounts E C pre es chunk tries s = (Ok (chunk', tries'), s') \<Longrightarrow> distinct (map fst es) \<Longrightarrow>
   (\<forall>e \<in> set es. fst e = h \<longrightarrow> acct_was_destroyed (snd (snd e))) \<Longrightarrow> map_of tries h \<noteq> None \<Longrightarrow> map_of tries' h \<noteq> None"
proof (induction es arbitrary: chunk tries s)
  case (Cons e es)
  from Cons.prems(1) obtain chunk1 tries1 s1 where
    r: "apply_chunk_account E C pre e chunk tries s = (Ok (chunk1, tries1), s1)"
      "apply_chunk_accounts E C pre es chunk1 tries1 s1 = (Ok (chunk', tries'), s')" by (auto simp: and_then_Ok_iff)
  have "map_of tries1 h \<noteq> None"
    using apply_chunk_account_tries [OF r(1)] Cons.prems(3,4) by (auto simp: remove_key_lookup)
  with Cons.IH [OF r(2)] Cons.prems(2,3) show ?case by simp
qed simp

lemma destroyed_account_trie_rejected:
  assumes "read_chunk_witnesses E C chunk pre n [] s = (Ok tries, s1)" "map_of tries h \<noteq> None"
    and "distinct (map fst es)" "\<forall>e \<in> set es. fst e = h \<longrightarrow> acct_was_destroyed (snd (snd e))"
  shows "\<nexists>chunk' s'. apply_chunk_accounts E C pre es chunk tries s1 = (Ok (chunk', []), s')"
  using apply_chunk_accounts_tries [OF _ assms(3,4,2)] by fastforce

section \<open>An example\<close>

definition one_client_input :: client_input where
  "one_client_input =
     \<lparr>ci_current_block = one_block, ci_ancestor_headers = [one_parent],
      ci_parent_state_bytes = \<lparr>state_trie_bytes = (1, one_bytes), storage_tries_bytes = []\<rparr>, ci_bytecodes = []\<rparr>"

lemma one_sub_at: "sub_at (one_leaf b) p = Some G \<longleftrightarrow> p = [] \<and> G = one_leaf b"
  by (cases p) (auto simp: one_leaf_def)

lemma one_input_world: "input_world one_ext one_client_input (one_leaf 1) (\<lambda>_. PNull)"
proof -
  have "encodable one_ext (one_leaf 1)" using one_bytes_length
    by (simp add: encodable_def one_bytes_def) (simp add: one_leaf_def canon_top_def pt_nodes_code)
  moreover have "keylen 64 (one_leaf 1)" by (simp add: one_leaf_def)
  moreover have "no_empty_root one_ext (one_leaf 1)" using one_root [of 1] by (auto simp: no_empty_root_def one_sub_at dest!: arg_cong [of _ _ hd])
  ultimately show ?thesis using one_ref [of 1] by (simp add: input_world_def one_client_input_def one_bytes_def)
qed

lemma one_bundle_world: "bundle_world one_ext one_codec (one_leaf 1) (\<lambda>_. PNull) one_bundle"
proof -
  have "pt_get (one_leaf 1) (to_nibs (replicate 32 4)) = Ok (Some (replicate 40 1))" by (simp add: one_leaf_def)
  then have "account_at one_codec (one_leaf 1) (replicate 32 4) = Ok (Some one_account)"
    by (simp add: account_at_def one_codec_def one_account_def)
  moreover have "on_path (one_leaf 1) k" for k by (simp add: one_leaf_def)
  ultimately show ?thesis
    by (simp add: bundle_world_def one_bundle_def hashed_def root_hash_def storage_root_of_def one_account_def)
qed

lemma one_frontier_world: "frontier_world one_ext one_codec (one_leaf 1) (\<lambda>_. PNull) one_bundle"
  unfolding frontier_world_def
proof (intro allI impI)
  fix m fr m' assume m: "repr_tree one_ext m (one_leaf 1)" "length (nodes m) \<le> 2 ^ 31"
    and run: "build_frontier_weighted one_ext (map (\<lambda>a. (hashed one_ext a, 1 + length (acct_storage (snd a)))) one_bundle) FRONTIER_LIMITS m = (Ok fr, m')"
  have ne: "no_empty_root one_ext (one_leaf 1)" using one_input_world by (simp add: input_world_def)
  have "length (nodes m) < 2 ^ 32" using m(2) by simp
  from rlp_laws.built_frontier [OF one.rlp_laws_axioms m(1) this ne,
      of "map (\<lambda>a. (hashed one_ext a, 1 + length (acct_storage (snd a)))) one_bundle" FRONTIER_LIMITS] run obtain f keys where p: "partition_ok one_ext (one_leaf 1) keys fr f" by fastforce
  have "blinds one_ext f (one_leaf 1)" using partition_okD(7) [OF p] one_ref [of 1] by auto
  then have "f = one_leaf 1 \<or> (\<exists>d. f = PDigest d)" by (auto simp: one_leaf_def elim: blinds_cases)
  then have "length (tree_stream one_ext f) < 2 ^ 31"
  proof
    assume "\<exists>d. f = PDigest d"
    then obtain d where d: "f = PDigest d" "length d = 32" using p by (auto simp: partition_ok_def canon_top_def)
    then show ?thesis by (subst tree_stream.simps) (simp add: pad4_def padding_len_def MIN_ALIGN_def one_ext_def std_ext_def std_bytes_encode_def std_header_encode_def)
  qed (use one_bytes_length in \<open>simp add: one_bytes_def\<close>)
  moreover have "length (chunk_bytes ch) < 2 ^ 31 \<and> chunk_prefix ch = []" if "ch \<in> set (frontier_chunks fr)" for ch
    using partition_ok_chunk [OF p that] one_bytes_length by (auto simp: one_sub_at one_bytes_def)
  moreover have "chunk_survives one_ext one_codec (\<lambda>_. PNull) (one_leaf 1) [] (sorted_bundle one_ext one_bundle)"
    using one_ref [of 2] one_inserted by (auto simp: chunk_survives_def one_entry one_update below_def)
      (auto simp: one_leaf_def dest!: arg_cong [of _ _ hd])
  ultimately show "length (frontier_bytes fr) < 2 ^ 31 \<and> (\<forall>ch \<in> set (frontier_chunks fr). length (chunk_bytes ch) < 2 ^ 31
      \<and> chunk_survives one_ext one_codec (\<lambda>_. PNull) (one_leaf 1) (chunk_prefix ch)
          (filter (\<lambda>e. prefix (chunk_prefix ch) (fst (snd e))) (sorted_bundle one_ext one_bundle)))"
    using p by (simp add: partition_ok_def)
qed

lemma one_state_built:
  "\<exists>m. build_input_state one_ext one_codec one_client_input = Ok \<lparr>state_trie = m, storage_tries = (\<lambda>_. None)\<rparr>
     \<and> repr_tree one_ext m (one_leaf 1) \<and> length (nodes m) \<le> 128"
proof -
  obtain m rest where m: "decode_trie one_ext one_bytes 1 = Ok (m, rest)" "repr_tree one_ext m (one_leaf 1)" "length (nodes m) \<le> 128"
    using one_decoded by blast
  obtain m1 where "hash one_ext m = (Ok (replicate 32 1), m1)" "repr_tree one_ext m1 (one_leaf 1)" "length (nodes m1) \<le> 128"
    using one.hash_repr [OF m(2)] one_root [of 1] m(3) by auto
  with m(1) show ?thesis by (simp add: build_input_state_def one_client_input_def one_parent_def)
qed

lemma one_recorded_run:
  assumes "build_input_state one_ext one_codec one_client_input = Ok st" "witness_db_recording guest_ext one_client_input st no_recording = Ok db"
  shows "run_evm one_ext one_codec guest_ext one_evm db = (Ok one_out, recorded (note_account (replicate 32 4)) db)"
    "db_state db = EagerState st" "db_recording db = Some no_recording"
proof -
  obtain m where m: "st = \<lparr>state_trie = m, storage_tries = (\<lambda>_. None)\<rparr>" "repr_tree one_ext m (one_leaf 1)"
    using one_state_built assms(1) by auto
  have acc: "get_rlp (account_decode one_codec) m (replicate 32 4) = Ok (Some one_account)"
    using repr_account [OF m(2), of one_codec "replicate 32 4"] by (simp add: account_at_def one_leaf_def one_codec_def one_account_def)
  show db: "db_state db = EagerState st" "db_recording db = Some no_recording"
    using assms(2) by (auto simp: witness_db_recording_def from_parts_recording_def from_parts_def split: outcome.splits)
  show "run_evm one_ext one_codec guest_ext one_evm db = (Ok one_out, recorded (note_account (replicate 32 4)) db)"
    using db(1) m(1) acc by (simp add: one_evm_def ask_def db_outcome_def basic_ref_def Let_def one_next)
qed

lemma one_recorded:
  "\<exists>header order. execute_recording_witness_order 64 one_ext one_codec guest_ext one_lib Mainnet one_client_input = Ok (header, order)"
proof -
  let ?k = "replicate 32 4 :: bytes"
  obtain m where m: "build_input_state one_ext one_codec one_client_input = Ok \<lparr>state_trie = m, storage_tries = (\<lambda>_. None)\<rparr>"
    "repr_tree one_ext m (one_leaf 1)" "length (nodes m) \<le> 128" using one_state_built by blast
  obtain n where n: "hash one_ext new = (Ok (replicate 32 3), n)" using one.hash_repr [OF repr_new] by (auto simp: root_hash_def)
  have "capacity_left m" using m(3) by (simp add: capacity_left_def)
  from insert_nibbles_repr [OF m(2) nibbles_to_nibs this, of ?k "replicate 40 2"] one_inserted obtain m2 where
    m2: "insert_nibbles (to_nibs ?k) (replicate 40 2) m = (Ok True, m2)" "repr_tree one_ext m2 (one_leaf 2)" by auto
  obtain m3 where m3: "hash one_ext m2 = (Ok (replicate 32 2), m3)" using one.hash_repr [OF m2(2)] one_root [of 2] by auto
  have "insert_rlp (account_encode one_codec) ?k \<lparr>acc_nonce = 2, acc_balance = 0, acc_storage_root = replicate 32 3, acc_code_hash = []\<rparr> m = (Ok True, m2)"
    using m2(1) by (simp add: insert_rlp_def insert_mpt_nibbles one_codec_def)
  with n have up: "update_from_bundle_state one_ext one_codec one_bundle \<lparr>state_trie = m, storage_tries = (\<lambda>_. None)\<rparr> =
      (Ok (), \<lparr>state_trie = m2, storage_tries = (\<lambda>_. None)(?k \<mapsto> n)\<rparr>)"
    by (simp add: one_bundle_def apply_account_def)
  let ?st = "\<lparr>state_trie = m, storage_tries = (\<lambda>_. None)\<rparr>"
  obtain db where db: "witness_db_recording guest_ext one_client_input ?st no_recording = Ok db"
    by (simp add: witness_db_recording_def from_parts_recording_def from_parts_def one_client_input_def one_block_def one_parent_def
        chain_header_def guest_ext_def)
  note run = one_recorded_run [OF m(1) db]
  have ro: "\<exists>rec ws. record_outcome one_ext one_bundle ?st (db_recording (recorded (note_account ?k) db)) = (Ok (), ?st, Some rec)
      \<and> witness_order rec = Some ws"
    using run(3) by (simp add: recorded_def note_account_def no_recording_def push_access_def record_outcome_def one_bundle_def record_modified_def)
  have fin: "finish_eager one_ext one_codec guest_ext one_lib one_block [one_parent] one_out ?st =
      Ok (result_header guest_ext one_lib one_block one_parent one_out)"
    using up m3 by (simp add: finish_eager_def one_out_def one_block_def)
  have "check_block one_lib Mainnet one_block = Ok ()" "validate_block_post_execution one_lib Mainnet one_block one_out = None"
    by (simp_all add: check_block_def one_lib_def chain_lib_def fail_with_def)
  then show ?thesis using m(1) db run(1,2) ro fin
    by (auto simp: execute_recording_witness_order_def execute_with_state_def Let_def fail_with_def one_client_input_def one_out_def)
qed

section \<open>Property\<close>

text \<open>
  C3: a block that the host can execute can be proved. When the host executes the block on its input and records the
  order of the witnesses, it can write the hints, and the guest program accepts them: it reads every witness
  it asks for, authenticates the frontier, the chunks and the storage tries, applies the changes
  chunk by chunk without an error, reaches the state root of the block's header, and commits the hash of the header that
  the host has computed. The hypotheses: the input carries the encodings of the state trie \<open>t\<close> and of the storage tries \<open>S\<close>
  (\<open>input_world\<close>), the EVM reads an account before its storage and is not influenced by the capacity hints,
  the changed accounts can be read and have the storage tries \<open>S\<close>, no key leaves the trie inside an extension and no destroyed account
  that exists again had storage (\<open>bundle_world\<close>), and updating a chunk neither empties it nor turns its branch into another node
  (\<open>frontier_world\<close>).
\<close>

theorem honest_hints_accepted:
  assumes "rlp_laws E" "execute_recording_witness_order w E C X L Mainnet inp = Ok (header, order)" "input_world E inp t S"
    and "accounts_first E (block_evm w L Mainnet (ci_current_block inp) (ci_ancestor_headers inp)) {}"
    and "block_evm 32 L Mainnet (ci_current_block inp) (ci_ancestor_headers inp) = block_evm w L Mainnet (ci_current_block inp) (ci_ancestor_headers inp)"
    and "\<And>st db out db'. build_input_state E C inp = Ok st \<Longrightarrow> witness_db_recording X inp st no_recording = Ok db \<Longrightarrow>
      run_evm E C X (block_evm w L Mainnet (ci_current_block inp) (ci_ancestor_headers inp)) db = (Ok out, db') \<Longrightarrow>
      bundle_world E C t S (out_bundle out) \<and> frontier_world E C t S (out_bundle out)"
  shows "\<exists>hints. write_ceno_client_input w E C X L inp = Ok hints \<and> guest_main E C X L hints = Ok (digest_words (header_hash X header))"
  by (rule rlp_laws.honest_guest [OF assms])

theorem honest_hints_accepted_witness:
  "\<exists>hints words. write_ceno_client_input 64 one_ext one_codec guest_ext one_lib one_client_input = Ok hints
     \<and> guest_main one_ext one_codec guest_ext one_lib hints = Ok words"
proof -
  obtain header order where
    r: "execute_recording_witness_order 64 one_ext one_codec guest_ext one_lib Mainnet one_client_input = Ok (header, order)"
    using one_recorded by blast
  let ?e = "\<lambda>w. block_evm w one_lib Mainnet (ci_current_block one_client_input) (ci_ancestor_headers one_client_input)"
  have first: "accounts_first one_ext (?e 64) {}" "?e 32 = ?e 64" by (simp_all add: one_evm_def split: option.splits)
  have "bundle_world one_ext one_codec (one_leaf 1) (\<lambda>_. PNull) (out_bundle out) \<and> frontier_world one_ext one_codec (one_leaf 1) (\<lambda>_. PNull) (out_bundle out)"
    if "build_input_state one_ext one_codec one_client_input = Ok st" "witness_db_recording guest_ext one_client_input st no_recording = Ok db"
      "run_evm one_ext one_codec guest_ext (?e 64) db = (Ok out, db')" for st db out db'
    using that(3) one_recorded_run(1) [OF that(1,2)] one_bundle_world one_frontier_world by (auto simp: one_out_def)
  then have "\<exists>hints. write_ceno_client_input 64 one_ext one_codec guest_ext one_lib one_client_input = Ok hints
      \<and> guest_main one_ext one_codec guest_ext one_lib hints = Ok (digest_words (header_hash guest_ext header))"
    by (rule honest_hints_accepted [OF one.rlp_laws_axioms r one_input_world first])
  then show ?thesis by blast
qed

end
