(* ===== verification/Decode_Typed.thy ===== *)
theory Decode_Typed
  imports Witness_Properties
begin

text \<open>
  The types of a decoded arena. Whatever the bytes, an arena that the decoder returns is well typed: a
  branch has sixteen places, a digest 32 bytes, a path is not empty, and a node refers only to nodes
  that were added before it. So the arena has no cycle and no dangling index, and reading from it
  never panics.
\<close>

section \<open>Typed arenas\<close>

definition typed_node :: "nat \<Rightarrow> node_data \<Rightarrow> bool" where
  "typed_node i nd =
     (case nd of
        Null \<Rightarrow> True
      | Branch cs \<Rightarrow> length cs = 16 \<and> list_all (\<lambda>c. case c of None \<Rightarrow> True | Some c \<Rightarrow> unat c < i) cs
      | Leaf p v \<Rightarrow> p \<noteq> []
      | Extension p c \<Rightarrow> p \<noteq> [] \<and> unat c < i
      | Digest d \<Rightarrow> length d = 32)"

definition typed_nodes :: "mpt \<Rightarrow> bool" where
  "typed_nodes m \<longleftrightarrow> nodes m \<noteq> [] \<and> list_all (\<lambda>i. typed_node i (nodes m ! i)) [0..<length (nodes m)]"

definition typed_arena :: "mpt \<Rightarrow> bool" where
  "typed_arena m \<longleftrightarrow> typed_nodes m \<and> unat (root_id m) < length (nodes m)
     \<and> length (cached_references m) = length (nodes m)"

text \<open>A result of a node decoder: a typed arena with at least the nodes of the old one, and a node of it.\<close>

definition typed_step :: "mpt \<Rightarrow> node_id option \<Rightarrow> mpt \<Rightarrow> bool" where
  "typed_step m i m' \<longleftrightarrow> (typed_nodes m \<longrightarrow> typed_nodes m' \<and> length (nodes m) \<le> length (nodes m')
     \<and> (case i of None \<Rightarrow> True | Some i \<Rightarrow> unat i < length (nodes m')))"

lemma typed_nodes_new [simp]: "typed_nodes (with_capacity n)"
  by (simp add: typed_nodes_def with_capacity_def typed_node_def)

lemma typed_nodes_root [simp]: "typed_nodes (m\<lparr>root_id := i\<rparr>) = typed_nodes m"
  by (simp add: typed_nodes_def)

lemma typed_step_refl [simp]: "typed_step m None m"
  by (simp add: typed_step_def)

lemma typed_step_trans: "typed_step m i m1 \<Longrightarrow> typed_step m1 j m2 \<Longrightarrow> typed_step m j m2"
  by (auto simp: typed_step_def)

lemma typed_step_add:
  assumes "add_node nd r m = (i, m')" "length (nodes m) < 2 ^ 32" "typed_nodes m \<Longrightarrow> typed_node (length (nodes m)) nd"
  shows "typed_step m (Some i) m'"
proof -
  have "unat (of_nat (length (nodes m)) :: node_id) = length (nodes m)" using assms(2) by (simp add: unat_of_nat take_bit_nat_eq_self)
  with assms show ?thesis by (auto simp: typed_step_def typed_nodes_def add_node_def list_all_iff nth_append less_Suc_eq)
qed

definition dec_typed :: "node_decoder \<Rightarrow> bool" where
  "dec_typed dec \<longleftrightarrow> (\<forall>bs r m i bs' m'. dec bs r m = (Ok (i, bs'), m') \<longrightarrow> length (nodes m) + length bs < 2 ^ 32 \<longrightarrow>
     typed_step m (Some i) m')"

lemma dec_typedD: "dec_typed dec \<Longrightarrow> dec bs r m = (Ok (i, bs'), m') \<Longrightarrow> length (nodes m) + length bs < 2 ^ 32 \<Longrightarrow>
    typed_step m (Some i) m'"
  unfolding dec_typed_def by blast

section \<open>Children\<close>

lemma decode_child_typed:
  assumes "dec_typed dec" "decode_child E dec item bs m = (Ok (c, bs'), m')" "length (nodes m) + length bs < 2 ^ 32"
  shows "typed_step m c m'"
  using assms by (auto simp: decode_child_def Let_def dest: dec_typedD elim!: and_then_OkE split: if_splits)

text \<open>Children of one branch stay valid while further nodes are added.\<close>

definition kids_typed :: "mpt \<Rightarrow> node_id option list \<Rightarrow> mpt \<Rightarrow> bool" where
  "kids_typed m cs m' \<longleftrightarrow> typed_step m None m' \<and> (typed_nodes m \<longrightarrow> (\<forall>c. Some c \<in> set cs \<longrightarrow> unat c < length (nodes m')))"

lemma kids_typed_Nil [simp]: "kids_typed m [] m' \<longleftrightarrow> typed_step m None m'"
  by (simp add: kids_typed_def)

lemma kids_typed_Cons: "typed_step m c m1 \<Longrightarrow> kids_typed m1 cs m' \<Longrightarrow> kids_typed m (c # cs) m'"
  by (auto simp: kids_typed_def typed_step_def split: option.splits)

lemma arena_step_room: "arena_step m bs m' bs' \<Longrightarrow> length (nodes m) + length bs < N \<Longrightarrow> length (nodes m') + length bs' < N"
  by (simp add: arena_step_def)

lemma decode_children_typed:
  assumes "dec_typed dec" "dec_bounded N dec"
  shows "decode_children n E dec payload bs m = (Ok (cs, q, bs'), m') \<Longrightarrow> length (nodes m) + length bs < 2 ^ 32 \<Longrightarrow>
    kids_typed m cs m' \<and> length cs = n"
proof (induction n arbitrary: payload bs m cs)
  case (Suc n)
  from Suc.prems(1) obtain item payload1 c bs1 m1 ds where
    s: "decode_child E dec item bs m = (Ok (c, bs1), m1)" "decode_children n E dec payload1 bs1 m1 = (Ok (ds, q, bs'), m')" "cs = c # ds"
    by (auto elim!: and_then_OkE)
  have "length (nodes m1) + length bs1 < 2 ^ 32"
    using arena_step_room [OF decode_child_bounded(2) [OF assms(2) s(1)] Suc.prems(2)] .
  from Suc.IH [OF s(2) this] decode_child_typed [OF assms(1) s(1) Suc.prems(2)] s(3) show ?case
    by (auto intro: kids_typed_Cons)
qed simp

lemma decode_branch_typed:
  assumes dec: "dec_typed dec" "dec_bounded N dec"
    and run: "decode_branch E dec item0 item1 payload bs r m = (Ok (i, bs'), m')" and room: "length (nodes m) + length bs < 2 ^ 32"
  shows "typed_step m (Some i) m'"
proof -
  from run obtain x0 bs0 m0 x1 bs1 m1 xs q m2 where s: "decode_child E dec item0 bs m = (Ok (x0, bs0), m0)"
    "decode_child E dec item1 bs0 m0 = (Ok (x1, bs1), m1)" "decode_children 14 E dec payload bs1 m1 = (Ok (xs, q, bs'), m2)"
    "add_node (Branch (x0 # x1 # xs)) (Some r) m2 = (i, m')"
    by (auto simp: decode_branch_def elim!: and_then_OkE split: prod.splits if_splits)
  have r0: "length (nodes m0) + length bs0 < 2 ^ 32" using arena_step_room [OF decode_child_bounded(2) [OF dec(2) s(1)] room] .
  have r1: "length (nodes m1) + length bs1 < 2 ^ 32" using arena_step_room [OF decode_child_bounded(2) [OF dec(2) s(2)] r0] .
  have r2: "length (nodes m2) < 2 ^ 32" using arena_step_room [OF decode_children_arena [OF dec(2) s(3)] r1] by simp
  have kids: "kids_typed m (x0 # x1 # xs) m2" and len: "length xs = 14"
    using decode_children_typed [OF dec s(3) r1] decode_child_typed [OF dec(1) s(1) room] decode_child_typed [OF dec(1) s(2) r0]
    by (auto intro!: kids_typed_Cons)
  then have "typed_step m None m2" by (simp add: kids_typed_def)
  moreover have "typed_node (length (nodes m2)) (Branch (x0 # x1 # xs))" if "typed_nodes m"
    using kids len that unfolding kids_typed_def typed_node_def list_all_iff by (auto split: option.splits)
  ultimately show ?thesis using typed_step_add [OF s(4) r2] by (auto simp: typed_step_def)
qed

section \<open>The decoder\<close>

context rlp_laws
begin

lemma list_node_step_typed:
  assumes dec: "dec_typed (decode_trie_internal f E)"
    and run: "list_node_step f E payload r rest m = (Ok (i, bs'), m')" and room: "length (nodes m) + length rest < 2 ^ 32"
  shows "typed_step m (Some i) m'"
proof -
  note bounded = decode_bounded [of f]
  from run consider
      (ext) p c j m1 where "p \<noteq> []" "decode_trie_internal f E rest c m = (Ok (j, bs'), m1)" "add_node (Extension p j) (Some r) m1 = (i, m')"
    | (leaf) p v where "p \<noteq> []" "add_node (Leaf p v) (Some r) m = (i, m')"
    | (branch) i0 i1 q where "decode_branch E (decode_trie_internal f E) i0 i1 q rest r m = (Ok (i, bs'), m')"
    by (fastforce simp: list_node_step_def elim!: and_then_OkE split: list.splits if_splits prod.splits)
  then show ?thesis
  proof cases
    case ext
    have "length (nodes m1) < 2 ^ 32" using arena_step_room [OF dec_boundedD(2) [OF bounded ext(2)] room] by simp
    with typed_step_add [OF ext(3)] ext(1) dec_typedD [OF dec ext(2) room] show ?thesis
      by (auto simp: typed_step_def typed_node_def)
  next
    case leaf
    with typed_step_add [OF leaf(2)] room show ?thesis by (simp add: typed_node_def)
  next
    case branch
    show ?thesis by (rule decode_branch_typed [OF dec bounded branch room])
  qed
qed

lemma decode_internal_typed: "dec_typed (decode_trie_internal fuel E)"
proof (induction fuel)
  case (Suc f)
  have "typed_step m (Some i) m'"
    if run: "decode_trie_internal (Suc f) E bs r m = (Ok (i, bs'), m')" and room: "length (nodes m) + length bs < 2 ^ 32" for bs r m i bs' m'
  proof -
    from run obtain l p rlp rest r' bs2 where s: "length bs2 < length bs" "(if \<not> l then
        (if length p = 0 then (Ok (NULL_NODE_ID, bs2), m)
         else if length p = 32 then
           (case add_node (Digest p) (Some (RefDigest p)) m of (i, m) \<Rightarrow> (Ok (i, bs2), m))
         else (Err (RlpError UnexpectedLength), m))
      else list_node_step f E p r' bs2 m) = (Ok (i, bs'), m')" by (rule decode_step_Ok)
    show ?thesis
    proof (cases l)
      case True
      with s list_node_step_typed [OF Suc] room show ?thesis by simp
    next
      case False
      with s room typed_step_add [of "Digest p" "Some (RefDigest p)" m i m'] show ?thesis
        by (auto simp: typed_step_def typed_nodes_def NULL_NODE_ID_def typed_node_def split: if_splits prod.splits)
    qed
  qed
  then show ?case unfolding dec_typed_def by blast
qed (simp add: dec_typed_def decode_trie_internal.simps)

lemma decode_trie_typed:
  assumes "decode_trie E bs n = Ok (m, rest)" "length bs < 2 ^ 31"
  shows "typed_arena m"
proof (cases "bs = [EMPTY_STRING_CODE E, 0, 0, 0]")
  case True
  with assms(1) have "m = with_capacity 1" by (simp add: decode_trie_def new_def)
  moreover have "root_id (with_capacity 1) = 0" "length (nodes (with_capacity 1)) = 1" "length (cached_references (with_capacity 1)) = 1"
    by (simp_all add: with_capacity_def)
  ultimately show ?thesis by (simp add: typed_arena_def)
next
  case False
  let ?m = "with_capacity (n + n div 2)"
  from assms(1) False obtain r i m1 where
    s: "decode_trie_internal (Suc (length bs)) E bs r ?m = (Ok (i, rest), m1)" "m = m1\<lparr>root_id := i\<rparr>"
    by (auto simp: decode_trie_def Let_def split: outcome.splits prod.splits)
  have "length (nodes ?m) = 1" "length (cached_references ?m) = 1" by (simp_all add: with_capacity_def)
  moreover from this assms(2) have "typed_step ?m (Some i) m1" by (intro dec_typedD [OF decode_internal_typed s(1)]) simp
  moreover have "arena_step ?m bs m1 rest" by (rule dec_boundedD(2) [OF decode_bounded s(1)])
  ultimately show ?thesis using s(2) by (simp add: typed_arena_def typed_step_def arena_step_def)
qed

end

section \<open>Reading\<close>

lemma typed_get_internal:
  assumes m: "typed_nodes m"
  shows "unat i < length (nodes m) \<Longrightarrow> unat i < fuel \<Longrightarrow> nibbles key \<Longrightarrow> get_internal fuel m i key \<noteq> Panic p"
proof (induction fuel arbitrary: i key)
  case (Suc f)
  have nd: "node_at m i = Some (nodes m ! unat i)" using Suc.prems(1) by (simp add: node_at_def nth_opt_def)
  have t: "typed_node (unat i) (nodes m ! unat i)" using m Suc.prems(1) by (auto simp: typed_nodes_def list_all_iff)
  have step: "get_internal f m c tail \<noteq> Panic p" if "unat c < unat i" "nibbles tail" for c tail
    using Suc that by auto
  show ?case
  proof (cases "nodes m ! unat i")
    case (Branch cs)
    show ?thesis
    proof (cases key)
      case (Cons a tail)
      with Suc.prems(3) have a: "unat a < 16" "nibbles tail" by auto
      then have "child_at cs a = Some (cs ! unat a)" using t Branch by (simp add: typed_node_def child_at_def nth_opt_def)
      moreover have "unat c < unat i" if "cs ! unat a = Some c" for c
        using t Branch a(1) that by (auto simp: typed_node_def list_all_length split: option.splits)
      ultimately show ?thesis using nd Branch Cons step a(2) by (auto split: option.splits)
    qed (use nd Branch in simp)
  next
    case (Extension q c)
    with t have "unat c < unat i" by (simp add: typed_node_def)
    moreover have "nibbles (drop n key)" for n using Suc.prems(3) by auto
    ultimately show ?thesis using nd Extension step by (auto split: option.splits)
  next
    case (Digest d)
    with t nd show ?thesis by (simp add: typed_node_def b256_from_slice_def)
  qed (use nd in auto)
qed simp

lemma typed_get: "typed_arena m \<Longrightarrow> get m key \<noteq> Panic p"
  unfolding get_def
  by (rule typed_get_internal) (auto simp: typed_arena_def walk_fuel_def)

section \<open>Property\<close>

text \<open>
  C27: the arena that the decoder builds from arbitrary bytes is well typed: a branch has sixteen places, a
  digest 32 bytes, no path is empty, every index refers to a node added earlier and every node has
  its reference cell. Therefore a read of any key ends with a value or an error and never panics: it neither
  leaves the arena nor runs in a cycle.
\<close>

theorem decoded_trie_typed:
  assumes "rlp_laws E" "length bs < 2 ^ 31" "decode_trie E bs n = Ok (m, rest)"
  shows "typed_arena m \<and> get m key \<noteq> Panic p"
  using rlp_laws.decode_trie_typed [OF assms(1,3,2)] typed_get by blast

theorem decoded_trie_typed_witness:
  "\<exists>m rest. decode_trie leaf_ext leaf_bytes 1 = Ok (m, rest) \<and> typed_arena m \<and> get m [0x99] \<noteq> Panic StackOverflow"
proof -
  obtain m rest where m: "decode_trie leaf_ext leaf_bytes 1 = Ok (m, rest)" using leaf_decoded by blast
  have len: "length leaf_bytes < 2 ^ 31" using leaf_bytes_length by simp
  from decoded_trie_typed [OF leaf.rlp_laws_axioms len m] m show ?thesis by blast
qed

end
