(* ===== verification/Bump_Buffer.thy ===== *)
theory Bump_Buffer
  imports Prelude
begin

text \<open>
  Model of \<^verbatim>\<open>crates/mpt/src/bump_bufmut.rs\<close>: the byte buffer in the bump arena that RLP encoders
  write to. The vector \<^verbatim>\<open>bumpalo::collections::Vec\<close> below it is third-party code and enters as the
  record \<open>vec_lib\<close>; the locale \<open>vec_laws\<close> states what its documentation promises. The locale
  \<open>buf_mut\<close> is the contract of a growing buffer, which the buffer is shown to keep.
\<close>

section \<open>The vector\<close>

text \<open>
  \<open>vl_memory\<close> is the allocation the vector owns, of which the first \<open>vl_len\<close> bytes are initialised,
  and \<open>vl_write\<close> a write through the pointer to it. Growing may panic.
\<close>

record 'v vec_lib =
  vl_with_capacity_in :: "nat \<Rightarrow> 'v"
  vl_len :: "'v \<Rightarrow> nat"
  vl_capacity :: "'v \<Rightarrow> nat"
  vl_reserve :: "nat \<Rightarrow> 'v \<Rightarrow> (unit, 'v) outcome"
  vl_extend_from_slice :: "bytes \<Rightarrow> 'v \<Rightarrow> (unit, 'v) outcome"
  vl_resize :: "nat \<Rightarrow> byte \<Rightarrow> 'v \<Rightarrow> (unit, 'v) outcome"
  vl_set_len :: "nat \<Rightarrow> 'v \<Rightarrow> 'v"
  vl_memory :: "'v \<Rightarrow> bytes"
  vl_write :: "nat \<Rightarrow> bytes \<Rightarrow> 'v \<Rightarrow> 'v"

definition vec_content :: "'v vec_lib \<Rightarrow> 'v \<Rightarrow> bytes" where
  "vec_content V v = take (vl_len V v) (vl_memory V v)"

definition isize_max :: "nat \<Rightarrow> nat" where
  "isize_max w = 2 ^ (w - 1) - 1"

text \<open>\<open>limit\<close> is what the allocator can serve.\<close>

locale vec_laws =
  fixes V :: "'v vec_lib" and ok :: "'v \<Rightarrow> bool" and w :: nat and limit :: nat
  assumes sizes: "ok v \<Longrightarrow> vl_len V v \<le> vl_capacity V v \<and> length (vl_memory V v) = vl_capacity V v \<and> vl_capacity V v \<le> isize_max w"
    and with_capacity: "c \<le> limit \<Longrightarrow> ok (vl_with_capacity_in V c) \<and> vl_len V (vl_with_capacity_in V c) = 0"
    and reserve: "ok v \<Longrightarrow> vl_reserve V n v = Ok v' \<Longrightarrow> ok v' \<and> vec_content V v' = vec_content V v \<and> vl_len V v + n \<le> vl_capacity V v'"
    and extend: "ok v \<Longrightarrow> vl_extend_from_slice V bs v = Ok v' \<Longrightarrow> ok v' \<and> vec_content V v' = vec_content V v @ bs"
    and resize: "ok v \<Longrightarrow> vl_resize V n x v = Ok v' \<Longrightarrow>
      ok v' \<and> vec_content V v' = take n (vec_content V v) @ replicate (n - vl_len V v) x"
    and set_len: "ok v \<Longrightarrow> n \<le> vl_capacity V v \<Longrightarrow>
      ok (vl_set_len V n v) \<and> vl_len V (vl_set_len V n v) = n \<and> vl_memory V (vl_set_len V n v) = vl_memory V v"
    and memory_write: "ok v \<Longrightarrow> i + length bs \<le> vl_capacity V v \<Longrightarrow>
      ok (vl_write V i bs v) \<and> vl_len V (vl_write V i bs v) = vl_len V v \<and> vl_capacity V (vl_write V i bs v) = vl_capacity V v
      \<and> vl_memory V (vl_write V i bs v) = take i (vl_memory V v) @ bs @ drop (i + length bs) (vl_memory V v)"
    and reserve_serves: "ok v \<Longrightarrow> vl_len V v + n \<le> limit \<Longrightarrow> \<exists>v'. vl_reserve V n v = Ok v'"
    and extend_serves: "ok v \<Longrightarrow> vl_len V v + length bs \<le> limit \<Longrightarrow> \<exists>v'. vl_extend_from_slice V bs v = Ok v'"
    and resize_serves: "ok v \<Longrightarrow> n \<le> limit \<Longrightarrow> \<exists>v'. vl_resize V n x v = Ok v'"

section \<open>The buffer\<close>

record 'v bump_bytes_mut =
  inner :: 'v

definition with_capacity_in :: "'v vec_lib \<Rightarrow> nat \<Rightarrow> 'v bump_bytes_mut" where
  "with_capacity_in V capacity = \<lparr>inner = vl_with_capacity_in V capacity\<rparr>"

definition into_inner :: "'v bump_bytes_mut \<Rightarrow> 'v" where
  "into_inner b = inner b"

definition buf_len :: "'v vec_lib \<Rightarrow> 'v bump_bytes_mut \<Rightarrow> nat" where
  "buf_len V b = vl_len V (inner b)"

definition remaining_mut :: "nat \<Rightarrow> 'v vec_lib \<Rightarrow> 'v bump_bytes_mut \<Rightarrow> nat" where
  "remaining_mut w V b = isize_max w - vl_len V (inner b)"

text \<open>\<^verbatim>\<open>panic_advance\<close> is the panic of a length out of range.\<close>

definition advance_mut :: "'v vec_lib \<Rightarrow> nat \<Rightarrow> 'v bump_bytes_mut \<Rightarrow> (unit, 'v bump_bytes_mut) outcome" where
  "advance_mut V cnt b =
     (let len = vl_len V (inner b);
          remaining = vl_capacity V (inner b) - len in
      if remaining < cnt then Panic IndexOutOfBounds
      else Ok (b\<lparr>inner := vl_set_len V (len + cnt) (inner b)\<rparr>))"

text \<open>The slice is given by its offset into the allocation and its length.\<close>

definition chunk_mut ::
  "'v vec_lib \<Rightarrow> 'v bump_bytes_mut \<Rightarrow> (unit, (nat \<times> nat) \<times> 'v bump_bytes_mut) outcome" where
  "chunk_mut V b =
     (case (if vl_capacity V (inner b) = vl_len V (inner b) then vl_reserve V 64 (inner b) else Ok (inner b)) of
        Ok v \<Rightarrow>
          (let cap = vl_capacity V v; len = vl_len V v in
           Ok ((len, cap - len), b\<lparr>inner := v\<rparr>))
      | Err e \<Rightarrow> Err e
      | Panic p \<Rightarrow> Panic p)"

text \<open>A source \<^verbatim>\<open>Buf\<close> is the list of its contiguous chunks.\<close>

primrec put_chunks :: "'v vec_lib \<Rightarrow> bytes list \<Rightarrow> 'v \<Rightarrow> (unit, 'v) outcome" where
  "put_chunks V [] v = Ok v"
| "put_chunks V (s # src) v =
     (case vl_extend_from_slice V s v of Ok v \<Rightarrow> put_chunks V src v | Err e \<Rightarrow> Err e | Panic p \<Rightarrow> Panic p)"

definition put :: "'v vec_lib \<Rightarrow> bytes list \<Rightarrow> 'v bump_bytes_mut \<Rightarrow> (unit, 'v bump_bytes_mut) outcome" where
  "put V src b =
     (case vl_reserve V (length (concat src)) (inner b) of
        Ok v \<Rightarrow> (case put_chunks V src v of Ok v \<Rightarrow> Ok (b\<lparr>inner := v\<rparr>) | Err e \<Rightarrow> Err e | Panic p \<Rightarrow> Panic p)
      | Err e \<Rightarrow> Err e
      | Panic p \<Rightarrow> Panic p)"

definition put_slice :: "'v vec_lib \<Rightarrow> bytes \<Rightarrow> 'v bump_bytes_mut \<Rightarrow> (unit, 'v bump_bytes_mut) outcome" where
  "put_slice V src b =
     (case vl_extend_from_slice V src (inner b) of Ok v \<Rightarrow> Ok (b\<lparr>inner := v\<rparr>) | Err e \<Rightarrow> Err e | Panic p \<Rightarrow> Panic p)"

definition put_bytes :: "nat \<Rightarrow> 'v vec_lib \<Rightarrow> byte \<Rightarrow> nat \<Rightarrow> 'v bump_bytes_mut \<Rightarrow> (unit, 'v bump_bytes_mut) outcome" where
  "put_bytes w V val cnt b =
     (let new_len = saturating_add w (buf_len V b) cnt in
      case vl_resize V new_len val (inner b) of Ok v \<Rightarrow> Ok (b\<lparr>inner := v\<rparr>) | Err e \<Rightarrow> Err e | Panic p \<Rightarrow> Panic p)"

text \<open>A writer through the slice: it fills the slice from its start and then advances.\<close>

definition write_spare :: "'v vec_lib \<Rightarrow> bytes \<Rightarrow> 'v bump_bytes_mut \<Rightarrow> (unit, 'v bump_bytes_mut) outcome" where
  "write_spare V bs b =
     (case chunk_mut V b of
        Ok ((i, n), b) \<Rightarrow> advance_mut V (length bs) (b\<lparr>inner := vl_write V i (take n bs) (inner b)\<rparr>)
      | Err e \<Rightarrow> Err e
      | Panic p \<Rightarrow> Panic p)"

section \<open>The contract of a buffer\<close>

text \<open>What a writer relies on: every operation appends, and only appends, to what was written before.\<close>

locale buf_mut =
  fixes inv :: "'b \<Rightarrow> bool" and content :: "'b \<Rightarrow> bytes"
    and bput :: "bytes list \<Rightarrow> 'b \<Rightarrow> (unit, 'b) outcome" and bslice :: "bytes \<Rightarrow> 'b \<Rightarrow> (unit, 'b) outcome"
    and bbytes :: "byte \<Rightarrow> nat \<Rightarrow> 'b \<Rightarrow> (unit, 'b) outcome" and bchunk :: "bytes \<Rightarrow> 'b \<Rightarrow> (unit, 'b) outcome"
    and limit :: nat
  assumes put_appends: "inv b \<Longrightarrow> bput src b = Ok b' \<Longrightarrow> inv b' \<and> content b' = content b @ concat src"
    and slice_appends: "inv b \<Longrightarrow> bslice bs b = Ok b' \<Longrightarrow> inv b' \<and> content b' = content b @ bs"
    and bytes_append: "inv b \<Longrightarrow> bbytes x n b = Ok b' \<Longrightarrow> inv b' \<and> content b' = content b @ replicate n x"
    and chunk_appends: "inv b \<Longrightarrow> bchunk bs b = Ok b' \<Longrightarrow> inv b' \<and> content b' = content b @ bs"
    and put_serves: "inv b \<Longrightarrow> length (content b @ concat src) \<le> limit \<Longrightarrow> \<exists>b'. bput src b = Ok b'"
    and slice_serves: "inv b \<Longrightarrow> length (content b @ bs) \<le> limit \<Longrightarrow> \<exists>b'. bslice bs b = Ok b'"
    and bytes_serve: "inv b \<Longrightarrow> length (content b) + n \<le> limit \<Longrightarrow> \<exists>b'. bbytes x n b = Ok b'"

datatype buf_op = OpPut "bytes list" | OpSlice bytes | OpBytes byte nat | OpChunk bytes

fun written :: "buf_op \<Rightarrow> bytes" where
  "written (OpPut src) = concat src"
| "written (OpSlice bs) = bs"
| "written (OpBytes x n) = replicate n x"
| "written (OpChunk bs) = bs"

definition is_chunk_op :: "buf_op \<Rightarrow> bool" where
  "is_chunk_op op = (case op of OpChunk _ \<Rightarrow> True | _ \<Rightarrow> False)"

primrec run_writes :: "(buf_op \<Rightarrow> 'b \<Rightarrow> (unit, 'b) outcome) \<Rightarrow> buf_op list \<Rightarrow> 'b \<Rightarrow> (unit, 'b) outcome" where
  "run_writes f [] b = Ok b"
| "run_writes f (op # ops) b = (case f op b of Ok b \<Rightarrow> run_writes f ops b | Err e \<Rightarrow> Err e | Panic p \<Rightarrow> Panic p)"

fun apply_op ::
  "(bytes list \<Rightarrow> 'b \<Rightarrow> (unit, 'b) outcome) \<Rightarrow> (bytes \<Rightarrow> 'b \<Rightarrow> (unit, 'b) outcome) \<Rightarrow>
   (byte \<Rightarrow> nat \<Rightarrow> 'b \<Rightarrow> (unit, 'b) outcome) \<Rightarrow> (bytes \<Rightarrow> 'b \<Rightarrow> (unit, 'b) outcome) \<Rightarrow> buf_op \<Rightarrow> 'b \<Rightarrow> (unit, 'b) outcome" where
  "apply_op bput bslice bbytes bchunk (OpPut src) = bput src"
| "apply_op bput bslice bbytes bchunk (OpSlice bs) = bslice bs"
| "apply_op bput bslice bbytes bchunk (OpBytes x n) = bbytes x n"
| "apply_op bput bslice bbytes bchunk (OpChunk bs) = bchunk bs"

context buf_mut
begin

lemma apply_op_appends: "inv b \<Longrightarrow> (apply_op bput bslice bbytes bchunk) op b = Ok b' \<Longrightarrow> inv b' \<and> content b' = content b @ written op"
  by (cases op) (auto dest: put_appends slice_appends bytes_append chunk_appends)

lemma apply_op_serves:
  "inv b \<Longrightarrow> \<not> is_chunk_op op \<Longrightarrow> length (content b @ written op) \<le> limit \<Longrightarrow> \<exists>b'. (apply_op bput bslice bbytes bchunk) op b = Ok b'"
  by (cases op) (auto simp: is_chunk_op_def intro: put_serves slice_serves bytes_serve)

lemma writes_append:
  "inv b \<Longrightarrow> run_writes (apply_op bput bslice bbytes bchunk) ops b = Ok b' \<Longrightarrow> inv b' \<and> content b' = content b @ concat (map written ops)"
proof (induction ops arbitrary: b)
  case (Cons op ops)
  then obtain b1 where b1: "(apply_op bput bslice bbytes bchunk) op b = Ok b1" "run_writes (apply_op bput bslice bbytes bchunk) ops b1 = Ok b'" by (auto split: outcome.splits)
  from apply_op_appends [OF Cons.prems(1) b1(1)] Cons.IH [OF _ b1(2)] show ?case by simp
qed simp

lemma writes_serve:
  "inv b \<Longrightarrow> \<forall>op \<in> set ops. \<not> is_chunk_op op \<Longrightarrow> length (content b @ concat (map written ops)) \<le> limit \<Longrightarrow>
    \<exists>b'. run_writes (apply_op bput bslice bbytes bchunk) ops b = Ok b'"
proof (induction ops arbitrary: b)
  case (Cons op ops)
  obtain b1 where b1: "(apply_op bput bslice bbytes bchunk) op b = Ok b1" using apply_op_serves [OF Cons.prems(1), of op] Cons.prems(2,3) by auto
  from apply_op_appends [OF Cons.prems(1) b1] Cons.IH [of b1] Cons.prems(2,3) b1 show ?case by auto
qed simp

end

section \<open>The buffer keeps the contract\<close>

definition buf_content :: "'v vec_lib \<Rightarrow> 'v bump_bytes_mut \<Rightarrow> bytes" where
  "buf_content V b = vec_content V (inner b)"

context vec_laws
begin

lemma vec_content_length [simp]: "ok v \<Longrightarrow> length (vec_content V v) = vl_len V v"
  using sizes [of v] by (simp add: vec_content_def)

lemma same_content_length: "ok v \<Longrightarrow> ok u \<Longrightarrow> vec_content V v = vec_content V u \<Longrightarrow> vl_len V v = vl_len V u"
  by (metis vec_content_length)

lemma put_chunks_appends:
  "ok v \<Longrightarrow> put_chunks V src v = Ok v' \<Longrightarrow> ok v' \<and> vec_content V v' = vec_content V v @ concat src"
proof (induction src arbitrary: v)
  case (Cons s src)
  then obtain v1 where v1: "vl_extend_from_slice V s v = Ok v1" "put_chunks V src v1 = Ok v'" by (auto split: outcome.splits)
  from extend [OF Cons.prems(1) v1(1)] Cons.IH [OF _ v1(2)] show ?case by simp
qed simp

lemma put_chunks_serves:
  "ok v \<Longrightarrow> vl_len V v + length (concat src) \<le> limit \<Longrightarrow> \<exists>v'. put_chunks V src v = Ok v'"
proof (induction src arbitrary: v)
  case (Cons s src)
  obtain v1 where v1: "vl_extend_from_slice V s v = Ok v1" using extend_serves [OF Cons.prems(1), of s] Cons.prems(2) by auto
  from extend [OF Cons.prems(1) v1] have "ok v1" "vl_len V v1 = vl_len V v + length s"
    using vec_content_length [of v1] vec_content_length [OF Cons.prems(1)] by auto
  with Cons.IH [of v1] Cons.prems(2) v1 show ?case by simp
qed simp

lemma chunk_mut_Ok:
  assumes "ok (inner b)" "chunk_mut V b = Ok ((i, n), b')"
  shows "ok (inner b') \<and> buf_content V b' = buf_content V b \<and> i = vl_len V (inner b') \<and> i + n = vl_capacity V (inner b') \<and> 0 < n"
proof (cases "vl_capacity V (inner b) = vl_len V (inner b)")
  case True
  with assms(2) obtain v where v: "vl_reserve V 64 (inner b) = Ok v" "i = vl_len V v" "n = vl_capacity V v - vl_len V v"
    "b' = b\<lparr>inner := v\<rparr>" by (auto simp: chunk_mut_def Let_def split: outcome.splits)
  from reserve [OF assms(1) v(1)] have "ok v" "vec_content V v = vec_content V (inner b)" "vl_len V (inner b) + 64 \<le> vl_capacity V v"
    by simp_all
  with same_content_length [OF _ assms(1), of v] v(2-) show ?thesis by (simp add: buf_content_def)
next
  case False
  with assms sizes [OF assms(1)] show ?thesis by (auto simp: chunk_mut_def buf_content_def Let_def)
qed

lemma write_spare_appends:
  assumes "ok (inner b)" "write_spare V bs b = Ok b'"
  shows "ok (inner b') \<and> buf_content V b' = buf_content V b @ bs"
proof -
  from assms(2) obtain i n b1 where c: "chunk_mut V b = Ok ((i, n), b1)"
    "advance_mut V (length bs) (b1\<lparr>inner := vl_write V i (take n bs) (inner b1)\<rparr>) = Ok b'"
    by (auto simp: write_spare_def split: outcome.splits)
  note b1 = chunk_mut_Ok [OF assms(1) c(1)]
  have "length (take n bs) \<le> n" by simp
  with b1 have w: "i + length (take n bs) \<le> vl_capacity V (inner b1)" by linarith
  let ?v = "vl_write V i (take n bs) (inner b1)"
  note m = memory_write [OF _ w]
  have fits: "length bs \<le> n" and b': "b' = b1\<lparr>inner := vl_set_len V (i + length bs) ?v\<rparr>"
    using c(2) b1 m by (auto simp: advance_mut_def Let_def split: if_splits)
  have v: "ok ?v" "vl_memory V ?v = take i (vl_memory V (inner b1)) @ bs @ drop (i + length bs) (vl_memory V (inner b1))"
    "i + length bs \<le> vl_capacity V ?v" using m b1 fits by simp_all
  define A where "A = take i (vl_memory V (inner b1))"
  have "A = vec_content V (inner b1)" using b1 by (simp add: A_def vec_content_def)
  with b1 vec_content_length [of "inner b1"] have A: "length A = i" "A = buf_content V b" by (metis buf_content_def)+
  have "take (i + length bs) (vl_memory V ?v) = A @ bs" unfolding v(2) A_def [symmetric] using A(1) by simp
  moreover have "buf_content V b' = take (i + length bs) (vl_memory V ?v)"
    using set_len [OF v(1,3)] b' by (simp add: buf_content_def vec_content_def)
  ultimately show ?thesis using set_len [OF v(1,3)] b' A(2) by simp
qed

lemma put_bytes_appends:
  assumes w: "0 < w" and ok: "ok (inner b)" and run: "put_bytes w V x n b = Ok b'"
  shows "ok (inner b') \<and> buf_content V b' = buf_content V b @ replicate n x"
proof -
  let ?l = "vl_len V (inner b)" and ?n = "saturating_add w (vl_len V (inner b)) n"
  from run obtain v where v: "vl_resize V ?n x (inner b) = Ok v" "b' = b\<lparr>inner := v\<rparr>"
    by (auto simp: put_bytes_def buf_len_def Let_def split: outcome.splits)
  have r: "ok v" "vec_content V v = take ?n (vec_content V (inner b)) @ replicate (?n - ?l) x" using resize [OF ok v(1)] by auto
  have pow: "isize_max w < 2 ^ w - 1" using w by (cases w) (auto simp: isize_max_def intro!: diff_less_mono)
  have "?l \<le> isize_max w" "vl_len V v \<le> isize_max w" using sizes [OF ok] sizes [OF r(1)] by simp_all
  moreover from this pow have "?l \<le> ?n" by (simp add: saturating_add_def)
  moreover from this have "vl_len V v = ?n"
    using arg_cong [OF r(2), of length] vec_content_length [OF r(1)] vec_content_length [OF ok] by simp
  ultimately have "?n = ?l + n" using pow by (simp add: saturating_add_def min_def split: if_splits)
  with r v(2) vec_content_length [OF ok] show ?thesis by (simp add: buf_content_def)
qed

end

text \<open>The buffer on a vector with the laws, for an address width of at least one bit.\<close>

locale bump_buffer = vec_laws +
  assumes width: "0 < w" and limit_width: "limit \<le> isize_max w"

sublocale bump_buffer \<subseteq> buf: buf_mut "\<lambda>b. ok (inner b)" "buf_content V" "put V" "put_slice V" "put_bytes w V" "write_spare V" limit
proof
  fix b b' :: "'a bump_bytes_mut" and src bs x n
  assume b: "ok (inner b)"
  show "ok (inner b') \<and> buf_content V b' = buf_content V b @ concat src" if "put V src b = Ok b'"
    using that reserve [OF b] put_chunks_appends by (fastforce simp: put_def buf_content_def split: outcome.splits)
  show "ok (inner b') \<and> buf_content V b' = buf_content V b @ bs" if "put_slice V bs b = Ok b'"
    using that extend [OF b] by (auto simp: put_slice_def buf_content_def split: outcome.splits)
  show "ok (inner b') \<and> buf_content V b' = buf_content V b @ replicate n x" if "put_bytes w V x n b = Ok b'"
    by (rule put_bytes_appends [OF width b that])
  show "ok (inner b') \<and> buf_content V b' = buf_content V b @ bs" if "write_spare V bs b = Ok b'"
    by (rule write_spare_appends [OF b that])
  show "\<exists>b'. put V src b = Ok b'" if "length (buf_content V b @ concat src) \<le> limit"
  proof -
    have len: "vl_len V (inner b) + length (concat src) \<le> limit" using that vec_content_length [OF b] by (simp add: buf_content_def)
    obtain v where v: "vl_reserve V (length (concat src)) (inner b) = Ok v" using reserve_serves [OF b len] by blast
    from reserve [OF b v] have "ok v" "vl_len V v = vl_len V (inner b)" using vec_content_length [of v] vec_content_length [OF b] by auto
    with put_chunks_serves [of v src] len v show ?thesis by (auto simp: put_def)
  qed
  show "\<exists>b'. put_slice V bs b = Ok b'" if "length (buf_content V b @ bs) \<le> limit"
    using that extend_serves [OF b, of bs] vec_content_length [OF b] by (auto simp: put_slice_def buf_content_def)
  show "\<exists>b'. put_bytes w V x n b = Ok b'" if "length (buf_content V b) + n \<le> limit"
  proof -
    have "saturating_add w (vl_len V (inner b)) n \<le> limit"
      using that vec_content_length [OF b] by (simp add: saturating_add_def buf_content_def)
    from resize_serves [OF b this, of x] show ?thesis by (auto simp: put_bytes_def buf_len_def Let_def)
  qed
qed

section \<open>A vector\<close>

text \<open>A vector with a list for its allocation, which can hold up to a thousand bytes.\<close>

record list_vec =
  lv_memory :: bytes
  lv_len :: nat

definition lv_grow :: "nat \<Rightarrow> list_vec \<Rightarrow> (unit, list_vec) outcome" where
  "lv_grow n v =
     (if lv_len v + n \<le> length (lv_memory v) then Ok v
      else if lv_len v + n \<le> 1000 then Ok (v\<lparr>lv_memory := lv_memory v @ replicate (lv_len v + n - length (lv_memory v)) 0\<rparr>)
      else Panic AssertionFailed)"

definition lv_put :: "nat \<Rightarrow> bytes \<Rightarrow> list_vec \<Rightarrow> list_vec" where
  "lv_put i bs v = v\<lparr>lv_memory := take i (lv_memory v) @ bs @ drop (i + length bs) (lv_memory v)\<rparr>"

definition lv_extend :: "bytes \<Rightarrow> list_vec \<Rightarrow> (unit, list_vec) outcome" where
  "lv_extend bs v =
     (case lv_grow (length bs) v of
        Ok v \<Rightarrow> Ok ((lv_put (lv_len v) bs v)\<lparr>lv_len := lv_len v + length bs\<rparr>)
      | Err e \<Rightarrow> Err e
      | Panic p \<Rightarrow> Panic p)"

definition list_vec_lib :: "list_vec vec_lib" where
  "list_vec_lib =
     \<lparr>vl_with_capacity_in = (\<lambda>c. \<lparr>lv_memory = replicate c 0, lv_len = 0\<rparr>), vl_len = lv_len,
      vl_capacity = (\<lambda>v. length (lv_memory v)), vl_reserve = lv_grow, vl_extend_from_slice = lv_extend,
      vl_resize = (\<lambda>n x v. if n \<le> lv_len v then Ok (v\<lparr>lv_len := n\<rparr>) else lv_extend (replicate (n - lv_len v) x) v),
      vl_set_len = (\<lambda>n v. v\<lparr>lv_len := n\<rparr>), vl_memory = lv_memory, vl_write = lv_put\<rparr>"

definition lv_ok :: "list_vec \<Rightarrow> bool" where
  "lv_ok v \<longleftrightarrow> lv_len v \<le> length (lv_memory v) \<and> length (lv_memory v) \<le> 1000"

lemma lv_grow_Ok:
  assumes "lv_ok v" "lv_grow n v = Ok v'"
  shows "lv_ok v' \<and> lv_len v' = lv_len v \<and> take (lv_len v) (lv_memory v') = take (lv_len v) (lv_memory v)
    \<and> lv_len v + n \<le> length (lv_memory v')"
  using assms by (auto simp: lv_grow_def lv_ok_def split: if_splits)

lemma lv_extend_Ok:
  assumes "lv_ok v" "lv_extend bs v = Ok v'"
  shows "lv_ok v' \<and> lv_len v' = lv_len v + length bs \<and> take (lv_len v + length bs) (lv_memory v') = take (lv_len v) (lv_memory v) @ bs"
proof -
  obtain u where u: "lv_grow (length bs) v = Ok u" "v' = (lv_put (lv_len u) bs u)\<lparr>lv_len := lv_len u + length bs\<rparr>"
    using assms(2) by (auto simp: lv_extend_def split: outcome.splits)
  from lv_grow_Ok [OF assms(1) u(1)] u(2) assms(1) show ?thesis by (auto simp: lv_put_def lv_ok_def)
qed

lemma lv_extend_serves: "lv_ok v \<Longrightarrow> lv_len v + length bs \<le> 1000 \<Longrightarrow> \<exists>v'. lv_extend bs v = Ok v'"
  by (auto simp: lv_extend_def lv_grow_def lv_ok_def)

interpretation list_buf: bump_buffer list_vec_lib lv_ok 32 1000
proof
  note d = list_vec_lib_def vec_content_def
  fix v v' :: list_vec and n c i :: nat and bs and x :: byte
  show "vl_len list_vec_lib v \<le> vl_capacity list_vec_lib v \<and> length (vl_memory list_vec_lib v) = vl_capacity list_vec_lib v
    \<and> vl_capacity list_vec_lib v \<le> isize_max 32" if "lv_ok v" using that by (simp add: d lv_ok_def isize_max_def)
  show "lv_ok (vl_with_capacity_in list_vec_lib c) \<and> vl_len list_vec_lib (vl_with_capacity_in list_vec_lib c) = 0" if "c \<le> 1000"
    using that by (simp add: d lv_ok_def)
  show "lv_ok v' \<and> vec_content list_vec_lib v' = vec_content list_vec_lib v \<and> vl_len list_vec_lib v + n \<le> vl_capacity list_vec_lib v'"
    if "lv_ok v" "vl_reserve list_vec_lib n v = Ok v'" using lv_grow_Ok [of v n v'] that by (simp add: d)
  show "lv_ok v' \<and> vec_content list_vec_lib v' = vec_content list_vec_lib v @ bs"
    if "lv_ok v" "vl_extend_from_slice list_vec_lib bs v = Ok v'" using lv_extend_Ok [of v bs v'] that by (simp add: d)
  show "lv_ok v' \<and> vec_content list_vec_lib v' = take n (vec_content list_vec_lib v) @ replicate (n - vl_len list_vec_lib v) x"
    if "lv_ok v" "vl_resize list_vec_lib n x v = Ok v'"
    using lv_extend_Ok [of v "replicate (n - lv_len v) x" v'] that by (auto simp: d lv_ok_def split: if_splits)
  show "lv_ok (vl_set_len list_vec_lib n v) \<and> vl_len list_vec_lib (vl_set_len list_vec_lib n v) = n
    \<and> vl_memory list_vec_lib (vl_set_len list_vec_lib n v) = vl_memory list_vec_lib v" if "lv_ok v" "n \<le> vl_capacity list_vec_lib v"
    using that by (simp add: d lv_ok_def)
  show "lv_ok (vl_write list_vec_lib i bs v) \<and> vl_len list_vec_lib (vl_write list_vec_lib i bs v) = vl_len list_vec_lib v
    \<and> vl_capacity list_vec_lib (vl_write list_vec_lib i bs v) = vl_capacity list_vec_lib v
    \<and> vl_memory list_vec_lib (vl_write list_vec_lib i bs v) =
        take i (vl_memory list_vec_lib v) @ bs @ drop (i + length bs) (vl_memory list_vec_lib v)"
    if "lv_ok v" "i + length bs \<le> vl_capacity list_vec_lib v" using that by (simp add: d lv_ok_def lv_put_def)
  show "\<exists>v'. vl_reserve list_vec_lib n v = Ok v'" if "lv_ok v" "vl_len list_vec_lib v + n \<le> 1000"
    using that by (simp add: d lv_grow_def)
  show "\<exists>v'. vl_extend_from_slice list_vec_lib bs v = Ok v'" if "lv_ok v" "vl_len list_vec_lib v + length bs \<le> 1000"
    using lv_extend_serves [of v bs] that by (simp add: d)
  show "\<exists>v'. vl_resize list_vec_lib n x v = Ok v'" if "lv_ok v" "n \<le> 1000"
    using lv_extend_serves [of v "replicate (n - lv_len v) x"] that by (auto simp: d lv_ok_def)
qed (simp_all add: isize_max_def)

section \<open>Property\<close>

definition run_op :: "nat \<Rightarrow> 'v vec_lib \<Rightarrow> buf_op \<Rightarrow> 'v bump_bytes_mut \<Rightarrow> (unit, 'v bump_bytes_mut) outcome" where
  "run_op w V = apply_op (put V) (put_slice V) (put_bytes w V) (write_spare V)"

context bump_buffer
begin

lemma buffer_writes:
  assumes "c \<le> limit"
  shows "(\<forall>b. run_writes (run_op w V) ops (with_capacity_in V c) = Ok b \<longrightarrow>
      vec_content V (into_inner b) = concat (map written ops) \<and> buf_len V b = length (concat (map written ops))
      \<and> remaining_mut w V b + buf_len V b = isize_max w)
    \<and> ((\<forall>op \<in> set ops. \<not> is_chunk_op op) \<and> length (concat (map written ops)) \<le> limit \<longrightarrow>
      (\<exists>b. run_writes (run_op w V) ops (with_capacity_in V c) = Ok b))"
proof -
  have start: "ok (inner (with_capacity_in V c))" "buf_content V (with_capacity_in V c) = []"
    using with_capacity [OF assms] by (auto simp: with_capacity_in_def buf_content_def vec_content_def)
  have "vec_content V (into_inner b) = concat (map written ops) \<and> buf_len V b = length (concat (map written ops))
      \<and> remaining_mut w V b + buf_len V b = isize_max w"
    if "run_writes (run_op w V) ops (with_capacity_in V c) = Ok b" for b
  proof -
    have b: "ok (inner b)" "vec_content V (inner b) = concat (map written ops)"
      using buf.writes_append [OF start(1) that [unfolded run_op_def]] start(2) by (auto simp: buf_content_def)
    then have "vl_len V (inner b) = length (concat (map written ops))" "vl_len V (inner b) \<le> isize_max w"
      using vec_content_length [OF b(1)] sizes [OF b(1)] by auto
    with b(2) show ?thesis by (simp add: into_inner_def buf_len_def remaining_mut_def)
  qed
  moreover have "\<exists>b. run_writes (run_op w V) ops (with_capacity_in V c) = Ok b"
    if "\<forall>op \<in> set ops. \<not> is_chunk_op op" "length (concat (map written ops)) \<le> limit"
    using buf.writes_serve [OF start(1) that(1)] that(2) start(2) by (simp add: run_op_def)
  ultimately show ?thesis by blast
qed

end

text \<open>
  C40: the buffer is an append-only sequence of bytes. After any sequence of \<open>put\<close>, \<open>put_slice\<close>, \<open>put_bytes\<close>
  and writes through \<open>chunk_mut\<close> and \<open>advance_mut\<close> that does not panic, the buffer holds exactly the
  bytes written, in order, and its length and remaining space add up to \<open>isize::MAX\<close>; the saturating
  addition of \<open>put_bytes\<close> has not cut anything. The sequences without unsafe
  writes succeed as long as the allocator can serve their total length. This holds on every vector
  with the laws of \<open>bumpalo\<close>'s.
\<close>

theorem bump_buffer_appends:
  assumes "bump_buffer V ok w limit" "c \<le> limit"
  shows "(\<forall>b. run_writes (run_op w V) ops (with_capacity_in V c) = Ok b \<longrightarrow>
      vec_content V (into_inner b) = concat (map written ops) \<and> buf_len V b = length (concat (map written ops))
      \<and> remaining_mut w V b + buf_len V b = isize_max w)
    \<and> ((\<forall>op \<in> set ops. \<not> is_chunk_op op) \<and> length (concat (map written ops)) \<le> limit \<longrightarrow>
      (\<exists>b. run_writes (run_op w V) ops (with_capacity_in V c) = Ok b))"
  by (rule bump_buffer.buffer_writes [OF assms])

theorem bump_buffer_appends_witness:
  "\<exists>b. run_writes (run_op 32 list_vec_lib) [OpSlice [1, 2], OpBytes 9 3, OpPut [[4], [5, 6]]] (with_capacity_in list_vec_lib 1) = Ok b
     \<and> vec_content list_vec_lib (into_inner b) = [1, 2, 9, 9, 9, 4, 5, 6]"
  using bump_buffer_appends [OF list_buf.bump_buffer_axioms, of 1 "[OpSlice [1, 2], OpBytes 9 3, OpPut [[4], [5, 6]]]"]
  by (auto simp: is_chunk_op_def numeral_eq_Suc)

end
