(* ===== verification/Block_Executor.thy ===== *)
theory Block_Executor
  imports Client_Types
begin

text \<open>
  Model of the block executor of \<^verbatim>\<open>crates/executor/client/src/capacity.rs\<close>: reth's execution sequence on
  a state that the caller supplies. The state of the EVM and the executor of a block are third-party
  code, a type of states, a type of executors and the operations in \<open>strategy\<close>. An executor holds the
  state it was made for, which \<open>db_of\<close> reads and \<open>with_db\<close> replaces (\<^verbatim>\<open>evm_mut().db_mut()\<close>); a step
  that fails leaves the executor as it is at that point. Reserving capacity has no
  effect on values.
\<close>

section \<open>The state\<close>

text \<open>
  The maps of REVM's state whose capacity is reserved; \<open>'m\<close> is the type of maps and \<open>transition_state\<close>
  is present when the state is built with bundle updates.
\<close>

record 'm cache_db =
  cache_accounts :: 'm
  cache_contracts :: 'm
  cache_block_hashes :: 'm

record 'm revm_state =
  rs_database :: "'m cache_db"
  rs_accounts :: 'm
  rs_contracts :: 'm
  rs_transitions :: "'m option"
  rs_bundle :: 'm
  rs_bundle_contracts :: 'm

record 'm state_lib =
  map_reserve :: "nat \<Rightarrow> 'm \<Rightarrow> 'm"
  build_state :: "'m cache_db \<Rightarrow> 'm revm_state"

definition revm_state_with_capacity ::
  "nat \<Rightarrow> 'm state_lib \<Rightarrow> 'm cache_db \<Rightarrow> nat \<Rightarrow> nat \<Rightarrow> (unit, 'm revm_state) outcome" where
  "revm_state_with_capacity w M database transaction_count ancestor_count =
     (let hints = capacity_hints w transaction_count ancestor_count;
          database = database\<lparr>cache_accounts := map_reserve M (cap_accounts hints) (cache_accounts database),
                              cache_contracts := map_reserve M (cap_contracts hints) (cache_contracts database),
                              cache_block_hashes := map_reserve M (cap_block_hashes hints) (cache_block_hashes database)\<rparr>;
          state = build_state M database;
          state = state\<lparr>rs_accounts := map_reserve M (cap_accounts hints) (rs_accounts state),
                        rs_contracts := map_reserve M (cap_contracts hints) (rs_contracts state)\<rparr> in
      case rs_transitions state of
        None \<Rightarrow> Panic UnwrapNone
      | Some transitions \<Rightarrow>
          Ok (state\<lparr>rs_transitions := Some (map_reserve M (cap_accounts hints) transitions),
                    rs_bundle := map_reserve M (cap_accounts hints) (rs_bundle state),
                    rs_bundle_contracts := map_reserve M (cap_contracts hints) (rs_bundle_contracts state)\<rparr>))"

lemma reserved_state_equal:
  assumes "\<And>n m. map_reserve M n m = m" "rs_transitions (build_state M db) \<noteq> None"
  shows "revm_state_with_capacity w M db txs ancestors = Ok (build_state M db)"
  using assms by (auto simp: revm_state_with_capacity_def Let_def)

section \<open>Execution\<close>

record ('s, 'x, 't, 'r, 'e) strategy =
  executor_for_block :: "'s \<Rightarrow> eth_block \<Rightarrow> 'e + 'x"
  db_of :: "'x \<Rightarrow> 's"
  with_db :: "'s \<Rightarrow> 'x \<Rightarrow> 'x"
  has_block_access_list :: "eth_block \<Rightarrow> bool"
  transactions_recovered :: "eth_block \<Rightarrow> 't list"
  set_bal_builder :: "bool \<Rightarrow> 's \<Rightarrow> 's"
  bump_bal_index :: "'s \<Rightarrow> 's"
  apply_pre_execution_changes :: "'x \<Rightarrow> ('e + unit) \<times> 'x"
  execute_transaction :: "'t \<Rightarrow> 'x \<Rightarrow> ('e + unit) \<times> 'x"
  apply_post_execution_changes :: "'x \<Rightarrow> ('e + 'r) \<times> 's"
  merge_transitions :: "'s \<Rightarrow> 's"
  set_state_hook :: "bool \<Rightarrow> 's \<Rightarrow> 's"
  execute_block_hooked :: "'t list \<Rightarrow> 'x \<Rightarrow> ('e + 'r) \<times> 's"

definition on_db :: "('s, 'x, 't, 'r, 'e) strategy \<Rightarrow> ('s \<Rightarrow> 's) \<Rightarrow> 'x \<Rightarrow> 'x" where
  "on_db Z f x = with_db Z (f (db_of Z x)) x"

definition bump_if :: "('s, 'x, 't, 'r, 'e) strategy \<Rightarrow> bool \<Rightarrow> 'x \<Rightarrow> 'x" where
  "bump_if Z has_bal x = (if has_bal then on_db Z (bump_bal_index Z) x else x)"

text \<open>The loop over the transactions.\<close>

primrec execute_transactions ::
  "('s, 'x, 't, 'r, 'e) strategy \<Rightarrow> bool \<Rightarrow> 't list \<Rightarrow> 'x \<Rightarrow> ('e + unit) \<times> 'x" where
  "execute_transactions Z has_bal [] x = (Inr (), x)"
| "execute_transactions Z has_bal (tx # txs) x =
     (case execute_transaction Z tx x of
        (Inl e, x) \<Rightarrow> (Inl e, x)
      | (Inr _, x) \<Rightarrow> execute_transactions Z has_bal txs (bump_if Z has_bal x))"

definition execute_one :: "('s, 'x, 't, 'r, 'e) strategy \<Rightarrow> eth_block \<Rightarrow> 's \<Rightarrow> ('e + 'r) \<times> 's" where
  "execute_one Z block db =
     (case executor_for_block Z db block of
        Inl e \<Rightarrow> (Inl e, db)
      | Inr x \<Rightarrow>
          (let has_bal = has_block_access_list Z block;
               x = on_db Z (set_bal_builder Z has_bal) x in
           case apply_pre_execution_changes Z x of
             (Inl e, x) \<Rightarrow> (Inl e, db_of Z x)
           | (Inr _, x) \<Rightarrow>
               (case execute_transactions Z has_bal (transactions_recovered Z block) (bump_if Z has_bal x) of
                  (Inl e, x) \<Rightarrow> (Inl e, db_of Z x)
                | (Inr _, x) \<Rightarrow>
                    (case apply_post_execution_changes Z x of
                       (Inl e, db) \<Rightarrow> (Inl e, db)
                     | (Inr r, db) \<Rightarrow> (Inr r, merge_transitions Z db)))))"

text \<open>With a state hook the transitions are merged on failure too.\<close>

definition execute_one_with_state_hook ::
  "('s, 'x, 't, 'r, 'e) strategy \<Rightarrow> eth_block \<Rightarrow> 's \<Rightarrow> ('e + 'r) \<times> 's" where
  "execute_one_with_state_hook Z block db =
     (case executor_for_block Z db block of
        Inl e \<Rightarrow> (Inl e, db)
      | Inr x \<Rightarrow>
          (case execute_block_hooked Z (transactions_recovered Z block) (on_db Z (set_state_hook Z True) x) of
             (result, db) \<Rightarrow> (result, merge_transitions Z (set_state_hook Z False db))))"

section \<open>Block access list indices\<close>

text \<open>
  The index under which REVM records the accesses of a step. Steps of the library do not
  change it, \<^verbatim>\<open>bump_bal_index\<close> increments it.
\<close>

locale bal_laws =
  fixes Z :: "('s, 'x, 't, 'r, 'e) strategy" and idx :: "'s \<Rightarrow> nat"
  assumes with_db [simp]: "db_of Z (with_db Z s x) = s"
    and new_db: "executor_for_block Z s b = Inr x \<Longrightarrow> db_of Z x = s"
    and builder [simp]: "idx (set_bal_builder Z f s) = idx s"
    and bump [simp]: "idx (bump_bal_index Z s) = Suc (idx s)"
    and pre: "apply_pre_execution_changes Z x = (Inr (), x') \<Longrightarrow> idx (db_of Z x') = idx (db_of Z x)"
    and tx: "execute_transaction Z t x = (Inr (), x') \<Longrightarrow> idx (db_of Z x') = idx (db_of Z x)"

definition bal_step :: "bool \<Rightarrow> nat" where
  "bal_step has_bal = (if has_bal then 1 else 0)"

text \<open>The executors before each transaction and after the last one.\<close>

primrec tx_states :: "('s, 'x, 't, 'r, 'e) strategy \<Rightarrow> bool \<Rightarrow> 't list \<Rightarrow> 'x \<Rightarrow> 'x list" where
  "tx_states Z has_bal [] x = [x]"
| "tx_states Z has_bal (tx # txs) x = x # tx_states Z has_bal txs (bump_if Z has_bal (snd (execute_transaction Z tx x)))"

context bal_laws
begin

lemma bump_if_index [simp]: "idx (db_of Z (bump_if Z has_bal x)) = idx (db_of Z x) + bal_step has_bal"
  by (simp add: bump_if_def on_db_def bal_step_def)

lemma transactions_indices:
  "execute_transactions Z has_bal txs x = (Inr (), x') \<Longrightarrow>
   last (tx_states Z has_bal txs x) = x' \<and> length (tx_states Z has_bal txs x) = Suc (length txs)
   \<and> map (\<lambda>x. idx (db_of Z x)) (tx_states Z has_bal txs x) = map (\<lambda>i. idx (db_of Z x) + i * bal_step has_bal) [0..<Suc (length txs)]"
proof (induction txs arbitrary: x)
  case (Cons t txs)
  obtain y where y: "execute_transaction Z t x = (Inr (), y)" using Cons.prems by (auto split: prod.splits sum.splits)
  let ?z = "bump_if Z has_bal y"
  have run: "execute_transactions Z has_bal txs ?z = (Inr (), x')" using Cons.prems y by simp
  have states: "tx_states Z has_bal (t # txs) x = x # tx_states Z has_bal txs ?z" using y by simp
  have ne: "tx_states Z has_bal txs ?z \<noteq> []" using Cons.IH [OF run] by (metis length_0_conv nat.simps(3))
  have "map (\<lambda>x. idx (db_of Z x)) (tx_states Z has_bal txs ?z) =
      map (\<lambda>i. idx (db_of Z x) + bal_step has_bal + i * bal_step has_bal) [0..<Suc (length txs)]"
    using Cons.IH [OF run] tx [OF y] by simp
  moreover have "[0..<Suc (length (t # txs))] = 0 # map Suc [0..<Suc (length txs)]" by (simp add: map_Suc_upt upt_conv_Cons del: upt_Suc)
  ultimately show ?case using Cons.IH [OF run] states ne by (simp add: add.assoc del: upt_Suc)
qed simp

lemma execute_one_Ok:
  assumes "execute_one Z block db = (Inr r, db')"
  obtains x0 x1 x2 db1 where "apply_pre_execution_changes Z x0 = (Inr (), x1)" "idx (db_of Z x0) = idx db"
    "execute_transactions Z (has_block_access_list Z block) (transactions_recovered Z block)
       (bump_if Z (has_block_access_list Z block) x1) = (Inr (), x2)"
    "apply_post_execution_changes Z x2 = (Inr r, db1)" "db' = merge_transitions Z db1"
proof -
  from assms obtain x where x: "executor_for_block Z db block = Inr x" by (auto simp: execute_one_def split: sum.splits)
  let ?x0 = "on_db Z (set_bal_builder Z (has_block_access_list Z block)) x"
  have "idx (db_of Z ?x0) = idx db" using new_db [OF x] by (simp add: on_db_def)
  with assms x that [of ?x0] show thesis
    by (auto simp: execute_one_def Let_def split: prod.splits sum.splits)
qed

end

section \<open>An instance\<close>

text \<open>A state that logs the steps with their index.\<close>

definition log_strategy :: "(nat \<times> (nat \<times> string) list, nat \<times> (nat \<times> string) list, nat, nat, string) strategy" where
  "log_strategy =
     \<lparr>executor_for_block = (\<lambda>s _. Inr s), db_of = (\<lambda>x. x), with_db = (\<lambda>s _. s), has_block_access_list = (\<lambda>_. True),
      transactions_recovered = (\<lambda>b. [0..<blk_transaction_count b]), set_bal_builder = (\<lambda>_ s. s),
      bump_bal_index = (\<lambda>(i, l). (Suc i, l)), apply_pre_execution_changes = (\<lambda>(i, l). (Inr (), (i, l @ [(i, ''pre'')]))),
      execute_transaction = (\<lambda>t (i, l). (Inr (), (i, l @ [(i, ''tx'')]))),
      apply_post_execution_changes = (\<lambda>(i, l). (Inr 7, (i, l @ [(i, ''post'')]))), merge_transitions = (\<lambda>s. s),
      set_state_hook = (\<lambda>_ s. s), execute_block_hooked = (\<lambda>_ s. (Inr 7, s))\<rparr>"

definition plain_header :: block_header where
  "plain_header =
     \<lparr>hdr_number = 2, hdr_parent_hash = [], hdr_state_root = [], hdr_ommers_hash = [], hdr_transactions_root = [],
      hdr_receipts_root = [], hdr_withdrawals_root = None, hdr_logs_bloom = [], hdr_requests_hash = None, hdr_other = []\<rparr>"

interpretation log_bal: bal_laws log_strategy fst
  by unfold_locales (auto simp: log_strategy_def)

section \<open>Property\<close>

text \<open>
  C39: the executor runs a block in the order of the block access list. On success the changes before
  execution were applied at the index of the given state, the \<open>i\<close>-th transaction at the \<open>i + 1\<close>-st index after it when
  the header has a block access list, and the changes after execution at the next index; the
  executors before the steps are those that the steps before left. Without a block access list the index
  does not move. The transitions are merged once, at the end, and only on success.
\<close>

theorem execute_one_bal_indices:
  assumes "bal_laws Z idx" "execute_one Z block db = (Inr r, db')"
  shows "\<exists>x0 x1 xs db1. apply_pre_execution_changes Z x0 = (Inr (), x1) \<and> idx (db_of Z x0) = idx db
    \<and> xs = tx_states Z (has_block_access_list Z block) (transactions_recovered Z block) (bump_if Z (has_block_access_list Z block) x1)
    \<and> map (\<lambda>x. idx (db_of Z x)) xs =
        map (\<lambda>i. idx db + (i + 1) * bal_step (has_block_access_list Z block)) [0..<length (transactions_recovered Z block) + 1]
    \<and> apply_post_execution_changes Z (last xs) = (Inr r, db1) \<and> db' = merge_transitions Z db1"
proof -
  let ?b = "has_block_access_list Z block" and ?txs = "transactions_recovered Z block"
  obtain x0 x1 x2 db1 where s: "apply_pre_execution_changes Z x0 = (Inr (), x1)" "idx (db_of Z x0) = idx db"
    "execute_transactions Z ?b ?txs (bump_if Z ?b x1) = (Inr (), x2)"
    "apply_post_execution_changes Z x2 = (Inr r, db1)" "db' = merge_transitions Z db1"
    by (rule bal_laws.execute_one_Ok [OF assms])
  have "idx (db_of Z (bump_if Z ?b x1)) = idx db + bal_step ?b"
    using bal_laws.bump_if_index [OF assms(1)] bal_laws.pre [OF assms(1) s(1)] s(2) by simp
  with bal_laws.transactions_indices [OF assms(1) s(3)] s show ?thesis
    by (intro exI [of _ x0] exI [of _ x1] exI [of _ "tx_states Z ?b ?txs (bump_if Z ?b x1)"] exI [of _ db1])
       (simp add: add.assoc del: upt_Suc)
qed

theorem execute_one_bal_indices_witness:
  "snd (snd (execute_one log_strategy \<lparr>blk_header = plain_header, blk_transaction_count = 2, blk_body = []\<rparr> (0, []))) =
     [(0, ''pre''), (1, ''tx''), (2, ''tx''), (3, ''post'')]"
proof -
  let ?b = "\<lparr>blk_header = plain_header, blk_transaction_count = 2, blk_body = []\<rparr>"
  have run: "execute_one log_strategy ?b (0, []) = (Inr 7, (3, [(0, ''pre''), (1, ''tx''), (2, ''tx''), (3, ''post'')]))"
    by (simp add: execute_one_def log_strategy_def on_db_def bump_if_def numeral_eq_Suc)
  from execute_one_bal_indices [OF log_bal.bal_laws_axioms run] run show ?thesis by simp
qed

end
