(* ===== verification/Client_Serde.thy ===== *)
theory Client_Serde
  imports Client_Types
begin

text \<open>
  Model of \<^verbatim>\<open>serde_bincode_compat\<close> in \<^verbatim>\<open>crates/executor/client/src/io.rs\<close>: a block travels as the byte
  vector of its RLP encoding. The RLP codec of blocks and the serialiser of byte vectors are
  third-party code.
\<close>

record ('o, 'i) block_serde =
  block_encode :: "eth_block \<Rightarrow> bytes"
  block_decode :: "bytes \<Rightarrow> string + eth_block \<times> bytes"
  vec_serialize :: "bytes \<Rightarrow> string + 'o"
  vec_deserialize :: "'i \<Rightarrow> string + bytes"

definition serialize_as :: "('o, 'i) block_serde \<Rightarrow> eth_block \<Rightarrow> string + 'o" where
  "serialize_as S source = vec_serialize S (block_encode S source)"

definition deserialize_as :: "('o, 'i) block_serde \<Rightarrow> 'i \<Rightarrow> string + eth_block" where
  "deserialize_as S d =
     (case vec_deserialize S d of
        Inl e \<Rightarrow> Inl e
      | Inr bs \<Rightarrow>
          (case block_decode S bs of
             Inl e \<Rightarrow> Inl e
           | Inr (block, buf) \<Rightarrow> (if buf \<noteq> [] then Inl ''trailing bytes in RLP block'' else Inr block)))"

text \<open>
  A block is read back, and bytes after a block are rejected, when the vector serialiser and the RLP decoder read
  back what was written.
\<close>

lemma block_roundtrip:
  assumes "\<And>bs d. vec_serialize S bs = Inr d \<Longrightarrow> vec_deserialize S d = Inr bs"
    and "block_decode S (block_encode S b @ rest) = Inr (b, rest)"
    and "vec_serialize S (block_encode S b @ rest) = Inr d"
  shows "deserialize_as S d = (if rest = [] then Inr b else Inl ''trailing bytes in RLP block'')"
  using assms(1) [OF assms(3)] assms(2) by (simp add: deserialize_as_def)

lemma serialized_block_read:
  assumes "\<And>bs d. vec_serialize S bs = Inr d \<Longrightarrow> vec_deserialize S d = Inr bs"
    and "\<And>rest. block_decode S (block_encode S b @ rest) = Inr (b, rest)" and "serialize_as S b = Inr d"
  shows "deserialize_as S d = Inr b"
  using block_roundtrip [OF assms(1) assms(2), of "[]" d] assms(3) by (simp add: serialize_as_def)

end
