(* ===== verification/Bench_Input.thy ===== *)
theory Bench_Input
  imports Host_Executor Host_Hints Guest
begin

text \<open>
  Model of how the benchmark driver gets the client's input: \<^verbatim>\<open>crates/host-bench/src/cli.rs\<close> and the
  loading, caching and \<^verbatim>\<open>make-input\<close> parts of \<^verbatim>\<open>crates/host-bench/src/lib.rs\<close>, as the default features
  build it.

  The file system is a map from paths to contents and a set of directories; operations on the
  paths in \<open>be_io_fails\<close> fail. \<open>be_own_var\<close> is the environment the process is started with and \<open>be_var\<close> the one
  after the \<^verbatim>\<open>.env\<close> file has been loaded into it. The variables, the answers of cargo and of the system about the process, the chain id a node answers, URL parsing and the
  serialisation libraries are parameters, and so is the snapshot of the metrics. The RPC node behind a URL is the environment of the host
  executor.
\<close>

section \<open>Paths and files\<close>

type_synonym path = string

fun show_nat :: "nat \<Rightarrow> string" where
  "show_nat n = (if n < 10 then [char_of (48 + n)] else show_nat (n div 10) @ [char_of (48 + n mod 10)])"

declare show_nat.simps [simp del]

text \<open>\<^verbatim>\<open>str::parse::<u64>\<close>: an optional plus sign and digits, without overflow.\<close>

definition digit_of :: "char \<Rightarrow> nat option" where
  "digit_of c = (let n = of_char c :: nat in if 48 \<le> n \<and> n \<le> 57 then Some (n - 48) else None)"

primrec parse_digits :: "string \<Rightarrow> nat \<Rightarrow> nat option" where
  "parse_digits [] n = Some n"
| "parse_digits (c # cs) n =
     (case digit_of c of
        None \<Rightarrow> None
      | Some d \<Rightarrow> (if 10 * n + d < 2 ^ 64 then parse_digits cs (10 * n + d) else None))"

definition parse_u64 :: "string \<Rightarrow> u64 option" where
  "parse_u64 s =
     (let ds = (if take 1 s = ''+'' then drop 1 s else s) in
      if ds = [] then None else map_option of_nat (parse_digits ds 0))"

text \<open>\<^verbatim>\<open>Path::join\<close>, \<^verbatim>\<open>Path::file_name\<close> and \<^verbatim>\<open>Path::extension\<close>.\<close>

definition join :: "path \<Rightarrow> path \<Rightarrow> path" where
  "join p q =
     (if take 1 q = ''/'' \<or> p = [] then q else if last p = CHR ''/'' then p @ q else p @ ''/'' @ q)"

definition file_name :: "path \<Rightarrow> path" where
  "file_name p = rev (takeWhile (\<lambda>c. c \<noteq> CHR ''/'') (dropWhile (\<lambda>c. c = CHR ''/'') (rev p)))"

definition extension :: "path \<Rightarrow> string option" where
  "extension p =
     (let n = rev (file_name p); e = takeWhile (\<lambda>c. c \<noteq> CHR ''.'') n; rest = drop (length e) n in
      if file_name p = ''..'' \<or> length rest \<le> 1 then None else Some (rev e))"

definition strip_slashes :: "path \<Rightarrow> path" where
  "strip_slashes p = rev (dropWhile (\<lambda>c. c = CHR ''/'') (rev p))"

definition parent_dir :: "path \<Rightarrow> path option" where
  "parent_dir p =
     (let q = strip_slashes p; d = rev (dropWhile (\<lambda>c. c \<noteq> CHR ''/'') (rev q)) in
      if q = [] then None
      else Some (if d \<noteq> [] \<and> strip_slashes d = [] then ''/'' else strip_slashes d))"

text \<open>A parent is shorter, so loops over parents end.\<close>

lemma length_strip_slashes: "length (strip_slashes p) \<le> length p"
  using length_dropWhile_le [of "\<lambda>c. c = CHR ''/''" "rev p"] by (simp add: strip_slashes_def)

lemma last_strip_slashes: "strip_slashes p \<noteq> [] \<Longrightarrow> last (strip_slashes p) \<noteq> CHR ''/''"
  using hd_dropWhile [of "\<lambda>c. c = CHR ''/''" "rev p"] by (simp add: strip_slashes_def last_rev)

lemma length_cut:
  assumes "q \<noteq> []" "\<not> P (last q)"
  shows "length (rev (dropWhile (\<lambda>c. \<not> P c) (rev q))) < length q"
  using assms length_dropWhile_le [of "\<lambda>c. \<not> P c" "tl (rev q)"] by (cases q rule: rev_cases) auto

lemma parent_dir_shorter:
  assumes "parent_dir p = Some d"
  shows "length d < length p"
proof -
  define q where "q = strip_slashes p"
  define r where "r = rev (dropWhile (\<lambda>c. c \<noteq> CHR ''/'') (rev q))"
  have q: "q \<noteq> []" and d: "d = (if r \<noteq> [] \<and> strip_slashes r = [] then ''/'' else strip_slashes r)"
    using assms unfolding parent_dir_def Let_def q_def [symmetric] r_def [symmetric] by (auto split: if_splits)
  have "length r < length q"
    unfolding r_def using q last_strip_slashes [of p] by (intro length_cut) (simp_all add: q_def)
  moreover have "length d \<le> length r"
    using length_strip_slashes [of r] unfolding d by (cases r) simp_all
  ultimately show ?thesis using length_strip_slashes [of p] by (simp add: q_def)
qed

definition ascii_lower :: "char \<Rightarrow> char" where
  "ascii_lower c = (let n = of_char c :: nat in if 65 \<le> n \<and> n \<le> 90 then char_of (n + 32) else c)"

definition eq_ignore_ascii_case :: "string \<Rightarrow> string \<Rightarrow> bool" where
  "eq_ignore_ascii_case s t = (map ascii_lower s = map ascii_lower t)"

record world =
  files :: "path \<Rightarrow> bytes option"
  dirs :: "path \<Rightarrow> bool"

datatype bench_error =
    IoFailed path
  | DecodeFailed string
  | EncodeFailed string
  | InvalidInput string
  | NoProvider
  | RpcFailed string
  | UnknownChain u64
  | NoInput
  | NoOutputPath
  | AggPkUnsupported
  | RequiresAot
  | HintsFailed "Host_Hints.host_error"
  | ClientFailed client_error
  | SetupFailed string
  | VmFailed string
  | NoDigest
  | DigestMismatch bytes bytes
  | BadExit "32 word option"
  | ProveFailed string

record bench_env =
  be_own_var :: "string \<Rightarrow> string option"
  be_var :: "string \<Rightarrow> string option"
  be_parse_url :: "string \<Rightarrow> string option"
  be_chain_id :: "string \<Rightarrow> string + u64"
  be_io_fails :: "path \<Rightarrow> bool"
  be_encode_input :: "client_input \<Rightarrow> string + bytes"
  be_decode_input :: "bytes \<Rightarrow> string + client_input"
  be_json_input :: "bytes \<Rightarrow> string + string option list option"
  be_hex_decode :: "string \<Rightarrow> string + bytes"
  be_host :: "string \<Rightarrow> host_env"
  be_host_evm :: "eth_block \<Rightarrow> evm"
  be_metrics :: "string + bytes"
  be_cargo_root :: "path option"
  be_current_exe :: "path option"
  be_current_dir :: "path option"

definition path_exists :: "path \<Rightarrow> world \<Rightarrow> bool" where
  "path_exists p w = (files w p \<noteq> None \<or> dirs w p)"

definition read_file :: "bench_env \<Rightarrow> path \<Rightarrow> world \<Rightarrow> (bench_error, bytes) outcome" where
  "read_file B p w =
     (if be_io_fails B p then Err (IoFailed p)
      else case files w p of None \<Rightarrow> Err (IoFailed p) | Some bs \<Rightarrow> Ok bs)"

definition write_file :: "bench_env \<Rightarrow> path \<Rightarrow> bytes \<Rightarrow> world \<Rightarrow> (bench_error, unit) outcome \<times> world" where
  "write_file B p bs w =
     (if be_io_fails B p then (Err (IoFailed p), w) else (Ok (), w\<lparr>files := (files w)(p \<mapsto> bs)\<rparr>))"

text \<open>\<^verbatim>\<open>fs::create_dir_all\<close>: the missing parents first; a file in the way is an error.\<close>

definition create_dir :: "bench_env \<Rightarrow> path \<Rightarrow> world \<Rightarrow> (bench_error, unit) outcome \<times> world" where
  "create_dir B p w =
     (if be_io_fails B p \<or> files w p \<noteq> None then (Err (IoFailed p), w) else (Ok (), w\<lparr>dirs := (dirs w)(p := True)\<rparr>))"

function create_dir_all :: "bench_env \<Rightarrow> path \<Rightarrow> world \<Rightarrow> (bench_error, unit) outcome \<times> world" where
  "create_dir_all B p w =
     (if p = [] \<or> dirs w p then (Ok (), w)
      else case parent_dir p of
             None \<Rightarrow> (Ok (), w)
           | Some d \<Rightarrow> and_then (create_dir_all B d w) (\<lambda>_ w. create_dir B p w))"
  by pat_completeness auto

termination
  by (relation "measure (\<lambda>(B, p, w). length p)") (auto dest: parent_dir_shorter)

declare create_dir_all.simps [simp del]

lemma create_dir_all_files: "create_dir_all B p w = (r, w') \<Longrightarrow> files w' = files w"
proof (induction B p w arbitrary: r w' rule: create_dir_all.induct)
  case (1 B p w)
  show ?case
  proof (cases "p = [] \<or> dirs w p \<or> parent_dir p = None")
    case False
    then obtain d where d: "p \<noteq> []" "\<not> dirs w p" "parent_dir p = Some d" by auto
    obtain r1 w1 where w1: "create_dir_all B d w = (r1, w1)" by fastforce
    have "files w1 = files w" using 1(1) [OF _ d(3) w1] d(1,2) by blast
    with 1(2) d w1 show ?thesis
      by (subst (asm) create_dir_all.simps) (cases r1, auto simp: create_dir_def split: if_splits)
  qed (use 1(2) in \<open>subst (asm) create_dir_all.simps, auto split: if_splits\<close>)
qed

definition lift_lib :: "(string \<Rightarrow> bench_error) \<Rightarrow> string + 'a \<Rightarrow> (bench_error, 'a) outcome" where
  "lift_lib f r = (case r of Inl e \<Rightarrow> Err (f e) | Inr a \<Rightarrow> Ok a)"

section \<open>The provider\<close>

record provider_args =
  pa_rpc_url :: "string option"
  pa_chain_id :: "u64 option"

record provider_config =
  pc_rpc_url :: "string option"
  pc_chain_id :: u64

definition into_provider :: "bench_env \<Rightarrow> provider_args \<Rightarrow> (bench_error, provider_config) outcome" where
  "into_provider B a =
     (case (pa_rpc_url a, pa_chain_id a) of
        (Some rpc_url, Some chain_id) \<Rightarrow> Ok \<lparr>pc_rpc_url = Some rpc_url, pc_chain_id = chain_id\<rparr>
      | (None, Some chain_id) \<Rightarrow>
          (case be_var B (''RPC_'' @ show_nat (unat chain_id)) of
             Some s \<Rightarrow>
               (case be_parse_url B s of
                  Some rpc_url \<Rightarrow> Ok \<lparr>pc_rpc_url = Some rpc_url, pc_chain_id = chain_id\<rparr>
                | None \<Rightarrow> Panic UnwrapNone)
           | None \<Rightarrow> Ok \<lparr>pc_rpc_url = None, pc_chain_id = chain_id\<rparr>)
      | (Some rpc_url, None) \<Rightarrow>
          (case be_chain_id B rpc_url of
             Inl e \<Rightarrow> Err (RpcFailed e)
           | Inr chain_id \<Rightarrow> Ok \<lparr>pc_rpc_url = Some rpc_url, pc_chain_id = chain_id\<rparr>)
      | (None, None) \<Rightarrow> Err NoProvider)"

section \<open>Loading\<close>

definition CHAIN_ID_ETH_MAINNET :: u64 where
  "CHAIN_ID_ETH_MAINNET = 1"

definition cache_folder :: "path \<Rightarrow> u64 \<Rightarrow> path" where
  "cache_folder dir chain_id = join dir (''input/'' @ show_nat (unat chain_id))"

definition cache_file :: "path \<Rightarrow> u64 \<Rightarrow> u64 \<Rightarrow> path" where
  "cache_file dir chain_id block_number = join (cache_folder dir chain_id) (show_nat (unat block_number) @ ''.bin'')"

definition try_load_input_from_cache ::
  "bench_env \<Rightarrow> path option \<Rightarrow> u64 \<Rightarrow> u64 \<Rightarrow> world \<Rightarrow> (bench_error, client_input option) outcome" where
  "try_load_input_from_cache B cache_dir chain_id block_number w =
     (case cache_dir of
        None \<Rightarrow> Ok None
      | Some dir \<Rightarrow>
          (let cache_path = join dir (''input/'' @ show_nat (unat chain_id) @ ''/'' @ show_nat (unat block_number) @ ''.bin'') in
           if path_exists cache_path w then
             (case read_file B cache_path w of
                Ok bs \<Rightarrow> (case be_decode_input B bs of Inl e \<Rightarrow> Err (DecodeFailed e) | Inr inp \<Rightarrow> Ok (Some inp))
              | Err e \<Rightarrow> Err e
              | Panic p \<Rightarrow> Panic p)
           else Ok None))"

fun trim_start_0x :: "string \<Rightarrow> string" where
  "trim_start_0x (a # b # s) = (if a = CHR ''0'' \<and> b = CHR ''x'' then trim_start_0x s else a # b # s)"
| "trim_start_0x s = s"

text \<open>The JSON branch always ends in an error: its last step needs the other back end.\<close>

definition load_json :: "bench_env \<Rightarrow> bytes \<Rightarrow> (bench_error, client_input) outcome" where
  "load_json B s =
     (case be_json_input B s of
        Inl e \<Rightarrow> Err (DecodeFailed e)
      | Inr None \<Rightarrow> Err (InvalidInput ''missing input array'')
      | Inr (Some arr) \<Rightarrow>
          (case arr of
             Some hex_str # _ \<Rightarrow>
               (case be_hex_decode B (trim_start_0x hex_str) of
                  Inl e \<Rightarrow> Err (DecodeFailed e)
                | Inr bs \<Rightarrow>
                    (let bs = (case bs of b # rest \<Rightarrow> if b = 1 then rest else bs | [] \<Rightarrow> []) in
                     if length bs mod 4 \<noteq> 0 then Err (InvalidInput ''length must be a multiple of 4'')
                     else Err (InvalidInput ''JSON input needs the openvm-backend feature'')))
           | _ \<Rightarrow> Err (InvalidInput ''input[0] must be a string'')))"

definition try_load_input_from_path :: "bench_env \<Rightarrow> path \<Rightarrow> world \<Rightarrow> (bench_error, client_input) outcome" where
  "try_load_input_from_path B p w =
     (let ext = (case extension p of Some e \<Rightarrow> e | None \<Rightarrow> []) in
      if eq_ignore_ascii_case ext ''json'' then
        (case read_file B p w of Ok s \<Rightarrow> load_json B s | Err e \<Rightarrow> Err e | Panic q \<Rightarrow> Panic q)
      else
        (case read_file B p w of
           Ok bs \<Rightarrow> lift_lib DecodeFailed (be_decode_input B bs)
         | Err e \<Rightarrow> Err e
         | Panic q \<Rightarrow> Panic q))"

text \<open>The file is created, and emptied, before the input is serialised into it.\<close>

definition store_input ::
  "bench_env \<Rightarrow> path \<Rightarrow> u64 \<Rightarrow> u64 \<Rightarrow> client_input \<Rightarrow> world \<Rightarrow> (bench_error, unit) outcome \<times> world" where
  "store_input B dir chain_id block_number inp w =
     and_then (if path_exists (cache_folder dir chain_id) w then (Ok (), w)
               else create_dir_all B (cache_folder dir chain_id) w) (\<lambda>_ w.
     and_then (write_file B (cache_file dir chain_id block_number) [] w) (\<lambda>_ w.
     and_then (lift_lib EncodeFailed (be_encode_input B inp), w) (\<lambda>bs w.
       write_file B (cache_file dir chain_id block_number) bs w)))"

record load_args =
  la_block_number :: u64
  la_provider :: provider_args
  la_cache_dir :: "path option"
  la_input_path :: "path option"

text \<open>The first part of \<^verbatim>\<open>run_ceno_reth_benchmark\<close>.\<close>

definition load_client_input :: "bench_env \<Rightarrow> load_args \<Rightarrow> world \<Rightarrow> (bench_error, client_input) outcome \<times> world" where
  "load_client_input B a w =
     (case la_input_path a of
        Some p \<Rightarrow>
          ((case try_load_input_from_path B p w of Ok inp \<Rightarrow> Ok inp | Err _ \<Rightarrow> Panic UnwrapNone | Panic q \<Rightarrow> Panic q), w)
      | None \<Rightarrow>
          and_then (into_provider B (la_provider a), w) (\<lambda>pc w.
            if pc_chain_id pc \<noteq> CHAIN_ID_ETH_MAINNET then (Err (UnknownChain (pc_chain_id pc)), w)
            else
              and_then (try_load_input_from_cache B (la_cache_dir a) (pc_chain_id pc) (la_block_number a) w, w) (\<lambda>cached w.
                case (cached, pc_rpc_url pc) of
                  (Some inp, _) \<Rightarrow> (Ok inp, w)
                | (None, Some rpc_url) \<Rightarrow>
                    (case host_execute (be_host B rpc_url) (be_host_evm B) (la_block_number a) of
                       Ok inp \<Rightarrow>
                         (case la_cache_dir a of
                            None \<Rightarrow> (Ok inp, w)
                          | Some dir \<Rightarrow>
                              and_then (store_input B dir (pc_chain_id pc) (la_block_number a) inp w) (\<lambda>_ w. (Ok inp, w)))
                     | Err _ \<Rightarrow> (Panic UnwrapNone, w)
                     | Panic p \<Rightarrow> (Panic p, w))
                | (None, None) \<Rightarrow> (Err NoInput, w))))"

text \<open>The \<^verbatim>\<open>make-input\<close> mode.\<close>

definition make_input ::
  "bench_env \<Rightarrow> load_args \<Rightarrow> path option \<Rightarrow> client_input \<Rightarrow> world \<Rightarrow> (bench_error, unit) outcome \<times> world" where
  "make_input B a generated_input_path inp w =
     (let output_root = (case generated_input_path of Some p \<Rightarrow> p | None \<Rightarrow> (case la_cache_dir a of Some d \<Rightarrow> d | None \<Rightarrow> [])) in
      if output_root = [] then (Err NoOutputPath, w)
      else
        and_then (into_provider B (la_provider a), w) (\<lambda>pc w.
          store_input B output_root (pc_chain_id pc) (la_block_number a) inp w))"

section \<open>Where things are\<close>

text \<open>The loop from the executable's directory upwards, ending at the root.\<close>

function find_lock :: "world \<Rightarrow> path \<Rightarrow> path option" where
  "find_lock w dir =
     (if path_exists (join dir ''Cargo.lock'') w then Some dir
      else case parent_dir dir of None \<Rightarrow> None | Some d \<Rightarrow> find_lock w d)"
  by pat_completeness auto

termination
  by (relation "measure (\<lambda>(w, dir). length dir)") (auto dest: parent_dir_shorter)

declare find_lock.simps [simp del]

definition discover_workspace_root :: "bench_env \<Rightarrow> world \<Rightarrow> path" where
  "discover_workspace_root B w =
     (case be_var B ''WORKSPACE_ROOT'' of
        Some p \<Rightarrow> p
      | None \<Rightarrow>
          (case be_cargo_root B of
             Some root \<Rightarrow> root
           | None \<Rightarrow>
               (case Option.bind (be_current_exe B) (\<lambda>exe. find_lock w (case parent_dir exe of Some d \<Rightarrow> d | None \<Rightarrow> ''.'')) of
                  Some dir \<Rightarrow> dir
                | None \<Rightarrow> (case be_current_dir B of Some d \<Rightarrow> d | None \<Rightarrow> ''.''))))"

section \<open>Printed numbers\<close>

lemma parse_digits_append:
  "parse_digits (s @ [c]) n =
     (case parse_digits s n of None \<Rightarrow> None | Some m \<Rightarrow>
        (case digit_of c of None \<Rightarrow> None | Some d \<Rightarrow> if 10 * m + d < 2 ^ 64 then Some (10 * m + d) else None))"
  by (induction s arbitrary: n) (auto split: option.splits)

lemma digit_of_char: "d < 10 \<Longrightarrow> digit_of (char_of (48 + d :: nat)) = Some d"
  by (simp add: digit_of_def)

lemma parse_show: "n < 2 ^ 64 \<Longrightarrow> parse_digits (show_nat n) 0 = Some n"
proof (induction n rule: show_nat.induct)
  case (1 n)
  show ?case
  proof (cases "n < 10")
    case True
    with digit_of_char [OF True] show ?thesis by (subst show_nat.simps) simp
  next
    case False
    have "parse_digits (show_nat (n div 10)) 0 = Some (n div 10)" using 1 False by simp
    moreover have "show_nat n = show_nat (n div 10) @ [char_of (48 + n mod 10)]" using False by (subst show_nat.simps) simp
    ultimately show ?thesis using "1.prems" digit_of_char [of "n mod 10"] by (simp add: parse_digits_append)
  qed
qed

lemma show_nat_starts: "\<exists>d s. d < 10 \<and> show_nat k = char_of (48 + d :: nat) # s"
proof (induction k rule: show_nat.induct)
  case (1 k)
  show ?case
  proof (cases "k < 10")
    case True
    then show ?thesis by (subst show_nat.simps) auto
  next
    case False
    with 1 obtain d s where d: "d < 10" "show_nat (k div 10) = char_of (48 + d :: nat) # s" by blast
    have "show_nat k = show_nat (k div 10) @ [char_of (48 + k mod 10)]" using False by (subst show_nat.simps) simp
    with d show ?thesis by auto
  qed
qed

text \<open>A number is parsed from its printed form.\<close>

lemma parse_u64_show: "parse_u64 (show_nat (unat (n :: u64))) = Some n"
proof -
  obtain d s where d: "d < 10" "show_nat (unat n) = char_of (48 + d :: nat) # s" using show_nat_starts by blast
  have "digit_of CHR ''+'' = None" by (simp add: digit_of_def)
  with digit_of_char [OF d(1)] have "char_of (48 + d :: nat) \<noteq> CHR ''+''" by (metis option.distinct(1))
  with d(2) have "take 1 (show_nat (unat n)) \<noteq> ''+''" "show_nat (unat n) \<noteq> []" by simp_all
  moreover have "unat n < 2 ^ 64" using unsigned_less [of n] by simp
  ultimately show ?thesis using parse_show [of "unat n"] by (simp add: parse_u64_def Let_def)
qed

end
