(* ===== verification/Bench_Driver.thy ===== *)
theory Bench_Driver
  imports Bench_Input
begin

text \<open>
  Model of the benchmark driver, \<^verbatim>\<open>run_ceno_reth_benchmark\<close> of \<^verbatim>\<open>crates/host-bench/src/lib.rs\<close>: what is set
  up for a mode, the execution on the host, and the modes. The calls of the zkVM's libraries are the fields of
  the record \<open>ceno_lib\<close>, with the arguments that the driver passes: a call that returns an error is a sum, a verifier that panics on a bad
  proof a truth value. The objects that the driver only hands from one call to the next are opaque: \<open>'g\<close> for programs, platforms,
  system configurations, compiled programs and keys, \<open>'v\<close> for what a run works on, memory images, virtual machines, emulations,
  witnesses and reports, \<open>'s\<close> for the SDK, \<open>'a\<close> for the aggregation prover, \<open>'p\<close> and \<open>'r\<close> for base and root proofs.
  \<open>cl_aot\<close> says whether the driver was built with the \<^verbatim>\<open>aot\<close> feature on a
  platform that has it. The driver runs on a 64-bit host, so that a \<^verbatim>\<open>usize\<close> from the environment is a \<open>u64\<close>.
  Timing, tracing and printing are left out.
\<close>

section \<open>Modes and arguments\<close>

datatype bench_mode =
    ExecuteHost
  | Execute
  | AotPure
  | AotFull
  | ExecuteMetered
  | Witness
  | AnalyzeShardRam
  | ProveApp
  | ProveStark
  | ProveStarkOnly
  | MakeInput
  | GenerateFixtures

fun mode_name :: "bench_mode \<Rightarrow> string" where
  "mode_name ExecuteHost = ''execute_host''"
| "mode_name Execute = ''execute''"
| "mode_name AotPure = ''aot_pure''"
| "mode_name AotFull = ''aot_full''"
| "mode_name ExecuteMetered = ''execute_metered''"
| "mode_name Witness = ''witness''"
| "mode_name AnalyzeShardRam = ''analyze_shard_ram''"
| "mode_name ProveApp = ''prove_app''"
| "mode_name ProveStark = ''prove_stark''"
| "mode_name ProveStarkOnly = ''prove_stark_only''"
| "mode_name MakeInput = ''make_input''"
| "mode_name GenerateFixtures = ''generate_fixtures''"

record host_args = load_args +
  ha_mode :: bench_mode
  ha_generated_input_path :: "path option"
  ha_output_dir :: "path option"
  ha_agg_pk_path :: "path option"
  ha_shard_id :: "u64 option"
  ha_app_proofs :: "path option"

record system_params =
  sp_l_skip :: u64
  sp_n_stack :: u64
  sp_k_whir :: u64

record aggregation_options =
  ao_leaf :: system_params
  ao_internal :: system_params
  ao_root :: system_params

record multi_prover =
  mp_prover_id :: nat
  mp_max_provers :: nat
  mp_max_cell_per_shard :: u64
  mp_max_cycle_per_shard :: u64

record 'g guest_program =
  gp_program :: 'g
  gp_platform :: 'g

record 'g program_ctx =
  ctx_program :: 'g
  ctx_platform :: 'g
  ctx_multi_prover :: multi_prover
  ctx_system_config :: 'g

record 'v emulation_result =
  er_executed_steps :: u64
  er_preflight_execution :: "u64 option"
  er_trace :: 'v

record replay_result =
  rr_committed_public_io :: "32 word list option"
  rr_exit_code :: "32 word option"

record ('g, 'r) root_output =
  ro_root_vk :: 'g
  ro_root_proof :: 'r

record ('g, 'v, 's, 'a, 'p, 'r) ceno_lib =
  cl_l_skip :: u64
  cl_n_stack :: u64
  cl_k_whir :: u64
  cl_security_level :: 'g
  cl_aot :: bool
  cl_load_elf :: "bytes \<Rightarrow> 32 word \<Rightarrow> 'g option"
  cl_setup_platform :: "'g \<Rightarrow> nat \<Rightarrow> nat \<Rightarrow> 'g"
  cl_new_sdk :: "'g \<Rightarrow> 'g \<Rightarrow> multi_prover \<Rightarrow> 's"
  cl_set_aggregation_options :: "'s \<Rightarrow> aggregation_options \<Rightarrow> 's"
  cl_init_base_prover :: "'s \<Rightarrow> nat \<Rightarrow> 'g \<Rightarrow> 's"
  cl_prepare_preflight_aot :: "'s \<Rightarrow> hint list \<Rightarrow> bool \<Rightarrow> 's"
  cl_init_agg :: "'s \<Rightarrow> string + 'a"
  cl_hint_words :: "hint list \<Rightarrow> 32 word list"
  cl_hint_addresses :: "'g \<Rightarrow> 32 word list"
  cl_load_or_train_pure :: "'g \<Rightarrow> 'g \<Rightarrow> (32 word \<times> 32 word) list \<Rightarrow> string + 'g"
  cl_new_vm :: "'g \<Rightarrow> 'g \<Rightarrow> 'v"
  cl_init_memory :: "'v \<Rightarrow> 32 word \<Rightarrow> 32 word \<Rightarrow> 'v"
  cl_run_pure_to_halt :: "'g \<Rightarrow> 'v \<Rightarrow> u64 \<Rightarrow> string + 'v"
  cl_halted_exit_code :: "'v \<Rightarrow> 32 word option"
  cl_committed_public_io :: "'v \<Rightarrow> 32 word list option"
  cl_setup_program :: "'g \<Rightarrow> 'g \<Rightarrow> multi_prover \<Rightarrow> 'g program_ctx"
  cl_setup_init_mem :: "'g program_ctx \<Rightarrow> 32 word list \<Rightarrow> 'v"
  cl_step_cell_extractor :: "'g \<Rightarrow> 'g"
  cl_prepare_preflight_aot_program :: "'g \<Rightarrow> 'g \<Rightarrow> multi_prover \<Rightarrow> 'g \<Rightarrow> 'v \<Rightarrow> 'g"
  cl_prepare_fulltracer_aot_program :: "'g \<Rightarrow> 'g"
  cl_emulate_program ::
    "'g \<Rightarrow> u64 \<Rightarrow> 'v \<Rightarrow> 32 word list \<Rightarrow> 'g \<Rightarrow> multi_prover \<Rightarrow> 'g \<Rightarrow> 'g option \<Rightarrow> 'g option \<Rightarrow> 'v emulation_result"
  cl_replay_full_trace :: "'v emulation_result \<Rightarrow> 'g \<Rightarrow> 'g \<Rightarrow> 'v \<Rightarrow> replay_result"
  cl_generate_witness :: "'g \<Rightarrow> 'v emulation_result \<Rightarrow> 'g \<Rightarrow> 'g \<Rightarrow> 'v \<Rightarrow> nat option \<Rightarrow> 'v list"
  cl_analyze_shard_ram_light ::
    "'g program_ctx \<Rightarrow> 'v \<Rightarrow> 32 word list \<Rightarrow> u64 \<Rightarrow> nat option \<Rightarrow> nat \<Rightarrow> 'g option \<Rightarrow> 'g option \<Rightarrow> 'v list"
  cl_generate_base_proof :: "'s \<Rightarrow> hint list \<Rightarrow> 32 word list \<Rightarrow> u64 \<Rightarrow> nat option \<Rightarrow> 'p list"
  cl_verify_shard :: "'s \<Rightarrow> 'p \<Rightarrow> nat option \<Rightarrow> u64 \<Rightarrow> bool"
  cl_verify_trace :: "'s \<Rightarrow> 'p list \<Rightarrow> nat option \<Rightarrow> u64 \<Rightarrow> bool"
  cl_prove_root :: "'a \<Rightarrow> 'p list \<Rightarrow> string + ('g, 'r) root_output"
  cl_verify_root :: "'a \<Rightarrow> 'g \<Rightarrow> 'r \<Rightarrow> bool"
  cl_encode_proofs :: "'p list \<Rightarrow> string + bytes"
  cl_decode_proofs :: "bytes \<Rightarrow> string + 'p list"
  cl_encode_root :: "'r \<Rightarrow> string + bytes"

section \<open>Setup\<close>

definition env_usize_or :: "bench_env \<Rightarrow> string \<Rightarrow> u64 \<Rightarrow> u64" where
  "env_usize_or B name dflt =
     (case be_var B name of
        None \<Rightarrow> dflt
      | Some value \<Rightarrow> (case parse_u64 value of None \<Rightarrow> dflt | Some n \<Rightarrow> n))"

definition max_cell_per_shard :: "bench_env \<Rightarrow> u64" where
  "max_cell_per_shard B = env_usize_or B ''CENO_MAX_CELL_PER_SHARD'' (2 ^ 30 * 8 div 4 div 2)"

definition recursion_options :: "bench_env \<Rightarrow> ('g, 'v, 's, 'a, 'p, 'r) ceno_lib \<Rightarrow> aggregation_options" where
  "recursion_options B Z =
     (let default_l_skip = env_usize_or B ''CENO_REC_L_SKIP'' (cl_l_skip Z);
          default_k_whir = env_usize_or B ''CENO_REC_K_WHIR'' (cl_k_whir Z) in
      \<lparr>ao_leaf = \<lparr>sp_l_skip = env_usize_or B ''CENO_REC_LEAF_L_SKIP'' default_l_skip,
                   sp_n_stack = env_usize_or B ''CENO_REC_LEAF_N_STACK'' 18,
                   sp_k_whir = env_usize_or B ''CENO_REC_LEAF_K_WHIR'' default_k_whir\<rparr>,
       ao_internal = \<lparr>sp_l_skip = env_usize_or B ''CENO_REC_INTERNAL_L_SKIP'' default_l_skip,
                       sp_n_stack = env_usize_or B ''CENO_REC_INTERNAL_N_STACK'' 18,
                       sp_k_whir = env_usize_or B ''CENO_REC_INTERNAL_K_WHIR'' default_k_whir\<rparr>,
       ao_root = \<lparr>sp_l_skip = env_usize_or B ''CENO_REC_ROOT_L_SKIP'' default_l_skip,
                   sp_n_stack = env_usize_or B ''CENO_REC_ROOT_N_STACK'' (cl_n_stack Z),
                   sp_k_whir = env_usize_or B ''CENO_REC_ROOT_K_WHIR'' default_k_whir\<rparr>\<rparr>)"

text \<open>\<^verbatim>\<open>max_steps\<close> is \<^verbatim>\<open>usize::MAX\<close>. All shards are proved by one prover.\<close>

definition MAX_CYCLE_PER_SHARD :: u64 where
  "MAX_CYCLE_PER_SHARD = push_bit 29 1"

definition max_steps :: u64 where
  "max_steps = - 1"

definition shard_prover :: "bench_env \<Rightarrow> multi_prover" where
  "shard_prover B =
     \<lparr>mp_prover_id = 0, mp_max_provers = 1, mp_max_cell_per_shard = max_cell_per_shard B, mp_max_cycle_per_shard = MAX_CYCLE_PER_SHARD\<rparr>"

definition new_jagged_sdk :: "bench_env \<Rightarrow> ('g, 'v, 's, 'a, 'p, 'r) ceno_lib \<Rightarrow> 'g guest_program \<Rightarrow> 's" where
  "new_jagged_sdk B Z G =
     (let sdk = cl_new_sdk Z (gp_program G) (gp_platform G) (shard_prover B);
          sdk = cl_set_aggregation_options Z sdk (recursion_options B Z) in
      cl_init_base_prover Z sdk 26 (cl_security_level Z))"

definition needs_ceno_sdk :: "bench_mode \<Rightarrow> bool" where
  "needs_ceno_sdk mode = (mode \<in> {ProveApp, ProveStark, ProveStarkOnly, GenerateFixtures})"

definition needs_ceno_agg :: "bench_mode \<Rightarrow> bool" where
  "needs_ceno_agg mode = (mode \<in> {ProveStark, ProveStarkOnly, GenerateFixtures})"

definition needs_ceno_hints :: "bench_mode \<Rightarrow> bool" where
  "needs_ceno_hints mode = (mode \<in> {Execute, AotPure, AotFull, Witness, AnalyzeShardRam, ProveApp, ProveStark})"

record ('s, 'a) prebuilt =
  pb_sdk :: "'s option"
  pb_agg :: "'a option"
  pb_hints :: "hint list option"

text \<open>\<^verbatim>\<open>take().expect(..)\<close>.\<close>

definition expect :: "'x option \<Rightarrow> (bench_error, 'x) outcome" where
  "expect x = (case x of None \<Rightarrow> Panic UnwrapNone | Some x \<Rightarrow> Ok x)"

definition ELF_PATH :: path where
  "ELF_PATH = ''bin/ceno-client-eth/target/riscv32im-ceno-zkvm-elf/release/ceno-client-eth''"

definition bench_setup :: "bench_env \<Rightarrow> ('g, 'v, 's, 'a, 'p, 'r) ceno_lib \<Rightarrow> world \<Rightarrow> (bench_error, 'g guest_program) outcome" where
  "bench_setup B Z w =
     (case read_file B (join (discover_workspace_root B w) ELF_PATH) w of
        Ok elf \<Rightarrow>
          (case cl_load_elf Z elf (- 1) of
             None \<Rightarrow> Panic UnwrapNone
           | Some program \<Rightarrow>
               Ok \<lparr>gp_program = program,
                   gp_platform = cl_setup_platform Z program (128 * 1024 * 1024) (128 * 1024 * 1024)\<rparr>)
      | _ \<Rightarrow> Panic UnwrapNone)"

text \<open>With the \<^verbatim>\<open>aot\<close> feature the SDK is prepared for the hints, after the aggregation prover was made from it.\<close>

definition prepared_sdk :: "('g, 'v, 's, 'a, 'p, 'r) ceno_lib \<Rightarrow> 's option \<Rightarrow> hint list option \<Rightarrow> 's option" where
  "prepared_sdk Z sdk hints =
     (case (sdk, hints) of
        (Some s, Some hs) \<Rightarrow> Some (if cl_aot Z then cl_prepare_preflight_aot Z s hs True else s)
      | _ \<Rightarrow> sdk)"

definition prebuild ::
  "nat \<Rightarrow> eth_codec \<Rightarrow> host_env \<Rightarrow> bench_env \<Rightarrow> ('g, 'v, 's, 'a, 'p, 'r) ceno_lib \<Rightarrow> 'g guest_program \<Rightarrow> bench_mode \<Rightarrow> client_input \<Rightarrow>
   (bench_error, ('s, 'a) prebuilt) outcome" where
  "prebuild w C H B Z G mode inp =
     (let sdk = (if needs_ceno_sdk mode then Some (new_jagged_sdk B Z G) else None) in
      case (if needs_ceno_agg mode then
              (case sdk of
                 None \<Rightarrow> Panic UnwrapNone
               | Some s \<Rightarrow> (case cl_init_agg Z s of Inl e \<Rightarrow> Err (SetupFailed e) | Inr a \<Rightarrow> Ok (Some a)))
            else Ok None) of
        Ok agg \<Rightarrow>
          (case (if needs_ceno_hints mode then
                   (case write_ceno_client_input w (env_ext H) C (env_hashes H) (env_lib H) inp of
                      Ok hs \<Rightarrow> Ok (Some hs) | Err e \<Rightarrow> Err (HintsFailed e) | Panic p \<Rightarrow> Panic p)
                 else Ok None) of
             Ok hints \<Rightarrow> Ok \<lparr>pb_sdk = prepared_sdk Z sdk hints, pb_agg = agg, pb_hints = hints\<rparr>
           | Err e \<Rightarrow> Err e
           | Panic p \<Rightarrow> Panic p)
      | Err e \<Rightarrow> Err e
      | Panic p \<Rightarrow> Panic p)"

text \<open>The execution on the host, whose block hash the modes compare with.\<close>

definition host_block_hash ::
  "nat \<Rightarrow> eth_codec \<Rightarrow> host_env \<Rightarrow> client_input \<Rightarrow> (bench_error, bytes) outcome" where
  "host_block_hash w C H inp =
     (case execute w (env_ext H) C (env_hashes H) (env_lib H) Mainnet inp of
        Ok header \<Rightarrow> Ok (header_hash (env_hashes H) header)
      | Err e \<Rightarrow> Err (ClientFailed e)
      | Panic p \<Rightarrow> Panic p)"

section \<open>Execution modes\<close>

definition check_digest :: "bytes \<Rightarrow> 32 word list option \<Rightarrow> 32 word option \<Rightarrow> (bench_error, unit) outcome" where
  "check_digest block_hash committed exit_code =
     (case committed of
        None \<Rightarrow> Err NoDigest
      | Some ws \<Rightarrow>
          (if digest_bytes ws \<noteq> block_hash then Err (DigestMismatch (digest_bytes ws) block_hash)
           else if exit_code \<noteq> Some 0 then Err (BadExit exit_code)
           else Ok ()))"

text \<open>
  The memory that the pure run starts from: the words of the hints at the addresses of the platform's hint region, as far
  as the shorter of the two reaches.
\<close>

definition init_memory :: "('g, 'v, 's, 'a, 'p, 'r) ceno_lib \<Rightarrow> 'g guest_program \<Rightarrow> hint list \<Rightarrow> (32 word \<times> 32 word) list" where
  "init_memory Z G hints = zip (cl_hint_addresses Z (gp_platform G)) (cl_hint_words Z hints)"

definition loaded_vm :: "('g, 'v, 's, 'a, 'p, 'r) ceno_lib \<Rightarrow> 'g guest_program \<Rightarrow> hint list \<Rightarrow> 'v" where
  "loaded_vm Z G hints =
     fold (\<lambda>(addr, value) vm. cl_init_memory Z vm addr value) (init_memory Z G hints) (cl_new_vm Z (gp_platform G) (gp_program G))"

definition aot_pure ::
  "('g, 'v, 's, 'a, 'p, 'r) ceno_lib \<Rightarrow> 'g guest_program \<Rightarrow> ('s, 'a) prebuilt \<Rightarrow> bytes \<Rightarrow> (bench_error, unit) outcome" where
  "aot_pure Z G P block_hash =
     (if \<not> cl_aot Z then Err RequiresAot
      else
        (case expect (pb_hints P) of
           Ok hints \<Rightarrow>
             (case cl_load_or_train_pure Z (gp_platform G) (gp_program G) (init_memory Z G hints) of
                Inl e \<Rightarrow> Err (VmFailed e)
              | Inr aot \<Rightarrow>
                  (case cl_run_pure_to_halt Z aot (loaded_vm Z G hints) max_steps of
                     Inl e \<Rightarrow> Err (VmFailed e)
                   | Inr vm \<Rightarrow> check_digest block_hash (cl_committed_public_io Z vm) (cl_halted_exit_code Z vm)))
         | Err e \<Rightarrow> Err e
         | Panic p \<Rightarrow> Panic p))"

text \<open>
  The steps that the other execution modes share: the context of the program, the memory with the hints, the compiled programs when the feature is there,
  and the emulation, which is run with a public digest of zeros.
\<close>

definition guest_context :: "bench_env \<Rightarrow> ('g, 'v, 's, 'a, 'p, 'r) ceno_lib \<Rightarrow> 'g guest_program \<Rightarrow> 'g program_ctx" where
  "guest_context B Z G = cl_setup_program Z (gp_program G) (gp_platform G) (shard_prover B)"

definition guest_memory ::
  "bench_env \<Rightarrow> ('g, 'v, 's, 'a, 'p, 'r) ceno_lib \<Rightarrow> 'g guest_program \<Rightarrow> hint list \<Rightarrow> 'v" where
  "guest_memory B Z G hints = cl_setup_init_mem Z (guest_context B Z G) (cl_hint_words Z hints)"

definition compiled_guest ::
  "('g, 'v, 's, 'a, 'p, 'r) ceno_lib \<Rightarrow> 'g program_ctx \<Rightarrow> 'v \<Rightarrow> 'g option \<times> 'g option" where
  "compiled_guest Z ctx mem =
     (if cl_aot Z then
        let preflight =
              cl_prepare_preflight_aot_program Z (ctx_program ctx) (ctx_platform ctx) (ctx_multi_prover ctx)
                (cl_step_cell_extractor Z (ctx_system_config ctx)) mem in
        (Some preflight, Some (cl_prepare_fulltracer_aot_program Z preflight))
      else (None, None))"

definition emulate_guest :: "('g, 'v, 's, 'a, 'p, 'r) ceno_lib \<Rightarrow> 'g program_ctx \<Rightarrow> 'v \<Rightarrow> 'v emulation_result" where
  "emulate_guest Z ctx mem =
     (case compiled_guest Z ctx mem of
        (preflight, fulltracer) \<Rightarrow>
          cl_emulate_program Z (ctx_program ctx) max_steps mem (replicate 8 0) (ctx_platform ctx) (ctx_multi_prover ctx)
            (cl_step_cell_extractor Z (ctx_system_config ctx)) preflight fulltracer)"

definition aot_full ::
  "bench_env \<Rightarrow> ('g, 'v, 's, 'a, 'p, 'r) ceno_lib \<Rightarrow> 'g guest_program \<Rightarrow> ('s, 'a) prebuilt \<Rightarrow> bytes \<Rightarrow>
   (bench_error, unit) outcome" where
  "aot_full B Z G P block_hash =
     (if \<not> cl_aot Z then Err RequiresAot
      else
        (case expect (pb_hints P) of
           Ok hints \<Rightarrow>
             (let ctx = guest_context B Z G;
                  mem = guest_memory B Z G hints;
                  emul = emulate_guest Z ctx mem in
              case er_preflight_execution emul of
                None \<Rightarrow> Err (VmFailed ''aot-full preflight did not report AOT execution timing'')
              | Some _ \<Rightarrow>
                  (let replay = cl_replay_full_trace Z emul (ctx_program ctx) (ctx_platform ctx) mem in
                   check_digest block_hash (rr_committed_public_io replay) (rr_exit_code replay)))
         | Err e \<Rightarrow> Err e
         | Panic p \<Rightarrow> Panic p))"

text \<open>Emulation reports the number of executed steps, which is printed and not compared with anything.\<close>

definition run_execute ::
  "bench_env \<Rightarrow> ('g, 'v, 's, 'a, 'p, 'r) ceno_lib \<Rightarrow> 'g guest_program \<Rightarrow> ('s, 'a) prebuilt \<Rightarrow> (bench_error, u64) outcome" where
  "run_execute B Z G P =
     (case expect (pb_hints P) of
        Ok hints \<Rightarrow> Ok (er_executed_steps (emulate_guest Z (guest_context B Z G) (guest_memory B Z G hints)))
      | Err e \<Rightarrow> Err e
      | Panic p \<Rightarrow> Panic p)"

text \<open>The first witness of the shard is generated; the iterator of the witnesses is the list of what it yields.\<close>

definition run_witness ::
  "bench_env \<Rightarrow> ('g, 'v, 's, 'a, 'p, 'r) ceno_lib \<Rightarrow> 'g guest_program \<Rightarrow> ('s, 'a) prebuilt \<Rightarrow> u64 option \<Rightarrow>
   (bench_error, unit) outcome" where
  "run_witness B Z G P shard_id =
     (case expect (pb_hints P) of
        Ok hints \<Rightarrow>
          (let ctx = guest_context B Z G;
               mem = guest_memory B Z G hints;
               emul = emulate_guest Z ctx mem;
               target = (case shard_id of None \<Rightarrow> 0 | Some v \<Rightarrow> unat v) in
           case cl_generate_witness Z (ctx_system_config ctx) emul (ctx_program ctx) (ctx_platform ctx) mem (Some target) of
             [] \<Rightarrow> Panic UnwrapNone
           | _ # _ \<Rightarrow> Ok ())
      | Err e \<Rightarrow> Err e
      | Panic p \<Rightarrow> Panic p)"

definition analyze_shard_ram ::
  "bench_env \<Rightarrow> ('g, 'v, 's, 'a, 'p, 'r) ceno_lib \<Rightarrow> 'g guest_program \<Rightarrow> ('s, 'a) prebuilt \<Rightarrow> u64 option \<Rightarrow>
   (bench_error, 'v list) outcome" where
  "analyze_shard_ram B Z G P shard_id =
     (case expect (pb_hints P) of
        Ok hints \<Rightarrow>
          (let ctx = guest_context B Z G;
               mem = guest_memory B Z G hints in
           case compiled_guest Z ctx mem of
             (preflight, fulltracer) \<Rightarrow>
               Ok (cl_analyze_shard_ram_light Z ctx mem (replicate 8 0) max_steps (map_option unat shard_id) 40 preflight fulltracer))
      | Err e \<Rightarrow> Err e
      | Panic p \<Rightarrow> Panic p)"

section \<open>Proving modes\<close>

definition write_app_proofs ::
  "bench_env \<Rightarrow> ('g, 'v, 's, 'a, 'p, 'r) ceno_lib \<Rightarrow> path option \<Rightarrow> 'p list \<Rightarrow> world \<Rightarrow> (bench_error, unit) outcome \<times> world" where
  "write_app_proofs B Z output_dir proofs w =
     (case output_dir of
        None \<Rightarrow> (Ok (), w)
      | Some dir \<Rightarrow>
          and_then (create_dir_all B dir w) (\<lambda>_ w.
          and_then (lift_lib EncodeFailed (cl_encode_proofs Z proofs), w) (\<lambda>bs w.
            write_file B (join dir ''app_proof.bitcode'') bs w)))"

definition handle_ceno_root_proof ::
  "bench_env \<Rightarrow> ('g, 'v, 's, 'a, 'p, 'r) ceno_lib \<Rightarrow> path option \<Rightarrow> u64 \<Rightarrow> 'r \<Rightarrow> world \<Rightarrow> (bench_error, unit) outcome \<times> world" where
  "handle_ceno_root_proof B Z output_dir block_number root_proof w =
     and_then (lift_lib EncodeFailed (cl_encode_root Z root_proof), w) (\<lambda>bs w.
       case output_dir of
         None \<Rightarrow> (Ok (), w)
       | Some dir \<Rightarrow>
           and_then (create_dir_all B dir w) (\<lambda>_ w.
             write_file B (join dir (show_nat (unat block_number) @ ''_root_proof.bin'')) bs w))"

definition read_object_from_file ::
  "bench_env \<Rightarrow> (bytes \<Rightarrow> string + 'x) \<Rightarrow> path \<Rightarrow> world \<Rightarrow> (bench_error, 'x) outcome" where
  "read_object_from_file B decode p w =
     (case read_file B p w of Ok bs \<Rightarrow> lift_lib DecodeFailed (decode bs) | Err e \<Rightarrow> Err e | Panic q \<Rightarrow> Panic q)"

definition prove_app ::
  "bench_env \<Rightarrow> ('g, 'v, 's, 'a, 'p, 'r) ceno_lib \<Rightarrow> ('s, 'a) prebuilt \<Rightarrow> host_args \<Rightarrow> bytes \<Rightarrow> world \<Rightarrow>
   (bench_error, unit) outcome \<times> world" where
  "prove_app B Z P args block_hash w =
     and_then (expect (pb_sdk P), w) (\<lambda>sdk w.
     and_then (expect (pb_hints P), w) (\<lambda>hints w.
       let proofs = cl_generate_base_proof Z sdk hints (digest_words block_hash) max_steps (map_option unat (ha_shard_id args)) in
       and_then (write_app_proofs B Z (ha_output_dir args) proofs w) (\<lambda>_ w.
         case ha_shard_id args of
           Some _ \<Rightarrow>
             (case proofs of
                [] \<Rightarrow> (Panic UnwrapNone, w)
              | p # _ \<Rightarrow> (if cl_verify_shard Z sdk p (Some 0) max_steps then Ok () else Panic AssertionFailed, w))
         | None \<Rightarrow> (if cl_verify_trace Z sdk proofs (Some 0) max_steps then Ok () else Panic AssertionFailed, w))))"

text \<open>From the base proofs to the root proof, which is verified before it is written.\<close>

definition prove_root ::
  "bench_env \<Rightarrow> ('g, 'v, 's, 'a, 'p, 'r) ceno_lib \<Rightarrow> 'a \<Rightarrow> host_args \<Rightarrow> 'p list \<Rightarrow> world \<Rightarrow> (bench_error, unit) outcome \<times> world" where
  "prove_root B Z agg args proofs w =
     and_then (lift_lib ProveFailed (cl_prove_root Z agg proofs), w) (\<lambda>root w.
       if \<not> cl_verify_root Z agg (ro_root_vk root) (ro_root_proof root) then (Panic UnwrapNone, w)
       else handle_ceno_root_proof B Z (ha_output_dir args) (la_block_number args) (ro_root_proof root) w)"

definition prove_stark ::
  "bench_env \<Rightarrow> ('g, 'v, 's, 'a, 'p, 'r) ceno_lib \<Rightarrow> ('s, 'a) prebuilt \<Rightarrow> host_args \<Rightarrow> bytes \<Rightarrow> world \<Rightarrow>
   (bench_error, unit) outcome \<times> world" where
  "prove_stark B Z P args block_hash w =
     and_then (expect (pb_sdk P), w) (\<lambda>sdk w.
     and_then (expect (pb_agg P), w) (\<lambda>agg w.
     and_then (expect (pb_hints P), w) (\<lambda>hints w.
       let proofs = cl_generate_base_proof Z sdk hints (digest_words block_hash) max_steps (map_option unat (ha_shard_id args)) in
       and_then (write_app_proofs B Z (ha_output_dir args) proofs w) (\<lambda>_ w. prove_root B Z agg args proofs w))))"

definition env_flag_enabled :: "bench_env \<Rightarrow> string \<Rightarrow> bool" where
  "env_flag_enabled B name = (be_var B name \<in> {Some ''1'', Some ''true'', Some ''TRUE'', Some ''yes'', Some ''YES''})"

definition prove_stark_only ::
  "bench_env \<Rightarrow> ('g, 'v, 's, 'a, 'p, 'r) ceno_lib \<Rightarrow> ('s, 'a) prebuilt \<Rightarrow> host_args \<Rightarrow> world \<Rightarrow>
   (bench_error, unit) outcome \<times> world" where
  "prove_stark_only B Z P args w =
     and_then (expect (pb_agg P), w) (\<lambda>agg w.
       case ha_app_proofs args of
         None \<Rightarrow> (Panic AssertionFailed, w)
       | Some p \<Rightarrow>
           and_then (read_object_from_file B (cl_decode_proofs Z) p w, w) (\<lambda>proofs w.
           and_then
             (if env_flag_enabled B ''CENO_VERIFY_APP_PROOF_BEFORE_RECURSION'' then
                (case expect (pb_sdk P) of
                   Ok sdk \<Rightarrow> if cl_verify_trace Z sdk proofs (Some 0) max_steps then Ok () else Panic AssertionFailed
                 | Err e \<Rightarrow> Err e
                 | Panic q \<Rightarrow> Panic q)
              else Ok (), w)
             (\<lambda>_ w. prove_root B Z agg args proofs w)))"

definition generate_fixtures :: "('s, 'a) prebuilt \<Rightarrow> (bench_error, unit) outcome" where
  "generate_fixtures P =
     (case expect (pb_sdk P) of
        Ok _ \<Rightarrow> (case expect (pb_agg P) of Ok _ \<Rightarrow> Ok () | Err e \<Rightarrow> Err e | Panic p \<Rightarrow> Panic p)
      | Err e \<Rightarrow> Err e
      | Panic p \<Rightarrow> Panic p)"

section \<open>The driver\<close>

definition discard :: "(bench_error, 'x) outcome \<Rightarrow> (bench_error, unit) outcome" where
  "discard r = (case r of Ok _ \<Rightarrow> Ok () | Err e \<Rightarrow> Err e | Panic p \<Rightarrow> Panic p)"

definition run_mode ::
  "bench_env \<Rightarrow> ('g, 'v, 's, 'a, 'p, 'r) ceno_lib \<Rightarrow> 'g guest_program \<Rightarrow> ('s, 'a) prebuilt \<Rightarrow> host_args \<Rightarrow> bytes \<Rightarrow> world \<Rightarrow>
   (bench_error, unit) outcome \<times> world" where
  "run_mode B Z G P args block_hash w =
     (case ha_mode args of
        AotPure \<Rightarrow> (aot_pure Z G P block_hash, w)
      | AotFull \<Rightarrow> (aot_full B Z G P block_hash, w)
      | Execute \<Rightarrow> (discard (run_execute B Z G P), w)
      | Witness \<Rightarrow> (run_witness B Z G P (ha_shard_id args), w)
      | AnalyzeShardRam \<Rightarrow> (discard (analyze_shard_ram B Z G P (ha_shard_id args)), w)
      | ExecuteMetered \<Rightarrow> (Panic Unimplemented, w)
      | ProveApp \<Rightarrow> prove_app B Z P args block_hash w
      | ProveStark \<Rightarrow> prove_stark B Z P args block_hash w
      | ProveStarkOnly \<Rightarrow> prove_stark_only B Z P args w
      | GenerateFixtures \<Rightarrow> (generate_fixtures P, w)
      | _ \<Rightarrow> (Panic UnreachableCode, w))"

text \<open>The metrics are written after the run, whether it failed or not, unless it panicked.\<close>

definition run_with_metric_collection ::
  "bench_env \<Rightarrow> string \<Rightarrow> (world \<Rightarrow> (bench_error, unit) outcome \<times> world) \<Rightarrow> world \<Rightarrow> (bench_error, unit) outcome \<times> world" where
  "run_with_metric_collection B output_env f w =
     (case f w of
        (Panic p, w) \<Rightarrow> (Panic p, w)
      | (r, w) \<Rightarrow>
          (case be_var B output_env of
             None \<Rightarrow> (r, w)
           | Some output_path \<Rightarrow>
               and_then (case parent_dir output_path of
                           None \<Rightarrow> (Ok (), w)
                         | Some dir \<Rightarrow> (if dir = [] then (Ok (), w) else create_dir_all B dir w)) (\<lambda>_ w.
               and_then (lift_lib EncodeFailed (be_metrics B), w) (\<lambda>bs w.
               and_then (write_file B output_path bs w) (\<lambda>_ w. (r, w))))))"

definition run_ceno_reth_benchmark ::
  "nat \<Rightarrow> eth_codec \<Rightarrow> host_env \<Rightarrow> bench_env \<Rightarrow> ('g, 'v, 's, 'a, 'p, 'r) ceno_lib \<Rightarrow> host_args \<Rightarrow> world \<Rightarrow>
   (bench_error, unit) outcome \<times> world" where
  "run_ceno_reth_benchmark uw C H B Z args w =
     and_then (load_client_input B (load_args.truncate args) w) (\<lambda>inp w.
     and_then (bench_setup B Z w, w) (\<lambda>G w.
       if ha_mode args = MakeInput
       then make_input B (load_args.truncate args) (ha_generated_input_path args) inp w
       else if ha_agg_pk_path args \<noteq> None then (Err AggPkUnsupported, w)
       else
         and_then (prebuild uw C H B Z G (ha_mode args) inp, w) (\<lambda>P w.
           run_with_metric_collection B ''OUTPUT_PATH'' (\<lambda>w.
             and_then (host_block_hash uw C H inp, w) (\<lambda>block_hash w.
               if ha_mode args = ExecuteHost then (Ok (), w) else run_mode B Z G P args block_hash w)) w)))"

end
