(* ===== verification/Bench_Example.thy ===== *)
theory Bench_Example
  imports Bench_Driver Guest_Properties
begin

text \<open>
  An example for the driver: the empty block on the empty state, in a file system that holds nothing but
  the guest program, with a zkVM that runs the guest's model when the hints are in its memory, and a proof system
  whose proofs are runs that the verifier repeats.
\<close>

definition bench_input :: client_input where
  "bench_input =
     \<lparr>ci_current_block = guest_block, ci_ancestor_headers = [chain_header 1 []],
      ci_parent_state_bytes = \<lparr>state_trie_bytes = (1, [0x80, 0, 0, 0]), storage_tries_bytes = []\<rparr>, ci_bytecodes = []\<rparr>"

definition bench_host :: host_env where
  "bench_host = chain_env\<lparr>env_hashes := guest_ext, env_lib := guest_lib\<rparr>"

definition bench_hash :: bytes where
  "bench_hash = replicate 31 0 @ [2]"

definition bench_world :: world where
  "bench_world = \<lparr>files = [join ''/ceno'' ELF_PATH \<mapsto> [1], ''in.bin'' \<mapsto> [2], ''proofs'' \<mapsto> [3]], dirs = (\<lambda>_. False)\<rparr>"

definition bench_env_for :: "client_input \<Rightarrow> bench_env" where
  "bench_env_for inp =
     \<lparr>be_own_var = (\<lambda>_. None), be_var = (\<lambda>_. None), be_parse_url = Some, be_chain_id = (\<lambda>_. Inr 1), be_io_fails = (\<lambda>_. False),
      be_encode_input = (\<lambda>i. if i = inp then Inr [2] else Inl ''other input''),
      be_decode_input = (\<lambda>bs. if bs = [2] then Inr inp else Inl ''other bytes''),
      be_json_input = (\<lambda>_. Inl ''no JSON''), be_hex_decode = (\<lambda>_. Inl ''no hex''),
      be_host = (\<lambda>_. chain_env), be_host_evm = (\<lambda>_. chain_evm), be_metrics = Inr [6],
      be_cargo_root = Some ''/ceno'', be_current_exe = None, be_current_dir = None\<rparr>"

definition bench_guest_result :: "hint list \<Rightarrow> 32 word list option \<times> 32 word option" where
  "bench_guest_result hs =
     (case guest_main std_ext two_codec guest_ext guest_lib hs of Ok ws \<Rightarrow> (Some ws, Some 0) | _ \<Rightarrow> (None, Some 1))"

text \<open>
  A machine has a memory, a committed digest and an exit code. It executes the guest's model on the hints of the
  example when it finds their words in the hint region, and exits with an error otherwise.
\<close>

type_synonym bench_machine = "(32 word \<Rightarrow> 32 word) \<times> 32 word list option \<times> 32 word option"

definition bench_words :: "hint list \<Rightarrow> 32 word list" where
  "bench_words hs = (if hs = guest_input then [7, 1] else [7, 0])"

definition bench_store :: "bench_machine \<Rightarrow> 32 word \<Rightarrow> 32 word \<Rightarrow> bench_machine" where
  "bench_store vm a v = ((fst vm)(a := v), snd vm)"

definition bench_run :: "bench_machine \<Rightarrow> bench_machine" where
  "bench_run vm = (fst vm, if fst vm 16 = 7 \<and> fst vm 20 = 1 then bench_guest_result guest_input else (None, Some 1))"

definition bench_start :: bench_machine where
  "bench_start = (\<lambda>_. 0, None, None)"

definition bench_verified :: "hint list \<times> 32 word list \<Rightarrow> bool" where
  "bench_verified p = (bench_guest_result (fst p) = (Some (snd p), Some 0))"

definition bench_lib ::
  "(nat, bench_machine, unit, unit, hint list \<times> 32 word list, (hint list \<times> 32 word list) list) ceno_lib" where
  "bench_lib =
     \<lparr>cl_l_skip = 1, cl_n_stack = 2, cl_k_whir = 3, cl_security_level = 0, cl_aot = True,
      cl_load_elf = (\<lambda>_ _. Some 0), cl_setup_platform = (\<lambda>_ _ _. 0), cl_new_sdk = (\<lambda>_ _ _. ()),
      cl_set_aggregation_options = (\<lambda>s _. s), cl_init_base_prover = (\<lambda>s _ _. s), cl_prepare_preflight_aot = (\<lambda>s _ _. s),
      cl_init_agg = (\<lambda>_. Inr ()), cl_hint_words = bench_words, cl_hint_addresses = (\<lambda>_. [16, 20, 24]),
      cl_load_or_train_pure = (\<lambda>_ _ _. Inr 0), cl_new_vm = (\<lambda>_ _. bench_start), cl_init_memory = bench_store,
      cl_run_pure_to_halt = (\<lambda>_ vm _. Inr (bench_run vm)), cl_halted_exit_code = (\<lambda>vm. snd (snd vm)),
      cl_committed_public_io = (\<lambda>vm. fst (snd vm)),
      cl_setup_program = (\<lambda>g f mp. \<lparr>ctx_program = g, ctx_platform = f, ctx_multi_prover = mp, ctx_system_config = 0\<rparr>),
      cl_setup_init_mem = (\<lambda>_ ws. fold (\<lambda>(a, v) vm. bench_store vm a v) (zip [16, 20, 24] ws) bench_start),
      cl_step_cell_extractor = id, cl_prepare_preflight_aot_program = (\<lambda>_ _ _ _ _. 0), cl_prepare_fulltracer_aot_program = id,
      cl_emulate_program = (\<lambda>_ _ vm _ _ _ _ preflight _.
        \<lparr>er_executed_steps = 1, er_preflight_execution = map_option (\<lambda>_. 0) preflight, er_trace = bench_run vm\<rparr>),
      cl_replay_full_trace = (\<lambda>e _ _ _.
        \<lparr>rr_committed_public_io = fst (snd (er_trace e)), rr_exit_code = snd (snd (er_trace e))\<rparr>),
      cl_generate_witness = (\<lambda>_ e _ _ _ _. [er_trace e]), cl_analyze_shard_ram_light = (\<lambda>_ _ _ _ _ _ _ _. []),
      cl_generate_base_proof = (\<lambda>_ hs ws _ _. [(hs, ws)]), cl_verify_shard = (\<lambda>_ p _ _. bench_verified p),
      cl_verify_trace = (\<lambda>_ ps _ _. list_all bench_verified ps),
      cl_prove_root = (\<lambda>_ ps. Inr \<lparr>ro_root_vk = 0, ro_root_proof = ps\<rparr>), cl_verify_root = (\<lambda>_ _ ps. list_all bench_verified ps),
      cl_encode_proofs = (\<lambda>_. Inr [4]), cl_decode_proofs = (\<lambda>_. Inr [(guest_input, digest_words bench_hash)]),
      cl_encode_root = (\<lambda>_. Inr [5])\<rparr>"

definition bench_program :: "nat guest_program" where
  "bench_program = \<lparr>gp_program = 0, gp_platform = 0\<rparr>"

definition bench_args :: "bench_mode \<Rightarrow> host_args" where
  "bench_args mode =
     \<lparr>la_block_number = 2, la_provider = \<lparr>pa_rpc_url = None, pa_chain_id = Some 1\<rparr>, la_cache_dir = None,
      la_input_path = Some ''in.bin'', ha_mode = mode, ha_generated_input_path = None, ha_output_dir = Some ''out'',
      ha_agg_pk_path = None, ha_shard_id = None, ha_app_proofs = Some ''proofs''\<rparr>"

section \<open>The run\<close>

lemma bench_decode: "decode_trie std_ext [0x80, 0, 0, 0] n = Ok (new, [0x80, 0, 0, 0])"
  by (simp add: decode_trie_def std_ext_def)

lemma bench_state:
  "\<exists>m. build_input_state std_ext two_codec bench_input = Ok \<lparr>state_trie = m, storage_tries = (\<lambda>_. None)\<rparr> \<and> repr_tree std_ext m PNull
     \<and> length (nodes m) = 1"
  using std.hash_repr [OF repr_new]
  by (auto simp: build_input_state_def bench_input_def bench_decode root_hash_def chain_header_def new_def with_capacity_def)

lemma guest_fields [simp]:
  "try_into_recovered guest_lib b = None" "validate_header guest_lib v h = None" "validate_block_pre_execution guest_lib v b = None"
  "validate_block_post_execution guest_lib v b out = None" "block_evm w guest_lib v b hs = EvmDone chain_out" "out_bundle chain_out = []"
  by (simp_all add: guest_lib_def chain_lib_def block_evm_def chain_out_def)

lemma bench_chain:
  "build_block_hashes guest_ext (blk_header guest_block # [chain_header 1 []]) t = Ok (t(1 \<mapsto> replicate 31 0 @ [1]))"
  by (simp add: guest_block_def chain_block_def chain_header_def guest_ext_def)

lemma bench_executed:
  assumes "repr_tree std_ext m PNull" "case rec of None \<Rightarrow> True | Some r \<Rightarrow> r = no_recording"
  shows "execute_with_state w std_ext two_codec guest_ext guest_lib Mainnet bench_input \<lparr>state_trie = m, storage_tries = (\<lambda>_. None)\<rparr> rec =
    Ok (result_header guest_ext guest_lib guest_block (chain_header 1 []) chain_out, map_option (push_access AccStateTrie) rec)"
proof -
  obtain m' where "hash std_ext m = (Ok (EMPTY_ROOT_HASH std_ext), m')" using std.hash_repr [OF assms(1)] by (auto simp: root_hash_def)
  moreover have "hdr_state_root (blk_header guest_block) = EMPTY_ROOT_HASH std_ext"
    by (simp add: guest_block_def chain_block_def chain_header_def)
  ultimately have fin: "finish_eager std_ext two_codec guest_ext guest_lib guest_block [chain_header 1 []] chain_out
      \<lparr>state_trie = m, storage_tries = (\<lambda>_. None)\<rparr> = Ok (result_header guest_ext guest_lib guest_block (chain_header 1 []) chain_out)"
    by (simp add: finish_eager_def update_from_bundle_state_def)
  show ?thesis
    using bench_chain [of "\<lambda>_. None"] fin assms(2)
    by (cases rec) (simp_all add: execute_with_state_def witness_db_recording_def input_witness_db_def from_parts_recording_def
        from_parts_def input_headers_def bench_input_def check_block_def fail_with_def record_outcome_def no_recording_def)
qed

lemma bench_host_fields [simp]: "env_ext bench_host = std_ext" "env_hashes bench_host = guest_ext" "env_lib bench_host = guest_lib"
  by (simp_all add: bench_host_def chain_env_def)

lemma bench_result_hash:
  "header_hash guest_ext (result_header guest_ext L guest_block parent out) = bench_hash"
  by (simp add: guest_ext_def result_header_def guest_block_def chain_block_def chain_header_def bench_hash_def)

lemma bench_block_hash: "host_block_hash w two_codec bench_host bench_input = Ok bench_hash"
proof -
  obtain m where m: "build_input_state std_ext two_codec bench_input = Ok \<lparr>state_trie = m, storage_tries = (\<lambda>_. None)\<rparr>" "repr_tree std_ext m PNull"
    using bench_state by blast
  have "execute w std_ext two_codec guest_ext guest_lib Mainnet bench_input =
      Ok (result_header guest_ext guest_lib guest_block (chain_header 1 []) chain_out)"
    unfolding execute_def m(1) outcome.case using bench_executed [OF m(2), of None w] by simp
  then show ?thesis by (simp add: host_block_hash_def bench_result_hash)
qed

lemma empty_trie_stream: "tree_stream std_ext PNull = [0x80, 0, 0, 0]"
proof -
  have "tree_rlp std_ext PNull = [0x80]" by (simp add: std_ext_def)
  moreover have "pad4 [0x80] = [0x80, 0, 0, 0]" by code_simp
  ultimately show ?thesis by (subst tree_stream.simps) simp
qed

lemma bench_hints: "write_ceno_client_input w std_ext two_codec guest_ext guest_lib bench_input = Ok guest_input"
proof -
  obtain m where m: "build_input_state std_ext two_codec bench_input = Ok \<lparr>state_trie = m, storage_tries = (\<lambda>_. None)\<rparr>"
    "repr_tree std_ext m PNull" "length (nodes m) = 1" using bench_state by blast
  have order: "execute_recording_witness_order w std_ext two_codec guest_ext guest_lib Mainnet bench_input =
      Ok (result_header guest_ext guest_lib guest_block (chain_header 1 []) chain_out, [AccStateTrie])"
    using m(1) bench_executed [OF m(2), of "Some no_recording" w]
    by (simp add: execute_recording_witness_order_def push_access_def no_recording_def)
  obtain m1 where m1: "encode_trie std_ext m = (Ok [0x80, 0, 0, 0], m1)" "repr_tree std_ext m1 PNull" "length (nodes m1) = 1"
    using std.encode_trie_repr [OF m(2)] m(3) empty_trie_stream by auto
  obtain m2 where m2: "hash std_ext m1 = (Ok (EMPTY_ROOT_HASH std_ext), m2)" using std.hash_repr [OF m1(2)] by (auto simp: root_hash_def)
  have "fst (hash std_ext new) = Ok (EMPTY_ROOT_HASH std_ext)" using std.hash_repr [OF repr_new] by (auto simp: root_hash_def)
  with m1 m2 have "checked_frontier std_ext [AccStateTrie] m =
      Ok (\<lparr>frontier_num_nodes = 1, frontier_bytes = [0x80, 0, 0, 0], frontier_chunks = []\<rparr>, m2)"
    by (simp add: checked_frontier_def build_frontier_weighted_def modified_accounts_def frontier_keys_def map_filter_def
        num_nodes_def bench_decode)
  with m(1) order show ?thesis
    by (simp add: write_ceno_client_input_def split_order_def is_state_marker_def write_all_hints_def execution_hint_def
        guest_input_def bench_input_def)
qed

lemma bench_guest: "guest_main std_ext two_codec guest_ext guest_lib guest_input = Ok (digest_words bench_hash)"
proof -
  obtain ws where ws: "guest_main std_ext two_codec guest_ext guest_lib guest_input = Ok ws" using guest_runs by blast
  then obtain header where "execute_from_reader 32 std_ext two_codec guest_ext guest_lib Mainnet guest_input = Ok header"
    "ws = digest_words (header_hash guest_ext header)" by (auto simp: guest_main_def split: outcome.splits)
  moreover from this(1) have "hdr_number header = 2"
    by (auto simp: guest_input_def guest_block_def chain_block_def chain_header_def result_header_def
        elim!: execute_from_reader_Ok execute_streaming_Ok finish_streaming_Ok)
  ultimately show ?thesis using ws by (simp add: guest_ext_def bench_hash_def)
qed

lemma bench_digest: "digest_bytes (digest_words bench_hash) = bench_hash"
  using digest_bytes_words [of bench_hash] by (simp add: bench_hash_def)

lemma bench_loaded:
  "load_client_input (bench_env_for inp) (load_args.truncate (bench_args mode)) bench_world = (Ok inp, bench_world)"
  "bench_setup (bench_env_for inp) bench_lib bench_world = Ok bench_program"
proof -
  have "extension ''in.bin'' = Some ''bin''" by (simp add: extension_def file_name_def)
  then show "load_client_input (bench_env_for inp) (load_args.truncate (bench_args mode)) bench_world = (Ok inp, bench_world)"
    by (simp add: load_client_input_def bench_args_def load_args.truncate_def try_load_input_from_path_def eq_ignore_ascii_case_def
        ascii_lower_def read_file_def bench_env_for_def bench_world_def lift_lib_def)
  show "bench_setup (bench_env_for inp) bench_lib bench_world = Ok bench_program"
    by (simp add: bench_setup_def discover_workspace_root_def read_file_def bench_env_for_def bench_world_def bench_lib_def join_def ELF_PATH_def bench_program_def)
qed

text \<open>The directories that the driver creates in the example.\<close>

lemma bench_dirs:
  "\<exists>w. create_dir_all (bench_env_for inp) ''out'' bench_world = (Ok (), w) \<and> dirs w ''out''"
  "\<exists>w. create_dir_all (bench_env_for inp) (cache_folder ''cache'' 1) bench_world = (Ok (), w)"
proof -
  have p: "parent_dir ''out'' = Some []" "parent_dir ''cache/input/1'' = Some ''cache/input''" "parent_dir ''cache/input'' = Some ''cache''"
    "parent_dir ''cache'' = Some []" "cache_folder ''cache'' 1 = ''cache/input/1''" by code_simp+
  note d = create_dir_all.simps [of _ "[]"] create_dir_def bench_env_for_def bench_world_def join_def ELF_PATH_def
  show "\<exists>w. create_dir_all (bench_env_for inp) ''out'' bench_world = (Ok (), w) \<and> dirs w ''out''"
    by (simp add: create_dir_all.simps [of _ "''out''"] p d)
  show "\<exists>w. create_dir_all (bench_env_for inp) (cache_folder ''cache'' 1) bench_world = (Ok (), w)"
    unfolding p
    by (simp add: create_dir_all.simps [of _ "''cache/input/1''"] create_dir_all.simps [of _ "''cache/input''"]
        create_dir_all.simps [of _ "''cache''"] p d)
qed

lemma create_dir_all_again: "dirs w p \<Longrightarrow> create_dir_all B p w = (Ok (), w)"
  by (simp add: create_dir_all.simps)

end
