(* ===== verification/Bench_Properties.thy ===== *)
theory Bench_Properties
  imports Bench_Example
begin

text \<open>The correctness statements of the benchmark driver.\<close>

section \<open>The cache\<close>

lemma show_nat_digits: "show_nat n \<noteq> [] \<and> (\<forall>c \<in> set (show_nat n). c \<noteq> CHR ''/'')"
proof (induction n rule: show_nat.induct)
  case (1 n)
  have digit: "char_of (48 + d :: nat) \<noteq> CHR ''/''" if "d < 10" for d
  proof
    assume "char_of (48 + d :: nat) = CHR ''/''"
    then have "of_char (char_of (48 + d :: nat) :: char) = (of_char CHR ''/'' :: nat)" by simp
    with that show False by simp
  qed
  show ?case
  proof (cases "n < 10")
    case True
    with digit [of n] show ?thesis by (subst (1 2) show_nat.simps) simp
  next
    case False
    with 1 digit [of "n mod 10"] show ?thesis by (subst (1 2) show_nat.simps) auto
  qed
qed

lemma show_nat_hd: "take 1 (show_nat n @ s) \<noteq> ''/''"
  using show_nat_digits [of n] by (cases "show_nat n") auto

lemma show_nat_last: "last (s @ show_nat n) \<noteq> CHR ''/''"
  using show_nat_digits [of n] last_in_set [of "show_nat n"] by auto

lemma join_join:
  assumes "x \<noteq> []" "last x \<noteq> CHR ''/''" "take 1 x \<noteq> ''/''" "take 1 y \<noteq> ''/''"
  shows "join (join d x) y = join d (x @ ''/'' @ y)"
proof -
  have "take 1 (x @ ''/'' @ y) \<noteq> ''/''" using assms(1,3) by (cases x) auto
  with assms show ?thesis by (auto simp: join_def)
qed

lemma cache_path_eq:
  "join dir (''input/'' @ show_nat (unat c) @ ''/'' @ show_nat (unat n) @ ''.bin'') = cache_file dir c n"
  unfolding cache_file_def cache_folder_def
  using show_nat_last [of "''input/''" "unat c"] show_nat_hd [of "unat n" "''.bin''"] by (subst join_join) auto

lemma store_input_Ok:
  assumes "store_input B dir c n inp w = (Ok (), w')"
  obtains bs where "be_encode_input B inp = Inr bs" "files w' (cache_file dir c n) = Some bs" "\<not> be_io_fails B (cache_file dir c n)"
  using assms
  by (auto simp: store_input_def write_file_def lift_lib_def and_then_Ok_iff split: if_splits sum.splits)

lemma stored_input_loads:
  assumes rt: "\<And>bs. be_encode_input B inp = Inr bs \<Longrightarrow> be_decode_input B bs = Inr inp"
    and "store_input B dir c n inp w = (Ok (), w')"
  shows "try_load_input_from_cache B (Some dir) c n w' = Ok (Some inp)"
proof -
  obtain bs where bs: "be_encode_input B inp = Inr bs" "files w' (cache_file dir c n) = Some bs" "\<not> be_io_fails B (cache_file dir c n)"
    by (rule store_input_Ok [OF assms(2)])
  then show ?thesis
    using rt [OF bs(1)] unfolding try_load_input_from_cache_def option.case Let_def cache_path_eq
    by (simp add: path_exists_def read_file_def)
qed

text \<open>
  When the serialisation fails, the file it was meant for is left behind empty, and every later run for the
  block fails on it instead of asking the node.
\<close>

lemma failed_store_blocks_cache:
  assumes "be_encode_input B inp = Inl e" "be_decode_input B [] = Inl e'"
    and "create_dir_all B (cache_folder dir c) w = (Ok (), w1)" "\<not> be_io_fails B (cache_file dir c n)"
  shows "\<exists>w'. store_input B dir c n inp w = (Err (EncodeFailed e), w')
    \<and> try_load_input_from_cache B (Some dir) c n w' = Err (DecodeFailed e')"
  using assms unfolding try_load_input_from_cache_def option.case Let_def cache_path_eq
  by (auto simp: store_input_def write_file_def lift_lib_def path_exists_def read_file_def)

lemma load_client_input_Ok:
  assumes "load_client_input B a w = (Ok inp, w')" "la_input_path a = None" "la_cache_dir a = Some dir"
  obtains "try_load_input_from_cache B (Some dir) CHAIN_ID_ETH_MAINNET (la_block_number a) w = Ok (Some inp)" "w' = w"
  | "store_input B dir CHAIN_ID_ETH_MAINNET (la_block_number a) inp w = (Ok (), w')"
  using assms
  by (auto simp: load_client_input_def and_then_Ok_iff split: if_splits option.splits outcome.splits)

text \<open>
  C37: inputs are fetched once. After a run that took its input from the cache directory or from the RPC node,
  every later run for the same block and the same directory gets the same input from the cache, writes
  nothing and does not need a node. This rests on bincode reading back what it wrote.
\<close>

theorem cached_input_reused:
  assumes "\<And>inp bs. be_encode_input B inp = Inr bs \<Longrightarrow> be_decode_input B bs = Inr inp"
    and "load_client_input B a w = (Ok inp, w')" "la_input_path a = None" "la_cache_dir a = Some dir"
    and "la_input_path b = None" "la_cache_dir b = Some dir" "la_block_number b = la_block_number a"
    and "into_provider B (la_provider b) = Ok \<lparr>pc_rpc_url = url, pc_chain_id = CHAIN_ID_ETH_MAINNET\<rparr>"
  shows "load_client_input B b w' = (Ok inp, w')"
proof -
  have "try_load_input_from_cache B (Some dir) CHAIN_ID_ETH_MAINNET (la_block_number a) w' = Ok (Some inp)"
    using load_client_input_Ok [OF assms(2-4)] stored_input_loads [OF assms(1)] by metis
  with assms(5-) show ?thesis by (simp add: load_client_input_def)
qed

theorem cached_input_reused_witness:
  "\<exists>inp w. load_client_input (bench_env_for inp)
       \<lparr>la_block_number = 2, la_provider = \<lparr>pa_rpc_url = Some ''node'', pa_chain_id = None\<rparr>, la_cache_dir = Some ''cache'', la_input_path = None\<rparr>
       bench_world = (Ok inp, w)
     \<and> load_client_input (bench_env_for inp)
       \<lparr>la_block_number = 2, la_provider = \<lparr>pa_rpc_url = None, pa_chain_id = Some 1\<rparr>, la_cache_dir = Some ''cache'', la_input_path = None\<rparr>
       w = (Ok inp, w)"
proof -
  let ?a = "\<lparr>la_block_number = 2, la_provider = \<lparr>pa_rpc_url = Some ''node'', pa_chain_id = None\<rparr>, la_cache_dir = Some ''cache'', la_input_path = None\<rparr>"
  let ?b = "\<lparr>la_block_number = 2, la_provider = \<lparr>pa_rpc_url = None, pa_chain_id = Some 1\<rparr>, la_cache_dir = Some ''cache'', la_input_path = None\<rparr>"
  obtain inp where inp: "host_execute chain_env (\<lambda>_. chain_evm) 2 = Ok inp" using chain_input by blast
  let ?B = "bench_env_for inp"
  have fresh: "\<not> path_exists (cache_file ''cache'' 1 2) bench_world" "\<not> path_exists (cache_folder ''cache'' 1) bench_world"
    by (simp_all add: path_exists_def bench_world_def cache_file_def cache_folder_def join_def ELF_PATH_def show_nat.simps)
  have p: "into_provider ?B (la_provider ?a) = Ok \<lparr>pc_rpc_url = Some ''node'', pc_chain_id = 1\<rparr>"
    "into_provider ?B (la_provider ?b) = Ok \<lparr>pc_rpc_url = None, pc_chain_id = CHAIN_ID_ETH_MAINNET\<rparr>"
    by (simp_all add: into_provider_def bench_env_for_def CHAIN_ID_ETH_MAINNET_def)
  have "try_load_input_from_cache ?B (Some ''cache'') 1 2 bench_world = Ok None"
    unfolding try_load_input_from_cache_def option.case Let_def cache_path_eq using fresh(1) by simp
  moreover obtain w1 where "create_dir_all ?B (cache_folder ''cache'' 1) bench_world = (Ok (), w1)" using bench_dirs(2) by blast
  then obtain w where "store_input ?B ''cache'' 1 2 inp bench_world = (Ok (), w)"
    using fresh(2) by (simp add: store_input_def write_file_def lift_lib_def bench_env_for_def)
  moreover have "be_host ?B ''node'' = chain_env" "be_host_evm ?B = (\<lambda>_. chain_evm)" by (simp_all add: bench_env_for_def)
  ultimately have a: "load_client_input ?B ?a bench_world = (Ok inp, w)"
    using p(1) inp by (simp add: load_client_input_def CHAIN_ID_ETH_MAINNET_def)
  have "be_decode_input ?B bs = Inr i" if "be_encode_input ?B i = Inr bs" for i bs
    using that by (auto simp: bench_env_for_def split: if_splits)
  from cached_input_reused [OF this a _ _ _ _ _ p(2)] a show ?thesis by (intro exI [of _ inp] exI [of _ w]) simp
qed

section \<open>Checked results\<close>

lemma check_digest_Ok: "check_digest h c x = Ok () \<longleftrightarrow> (\<exists>ws. c = Some ws \<and> x = Some 0 \<and> digest_bytes ws = h)"
  by (auto simp: check_digest_def split: option.splits)

lemma expect_Some [simp]: "expect (Some x) = Ok x"
  by (simp add: expect_def)

lemma prebuild_Ok:
  assumes "prebuild uw C H B Z G mode inp = Ok P"
  shows "needs_ceno_sdk mode \<Longrightarrow> pb_sdk P = prepared_sdk Z (Some (new_jagged_sdk B Z G)) (pb_hints P)"
    "needs_ceno_agg mode \<Longrightarrow> \<exists>a. pb_agg P = Some a \<and> cl_init_agg Z (new_jagged_sdk B Z G) = Inr a"
    "needs_ceno_hints mode \<Longrightarrow> \<exists>hs. pb_hints P = Some hs \<and>
       write_ceno_client_input uw (env_ext H) C (env_hashes H) (env_lib H) inp = Ok hs"
  using assms
  by (auto simp: prebuild_def Let_def needs_ceno_agg_def needs_ceno_sdk_def split: if_splits outcome.splits sum.splits option.splits)

lemma metrics_Ok:
  assumes "run_with_metric_collection B name f w = (Ok (), w')"
  obtains w1 where "f w = (Ok (), w1)" "\<forall>p. be_var B name \<noteq> Some p \<longrightarrow> files w' p = files w1 p"
  using assms
  by (auto simp: run_with_metric_collection_def and_then_Ok_iff write_file_def dest!: create_dir_all_files
      split: prod.splits outcome.splits option.splits if_splits)

lemma benchmark_Ok:
  assumes "run_ceno_reth_benchmark uw C H B Z args w = (Ok (), w')" "ha_mode args \<notin> {MakeInput, ExecuteHost}"
  obtains inp w1 G P header w2 where "load_client_input B (load_args.truncate args) w = (Ok inp, w1)" "bench_setup B Z w1 = Ok G"
    "prebuild uw C H B Z G (ha_mode args) inp = Ok P" "execute uw (env_ext H) C (env_hashes H) (env_lib H) Mainnet inp = Ok header"
    "run_mode B Z G P args (header_hash (env_hashes H) header) w1 = (Ok (), w2)"
    "\<forall>p. be_var B ''OUTPUT_PATH'' \<noteq> Some p \<longrightarrow> files w' p = files w2 p"
proof -
  obtain inp w1 G P where a: "load_client_input B (load_args.truncate args) w = (Ok inp, w1)" "bench_setup B Z w1 = Ok G"
      "prebuild uw C H B Z G (ha_mode args) inp = Ok P"
    and m: "run_with_metric_collection B ''OUTPUT_PATH'' (\<lambda>w. and_then (host_block_hash uw C H inp, w) (\<lambda>h w.
        if ha_mode args = ExecuteHost then (Ok (), w) else run_mode B Z G P args h w)) w1 = (Ok (), w')"
    using assms by (auto simp: run_ceno_reth_benchmark_def and_then_Ok_iff split: if_splits)
  from m obtain w2 where "and_then (host_block_hash uw C H inp, w1) (\<lambda>h w.
        if ha_mode args = ExecuteHost then (Ok (), w) else run_mode B Z G P args h w) = (Ok (), w2)"
    and kept: "\<forall>p. be_var B ''OUTPUT_PATH'' \<noteq> Some p \<longrightarrow> files w' p = files w2 p" by (rule metrics_Ok)
  with assms(2) that [OF a] kept show thesis by (auto simp: and_then_Ok_iff host_block_hash_def split: outcome.splits)
qed

subsection \<open>What the modes have checked\<close>

text \<open>The guest ran on the hints, exited with code 0 and committed the digest \<open>h\<close>: in a pure native run, and in a replayed emulation.\<close>

definition pure_run_commits ::
  "('g, 'v, 's, 'a, 'p, 'r) ceno_lib \<Rightarrow> 'g guest_program \<Rightarrow> hint list \<Rightarrow> bytes \<Rightarrow> bool" where
  "pure_run_commits Z G hs h \<longleftrightarrow>
     (\<exists>aot vm ws. cl_load_or_train_pure Z (gp_platform G) (gp_program G) (init_memory Z G hs) = Inr aot
        \<and> cl_run_pure_to_halt Z aot (loaded_vm Z G hs) max_steps = Inr vm
        \<and> cl_committed_public_io Z vm = Some ws \<and> cl_halted_exit_code Z vm = Some 0 \<and> digest_bytes ws = h)"

definition replay_commits ::
  "bench_env \<Rightarrow> ('g, 'v, 's, 'a, 'p, 'r) ceno_lib \<Rightarrow> 'g guest_program \<Rightarrow> hint list \<Rightarrow> bytes \<Rightarrow> bool" where
  "replay_commits B Z G hs h \<longleftrightarrow>
     (let ctx = guest_context B Z G; mem = guest_memory B Z G hs; emul = emulate_guest Z ctx mem;
          replay = cl_replay_full_trace Z emul (ctx_program ctx) (ctx_platform ctx) mem in
      er_preflight_execution emul \<noteq> None
      \<and> (\<exists>ws. rr_committed_public_io replay = Some ws \<and> rr_exit_code replay = Some 0 \<and> digest_bytes ws = h))"

text \<open>The verifier accepted the first base proof, when one shard was asked for, or all of them.\<close>

definition app_verified :: "('g, 'v, 's, 'a, 'p, 'r) ceno_lib \<Rightarrow> 's \<Rightarrow> u64 option \<Rightarrow> 'p list \<Rightarrow> bool" where
  "app_verified Z sdk shard_id proofs \<longleftrightarrow>
     (case shard_id of
        None \<Rightarrow> cl_verify_trace Z sdk proofs (Some 0) max_steps
      | Some _ \<Rightarrow> (case proofs of [] \<Rightarrow> False | p # _ \<Rightarrow> cl_verify_shard Z sdk p (Some 0) max_steps))"

text \<open>
  The root proof that aggregates the base proofs was accepted by the verifier, and its encoding is in the output directory, if there is one
  and the metrics are not directed to the same file.
\<close>

definition root_file :: "path \<Rightarrow> u64 \<Rightarrow> path" where
  "root_file dir block_number = join dir (show_nat (unat block_number) @ ''_root_proof.bin'')"

definition root_verified ::
  "bench_env \<Rightarrow> ('g, 'v, 's, 'a, 'p, 'r) ceno_lib \<Rightarrow> host_args \<Rightarrow> 'a \<Rightarrow> 'p list \<Rightarrow> world \<Rightarrow> bool" where
  "root_verified B Z args agg proofs w \<longleftrightarrow>
     (\<exists>root. cl_prove_root Z agg proofs = Inr root \<and> cl_verify_root Z agg (ro_root_vk root) (ro_root_proof root)
        \<and> (\<forall>dir. ha_output_dir args = Some dir \<and> be_var B ''OUTPUT_PATH'' \<noteq> Some (root_file dir (la_block_number args)) \<longrightarrow>
             (\<exists>bs. cl_encode_root Z (ro_root_proof root) = Inr bs \<and> files w (root_file dir (la_block_number args)) = Some bs)))"

lemma aot_pure_Ok:
  "aot_pure Z G P h = Ok () \<longleftrightarrow> cl_aot Z \<and> (\<exists>hs. pb_hints P = Some hs \<and> pure_run_commits Z G hs h)"
  by (auto simp: aot_pure_def pure_run_commits_def expect_def check_digest_Ok split: option.splits sum.splits)

lemma aot_full_Ok:
  "aot_full B Z G P h = Ok () \<longleftrightarrow> cl_aot Z \<and> (\<exists>hs. pb_hints P = Some hs \<and> replay_commits B Z G hs h)"
  by (auto simp: aot_full_def replay_commits_def expect_def check_digest_Ok Let_def split: option.splits)

lemma prove_app_Ok:
  assumes "prove_app B Z P args h w = (Ok (), w')"
  obtains sdk hs where "pb_sdk P = Some sdk" "pb_hints P = Some hs"
    "app_verified Z sdk (ha_shard_id args)
       (cl_generate_base_proof Z sdk hs (digest_words h) max_steps (map_option unat (ha_shard_id args)))"
proof -
  from assms obtain sdk hs where P: "pb_sdk P = Some sdk" "pb_hints P = Some hs"
    by (auto simp: prove_app_def expect_def and_then_Ok_iff split: option.splits)
  then show thesis
    using assms that [OF P]
    by (cases "ha_shard_id args"; cases "cl_generate_base_proof Z sdk hs (digest_words h) max_steps (map_option unat (ha_shard_id args))")
       (auto simp: prove_app_def app_verified_def and_then_Ok_iff Let_def split: if_splits)
qed

lemma prove_root_Ok:
  assumes "prove_root B Z agg args proofs w = (Ok (), w2)" "\<forall>p. be_var B ''OUTPUT_PATH'' \<noteq> Some p \<longrightarrow> files w' p = files w2 p"
  shows "root_verified B Z args agg proofs w'"
  using assms
  by (auto simp: root_verified_def root_file_def prove_root_def handle_ceno_root_proof_def write_file_def lift_lib_def and_then_Ok_iff
      split: if_splits sum.splits option.splits)

lemma prove_stark_Ok:
  assumes "prove_stark B Z P args h w = (Ok (), w')"
  obtains sdk agg hs w1 where "pb_sdk P = Some sdk" "pb_agg P = Some agg" "pb_hints P = Some hs"
    "prove_root B Z agg args (cl_generate_base_proof Z sdk hs (digest_words h) max_steps (map_option unat (ha_shard_id args))) w1 = (Ok (), w')"
  using assms by (auto simp: prove_stark_def expect_def and_then_Ok_iff Let_def split: option.splits)

lemma prove_stark_only_Ok:
  assumes "prove_stark_only B Z P args w = (Ok (), w')"
  obtains agg p bs proofs where "pb_agg P = Some agg" "ha_app_proofs args = Some p" "read_file B p w = Ok bs"
    "cl_decode_proofs Z bs = Inr proofs" "prove_root B Z agg args proofs w = (Ok (), w')"
  using assms
  by (auto simp: prove_stark_only_def expect_def read_object_from_file_def lift_lib_def and_then_Ok_iff split: option.splits outcome.splits sum.splits)

lemmas needs_defs = needs_ceno_sdk_def needs_ceno_agg_def needs_ceno_hints_def

lemma hint_mode_checked:
  assumes pre: "prebuild uw C H B Z G (ha_mode args) inp = Ok P" and run: "run_mode B Z G P args h w = (Ok (), w2)"
    and kept: "\<forall>p. be_var B ''OUTPUT_PATH'' \<noteq> Some p \<longrightarrow> files w' p = files w2 p"
    and mode: "ha_mode args \<in> {AotPure, AotFull, ProveApp, ProveStark}"
  shows "\<exists>hs sdk proofs. write_ceno_client_input uw (env_ext H) C (env_hashes H) (env_lib H) inp = Ok hs
    \<and> prepared_sdk Z (Some (new_jagged_sdk B Z G)) (Some hs) = Some sdk
    \<and> proofs = cl_generate_base_proof Z sdk hs (digest_words h) max_steps (map_option unat (ha_shard_id args))
    \<and> (ha_mode args = AotPure \<longrightarrow> pure_run_commits Z G hs h) \<and> (ha_mode args = AotFull \<longrightarrow> replay_commits B Z G hs h)
    \<and> (ha_mode args = ProveApp \<longrightarrow> app_verified Z sdk (ha_shard_id args) proofs)
    \<and> (ha_mode args = ProveStark \<longrightarrow>
        (\<exists>agg. cl_init_agg Z (new_jagged_sdk B Z G) = Inr agg \<and> root_verified B Z args agg proofs w'))"
proof -
  obtain hs where hs: "pb_hints P = Some hs" "write_ceno_client_input uw (env_ext H) C (env_hashes H) (env_lib H) inp = Ok hs"
    using prebuild_Ok(3) [OF pre] mode by (auto simp: needs_defs)
  obtain sdk where sdk: "prepared_sdk Z (Some (new_jagged_sdk B Z G)) (Some hs) = Some sdk" by (simp add: prepared_sdk_def)
  let ?proofs = "cl_generate_base_proof Z sdk hs (digest_words h) max_steps (map_option unat (ha_shard_id args))"
  have "ha_mode args = AotPure \<longrightarrow> pure_run_commits Z G hs h" "ha_mode args = AotFull \<longrightarrow> replay_commits B Z G hs h"
    using run hs(1) by (auto simp: run_mode_def aot_pure_Ok aot_full_Ok)
  moreover have "app_verified Z sdk (ha_shard_id args) ?proofs" if m: "ha_mode args = ProveApp"
  proof -
    have "prove_app B Z P args h w = (Ok (), w2)" using run m by (simp add: run_mode_def)
    then show ?thesis using hs(1) sdk prebuild_Ok(1) [OF pre] m by (auto simp: needs_defs elim!: prove_app_Ok)
  qed
  moreover have "\<exists>agg. cl_init_agg Z (new_jagged_sdk B Z G) = Inr agg \<and> root_verified B Z args agg ?proofs w'"
    if m: "ha_mode args = ProveStark"
  proof -
    have "prove_stark B Z P args h w = (Ok (), w2)" using run m by (simp add: run_mode_def)
    then show ?thesis
      using hs(1) sdk prebuild_Ok(1,2) [OF pre] m prove_root_Ok [OF _ kept] by (fastforce simp: needs_defs elim!: prove_stark_Ok)
  qed
  ultimately show ?thesis using hs(2) sdk by blast
qed

lemma stark_only_checked:
  assumes pre: "prebuild uw C H B Z G (ha_mode args) inp = Ok P" and run: "run_mode B Z G P args h w = (Ok (), w2)"
    and kept: "\<forall>p. be_var B ''OUTPUT_PATH'' \<noteq> Some p \<longrightarrow> files w' p = files w2 p" and mode: "ha_mode args = ProveStarkOnly"
  shows "\<exists>agg p bs proofs. cl_init_agg Z (new_jagged_sdk B Z G) = Inr agg \<and> ha_app_proofs args = Some p
    \<and> read_file B p w = Ok bs \<and> cl_decode_proofs Z bs = Inr proofs \<and> root_verified B Z args agg proofs w'"
proof -
  have "prove_stark_only B Z P args w = (Ok (), w2)" using run mode by (simp add: run_mode_def)
  then show ?thesis using prebuild_Ok(2) [OF pre] mode prove_root_Ok [OF _ kept] by (fastforce simp: needs_defs elim!: prove_stark_only_Ok)
qed

text \<open>
  C36: what a run of the driver has checked when it succeeds in one of the five modes that check a result. The block hash of the
  client's execution on the host is the reference. In the modes \<^verbatim>\<open>aot-pure\<close> and \<^verbatim>\<open>aot-full\<close> the guest, run on the hints
  written for the input, exited with code 0 and committed the block hash. In the mode \<^verbatim>\<open>prove-app\<close> the base proofs of the prepared SDK
  for these hints and the digest words of the block hash were accepted by the verifier. In the mode \<^verbatim>\<open>prove-stark\<close> the root proof that aggregates
  these base proofs was accepted by the verifier before it was written to the output directory, if one is given; the file survives unless the metrics are directed to its path.
  In the mode \<^verbatim>\<open>prove-stark-only\<close> the same holds of the root proof for the base proofs in the given file, which are not compared with the block.
  The modes \<^verbatim>\<open>execute\<close>, \<^verbatim>\<open>witness\<close>, \<^verbatim>\<open>analyze-shard-ram\<close> and \<^verbatim>\<open>generate-fixtures\<close> succeed without any such check.
\<close>

theorem benchmark_results_checked:
  assumes "run_ceno_reth_benchmark uw C H B Z args w = (Ok (), w')"
    and "ha_mode args \<in> {AotPure, AotFull, ProveApp, ProveStark, ProveStarkOnly}"
  shows "\<exists>inp w1 G header h. load_client_input B (load_args.truncate args) w = (Ok inp, w1) \<and> bench_setup B Z w1 = Ok G
    \<and> execute uw (env_ext H) C (env_hashes H) (env_lib H) Mainnet inp = Ok header \<and> h = header_hash (env_hashes H) header
    \<and> (ha_mode args \<in> {AotPure, AotFull, ProveApp, ProveStark} \<longrightarrow>
        (\<exists>hs sdk proofs. write_ceno_client_input uw (env_ext H) C (env_hashes H) (env_lib H) inp = Ok hs
          \<and> prepared_sdk Z (Some (new_jagged_sdk B Z G)) (Some hs) = Some sdk
          \<and> proofs = cl_generate_base_proof Z sdk hs (digest_words h) max_steps (map_option unat (ha_shard_id args))
          \<and> (ha_mode args = AotPure \<longrightarrow> pure_run_commits Z G hs h)
          \<and> (ha_mode args = AotFull \<longrightarrow> replay_commits B Z G hs h)
          \<and> (ha_mode args = ProveApp \<longrightarrow> app_verified Z sdk (ha_shard_id args) proofs)
          \<and> (ha_mode args = ProveStark \<longrightarrow>
              (\<exists>agg. cl_init_agg Z (new_jagged_sdk B Z G) = Inr agg \<and> root_verified B Z args agg proofs w'))))
    \<and> (ha_mode args = ProveStarkOnly \<longrightarrow>
        (\<exists>agg p bs proofs. cl_init_agg Z (new_jagged_sdk B Z G) = Inr agg \<and> ha_app_proofs args = Some p
          \<and> read_file B p w1 = Ok bs \<and> cl_decode_proofs Z bs = Inr proofs \<and> root_verified B Z args agg proofs w'))"
proof -
  have "ha_mode args \<notin> {MakeInput, ExecuteHost}" using assms(2) by auto
  from benchmark_Ok [OF assms(1) this] obtain inp w1 G P header w2 where
    r: "load_client_input B (load_args.truncate args) w = (Ok inp, w1)" "bench_setup B Z w1 = Ok G"
      "prebuild uw C H B Z G (ha_mode args) inp = Ok P" "execute uw (env_ext H) C (env_hashes H) (env_lib H) Mainnet inp = Ok header"
      "run_mode B Z G P args (header_hash (env_hashes H) header) w1 = (Ok (), w2)"
    and kept: "\<forall>p. be_var B ''OUTPUT_PATH'' \<noteq> Some p \<longrightarrow> files w' p = files w2 p" by blast
  show ?thesis
    by (intro exI conjI; (intro impI)?)
       (rule r(1,2,4) refl hint_mode_checked [OF r(3,5) kept] stark_only_checked [OF r(3,5) kept]; assumption?)+
qed

lemma bench_no_metrics: "f w = (Ok (), w') \<Longrightarrow> run_with_metric_collection (bench_env_for inp) name f w = (Ok (), w')"
  by (simp add: run_with_metric_collection_def bench_env_for_def)

theorem benchmark_results_checked_witness:
  "\<exists>w. run_ceno_reth_benchmark 64 two_codec bench_host (bench_env_for bench_input) bench_lib (bench_args ProveStark) bench_world = (Ok (), w)
     \<and> files w ''out/2_root_proof.bin'' = Some [5]
     \<and> list_all bench_verified (cl_generate_base_proof bench_lib () guest_input (digest_words bench_hash) max_steps None)"
proof -
  let ?B = "bench_env_for bench_input"
  have P: "prebuild 64 two_codec bench_host (bench_env_for bench_input) bench_lib bench_program ProveStark bench_input =
      Ok \<lparr>pb_sdk = Some (), pb_agg = Some (), pb_hints = Some guest_input\<rparr>"
    by (simp add: prebuild_def needs_ceno_sdk_def needs_ceno_agg_def needs_ceno_hints_def bench_hints bench_lib_def Let_def prepared_sdk_def)
  have io: "\<not> be_io_fails ?B p" for p by (simp add: bench_env_for_def)
  have v: "bench_verified (guest_input, digest_words bench_hash)" using bench_guest by (simp add: bench_verified_def bench_guest_result_def)
  have "\<exists>w. run_mode ?B bench_lib bench_program \<lparr>pb_sdk = Some (), pb_agg = Some (), pb_hints = Some guest_input\<rparr>
      (bench_args ProveStark) bench_hash bench_world = (Ok (), w)"
    using bench_dirs(1) [of bench_input] v
    by (auto simp: run_mode_def bench_args_def prove_stark_def write_app_proofs_def write_file_def
        lift_lib_def bench_lib_def prove_root_def handle_ceno_root_proof_def io create_dir_all_again)
  then obtain w where "run_ceno_reth_benchmark 64 two_codec bench_host ?B bench_lib (bench_args ProveStark) bench_world = (Ok (), w)"
    using P bench_loaded [of bench_input] bench_block_hash [of 64] bench_no_metrics
    by (auto simp: run_ceno_reth_benchmark_def) (auto simp: bench_args_def)
  moreover from benchmark_results_checked [OF this] have "files w (root_file ''out'' 2) = Some [5]"
    by (auto simp: bench_args_def bench_lib_def bench_env_for_def root_verified_def)
  moreover have "root_file ''out'' 2 = ''out/2_root_proof.bin''" by code_simp
  ultimately show ?thesis using v by (auto simp: bench_lib_def)
qed

section \<open>Agreement of the host and the guest\<close>

text \<open>
  What the zkVM's libraries document of a run, for the program \<open>G\<close> of the guest, hints \<open>hs\<close> and the digest \<open>result\<close> that the
  guest's program commits on these hints, if it ends without an error. The addresses of the hint region are distinct and the hints fit into it, a
  store changes one word of the memory \<open>mem\<close>, the program can be compiled, and a machine whose hint region holds the words
  of the hints, after stores to this region only, halts as the program does.
\<close>

definition ends_with :: "32 word list option \<Rightarrow> 32 word list option \<Rightarrow> 32 word option \<Rightarrow> bool" where
  "ends_with result committed exit_code \<longleftrightarrow>
     (case result of
        Some ws \<Rightarrow> committed = Some ws \<and> exit_code = Some 0
      | None \<Rightarrow> committed = None \<or> exit_code \<noteq> Some 0)"

definition load_words :: "('g, 'v, 's, 'a, 'p, 'r) ceno_lib \<Rightarrow> (32 word \<times> 32 word) list \<Rightarrow> 'v \<Rightarrow> 'v" where
  "load_words Z = fold (\<lambda>(addr, value) vm. cl_init_memory Z vm addr value)"

definition vm_runs_guest ::
  "('v \<Rightarrow> 32 word \<Rightarrow> 32 word) \<Rightarrow> ('g, 'v, 's, 'a, 'p, 'r) ceno_lib \<Rightarrow> 'g guest_program \<Rightarrow> hint list \<Rightarrow> 32 word list option \<Rightarrow> bool" where
  "vm_runs_guest mem Z G hs result \<longleftrightarrow>
     (let addrs = cl_hint_addresses Z (gp_platform G); words = cl_hint_words Z hs; fresh = cl_new_vm Z (gp_platform G) (gp_program G) in
      distinct addrs \<and> length words \<le> length addrs
      \<and> (\<forall>vm a v. mem (cl_init_memory Z vm a v) = (mem vm)(a := v))
      \<and> (\<exists>aot. cl_load_or_train_pure Z (gp_platform G) (gp_program G) (zip addrs words) = Inr aot)
      \<and> (\<forall>aot stores. cl_load_or_train_pure Z (gp_platform G) (gp_program G) (zip addrs words) = Inr aot
           \<and> fst ` set stores \<subseteq> set (take (length words) addrs)
           \<and> (\<forall>i < length words. mem (load_words Z stores fresh) (addrs ! i) = words ! i) \<longrightarrow>
           (case cl_run_pure_to_halt Z aot (load_words Z stores fresh) max_steps of
              Inl _ \<Rightarrow> result = None
            | Inr vm \<Rightarrow> ends_with result (cl_committed_public_io Z vm) (cl_halted_exit_code Z vm))))"

text \<open>The same for an emulation with compiled programs, sharded for the prover \<open>mp\<close>, and the replay of its trace.\<close>

definition replay_runs_guest ::
  "multi_prover \<Rightarrow> ('g, 'v, 's, 'a, 'p, 'r) ceno_lib \<Rightarrow> 'g guest_program \<Rightarrow> hint list \<Rightarrow> 32 word list option \<Rightarrow> bool" where
  "replay_runs_guest mp Z G hs result \<longleftrightarrow>
     (let ctx = cl_setup_program Z (gp_program G) (gp_platform G) mp;
          mem = cl_setup_init_mem Z ctx (cl_hint_words Z hs);
          cells = cl_step_cell_extractor Z (ctx_system_config ctx);
          preflight = cl_prepare_preflight_aot_program Z (ctx_program ctx) (ctx_platform ctx) (ctx_multi_prover ctx) cells mem;
          emul = cl_emulate_program Z (ctx_program ctx) max_steps mem (replicate 8 0) (ctx_platform ctx) (ctx_multi_prover ctx) cells
            (Some preflight) (Some (cl_prepare_fulltracer_aot_program Z preflight));
          replay = cl_replay_full_trace Z emul (ctx_program ctx) (ctx_platform ctx) mem in
      er_preflight_execution emul \<noteq> None \<and> ends_with result (rr_committed_public_io replay) (rr_exit_code replay))"

lemma load_words_memory:
  assumes "\<forall>vm a v. mem (cl_init_memory Z vm a v) = (mem vm)(a := v)" "distinct addrs"
  shows "i < length addrs \<Longrightarrow> i < length words \<Longrightarrow> mem (load_words Z (zip addrs words) vm) (addrs ! i) = words ! i"
    "a \<notin> set addrs \<Longrightarrow> mem (load_words Z (zip addrs words) vm) a = mem vm a"
proof -
  have "(a \<notin> set addrs \<longrightarrow> mem (load_words Z (zip addrs words) vm) a = mem vm a)
    \<and> (i < length addrs \<longrightarrow> i < length words \<longrightarrow> mem (load_words Z (zip addrs words) vm) (addrs ! i) = words ! i)" for a i
    using assms(2)
  proof (induction addrs arbitrary: words i a vm)
    case (Cons b bs)
    show ?case
    proof (cases words)
      case (Cons v vs)
      let ?vm = "cl_init_memory Z vm b v"
      have "mem (load_words Z (zip bs vs) ?vm) b = v" using Cons.IH [of b vs ?vm 0] Cons.prems assms(1) by simp
      with Cons.IH [of a vs ?vm "i - 1"] Cons.prems assms(1) \<open>words = v # vs\<close> show ?thesis
        by (cases i) (auto simp: load_words_def)
    qed (simp add: load_words_def)
  qed (simp add: load_words_def)
  then show "i < length addrs \<Longrightarrow> i < length words \<Longrightarrow> mem (load_words Z (zip addrs words) vm) (addrs ! i) = words ! i"
    "a \<notin> set addrs \<Longrightarrow> mem (load_words Z (zip addrs words) vm) a = mem vm a" by blast+
qed

lemma loaded_vm_words: "loaded_vm Z G hs = load_words Z (init_memory Z G hs) (cl_new_vm Z (gp_platform G) (gp_program G))"
  by (simp add: loaded_vm_def load_words_def)

lemma pure_run_agrees:
  assumes "vm_runs_guest mem Z G hs result"
  shows "pure_run_commits Z G hs h \<longleftrightarrow> (\<exists>ws. result = Some ws \<and> digest_bytes ws = h)"
proof -
  let ?addrs = "cl_hint_addresses Z (gp_platform G)" and ?words = "cl_hint_words Z hs"
  have len: "length ?words \<le> length ?addrs" and d: "distinct ?addrs"
    and m: "\<forall>vm a v. mem (cl_init_memory Z vm a v) = (mem vm)(a := v)"
    and aot: "\<exists>aot. cl_load_or_train_pure Z (gp_platform G) (gp_program G) (init_memory Z G hs) = Inr aot"
    using assms by (simp_all add: vm_runs_guest_def Let_def init_memory_def)
  have zip: "init_memory Z G hs = zip (take (length ?words) ?addrs) ?words" 
    using take_zip [of "length ?words" ?addrs ?words] by (simp add: init_memory_def)
  have "fst ` set (init_memory Z G hs) \<subseteq> set (take (length ?words) ?addrs)" unfolding zip by (auto dest: set_zip_leftD)
  moreover have "mem (loaded_vm Z G hs) (?addrs ! i) = ?words ! i" if "i < length ?words" for i
    using load_words_memory(1) [OF m d] that len by (simp add: loaded_vm_words init_memory_def)
  ultimately have "case cl_run_pure_to_halt Z a (loaded_vm Z G hs) max_steps of
      Inl _ \<Rightarrow> result = None | Inr vm \<Rightarrow> ends_with result (cl_committed_public_io Z vm) (cl_halted_exit_code Z vm)"
    if "cl_load_or_train_pure Z (gp_platform G) (gp_program G) (init_memory Z G hs) = Inr a" for a
    using assms that unfolding vm_runs_guest_def Let_def loaded_vm_words by (simp add: init_memory_def)
  with aot show ?thesis
    by (fastforce simp: pure_run_commits_def ends_with_def split: sum.splits option.splits)
qed

lemma replay_agrees:
  assumes "replay_runs_guest (shard_prover B) Z G hs result" "cl_aot Z"
  shows "replay_commits B Z G hs h \<longleftrightarrow> (\<exists>ws. result = Some ws \<and> digest_bytes ws = h)"
  using assms
  by (auto simp: replay_runs_guest_def replay_commits_def guest_context_def guest_memory_def emulate_guest_def compiled_guest_def
      ends_with_def Let_def split: option.splits)

definition guest_digest :: "eth_codec \<Rightarrow> host_env \<Rightarrow> hint list \<Rightarrow> 32 word list option" where
  "guest_digest C H hs = (case guest_main (env_ext H) C (env_hashes H) (env_lib H) hs of Ok ws \<Rightarrow> Some ws | _ \<Rightarrow> None)"

lemma guest_digest_Some: "guest_digest C H hs = Some ws \<longleftrightarrow> guest_main (env_ext H) C (env_hashes H) (env_lib H) hs = Ok ws"
  by (simp add: guest_digest_def split: outcome.splits)

lemma aot_prebuild:
  "mode \<in> {AotPure, AotFull} \<Longrightarrow> prebuild uw C H B Z G mode inp =
     (case write_ceno_client_input uw (env_ext H) C (env_hashes H) (env_lib H) inp of
        Ok hs \<Rightarrow> Ok \<lparr>pb_sdk = None, pb_agg = None, pb_hints = Some hs\<rparr>
      | Err e \<Rightarrow> Err (HintsFailed e)
      | Panic p \<Rightarrow> Panic p)"
  by (auto simp: prebuild_def needs_defs prepared_sdk_def split: outcome.splits)

text \<open>
  C38: the modes \<^verbatim>\<open>aot-pure\<close> and \<^verbatim>\<open>aot-full\<close> decide whether the host and the guest agree. For a driver with the \<^verbatim>\<open>aot\<close> feature, an input that loads, a
  guest program that loads, no \<^verbatim>\<open>--agg-pk-path\<close> and no file for the metrics, the run succeeds if and only if the client executes the input on the host,
  the hints can be written, and the guest's program, on these hints, ends without an error and commits the hash of the header that the host
  has computed. It rests on what \<open>vm_runs_guest\<close> and \<open>replay_runs_guest\<close> say of the zkVM for the hints of this run: a machine
  that holds the hints in its hint region runs the guest's program on them. That the driver's machine holds them there is part of the proof.
\<close>

theorem aot_decides_agreement:
  assumes "load_client_input B (load_args.truncate args) w = (Ok inp, w1)" "bench_setup B Z w1 = Ok G"
    and "ha_mode args \<in> {AotPure, AotFull}" "cl_aot Z" "ha_agg_pk_path args = None" "be_var B ''OUTPUT_PATH'' = None"
    and "\<And>hs. write_ceno_client_input uw (env_ext H) C (env_hashes H) (env_lib H) inp = Ok hs \<Longrightarrow>
      vm_runs_guest mem Z G hs (guest_digest C H hs) \<and> replay_runs_guest (shard_prover B) Z G hs (guest_digest C H hs)"
  shows "fst (run_ceno_reth_benchmark uw C H B Z args w) = Ok () \<longleftrightarrow>
    (\<exists>header hs ws. execute uw (env_ext H) C (env_hashes H) (env_lib H) Mainnet inp = Ok header
      \<and> write_ceno_client_input uw (env_ext H) C (env_hashes H) (env_lib H) inp = Ok hs
      \<and> guest_main (env_ext H) C (env_hashes H) (env_lib H) hs = Ok ws \<and> digest_bytes ws = header_hash (env_hashes H) header)"
proof (cases "write_ceno_client_input uw (env_ext H) C (env_hashes H) (env_lib H) inp")
  case (Ok hs)
  let ?P = "\<lparr>pb_sdk = None, pb_agg = None, pb_hints = Some hs\<rparr>"
  note agree = pure_run_agrees [of mem Z G hs "guest_digest C H hs"] replay_agrees [of B Z G hs "guest_digest C H hs"]
  have "fst (run_mode B Z G ?P args h w1) = Ok () \<longleftrightarrow> (\<exists>ws. guest_digest C H hs = Some ws \<and> digest_bytes ws = h)" for h
    using assms(3,4) assms(7) [OF Ok] agree [of h] by (auto simp: run_mode_def aot_pure_Ok aot_full_Ok)
  moreover have "fst (run_ceno_reth_benchmark uw C H B Z args w) = Ok () \<longleftrightarrow>
      (\<exists>header. execute uw (env_ext H) C (env_hashes H) (env_lib H) Mainnet inp = Ok header
        \<and> fst (run_mode B Z G ?P args (header_hash (env_hashes H) header) w1) = Ok ())"
    using assms(1-6) Ok
    by (auto simp: run_ceno_reth_benchmark_def aot_prebuild run_with_metric_collection_def host_block_hash_def split: outcome.splits prod.splits)
  ultimately show ?thesis using Ok by (auto simp: guest_digest_Some)
qed (use assms(1-6) in \<open>auto simp: run_ceno_reth_benchmark_def aot_prebuild\<close>)

lemma bench_vm_runs:
  "vm_runs_guest fst bench_lib bench_program guest_input (Some (digest_words bench_hash))"
  "replay_runs_guest mp bench_lib bench_program guest_input (Some (digest_words bench_hash))"
proof -
  have g: "bench_guest_result guest_input = (Some (digest_words bench_hash), Some 0)" using bench_guest by (simp add: bench_guest_result_def)
  have run: "bench_run vm = (fst vm, Some (digest_words bench_hash), Some 0)" if "fst vm 16 = 7" "fst vm 20 = 1" for vm
    using that g by (simp add: bench_run_def)
  have words: "cl_hint_words bench_lib guest_input = [7, 1]" by (simp add: bench_lib_def bench_words_def)
  have fields: "cl_hint_addresses bench_lib f = [16, 20, 24]" "cl_new_vm bench_lib f g = bench_start" "cl_init_memory bench_lib = bench_store"
    "cl_load_or_train_pure bench_lib f g i = Inr 0" "cl_run_pure_to_halt bench_lib a vm n = Inr (bench_run vm)"
    "cl_committed_public_io bench_lib vm = fst (snd vm)" "cl_halted_exit_code bench_lib vm = snd (snd vm)" for f g i a vm n
    by (simp_all add: bench_lib_def)
  have "ends_with (Some (digest_words bench_hash)) (fst (snd (bench_run vm))) (snd (snd (bench_run vm)))"
    if m: "\<forall>i < length [7, 1 :: 32 word]. fst vm ([16, 20, 24] ! i) = [7, 1] ! i" for vm
  proof -
    have "fst vm 16 = 7" "fst vm 20 = 1" using m [rule_format, of 0] m [rule_format, of 1] by simp_all
    then show ?thesis using run by (simp add: ends_with_def)
  qed
  then show "vm_runs_guest fst bench_lib bench_program guest_input (Some (digest_words bench_hash))"
    unfolding vm_runs_guest_def Let_def words fields sum.case by (intro conjI allI impI) (auto simp: bench_store_def)
  show "replay_runs_guest mp bench_lib bench_program guest_input (Some (digest_words bench_hash))"
    using run by (simp add: replay_runs_guest_def bench_lib_def bench_program_def bench_words_def bench_store_def ends_with_def Let_def)
qed

theorem aot_decides_agreement_witness:
  "fst (run_ceno_reth_benchmark 64 two_codec bench_host (bench_env_for bench_input) bench_lib (bench_args AotPure) bench_world) = Ok ()"
proof -
  let ?B = "bench_env_for bench_input"
  have d: "guest_digest two_codec bench_host guest_input = Some (digest_words bench_hash)" using bench_guest by (simp add: guest_digest_Some)
  have laws: "vm_runs_guest fst bench_lib bench_program hs (guest_digest two_codec bench_host hs)
      \<and> replay_runs_guest (shard_prover ?B) bench_lib bench_program hs (guest_digest two_codec bench_host hs)"
    if "write_ceno_client_input 64 (env_ext bench_host) two_codec (env_hashes bench_host) (env_lib bench_host) bench_input = Ok hs" for hs
    using that bench_hints bench_vm_runs d by simp
  have "ha_mode (bench_args AotPure) \<in> {AotPure, AotFull}" "cl_aot bench_lib" "ha_agg_pk_path (bench_args AotPure) = None"
    "be_var ?B ''OUTPUT_PATH'' = None" by (simp_all add: bench_args_def bench_lib_def bench_env_for_def)
  from aot_decides_agreement [OF bench_loaded this laws] bench_hints bench_guest bench_digest bench_block_hash [of 64]
  show ?thesis by (auto simp: host_block_hash_def split: outcome.splits)
qed

end
