(* ===== verification/Mpt_Tools.thy ===== *)
theory Mpt_Tools
  imports Bench_Input
begin

text \<open>
  Model of the tools of \<^verbatim>\<open>crates/mpt-tools/src/bin\<close>: \<^verbatim>\<open>generate_benchmark_data.rs\<close> writes the client's input for a
  block to a file, and \<^verbatim>\<open>mpt_profiler.rs\<close> runs parts of the client on it. Allocation profiling and
  printing are left out. The profiler executes the block once before it profiles, with reth's own
  executor, whose queries are the argument \<open>evm\<close>.
\<close>

section \<open>Arguments\<close>

definition block_number_from_env :: "bench_env \<Rightarrow> (bench_error, u64) outcome" where
  "block_number_from_env B =
     (case parse_u64 (case be_own_var B ''BLOCK'' of Some s \<Rightarrow> s | None \<Rightarrow> ''23100006'') of
        Some n \<Rightarrow> Ok n
      | None \<Rightarrow> Panic AssertionFailed)"

definition asks_for_help :: "string list \<Rightarrow> bool" where
  "asks_for_help args = (length args > 1 \<and> (args ! 1 = ''--help'' \<or> args ! 1 = ''-h''))"

definition data_file :: "u64 \<Rightarrow> path" where
  "data_file n = show_nat (unat n) @ ''.bin''"

section \<open>The generator\<close>

definition generate_main :: "bench_env \<Rightarrow> string list \<Rightarrow> world \<Rightarrow> (bench_error, unit) outcome \<times> world" where
  "generate_main B args w =
     (if asks_for_help args then (Ok (), w)
      else
        and_then (block_number_from_env B, w) (\<lambda>n w.
          case be_var B ''RPC_1'' of
            None \<Rightarrow> (Panic UnwrapNone, w)
          | Some s \<Rightarrow>
              (case be_parse_url B s of
                 None \<Rightarrow> (Err (InvalidInput ''RPC_1''), w)
               | Some url \<Rightarrow>
                   (case host_execute (be_host B url) (be_host_evm B) n of
                      Ok inp \<Rightarrow>
                        and_then (lift_lib EncodeFailed (be_encode_input B inp), w) (\<lambda>buffer w.
                          write_file B (data_file n) buffer w)
                    | Err e \<Rightarrow> (Err (RpcFailed ''host execution''), w)
                    | Panic p \<Rightarrow> (Panic p, w)))))"

section \<open>The profiler\<close>

record prof_env =
  pe_ext :: ext
  pe_codec :: eth_codec
  pe_hashes :: client_ext
  pe_lib :: exec_lib

definition unwrap :: "('e, 'a) outcome \<Rightarrow> ('f, 'a) outcome" where
  "unwrap r = (case r of Ok a \<Rightarrow> Ok a | Err _ \<Rightarrow> Panic UnwrapNone | Panic p \<Rightarrow> Panic p)"

definition decode_buffer :: "bench_env \<Rightarrow> bytes \<Rightarrow> (bench_error, client_input) outcome" where
  "decode_buffer B buffer = (case be_decode_input B buffer of Inl _ \<Rightarrow> Panic UnwrapNone | Inr inp \<Rightarrow> Ok inp)"

definition profile_witness_db ::
  "prof_env \<Rightarrow> client_input \<Rightarrow> (bench_error, ethereum_state) outcome" where
  "profile_witness_db F inp =
     (case unwrap (build_input_state (pe_ext F) (pe_codec F) inp) of
        Ok st \<Rightarrow> (case unwrap (input_witness_db (pe_hashes F) inp st) of Ok _ \<Rightarrow> Ok st | Err e \<Rightarrow> Err e | Panic p \<Rightarrow> Panic p)
      | Err e \<Rightarrow> Err e
      | Panic p \<Rightarrow> Panic p)"

definition profile_update ::
  "prof_env \<Rightarrow> execution_output \<Rightarrow> ethereum_state \<Rightarrow> (bench_error, unit) outcome \<times> ethereum_state" where
  "profile_update F outcome st =
     (case update_from_bundle_state (pe_ext F) (pe_codec F) (out_bundle outcome) st of (r, st) \<Rightarrow> (unwrap r, st))"

definition profile_state_root ::
  "prof_env \<Rightarrow> execution_output \<Rightarrow> ethereum_state \<Rightarrow> (bench_error, bytes) outcome" where
  "profile_state_root F outcome st =
     (case profile_update F outcome st of
        (Ok _, st) \<Rightarrow> unwrap (fst (hash (pe_ext F) (state_trie st)))
      | (Err e, _) \<Rightarrow> Err e
      | (Panic p, _) \<Rightarrow> Panic p)"

definition profile_end_to_end ::
  "bench_env \<Rightarrow> prof_env \<Rightarrow> bytes \<Rightarrow> execution_output \<Rightarrow> (bench_error, bytes) outcome" where
  "profile_end_to_end B F buffer outcome =
     (case decode_buffer B buffer of
        Ok inp \<Rightarrow>
          (case profile_witness_db F inp of
             Ok st \<Rightarrow> profile_state_root F outcome st | Err e \<Rightarrow> Err e | Panic p \<Rightarrow> Panic p)
      | Err e \<Rightarrow> Err e
      | Panic p \<Rightarrow> Panic p)"

text \<open>The execution before profiling: the database of the input, the senders and the block.\<close>

definition profiled_outcome ::
  "prof_env \<Rightarrow> (eth_block \<Rightarrow> evm) \<Rightarrow> client_input \<Rightarrow> (bench_error, ethereum_state \<times> execution_output) outcome" where
  "profiled_outcome F evm inp =
     (case unwrap (build_input_state (pe_ext F) (pe_codec F) inp) of
        Ok st \<Rightarrow>
          (case unwrap (input_witness_db (pe_hashes F) inp st) of
             Ok db \<Rightarrow>
               (if try_into_recovered (pe_lib F) (ci_current_block inp) \<noteq> None then Panic UnwrapNone
                else
                  (case unwrap (fst (run_evm (pe_ext F) (pe_codec F) (pe_hashes F) (evm (ci_current_block inp)) db)) of
                     Ok out \<Rightarrow> Ok (st, out) | Err e \<Rightarrow> Err e | Panic p \<Rightarrow> Panic p))
           | Err e \<Rightarrow> Err e
           | Panic p \<Rightarrow> Panic p)
      | Err e \<Rightarrow> Err e
      | Panic p \<Rightarrow> Panic p)"

text \<open>The result is the state root where the operation computes one.\<close>

definition run_operation ::
  "bench_env \<Rightarrow> prof_env \<Rightarrow> string \<Rightarrow> bytes \<Rightarrow> client_input \<Rightarrow> ethereum_state \<times> execution_output \<Rightarrow>
   (bench_error, bytes option) outcome" where
  "run_operation B F operation buffer inp so =
     (let with_root = (\<lambda>r. case r of Ok h \<Rightarrow> Ok (Some h) | Err e \<Rightarrow> Err e | Panic p \<Rightarrow> Panic p);
          without = (\<lambda>r. case r of Ok _ \<Rightarrow> Ok None | Err e \<Rightarrow> Err e | Panic p \<Rightarrow> Panic p) in
      if operation = ''all'' \<or> operation = ''end-to-end'' then with_root (profile_end_to_end B F buffer (snd so))
      else if operation = ''deserialize'' then (case decode_buffer B buffer of Ok _ \<Rightarrow> Ok None | Err e \<Rightarrow> Err e | Panic p \<Rightarrow> Panic p)
      else if operation = ''witness'' then (case profile_witness_db F inp of Ok _ \<Rightarrow> Ok None | Err e \<Rightarrow> Err e | Panic p \<Rightarrow> Panic p)
      else if operation = ''update'' then without (fst (profile_update F (snd so) (fst so)))
      else if operation = ''state-root'' then with_root (profile_state_root F (snd so) (fst so))
      else Ok None)"

definition profiler_main ::
  "bench_env \<Rightarrow> prof_env \<Rightarrow> (eth_block \<Rightarrow> evm) \<Rightarrow> string list \<Rightarrow> world \<Rightarrow> (bench_error, bytes option) outcome" where
  "profiler_main B F evm args w =
     (if asks_for_help args then Ok None
      else
        (let operation = (if length args > 1 then args ! 1 else ''all'') in
         case block_number_from_env B of
           Ok n \<Rightarrow>
             (case read_file B (data_file n) w of
                Ok buffer \<Rightarrow>
                  (case decode_buffer B buffer of
                     Ok inp \<Rightarrow>
                       (case profiled_outcome F evm inp of
                          Ok so \<Rightarrow> run_operation B F operation buffer inp so
                        | Err e \<Rightarrow> Err e
                        | Panic p \<Rightarrow> Panic p)
                   | Err e \<Rightarrow> Err e
                   | Panic p \<Rightarrow> Panic p)
              | Err e \<Rightarrow> Panic AssertionFailed
              | Panic p \<Rightarrow> Panic p)
         | Err e \<Rightarrow> Err e
         | Panic p \<Rightarrow> Panic p))"

section \<open>What the tools do together\<close>

lemma generated_data_read:
  assumes rt: "\<And>inp bs. be_encode_input B inp = Inr bs \<Longrightarrow> be_decode_input B bs = Inr inp"
    and run: "generate_main B args w = (Ok (), w')" "\<not> asks_for_help args"
  obtains n url inp bs where "block_number_from_env B = Ok n" "host_execute (be_host B url) (be_host_evm B) n = Ok inp"
    "read_file B (data_file n) w' = Ok bs" "decode_buffer B bs = Ok inp"
proof -
  obtain n where n: "block_number_from_env B = Ok n" using run by (cases "block_number_from_env B") (simp_all add: generate_main_def)
  obtain s where s: "be_var B ''RPC_1'' = Some s" using run n by (cases "be_var B ''RPC_1''") (simp_all add: generate_main_def)
  obtain url where url: "be_parse_url B s = Some url" using run n s by (cases "be_parse_url B s") (simp_all add: generate_main_def)
  obtain inp where inp: "host_execute (be_host B url) (be_host_evm B) n = Ok inp"
    using run n s url by (cases "host_execute (be_host B url) (be_host_evm B) n") (simp_all add: generate_main_def)
  obtain bs where "be_encode_input B inp = Inr bs"
    using run n s url inp by (cases "be_encode_input B inp") (simp_all add: generate_main_def lift_lib_def)
  with run n s url inp have r: "block_number_from_env B = Ok n" "host_execute (be_host B url) (be_host_evm B) n = Ok inp"
    "be_encode_input B inp = Inr bs" "write_file B (data_file n) bs w = (Ok (), w')"
    by (simp_all add: generate_main_def lift_lib_def)
  from r(4) have "read_file B (data_file n) w' = Ok bs" by (auto simp: write_file_def read_file_def split: if_splits)
  with that r(1,2) rt [OF r(3)] show thesis by (simp add: decode_buffer_def)
qed

end
