(* ===== verification/Spec2Isabelle.thy ===== *)
theory Spec2Isabelle
  imports Trie_Properties Codec_Properties Witness_Properties State_Properties Frontier_Properties
    Guest_Properties Stream_Properties Honest_Properties Witness_Replay Frontier_Partition Decode_Typed Bump_Buffer Block_Executor Client_Serde
    Bench_Properties Mpt_Tools
begin

text \<open>
  \<^bold>\<open>Verification of the stateless Ethereum block prover\<close>

  The program proves that an Ethereum block executes correctly without holding the Ethereum
  state. A host collects the part of the state that the block touches, as Merkle Patricia tries
  with unresolved parts, and hands it to a client that runs inside a zkVM. The client checks the
  tries against the state root of the parent header, executes the block on them, updates them and
  compares the new root with the one in the block. Its parts, under \<^verbatim>\<open>src/crates\<close>:

  \<^item> \<^verbatim>\<open>mpt\<close>: the Merkle Patricia trie (\<^verbatim>\<open>hp.rs\<close>, \<^verbatim>\<open>node.rs\<close>, \<^verbatim>\<open>trie.rs\<close>), the state made of
    such tries (\<^verbatim>\<open>state.rs\<close>), and the import of tries from account proofs (\<^verbatim>\<open>from_proof.rs\<close>,
    \<^verbatim>\<open>resolver.rs\<close>).
  \<^item> \<^verbatim>\<open>executor/client\<close>: the client. \<^verbatim>\<open>io.rs\<close> holds its input, the databases the EVM reads
    from and the update of the state, \<^verbatim>\<open>lib.rs\<close> the execution of a block.
  \<^item> \<^verbatim>\<open>executor/host\<close>, \<^verbatim>\<open>storage/rpc-db\<close>, \<^verbatim>\<open>primitives\<close>: the host, which executes the block on a
    database of RPC calls and collects the client's input from what was asked.
  \<^item> \<^verbatim>\<open>host-bench\<close>: the benchmark driver. It gets the client's input from a file, the cache or the host
    executor, executes it on the host, prepares what the client reads in the zkVM
    (\<^verbatim>\<open>write_ceno_client_input\<close>) and executes or proves the guest in one of its modes.
  \<^item> \<^verbatim>\<open>mpt-tools\<close>: a generator of input files and a profiler of the client's steps on them.

  \<^bold>\<open>Conventions.\<close> A call ends with \<open>Ok\<close>, \<open>Err\<close> or \<open>Panic\<close> (theory \<open>Prelude\<close>), and state that the code
  mutates is passed and returned. Bytes are \<open>8 word\<close>, arena indices \<open>32 word\<close>, slots and balances
  \<open>256 word\<close>. Code outside the repository is a parameter: the RLP library and Keccak are the
  record \<open>ext\<close> with the laws of the locale \<open>rlp_laws\<close> (theory \<open>Rlp_Interface\<close>, interpreted by a
  concrete RLP codec with a stand-in for Keccak), the codecs of accounts and values are
  \<open>eth_codec\<close>, header and bytecode hashes \<open>client_ext\<close>, the EVM and the consensus rules \<open>exec_lib\<close>. The vector of the
  bump allocator is \<open>vec_lib\<close> with the laws \<open>vec_laws\<close>, REVM's block executor \<open>strategy\<close> with the laws
  \<open>bal_laws\<close>, the system and the serialisation libraries of the driver \<open>bench_env\<close>, and the zkVM with its
  provers \<open>ceno_lib\<close>. The file system is a state, \<open>world\<close>.
  No law says that Keccak has no collisions; where authenticity needs it, the hypothesis
  \<open>collision_free\<close> excludes collisions between parts of the given input and the nodes of the given
  trie.

  \<^bold>\<open>Theories.\<close>

  \<^item> \<open>Hex_Prefix\<close> models \<^verbatim>\<open>hp.rs\<close>: nibble paths and their compact form; round trip and
    agreement of the packed comparisons with the decoded ones.
  \<^item> \<open>Mpt_Types\<close>, \<open>Mpt_Arena\<close>, \<open>Mpt_Hash\<close> model \<^verbatim>\<open>node.rs\<close> and the trie operations of \<^verbatim>\<open>trie.rs\<close>
    on the arena of nodes with its reference cache.
  \<^item> \<open>Patricia_Spec\<close> and \<open>Merkle_Spec\<close> are the specification: an inductive Patricia tree with
    lookup, insertion and deletion, its canonical form, and its Merkle root. \<open>Arena_Rep\<close> says when
    an arena represents a tree. \<open>Hash_Refine\<close>, \<open>Arena_Update\<close> and \<open>Update_Refine\<close> prove that every
    operation of the arena implements the one on trees, cache included.
  \<^item> \<open>Auth_Map\<close> is the interface of an authenticated map as a locale; \<open>Trie_Laws\<close> interprets it by
    the trie, and \<open>Trie_Properties\<close> states what the trie promises.
  \<^item> \<open>Mpt_Codec\<close> models the serialisation of tries; \<open>Codec_Correct\<close>, \<open>Codec_Decode\<close> and
    \<open>Codec_Properties\<close> prove the round trip.
    \<open>Decode_Bounds\<close> bounds the decoder on arbitrary input, and \<open>Decode_Typed\<close> shows that the arena it builds is
    well typed, so that no read of it panics.
  \<^item> \<open>Blinded\<close> relates a pruned trie to the full trie it stands for: same root, same reads, and
    updates that commute. \<open>Codec_Authentic\<close> shows that whatever bytes decode to a trie with the root of a
    full trie blind this trie, up to a Keccak collision between the input and a node of the full
    trie. \<open>Pruned_Updates\<close> and \<open>Witness_Properties\<close> put both together: reads of the client are
    authentic and the root it computes is the root of the updated full state.
  \<^item> \<open>Mpt_Frontier\<close> models the partition of a trie into a frontier and chunks. \<open>Frontier_Refine\<close>
    proves that replacing a slot implements the replacement on trees; \<open>Frontier_Correct\<close> and
    \<open>Frontier_Properties\<close> that updating chunk by chunk gives the root of the updated full trie, and
    where this argument ends: a chunk that becomes empty. \<open>Frontier_Collect\<close>, \<open>Frontier_Build\<close> and
    \<open>Frontier_Partition\<close> prove the host's construction correct: the search finds places that are referenced by
    digests, none above another; cutting them out keeps the root; every key that does not leave the
    trie inside the path of an extension has a chunk, and the host's own check of the frontier passes.
  \<^item> \<open>Eth_State\<close> models \<^verbatim>\<open>state.rs\<close>. \<open>Updatable_Map\<close> is the interface of a map that is partly
    unknown as a locale, interpreted by the trie with byte keys and with nibble keys;
    \<open>State_Correct\<close> and \<open>State_Properties\<close> use it to say what a bundle of changes does to a state.
    \<open>Proof_Import\<close> models \<^verbatim>\<open>from_proof.rs\<close>, \<^verbatim>\<open>resolver.rs\<close> and
    the owned tries of \<^verbatim>\<open>trie.rs\<close>.
  \<^item> \<open>Client_Types\<close>, \<open>Client_Io\<close>, \<open>Client_Update\<close>, \<open>Witness_Db\<close> model \<^verbatim>\<open>io.rs\<close>, \<^verbatim>\<open>error.rs\<close> and
    \<^verbatim>\<open>capacity.rs\<close>; \<open>Client_Exec\<close> models \<^verbatim>\<open>lib.rs\<close>, with the EVM as a program that asks the
    database one query at a time. \<open>Host_Hints\<close> models the writer of the streamed input.
  \<^item> \<open>Client_Chain\<close> proves the header chain, the nibble routine and the capacity hints correct;
    \<open>Witness_Replay\<close> proves that the streamed client answers the EVM as the eager one does.
  \<^item> \<open>Rpc_Db\<close> and \<open>Host_Executor\<close> model \<^verbatim>\<open>rpc-db/src/lib.rs\<close>, \<^verbatim>\<open>account_proof.rs\<close> and
    \<^verbatim>\<open>executor/host/src/lib.rs\<close> over a provider of RPC answers. \<open>Host_Correct\<close> and \<open>Host_Properties\<close>
    prove that the host requests everything the execution read, and that its ancestor headers pass
    the client's check.
  \<^item> \<open>Guest\<close> models \<^verbatim>\<open>bin/ceno-client-eth/src/main.rs\<close>, the program that is proved;
    \<open>Guest_Properties\<close> says which checks have passed when it commits a digest.
  \<^item> The soundness of the streaming client is proved in a chain of theories. \<open>Tree_Updates\<close>: lists of
    updates on trees, and what the decoder returns for bytes with a given root. \<open>Stream_Spec\<close>: the full state, as an
    account trie \<open>F\<close> and storage tries \<open>S\<close>, and the effect of a bundle entry on it. \<open>Stream_Chunk\<close>:
    reading a chunk, checking cached accounts, the new storage root and the update of one account.
    \<open>Stream_Step\<close> and \<open>Stream_Run\<close>: one chunk and all chunks, with the invariant \<open>run_inv\<close> that the
    frontier blinds the full trie after the entries so far. \<open>Stream_Exec\<close>: execution of the EVM on the full
    state as the relation \<open>evm_on\<close>, and that a streamed run whose cached accounts are authentic is
    one. \<open>Stream_Sound\<close> and \<open>Stream_Properties\<close>: an accepted update gives the root of the updated full
    state, and a committed digest proves a state transition of the full state. \<open>Stream_Example\<close> is a world
    with one account in which all hypotheses hold and the guest runs.

    The hypothesis \<open>run_ok\<close> of these theorems speaks of the bundle that the EVM puts out on the given hints. It bounds the bundle and excludes three cases in which the code
    works on nodes it does not have: a deletion that merges a branch with an unresolved
    child, a chunk that becomes empty, and a branch below an extension that stops being
    a branch (\<open>chunk_safe\<close>).

  \<^item> The converse, that the hints of an honest host are accepted, is proved in the theories \<open>Honest_\<close>. \<open>Honest_Tree\<close>: updates of
    readable keys succeed, the eager update of a bundle is a list of updates of the account trie, and going through the changed accounts in the
    order of their hashes gives every chunk all of its accounts. \<open>Honest_Record\<close>: what is recorded during execution.
    \<open>Honest_Read\<close>, \<open>Honest_Chunk\<close> and \<open>Honest_Step\<close>: the client reads a chunk with its witnesses, updates it with no storage trie
    left over, and puts the new root into the frontier. \<open>Honest_Run\<close>: all chunks, with the invariants \<open>frontier_inv\<close> and \<open>stream_ok\<close>, and
    the accounts that stay in the cache. \<open>Honest_Input\<close> and \<open>Honest_Host\<close>: the host's input, what it records for the update, and its tables.
    \<open>Honest_Guest\<close>, \<open>Honest_Client\<close>, \<open>Honest_Properties\<close>: the hints, and that the guest commits the header of the host's own run. The
    hypotheses \<open>input_world\<close>, \<open>bundle_world\<close> and \<open>frontier_world\<close> name what the code relies on: the input encodes tries
    in which the changed accounts can be read, and the three cases excluded by \<open>run_ok\<close>, keys that leave an extension and
    destroyed accounts that are created again with storage do not occur.

  \<^item> \<open>Bump_Buffer\<close> models \<^verbatim>\<open>bump_bufmut.rs\<close>, through which nodes are encoded. The locale \<open>buf_mut\<close> is the contract
    of a growing byte buffer; the buffer over any vector with \<open>vec_laws\<close> satisfies it, unsafe writes included.
  \<^item> \<open>Block_Executor\<close> models the executor of \<^verbatim>\<open>capacity.rs\<close> and proves at which block access list index each
    step of a block runs. \<open>Client_Serde\<close> models the serialisation of a block in the client's input.
  \<^item> \<open>Bench_Input\<close> and \<open>Bench_Driver\<close> model \<^verbatim>\<open>cli.rs\<close> and the driver in \<^verbatim>\<open>host-bench/src/lib.rs\<close>: loading and caching,
    the setup of a mode, and the modes, with every call of the zkVM's libraries as a parameter. \<open>Bench_Properties\<close> proves that a fetched input is reused from
    the cache; what a successful run has checked, mode by mode: the guest's digest, the base proofs or the root proof; and that the
    modes \<^verbatim>\<open>aot-pure\<close> and \<^verbatim>\<open>aot-full\<close> succeed exactly when the guest, on the hints that the driver wrote, commits the host's block hash, for a zkVM
    with \<open>vm_runs_guest\<close> and \<open>replay_runs_guest\<close>. \<open>Bench_Example\<close> is a zkVM that runs the guest's model.
    \<open>Mpt_Tools\<close> models the generator and the profiler, and that the profiler reads what the generator wrote.

  \<^bold>\<open>Bounds and fuel.\<close> The recursions over the arena take fuel, and running out of it is a panic.
  The fuel of the operations (\<open>walk_fuel\<close>, \<open>hash_fuel\<close>) is a function of the arena and the key; the
  refinement theorems show that it is enough whenever the arena represents a tree, since they
  exclude every panic. The decoder's fuel is the length of its input, every level of which reads
  at least one byte. Arena indices are 32 bits wide: the theorems on insertion assume that the new
  nodes still have indices (\<open>capacity_left\<close>).

  \<^bold>\<open>Not modelled.\<close> The model is that of a release build: debug assertions (in \<^verbatim>\<open>from_rlp_slice\<close>, in \<^verbatim>\<open>build_frontier_weighted\<close> and the encoding of references in \<^verbatim>\<open>trie.rs\<close>, and in \<^verbatim>\<open>resolve_nodes\<close>) are not executed, and the sums of frontier weights, which are bounded by the size of the block's changes,
  are natural numbers. Formatting, printing, timing, tracing and the contents of the collected metrics. The bump
  allocator itself. The driver \<^verbatim>\<open>run_reth_benchmark\<close> of the feature \<^verbatim>\<open>openvm-backend\<close>, whose configuration function is
  \<^verbatim>\<open>unimplemented!\<close>, and the mode \<^verbatim>\<open>ProveEvm\<close> of a feature that is off. \<^verbatim>\<open>bin/verifier-bench\<close>, which times calls of the openvm
  libraries. \<^verbatim>\<open>bin/ceno-host\<close>, which parses the arguments and calls the driver. The constants of
  \<^verbatim>\<open>chain_spec.rs\<close>, which only the EVM and the consensus rules read. The accessors of the block executor that hand
  the call to REVM's state.
\<close>

end
